(* ===== verification/Prelude.thy ===== *)
theory Prelude
  imports Main "HOL-Library.Word"
begin

text \<open>
  The shared library of the development: the C integer types of \<^verbatim>\<open>kernel/types.h\<close>, the result
  type every kernel routine returns, the loop combinator the table scans use, little-endian
  byte encodings of machine words, and the generic lemmas on lists and words the component
  theories rely on.
\<close>

unbundle bit_operations_syntax

section \<open>C integer types\<close>

type_synonym uchar = "8 word"
type_synonym ushort = "16 word"
type_synonym uint = "32 word"
type_synonym cint = "32 word"
type_synonym uint64 = "64 word"

text \<open>
  \<open>cint\<close> is the C type \<^verbatim>\<open>int\<close>: the same 32 bits, read with \<^const>\<open>sint\<close> and compared with
  the signed order.
\<close>

abbreviation minus_one :: cint where
  "minus_one \<equiv> -1"

section \<open>Lemma collections\<close>

named_theorems lock_simps
named_theorems frame_simps
named_theorems enc_simps

section \<open>Results of kernel code\<close>

text \<open>
  A kernel routine started in a state \<open>s\<close> either returns a value in a new state (\<open>Ret\<close>),
  stops the machine with a message (\<open>Panic\<close>), gives the CPU to the scheduler by \<^verbatim>\<open>swtch\<close>
  (\<open>Swtch\<close>, with the state the scheduler takes over), never comes back (\<open>Hang\<close>), or accesses
  memory outside the object it was given (\<open>Fault\<close>, undefined behaviour in C).
\<close>

datatype ('a, 's) res = Ret 'a 's | Panic string | Swtch 's | Hang | Fault

fun res_bind :: "('a, 's) res \<Rightarrow> ('a \<Rightarrow> 's \<Rightarrow> ('b, 's) res) \<Rightarrow> ('b, 's) res" where
  "res_bind (Ret a s) f = f a s"
| "res_bind (Panic m) f = Panic m"
| "res_bind (Swtch s) f = Swtch s"
| "res_bind Hang f = Hang"
| "res_bind Fault f = Fault"

text \<open>An access that may leave its object.\<close>

definition lift_opt :: "'a option \<Rightarrow> 's \<Rightarrow> ('a, 's) res" where
  "lift_opt r s = (case r of None \<Rightarrow> Fault | Some a \<Rightarrow> Ret a s)"

lemma lift_opt_simps [simp]:
  "lift_opt None s = Fault"
  "lift_opt (Some a) s = Ret a s"
  by (simp_all add: lift_opt_def)

lemma res_bind_assoc: "res_bind (res_bind m f) g = res_bind m (\<lambda>a s. res_bind (f a s) g)"
  by (cases m) simp_all

lemma res_bind_Ret [simp]: "res_bind m Ret = m"
  by (cases m) simp_all

lemma res_bind_eq_Ret_iff:
  "res_bind m f = Ret b t \<longleftrightarrow> (\<exists>a s. m = Ret a s \<and> f a s = Ret b t)"
  by (cases m) auto

lemma res_bind_if [simp]:
  "res_bind (if c then m else n) f = (if c then res_bind m f else res_bind n f)"
  by simp

text \<open>
  \<open>returns m P\<close>: total correctness, the routine comes back and its value and state satisfy \<open>P\<close>.
  \<open>keeps I m\<close>: whatever state the routine hands on, to its caller or to the scheduler,
  satisfies \<open>I\<close>.
\<close>

definition returns :: "('a, 's) res \<Rightarrow> ('a \<Rightarrow> 's \<Rightarrow> bool) \<Rightarrow> bool" where
  "returns m P \<longleftrightarrow> (case m of Ret a s \<Rightarrow> P a s | _ \<Rightarrow> False)"

definition keeps :: "('s \<Rightarrow> bool) \<Rightarrow> ('a, 's) res \<Rightarrow> bool" where
  "keeps I m \<longleftrightarrow> (case m of Ret a s \<Rightarrow> I s | Swtch s \<Rightarrow> I s | _ \<Rightarrow> True)"

lemma returns_simps [simp]:
  "returns (Ret a s) P = P a s"
  "returns (Panic m) P = False"
  "returns (Swtch s) P = False"
  "returns Hang P = False"
  "returns Fault P = False"
  by (simp_all add: returns_def)

lemma keeps_simps [simp]:
  "keeps I (Ret a s) = I s"
  "keeps I (Panic m) = True"
  "keeps I (Swtch s) = I s"
  "keeps I Hang = True"
  "keeps I Fault = True"
  by (simp_all add: keeps_def)

lemma returns_bind:
  "returns m P \<Longrightarrow> (\<And>a s. P a s \<Longrightarrow> returns (f a s) Q) \<Longrightarrow> returns (res_bind m f) Q"
  by (cases m) auto

lemma returns_mono: "returns m P \<Longrightarrow> (\<And>a s. P a s \<Longrightarrow> Q a s) \<Longrightarrow> returns m Q"
  by (cases m) auto

lemma returnsE: "returns m P \<Longrightarrow> (\<And>a s. m = Ret a s \<Longrightarrow> P a s \<Longrightarrow> Q) \<Longrightarrow> Q"
  by (cases m) auto

lemma returns_unitD: "returns m (\<lambda>_ t. Q t) \<Longrightarrow> \<exists>t. m = Ret () t \<and> Q t"
  by (cases m) simp_all

lemma keeps_bind:
  "keeps I m \<Longrightarrow> (\<And>a s. m = Ret a s \<Longrightarrow> I s \<Longrightarrow> keeps I (f a s)) \<Longrightarrow> keeps I (res_bind m f)"
  by (cases m) auto

lemma keeps_if: "(c \<Longrightarrow> keeps I m) \<Longrightarrow> (\<not> c \<Longrightarrow> keeps I n) \<Longrightarrow> keeps I (if c then m else n)"
  by simp

section \<open>Loops over a table\<close>

text \<open>
  \<open>for_loop f is s\<close> runs the body \<open>f\<close> for each index of \<open>is\<close> in order. A body that answers
  \<open>Some r\<close> is a \<^verbatim>\<open>return r\<close> (or a \<^verbatim>\<open>break\<close>) from inside the loop; \<open>None\<close> goes on to the
  next index, and a loop that runs to its end answers \<open>None\<close>.
\<close>

fun for_loop :: "('i \<Rightarrow> 's \<Rightarrow> ('r option, 's) res) \<Rightarrow> 'i list \<Rightarrow> 's \<Rightarrow> ('r option, 's) res" where
  "for_loop f [] s = Ret None s"
| "for_loop f (i # is) s =
     res_bind (f i s) (\<lambda>r s'. case r of None \<Rightarrow> for_loop f is s' | Some v \<Rightarrow> Ret (Some v) s')"

lemma for_loop_append:
  "for_loop f (is @ js) s =
     res_bind (for_loop f is s) (\<lambda>r s'. case r of None \<Rightarrow> for_loop f js s' | Some v \<Rightarrow> Ret (Some v) s')"
  by (induction "is" arbitrary: s) (auto simp: res_bind_assoc intro!: arg_cong2 [of _ _ _ _ res_bind] ext split: option.split)

lemma for_loop_keeps:
  assumes "\<And>i s. i \<in> set is \<Longrightarrow> I s \<Longrightarrow> keeps I (f i s)" and "I s"
  shows "keeps I (for_loop f is s)"
  using assms
proof (induction "is" arbitrary: s)
  case Nil
  then show ?case by simp
next
  case (Cons i "is")
  have "keeps I (f i s)" using Cons.prems by simp
  then show ?case
    using Cons by (cases "f i s") (auto split: option.split)
qed

lemma for_loop_skip:
  assumes "\<And>i. i \<in> set is \<Longrightarrow> f i s = Ret None s"
  shows "for_loop f is s = Ret None s"
  using assms by (induction "is") auto

lemma for_loop_first:
  assumes "\<And>i. i \<in> set is \<Longrightarrow> f i s = Ret None s" and "f j s = Ret (Some v) t"
  shows "for_loop f (is @ j # js) s = Ret (Some v) t"
  using assms by (simp add: for_loop_append for_loop_skip)

lemma for_loop_returns:
  assumes "I 0 s" and "\<And>k s. k < n \<Longrightarrow> I k s \<Longrightarrow> returns (f k s) (\<lambda>r t. r = None \<and> I (Suc k) t)"
  shows "returns (for_loop f [0..<n] s) (\<lambda>r t. r = None \<and> I n t)"
  using assms(2)
proof (induction n)
  case 0
  then show ?case using assms(1) by simp
next
  case (Suc n)
  then have "returns (for_loop f [0..<n] s) (\<lambda>r t. r = None \<and> I n t)" by simp
  then obtain t where t: "for_loop f [0..<n] s = Ret None t" "I n t" by (auto elim: returnsE)
  from Suc.prems [OF lessI t(2)] obtain u where "f n t = Ret None u" "I (Suc n) u" by (auto elim: returnsE)
  with t show ?case by (simp add: for_loop_append)
qed

text \<open>\<open>fold_loop\<close> is the same for a loop that carries a local variable and always runs to its end.\<close>

fun fold_loop :: "('i \<Rightarrow> 'a \<Rightarrow> 's \<Rightarrow> ('a, 's) res) \<Rightarrow> 'i list \<Rightarrow> 'a \<Rightarrow> 's \<Rightarrow> ('a, 's) res" where
  "fold_loop f [] a s = Ret a s"
| "fold_loop f (i # is) a s = res_bind (f i a s) (\<lambda>a s. fold_loop f is a s)"

lemma fold_loop_pure:
  assumes "\<And>i a. i \<in> set is \<Longrightarrow> f i a s = Ret (g i a) s"
  shows "fold_loop f is a s = Ret (fold g is a) s"
  using assms by (induction "is" arbitrary: a) auto

lemma fold_loop_returns:
  assumes "P 0 a s" and "\<And>k a s. k < length is \<Longrightarrow> P k a s \<Longrightarrow> returns (f (is ! k) a s) (P (Suc k))"
  shows "returns (fold_loop f is a s) (P (length is))"
  using assms
proof (induction "is" arbitrary: a s P)
  case Nil
  then show ?case by simp
next
  case (Cons i "is")
  from Cons.prems(2) [of 0, OF _ Cons.prems(1)] obtain b t where
    bt: "f i a s = Ret b t" "P (Suc 0) b t" by (auto elim!: returnsE)
  have "returns (fold_loop f is b t) (P (Suc (length is)))"
    using Cons.IH [of "\<lambda>k. P (Suc k)"] bt(2) Cons.prems(2) [of "Suc _"] by auto
  with bt show ?case by simp
qed

section \<open>The first index that satisfies a condition\<close>

lemma find_upt_Some:
  "List.find P [0..<n] = Some i \<longleftrightarrow> i < n \<and> P i \<and> (\<forall>j < i. \<not> P j)"
proof -
  have "List.find P [0..<n] = Some i \<longleftrightarrow>
      (\<exists>k < length [0..<n]. P ([0..<n] ! k) \<and> i = [0..<n] ! k \<and> (\<forall>j < k. \<not> P ([0..<n] ! j)))"
    by (rule find_Some_iff)
  also have "\<dots> \<longleftrightarrow> i < n \<and> P i \<and> (\<forall>j < i. \<not> P j)"
    by auto
  finally show ?thesis .
qed

lemma find_upt_None: "List.find P [0..<n] = None \<longleftrightarrow> (\<forall>i < n. \<not> P i)"
  by (simp add: find_None_iff)

lemma upt_split: "i < n \<Longrightarrow> [0..<n] = [0..<i] @ i # [Suc i..<n]"
  by (metis bot_nat_0.extremum less_imp_add_positive upt_add_eq_append upt_conv_Cons)

text \<open>
  A scan whose body leaves the state alone until the first index with \<open>P\<close>, and returns there.
\<close>

lemma for_loop_find:
  assumes "\<And>i. i < n \<Longrightarrow> \<not> P i \<Longrightarrow> f i s = Ret None s"
    and "\<And>i. i < n \<Longrightarrow> P i \<Longrightarrow> f i s = Ret (Some (v i)) (t i)"
  shows "for_loop f [0..<n] s =
     (case List.find P [0..<n] of None \<Rightarrow> Ret None s | Some i \<Rightarrow> Ret (Some (v i)) (t i))"
proof (cases "List.find P [0..<n]")
  case None
  then have "\<forall>i < n. \<not> P i" by (simp only: find_upt_None)
  then have "for_loop f [0..<n] s = Ret None s"
    by (intro for_loop_skip assms(1)) auto
  with None show ?thesis by simp
next
  case (Some i)
  then have i: "i < n" "P i" "\<forall>j < i. \<not> P j" by (auto simp only: find_upt_Some)
  have "for_loop f ([0..<i] @ i # [Suc i..<n]) s = Ret (Some (v i)) (t i)"
    by (rule for_loop_first) (use i assms in auto)
  with Some i show ?thesis by (simp add: upt_split [symmetric])
qed

section \<open>Little-endian bytes of a word\<close>

definition le_bytes :: "nat \<Rightarrow> 'a::len word \<Rightarrow> uchar list" where
  "le_bytes n w = map (\<lambda>i. ucast (drop_bit (8 * i) w)) [0..<n]"

fun le_word :: "uchar list \<Rightarrow> 'a::len word" where
  "le_word [] = 0"
| "le_word (b # bs) = ucast b OR push_bit 8 (le_word bs)"

lemma length_le_bytes [simp]: "length (le_bytes n w) = n"
  by (simp add: le_bytes_def)

lemma bit_le_word:
  "bit (le_word bs :: 'a::len word) i \<longleftrightarrow>
     i < LENGTH('a) \<and> i div 8 < length bs \<and> bit (bs ! (i div 8)) (i mod 8)"
proof (induction bs arbitrary: i)
  case Nil
  then show ?case by simp
next
  case (Cons b bs)
  show ?case
  proof (cases "i < 8")
    case True
    then show ?thesis
      by (auto simp: bit_simps)
  next
    case False
    then obtain j where j: "i = j + 8" by (metis add.commute le_Suc_ex not_less)
    have "i div 8 = Suc (j div 8)" "i mod 8 = j mod 8" by (simp_all add: j)
    moreover have "\<not> bit b i" using False by (auto dest!: bit_imp_le_length)
    ultimately show ?thesis
      using Cons.IH [of j] False by (auto simp: bit_simps j dest: bit_imp_le_length)
  qed
qed

lemma le_word_le_bytes:
  assumes "LENGTH('a::len) \<le> 8 * n"
  shows "le_word (le_bytes n w) = (w :: 'a word)"
proof (rule bit_word_eqI)
  fix i assume i: "i < LENGTH('a)"
  then have "i div 8 < n" using assms by linarith
  moreover have "8 * (i div 8) + i mod 8 = i" by simp
  ultimately show "bit (le_word (le_bytes n w) :: 'a word) i = bit w i"
    using i by (simp add: bit_le_word le_bytes_def bit_simps)
qed

lemma le_bytes_le_word:
  assumes "8 * length bs \<le> LENGTH('a::len)"
  shows "le_bytes (length bs) (le_word bs :: 'a word) = bs"
proof (rule nth_equalityI)
  fix i assume "i < length (le_bytes (length bs) (le_word bs :: 'a word))"
  then have i: "i < length bs" by simp
  show "le_bytes (length bs) (le_word bs :: 'a word) ! i = bs ! i"
  proof (rule bit_word_eqI)
    fix k assume "k < LENGTH(8)"
    then have k: "k < 8" by simp
    have "(8 * i + k) div 8 = i" "(8 * i + k) mod 8 = k" using k by auto
    moreover have "8 * i + k < LENGTH('a)" using i k assms by linarith
    ultimately show "bit (le_bytes (length bs) (le_word bs :: 'a word) ! i) k = bit (bs ! i) k"
      using i k by (simp add: le_bytes_def bit_simps bit_le_word)
  qed
qed simp

lemmas le_bytes_roundtrip [enc_simps] = le_word_le_bytes le_bytes_le_word

end
