(* ===== verification/Machine.thy ===== *)
theory Machine
  imports Prelude
begin

text \<open>
  The constants of \<^verbatim>\<open>kernel/param.h\<close>, \<^verbatim>\<open>kernel/memlayout.h\<close> and \<^verbatim>\<open>kernel/riscv.h\<close>, and the part
  of the machine state every kernel routine sees: the spin-locks the running hart holds,
  whether it takes interrupts outside critical sections, and its hart id.
\<close>

section \<open>Parameters\<close>

definition NPROC :: nat where "NPROC = 64"
definition NCPU :: nat where "NCPU = 8"
definition NOFILE :: nat where "NOFILE = 16"
definition NFILE :: nat where "NFILE = 100"
definition NINODE :: nat where "NINODE = 50"
definition NDEV :: nat where "NDEV = 10"
definition ROOTDEV :: uint where "ROOTDEV = 1"
definition MAXARG :: nat where "MAXARG = 32"
definition MAXOPBLOCKS :: nat where "MAXOPBLOCKS = 10"
definition LOGSIZE :: nat where "LOGSIZE = MAXOPBLOCKS * 3"
definition NBUF :: nat where "NBUF = MAXOPBLOCKS * 3"
definition FSSIZE :: nat where "FSSIZE = 2000"
definition MAXPATH :: nat where "MAXPATH = 128"

lemmas param_defs = NPROC_def NCPU_def NOFILE_def NFILE_def NINODE_def NDEV_def ROOTDEV_def
  MAXARG_def MAXOPBLOCKS_def LOGSIZE_def NBUF_def FSSIZE_def MAXPATH_def

section \<open>Address space\<close>

definition PGSIZE :: uint64 where "PGSIZE = 4096"

definition PGROUNDUP :: "uint64 \<Rightarrow> uint64" where
  "PGROUNDUP sz = (sz + PGSIZE - 1) AND NOT (PGSIZE - 1)"

definition PGROUNDDOWN :: "uint64 \<Rightarrow> uint64" where
  "PGROUNDDOWN a = a AND NOT (PGSIZE - 1)"

definition PTE_R :: uint64 where "PTE_R = push_bit 1 1"
definition PTE_W :: uint64 where "PTE_W = push_bit 2 1"
definition PTE_X :: uint64 where "PTE_X = push_bit 3 1"
definition PTE_U :: uint64 where "PTE_U = push_bit 4 1"

definition MAXVA :: uint64 where "MAXVA = push_bit (9 + 9 + 9 + 12 - 1) 1"

definition KERNBASE :: uint64 where "KERNBASE = 0x80000000"
definition PHYSTOP :: uint64 where "PHYSTOP = KERNBASE + 128 * 1024 * 1024"
definition TRAMPOLINE :: uint64 where "TRAMPOLINE = MAXVA - PGSIZE"
definition TRAPFRAME :: uint64 where "TRAPFRAME = TRAMPOLINE - PGSIZE"

definition KSTACK :: "nat \<Rightarrow> uint64" where
  "KSTACK p = TRAMPOLINE - (of_nat p + 1) * 2 * PGSIZE"

lemmas layout_defs = PGSIZE_def MAXVA_def KERNBASE_def PHYSTOP_def TRAMPOLINE_def TRAPFRAME_def

section \<open>Page rounding\<close>

lemma and_not_page_mask: "(x :: uint64) AND NOT 4095 = push_bit 12 (drop_bit 12 x)"
proof -
  have m: "(4095 :: uint64) = mask 12" by (simp add: mask_eq_exp_minus_1)
  show ?thesis
    unfolding m by (rule bit_word_eqI) (auto simp: bit_simps simp del: mask_numeral)
qed

lemma PGROUNDDOWN_unat: "unat (PGROUNDDOWN a) = unat a div 4096 * 4096"
proof -
  have "unat a < 2 ^ 64" using unsigned_less [of a, where ?'a = nat] by simp
  then have "unat a div 4096 * 4096 < 2 ^ 64" by linarith
  moreover have "PGROUNDDOWN a = push_bit 12 (drop_bit 12 a)"
    using and_not_page_mask [of a] by (simp add: PGROUNDDOWN_def PGSIZE_def)
  ultimately show ?thesis
    by (simp add: push_bit_eq_mult drop_bit_eq_div unat_word_ariths unat_div)
qed

lemma PGROUNDUP_down: "PGROUNDUP a = PGROUNDDOWN (a + 4095)"
  by (simp add: PGROUNDUP_def PGROUNDDOWN_def PGSIZE_def algebra_simps)

lemma PGROUNDUP_unat:
  assumes "unat a + 4095 < 2 ^ 64"
  shows "unat (PGROUNDUP a) = (unat a + 4095) div 4096 * 4096"
proof -
  have "unat (a + 4095) = unat a + 4095"
    using assms by (simp add: unat_word_ariths)
  then show ?thesis by (simp add: PGROUNDUP_down PGROUNDDOWN_unat)
qed

section \<open>Names of locks and sleep channels\<close>

text \<open>
  A \<^verbatim>\<open>struct spinlock\<close> is identified by the variable or the structure it is embedded in, and
  a sleep channel by the object whose address the code passes to \<^verbatim>\<open>sleep\<close> and \<^verbatim>\<open>wakeup\<close>.
  Pipes live in pages and are named by the page's address; table entries by their index.
\<close>

datatype slock_id = BufLock nat | InodeLock nat

datatype lock_id =
    KmemLock | PidLock | WaitLock | ProcLock nat | TicksLock | BcacheLock
  | SleepLk slock_id | LogLock | ItableLock | FtableLock | PipeLock uint64
  | ConsLock | UartTxLock | VdiskLock | PrLock

datatype chan =
    ChanProc nat | ChanTicks | ChanSleepLock slock_id | ChanLog
  | ChanPipeRead uint64 | ChanPipeWrite uint64 | ChanConsR | ChanUartTx
  | ChanDiskFree | ChanBuf nat

section \<open>The running hart\<close>

text \<open>
  \<open>held\<close> lists the spin-locks this hart holds, the latest first; the nesting count \<^verbatim>\<open>noff\<close> of
  \<^verbatim>\<open>push_off\<close> is its length. \<open>ien\<close> is the interrupt flag outside critical sections:
  \<^verbatim>\<open>sstatus.SIE\<close> when no lock is held, \<^verbatim>\<open>cpu.intena\<close> otherwise. \<open>tp\<close> is the hart id. The
  theory \<^verbatim>\<open>Spinlock\<close> shows that \<^verbatim>\<open>acquire\<close> and \<^verbatim>\<open>release\<close> of \<^verbatim>\<open>spinlock.c\<close> implement the two
  operations below.
\<close>

record machine =
  held :: "lock_id list"
  ien :: bool
  tp :: nat

definition lock_acquire :: "lock_id \<Rightarrow> 'z machine_scheme \<Rightarrow> (unit, 'z machine_scheme) res" where
  "lock_acquire l s =
     (if l \<in> set (held s) then Panic ''acquire'' else Ret () (s\<lparr>held := l # held s\<rparr>))"

definition lock_release :: "lock_id \<Rightarrow> 'z machine_scheme \<Rightarrow> (unit, 'z machine_scheme) res" where
  "lock_release l s =
     (if l \<notin> set (held s) then Panic ''release'' else Ret () (s\<lparr>held := remove1 l (held s)\<rparr>))"

definition lock_holding :: "lock_id \<Rightarrow> 'z machine_scheme \<Rightarrow> bool" where
  "lock_holding l s \<longleftrightarrow> l \<in> set (held s)"

definition intr_enabled :: "'z machine_scheme \<Rightarrow> bool" where
  "intr_enabled s \<longleftrightarrow> held s = [] \<and> ien s"

lemma lock_acquire_free [lock_simps]:
  "l \<notin> set (held s) \<Longrightarrow> lock_acquire l s = Ret () (s\<lparr>held := l # held s\<rparr>)"
  by (simp add: lock_acquire_def)

lemma lock_release_held [lock_simps]:
  "l \<in> set (held s) \<Longrightarrow> lock_release l s = Ret () (s\<lparr>held := remove1 l (held s)\<rparr>)"
  by (simp add: lock_release_def)

lemma lock_holding_iff [lock_simps]: "lock_holding l s \<longleftrightarrow> l \<in> set (held s)"
  by (simp add: lock_holding_def)

text \<open>A critical section that does not touch the lock list.\<close>

definition critical :: "lock_id \<Rightarrow> ('z machine_scheme \<Rightarrow> ('a, 'z machine_scheme) res) \<Rightarrow>
    'z machine_scheme \<Rightarrow> ('a, 'z machine_scheme) res" where
  "critical l body s =
     res_bind (lock_acquire l s) (\<lambda>_ s. res_bind (body s) (\<lambda>r s.
     res_bind (lock_release l s) (\<lambda>_ s. Ret r s)))"

lemma critical_Ret [lock_simps]:
  assumes "l \<notin> set (held s)"
    and "body (s\<lparr>held := l # held s\<rparr>) = Ret r t"
    and "held t = l # held s"
  shows "critical l body s = Ret r (t\<lparr>held := held s\<rparr>)"
  using assms by (simp add: critical_def lock_acquire_def lock_release_def)

end
