(* ===== verification/CString.thy ===== *)
theory CString
  imports Machine
begin

text \<open>
  \<^verbatim>\<open>kernel/string.c\<close>. The block operations \<^verbatim>\<open>memset\<close>, \<^verbatim>\<open>memcmp\<close> and \<^verbatim>\<open>memmove\<close> work on the byte
  memory of the machine, where source and destination may overlap. The string operations work
  on arrays: a pointer into an array is the list of bytes from there to the array's end, and
  an access past the end is \<open>None\<close>.
\<close>

type_synonym memory = "uint64 \<Rightarrow> uchar"

section \<open>Blocks of memory\<close>

fun memset :: "memory \<Rightarrow> uint64 \<Rightarrow> uchar \<Rightarrow> nat \<Rightarrow> memory" where
  "memset m dst c 0 = m"
| "memset m dst c (Suc n) = memset (m(dst := c)) (dst + 1) c n"

fun memcmp :: "memory \<Rightarrow> uint64 \<Rightarrow> uint64 \<Rightarrow> nat \<Rightarrow> int" where
  "memcmp m s1 s2 0 = 0"
| "memcmp m s1 s2 (Suc n) =
     (if m s1 \<noteq> m s2 then uint (m s1) - uint (m s2) else memcmp m (s1 + 1) (s2 + 1) n)"

fun copy_up :: "memory \<Rightarrow> uint64 \<Rightarrow> uint64 \<Rightarrow> nat \<Rightarrow> memory" where
  "copy_up m d s 0 = m"
| "copy_up m d s (Suc n) = copy_up (m(d := m s)) (d + 1) (s + 1) n"

fun copy_down :: "memory \<Rightarrow> uint64 \<Rightarrow> uint64 \<Rightarrow> nat \<Rightarrow> memory" where
  "copy_down m d s 0 = m"
| "copy_down m d s (Suc n) = copy_down (m(d - 1 := m (s - 1))) (d - 1) (s - 1) n"

definition memmove :: "memory \<Rightarrow> uint64 \<Rightarrow> uint64 \<Rightarrow> nat \<Rightarrow> memory" where
  "memmove m dst src n =
     (if n = 0 then m
      else if src < dst \<and> src + of_nat n > dst
        then copy_down m (dst + of_nat n) (src + of_nat n) n
        else copy_up m dst src n)"

text \<open>A range of addresses that does not run past the end of the address space.\<close>

definition in_range :: "uint64 \<Rightarrow> nat \<Rightarrow> uint64 \<Rightarrow> bool" where
  "in_range a n x \<longleftrightarrow> unat a \<le> unat x \<and> unat x < unat a + n"

lemma in_range_0 [simp]: "\<not> in_range a 0 x"
  by (simp add: in_range_def)

lemma unat_add_of_nat:
  "unat (a :: uint64) + n < 2 ^ 64 \<Longrightarrow> unat (a + of_nat n) = unat a + n"
  by (simp add: unat_word_ariths unat_of_nat)

lemma unat_suc: "unat (a :: uint64) + 1 < 2 ^ 64 \<Longrightarrow> unat (a + 1) = unat a + 1"
  by (simp add: unat_word_ariths)

lemma in_range_Suc:
  assumes "unat a + Suc n \<le> 2 ^ 64"
  shows "in_range a (Suc n) x \<longleftrightarrow> x = a \<or> (n \<noteq> 0 \<and> in_range (a + 1) n x)"
proof (cases n)
  case 0
  then show ?thesis by (auto simp: in_range_def word_unat_eq_iff)
next
  case (Suc k)
  then have "unat (a + 1) = unat a + 1" using assms by (intro unat_suc) simp
  with Suc show ?thesis by (auto simp: in_range_def word_unat_eq_iff)
qed

lemma in_range_index:
  assumes "unat d + n \<le> 2 ^ 64"
  shows "in_range d n x \<longleftrightarrow> (\<exists>i < n. x = d + of_nat i)"
proof
  assume "in_range d n x"
  then have "unat d \<le> unat x" "unat x - unat d < n" by (auto simp: in_range_def)
  moreover from this have "x = d + of_nat (unat x - unat d)"
    by (simp add: word_unat_eq_iff unat_word_ariths unat_of_nat)
  ultimately show "\<exists>i < n. x = d + of_nat i" by blast
next
  assume "\<exists>i < n. x = d + of_nat i"
  then obtain i where i: "i < n" "x = d + of_nat i" by blast
  then have "unat x = unat d + i" using assms by (simp add: unat_add_of_nat)
  with i show "in_range d n x" by (simp add: in_range_def)
qed

lemma memset_apply:
  "unat d + n \<le> 2 ^ 64 \<Longrightarrow> memset m d c n x = (if in_range d n x then c else m x)"
proof (induction n arbitrary: m d)
  case 0
  then show ?case by simp
next
  case (Suc n)
  show ?case
  proof (cases n)
    case 0
    then show ?thesis by (auto simp: in_range_def word_unat_eq_iff)
  next
    case (Suc k)
    then have s: "unat (d + 1) = unat d + 1" using Suc.prems by (intro unat_suc) simp
    then have "memset (m(d := c)) (d + 1) c n x = (if in_range (d + 1) n x then c else (m(d := c)) x)"
      using Suc.prems by (intro Suc.IH) simp
    then show ?thesis using Suc in_range_Suc [OF Suc.prems] by auto
  qed
qed

lemma memcmp_zero_iff:
  "memcmp m a b n = 0 \<longleftrightarrow> (\<forall>i < n. m (a + of_nat i) = m (b + of_nat i))"
proof (induction n arbitrary: a b)
  case 0
  then show ?case by simp
next
  case (Suc n)
  have "(\<forall>i < Suc n. m (a + of_nat i) = m (b + of_nat i)) \<longleftrightarrow>
      m a = m b \<and> (\<forall>i < n. m (a + 1 + of_nat i) = m (b + 1 + of_nat i))"
    by (simp add: All_less_Suc2 add.assoc)
  then show ?case using Suc.IH [of "a + 1" "b + 1"] by (simp add: word_uint_eq_iff)
qed

text \<open>
  Copying upwards is right when no source byte is overwritten before it is read, that is,
  unless the destination starts inside the source range.
\<close>

lemma copy_up_apply:
  assumes "unat d + n \<le> 2 ^ 64" and "unat s + n \<le> 2 ^ 64"
    and "unat d \<le> unat s \<or> unat s + n \<le> unat d"
  shows "copy_up m d s n x = (if in_range d n x then m (x - d + s) else m x)"
  using assms
proof (induction n arbitrary: m d s)
  case 0
  then show ?case by simp
next
  case (Suc n)
  show ?case
  proof (cases n)
    case 0
    then show ?thesis using in_range_Suc [OF Suc.prems(1)] by auto
  next
    case (Suc k)
    have sd: "unat (d + 1) = unat d + 1" and ss: "unat (s + 1) = unat s + 1"
      using Suc.prems Suc by (intro unat_suc; simp)+
    have IH: "copy_up (m(d := m s)) (d + 1) (s + 1) n x =
        (if in_range (d + 1) n x then (m(d := m s)) (x - (d + 1) + (s + 1)) else (m(d := m s)) x)"
      using Suc.prems by (intro Suc.IH) (auto simp: sd ss)
    have ne: "x - (d + 1) + (s + 1) \<noteq> d" if r: "in_range (d + 1) n x"
    proof -
      obtain i where i: "i < n" "x = d + 1 + of_nat i"
        using r Suc.prems(1) sd by (auto simp: in_range_index)
      have "unat (s + 1 + of_nat i) = unat s + 1 + i"
        using Suc.prems(2) i(1) ss by (subst unat_add_of_nat) simp_all
      then have "s + 1 + of_nat i \<noteq> d"
        using Suc.prems(3) i(1) by auto
      then show ?thesis using i(2) by (simp add: algebra_simps)
    qed
    have "d \<noteq> x" if "in_range (d + 1) n x" using that by (auto simp: in_range_def sd)
    then show ?thesis
      using IH ne Suc in_range_Suc [OF Suc.prems(1)] by (auto simp: algebra_simps)
  qed
qed

lemma copy_down_apply:
  assumes "unat d + n \<le> 2 ^ 64" and "unat s + n \<le> 2 ^ 64" and "unat s \<le> unat d"
  shows "copy_down m (d + of_nat n) (s + of_nat n) n x = (if in_range d n x then m (x - d + s) else m x)"
  using assms
proof (induction n arbitrary: m)
  case 0
  then show ?case by simp
next
  case (Suc n)
  let ?m = "m(d + of_nat n := m (s + of_nat n))"
  have IH: "copy_down ?m (d + of_nat n) (s + of_nat n) n x = (if in_range d n x then ?m (x - d + s) else ?m x)"
    using Suc.prems by (intro Suc.IH) auto
  have un: "unat (d + of_nat n) = unat d + n" using Suc.prems by (simp add: unat_add_of_nat)
  have split: "in_range d (Suc n) x \<longleftrightarrow> in_range d n x \<or> x = d + of_nat n"
    by (auto simp: in_range_def word_unat_eq_iff un)
  have ne: "x - d + s \<noteq> d + of_nat n" "x \<noteq> d + of_nat n" if r: "in_range d n x"
  proof -
    obtain i where i: "i < n" "x = d + of_nat i"
      using r Suc.prems(1) by (auto simp: in_range_index)
    have "unat (s + of_nat i) = unat s + i" "unat (d + of_nat i) = unat d + i"
      using Suc.prems i(1) by (simp_all add: unat_add_of_nat)
    then have "unat (s + of_nat i) \<noteq> unat (d + of_nat n)" "unat x \<noteq> unat (d + of_nat n)"
      using i un Suc.prems(3) by auto
    then show "x - d + s \<noteq> d + of_nat n" "x \<noteq> d + of_nat n"
      using i(2) by (auto simp: algebra_simps)
  qed
  have "copy_down m (d + of_nat (Suc n)) (s + of_nat (Suc n)) (Suc n) x
      = copy_down ?m (d + of_nat n) (s + of_nat n) n x"
    by (simp add: algebra_simps)
  with IH split ne show ?case by (auto simp: add.commute)
qed

text \<open>
  C28. \<^verbatim>\<open>memmove\<close> copies correctly even when the two ranges overlap: every byte of the destination
  range ends up with the byte the source range held before the call, and no other byte of
  memory changes.
\<close>

theorem memmove_copies:
  assumes "unat dst + n \<le> 2 ^ 64" and "unat src + n < 2 ^ 64"
  shows "memmove m dst src n x = (if in_range dst n x then m (x - dst + src) else m x)"
proof (cases "n = 0")
  case True
  then show ?thesis by (simp add: memmove_def)
next
  case False
  have u: "unat (src + of_nat n) = unat src + n" using assms(2) by (simp add: unat_add_of_nat)
  show ?thesis
  proof (cases "src < dst \<and> dst < src + of_nat n")
    case True
    then have "memmove m dst src n = copy_down m (dst + of_nat n) (src + of_nat n) n"
      using False by (simp add: memmove_def)
    with True assms show ?thesis by (simp add: copy_down_apply word_less_nat_alt)
  next
    case not: False
    then have "memmove m dst src n = copy_up m dst src n"
      using False by (auto simp: memmove_def)
    moreover have "unat dst \<le> unat src \<or> unat src + n \<le> unat dst"
      using not u by (auto simp: word_less_nat_alt)
    ultimately show ?thesis using assms by (simp add: copy_up_apply)
  qed
qed

definition memmove_demo :: memory where
  "memmove_demo = (\<lambda>a. if a = 10 then 7 else if a = 11 then 8 else 0)"

theorem memmove_copies_witness:
  "unat (11 :: uint64) + 2 \<le> 2 ^ 64 \<and> unat (10 :: uint64) + 2 < 2 ^ 64
    \<and> memmove memmove_demo 11 10 2 11 = 7 \<and> memmove memmove_demo 11 10 2 12 = 8"
  using memmove_copies [of 11 2 10 memmove_demo 11] memmove_copies [of 11 2 10 memmove_demo 12]
  by (simp add: in_range_def memmove_demo_def)

section \<open>Strings\<close>

fun strncmp :: "uchar list \<Rightarrow> uchar list \<Rightarrow> nat \<Rightarrow> int option" where
  "strncmp p q 0 = Some 0"
| "strncmp (x # p) (y # q) (Suc n) =
     (if x \<noteq> 0 \<and> x = y then strncmp p q n else Some (uint x - uint y))"
| "strncmp _ _ (Suc n) = None"

fun zero_fill :: "uchar list \<Rightarrow> nat \<Rightarrow> uchar list option" where
  "zero_fill s 0 = Some s"
| "zero_fill (_ # s) (Suc n) = map_option ((#) 0) (zero_fill s n)"
| "zero_fill [] (Suc n) = None"

fun strncpy :: "uchar list \<Rightarrow> uchar list \<Rightarrow> nat \<Rightarrow> uchar list option" where
  "strncpy s t 0 = Some s"
| "strncpy (_ # s) (c # t) (Suc n) =
     map_option ((#) c) (if c \<noteq> 0 then strncpy s t n else zero_fill s n)"
| "strncpy _ _ (Suc n) = None"

text \<open>The loop of \<^verbatim>\<open>safestrcpy\<close>; \<open>n\<close> is the counter after \<^verbatim>\<open>--n\<close>.\<close>

fun safestrcpy_loop :: "uchar list \<Rightarrow> uchar list \<Rightarrow> nat \<Rightarrow> uchar list option" where
  "safestrcpy_loop (_ # s) t 0 = Some (0 # s)"
| "safestrcpy_loop (_ # s) (c # t) (Suc n) =
     map_option ((#) c) (if c \<noteq> 0 then safestrcpy_loop s t n else safestrcpy_loop s t 0)"
| "safestrcpy_loop _ _ _ = None"

definition safestrcpy :: "uchar list \<Rightarrow> uchar list \<Rightarrow> nat \<Rightarrow> uchar list option" where
  "safestrcpy s t n = (if n = 0 then Some s else safestrcpy_loop s t (n - 1))"

fun strlen :: "uchar list \<Rightarrow> nat option" where
  "strlen [] = None"
| "strlen (c # s) = (if c = 0 then Some 0 else map_option Suc (strlen s))"

text \<open>The string an array holds: the bytes before the first NUL.\<close>

definition cstr :: "uchar list \<Rightarrow> uchar list" where
  "cstr s = takeWhile (\<lambda>c. c \<noteq> 0) s"

lemma cstr_simps [simp]:
  "cstr [] = []"
  "cstr (0 # s) = []"
  "c \<noteq> 0 \<Longrightarrow> cstr (c # s) = c # cstr s"
  by (simp_all add: cstr_def)

lemma strlen_cstr: "0 \<in> set s \<Longrightarrow> strlen s = Some (length (cstr s))"
  by (induction s) (auto simp: cstr_def)

lemma strncmp_Some:
  "n \<le> length p \<or> 0 \<in> set p \<Longrightarrow> n \<le> length q \<or> 0 \<in> set q \<Longrightarrow> \<exists>r. strncmp p q n = Some r"
  by (induction p q n rule: strncmp.induct) auto

lemma strncmp_eq_iff:
  "strncmp p q n = Some r \<Longrightarrow> r = 0 \<longleftrightarrow> cstr (take n p) = cstr (take n q)"
proof (induction p q n rule: strncmp.induct)
  case (2 x p y q n)
  have "uint x - uint y = 0 \<longleftrightarrow> x = y" by (simp add: word_uint_eq_iff)
  with 2 show ?case
    by (cases "x = 0"; cases "y = 0"; cases "x = y") auto
qed auto

lemma length_zero_fill: "zero_fill s n = Some r \<Longrightarrow> length r = length s"
  by (induction s n arbitrary: r rule: zero_fill.induct) auto

lemma zero_fill_eq: "n \<le> length s \<Longrightarrow> zero_fill s n = Some (replicate n 0 @ drop n s)"
  by (induction s n rule: zero_fill.induct) auto

lemma strncpy_eq:
  assumes "n \<le> length s" and "n \<le> length t \<or> 0 \<in> set t"
  shows "strncpy s t n = Some (take n (cstr t) @ replicate (n - length (cstr t)) 0 @ drop n s)"
  using assms
proof (induction s t n rule: strncpy.induct)
  case (2 x s c t n)
  then show ?case by (cases "c = 0") (auto simp: zero_fill_eq)
qed (auto simp: cstr_def)

lemma safestrcpy_loop_eq:
  assumes "n < length s" and "n \<le> length t \<or> 0 \<in> set t"
  shows "\<exists>r. safestrcpy_loop s t n = Some r \<and> length r = length s \<and> cstr r = take n (cstr t)
    \<and> 0 \<in> set (take (Suc n) r)"
  using assms
proof (induction s t n rule: safestrcpy_loop.induct)
  case (2 x s c t n)
  show ?case
  proof (cases "c = 0")
    case True
    with 2 show ?thesis by (cases s) auto
  next
    case False
    with 2 show ?thesis by fastforce
  qed
qed auto

text \<open>
  \<^verbatim>\<open>safestrcpy(s, t, n)\<close> with a positive \<open>n\<close> not larger than the destination array never leaves
  either array, keeps the array's length, always leaves a NUL within the first \<open>n\<close> bytes, and
  the string stored is the source string cut to \<open>n - 1\<close> bytes.
\<close>

theorem safestrcpy_terminates_string:
  assumes "0 < n" and "n \<le> length s" and "n \<le> length t \<or> 0 \<in> set t"
  shows "\<exists>r. safestrcpy s t n = Some r \<and> length r = length s \<and> cstr r = take (n - 1) (cstr t)
    \<and> 0 \<in> set (take n r)"
proof -
  have "n - 1 < length s" "n - 1 \<le> length t \<or> 0 \<in> set t" using assms by auto
  from safestrcpy_loop_eq [OF this] assms(1) show ?thesis by (simp add: safestrcpy_def)
qed

theorem safestrcpy_terminates_string_witness:
  "(0::nat) < 3 \<and> 3 \<le> length ([9, 9, 9, 9] :: uchar list)
    \<and> (\<exists>r. safestrcpy [9, 9, 9, 9] [1, 2, 3, 0] 3 = Some r \<and> length r = length ([9, 9, 9, 9] :: uchar list)
        \<and> cstr r = take (3 - 1) (cstr [1, 2, 3, 0]) \<and> 0 \<in> set (take 3 r))"
proof -
  have "3 \<le> length ([1, 2, 3, 0] :: uchar list) \<or> 0 \<in> set ([1, 2, 3, 0] :: uchar list)" by simp
  then show ?thesis
    using safestrcpy_terminates_string [of 3 "[9, 9, 9, 9]" "[1, 2, 3, 0]"] by simp
qed

end
