(* ===== verification/Spinlock.thy ===== *)
theory Spinlock
  imports Machine
begin

text \<open>
  \<^verbatim>\<open>kernel/spinlock.c\<close>: the lock word, the recorded owner, and the nesting of interrupt
  disabling per hart. The first part translates the routines and shows that, seen from one
  hart, they implement \<^const>\<open>lock_acquire\<close> and \<^const>\<open>lock_release\<close>. The second part lets all
  harts interleave at the granularity of single memory accesses and proves mutual exclusion.
\<close>

section \<open>State\<close>

record spinlock =
  locked :: uint
  lk_name :: string
  lk_cpu :: "nat option"

record hart =
  noff :: int
  intena :: bool
  sie :: bool

record spin_state =
  locks :: "lock_id \<Rightarrow> spinlock"
  harts :: "nat \<Rightarrow> hart"

abbreviation upd_hart :: "nat \<Rightarrow> (hart \<Rightarrow> hart) \<Rightarrow> spin_state \<Rightarrow> spin_state" where
  "upd_hart c f s \<equiv> s\<lparr>harts := (harts s)(c := f (harts s c))\<rparr>"

abbreviation upd_lock :: "lock_id \<Rightarrow> (spinlock \<Rightarrow> spinlock) \<Rightarrow> spin_state \<Rightarrow> spin_state" where
  "upd_lock l f s \<equiv> s\<lparr>locks := (locks s)(l := f (locks s l))\<rparr>"

section \<open>The routines\<close>

definition initlock :: "lock_id \<Rightarrow> string \<Rightarrow> spin_state \<Rightarrow> spin_state" where
  "initlock l nm s = upd_lock l (\<lambda>k. k\<lparr>lk_name := nm, locked := 0, lk_cpu := None\<rparr>) s"

definition intr_get :: "nat \<Rightarrow> spin_state \<Rightarrow> bool" where
  "intr_get c s = sie (harts s c)"

definition intr_on :: "nat \<Rightarrow> spin_state \<Rightarrow> spin_state" where
  "intr_on c s = upd_hart c (\<lambda>h. h\<lparr>sie := True\<rparr>) s"

definition intr_off :: "nat \<Rightarrow> spin_state \<Rightarrow> spin_state" where
  "intr_off c s = upd_hart c (\<lambda>h. h\<lparr>sie := False\<rparr>) s"

definition push_off :: "nat \<Rightarrow> spin_state \<Rightarrow> spin_state" where
  "push_off c s =
     (let old = intr_get c s;
          s = intr_off c s;
          s = (if noff (harts s c) = 0 then upd_hart c (\<lambda>h. h\<lparr>intena := old\<rparr>) s else s)
      in upd_hart c (\<lambda>h. h\<lparr>noff := noff h + 1\<rparr>) s)"

definition pop_off :: "nat \<Rightarrow> spin_state \<Rightarrow> (unit, spin_state) res" where
  "pop_off c s =
     (if intr_get c s then Panic ''pop_off - interruptible''
      else if noff (harts s c) < 1 then Panic ''pop_off''
      else let s = upd_hart c (\<lambda>h. h\<lparr>noff := noff h - 1\<rparr>) s
           in if noff (harts s c) = 0 \<and> intena (harts s c) then Ret () (intr_on c s) else Ret () s)"

definition holding :: "nat \<Rightarrow> lock_id \<Rightarrow> spin_state \<Rightarrow> bool" where
  "holding c l s \<longleftrightarrow> locked (locks s l) \<noteq> 0 \<and> lk_cpu (locks s l) = Some c"

text \<open>
  \<^verbatim>\<open>__sync_lock_test_and_set(&lk->locked, 1)\<close> stores 1 and answers the old value. A hart that
  sees 1 tries again; if no other hart moves, it spins for ever (\<open>Hang\<close>).
\<close>

definition test_and_set :: "lock_id \<Rightarrow> spin_state \<Rightarrow> uint \<times> spin_state" where
  "test_and_set l s = (locked (locks s l), upd_lock l (\<lambda>k. k\<lparr>locked := 1\<rparr>) s)"

definition acquire :: "nat \<Rightarrow> lock_id \<Rightarrow> spin_state \<Rightarrow> (unit, spin_state) res" where
  "acquire c l s =
     (let s = push_off c s
      in if holding c l s then Panic ''acquire''
         else case test_and_set l s of (old, s) \<Rightarrow>
           if old \<noteq> 0 then Hang
           else Ret () (upd_lock l (\<lambda>k. k\<lparr>lk_cpu := Some c\<rparr>) s))"

definition release :: "nat \<Rightarrow> lock_id \<Rightarrow> spin_state \<Rightarrow> (unit, spin_state) res" where
  "release c l s =
     (if \<not> holding c l s then Panic ''release''
      else let s = upd_lock l (\<lambda>k. k\<lparr>lk_cpu := None\<rparr>) s;
               s = upd_lock l (\<lambda>k. k\<lparr>locked := 0\<rparr>) s
           in pop_off c s)"

section \<open>Matched interrupt disabling\<close>

lemmas intr_defs = intr_get_def intr_on_def intr_off_def

text \<open>The nesting count is never negative, and interrupts are off inside a critical section.\<close>

definition hart_ok :: "hart \<Rightarrow> bool" where
  "hart_ok h \<longleftrightarrow> 0 \<le> noff h \<and> (0 < noff h \<longrightarrow> \<not> sie h)"

lemma push_off_locks [simp]: "locks (push_off c s) = locks s"
  by (simp add: push_off_def intr_defs Let_def)

lemma push_off_hart:
  "harts (push_off c s) =
     (harts s)(c := (harts s c)\<lparr>noff := noff (harts s c) + 1, sie := False,
       intena := (if noff (harts s c) = 0 then sie (harts s c) else intena (harts s c))\<rparr>)"
  by (cases "harts s c") (simp add: push_off_def intr_defs Let_def)

lemma pop_off_ok:
  assumes "\<not> sie (harts s c)" and "0 < noff (harts s c)"
  shows "pop_off c s = Ret () (upd_hart c (\<lambda>h. h\<lparr>noff := noff h - 1,
    sie := noff h = 1 \<and> intena h\<rparr>) s)"
  using assms by (cases "harts s c") (auto simp: pop_off_def intr_defs Let_def)

text \<open>
  The interrupt flag seen outside critical sections.
\<close>

definition base_intr :: "hart \<Rightarrow> bool" where
  "base_intr h = (if noff h = 0 then sie h else intena h)"

lemma push_pop_off:
  assumes "hart_ok (harts s c)"
  shows "\<exists>t. pop_off c (push_off c s) = Ret () t \<and> locks t = locks s
    \<and> noff (harts t c) = noff (harts s c) \<and> sie (harts t c) = sie (harts s c)
    \<and> base_intr (harts t c) = base_intr (harts s c)"
proof -
  have h: "harts (push_off c s) c = (harts s c)\<lparr>noff := noff (harts s c) + 1, sie := False,
       intena := (if noff (harts s c) = 0 then sie (harts s c) else intena (harts s c))\<rparr>"
    by (simp add: push_off_hart)
  have "pop_off c (push_off c s) = Ret () (upd_hart c (\<lambda>h. h\<lparr>noff := noff h - 1,
    sie := noff h = 1 \<and> intena h\<rparr>) (push_off c s))"
    by (rule pop_off_ok) (use assms in \<open>auto simp: h hart_ok_def\<close>)
  then show ?thesis
    using assms by (auto simp: h hart_ok_def base_intr_def)
qed

section \<open>One hart's view: a simulation\<close>

text \<open>
  \<open>lock_view c s m\<close> relates the lock table to the machine state of hart \<open>c\<close>: the locks it holds
  are those whose word is set and whose owner is \<open>c\<close>, \<^verbatim>\<open>noff\<close> counts them, and interrupts are
  off while there are any.
\<close>

definition lock_view :: "nat \<Rightarrow> spin_state \<Rightarrow> machine \<Rightarrow> bool" where
  "lock_view c s m \<longleftrightarrow>
     tp m = c \<and> distinct (held m) \<and> (\<forall>l. holding c l s \<longleftrightarrow> l \<in> set (held m))
     \<and> noff (harts s c) = int (length (held m))
     \<and> ien m = base_intr (harts s c)
     \<and> (held m \<noteq> [] \<longrightarrow> \<not> sie (harts s c))"

definition lock_free :: "lock_id \<Rightarrow> spin_state \<Rightarrow> bool" where
  "lock_free l s \<longleftrightarrow> locked (locks s l) = 0"

lemma lock_view_hart_ok: "lock_view c s m \<Longrightarrow> hart_ok (harts s c)"
  by (auto simp: lock_view_def hart_ok_def)

lemma lock_view_held: "lock_view c s m \<Longrightarrow> {l. holding c l s} = set (held m)"
  by (auto simp: lock_view_def)

lemma lock_view_distinct: "lock_view c s m \<Longrightarrow> distinct (held m)"
  by (simp add: lock_view_def)

lemma acquire_simulates:
  assumes "lock_view c s m" and "lock_free l s"
  shows "\<exists>t n. acquire c l s = Ret () t \<and> lock_acquire l m = Ret () n \<and> lock_view c t n"
proof -
  have nh: "\<not> holding c l s" using assms(2) by (simp add: holding_def lock_free_def)
  then have l: "l \<notin> set (held m)" using assms(1) by (simp add: lock_view_def)
  have nh': "\<not> holding c l (push_off c s)" using nh by (simp add: holding_def)
  let ?t = "upd_lock l (\<lambda>k. k\<lparr>lk_cpu := Some c\<rparr>) (upd_lock l (\<lambda>k. k\<lparr>locked := 1\<rparr>) (push_off c s))"
  have a: "acquire c l s = Ret () ?t"
    using nh' assms(2) by (simp add: acquire_def test_and_set_def lock_free_def Let_def)
  have "holding c k ?t \<longleftrightarrow> k = l \<or> holding c k s" for k
    by (simp add: holding_def)
  moreover have "harts ?t c = harts (push_off c s) c" by simp
  ultimately have "lock_view c ?t (m\<lparr>held := l # held m\<rparr>)"
    using assms(1) l by (auto simp: lock_view_def push_off_hart base_intr_def)
  with a l show ?thesis by (auto simp: lock_acquire_def)
qed

lemma acquire_self_panics:
  assumes "lock_view c s m" and "l \<in> set (held m)"
  shows "acquire c l s = Panic ''acquire'' \<and> lock_acquire l m = Panic ''acquire''"
proof -
  have "holding c l (push_off c s)" using assms by (simp add: lock_view_def holding_def)
  with assms(2) show ?thesis by (simp add: acquire_def lock_acquire_def Let_def)
qed

lemma release_simulates:
  assumes "lock_view c s m" and "l \<in> set (held m)"
  shows "\<exists>t n. release c l s = Ret () t \<and> lock_release l m = Ret () n \<and> lock_view c t n
    \<and> lock_free l t"
proof -
  have h: "holding c l s" using assms by (simp add: lock_view_def)
  let ?s = "upd_lock l (\<lambda>k. k\<lparr>locked := 0\<rparr>) (upd_lock l (\<lambda>k. k\<lparr>lk_cpu := None\<rparr>) s)"
  have ne: "held m \<noteq> []" using assms(2) by auto
  have off: "\<not> sie (harts s c)" "noff (harts s c) = int (length (held m))"
    using assms(1) ne by (simp_all add: lock_view_def)
  let ?t = "upd_hart c (\<lambda>h. h\<lparr>noff := noff h - 1, sie := noff h = 1 \<and> intena h\<rparr>) ?s"
  have r: "release c l s = Ret () ?t"
    using h off ne by (simp add: release_def Let_def pop_off_ok)
  have hold: "holding c k ?t \<longleftrightarrow> k \<noteq> l \<and> holding c k s" for k
    by (simp add: holding_def)
  have len: "int (length (remove1 l (held m))) = int (length (held m)) - 1"
    using assms(2) length_pos_if_in_set [OF assms(2)]
    by (simp add: length_remove1 of_nat_diff Suc_le_eq)
  have emp: "remove1 l (held m) = [] \<longleftrightarrow> length (held m) = 1"
    using len by (cases "remove1 l (held m)") auto
  have "lock_view c ?t (m\<lparr>held := remove1 l (held m)\<rparr>)"
    using assms(1) ne off len emp hold
    by (auto simp: lock_view_def base_intr_def set_remove1_eq)
  moreover have "lock_free l ?t" by (simp add: lock_free_def)
  ultimately show ?thesis using r assms(2) by (auto simp: lock_release_def)
qed

section \<open>The lock interface\<close>

text \<open>
  What the rest of the kernel relies on: acquiring a lock nobody holds adds exactly that lock,
  releasing a held lock removes exactly that lock, and the two misuses stop the machine.
\<close>

locale lock_api =
  fixes acq rel :: "lock_id \<Rightarrow> 's \<Rightarrow> (unit, 's) res"
    and owned :: "'s \<Rightarrow> lock_id set"
    and avail :: "lock_id \<Rightarrow> 's \<Rightarrow> bool"
    and ok :: "'s \<Rightarrow> bool"
  assumes acq_avail: "ok s \<Longrightarrow> avail l s \<Longrightarrow> l \<notin> owned s \<Longrightarrow>
      returns (acq l s) (\<lambda>_ t. ok t \<and> owned t = insert l (owned s) \<and> (\<forall>k. k \<noteq> l \<longrightarrow> avail k t = avail k s))"
    and acq_owned: "ok s \<Longrightarrow> l \<in> owned s \<Longrightarrow> acq l s = Panic ''acquire''"
    and rel_owned: "ok s \<Longrightarrow> l \<in> owned s \<Longrightarrow>
      returns (rel l s) (\<lambda>_ t. ok t \<and> owned t = owned s - {l} \<and> avail l t \<and> (\<forall>k. k \<noteq> l \<longrightarrow> avail k t = avail k s))"
    and rel_not_owned: "ok s \<Longrightarrow> l \<notin> owned s \<Longrightarrow> rel l s = Panic ''release''"
begin

fun acq_all :: "lock_id list \<Rightarrow> 's \<Rightarrow> (unit, 's) res" where
  "acq_all [] s = Ret () s"
| "acq_all (l # ls) s = res_bind (acq l s) (\<lambda>_. acq_all ls)"

fun rel_all :: "lock_id list \<Rightarrow> 's \<Rightarrow> (unit, 's) res" where
  "rel_all [] s = Ret () s"
| "rel_all (l # ls) s = res_bind (rel l s) (\<lambda>_. rel_all ls)"

lemma acq_all_owned:
  assumes "ok s" and "distinct ls" and "set ls \<inter> owned s = {}" and "\<forall>l \<in> set ls. avail l s"
  shows "returns (acq_all ls s) (\<lambda>_ t. ok t \<and> owned t = set ls \<union> owned s)"
  using assms
proof (induction ls arbitrary: s)
  case Nil
  then show ?case by simp
next
  case (Cons l ls)
  have "returns (acq l s) (\<lambda>_ t. ok t \<and> owned t = insert l (owned s) \<and> (\<forall>k. k \<noteq> l \<longrightarrow> avail k t = avail k s))"
    by (rule acq_avail) (use Cons.prems in auto)
  then show ?case
    unfolding acq_all.simps
  proof (rule returns_bind)
    fix a t
    assume t: "ok t \<and> owned t = insert l (owned s) \<and> (\<forall>k. k \<noteq> l \<longrightarrow> avail k t = avail k s)"
    then have "returns (acq_all ls t) (\<lambda>_ u. ok u \<and> owned u = set ls \<union> owned t)"
      by (intro Cons.IH) (use Cons.prems in auto)
    then show "returns (acq_all ls t) (\<lambda>_ u. ok u \<and> owned u = set (l # ls) \<union> owned s)"
      by (rule returns_mono) (use t in auto)
  qed
qed

lemma rel_all_owned:
  assumes "ok s" and "distinct ls" and "set ls \<subseteq> owned s"
  shows "returns (rel_all ls s) (\<lambda>_ t. ok t \<and> owned t = owned s - set ls)"
  using assms
proof (induction ls arbitrary: s)
  case Nil
  then show ?case by simp
next
  case (Cons l ls)
  have "returns (rel l s) (\<lambda>_ t. ok t \<and> owned t = owned s - {l} \<and> avail l t \<and> (\<forall>k. k \<noteq> l \<longrightarrow> avail k t = avail k s))"
    by (rule rel_owned) (use Cons.prems in auto)
  then show ?case
    unfolding rel_all.simps
  proof (rule returns_bind)
    fix a t
    assume t: "ok t \<and> owned t = owned s - {l} \<and> avail l t \<and> (\<forall>k. k \<noteq> l \<longrightarrow> avail k t = avail k s)"
    then have "returns (rel_all ls t) (\<lambda>_ u. ok u \<and> owned u = owned t - set ls)"
      by (intro Cons.IH) (use Cons.prems in auto)
    then show "returns (rel_all ls t) (\<lambda>_ u. ok u \<and> owned u = owned s - set (l # ls))"
      by (rule returns_mono) (use t in auto)
  qed
qed

text \<open>Locks taken together and given back in any order leave the holder as it was.\<close>

lemma nested_section:
  assumes "ok s" and "distinct ls" and "set ls \<inter> owned s = {}" and "\<forall>l \<in> set ls. avail l s"
    and "distinct ks" and "set ks = set ls"
  shows "returns (res_bind (acq_all ls s) (\<lambda>_. rel_all ks)) (\<lambda>_ t. ok t \<and> owned t = owned s)"
proof (rule returns_bind [OF acq_all_owned [OF assms(1-4)]])
  fix a t
  assume t: "ok t \<and> owned t = set ls \<union> owned s"
  then have "returns (rel_all ks t) (\<lambda>_ u. ok u \<and> owned u = owned t - set ks)"
    by (intro rel_all_owned) (use assms in auto)
  then show "returns (rel_all ks t) (\<lambda>_ u. ok u \<and> owned u = owned s)"
    by (rule returns_mono) (use t assms in auto)
qed

lemma reacquire_panics:
  assumes "ok s" and "avail l s" and "l \<notin> owned s"
  shows "res_bind (acq l s) (\<lambda>_. acq l) = Panic ''acquire''"
  using acq_avail [OF assms] by (auto elim!: returnsE simp: acq_owned)

end

interpretation mlock: lock_api lock_acquire lock_release "\<lambda>s. set (held s)" "\<lambda>_ _. True"
    "\<lambda>s. distinct (held s)"
  by unfold_locales (auto simp: lock_acquire_def lock_release_def set_remove1_eq)

text \<open>The routines of \<^verbatim>\<open>spinlock.c\<close> on hart \<open>c\<close> satisfy the same contract.\<close>

definition hart_locks_ok :: "nat \<Rightarrow> spin_state \<Rightarrow> bool" where
  "hart_locks_ok c s \<longleftrightarrow> (\<exists>m. lock_view c s m)"

lemma acquire_locks:
  "acquire c l s = Ret () t \<Longrightarrow> k \<noteq> l \<Longrightarrow> locks t k = locks s k"
  by (auto simp: acquire_def test_and_set_def Let_def split: if_splits)

lemma release_locks:
  "release c l s = Ret () t \<Longrightarrow> k \<noteq> l \<Longrightarrow> locks t k = locks s k"
  by (auto simp: release_def pop_off_def intr_defs Let_def split: if_splits)

interpretation klock: lock_api "acquire c" "release c" "\<lambda>s. {l. holding c l s}" lock_free
    "hart_locks_ok c"
proof unfold_locales
  fix s l
  assume ok: "hart_locks_ok c s" and fr: "lock_free l s"
  then obtain m where m: "lock_view c s m" by (auto simp: hart_locks_ok_def)
  obtain t n where t: "acquire c l s = Ret () t" "lock_acquire l m = Ret () n" "lock_view c t n"
    using acquire_simulates [OF m fr] by auto
  have "{k. holding c k t} = insert l {k. holding c k s}"
    unfolding lock_view_held [OF t(3)] lock_view_held [OF m]
    using t(2) by (auto simp: lock_acquire_def split: if_splits)
  then show "returns (acquire c l s) (\<lambda>_ t. hart_locks_ok c t \<and>
      {k. holding c k t} = insert l {k. holding c k s} \<and>
      (\<forall>k. k \<noteq> l \<longrightarrow> lock_free k t = lock_free k s))"
    using t acquire_locks [OF t(1)] by (auto simp: hart_locks_ok_def lock_free_def)
next
  fix s l
  assume ok: "hart_locks_ok c s" and l: "l \<in> {l. holding c l s}"
  then obtain m where m: "lock_view c s m" by (auto simp: hart_locks_ok_def)
  then have lm: "l \<in> set (held m)" using l by (simp add: lock_view_def)
  show "acquire c l s = Panic ''acquire''" using acquire_self_panics [OF m lm] by simp
  obtain t n where t: "release c l s = Ret () t" "lock_release l m = Ret () n" "lock_view c t n"
      "lock_free l t"
    using release_simulates [OF m lm] by auto
  have "{k. holding c k t} = {k. holding c k s} - {l}"
    unfolding lock_view_held [OF t(3)] lock_view_held [OF m]
    using t(2) lm lock_view_distinct [OF m] by (auto simp: lock_release_def)
  then show "returns (release c l s) (\<lambda>_ t. hart_locks_ok c t \<and>
      {k. holding c k t} = {k. holding c k s} - {l} \<and> lock_free l t \<and>
      (\<forall>k. k \<noteq> l \<longrightarrow> lock_free k t = lock_free k s))"
    using t release_locks [OF t(1)] by (auto simp: hart_locks_ok_def lock_free_def)
next
  fix s l
  assume "l \<notin> {l. holding c l s}"
  then show "release c l s = Panic ''release''" by (simp add: release_def)
qed

section \<open>All harts interleaved\<close>

text \<open>
  Each hart runs \<^verbatim>\<open>acquire\<close> and \<^verbatim>\<open>release\<close> on any number of locks; a step is one access to shared
  memory by one hart. The phase of a hart at a lock says how far it has come: \<open>Spinning\<close> after
  \<^verbatim>\<open>push_off\<close> and the check, \<open>Won\<close> after the swap that answered 0, \<open>Owning\<close> once it has recorded
  itself, \<open>Releasing\<close> after it has cleared the owner, \<open>Unlocked\<close> after the store of 0, and
  \<open>Idle\<close> again after \<^verbatim>\<open>pop_off\<close>.
\<close>

datatype phase = Idle | Spinning | Won | Owning | Releasing | Unlocked

record spin_world =
  shm :: spin_state
  phases :: "nat \<Rightarrow> lock_id \<Rightarrow> phase"

abbreviation set_phase :: "nat \<Rightarrow> lock_id \<Rightarrow> phase \<Rightarrow> spin_world \<Rightarrow> spin_world" where
  "set_phase c l p w \<equiv> w\<lparr>phases := (phases w)(c := (phases w c)(l := p))\<rparr>"

definition boot_world :: spin_world where
  "boot_world = \<lparr>shm = \<lparr>locks = (\<lambda>_. \<lparr>locked = 0, lk_name = [], lk_cpu = None\<rparr>),
     harts = (\<lambda>_. \<lparr>noff = 0, intena = False, sie = False\<rparr>)\<rparr>, phases = (\<lambda>_ _. Idle)\<rparr>"

inductive hart_step :: "spin_world \<Rightarrow> spin_world \<Rightarrow> bool" where
  enter: "phases w c l = Idle \<Longrightarrow> \<not> holding c l (push_off c (shm w)) \<Longrightarrow>
    hart_step w (set_phase c l Spinning (w\<lparr>shm := push_off c (shm w)\<rparr>))"
| tas_lose: "phases w c l = Spinning \<Longrightarrow> test_and_set l (shm w) = (old, t) \<Longrightarrow> old \<noteq> 0 \<Longrightarrow>
    hart_step w (w\<lparr>shm := t\<rparr>)"
| tas_win: "phases w c l = Spinning \<Longrightarrow> test_and_set l (shm w) = (old, t) \<Longrightarrow> old = 0 \<Longrightarrow>
    hart_step w (set_phase c l Won (w\<lparr>shm := t\<rparr>))"
| record_owner: "phases w c l = Won \<Longrightarrow>
    hart_step w (set_phase c l Owning (w\<lparr>shm := upd_lock l (\<lambda>k. k\<lparr>lk_cpu := Some c\<rparr>) (shm w)\<rparr>))"
| clear_owner: "phases w c l = Owning \<Longrightarrow> holding c l (shm w) \<Longrightarrow>
    hart_step w (set_phase c l Releasing (w\<lparr>shm := upd_lock l (\<lambda>k. k\<lparr>lk_cpu := None\<rparr>) (shm w)\<rparr>))"
| unlock: "phases w c l = Releasing \<Longrightarrow>
    hart_step w (set_phase c l Unlocked (w\<lparr>shm := upd_lock l (\<lambda>k. k\<lparr>locked := 0\<rparr>) (shm w)\<rparr>))"
| leave: "phases w c l = Unlocked \<Longrightarrow> pop_off c (shm w) = Ret () t \<Longrightarrow>
    hart_step w (set_phase c l Idle (w\<lparr>shm := t\<rparr>))"
| interrupts: "noff (harts (shm w) c) = 0 \<Longrightarrow>
    hart_step w (w\<lparr>shm := upd_hart c (\<lambda>h. h\<lparr>sie := b\<rparr>) (shm w)\<rparr>)"

inductive spin_reachable :: "spin_world \<Rightarrow> bool" where
  boot: "spin_reachable boot_world"
| step: "spin_reachable w \<Longrightarrow> hart_step w v \<Longrightarrow> spin_reachable v"

definition keeps_word :: "phase \<Rightarrow> bool" where
  "keeps_word p \<longleftrightarrow> p = Won \<or> p = Owning \<or> p = Releasing"

text \<open>
  The invariant: the lock word is set exactly while one hart is between its winning swap and
  its store of 0, and the recorded owner is the hart that is past recording and not yet
  clearing. The counting part: \<^verbatim>\<open>noff\<close> counts the locks a hart is engaged with.
\<close>

definition word_ok :: "spinlock \<Rightarrow> (nat \<Rightarrow> phase) \<Rightarrow> bool" where
  "word_ok k ps \<longleftrightarrow>
     (if locked k = 0 then lk_cpu k = None \<and> (\<forall>c. \<not> keeps_word (ps c))
      else (\<exists>c. keeps_word (ps c) \<and> (\<forall>d. keeps_word (ps d) \<longrightarrow> d = c)
             \<and> lk_cpu k = (if ps c = Owning then Some c else None)))"

definition word_inv :: "spin_world \<Rightarrow> bool" where
  "word_inv w \<longleftrightarrow> (\<forall>l. word_ok (locks (shm w) l) (\<lambda>c. phases w c l))"

definition count_inv :: "spin_world \<Rightarrow> bool" where
  "count_inv w \<longleftrightarrow>
     (\<forall>c. finite {l. phases w c l \<noteq> Idle}
        \<and> noff (harts (shm w) c) = int (card {l. phases w c l \<noteq> Idle})
        \<and> hart_ok (harts (shm w) c))"

lemma keeps_word_simps [simp]:
  "keeps_word Won" "keeps_word Owning" "keeps_word Releasing"
  "\<not> keeps_word Idle" "\<not> keeps_word Spinning" "\<not> keeps_word Unlocked"
  by (simp_all add: keeps_word_def)

lemma word_inv_boot: "word_inv boot_world"
  by (simp add: word_inv_def word_ok_def boot_world_def)

lemma count_inv_boot: "count_inv boot_world"
  by (simp add: count_inv_def boot_world_def hart_ok_def)

lemma pop_off_locks: "pop_off c s = Ret () t \<Longrightarrow> locks t = locks s"
  by (auto simp: pop_off_def intr_defs Let_def split: if_splits)

lemma word_ok_held:
  assumes "locked k \<noteq> 0" and "keeps_word (ps c)" and "\<And>d. keeps_word (ps d) \<Longrightarrow> d = c"
    and "lk_cpu k = (if ps c = Owning then Some c else None)"
  shows "word_ok k ps"
proof -
  have "keeps_word (ps c) \<and> (\<forall>d. keeps_word (ps d) \<longrightarrow> d = c)
      \<and> lk_cpu k = (if ps c = Owning then Some c else None)"
    using assms(2-4) by blast
  then have "\<exists>e. keeps_word (ps e) \<and> (\<forall>d. keeps_word (ps d) \<longrightarrow> d = e)
      \<and> lk_cpu k = (if ps e = Owning then Some e else None)"
    by (rule exI)
  then show ?thesis using assms(1) by (simp add: word_ok_def)
qed

lemma word_ok_heldE:
  assumes "word_ok k ps" and "locked k \<noteq> 0"
  obtains c where "keeps_word (ps c)" "\<forall>d. keeps_word (ps d) \<longrightarrow> d = c"
    "lk_cpu k = (if ps c = Owning then Some c else None)"
proof -
  have "\<exists>c. keeps_word (ps c) \<and> (\<forall>d. keeps_word (ps d) \<longrightarrow> d = c)
      \<and> lk_cpu k = (if ps c = Owning then Some c else None)"
    using assms by (simp add: word_ok_def)
  then show thesis using that by blast
qed

lemma word_ok_engage:
  assumes "word_ok k ps" and "\<not> keeps_word (ps c)" and "\<not> keeps_word p"
  shows "word_ok k (ps(c := p))"
proof (cases "locked k = 0")
  case True
  then show ?thesis using assms by (simp add: word_ok_def)
next
  case False
  obtain e where e: "keeps_word (ps e)" "\<forall>d. keeps_word (ps d) \<longrightarrow> d = e"
      "lk_cpu k = (if ps e = Owning then Some e else None)"
    by (rule word_ok_heldE [OF assms(1) False])
  have ne: "e \<noteq> c" using assms(2) e(1) by blast
  show ?thesis
  proof (rule word_ok_held [OF False, of _ e])
    show "keeps_word ((ps(c := p)) d) \<Longrightarrow> d = e" for d
      using assms(3) e(2) by (cases "d = c") simp_all
  qed (use e(1,3) ne in simp_all)
qed

lemma word_ok_win:
  assumes "word_ok k ps" and "locked k = 0"
  shows "word_ok (k\<lparr>locked := 1\<rparr>) (ps(c := Won))"
proof (rule word_ok_held [of _ _ c])
  show "keeps_word ((ps(c := Won)) d) \<Longrightarrow> d = c" for d
    using assms by (cases "d = c") (simp_all add: word_ok_def)
qed (use assms in \<open>simp_all add: word_ok_def\<close>)

lemma word_ok_lose: "word_ok k ps \<Longrightarrow> locked k \<noteq> 0 \<Longrightarrow> word_ok (k\<lparr>locked := 1\<rparr>) ps"
  by (auto simp: word_ok_def)

lemma word_ok_keeper:
  assumes "word_ok k ps" and "keeps_word (ps c)"
  shows "locked k \<noteq> 0" and "keeps_word (ps d) \<Longrightarrow> d = c"
    and "lk_cpu k = (if ps c = Owning then Some c else None)"
proof -
  show nz: "locked k \<noteq> 0" using assms by (auto simp: word_ok_def)
  obtain e where e: "\<forall>d. keeps_word (ps d) \<longrightarrow> d = e"
      "lk_cpu k = (if ps e = Owning then Some e else None)"
    by (rule word_ok_heldE [OF assms(1) nz])
  have "c = e" using e(1) assms(2) by simp
  then show "keeps_word (ps d) \<Longrightarrow> d = c" and "lk_cpu k = (if ps c = Owning then Some c else None)"
    using e by simp_all
qed

lemma word_ok_owner:
  assumes "word_ok k ps" and "keeps_word (ps c)" and "keeps_word p"
  shows "word_ok (k\<lparr>lk_cpu := (if p = Owning then Some c else None)\<rparr>) (ps(c := p))"
proof (rule word_ok_held [of _ _ c])
  show "keeps_word ((ps(c := p)) d) \<Longrightarrow> d = c" for d
    using word_ok_keeper(2) [OF assms(1,2)] by (cases "d = c") simp_all
qed (use word_ok_keeper(1) [OF assms(1,2)] assms(3) in simp_all)

lemma word_ok_unlock:
  assumes "word_ok k ps" and "ps c = Releasing"
  shows "word_ok (k\<lparr>locked := 0\<rparr>) (ps(c := Unlocked))"
proof -
  have "keeps_word (ps c)" using assms(2) by simp
  note k = word_ok_keeper [OF assms(1) this]
  show ?thesis using k assms(2) by (auto simp: word_ok_def)
qed

lemma word_inv_upd:
  assumes "word_inv w" and "word_ok (locks t l) ((\<lambda>d. phases w d l)(c := p))"
    and "\<And>k. k \<noteq> l \<Longrightarrow> locks t k = locks (shm w) k"
  shows "word_inv (set_phase c l p (w\<lparr>shm := t\<rparr>))"
  unfolding word_inv_def
proof
  fix k
  show "word_ok (locks (shm (set_phase c l p (w\<lparr>shm := t\<rparr>))) k)
      (\<lambda>d. phases (set_phase c l p (w\<lparr>shm := t\<rparr>)) d k)"
  proof (cases "k = l")
    case True
    have "(\<lambda>d. phases (set_phase c l p (w\<lparr>shm := t\<rparr>)) d l) = (\<lambda>d. phases w d l)(c := p)"
      by auto
    with True assms(2) show ?thesis by simp
  next
    case False
    then have "(\<lambda>d. phases (set_phase c l p (w\<lparr>shm := t\<rparr>)) d k) = (\<lambda>d. phases w d k)"
      by auto
    with False assms(1,3) show ?thesis by (simp add: word_inv_def)
  qed
qed

lemma hart_step_word_inv: "hart_step w v \<Longrightarrow> word_inv w \<Longrightarrow> word_inv v"
proof (induction rule: hart_step.induct)
  case (enter w c l)
  then show ?case by (intro word_inv_upd) (auto simp: word_inv_def intro!: word_ok_engage)
next
  case (tas_lose w c l old t)
  then show ?case by (auto simp: word_inv_def test_and_set_def intro!: word_ok_lose)
next
  case (tas_win w c l old t)
  then show ?case
    by (intro word_inv_upd) (auto simp: word_inv_def test_and_set_def intro!: word_ok_win)
next
  case (record_owner w c l)
  then show ?case
    using word_ok_owner [of "locks (shm w) l" "\<lambda>d. phases w d l" c Owning]
    by (intro word_inv_upd) (auto simp: word_inv_def)
next
  case (clear_owner w c l)
  then show ?case
    using word_ok_owner [of "locks (shm w) l" "\<lambda>d. phases w d l" c Releasing]
    by (intro word_inv_upd) (auto simp: word_inv_def)
next
  case (unlock w c l)
  then show ?case by (intro word_inv_upd) (auto simp: word_inv_def intro!: word_ok_unlock)
next
  case (leave w c l t)
  then show ?case
    by (intro word_inv_upd) (auto simp: word_inv_def pop_off_locks intro!: word_ok_engage)
next
  case (interrupts w c b)
  then show ?case by (auto simp: word_inv_def)
qed

lemma count_inv_phase:
  assumes "count_inv w" and "phases w c l \<noteq> Idle" and "p \<noteq> Idle" and "harts t = harts (shm w)"
  shows "count_inv (set_phase c l p (w\<lparr>shm := t\<rparr>))"
proof -
  have "{k. ((phases w c)(l := p)) k \<noteq> Idle} = {k. phases w c k \<noteq> Idle}"
    using assms(2,3) by auto
  then show ?thesis using assms(1,4) by (simp add: count_inv_def)
qed

lemma hart_step_count_inv: "hart_step w v \<Longrightarrow> count_inv w \<Longrightarrow> count_inv v"
proof (induction rule: hart_step.induct)
  case (enter w c l)
  let ?S = "{k. phases w c k \<noteq> Idle}"
  have S: "finite ?S" "noff (harts (shm w) c) = int (card ?S)" "hart_ok (harts (shm w) c)"
    using enter by (auto simp: count_inv_def)
  have "{k. ((phases w c)(l := Spinning)) k \<noteq> Idle} = insert l ?S" by auto
  moreover have "card (insert l ?S) = Suc (card ?S)"
    using enter S(1) by (intro card_insert_disjoint) auto
  ultimately show ?case
    using enter(3) S by (simp add: count_inv_def push_off_hart hart_ok_def)
next
  case (tas_lose w c l old t)
  then show ?case by (auto simp: count_inv_def test_and_set_def)
next
  case (tas_win w c l old t)
  then show ?case by (intro count_inv_phase) (auto simp: test_and_set_def)
next
  case (record_owner w c l)
  then show ?case by (intro count_inv_phase) auto
next
  case (clear_owner w c l)
  then show ?case by (intro count_inv_phase) auto
next
  case (unlock w c l)
  then show ?case by (intro count_inv_phase) auto
next
  case (leave w c l t)
  let ?S = "{k. phases w c k \<noteq> Idle}"
  have S: "finite ?S" "noff (harts (shm w) c) = int (card ?S)" "hart_ok (harts (shm w) c)"
    using leave by (auto simp: count_inv_def)
  have l: "l \<in> ?S" using leave by simp
  then have pos: "0 < card ?S" using S(1) card_gt_0_iff by blast
  then have t: "t = upd_hart c (\<lambda>h. h\<lparr>noff := noff h - 1, sie := noff h = 1 \<and> intena h\<rparr>) (shm w)"
    using leave(2) S by (subst (asm) pop_off_ok) (auto simp: hart_ok_def)
  have "int (card (?S - {l})) = int (card ?S) - 1"
    using l S(1) pos by (simp add: card_Diff_singleton of_nat_diff Suc_le_eq)
  moreover have "{k. ((phases w c)(l := Idle)) k \<noteq> Idle} = ?S - {l}" by auto
  ultimately show ?case
    using leave(3) S pos by (simp add: t count_inv_def hart_ok_def)
next
  case (interrupts w c b)
  then show ?case by (auto simp: count_inv_def hart_ok_def)
qed

lemma spin_reachable_inv: "spin_reachable w \<Longrightarrow> word_inv w \<and> count_inv w"
  by (induction rule: spin_reachable.induct)
     (auto intro: word_inv_boot count_inv_boot hart_step_word_inv hart_step_count_inv)

inductive_simps hart_step_simps: "hart_step w v"

text \<open>
  C2. Mutual exclusion of spin-locks under arbitrary interleaving of all harts: in every
  reachable state at most one hart owns a lock, \<^verbatim>\<open>holding\<close> answers true exactly for the owner
  (so neither the check in \<^verbatim>\<open>acquire\<close> nor the one in \<^verbatim>\<open>release\<close> can misfire), and the owner runs
  with interrupts off.
\<close>

theorem spinlock_mutual_exclusion:
  assumes "spin_reachable w" and "phases w c l = Owning"
  shows "(\<forall>d. holding d l (shm w) \<longleftrightarrow> d = c) \<and> (\<forall>d. phases w d l = Owning \<longrightarrow> d = c) \<and>
    \<not> intr_get c (shm w)"
proof -
  have inv: "word_inv w" "count_inv w" using spin_reachable_inv [OF assms(1)] by auto
  have k: "keeps_word (phases w c l)" using assms(2) by (simp add: keeps_word_def)
  have ok: "word_ok (locks (shm w) l) (\<lambda>c. phases w c l)"
    using inv(1) by (simp add: word_inv_def)
  have w: "locked (locks (shm w) l) \<noteq> 0" "lk_cpu (locks (shm w) l) = Some c"
    "\<And>d. keeps_word (phases w d l) \<Longrightarrow> d = c"
    using word_ok_keeper [OF ok k] assms(2) by auto
  have own: "phases w d l = Owning \<Longrightarrow> d = c" for d using w(3) [of d] by simp
  have hold: "holding d l (shm w) \<longleftrightarrow> d = c" for d using w(1,2) by (auto simp: holding_def)
  let ?S = "{k. phases w c k \<noteq> Idle}"
  have S: "finite ?S" "noff (harts (shm w) c) = int (card ?S)" "hart_ok (harts (shm w) c)"
    using inv(2) by (simp_all add: count_inv_def)
  have "l \<in> ?S" using assms(2) by simp
  then have "0 < card ?S" using S(1) card_gt_0_iff by blast
  then have "\<not> intr_get c (shm w)" using S(2,3) by (simp add: hart_ok_def intr_get_def)
  then show ?thesis using own hold by simp
qed

lemma free_lock_taken:
  assumes "spin_reachable w" and "phases w c l = Idle" and "locked (locks (shm w) l) = 0"
  shows "\<exists>v. spin_reachable v \<and> phases v c l = Owning"
proof -
  have locks: "locks (push_off c (shm w)) = locks (shm w)"
    by (simp add: push_off_def intr_defs Let_def)
  let ?w1 = "set_phase c l Spinning (w\<lparr>shm := push_off c (shm w)\<rparr>)"
  have "hart_step w ?w1" using assms(2,3) by (intro enter) (simp_all add: holding_def locks)
  then have r1: "spin_reachable ?w1" using assms(1) step by blast
  obtain old t where tas: "test_and_set l (shm ?w1) = (old, t)" by (cases "test_and_set l (shm ?w1)")
  then have "old = 0" using assms(3) by (auto simp: test_and_set_def locks)
  then have "hart_step ?w1 (set_phase c l Won (?w1\<lparr>shm := t\<rparr>))" using tas by (intro tas_win) simp_all
  then have r2: "spin_reachable (set_phase c l Won (?w1\<lparr>shm := t\<rparr>))" using r1 step by blast
  have "hart_step (set_phase c l Won (?w1\<lparr>shm := t\<rparr>))
      (set_phase c l Owning ((set_phase c l Won (?w1\<lparr>shm := t\<rparr>))\<lparr>shm := upd_lock l (\<lambda>k. k\<lparr>lk_cpu := Some c\<rparr>) t\<rparr>))"
    using record_owner [of "set_phase c l Won (?w1\<lparr>shm := t\<rparr>)" c l] by simp
  then show ?thesis using r2 step by fastforce
qed

theorem spinlock_mutual_exclusion_witness:
  "\<exists>w. spin_reachable w \<and> phases w 2 KmemLock = Owning \<and> holding 2 KmemLock (shm w) \<and> \<not> holding 3 KmemLock (shm w)"
proof -
  obtain w where w: "spin_reachable w" "phases w 2 KmemLock = Owning"
    using free_lock_taken [OF boot, of 2 KmemLock] by (auto simp: boot_world_def)
  then have "\<forall>d. holding d KmemLock (shm w) \<longleftrightarrow> d = 2" using spinlock_mutual_exclusion by blast
  then have "holding 2 KmemLock (shm w)" "\<not> holding 3 KmemLock (shm w)" by simp_all
  with w show ?thesis by blast
qed

end
