(* ===== verification/Kalloc.thy ===== *)
theory Kalloc
  imports CString Spinlock
begin

text \<open>
  \<^verbatim>\<open>kernel/kalloc.c\<close>: the physical page allocator. The free pages form a list threaded through
  their own first eight bytes; the model keeps it there, in the byte memory, and relates it to
  an abstract list of page addresses.
\<close>

section \<open>Words in memory\<close>

fun store_bytes :: "memory \<Rightarrow> uint64 \<Rightarrow> uchar list \<Rightarrow> memory" where
  "store_bytes m a [] = m"
| "store_bytes m a (b # bs) = store_bytes (m(a := b)) (a + 1) bs"

definition load_bytes :: "memory \<Rightarrow> uint64 \<Rightarrow> nat \<Rightarrow> uchar list" where
  "load_bytes m a n = map (\<lambda>i. m (a + of_nat i)) [0..<n]"

definition store64 :: "memory \<Rightarrow> uint64 \<Rightarrow> uint64 \<Rightarrow> memory" where
  "store64 m a v = store_bytes m a (le_bytes 8 v)"

definition load64 :: "memory \<Rightarrow> uint64 \<Rightarrow> uint64" where
  "load64 m a = le_word (load_bytes m a 8)"

lemma store_bytes_apply:
  "unat a + length bs \<le> 2 ^ 64 \<Longrightarrow>
    store_bytes m a bs x = (if in_range a (length bs) x then bs ! (unat x - unat a) else m x)"
proof (induction bs arbitrary: m a)
  case Nil
  then show ?case by simp
next
  case (Cons b bs)
  show ?case
  proof (cases bs)
    case Nil
    then show ?thesis using in_range_Suc [of a 0 x] Cons.prems by auto
  next
    case (Cons c cs)
    then have s: "unat (a + 1) = unat a + 1" using Cons.prems by (intro unat_suc) simp
    then have IH: "store_bytes (m(a := b)) (a + 1) bs x =
        (if in_range (a + 1) (length bs) x then bs ! (unat x - unat (a + 1)) else (m(a := b)) x)"
      using Cons.prems by (intro Cons.IH) simp
    have r: "in_range a (Suc (length bs)) x \<longleftrightarrow> x = a \<or> in_range (a + 1) (length bs) x"
      using in_range_Suc [of a "length bs" x] Cons.prems Cons by auto
    have i: "(b # bs) ! (unat x - unat a) = bs ! (unat x - unat (a + 1))"
      if "in_range (a + 1) (length bs) x"
    proof -
      have "unat x - unat a = Suc (unat x - unat (a + 1))"
        using that unfolding in_range_def s by arith
      then show ?thesis by simp
    qed
    show ?thesis using IH r i by auto
  qed
qed

lemma length_load_bytes [simp]: "length (load_bytes m a n) = n"
  by (simp add: load_bytes_def)

lemma load_store_bytes:
  assumes "unat a + length bs \<le> 2 ^ 64"
  shows "load_bytes (store_bytes m a bs) a (length bs) = bs"
proof (rule nth_equalityI)
  fix i assume "i < length (load_bytes (store_bytes m a bs) a (length bs))"
  then have i: "i < length bs" by simp
  then have "unat (a + of_nat i) = unat a + i" using assms by (simp add: unat_add_of_nat)
  with i assms show "load_bytes (store_bytes m a bs) a (length bs) ! i = bs ! i"
    by (simp add: load_bytes_def store_bytes_apply in_range_def)
qed simp

lemma load64_store64:
  "unat a + 8 \<le> 2 ^ 64 \<Longrightarrow> load64 (store64 m a v) a = v"
  using load_store_bytes [of a "le_bytes 8 v" m]
  by (simp add: load64_def store64_def le_word_le_bytes)

lemma load64_cong:
  "(\<And>i. i < 8 \<Longrightarrow> m (a + of_nat i) = n (a + of_nat i)) \<Longrightarrow> load64 m a = load64 n a"
  unfolding load64_def load_bytes_def by (intro arg_cong [of _ _ le_word] map_cong) auto

section \<open>State and routines\<close>

text \<open>
  \<open>kend\<close> is the linker's symbol \<^verbatim>\<open>end\<close>, the first address after the kernel image.
\<close>

record kmem =
  pmem :: memory
  freelist :: uint64
  kend :: uint64

record kstate = machine +
  phys :: kmem

definition kfree :: "uint64 \<Rightarrow> 'z kstate_scheme \<Rightarrow> (unit, 'z kstate_scheme) res" where
  "kfree pa s =
     (if pa mod PGSIZE \<noteq> 0 \<or> pa < kend (phys s) \<or> PHYSTOP \<le> pa then Panic ''kfree''
      else let s = s\<lparr>phys := (phys s)\<lparr>pmem := memset (pmem (phys s)) pa 1 4096\<rparr>\<rparr>
           in res_bind (lock_acquire KmemLock s) (\<lambda>_ s.
              let s = s\<lparr>phys := (phys s)\<lparr>pmem := store64 (pmem (phys s)) pa (freelist (phys s))\<rparr>\<rparr>;
                  s = s\<lparr>phys := (phys s)\<lparr>freelist := pa\<rparr>\<rparr>
              in lock_release KmemLock s))"

definition kalloc :: "'z kstate_scheme \<Rightarrow> (uint64, 'z kstate_scheme) res" where
  "kalloc s =
     res_bind (lock_acquire KmemLock s) (\<lambda>_ s.
       let r = freelist (phys s);
           s = (if r \<noteq> 0 then s\<lparr>phys := (phys s)\<lparr>freelist := load64 (pmem (phys s)) r\<rparr>\<rparr> else s)
       in res_bind (lock_release KmemLock s) (\<lambda>_ s.
            let s = (if r \<noteq> 0 then s\<lparr>phys := (phys s)\<lparr>pmem := memset (pmem (phys s)) r 5 4096\<rparr>\<rparr> else s)
            in Ret r s))"

text \<open>
  The loop of \<^verbatim>\<open>freerange\<close>. The first argument bounds the iterations; if the pointer arithmetic
  wrapped around, the C loop would not end, and the model answers \<open>Hang\<close>.
\<close>

fun freerange_loop :: "nat \<Rightarrow> uint64 \<Rightarrow> uint64 \<Rightarrow> 'z kstate_scheme \<Rightarrow> (unit, 'z kstate_scheme) res" where
  "freerange_loop 0 p pa_end s = Hang"
| "freerange_loop (Suc n) p pa_end s =
     (if p + PGSIZE \<le> pa_end
      then res_bind (kfree p s) (\<lambda>_ s. freerange_loop n (p + PGSIZE) pa_end s)
      else Ret () s)"

definition freerange :: "uint64 \<Rightarrow> uint64 \<Rightarrow> 'z kstate_scheme \<Rightarrow> (unit, 'z kstate_scheme) res" where
  "freerange pa_start pa_end s = freerange_loop (2 ^ 52 + 1) (PGROUNDUP pa_start) pa_end s"

definition kinit :: "'z kstate_scheme \<Rightarrow> (unit, 'z kstate_scheme) res" where
  "kinit s = freerange (kend (phys s)) PHYSTOP s"

section \<open>The free list\<close>

definition is_page :: "uint64 \<Rightarrow> uint64 \<Rightarrow> bool" where
  "is_page e p \<longleftrightarrow> p mod PGSIZE = 0 \<and> e \<le> p \<and> p < PHYSTOP \<and> p \<noteq> 0"

fun free_chain :: "memory \<Rightarrow> uint64 \<Rightarrow> uint64 list \<Rightarrow> bool" where
  "free_chain m p [] \<longleftrightarrow> p = 0"
| "free_chain m p (x # xs) \<longleftrightarrow> p = x \<and> x \<noteq> 0 \<and> free_chain m (load64 m x) xs"

text \<open>\<open>free_pages k xs\<close>: the allocator's list is exactly \<open>xs\<close>, a list of distinct RAM pages.\<close>

definition free_pages :: "kmem \<Rightarrow> uint64 list \<Rightarrow> bool" where
  "free_pages k xs \<longleftrightarrow> free_chain (pmem k) (freelist k) xs \<and> distinct xs \<and> (\<forall>x \<in> set xs. is_page (kend k) x)"

definition in_page :: "uint64 \<Rightarrow> uint64 \<Rightarrow> bool" where
  "in_page p x = in_range p 4096 x"

lemma PHYSTOP_unat: "unat PHYSTOP = 0x88000000"
  by (simp add: PHYSTOP_def KERNBASE_def)

lemma aligned_gap:
  fixes a b :: nat
  assumes "a mod 4096 = 0" and "b mod 4096 = 0" and "a < b"
  shows "a + 4096 \<le> b"
proof -
  obtain i j where "a = 4096 * i" "b = 4096 * j" using assms(1,2) by (auto simp: mod_eq_0_iff_dvd elim!: dvdE)
  with assms(3) show ?thesis by simp
qed

lemma page_unat: "is_page e p \<Longrightarrow> unat p + 4096 \<le> 0x88000000 \<and> unat p mod 4096 = 0"
proof -
  assume p: "is_page e p"
  then have "unat p < 0x88000000" by (simp add: is_page_def word_less_nat_alt PHYSTOP_unat)
  moreover have "unat p mod 4096 = 0"
    using p by (simp add: is_page_def PGSIZE_def word_unat_eq_iff unat_mod)
  ultimately show ?thesis using aligned_gap [of "unat p" "0x88000000"] by simp
qed

lemma pages_disjoint:
  assumes "is_page e p" and "is_page e q" and "p \<noteq> q"
  shows "\<not> (in_page p x \<and> in_page q x)"
proof -
  have "unat p \<noteq> unat q" using assms(3) by (simp add: word_unat_eq_iff)
  moreover have "unat p mod 4096 = 0" "unat q mod 4096 = 0"
    using page_unat assms(1,2) by auto
  ultimately have "unat p + 4096 \<le> unat q \<or> unat q + 4096 \<le> unat p"
    using aligned_gap [of "unat p" "unat q"] aligned_gap [of "unat q" "unat p"] by linarith
  then show ?thesis by (auto simp: in_page_def in_range_def)
qed

lemma page_word:
  assumes "is_page e p" and "i < 8"
  shows "in_page p (p + of_nat i)"
proof -
  have "unat (p + of_nat i) = unat p + i"
    using page_unat [OF assms(1)] assms(2) by (simp add: unat_add_of_nat)
  with assms(2) show ?thesis by (simp add: in_page_def in_range_def)
qed

text \<open>Writes outside the free pages do not disturb the list.\<close>

lemma free_chain_cong:
  assumes "free_chain m p xs" and "\<forall>x \<in> set xs. is_page e x"
    and "\<And>x y. x \<in> set xs \<Longrightarrow> in_page x y \<Longrightarrow> n y = m y"
  shows "free_chain n p xs"
  using assms
proof (induction xs arbitrary: p)
  case Nil
  then show ?case by simp
next
  case (Cons x xs)
  have "load64 n x = load64 m x"
  proof (rule load64_cong)
    fix i :: nat assume "i < 8"
    with Cons.prems(2) have "in_page x (x + of_nat i)" by (intro page_word [of e]) auto
    then show "n (x + of_nat i) = m (x + of_nat i)" using Cons.prems(3) by (meson list.set_intros(1))
  qed
  with Cons show ?case by auto
qed

lemma free_chain_unique: "free_chain m p xs \<Longrightarrow> free_chain m p ys \<Longrightarrow> xs = ys"
  by (induction xs arbitrary: p ys; case_tac ys) auto

section \<open>Refinement to a list of pages\<close>

lemma kfree_panics:
  assumes "0 < kend (phys s)" and "\<not> is_page (kend (phys s)) pa"
  shows "kfree pa s = Panic ''kfree''"
proof -
  have "pa mod PGSIZE \<noteq> 0 \<or> pa < kend (phys s) \<or> PHYSTOP \<le> pa"
    using assms unfolding is_page_def by (metis not_le)
  then show ?thesis by (simp only: kfree_def if_True)
qed

definition freed :: "uint64 \<Rightarrow> kmem \<Rightarrow> kmem" where
  "freed pa k = k\<lparr>pmem := store64 (memset (pmem k) pa 1 4096) pa (freelist k), freelist := pa\<rparr>"

definition popped :: "kmem \<Rightarrow> kmem" where
  "popped k = k\<lparr>freelist := load64 (pmem k) (freelist k), pmem := memset (pmem k) (freelist k) 5 4096\<rparr>"

lemma kfree_Ret:
  "is_page (kend (phys s)) pa \<Longrightarrow> KmemLock \<notin> set (held s) \<Longrightarrow>
    kfree pa s = Ret () (s\<lparr>phys := freed pa (phys s)\<rparr>)"
  by (simp add: kfree_def is_page_def Let_def freed_def lock_simps not_less not_le)

lemma kalloc_Ret:
  "KmemLock \<notin> set (held s) \<Longrightarrow>
    kalloc s = (if freelist (phys s) = 0 then Ret 0 s
                else Ret (freelist (phys s)) (s\<lparr>phys := popped (phys s)\<rparr>))"
  by (simp add: kalloc_def Let_def popped_def lock_simps)

lemma memset_page:
  "is_page e p \<Longrightarrow> memset m p c 4096 x = (if in_page p x then c else m x)"
  using page_unat [of e p] by (simp add: memset_apply in_page_def)

lemma store64_page:
  assumes "is_page e p" and "\<not> in_page p x"
  shows "store64 m p v x = m x"
  using assms page_unat [of e p]
  by (auto simp: store64_def store_bytes_apply in_page_def in_range_def)

lemma freed_outside: "is_page e p \<Longrightarrow> \<not> in_page p x \<Longrightarrow> pmem (freed p k) x = pmem k x"
  by (simp add: freed_def store64_page memset_page)

lemma freed_free_pages:
  assumes "free_pages k xs" and "is_page (kend k) pa" and "pa \<notin> set xs"
  shows "free_pages (freed pa k) (pa # xs)"
proof -
  have "free_chain (pmem (freed pa k)) (freelist k) xs"
  proof (rule free_chain_cong [where e = "kend k" and m = "pmem k"])
    fix x y assume "x \<in> set xs" "in_page x y"
    then show "pmem (freed pa k) y = pmem k y"
      using assms pages_disjoint [of "kend k" x pa y] freed_outside [of "kend k" pa y k]
      by (auto simp: free_pages_def)
  qed (use assms in \<open>simp_all add: free_pages_def\<close>)
  moreover have "load64 (pmem (freed pa k)) pa = freelist k"
    using page_unat [OF assms(2)] by (simp add: freed_def load64_store64)
  ultimately show ?thesis
    using assms by (simp add: free_pages_def freed_def is_page_def)
qed

lemma popped_outside:
  "is_page e (freelist k) \<Longrightarrow> pmem (popped k) x = (if in_page (freelist k) x then 5 else pmem k x)"
  by (simp add: popped_def memset_page)

lemma free_pages_Cons:
  "free_pages k (x # xs) \<Longrightarrow> freelist k = x \<and> x \<noteq> 0 \<and> is_page (kend k) x \<and> x \<notin> set xs"
  by (simp add: free_pages_def)

lemma popped_free_pages:
  assumes "free_pages k (x # xs)"
  shows "free_pages (popped k) xs"
proof -
  note x = free_pages_Cons [OF assms]
  have "free_chain (pmem (popped k)) (load64 (pmem k) x) xs"
  proof (rule free_chain_cong [where e = "kend k" and m = "pmem k"])
    fix p y assume p: "p \<in> set xs" "in_page p y"
    then have "\<not> in_page x y"
      using assms x pages_disjoint [of "kend k" p x y] by (auto simp: free_pages_def)
    then show "pmem (popped k) y = pmem k y" using x by (simp add: popped_outside [of "kend k"])
  qed (use assms in \<open>simp_all add: free_pages_def\<close>)
  with assms x show ?thesis by (simp add: free_pages_def popped_def)
qed

lemma free_pages_Nil: "free_pages k [] \<longleftrightarrow> freelist k = 0"
  by (simp add: free_pages_def)

lemma popped_kend [simp]: "kend (popped k) = kend k" and freed_kend [simp]: "kend (freed p k) = kend k"
  by (simp_all add: popped_def freed_def)

section \<open>Boot: every page of RAM becomes free\<close>

definition page_seq :: "uint64 \<Rightarrow> nat \<Rightarrow> uint64 list" where
  "page_seq p n = map (\<lambda>i. p + of_nat i * PGSIZE) [0..<n]"

lemma page_seq_Suc: "page_seq p (Suc n) = p # page_seq (p + PGSIZE) n"
  by (rule nth_equalityI) (auto simp: page_seq_def nth_Cons algebra_simps split: nat.split simp del: upt_Suc)

lemma freerange_loop_frees:
  assumes "free_pages (phys s) xs" and "\<forall>x \<in> set xs. x < p" and "KmemLock \<notin> set (held s)"
    and "kend (phys s) \<le> p" and "p \<noteq> 0" and "unat p mod 4096 = 0"
    and "unat p + 4096 * n = unat PHYSTOP" and "n < fuel"
  shows "\<exists>k. freerange_loop fuel p PHYSTOP s = Ret () (s\<lparr>phys := k\<rparr>) \<and>
           free_pages k (rev (page_seq p n) @ xs) \<and> kend k = kend (phys s) \<and>
           (\<forall>x. x < p \<or> PHYSTOP \<le> x \<longrightarrow> pmem k x = pmem (phys s) x)"
  using assms
proof (induction n arbitrary: fuel p s xs)
  case 0
  then obtain f where f: "fuel = Suc f" by (cases fuel) auto
  have "\<not> p + PGSIZE \<le> PHYSTOP"
    using 0 by (simp add: word_le_nat_alt PGSIZE_def unat_word_ariths PHYSTOP_unat)
  with f 0 show ?case by (intro exI [of _ "phys s"]) (simp add: page_seq_def)
next
  case (Suc n)
  then obtain f where f: "fuel = Suc f" "n < f" by (cases fuel) auto
  have up: "unat (p + PGSIZE) = unat p + 4096"
    using Suc.prems(7) by (simp add: PGSIZE_def unat_word_ariths PHYSTOP_unat)
  have le: "p + PGSIZE \<le> PHYSTOP" and lt: "p < PHYSTOP" and pp: "p < p + PGSIZE"
    using Suc.prems(7) up by (simp_all add: word_le_nat_alt word_less_nat_alt)
  have pg: "is_page (kend (phys s)) p"
    using Suc.prems lt by (simp add: is_page_def PGSIZE_def word_unat_eq_iff unat_mod)
  let ?s = "s\<lparr>phys := freed p (phys s)\<rparr>"
  have "\<exists>k. freerange_loop f (p + PGSIZE) PHYSTOP ?s = Ret () (?s\<lparr>phys := k\<rparr>) \<and>
           free_pages k (rev (page_seq (p + PGSIZE) n) @ (p # xs)) \<and> kend k = kend (phys ?s) \<and>
           (\<forall>x. x < p + PGSIZE \<or> PHYSTOP \<le> x \<longrightarrow> pmem k x = pmem (phys ?s) x)"
  proof (rule Suc.IH)
    show "free_pages (phys ?s) (p # xs)"
      using Suc.prems(1,2) pg by (auto intro!: freed_free_pages)
    show "\<forall>x \<in> set (p # xs). x < p + PGSIZE" using Suc.prems(2) pp by (auto intro: less_trans)
    show "kend (phys ?s) \<le> p + PGSIZE" using Suc.prems(4) pp by simp
    show "p + PGSIZE \<noteq> 0" using pp by auto
    show "unat (p + PGSIZE) mod 4096 = 0" using up Suc.prems(6) by simp
  qed (use Suc.prems f up in simp_all)
  then obtain k where k: "freerange_loop f (p + PGSIZE) PHYSTOP ?s = Ret () (?s\<lparr>phys := k\<rparr>)"
    "free_pages k (rev (page_seq (p + PGSIZE) n) @ (p # xs))" "kend k = kend (phys s)"
    "\<forall>x. x < p + PGSIZE \<or> PHYSTOP \<le> x \<longrightarrow> pmem k x = pmem (freed p (phys s)) x"
    by auto
  have "pmem k x = pmem (phys s) x" if "x < p \<or> PHYSTOP \<le> x" for x
  proof -
    have "\<not> in_page p x"
      using that page_unat [OF pg] PHYSTOP_unat
      by (auto simp: in_page_def in_range_def word_le_nat_alt word_less_nat_alt)
    moreover have "pmem k x = pmem (freed p (phys s)) x" using that k(4) pp by (metis less_trans)
    ultimately show ?thesis using freed_outside [OF pg] by simp
  qed
  with f k le show ?case
    by (intro exI [of _ k]) (simp add: kfree_Ret [OF pg Suc.prems(3)] page_seq_Suc)
qed

lemma page_seq_set:
  assumes "0 < e" and "e \<le> PHYSTOP" and n: "n = (unat PHYSTOP - unat (PGROUNDUP e)) div 4096"
  shows "set (page_seq (PGROUNDUP e) n) = {p. is_page e p}"
proof -
  have e: "unat e \<le> 0x88000000" using assms(2) by (simp add: word_le_nat_alt PHYSTOP_unat)
  then have up: "unat (PGROUNDUP e) = (unat e + 4095) div 4096 * 4096"
    by (intro PGROUNDUP_unat) simp
  then have le: "unat (PGROUNDUP e) \<le> 0x88000000" "unat e \<le> unat (PGROUNDUP e)"
    "unat (PGROUNDUP e) < unat e + 4096" and al: "unat (PGROUNDUP e) mod 4096 = 0"
    using e by auto
  then have tot: "unat (PGROUNDUP e) + n * 4096 = 0x88000000"
    using n PHYSTOP_unat by (auto elim!: dvdE simp: mod_eq_0_iff_dvd)
  have nth: "unat (PGROUNDUP e + of_nat i * PGSIZE) = unat (PGROUNDUP e) + i * 4096" if "i \<le> n" for i
  proof -
    have "unat (PGROUNDUP e) + i * 4096 \<le> 0x88000000" using that tot by simp
    moreover have "PGROUNDUP e + of_nat i * PGSIZE = PGROUNDUP e + of_nat (i * 4096)"
      by (simp add: PGSIZE_def)
    ultimately show ?thesis by (simp add: unat_add_of_nat del: of_nat_mult)
  qed
  show ?thesis
  proof (intro set_eqI iffI)
    fix p assume "p \<in> set (page_seq (PGROUNDUP e) n)"
    then obtain i where i: "i < n" "p = PGROUNDUP e + of_nat i * PGSIZE" by (auto simp: page_seq_def)
    have u: "unat p = unat (PGROUNDUP e) + i * 4096" using i nth [of i] by simp
    have "i * 4096 < n * 4096" using i by simp
    then have "unat p < 0x88000000" using u tot by linarith
    moreover have "unat p mod 4096 = 0" using u al by simp
    moreover have "unat e \<le> unat p" using u le by simp
    moreover have "0 < unat p" using assms(1) calculation(3) by (simp add: word_less_nat_alt)
    ultimately have "is_page e p"
      by (simp add: is_page_def word_less_nat_alt word_le_nat_alt PHYSTOP_unat PGSIZE_def
          word_unat_eq_iff unat_mod)
    then show "p \<in> {p. is_page e p}" by simp
  next
    fix p assume "p \<in> {p. is_page e p}"
    then have p: "is_page e p" by simp
    then have al': "unat p mod 4096 = 0" and hi: "unat p + 4096 \<le> 0x88000000" using page_unat by auto
    have "unat e \<le> unat p" using p by (simp add: is_page_def word_le_nat_alt)
    then have "\<not> unat p < unat (PGROUNDUP e)" using aligned_gap [OF al' al] le by linarith
    moreover obtain a b where ab: "unat p = 4096 * a" "unat (PGROUNDUP e) = 4096 * b"
      using al al' by (auto simp: mod_eq_0_iff_dvd elim!: dvdE)
    ultimately have ba: "b \<le> a" by simp
    then have d: "a - b < n" using hi ab tot by auto
    have "unat (PGROUNDUP e + of_nat (a - b) * PGSIZE) = unat p"
      using nth [of "a - b"] d ab ba by (simp add: algebra_simps)
    then have "p = PGROUNDUP e + of_nat (a - b) * PGSIZE" by (simp only: word_unat_eq_iff)
    with d show "p \<in> set (page_seq (PGROUNDUP e) n)" by (auto simp: page_seq_def)
  qed
qed

text \<open>
  \<^verbatim>\<open>kinit\<close> returns; afterwards the free list holds every page of RAM from \<^verbatim>\<open>end\<close> to \<^verbatim>\<open>PHYSTOP\<close>
  once, and nothing outside that range was written.
\<close>

lemma kinit_frees_all:
  assumes "0 < kend (phys s)" and "kend (phys s) \<le> PHYSTOP" and "freelist (phys s) = 0"
    and "KmemLock \<notin> set (held s)"
  shows "\<exists>k xs. kinit s = Ret () (s\<lparr>phys := k\<rparr>) \<and> free_pages k xs \<and>
           set xs = {p. is_page (kend (phys s)) p} \<and> kend k = kend (phys s) \<and>
           (\<forall>x. x < kend (phys s) \<or> PHYSTOP \<le> x \<longrightarrow> pmem k x = pmem (phys s) x)"
proof -
  let ?e = "kend (phys s)" and ?p = "PGROUNDUP (kend (phys s))"
  let ?n = "(unat PHYSTOP - unat ?p) div 4096"
  have e: "unat ?e \<le> 0x88000000" "0 < unat ?e"
    using assms(1,2) by (simp_all add: word_le_nat_alt word_less_nat_alt PHYSTOP_unat)
  then have up: "unat ?p = (unat ?e + 4095) div 4096 * 4096" by (intro PGROUNDUP_unat) simp
  then have p: "unat ?p mod 4096 = 0" "unat ?e \<le> unat ?p" "unat ?p \<le> 0x88000000" using e by auto
  have "\<exists>k. freerange_loop (2 ^ 52 + 1) ?p PHYSTOP s = Ret () (s\<lparr>phys := k\<rparr>) \<and>
           free_pages k (rev (page_seq ?p ?n) @ []) \<and> kend k = ?e \<and>
           (\<forall>x. x < ?p \<or> PHYSTOP \<le> x \<longrightarrow> pmem k x = pmem (phys s) x)"
  proof (rule freerange_loop_frees)
    show "unat ?p + 4096 * ?n = unat PHYSTOP"
      using p PHYSTOP_unat by (auto elim!: dvdE simp: mod_eq_0_iff_dvd)
    show "?p \<noteq> 0" using p(2) e by auto
  qed (use assms p PHYSTOP_unat in \<open>simp_all add: free_pages_Nil word_le_nat_alt\<close>)
  then obtain k where "freerange_loop (2 ^ 52 + 1) ?p PHYSTOP s = Ret () (s\<lparr>phys := k\<rparr>)"
    "free_pages k (rev (page_seq ?p ?n))" "kend k = ?e"
    "\<forall>x. x < ?p \<or> PHYSTOP \<le> x \<longrightarrow> pmem k x = pmem (phys s) x" by auto
  moreover have "x < ?p" if "x < ?e" for x using that p(2) by (simp add: word_less_nat_alt)
  ultimately show ?thesis
    using page_seq_set [OF assms(1,2) refl]
    by (intro exI [of _ k] exI [of _ "rev (page_seq ?p ?n)"]) (auto simp: kinit_def freerange_def)
qed

section \<open>The allocator's contract\<close>

fun alloc_many :: "('s \<Rightarrow> (uint64, 's) res) \<Rightarrow> nat \<Rightarrow> 's \<Rightarrow> (uint64 list, 's) res" where
  "alloc_many alloc 0 s = Ret [] s"
| "alloc_many alloc (Suc n) s =
     res_bind (alloc s) (\<lambda>p s. res_bind (alloc_many alloc n s) (\<lambda>ps s. Ret (p # ps) s))"

locale page_allocator =
  fixes alloc :: "'s \<Rightarrow> (uint64, 's) res"
    and free :: "uint64 \<Rightarrow> 's \<Rightarrow> (unit, 's) res"
    and pages :: "'s \<Rightarrow> uint64 list \<Rightarrow> bool"
    and usable :: "'s \<Rightarrow> uint64 \<Rightarrow> bool"
  assumes alloc_empty: "pages s [] \<Longrightarrow> alloc s = Ret 0 s"
    and alloc_page: "pages s (x # xs) \<Longrightarrow> \<exists>t. alloc s = Ret x t \<and> pages t xs \<and> usable t = usable s"
    and free_page: "pages s xs \<Longrightarrow> usable s x \<Longrightarrow> x \<notin> set xs \<Longrightarrow>
      \<exists>t. free x s = Ret () t \<and> pages t (x # xs) \<and> usable t = usable s"
    and pages_sound: "pages s xs \<Longrightarrow> distinct xs \<and> (\<forall>x \<in> set xs. usable s x \<and> x \<noteq> 0)"
begin

lemma many_pages:
  "pages s xs \<Longrightarrow> n \<le> length xs \<Longrightarrow> \<exists>t. alloc_many alloc n s = Ret (take n xs) t \<and> pages t (drop n xs)"
proof (induction n arbitrary: s xs)
  case 0
  then show ?case by simp
next
  case (Suc n)
  then obtain x ys where xs: "xs = x # ys" by (cases xs) auto
  with Suc.prems alloc_page obtain t where t: "alloc s = Ret x t" "pages t ys" by blast
  with Suc.IH [of t ys] Suc.prems xs obtain u where
    "alloc_many alloc n t = Ret (take n ys) u" "pages u (drop n ys)" by auto
  with t xs show ?case by simp
qed

lemma many_distinct:
  "pages s xs \<Longrightarrow> n \<le> length xs \<Longrightarrow>
    \<exists>ps t. alloc_many alloc n s = Ret ps t \<and> length ps = n \<and> distinct ps \<and> 0 \<notin> set ps"
proof -
  assume a: "pages s xs" "n \<le> length xs"
  then obtain t where "alloc_many alloc n s = Ret (take n xs) t" using many_pages by blast
  moreover have "0 \<notin> set xs" using pages_sound [OF a(1)] by blast
  then have "0 \<notin> set (take n xs)" using set_take_subset [of n xs] by blast
  ultimately show ?thesis using a pages_sound [OF a(1)] by auto
qed

lemma alloc_then_free:
  "pages s (x # xs) \<Longrightarrow> \<exists>t u. alloc s = Ret x t \<and> free x t = Ret () u \<and> pages u (x # xs)"
proof -
  assume a: "pages s (x # xs)"
  then obtain t where t: "alloc s = Ret x t" "pages t xs" "usable t = usable s" using alloc_page by blast
  moreover have "usable t x" "x \<notin> set xs" using t(3) pages_sound [OF a] by auto
  ultimately show ?thesis using free_page by blast
qed

end

definition kpages :: "'z kstate_scheme \<Rightarrow> uint64 list \<Rightarrow> bool" where
  "kpages s xs \<longleftrightarrow> KmemLock \<notin> set (held s) \<and> free_pages (phys s) xs"

interpretation pg: page_allocator kalloc kfree kpages "\<lambda>s. is_page (kend (phys s))"
proof unfold_locales
  fix s :: "'a kstate_scheme" and xs x
  show "kpages s [] \<Longrightarrow> kalloc s = Ret 0 s"
    by (simp add: kpages_def kalloc_Ret free_pages_Nil)
  show "kpages s (x # xs) \<Longrightarrow>
      \<exists>t. kalloc s = Ret x t \<and> kpages t xs \<and> is_page (kend (phys t)) = is_page (kend (phys s))"
    using free_pages_Cons [of "phys s" x xs] popped_free_pages [of "phys s" x xs]
    by (auto simp: kpages_def kalloc_Ret)
  show "kpages s xs \<Longrightarrow> is_page (kend (phys s)) x \<Longrightarrow> x \<notin> set xs \<Longrightarrow>
      \<exists>t. kfree x s = Ret () t \<and> kpages t (x # xs) \<and> is_page (kend (phys t)) = is_page (kend (phys s))"
    using freed_free_pages [of "phys s" xs x] by (auto simp: kpages_def kfree_Ret)
  show "kpages s xs \<Longrightarrow> distinct xs \<and> (\<forall>x \<in> set xs. is_page (kend (phys s)) x \<and> x \<noteq> 0)"
    by (auto simp: kpages_def free_pages_def is_page_def)
qed

section \<open>Pages in use\<close>

text \<open>
  \<open>mm_reach e s A\<close>: \<open>s\<close> is reached from the boot by calls of \<^verbatim>\<open>kalloc\<close>, by \<^verbatim>\<open>kfree\<close> of pages in
  use, and by arbitrary stores into pages in use; \<open>A\<close> are the pages in use.
\<close>

inductive mm_reach :: "kstate \<Rightarrow> uint64 set \<Rightarrow> bool" where
  mm_boot: "0 < kend (phys s) \<Longrightarrow> kend (phys s) \<le> PHYSTOP \<Longrightarrow> freelist (phys s) = 0 \<Longrightarrow>
     held s = [] \<Longrightarrow> kinit s = Ret () t \<Longrightarrow> mm_reach t {}"
| mm_alloc: "mm_reach s A \<Longrightarrow> kalloc s = Ret r t \<Longrightarrow> mm_reach t (if r = 0 then A else insert r A)"
| mm_free: "mm_reach s A \<Longrightarrow> r \<in> A \<Longrightarrow> kfree r s = Ret () t \<Longrightarrow> mm_reach t (A - {r})"
| mm_store: "mm_reach s A \<Longrightarrow> r \<in> A \<Longrightarrow> in_page r a \<Longrightarrow>
     mm_reach (s\<lparr>phys := (phys s)\<lparr>pmem := (pmem (phys s))(a := v)\<rparr>\<rparr>) A"

definition mm_inv :: "kstate \<Rightarrow> uint64 set \<Rightarrow> bool" where
  "mm_inv s A \<longleftrightarrow> held s = [] \<and>
     (\<exists>xs. free_pages (phys s) xs \<and> set xs \<inter> A = {} \<and> set xs \<union> A = {p. is_page (kend (phys s)) p})"

lemma mm_inv_alloc:
  assumes "mm_inv s A" and "kalloc s = Ret r t"
  shows "mm_inv t (if r = 0 then A else insert r A) \<and> (r \<noteq> 0 \<longrightarrow> r \<notin> A \<and> is_page (kend (phys s)) r)"
proof -
  from assms(1) obtain xs where xs: "held s = []" "free_pages (phys s) xs" "set xs \<inter> A = {}"
    "set xs \<union> A = {p. is_page (kend (phys s)) p}" by (auto simp: mm_inv_def)
  show ?thesis
  proof (cases xs)
    case Nil
    with xs assms show ?thesis by (auto simp: kalloc_Ret free_pages_Nil)
  next
    case (Cons y ys)
    with xs have y: "freelist (phys s) = y" "y \<noteq> 0" "is_page (kend (phys s)) y" "y \<notin> set ys"
      using free_pages_Cons by blast+
    with assms xs have rt: "r = y" "t = s\<lparr>phys := popped (phys s)\<rparr>" by (auto simp: kalloc_Ret)
    have "free_pages (popped (phys s)) ys" using xs Cons popped_free_pages by blast
    moreover have "set ys \<inter> insert y A = {}" "set ys \<union> insert y A = {p. is_page (kend (phys s)) p}"
      using xs Cons y by auto
    ultimately show ?thesis using rt y xs Cons by (auto simp: mm_inv_def)
  qed
qed

lemma mm_inv_free:
  assumes "mm_inv s A" and "r \<in> A" and "kfree r s = Ret () t"
  shows "mm_inv t (A - {r})"
proof -
  from assms(1) obtain xs where xs: "held s = []" "free_pages (phys s) xs" "set xs \<inter> A = {}"
    "set xs \<union> A = {p. is_page (kend (phys s)) p}" by (auto simp: mm_inv_def)
  then have r: "is_page (kend (phys s)) r" "r \<notin> set xs" using assms(2) by blast+
  with assms(3) xs have "t = s\<lparr>phys := freed r (phys s)\<rparr>" by (simp add: kfree_Ret)
  moreover have "free_pages (freed r (phys s)) (r # xs)" using freed_free_pages xs(2) r by blast
  moreover have "set (r # xs) \<inter> (A - {r}) = {}"
    "set (r # xs) \<union> (A - {r}) = {p. is_page (kend (phys s)) p}" using xs(3,4) r assms(2) by auto
  ultimately show ?thesis using xs(1) by (simp add: mm_inv_def) (rule exI [of _ "r # xs"], simp)
qed

lemma mm_inv_store:
  assumes "mm_inv s A" and "r \<in> A" and "in_page r a"
  shows "mm_inv (s\<lparr>phys := (phys s)\<lparr>pmem := (pmem (phys s))(a := v)\<rparr>\<rparr>) A"
proof -
  from assms(1) obtain xs where xs: "held s = []" "free_pages (phys s) xs" "set xs \<inter> A = {}"
    "set xs \<union> A = {p. is_page (kend (phys s)) p}" by (auto simp: mm_inv_def)
  have "free_chain ((pmem (phys s))(a := v)) (freelist (phys s)) xs"
  proof (rule free_chain_cong [where e = "kend (phys s)" and m = "pmem (phys s)"])
    fix x y assume x: "x \<in> set xs" "in_page x y"
    then have "is_page (kend (phys s)) x" "is_page (kend (phys s)) r" "x \<noteq> r"
      using xs(3,4) assms(2) by blast+
    then have "y \<noteq> a" using pages_disjoint x(2) assms(3) by blast
    then show "((pmem (phys s))(a := v)) y = pmem (phys s) y" by simp
  qed (use xs(2) in \<open>auto simp: free_pages_def\<close>)
  with xs show ?thesis by (auto simp: mm_inv_def free_pages_def)
qed

lemma mm_reach_inv: "mm_reach s A \<Longrightarrow> mm_inv s A"
proof (induction rule: mm_reach.induct)
  case (mm_boot s t)
  then show ?case using kinit_frees_all [of s] by (auto simp: mm_inv_def)
qed (use mm_inv_alloc mm_inv_free mm_inv_store in blast)+

text \<open>
  C6. Whatever sequence of \<^verbatim>\<open>kalloc\<close>, \<^verbatim>\<open>kfree\<close> and stores into allocated pages follows the boot,
  the free list and the pages in use partition the RAM above the kernel; so \<^verbatim>\<open>kalloc\<close> returns 0
  exactly when every page is in use, and otherwise a RAM page that nobody holds, filled with
  the junk byte 5, without writing any other byte.
\<close>

theorem kalloc_fresh:
  assumes "mm_reach s A"
  shows "\<exists>r t. kalloc s = Ret r t \<and> (r = 0 \<longleftrightarrow> A = {p. is_page (kend (phys s)) p}) \<and>
           (r = 0 \<longrightarrow> t = s) \<and>
           (r \<noteq> 0 \<longrightarrow> is_page (kend (phys s)) r \<and> r \<notin> A \<and>
              (\<forall>x. pmem (phys t) x = (if in_page r x then 5 else pmem (phys s) x)))"
proof -
  from mm_reach_inv [OF assms] obtain xs where xs: "held s = []" "free_pages (phys s) xs"
    "set xs \<inter> A = {}" "set xs \<union> A = {p. is_page (kend (phys s)) p}" by (auto simp: mm_inv_def)
  show ?thesis
  proof (cases xs)
    case Nil
    with xs show ?thesis by (auto simp: kalloc_Ret free_pages_Nil)
  next
    case (Cons y ys)
    with xs have y: "freelist (phys s) = y" "y \<noteq> 0" "is_page (kend (phys s)) y"
      using free_pages_Cons by blast+
    with xs Cons have "y \<notin> A" "A \<noteq> {p. is_page (kend (phys s)) p}" by auto
    with y xs show ?thesis by (simp add: kalloc_Ret popped_outside [of "kend (phys s)"])
  qed
qed

definition one_page_machine :: kstate where
  "one_page_machine = \<lparr>held = [], ien = False, tp = 0,
     phys = \<lparr>pmem = (\<lambda>_. 0), freelist = 0, kend = PHYSTOP - 4096\<rparr>\<rparr>"

theorem kalloc_fresh_witness:
  "\<exists>s. kinit one_page_machine = Ret () s \<and> mm_reach s {} \<and>
     (\<exists>r t. kalloc s = Ret r t \<and> is_page (kend (phys s)) r \<and> pmem (phys t) (r + 7) = 5)"
proof -
  have e: "kend (phys one_page_machine) = 0x87fff000" "freelist (phys one_page_machine) = 0"
    "held one_page_machine = []"
    by (simp_all add: one_page_machine_def PHYSTOP_def KERNBASE_def)
  obtain k xs where k: "kinit one_page_machine = Ret () (one_page_machine\<lparr>phys := k\<rparr>)"
    "kend k = 0x87fff000"
    using kinit_frees_all [of one_page_machine] e by (auto simp: PHYSTOP_def KERNBASE_def)
  let ?s = "one_page_machine\<lparr>phys := k\<rparr>"
  have reach: "mm_reach ?s {}"
    using mm_boot [of one_page_machine ?s] k e by (simp add: PHYSTOP_def KERNBASE_def)
  have "is_page (kend (phys ?s)) 0x87fff000"
    using k by (simp add: is_page_def PHYSTOP_def KERNBASE_def PGSIZE_def)
  then have "{} \<noteq> {p. is_page (kend (phys ?s)) p}" by blast
  with kalloc_fresh [OF reach] obtain r t where r: "kalloc ?s = Ret r t" "is_page (kend (phys ?s)) r"
    "\<forall>x. pmem (phys t) x = (if in_page r x then 5 else pmem (phys ?s) x)"
    by auto
  moreover have "in_page r (r + 7)" using page_word [OF r(2), of 7] by simp
  ultimately show ?thesis using k reach by auto
qed

end
