(* ===== verification/Proc.thy ===== *)
theory Proc
  imports Kalloc "HOL-Library.Signed_Division"
begin

text \<open>
  The process table of \<^verbatim>\<open>kernel/proc.h\<close> and the routines of \<^verbatim>\<open>kernel/proc.c\<close> that work on it alone:
  pids, giving up the CPU, sleep and wakeup, kill, and the priority and accounting calls of
  the priority and CFS schedulers.
\<close>

section \<open>State\<close>

datatype procstate = UNUSED | USED | SLEEPING | RUNNABLE | RUNNING | ZOMBIE

record kcontext =
  ctx_ra :: uint64
  ctx_sp :: uint64
  ctx_s :: "uint64 list"

text \<open>
  Pointers into the process, file and inode tables are indices; \<open>None\<close> is the null pointer.
  The 64-bit counters \<open>accumulator\<close>, \<open>rtime\<close>, \<open>stime\<close> and \<open>retime\<close> change by at most \<open>2 ^ 31\<close>
  in a clock tick, so they stay within 64 bits for \<open>2 ^ 32\<close> ticks and are kept as integers.
  \<open>kintena\<close> is the local variable \<^verbatim>\<open>intena\<close> of the \<^verbatim>\<open>sched()\<close> call on the suspended kernel stack.
\<close>

record proc =
  pstate :: procstate
  pchan :: "chan option"
  pkilled :: cint
  xstate :: cint
  pid :: cint
  parent :: "nat option"
  kstack :: uint64
  sz :: uint64
  pagetable :: uint64
  trapframe :: uint64
  pcontext :: kcontext
  ofile :: "nat \<Rightarrow> nat option"
  cwd :: "nat option"
  pname :: "uchar list"
  exit_msg :: "uchar list"
  accumulator :: int
  ps_priority :: cint
  cfs_priority :: cint
  rtime :: int
  stime :: int
  retime :: int
  kintena :: bool

record pcb = kstate +
  procs :: "nat \<Rightarrow> proc"
  cpu_proc :: "nat \<Rightarrow> nat option"
  initproc :: "nat option"
  policy :: cint
  nextpid :: cint
  ticks :: uint

text \<open>The zero-initialised table and memory before the boot.\<close>

definition blank_proc :: proc where
  "blank_proc = \<lparr>pstate = UNUSED, pchan = None, pkilled = 0, xstate = 0, pid = 0, parent = None,
     kstack = 0, sz = 0, pagetable = 0, trapframe = 0,
     pcontext = \<lparr>ctx_ra = 0, ctx_sp = 0, ctx_s = replicate 12 0\<rparr>,
     ofile = (\<lambda>_. None), cwd = None, pname = replicate 16 0, exit_msg = replicate 32 0,
     accumulator = 0, ps_priority = 0, cfs_priority = 0, rtime = 0, stime = 0, retime = 0, kintena = False\<rparr>"

definition blank_pcb :: pcb where
  "blank_pcb = \<lparr>held = [], ien = False, tp = 0, phys = \<lparr>pmem = (\<lambda>_. 0), freelist = 0, kend = 0x80022000\<rparr>,
     procs = (\<lambda>_. blank_proc), cpu_proc = (\<lambda>_. None), initproc = None, policy = 0, nextpid = 1, ticks = 0\<rparr>"

definition upd_proc :: "nat \<Rightarrow> (proc \<Rightarrow> proc) \<Rightarrow> 'z pcb_scheme \<Rightarrow> 'z pcb_scheme" where
  "upd_proc i f s = s\<lparr>procs := (procs s)(i := f (procs s i))\<rparr>"

lemma upd_proc_simps [simp]:
  "procs (upd_proc i f s) = (procs s)(i := f (procs s i))"
  "cpu_proc (upd_proc i f s) = cpu_proc s"
  "held (upd_proc i f s) = held s"
  "ien (upd_proc i f s) = ien s"
  "tp (upd_proc i f s) = tp s"
  "phys (upd_proc i f s) = phys s"
  "policy (upd_proc i f s) = policy s"
  "initproc (upd_proc i f s) = initproc s"
  "nextpid (upd_proc i f s) = nextpid s"
  "ticks (upd_proc i f s) = ticks s"
  by (simp_all add: upd_proc_def)

section \<open>Identity of the CPU and the process\<close>

definition cpuid :: "'z pcb_scheme \<Rightarrow> nat" where
  "cpuid s = tp s"

definition myproc :: "'z pcb_scheme \<Rightarrow> nat option" where
  "myproc s = cpu_proc s (cpuid s)"

text \<open>Code that dereferences \<^verbatim>\<open>myproc()\<close>.\<close>

definition with_proc :: "(nat \<Rightarrow> 'z pcb_scheme \<Rightarrow> ('a, 'z pcb_scheme) res) \<Rightarrow>
    'z pcb_scheme \<Rightarrow> ('a, 'z pcb_scheme) res" where
  "with_proc f s = (case myproc s of None \<Rightarrow> Fault | Some p \<Rightarrow> f p s)"

lemma with_proc_Some [simp]: "myproc s = Some p \<Longrightarrow> with_proc f s = f p s"
  by (simp add: with_proc_def)

lemma myproc_upd [simp]:
  "myproc (upd_proc i f s) = myproc s"
  "myproc (s\<lparr>held := h\<rparr>) = myproc s"
  "myproc (s\<lparr>procs := q\<rparr>) = myproc s"
  "myproc (s\<lparr>phys := k\<rparr>) = myproc s"
  by (simp_all add: myproc_def cpuid_def)

definition procinit :: "'z pcb_scheme \<Rightarrow> (unit, 'z pcb_scheme) res" where
  "procinit s =
     res_bind (for_loop (\<lambda>i s. Ret (None :: unit option) (upd_proc i (\<lambda>p. p\<lparr>pstate := UNUSED, kstack := KSTACK i\<rparr>) s))
       [0..<NPROC] s) (\<lambda>_ s. Ret () s)"

definition allocpid :: "'z pcb_scheme \<Rightarrow> (cint, 'z pcb_scheme) res" where
  "allocpid s =
     res_bind (lock_acquire PidLock s) (\<lambda>_ s.
       let pid = nextpid s; s = s\<lparr>nextpid := nextpid s + 1\<rparr>
       in res_bind (lock_release PidLock s) (\<lambda>_ s. Ret pid s))"

section \<open>Giving up the CPU\<close>

text \<open>
  \<^verbatim>\<open>swtch\<close> out of \<^verbatim>\<open>sched\<close> is the result \<open>Swtch\<close>. What the code does once it is switched to
  again is the operation with the suffix \<open>_resume\<close>.
\<close>

definition sched :: "'z pcb_scheme \<Rightarrow> ('a, 'z pcb_scheme) res" where
  "sched = with_proc (\<lambda>p s.
     if \<not> lock_holding (ProcLock p) s then Panic ''sched p->lock''
     else if length (held s) \<noteq> 1 then Panic ''sched locks''
     else if pstate (procs s p) = RUNNING then Panic ''sched running''
     else if intr_enabled s then Panic ''sched interruptible''
     else Swtch (upd_proc p (\<lambda>q. q\<lparr>kintena := ien s\<rparr>) s))"

definition sched_resume :: "nat \<Rightarrow> 'z pcb_scheme \<Rightarrow> 'z pcb_scheme" where
  "sched_resume p s = s\<lparr>ien := kintena (procs s p)\<rparr>"

definition yield :: "'z pcb_scheme \<Rightarrow> (unit, 'z pcb_scheme) res" where
  "yield = with_proc (\<lambda>p s.
     res_bind (lock_acquire (ProcLock p) s) (\<lambda>_ s.
       sched (upd_proc p (\<lambda>q. q\<lparr>pstate := RUNNABLE\<rparr>) s)))"

definition yield_resume :: "nat \<Rightarrow> 'z pcb_scheme \<Rightarrow> (unit, 'z pcb_scheme) res" where
  "yield_resume p s = lock_release (ProcLock p) (sched_resume p s)"

definition sleep :: "chan option \<Rightarrow> lock_id \<Rightarrow> 'z pcb_scheme \<Rightarrow> (unit, 'z pcb_scheme) res" where
  "sleep chan lk = with_proc (\<lambda>p s.
     res_bind (lock_acquire (ProcLock p) s) (\<lambda>_ s.
     res_bind (lock_release lk s) (\<lambda>_ s.
       sched (upd_proc p (\<lambda>q. q\<lparr>pchan := chan, pstate := SLEEPING\<rparr>) s))))"

definition sleep_resume :: "nat \<Rightarrow> lock_id \<Rightarrow> 'z pcb_scheme \<Rightarrow> (unit, 'z pcb_scheme) res" where
  "sleep_resume p lk s =
     (let s = upd_proc p (\<lambda>q. q\<lparr>pchan := None\<rparr>) (sched_resume p s)
      in res_bind (lock_release (ProcLock p) s) (\<lambda>_ s. lock_acquire lk s))"

section \<open>Wakeup and kill\<close>

definition wakeup :: "chan option \<Rightarrow> 'z pcb_scheme \<Rightarrow> (unit, 'z pcb_scheme) res" where
  "wakeup chan s =
     res_bind (for_loop (\<lambda>i s.
         if Some i \<noteq> myproc s then
           res_bind (lock_acquire (ProcLock i) s) (\<lambda>_ s.
             let s = (if pstate (procs s i) = SLEEPING \<and> pchan (procs s i) = chan
                      then upd_proc i (\<lambda>p. p\<lparr>pstate := RUNNABLE\<rparr>) s else s)
             in res_bind (lock_release (ProcLock i) s) (\<lambda>_ s. Ret (None :: unit option) s))
         else Ret None s) [0..<NPROC] s) (\<lambda>_ s. Ret () s)"

definition kill :: "cint \<Rightarrow> 'z pcb_scheme \<Rightarrow> (cint, 'z pcb_scheme) res" where
  "kill pid' s =
     res_bind (for_loop (\<lambda>i s.
         res_bind (lock_acquire (ProcLock i) s) (\<lambda>_ s.
           if pid (procs s i) = pid' then
             let s = upd_proc i (\<lambda>p. p\<lparr>pkilled := 1\<rparr>) s;
                 s = (if pstate (procs s i) = SLEEPING
                      then upd_proc i (\<lambda>p. p\<lparr>pstate := RUNNABLE\<rparr>) s else s)
             in res_bind (lock_release (ProcLock i) s) (\<lambda>_ s. Ret (Some 0) s)
           else res_bind (lock_release (ProcLock i) s) (\<lambda>_ s. Ret None s))) [0..<NPROC] s)
       (\<lambda>r s. Ret (case r of None \<Rightarrow> minus_one | Some v \<Rightarrow> v) s)"

definition setkilled :: "nat \<Rightarrow> 'z pcb_scheme \<Rightarrow> (unit, 'z pcb_scheme) res" where
  "setkilled p s =
     res_bind (lock_acquire (ProcLock p) s) (\<lambda>_ s.
       lock_release (ProcLock p) (upd_proc p (\<lambda>q. q\<lparr>pkilled := 1\<rparr>) s))"

definition killed :: "nat \<Rightarrow> 'z pcb_scheme \<Rightarrow> (cint, 'z pcb_scheme) res" where
  "killed p s =
     res_bind (lock_acquire (ProcLock p) s) (\<lambda>_ s.
       let k = pkilled (procs s p)
       in res_bind (lock_release (ProcLock p) s) (\<lambda>_ s. Ret k s))"

section \<open>Priorities and accounting\<close>

definition set_ps_priority :: "cint \<Rightarrow> 'z pcb_scheme \<Rightarrow> (unit, 'z pcb_scheme) res" where
  "set_ps_priority priority = with_proc (\<lambda>p s.
     res_bind (lock_acquire (ProcLock p) s) (\<lambda>_ s.
       lock_release (ProcLock p) (upd_proc p (\<lambda>q. q\<lparr>ps_priority := priority\<rparr>) s)))"

definition set_cfs_priority :: "cint \<Rightarrow> 'z pcb_scheme \<Rightarrow> (unit, 'z pcb_scheme) res" where
  "set_cfs_priority priority =
     with_proc (\<lambda>p s. Ret () (upd_proc p (\<lambda>q. q\<lparr>cfs_priority := priority\<rparr>) s))"

text \<open>
  The RISC-V instruction \<^verbatim>\<open>div\<close> the compiler emits for \<^verbatim>\<open>long\<close> division: it truncates towards
  zero and gives \<open>-1\<close> when the divisor is zero.
\<close>

definition riscv_div :: "int \<Rightarrow> int \<Rightarrow> int" where
  "riscv_div a b = (if b = 0 then -1 else a sdiv b)"

definition check_vruntime :: "proc \<Rightarrow> int" where
  "check_vruntime p =
     (let virtual_time = riscv_div (rtime p) (rtime p + retime p + stime p) in
      if cfs_priority p = 0 then 75 * virtual_time
      else if cfs_priority p = 1 then 100 * virtual_time
      else 125 * virtual_time)"

definition minimum_vruntime :: "'z pcb_scheme \<Rightarrow> (int, 'z pcb_scheme) res" where
  "minimum_vruntime s =
     fold_loop (\<lambda>i minimum s.
       res_bind (lock_acquire (ProcLock i) s) (\<lambda>_ s.
         let minimum = (if pstate (procs s i) = RUNNABLE then
               (let virtual_time = check_vruntime (procs s i) in
                if minimum = -1 \<or> virtual_time < minimum then virtual_time else minimum)
             else minimum)
         in res_bind (lock_release (ProcLock i) s) (\<lambda>_ s. Ret minimum s))) [0..<NPROC] (-1) s"

definition find_minimum :: "'z pcb_scheme \<Rightarrow> (int, 'z pcb_scheme) res" where
  "find_minimum s =
     fold_loop (\<lambda>i minimum s.
       res_bind (lock_acquire (ProcLock i) s) (\<lambda>_ s.
         let minimum = (if pstate (procs s i) = RUNNABLE then
               (if minimum = -1 \<or> accumulator (procs s i) < minimum then accumulator (procs s i) else minimum)
             else minimum)
         in res_bind (lock_release (ProcLock i) s) (\<lambda>_ s. Ret minimum s))) [0..<NPROC] (-1) s"

definition update_ticks :: "'z pcb_scheme \<Rightarrow> (unit, 'z pcb_scheme) res" where
  "update_ticks s =
     res_bind (for_loop (\<lambda>i s.
         let s = (if pstate (procs s i) = SLEEPING
                  then upd_proc i (\<lambda>p. p\<lparr>stime := stime p + 1\<rparr>) s else s)
         in res_bind (lock_acquire (ProcLock i) s) (\<lambda>_ s.
              let s = (if pstate (procs s i) = RUNNABLE
                       then upd_proc i (\<lambda>p. p\<lparr>retime := retime p + 1\<rparr>) s else s);
                  s = (if pstate (procs s i) = RUNNING
                       then upd_proc i (\<lambda>p. p\<lparr>rtime := rtime p + 1\<rparr>) s else s)
              in res_bind (lock_release (ProcLock i) s) (\<lambda>_ s. Ret (None :: unit option) s)))
         [0..<NPROC] s) (\<lambda>_ s. Ret () s)"

definition set_policy :: "cint \<Rightarrow> 'z pcb_scheme \<Rightarrow> (unit, 'z pcb_scheme) res" where
  "set_policy new_policy s = Ret () (s\<lparr>policy := new_policy\<rparr>)"

section \<open>Scans of the process table\<close>

definition no_proc_lock :: "'z machine_scheme \<Rightarrow> bool" where
  "no_proc_lock s \<longleftrightarrow> (\<forall>i < NPROC. ProcLock i \<notin> set (held s))"

lemma no_proc_lockD [lock_simps]: "no_proc_lock s \<Longrightarrow> i < NPROC \<Longrightarrow> ProcLock i \<notin> set (held s)"
  by (simp add: no_proc_lock_def)

text \<open>A scan that updates each entry on its own updates the table pointwise.\<close>

lemma for_loop_procs:
  assumes "\<And>i s. i \<in> set is \<Longrightarrow> held s = h \<Longrightarrow> myproc s = m \<Longrightarrow>
      f i s = Ret None (s\<lparr>procs := (procs s)(i := g i (procs s i))\<rparr>)"
    and "distinct is" and "held s = h" and "myproc s = m"
  shows "for_loop f is s = Ret None (s\<lparr>procs := \<lambda>i. if i \<in> set is then g i (procs s i) else procs s i\<rparr>)"
  using assms
proof (induction "is" arbitrary: s)
  case Nil
  then show ?case by simp
next
  case (Cons i "is")
  let ?t = "s\<lparr>procs := (procs s)(i := g i (procs s i))\<rparr>"
  have step: "f i s = Ret None ?t" by (rule Cons.prems(1)) (use Cons.prems in simp_all)
  have "for_loop f is ?t = Ret None (?t\<lparr>procs := \<lambda>j. if j \<in> set is then g j (procs ?t j) else procs ?t j\<rparr>)"
    by (rule Cons.IH) (use Cons.prems in auto)
  moreover have "(\<lambda>j. if j \<in> set is then g j (procs ?t j) else procs ?t j) =
      (\<lambda>j. if j \<in> set (i # is) then g j (procs s j) else procs s j)"
    using Cons.prems(2) by (auto simp: fun_eq_iff)
  ultimately show ?case using step by simp
qed

lemma upd_proc_eq: "(if c then upd_proc i f s else s) = s\<lparr>procs := (procs s)(i := if c then f (procs s i) else procs s i)\<rparr>"
  by (simp add: upd_proc_def)

section \<open>Behaviour of the operations\<close>

lemma allocpid_Ret:
  "PidLock \<notin> set (held s) \<Longrightarrow> allocpid s = Ret (nextpid s) (s\<lparr>nextpid := nextpid s + 1\<rparr>)"
  by (simp add: allocpid_def lock_simps Let_def)

definition woken :: "chan option \<Rightarrow> nat option \<Rightarrow> (nat \<Rightarrow> proc) \<Rightarrow> nat \<Rightarrow> proc" where
  "woken ch m ps i =
     (if i < NPROC \<and> Some i \<noteq> m \<and> pstate (ps i) = SLEEPING \<and> pchan (ps i) = ch
      then (ps i)\<lparr>pstate := RUNNABLE\<rparr> else ps i)"

lemma wakeup_Ret:
  assumes "\<And>i. i < NPROC \<Longrightarrow> Some i \<noteq> myproc s \<Longrightarrow> ProcLock i \<notin> set (held s)"
  shows "wakeup ch s = Ret () (s\<lparr>procs := woken ch (myproc s) (procs s)\<rparr>)"
proof -
  let ?g = "\<lambda>i p. if Some i \<noteq> myproc s \<and> pstate p = SLEEPING \<and> pchan p = ch then p\<lparr>pstate := RUNNABLE\<rparr> else p"
  have "wakeup ch s =
      res_bind (Ret (None :: unit option) (s\<lparr>procs := \<lambda>i. if i \<in> set [0..<NPROC] then ?g i (procs s i) else procs s i\<rparr>)) (\<lambda>_ s. Ret () s)"
    unfolding wakeup_def
  proof (rule arg_cong2 [of _ _ _ _ res_bind], rule for_loop_procs [where h = "held s" and m = "myproc s"])
    fix i and t :: "'a pcb_scheme"
    assume "i \<in> set [0..<NPROC]" "held t = held s" "myproc t = myproc s"
    then show "(if Some i \<noteq> myproc t then
           res_bind (lock_acquire (ProcLock i) t) (\<lambda>_ s.
             let s = (if pstate (procs s i) = SLEEPING \<and> pchan (procs s i) = ch
                      then upd_proc i (\<lambda>p. p\<lparr>pstate := RUNNABLE\<rparr>) s else s)
             in res_bind (lock_release (ProcLock i) s) (\<lambda>_ s. Ret (None :: unit option) s))
         else Ret None t) = Ret None (t\<lparr>procs := (procs t)(i := ?g i (procs t i))\<rparr>)"
      using assms [of i] by (auto simp: Let_def lock_simps upd_proc_def)
  qed simp_all
  moreover have "(\<lambda>i. if i \<in> set [0..<NPROC] then ?g i (procs s i) else procs s i) = woken ch (myproc s) (procs s)"
    by (auto simp: woken_def fun_eq_iff)
  ultimately show ?thesis by simp
qed

definition ticked :: "(nat \<Rightarrow> proc) \<Rightarrow> nat \<Rightarrow> proc" where
  "ticked ps i =
     (if i < NPROC then
        (case pstate (ps i) of
           SLEEPING \<Rightarrow> (ps i)\<lparr>stime := stime (ps i) + 1\<rparr>
         | RUNNABLE \<Rightarrow> (ps i)\<lparr>retime := retime (ps i) + 1\<rparr>
         | RUNNING \<Rightarrow> (ps i)\<lparr>rtime := rtime (ps i) + 1\<rparr>
         | _ \<Rightarrow> ps i)
      else ps i)"

lemma update_ticks_Ret:
  assumes "no_proc_lock s"
  shows "update_ticks s = Ret () (s\<lparr>procs := ticked (procs s)\<rparr>)"
proof -
  let ?g = "\<lambda>p. case pstate p of SLEEPING \<Rightarrow> p\<lparr>stime := stime p + 1\<rparr>
      | RUNNABLE \<Rightarrow> p\<lparr>retime := retime p + 1\<rparr> | RUNNING \<Rightarrow> p\<lparr>rtime := rtime p + 1\<rparr> | _ \<Rightarrow> p"
  have "update_ticks s =
      res_bind (Ret (None :: unit option) (s\<lparr>procs := \<lambda>i. if i \<in> set [0..<NPROC] then ?g (procs s i) else procs s i\<rparr>)) (\<lambda>_ s. Ret () s)"
    unfolding update_ticks_def
  proof (rule arg_cong2 [of _ _ _ _ res_bind], rule for_loop_procs [where h = "held s" and m = "myproc s"], goal_cases)
    case (1 i t)
    then have "ProcLock i \<notin> set (held t)" using assms by (simp add: no_proc_lock_def)
    then show ?case
      by (cases "pstate (procs t i)") (auto simp: Let_def lock_simps upd_proc_def)
  qed simp_all
  moreover have "(\<lambda>i. if i \<in> set [0..<NPROC] then ?g (procs s i) else procs s i) = ticked (procs s)"
    by (auto simp: ticked_def fun_eq_iff)
  ultimately show ?thesis by simp
qed

definition kill_mark :: "proc \<Rightarrow> proc" where
  "kill_mark p = (if pstate p = SLEEPING then p\<lparr>pkilled := 1, pstate := RUNNABLE\<rparr> else p\<lparr>pkilled := 1\<rparr>)"

lemma kill_Ret:
  assumes "no_proc_lock s"
  shows "kill n s =
     (case List.find (\<lambda>i. pid (procs s i) = n) [0..<NPROC] of
        None \<Rightarrow> Ret minus_one s
      | Some i \<Rightarrow> Ret 0 (s\<lparr>procs := (procs s)(i := kill_mark (procs s i))\<rparr>))"
proof -
  let ?f = "\<lambda>i s. res_bind (lock_acquire (ProcLock i) s) (\<lambda>_ s.
           if pid (procs s i) = n then
             let s = upd_proc i (\<lambda>p. p\<lparr>pkilled := 1\<rparr>) s;
                 s = (if pstate (procs s i) = SLEEPING
                      then upd_proc i (\<lambda>p. p\<lparr>pstate := RUNNABLE\<rparr>) s else s)
             in res_bind (lock_release (ProcLock i) s) (\<lambda>_ s. Ret (Some 0) s)
           else res_bind (lock_release (ProcLock i) s) (\<lambda>_ s. Ret (None :: cint option) s))"
  have "for_loop ?f [0..<NPROC] s =
     (case List.find (\<lambda>i. pid (procs s i) = n) [0..<NPROC] of None \<Rightarrow> Ret None s
      | Some i \<Rightarrow> Ret (Some 0) (s\<lparr>procs := (procs s)(i := kill_mark (procs s i))\<rparr>))"
  proof (rule for_loop_find)
    fix i assume "i < NPROC"
    then have l: "ProcLock i \<notin> set (held s)" using assms by (simp add: no_proc_lock_def)
    show "pid (procs s i) \<noteq> n \<Longrightarrow> ?f i s = Ret None s" using l by (simp add: lock_simps)
    show "pid (procs s i) = n \<Longrightarrow> ?f i s = Ret (Some 0) (s\<lparr>procs := (procs s)(i := kill_mark (procs s i))\<rparr>)"
      using l by (simp add: lock_simps Let_def upd_proc_def kill_mark_def)
  qed
  then show ?thesis by (simp add: kill_def split: option.split)
qed

lemma killed_Ret: "ProcLock p \<notin> set (held s) \<Longrightarrow> killed p s = Ret (pkilled (procs s p)) s"
  by (simp add: killed_def lock_simps Let_def)

lemma setkilled_Ret:
  "ProcLock p \<notin> set (held s) \<Longrightarrow> setkilled p s = Ret () (upd_proc p (\<lambda>q. q\<lparr>pkilled := 1\<rparr>) s)"
  by (simp add: setkilled_def lock_simps upd_proc_def)

lemma set_ps_priority_Ret:
  "myproc s = Some p \<Longrightarrow> ProcLock p \<notin> set (held s) \<Longrightarrow>
    set_ps_priority n s = Ret () (upd_proc p (\<lambda>q. q\<lparr>ps_priority := n\<rparr>) s)"
  by (simp add: set_ps_priority_def lock_simps upd_proc_def)

section \<open>Handing over the CPU\<close>

lemma yield_Swtch:
  "myproc s = Some p \<Longrightarrow> held s = [] \<Longrightarrow>
    yield s = Swtch (s\<lparr>held := [ProcLock p], procs := (procs s)(p := (procs s p)\<lparr>pstate := RUNNABLE, kintena := ien s\<rparr>)\<rparr>)"
  by (simp add: yield_def sched_def lock_simps intr_enabled_def upd_proc_def)

lemma yield_locks:
  "myproc s = Some p \<Longrightarrow> held s \<noteq> [] \<Longrightarrow> ProcLock p \<notin> set (held s) \<Longrightarrow> yield s = Panic ''sched locks''"
  by (simp add: yield_def sched_def lock_simps)

lemma sleep_Swtch:
  "myproc s = Some p \<Longrightarrow> held s = [lk] \<Longrightarrow> lk \<noteq> ProcLock p \<Longrightarrow>
    sleep ch lk s = Swtch (s\<lparr>held := [ProcLock p],
      procs := (procs s)(p := (procs s p)\<lparr>pchan := ch, pstate := SLEEPING, kintena := ien s\<rparr>)\<rparr>)"
  by (simp add: sleep_def sched_def lock_simps intr_enabled_def upd_proc_def)

lemma sleep_locks:
  assumes "myproc s = Some p" and "lk \<in> set (held s)" and "length (held s) \<noteq> 1"
    and "ProcLock p \<notin> set (held s)"
  shows "sleep ch lk s = Panic ''sched locks''"
proof -
  have "lk \<noteq> ProcLock p" using assms(2,4) by auto
  moreover have "length (remove1 lk (held s)) \<noteq> 0"
    using assms(2,3) by (simp add: length_remove1) (cases "held s", auto)
  ultimately show ?thesis
    using assms by (simp add: sleep_def sched_def lock_simps)
qed

lemma sleep_resume_Ret:
  "held s = [ProcLock p] \<Longrightarrow> lk \<noteq> ProcLock p \<Longrightarrow>
    sleep_resume p lk s = Ret () (s\<lparr>held := [lk], ien := kintena (procs s p),
      procs := (procs s)(p := (procs s p)\<lparr>pchan := None\<rparr>)\<rparr>)"
  by (simp add: sleep_resume_def sched_resume_def lock_simps upd_proc_def Let_def)

section \<open>Minimum over the runnable processes\<close>

text \<open>
  Both \<^verbatim>\<open>find_minimum\<close> and \<^verbatim>\<open>minimum_vruntime\<close> use \<open>-1\<close> as "nothing found yet", which is exact
  as long as no runnable process has that key itself.
\<close>

definition min_step :: "(nat \<Rightarrow> int option) \<Rightarrow> nat \<Rightarrow> int \<Rightarrow> int" where
  "min_step v i m = (case v i of None \<Rightarrow> m | Some x \<Rightarrow> if m = -1 \<or> x < m then x else m)"

definition is_scan_min :: "(nat \<Rightarrow> int option) \<Rightarrow> nat set \<Rightarrow> int \<Rightarrow> bool" where
  "is_scan_min v A m \<longleftrightarrow>
     (if \<forall>i \<in> A. v i = None then m = -1
      else (\<exists>i \<in> A. v i = Some m) \<and> (\<forall>i \<in> A. \<forall>x. v i = Some x \<longrightarrow> m \<le> x))"

lemma min_step_scan:
  assumes "is_scan_min v A m" and "\<forall>j \<in> insert i A. v j \<noteq> Some (-1)"
  shows "is_scan_min v (insert i A) (min_step v i m)"
proof (cases "v i")
  case None
  then show ?thesis using assms by (auto simp: is_scan_min_def min_step_def)
next
  case (Some x)
  show ?thesis
  proof (cases "\<forall>j \<in> A. v j = None")
    case True
    then show ?thesis using assms Some by (auto simp: is_scan_min_def min_step_def)
  next
    case False
    then have m: "\<exists>j \<in> A. v j = Some m" "\<forall>j \<in> A. \<forall>x. v j = Some x \<longrightarrow> m \<le> x"
      using assms(1) by (auto simp: is_scan_min_def)
    then have "m \<noteq> -1" using assms(2) by auto
    then show ?thesis using m Some by (force simp: is_scan_min_def min_step_def)
  qed
qed

lemma fold_min_step:
  assumes "is_scan_min v A m" and "\<forall>j \<in> A \<union> set is. v j \<noteq> Some (-1)"
  shows "is_scan_min v (A \<union> set is) (fold (min_step v) is m)"
  using assms
proof (induction "is" arbitrary: A m)
  case Nil
  then show ?case by simp
next
  case (Cons i "is")
  have "is_scan_min v (insert i A) (min_step v i m)"
    by (rule min_step_scan) (use Cons.prems in auto)
  then have "is_scan_min v (insert i A \<union> set is) (fold (min_step v) is (min_step v i m))"
    by (rule Cons.IH) (use Cons.prems(2) in auto)
  then show ?case by simp
qed

definition runnable_key :: "(proc \<Rightarrow> int) \<Rightarrow> (nat \<Rightarrow> proc) \<Rightarrow> nat \<Rightarrow> int option" where
  "runnable_key key ps i = (if pstate (ps i) = RUNNABLE then Some (key (ps i)) else None)"

definition least_key :: "(proc \<Rightarrow> int) \<Rightarrow> (nat \<Rightarrow> proc) \<Rightarrow> int" where
  "least_key key ps = fold (min_step (runnable_key key ps)) [0..<NPROC] (-1)"

lemma least_key_min:
  assumes "\<forall>i < NPROC. pstate (ps i) = RUNNABLE \<longrightarrow> key (ps i) \<noteq> -1"
  shows "is_scan_min (runnable_key key ps) {..<NPROC} (least_key key ps)"
proof -
  have "is_scan_min (runnable_key key ps) {} (-1)" by (simp add: is_scan_min_def)
  moreover have "\<forall>j \<in> {} \<union> set [0..<NPROC]. runnable_key key ps j \<noteq> Some (-1)"
    using assms by (auto simp: runnable_key_def)
  ultimately have "is_scan_min (runnable_key key ps) ({} \<union> set [0..<NPROC]) (least_key key ps)"
    unfolding least_key_def by (rule fold_min_step)
  then show ?thesis by (simp add: atLeast0LessThan)
qed

lemma find_minimum_Ret: "no_proc_lock s \<Longrightarrow> find_minimum s = Ret (least_key accumulator (procs s)) s"
  unfolding find_minimum_def least_key_def
  by (rule fold_loop_pure) (simp add: lock_simps Let_def min_step_def runnable_key_def)

lemma minimum_vruntime_Ret:
  "no_proc_lock s \<Longrightarrow> minimum_vruntime s = Ret (least_key check_vruntime (procs s)) s"
  unfolding minimum_vruntime_def least_key_def
  by (rule fold_loop_pure) (simp add: lock_simps Let_def min_step_def runnable_key_def)

section \<open>Virtual run times\<close>

definition cfs_weight :: "proc \<Rightarrow> int" where
  "cfs_weight p = (if cfs_priority p = 0 then 75 else if cfs_priority p = 1 then 100 else 125)"

lemma check_vruntime_weight:
  "check_vruntime p = cfs_weight p * riscv_div (rtime p) (rtime p + retime p + stime p)"
  by (simp add: check_vruntime_def cfs_weight_def Let_def)

lemma check_vruntime_not_minus_one: "check_vruntime p \<noteq> -1"
proof
  assume "check_vruntime p = -1"
  then have "cfs_weight p dvd 1" by (metis check_vruntime_weight dvd_minus_iff dvd_triv_left)
  then show False by (simp add: cfs_weight_def split: if_splits)
qed

text \<open>Times that the accounting can reach: none is negative.\<close>

definition times_ok :: "proc \<Rightarrow> bool" where
  "times_ok p \<longleftrightarrow> 0 \<le> rtime p \<and> 0 \<le> retime p \<and> 0 \<le> stime p"

lemma riscv_div_ratio:
  assumes "0 \<le> a" and "0 \<le> b"
  shows "riscv_div a (a + b) = (if a + b = 0 then -1 else if b = 0 then 1 else 0)"
proof (cases "a + b = 0 \<or> b = 0")
  case True
  then show ?thesis using assms by (auto simp: riscv_div_def signed_divide_int_def)
next
  case False
  then have "a div (a + b) = 0" using assms by (simp add: div_pos_pos_trivial)
  then show ?thesis using False assms by (auto simp: riscv_div_def signed_divide_int_def)
qed

text \<open>
  C20. The virtual run time the CFS scheduler compares takes only three values for times the
  accounting can reach: \<open>0\<close> for every process that has ever waited or slept, the decay factor
  (75, 100 or 125) for one that has only run, and minus the decay factor, by the hardware's
  division by zero, for one that has no recorded time. The intended ratio is lost to the
  integer division.
\<close>

theorem check_vruntime_values:
  assumes "0 \<le> rtime p" and "0 \<le> retime p" and "0 \<le> stime p"
  shows "check_vruntime p =
     (if rtime p + retime p + stime p = 0 then - cfs_weight p
      else if retime p + stime p = 0 then cfs_weight p else 0)"
  using riscv_div_ratio [of "rtime p" "retime p + stime p"] assms
  by (simp add: check_vruntime_weight add.assoc)

theorem check_vruntime_values_witness:
  "check_vruntime (blank_proc\<lparr>rtime := 900, stime := 1, cfs_priority := 2\<rparr>) = 0 \<and>
   check_vruntime blank_proc = -75"
  using check_vruntime_values [of "blank_proc\<lparr>rtime := 900, stime := 1, cfs_priority := 2\<rparr>"]
    check_vruntime_values [of blank_proc]
  by (simp add: blank_proc_def cfs_weight_def)

end
