(* ===== verification/Scheduler.thy ===== *)
theory Scheduler
  imports Proc
begin

text \<open>
  The three schedulers of \<^verbatim>\<open>kernel/proc.c\<close> and the hand-over of CPUs. Each scheduler is cut at its
  \<^verbatim>\<open>swtch\<close>: the part of the loop body before it (\<open>_pick\<close>), and the part after it (\<open>_after\<close>),
  which also decides whether the loop goes on or calls another scheduler.
\<close>

section \<open>The schedulers\<close>

datatype sched_alg = SchedOld | SchedPriority | SchedCFS

definition scheduler :: "'z pcb_scheme \<Rightarrow> sched_alg option" where
  "scheduler s =
     (if policy s = 0 then Some SchedOld
      else if policy s = 1 then Some SchedPriority
      else if policy s = 2 then Some SchedCFS
      else None)"

definition set_cpu_proc :: "nat option \<Rightarrow> 'z pcb_scheme \<Rightarrow> 'z pcb_scheme" where
  "set_cpu_proc p s = s\<lparr>cpu_proc := (cpu_proc s)(cpuid s := p)\<rparr>"

text \<open>
  The end of a loop body: stay in the loop with a new \<^verbatim>\<open>minimum\<close>, or call another scheduler.
\<close>

datatype after = Continue int | Call sched_alg

definition scheduler_old_enter :: "'z pcb_scheme \<Rightarrow> (int, 'z pcb_scheme) res" where
  "scheduler_old_enter s = Ret 0 (set_cpu_proc None s)"

definition scheduler_old_pick :: "nat \<Rightarrow> 'z pcb_scheme \<Rightarrow> (bool, 'z pcb_scheme) res" where
  "scheduler_old_pick i s =
     res_bind (lock_acquire (ProcLock i) s) (\<lambda>_ s.
       if pstate (procs s i) = RUNNABLE
       then Ret True (set_cpu_proc (Some i) (upd_proc i (\<lambda>p. p\<lparr>pstate := RUNNING\<rparr>) s))
       else Ret False s)"

definition scheduler_old_after :: "bool \<Rightarrow> nat \<Rightarrow> 'z pcb_scheme \<Rightarrow> (after, 'z pcb_scheme) res" where
  "scheduler_old_after switched i s =
     res_bind (lock_release (ProcLock i) (if switched then set_cpu_proc None s else s)) (\<lambda>_ s.
       Ret (if policy s = 1 then Call SchedPriority
            else if policy s = 2 then Call SchedCFS else Continue 0) s)"

definition schedulerPriority_enter :: "'z pcb_scheme \<Rightarrow> (int, 'z pcb_scheme) res" where
  "schedulerPriority_enter s = res_bind (find_minimum s) (\<lambda>minimum s. Ret minimum (set_cpu_proc None s))"

definition schedulerPriority_pick :: "int \<Rightarrow> nat \<Rightarrow> 'z pcb_scheme \<Rightarrow> (bool, 'z pcb_scheme) res" where
  "schedulerPriority_pick minimum i s =
     res_bind (lock_acquire (ProcLock i) s) (\<lambda>_ s.
       if pstate (procs s i) = RUNNABLE
       then (if accumulator (procs s i) \<le> minimum
             then Ret True (set_cpu_proc (Some i) (upd_proc i (\<lambda>p. p\<lparr>pstate := RUNNING\<rparr>) s))
             else Ret False s)
       else Ret False s)"

definition schedulerPriority_after :: "bool \<Rightarrow> nat \<Rightarrow> 'z pcb_scheme \<Rightarrow> (after, 'z pcb_scheme) res" where
  "schedulerPriority_after switched i s =
     res_bind (lock_release (ProcLock i) (if switched then set_cpu_proc None s else s)) (\<lambda>_ s.
     res_bind (find_minimum s) (\<lambda>minimum s.
       Ret (if policy s = 0 then Call SchedOld
            else if policy s = 2 then Call SchedCFS else Continue minimum) s))"

definition schedulerCFS_enter :: "'z pcb_scheme \<Rightarrow> (int, 'z pcb_scheme) res" where
  "schedulerCFS_enter s = res_bind (minimum_vruntime s) (\<lambda>minimum s. Ret minimum (set_cpu_proc None s))"

definition schedulerCFS_pick :: "int \<Rightarrow> nat \<Rightarrow> 'z pcb_scheme \<Rightarrow> (bool, 'z pcb_scheme) res" where
  "schedulerCFS_pick minimum i s =
     res_bind (lock_acquire (ProcLock i) s) (\<lambda>_ s.
       if pstate (procs s i) = RUNNABLE
       then (let virtual_time = check_vruntime (procs s i) in
             if virtual_time \<le> minimum
             then Ret True (set_cpu_proc (Some i) (upd_proc i (\<lambda>p. p\<lparr>pstate := RUNNING\<rparr>) s))
             else Ret False s)
       else Ret False s)"

definition schedulerCFS_after :: "bool \<Rightarrow> nat \<Rightarrow> 'z pcb_scheme \<Rightarrow> (after, 'z pcb_scheme) res" where
  "schedulerCFS_after switched i s =
     res_bind (lock_release (ProcLock i) (if switched then set_cpu_proc None s else s)) (\<lambda>_ s.
     res_bind (minimum_vruntime s) (\<lambda>minimum s.
       Ret (if policy s = 0 then Call SchedOld
            else if policy s = 1 then Call SchedPriority else Continue minimum) s))"

fun sched_enter :: "sched_alg \<Rightarrow> 'z pcb_scheme \<Rightarrow> (int, 'z pcb_scheme) res" where
  "sched_enter SchedOld s = scheduler_old_enter s"
| "sched_enter SchedPriority s = schedulerPriority_enter s"
| "sched_enter SchedCFS s = schedulerCFS_enter s"

fun sched_pick :: "sched_alg \<Rightarrow> int \<Rightarrow> nat \<Rightarrow> 'z pcb_scheme \<Rightarrow> (bool, 'z pcb_scheme) res" where
  "sched_pick SchedOld m i s = scheduler_old_pick i s"
| "sched_pick SchedPriority m i s = schedulerPriority_pick m i s"
| "sched_pick SchedCFS m i s = schedulerCFS_pick m i s"

fun sched_after :: "sched_alg \<Rightarrow> bool \<Rightarrow> nat \<Rightarrow> 'z pcb_scheme \<Rightarrow> (after, 'z pcb_scheme) res" where
  "sched_after SchedOld switched i s = scheduler_old_after switched i s"
| "sched_after SchedPriority switched i s = schedulerPriority_after switched i s"
| "sched_after SchedCFS switched i s = schedulerCFS_after switched i s"

section \<open>The scan loop and its call stack\<close>

text \<open>
  A frame is one activation of a scheduler: which one, the table index it is at, and its local
  \<^verbatim>\<open>minimum\<close>. A call of another scheduler pushes a frame; none is ever popped. The loop head
  \<^verbatim>\<open>intr_on()\<close> runs when the index is back at 0.
\<close>

record frame =
  alg :: sched_alg
  idx :: nat
  minimum :: int

fun next_frames :: "frame \<Rightarrow> frame list \<Rightarrow> after \<Rightarrow> 'z pcb_scheme \<Rightarrow> (frame list, 'z pcb_scheme) res" where
  "next_frames f fs (Continue m) s =
     (if Suc (idx f) < NPROC then Ret (f\<lparr>idx := Suc (idx f), minimum := m\<rparr> # fs) s
      else Ret (f\<lparr>idx := 0, minimum := m\<rparr> # fs) (s\<lparr>ien := True\<rparr>))"
| "next_frames f fs (Call a) s =
     res_bind (sched_enter a s) (\<lambda>m s.
       Ret (\<lparr>alg = a, idx = 0, minimum = m\<rparr> # f # fs) (s\<lparr>ien := True\<rparr>))"

definition scan_after :: "bool \<Rightarrow> frame \<Rightarrow> frame list \<Rightarrow> 'z pcb_scheme \<Rightarrow> (frame list, 'z pcb_scheme) res" where
  "scan_after switched f fs s = res_bind (sched_after (alg f) switched (idx f) s) (\<lambda>a s. next_frames f fs a s)"

text \<open>
  The scan of one CPU up to its next \<^verbatim>\<open>swtch\<close>; the first argument bounds the loop bodies it
  runs, and \<open>Hang\<close> means that none of them switched.
\<close>

fun scan_run :: "nat \<Rightarrow> frame list \<Rightarrow> 'z pcb_scheme \<Rightarrow> (frame list, 'z pcb_scheme) res" where
  "scan_run 0 fs s = Hang"
| "scan_run (Suc n) [] s = Hang"
| "scan_run (Suc n) (f # fs) s =
     res_bind (sched_pick (alg f) (minimum f) (idx f) s) (\<lambda>switched s.
       if switched then Ret (f # fs) s
       else res_bind (scan_after False f fs s) (\<lambda>fs s. scan_run n fs s))"

section \<open>Loop bodies\<close>

definition wants :: "sched_alg \<Rightarrow> int \<Rightarrow> proc \<Rightarrow> bool" where
  "wants a m p \<longleftrightarrow> pstate p = RUNNABLE \<and>
     (case a of SchedOld \<Rightarrow> True | SchedPriority \<Rightarrow> accumulator p \<le> m | SchedCFS \<Rightarrow> check_vruntime p \<le> m)"

definition running :: "nat \<Rightarrow> 'z pcb_scheme \<Rightarrow> 'z pcb_scheme" where
  "running i s = s\<lparr>held := ProcLock i # held s, procs := (procs s)(i := (procs s i)\<lparr>pstate := RUNNING\<rparr>),
     cpu_proc := (cpu_proc s)(tp s := Some i)\<rparr>"

lemma sched_pick_Ret:
  "ProcLock i \<notin> set (held s) \<Longrightarrow>
    sched_pick a m i s =
      (if wants a m (procs s i) then Ret True (running i s)
       else Ret False (s\<lparr>held := ProcLock i # held s\<rparr>))"
  by (cases a)
     (auto simp: scheduler_old_pick_def schedulerPriority_pick_def schedulerCFS_pick_def wants_def
        lock_simps upd_proc_def set_cpu_proc_def cpuid_def running_def Let_def)

definition new_minimum :: "sched_alg \<Rightarrow> (nat \<Rightarrow> proc) \<Rightarrow> int" where
  "new_minimum a ps = (case a of SchedOld \<Rightarrow> 0 | SchedPriority \<Rightarrow> least_key accumulator ps
     | SchedCFS \<Rightarrow> least_key check_vruntime ps)"

definition next_call :: "sched_alg \<Rightarrow> cint \<Rightarrow> sched_alg option" where
  "next_call a pol = (case a of
       SchedOld \<Rightarrow> (if pol = 1 then Some SchedPriority else if pol = 2 then Some SchedCFS else None)
     | SchedPriority \<Rightarrow> (if pol = 0 then Some SchedOld else if pol = 2 then Some SchedCFS else None)
     | SchedCFS \<Rightarrow> (if pol = 0 then Some SchedOld else if pol = 1 then Some SchedPriority else None))"

lemma no_proc_lock_Nil [simp]: "held s = [] \<Longrightarrow> no_proc_lock s"
  by (simp add: no_proc_lock_def)

lemma sched_after_Ret:
  assumes "held s = [ProcLock i]"
  shows "sched_after a switched i s =
     Ret (case next_call a (policy s) of None \<Rightarrow> Continue (new_minimum a (procs s)) | Some b \<Rightarrow> Call b)
       ((if switched then set_cpu_proc None s else s)\<lparr>held := []\<rparr>)"
  using assms
  by (cases a; cases switched)
     (simp_all add: scheduler_old_after_def schedulerPriority_after_def schedulerCFS_after_def
        lock_simps set_cpu_proc_def cpuid_def next_call_def new_minimum_def find_minimum_Ret minimum_vruntime_Ret)

lemma sched_enter_Ret:
  "held s = [] \<Longrightarrow> sched_enter a s = Ret (new_minimum a (procs s)) (set_cpu_proc None s)"
  by (cases a)
     (simp_all add: scheduler_old_enter_def schedulerPriority_enter_def schedulerCFS_enter_def
        new_minimum_def find_minimum_Ret minimum_vruntime_Ret)

definition next_idx :: "nat \<Rightarrow> nat" where
  "next_idx i = (if Suc i < NPROC then Suc i else 0)"

lemma scan_after_stay:
  assumes "held s = [ProcLock (idx f)]" and "next_call (alg f) (policy s) = None"
  shows "scan_after False f fs s =
     Ret (f\<lparr>idx := next_idx (idx f), minimum := new_minimum (alg f) (procs s)\<rparr> # fs)
       (s\<lparr>held := [], ien := ien s \<or> \<not> Suc (idx f) < NPROC\<rparr>)"
  using assms by (auto simp: scan_after_def sched_after_Ret next_idx_def)

section \<open>Which process a scan switches to\<close>

lemma next_idx_mod: "i < NPROC \<Longrightarrow> next_idx i = Suc i mod NPROC"
  by (cases "Suc i = NPROC") (auto simp: next_idx_def)

lemma held_same: "held s = h \<Longrightarrow> s\<lparr>held := h\<rparr> = s"
  by auto

lemma minimum_same: "minimum f = m \<Longrightarrow> f\<lparr>idx := i, minimum := m\<rparr> = f\<lparr>idx := i\<rparr>"
  by (cases f) auto

lemma next_idx_pow: "i < NPROC \<Longrightarrow> (next_idx ^^ d) i = (i + d) mod NPROC"
proof (induction d)
  case 0
  then show ?case by simp
next
  case (Suc d)
  have "NPROC > 0" by (simp add: NPROC_def)
  then have "next_idx ((i + d) mod NPROC) = (i + Suc d) mod NPROC"
    by (simp add: next_idx_mod mod_Suc_eq)
  with Suc show ?case by simp
qed

lemma scan_run_steps:
  assumes "held s = []" and "next_call (alg f) (policy s) = None"
    and "minimum f = new_minimum (alg f) (procs s)"
    and "\<forall>k < d. \<not> wants (alg f) (minimum f) (procs s ((next_idx ^^ k) (idx f)))"
    and "wants (alg f) (minimum f) (procs s ((next_idx ^^ d) (idx f)))" and "d < n"
  shows "\<exists>b. scan_run n (f # fs) s =
    Ret (f\<lparr>idx := (next_idx ^^ d) (idx f)\<rparr> # fs) (running ((next_idx ^^ d) (idx f)) (s\<lparr>ien := b\<rparr>))"
  using assms
proof (induction d arbitrary: f n s)
  case 0
  then obtain m where n: "n = Suc m" by (cases n) auto
  with 0 show ?case by (intro exI [of _ "ien s"]) (simp add: sched_pick_Ret)
next
  case (Suc d)
  then obtain m where n: "n = Suc m" "d < m" by (cases n) auto
  let ?g = "f\<lparr>idx := next_idx (idx f)\<rparr>" and ?t = "s\<lparr>ien := ien s \<or> \<not> Suc (idx f) < NPROC\<rparr>"
  have shift: "(next_idx ^^ k) (next_idx (idx f)) = (next_idx ^^ Suc k) (idx f)" for k
    by (simp add: funpow_swap1)
  have "\<not> wants (alg f) (minimum f) (procs s (idx f))" using Suc.prems(4) by (auto dest: spec [of _ 0])
  then have "scan_run n (f # fs) s = scan_run m (?g # fs) ?t"
    using Suc.prems n
    by (simp add: sched_pick_Ret scan_after_stay [of "s\<lparr>held := [ProcLock (idx f)]\<rparr>"] minimum_same held_same)
  moreover have "\<exists>b. scan_run m (?g # fs) ?t =
      Ret (?g\<lparr>idx := (next_idx ^^ d) (idx ?g)\<rparr> # fs) (running ((next_idx ^^ d) (idx ?g)) (?t\<lparr>ien := b\<rparr>))"
  proof (rule Suc.IH)
    show "\<forall>k < d. \<not> wants (alg ?g) (minimum ?g) (procs ?t ((next_idx ^^ k) (idx ?g)))"
      using Suc.prems(4) shift by auto
    show "wants (alg ?g) (minimum ?g) (procs ?t ((next_idx ^^ d) (idx ?g)))"
      using Suc.prems(5) shift [of d] by simp
  qed (use Suc.prems n in simp_all)
  ultimately show ?case using shift [of d] by simp
qed

text \<open>The index of the first process in scan order, from \<open>i\<close> on, that the scheduler wants.\<close>

lemma scan_run_first:
  assumes "held s = []" and "next_call (alg f) (policy s) = None"
    and "minimum f = new_minimum (alg f) (procs s)" and "idx f < NPROC"
    and "\<exists>j < NPROC. wants (alg f) (minimum f) (procs s j)"
  shows "\<exists>d < NPROC. let j = (idx f + d) mod NPROC in
     wants (alg f) (minimum f) (procs s j) \<and>
     (\<forall>k < d. \<not> wants (alg f) (minimum f) (procs s ((idx f + k) mod NPROC))) \<and>
     (\<exists>b. scan_run NPROC (f # fs) s = Ret (f\<lparr>idx := j\<rparr> # fs) (running j (s\<lparr>ien := b\<rparr>)))"
proof -
  let ?W = "\<lambda>d. wants (alg f) (minimum f) (procs s ((idx f + d) mod NPROC))"
  obtain j where j: "j < NPROC" "wants (alg f) (minimum f) (procs s j)" using assms(5) by blast
  let ?e = "(j + NPROC - idx f) mod NPROC"
  have "(idx f + ?e) mod NPROC = j"
    using j(1) assms(4) by (simp add: mod_add_right_eq)
  then have e: "?W ?e" using j(2) by simp
  define d where "d = (LEAST d. ?W d)"
  have d: "?W d" "d \<le> ?e" unfolding d_def using e by (auto intro: LeastI Least_le)
  have least: "\<forall>k < d. \<not> ?W k" unfolding d_def using not_less_Least by blast
  have "?e < NPROC" by (simp add: NPROC_def)
  then have "d < NPROC" using d(2) by simp
  moreover have "\<exists>b. scan_run NPROC (f # fs) s =
      Ret (f\<lparr>idx := (next_idx ^^ d) (idx f)\<rparr> # fs) (running ((next_idx ^^ d) (idx f)) (s\<lparr>ien := b\<rparr>))"
    by (rule scan_run_steps) (use assms d(1) least \<open>d < NPROC\<close> next_idx_pow in auto)
  ultimately show ?thesis using d(1) least assms(4) by (auto simp: Let_def next_idx_pow)
qed

text \<open>
  At the end of a loop body the CPU is in the scheduler the policy names, with a fresh minimum.
\<close>

definition policy_alg :: "sched_alg \<Rightarrow> cint \<Rightarrow> sched_alg" where
  "policy_alg a pol = (case next_call a pol of None \<Rightarrow> a | Some b \<Rightarrow> b)"

lemma scan_after_fresh:
  assumes "held s = [ProcLock (idx f)]"
  shows "\<exists>g gs t. scan_after sw f fs s = Ret (g # gs) t \<and>
     alg g = policy_alg (alg f) (policy s) \<and>
     idx g = (if next_call (alg f) (policy s) = None then next_idx (idx f) else 0) \<and> idx g < NPROC \<and> minimum g = new_minimum (alg g) (procs t) \<and>
     held t = [] \<and> procs t = procs s \<and> policy t = policy s \<and> tp t = tp s \<and>
     (sw \<longrightarrow> cpu_proc t = (cpu_proc s)(tp s := None)) \<and>
     (\<not> sw \<longrightarrow> cpu_proc s (tp s) = None \<longrightarrow> cpu_proc t = cpu_proc s) \<and>
     length (g # gs) = (if next_call (alg f) (policy s) = None then Suc (length fs) else Suc (Suc (length fs)))"
proof (cases "next_call (alg f) (policy s)")
  case None
  then show ?thesis using assms
    by (auto simp: scan_after_def sched_after_Ret policy_alg_def set_cpu_proc_def cpuid_def next_idx_def NPROC_def)
next
  case (Some b)
  then show ?thesis using assms
    by (auto simp: scan_after_def sched_after_Ret sched_enter_Ret policy_alg_def set_cpu_proc_def cpuid_def
        NPROC_def fun_upd_idem_iff)
qed

lemma policy_alg_stable: "next_call (policy_alg a pol) pol = None"
  by (cases a) (simp_all add: next_call_def policy_alg_def)

lemma policy_alg_values:
  "policy_alg a 0 = SchedOld" "policy_alg a 1 = SchedPriority" "policy_alg a 2 = SchedCFS"
  by (cases a; simp add: next_call_def policy_alg_def)+

lemma scan_run_idle:
  assumes "held s = []" and "next_call (alg f) (policy s) = None" and "idx f < NPROC"
    and "\<forall>j < NPROC. pstate (procs s j) \<noteq> RUNNABLE"
  shows "scan_run n (f # fs) s = Hang"
  using assms
proof (induction n arbitrary: f s)
  case 0
  then show ?case by simp
next
  case (Suc n)
  let ?g = "f\<lparr>idx := next_idx (idx f), minimum := new_minimum (alg f) (procs s)\<rparr>"
  have "scan_run n (?g # fs) (s\<lparr>ien := ien s \<or> \<not> Suc (idx f) < NPROC\<rparr>) = Hang"
    by (rule Suc.IH) (use Suc.prems in \<open>simp_all add: next_idx_def NPROC_def\<close>)
  moreover have "\<not> wants (alg f) (minimum f) (procs s (idx f))" using Suc.prems by (simp add: wants_def)
  ultimately show ?case using Suc.prems
    by (simp add: sched_pick_Ret scan_after_stay [of "s\<lparr>held := [ProcLock (idx f)]\<rparr>"] held_same)
qed

text \<open>
  C17. Under policy 0, after the loop body for entry \<open>idx f\<close> of the round-robin scheduler, the scan goes
  on at the next entry (the first one after the last), and from there the CPU switches, within one
  pass over the table, to the first runnable process in table order. After the loop body of
  another scheduler, the newly called round-robin scheduler does the same from entry 0. The CPU
  idles exactly when no process is runnable.
\<close>

theorem round_robin_order:
  assumes "held s = [ProcLock (idx f)]" and "policy s = 0"
  shows "\<exists>g gs t. scan_after sw f fs s = Ret (g # gs) t \<and> alg g = SchedOld \<and> procs t = procs s \<and>
     idx g = (if alg f = SchedOld \<and> Suc (idx f) < NPROC then Suc (idx f) else 0) \<and>
     (if \<exists>j < NPROC. pstate (procs s j) = RUNNABLE
      then \<exists>d < NPROC. let j = (idx g + d) mod NPROC in
         pstate (procs s j) = RUNNABLE \<and>
         (\<forall>k < d. pstate (procs s ((idx g + k) mod NPROC)) \<noteq> RUNNABLE) \<and>
         (\<exists>b. scan_run NPROC (g # gs) t = Ret (g\<lparr>idx := j\<rparr> # gs) (running j (t\<lparr>ien := b\<rparr>)))
      else \<forall>n. scan_run n (g # gs) t = Hang)"
proof -
  have nc: "next_call (alg f) 0 = None \<longleftrightarrow> alg f = SchedOld" by (cases "alg f") (simp_all add: next_call_def)
  obtain g gs t where t: "scan_after sw f fs s = Ret (g # gs) t" "alg g = SchedOld" "idx g < NPROC"
    "minimum g = new_minimum (alg g) (procs t)" "held t = []" "procs t = procs s" "policy t = 0"
    "idx g = (if alg f = SchedOld then next_idx (idx f) else 0)"
    using scan_after_fresh [OF assms(1), of sw fs] assms(2) by (auto simp: policy_alg_values nc simp del: split_paired_Ex)
  have i: "idx g = (if alg f = SchedOld \<and> Suc (idx f) < NPROC then Suc (idx f) else 0)"
    using t(8) by (simp add: next_idx_def)
  have stay: "next_call (alg g) (policy t) = None" using t by (simp add: next_call_def)
  have w: "wants (alg g) m p \<longleftrightarrow> pstate p = RUNNABLE" for m p using t(2) by (simp add: wants_def)
  show ?thesis
  proof (cases "\<exists>j < NPROC. pstate (procs s j) = RUNNABLE")
    case True
    then have "\<exists>j < NPROC. wants (alg g) (minimum g) (procs t j)" using t(6) w by simp
    from scan_run_first [OF t(5) stay t(4,3) this, of gs] True t i show ?thesis
      unfolding w by (intro exI [of _ g] exI [of _ gs] exI [of _ t]) simp
  next
    case False
    with scan_run_idle [OF t(5) stay t(3)] t i show ?thesis by auto
  qed
qed

definition one_runnable :: "nat \<Rightarrow> cint \<Rightarrow> pcb" where
  "one_runnable i pol = blank_pcb\<lparr>held := [ProcLock 3], policy := pol,
     procs := (\<lambda>_. blank_proc)(i := blank_proc\<lparr>pstate := RUNNABLE, accumulator := 7\<rparr>)\<rparr>"

definition frame_at :: "sched_alg \<Rightarrow> nat \<Rightarrow> frame" where
  "frame_at a i = \<lparr>alg = a, idx = i, minimum = 0\<rparr>"

lemma one_runnable_simps:
  "held (one_runnable i pol) = [ProcLock 3]" "policy (one_runnable i pol) = pol" "idx (frame_at a j) = j"
  "pstate (procs (one_runnable i pol) j) = RUNNABLE \<longleftrightarrow> j = i"
  "accumulator (procs (one_runnable i pol) i) = 7"
  by (simp_all add: one_runnable_def blank_pcb_def blank_proc_def frame_at_def)

theorem round_robin_order_witness:
  "\<exists>g gs t. scan_after True (frame_at SchedOld 3) [] (one_runnable 2 0) = Ret (g # gs) t \<and> idx g = 4 \<and>
     (\<exists>d < NPROC. (4 + d) mod NPROC = 2 \<and>
        (\<exists>b. scan_run NPROC (g # gs) t = Ret (g\<lparr>idx := 2\<rparr> # gs) (running 2 (t\<lparr>ien := b\<rparr>))))"
proof -
  have n: "\<exists>j < NPROC. j = 2" "Suc 3 < NPROC" "alg (frame_at SchedOld 3) = SchedOld" "Suc 3 = 4"
    by (simp_all add: NPROC_def frame_at_def)
  from round_robin_order [of "one_runnable 2 0" "frame_at SchedOld 3" True "[]"] n show ?thesis
    unfolding one_runnable_simps Let_def by auto blast
qed

section \<open>The schedulers that run a least process\<close>

locale min_scheduler =
  fixes key :: "proc \<Rightarrow> int" and ok :: "proc \<Rightarrow> bool" and al :: sched_alg
  assumes wants_key: "wants al m p \<longleftrightarrow> pstate p = RUNNABLE \<and> key p \<le> m"
    and minimum_key: "new_minimum al ps = least_key key ps"
    and key_ok: "ok p \<Longrightarrow> key p \<noteq> -1"
begin

lemma picks_least:
  fixes s :: "'z pcb_scheme"
  assumes "held s = []" and "next_call al (policy s) = None" and "alg f = al"
    and "minimum f = new_minimum al (procs s)" and "idx f < NPROC"
    and "\<forall>i < NPROC. pstate (procs s i) = RUNNABLE \<longrightarrow> ok (procs s i)"
    and "\<exists>i < NPROC. pstate (procs s i) = RUNNABLE"
  shows "\<exists>j < NPROC. pstate (procs s j) = RUNNABLE \<and>
     (\<forall>i < NPROC. pstate (procs s i) = RUNNABLE \<longrightarrow> key (procs s j) \<le> key (procs s i)) \<and>
     (\<exists>b. scan_run NPROC (f # fs) s = Ret (f\<lparr>idx := j\<rparr> # fs) (running j (s\<lparr>ien := b\<rparr>)))"
proof -
  let ?m = "least_key key (procs s)"
  have "is_scan_min (runnable_key key (procs s)) {..<NPROC} ?m"
    by (rule least_key_min) (use assms(6) key_ok in auto)
  then have m: "\<exists>i < NPROC. pstate (procs s i) = RUNNABLE \<and> key (procs s i) = ?m"
    "\<forall>i < NPROC. pstate (procs s i) = RUNNABLE \<longrightarrow> ?m \<le> key (procs s i)"
    using assms(7) by (auto simp: is_scan_min_def runnable_key_def split: if_splits)
  have min: "minimum f = ?m" using assms(4) minimum_key by simp
  then have "\<exists>j < NPROC. wants (alg f) (minimum f) (procs s j)"
    using m(1) assms(3) wants_key by auto
  with scan_run_first [of s f fs] assms obtain d where
    d: "wants al ?m (procs s ((idx f + d) mod NPROC))"
      "\<exists>b. scan_run NPROC (f # fs) s =
         Ret (f\<lparr>idx := (idx f + d) mod NPROC\<rparr> # fs) (running ((idx f + d) mod NPROC) (s\<lparr>ien := b\<rparr>))"
    using min by (auto simp: Let_def)
  have "(idx f + d) mod NPROC < NPROC" by (simp add: NPROC_def)
  moreover have "pstate (procs s ((idx f + d) mod NPROC)) = RUNNABLE"
    "\<forall>i < NPROC. pstate (procs s i) = RUNNABLE \<longrightarrow> key (procs s ((idx f + d) mod NPROC)) \<le> key (procs s i)"
    using d(1) m(2) by (auto simp: wants_key intro: order_trans)
  ultimately show ?thesis using d(2) by blast
qed

lemma after_picks_least:
  fixes s :: "'z pcb_scheme"
  assumes "held s = [ProcLock (idx f)]" and "policy_alg (alg f) (policy s) = al"
    and "\<forall>i < NPROC. pstate (procs s i) = RUNNABLE \<longrightarrow> ok (procs s i)"
    and "\<exists>i < NPROC. pstate (procs s i) = RUNNABLE"
  shows "\<exists>g gs t j. scan_after sw f fs s = Ret (g # gs) t \<and> alg g = al \<and>
     j < NPROC \<and> pstate (procs s j) = RUNNABLE \<and>
     (\<forall>i < NPROC. pstate (procs s i) = RUNNABLE \<longrightarrow> key (procs s j) \<le> key (procs s i)) \<and>
     (\<exists>b. scan_run NPROC (g # gs) t = Ret (g\<lparr>idx := j\<rparr> # gs) (running j (t\<lparr>ien := b\<rparr>)))"
proof -
  obtain g gs t where t: "scan_after sw f fs s = Ret (g # gs) t" "alg g = al" "idx g < NPROC"
    "minimum g = new_minimum al (procs t)" "held t = []" "procs t = procs s" "policy t = policy s"
    using scan_after_fresh [OF assms(1), of sw fs] assms(2) by auto
  have "next_call al (policy t) = None"
    using policy_alg_stable [of "alg f" "policy s"] assms(2) t(7) by simp
  from picks_least [OF t(5) this t(2,4,3)] assms(3,4) t show ?thesis by metis
qed

end

interpretation prio: min_scheduler accumulator "\<lambda>p. accumulator p \<noteq> -1" SchedPriority
  by unfold_locales (auto simp: wants_def new_minimum_def)

interpretation cfs: min_scheduler check_vruntime "\<lambda>_. True" SchedCFS
  by unfold_locales (auto simp: wants_def new_minimum_def check_vruntime_not_minus_one)

text \<open>
  C18. Under policy 1, after any loop body, the CPU switches within one pass to a runnable process
  whose accumulator is least among the runnable ones, provided no runnable process has the
  accumulator \<open>-1\<close>, which the scan for the minimum uses for "none yet". Other negative accumulators
  do no harm.
\<close>

theorem priority_runs_least:
  assumes "held s = [ProcLock (idx f)]" and "policy s = 1"
    and "\<forall>i < NPROC. pstate (procs s i) = RUNNABLE \<longrightarrow> accumulator (procs s i) \<noteq> -1"
    and "\<exists>i < NPROC. pstate (procs s i) = RUNNABLE"
  shows "\<exists>g gs t j. scan_after sw f fs s = Ret (g # gs) t \<and> alg g = SchedPriority \<and>
     j < NPROC \<and> pstate (procs s j) = RUNNABLE \<and>
     (\<forall>i < NPROC. pstate (procs s i) = RUNNABLE \<longrightarrow> accumulator (procs s j) \<le> accumulator (procs s i)) \<and>
     (\<exists>b. scan_run NPROC (g # gs) t = Ret (g\<lparr>idx := j\<rparr> # gs) (running j (t\<lparr>ien := b\<rparr>)))"
  by (rule prio.after_picks_least) (use assms in \<open>simp_all add: policy_alg_values\<close>)

theorem priority_runs_least_witness:
  "\<exists>g gs t. scan_after True (frame_at SchedPriority 3) [] (one_runnable 2 1) = Ret (g # gs) t \<and>
     alg g = SchedPriority \<and>
     (\<exists>b. scan_run NPROC (g # gs) t = Ret (g\<lparr>idx := 2\<rparr> # gs) (running 2 (t\<lparr>ien := b\<rparr>)))"
proof -
  have "\<forall>i < NPROC. i = 2 \<longrightarrow> accumulator (procs (one_runnable 2 1) i) \<noteq> -1" "\<exists>i < NPROC. i = 2"
    using one_runnable_simps(5) [of 2 1] by (auto simp: NPROC_def)
  with priority_runs_least [of "one_runnable 2 1" "frame_at SchedPriority 3" True "[]"] show ?thesis
    unfolding one_runnable_simps by auto
qed

text \<open>
  The proviso is needed: with accumulators 5, \<open>-1\<close> and 7 the scan for the minimum starts anew after
  the \<open>-1\<close> and returns 7, and the CPU switches to the process with 5. A negative priority is enough
  for a process to get there, since \<^verbatim>\<open>sys_set_ps_priority\<close> accepts every number.
\<close>

definition minus_one_runnable :: pcb where
  "minus_one_runnable = blank_pcb\<lparr>policy := 1,
     procs := (\<lambda>_. blank_proc)(0 := blank_proc\<lparr>pstate := RUNNABLE, accumulator := 5\<rparr>,
       1 := blank_proc\<lparr>pstate := RUNNABLE, accumulator := -1\<rparr>, 2 := blank_proc\<lparr>pstate := RUNNABLE, accumulator := 7\<rparr>)\<rparr>"

lemma priority_minus_one_passed_over:
  "find_minimum minus_one_runnable = Ret 7 minus_one_runnable \<and>
   schedulerPriority_pick 7 0 minus_one_runnable = Ret True (running 0 minus_one_runnable)"
proof -
  have u: "[0..<NPROC] = 0 # 1 # 2 # [3..<NPROC]" by (simp add: NPROC_def upt_rec)
  have k: "min_step (runnable_key accumulator (procs minus_one_runnable)) i m = m" if "i \<in> set [3..<NPROC]" for i m
    using that by (auto simp: min_step_def runnable_key_def minus_one_runnable_def blank_pcb_def blank_proc_def)
  have "fold (min_step (runnable_key accumulator (procs minus_one_runnable))) is m = m" if "set is \<subseteq> set [3..<NPROC]" for "is" m
    using that k by (induction "is" arbitrary: m) auto
  then have "least_key accumulator (procs minus_one_runnable) = 7"
    unfolding least_key_def u by (simp del: set_upt) (simp add: min_step_def runnable_key_def minus_one_runnable_def blank_pcb_def)
  moreover have "no_proc_lock minus_one_runnable" by (simp add: minus_one_runnable_def blank_pcb_def)
  moreover have "sched_pick SchedPriority 7 0 minus_one_runnable = Ret True (running 0 minus_one_runnable)"
    by (subst sched_pick_Ret) (simp_all add: wants_def minus_one_runnable_def blank_pcb_def)
  ultimately show ?thesis by (simp add: find_minimum_Ret)
qed

text \<open>
  C19. Under policy 2, after any loop body, the CPU switches within one pass to a runnable process
  whose virtual run time is least among the runnable ones.
\<close>

theorem cfs_runs_least:
  assumes "held s = [ProcLock (idx f)]" and "policy s = 2"
    and "\<exists>i < NPROC. pstate (procs s i) = RUNNABLE"
  shows "\<exists>g gs t j. scan_after sw f fs s = Ret (g # gs) t \<and> alg g = SchedCFS \<and>
     j < NPROC \<and> pstate (procs s j) = RUNNABLE \<and>
     (\<forall>i < NPROC. pstate (procs s i) = RUNNABLE \<longrightarrow> check_vruntime (procs s j) \<le> check_vruntime (procs s i)) \<and>
     (\<exists>b. scan_run NPROC (g # gs) t = Ret (g\<lparr>idx := j\<rparr> # gs) (running j (t\<lparr>ien := b\<rparr>)))"
  by (rule cfs.after_picks_least) (use assms in \<open>simp_all add: policy_alg_values\<close>)

theorem cfs_runs_least_witness:
  "\<exists>g gs t. scan_after False (frame_at SchedPriority 3) [] (one_runnable 2 2) = Ret (g # gs) t \<and>
     alg g = SchedCFS \<and>
     (\<exists>b. scan_run NPROC (g # gs) t = Ret (g\<lparr>idx := 2\<rparr> # gs) (running 2 (t\<lparr>ien := b\<rparr>)))"
proof -
  have "\<exists>i < NPROC. i = 2" by (simp add: NPROC_def)
  with cfs_runs_least [of "one_runnable 2 2" "frame_at SchedPriority 3" False "[]"] show ?thesis
    unfolding one_runnable_simps by auto
qed

end
