(* ===== verification/Sleeplock.thy ===== *)
theory Sleeplock
  imports Scheduler
begin

text \<open>
  \<^verbatim>\<open>kernel/sleeplock.c\<close>: locks a process may hold while it sleeps. The loop of \<^verbatim>\<open>acquiresleep\<close> is a
  definition of its own, since it is also what runs when a sleeper is woken.
\<close>

section \<open>State and routines\<close>

record sleeplock =
  sl_locked :: uint
  sl_name :: string
  sl_pid :: cint

record slstate = pcb +
  sleeplocks :: "slock_id \<Rightarrow> sleeplock"

definition upd_slock :: "slock_id \<Rightarrow> (sleeplock \<Rightarrow> sleeplock) \<Rightarrow> 'z slstate_scheme \<Rightarrow> 'z slstate_scheme" where
  "upd_slock l f s = s\<lparr>sleeplocks := (sleeplocks s)(l := f (sleeplocks s l))\<rparr>"

definition initsleeplock :: "slock_id \<Rightarrow> string \<Rightarrow> 'z slstate_scheme \<Rightarrow> 'z slstate_scheme" where
  "initsleeplock l name s = upd_slock l (\<lambda>k. k\<lparr>sl_name := name, sl_locked := 0, sl_pid := 0\<rparr>) s"

definition acquiresleep_loop :: "slock_id \<Rightarrow> 'z slstate_scheme \<Rightarrow> (unit, 'z slstate_scheme) res" where
  "acquiresleep_loop l s =
     (if sl_locked (sleeplocks s l) \<noteq> 0 then sleep (Some (ChanSleepLock l)) (SleepLk l) s
      else with_proc (\<lambda>p s.
             let s = upd_slock l (\<lambda>k. k\<lparr>sl_locked := 1\<rparr>) s;
                 s = upd_slock l (\<lambda>k. k\<lparr>sl_pid := pid (procs s p)\<rparr>) s
             in lock_release (SleepLk l) s) s)"

definition acquiresleep :: "slock_id \<Rightarrow> 'z slstate_scheme \<Rightarrow> (unit, 'z slstate_scheme) res" where
  "acquiresleep l s = res_bind (lock_acquire (SleepLk l) s) (\<lambda>_ s. acquiresleep_loop l s)"

definition acquiresleep_resume :: "nat \<Rightarrow> slock_id \<Rightarrow> 'z slstate_scheme \<Rightarrow> (unit, 'z slstate_scheme) res" where
  "acquiresleep_resume p l s = res_bind (sleep_resume p (SleepLk l) s) (\<lambda>_ s. acquiresleep_loop l s)"

definition releasesleep :: "slock_id \<Rightarrow> 'z slstate_scheme \<Rightarrow> (unit, 'z slstate_scheme) res" where
  "releasesleep l s =
     res_bind (lock_acquire (SleepLk l) s) (\<lambda>_ s.
       let s = upd_slock l (\<lambda>k. k\<lparr>sl_locked := 0, sl_pid := 0\<rparr>) s
       in res_bind (wakeup (Some (ChanSleepLock l)) s) (\<lambda>_ s. lock_release (SleepLk l) s))"

definition holdingsleep :: "slock_id \<Rightarrow> 'z slstate_scheme \<Rightarrow> (bool, 'z slstate_scheme) res" where
  "holdingsleep l s =
     res_bind (lock_acquire (SleepLk l) s) (\<lambda>_. with_proc (\<lambda>p s.
       let r = (sl_locked (sleeplocks s l) \<noteq> 0 \<and> sl_pid (sleeplocks s l) = pid (procs s p))
       in res_bind (lock_release (SleepLk l) s) (\<lambda>_ s. Ret r s)))"

section \<open>Behaviour\<close>

text \<open>The state after a process with the given pid has taken the lock.\<close>

definition sl_take :: "slock_id \<Rightarrow> nat \<Rightarrow> 'z slstate_scheme \<Rightarrow> 'z slstate_scheme" where
  "sl_take l p s = s\<lparr>sleeplocks := (sleeplocks s)(l := (sleeplocks s l)\<lparr>sl_locked := 1, sl_pid := pid (procs s p)\<rparr>)\<rparr>"

definition sl_drop :: "slock_id \<Rightarrow> 'z slstate_scheme \<Rightarrow> 'z slstate_scheme" where
  "sl_drop l s = s\<lparr>sleeplocks := (sleeplocks s)(l := (sleeplocks s l)\<lparr>sl_locked := 0, sl_pid := 0\<rparr>),
     procs := woken (Some (ChanSleepLock l)) (myproc s) (procs s)\<rparr>"

lemma myproc_sleeplocks [simp]: "myproc (s\<lparr>sleeplocks := q\<rparr>) = myproc s"
  by (simp add: myproc_def cpuid_def)

lemma acquiresleep_Ret:
  assumes "myproc s = Some p" and "SleepLk l \<notin> set (held s)" and "sl_locked (sleeplocks s l) = 0"
  shows "acquiresleep l s = Ret () (sl_take l p s)"
  using assms
  by (simp add: acquiresleep_def acquiresleep_loop_def lock_simps upd_slock_def sl_take_def Let_def)

lemma acquiresleep_blocks:
  assumes "myproc s = Some p" and "held s = []" and "sl_locked (sleeplocks s l) \<noteq> 0"
  shows "acquiresleep l s = Swtch (s\<lparr>held := [ProcLock p], procs := (procs s)(p := (procs s p)
     \<lparr>pchan := Some (ChanSleepLock l), pstate := SLEEPING, kintena := ien s\<rparr>)\<rparr>)"
  using assms
  by (simp add: acquiresleep_def acquiresleep_loop_def lock_simps sleep_Swtch)

lemma releasesleep_Ret:
  assumes "no_proc_lock s" and "SleepLk l \<notin> set (held s)"
  shows "releasesleep l s = Ret () (sl_drop l s)"
proof -
  let ?t = "s\<lparr>held := SleepLk l # held s, sleeplocks := (sleeplocks s)(l := (sleeplocks s l)\<lparr>sl_locked := 0, sl_pid := 0\<rparr>)\<rparr>"
  have "wakeup (Some (ChanSleepLock l)) ?t = Ret () (?t\<lparr>procs := woken (Some (ChanSleepLock l)) (myproc ?t) (procs ?t)\<rparr>)"
    by (rule wakeup_Ret) (use assms in \<open>simp add: no_proc_lock_def\<close>)
  then show ?thesis
    using assms by (simp add: releasesleep_def lock_simps Let_def upd_slock_def sl_drop_def)
qed

lemma holdingsleep_Ret:
  assumes "myproc s = Some p" and "SleepLk l \<notin> set (held s)"
  shows "holdingsleep l s =
     Ret (sl_locked (sleeplocks s l) \<noteq> 0 \<and> sl_pid (sleeplocks s l) = pid (procs s p)) s"
  using assms by (simp add: holdingsleep_def lock_simps Let_def)

lemma woken_pid [simp]: "pid (woken ch m ps i) = pid (ps i)"
  by (simp add: woken_def)

end
