(* ===== verification/Dll.thy ===== *)
theory Dll
  imports Main
begin

text \<open>
  Doubly linked circular lists through two pointer functions, as the buffer cache threads them
  through \<^verbatim>\<open>prev\<close> and \<^verbatim>\<open>next\<close>: segments, unlinking a node, and linking one behind the head.
\<close>

fun links :: "('a \<Rightarrow> 'a) \<Rightarrow> ('a \<Rightarrow> 'a) \<Rightarrow> 'a \<Rightarrow> 'a list \<Rightarrow> 'a \<Rightarrow> bool" where
  "links nx pv a [] b \<longleftrightarrow> nx a = b \<and> pv b = a"
| "links nx pv a (x # xs) b \<longleftrightarrow> nx a = x \<and> pv x = a \<and> links nx pv x xs b"

definition dll :: "('a \<Rightarrow> 'a) \<Rightarrow> ('a \<Rightarrow> 'a) \<Rightarrow> 'a \<Rightarrow> 'a list \<Rightarrow> bool" where
  "dll nx pv h xs \<longleftrightarrow> links nx pv h xs h \<and> distinct (h # xs)"

lemma links_append:
  "links nx pv a (xs @ y # ys) b \<longleftrightarrow> links nx pv a xs y \<and> links nx pv y ys b"
  by (induction xs arbitrary: a) auto

lemma links_cong:
  assumes "\<And>x. x \<in> set (a # xs) \<Longrightarrow> nx x = nx' x" and "\<And>x. x \<in> set (xs @ [b]) \<Longrightarrow> pv x = pv' x"
  shows "links nx pv a xs b = links nx' pv' a xs b"
  using assms by (induction xs arbitrary: a) auto

lemma links_first: "links nx pv a xs b \<Longrightarrow> nx a = (case xs of [] \<Rightarrow> b | x # _ \<Rightarrow> x)"
  by (cases xs) auto

lemma links_last: "links nx pv a xs b \<Longrightarrow> pv b = (if xs = [] then a else last xs)"
  by (induction xs arbitrary: a) auto

text \<open>Walking along \<open>nx\<close> visits the list in order, walking along \<open>pv\<close> in reverse.\<close>

lemma links_rev: "links nx pv a xs b \<longleftrightarrow> links pv nx b (rev xs) a"
proof (induction xs arbitrary: a)
  case Nil
  then show ?case by auto
next
  case (Cons x xs)
  then show ?case by (auto simp: links_append)
qed

lemma dll_rev: "dll nx pv h xs \<longleftrightarrow> dll pv nx h (rev xs)"
  by (auto simp: dll_def links_rev [symmetric])

lemma dll_push:
  assumes "dll nx pv h xs" and "b \<notin> set (h # xs)"
  shows "dll ((nx(b := nx h))(h := b)) ((pv(b := h))(nx h := b)) h (b # xs)"
proof (cases xs)
  case Nil
  then show ?thesis using assms by (auto simp: dll_def)
next
  case (Cons x ys)
  have "links ((nx(b := nx h))(h := b)) ((pv(b := h))(nx h := b)) x ys h = links nx pv x ys h"
    by (rule links_cong) (use assms Cons in \<open>auto simp: dll_def\<close>)
  then show ?thesis using assms Cons by (auto simp: dll_def)
qed

lemma dll_unlink:
  assumes "dll nx pv h (xs @ b # ys)"
  shows "dll (nx(pv b := nx b)) (pv(nx b := pv b)) h (xs @ ys)"
proof -
  have l: "links nx pv h xs b" "links nx pv b ys h" and d: "distinct (h # xs @ b # ys)"
    using assms by (simp_all add: dll_def links_append)
  have pb: "pv b = (if xs = [] then h else last xs)" using links_last [OF l(1)] .
  have nb: "nx b = (case ys of [] \<Rightarrow> h | y # _ \<Rightarrow> y)" using links_first [OF l(2)] .
  let ?nx = "nx(pv b := nx b)" and ?pv = "pv(nx b := pv b)"
  have "links ?nx ?pv h (xs @ ys) h"
  proof (cases xs rule: rev_cases)
    case Nil
    then have p: "pv b = h" using pb by simp
    show ?thesis
    proof (cases ys)
      case Nil
      then show ?thesis using \<open>xs = []\<close> p nb by simp
    next
      case (Cons y zs)
      have "links ?nx ?pv y zs h = links nx pv y zs h"
        by (rule links_cong) (use d p nb Cons in auto)
      then show ?thesis using \<open>xs = []\<close> p nb Cons l(2) by simp
    qed
  next
    case (snoc zs z)
    then have p: "pv b = z" using pb by simp
    have lz: "links nx pv h zs z" using l(1) snoc by (simp add: links_append)
    have a: "links ?nx ?pv h zs z = links nx pv h zs z"
      by (rule links_cong) (use d p nb snoc in \<open>auto split: list.splits\<close>)
    show ?thesis
    proof (cases ys)
      case Nil
      then show ?thesis using a lz snoc p nb by (simp add: links_append)
    next
      case (Cons y ws)
      have "links ?nx ?pv y ws h = links nx pv y ws h"
        by (rule links_cong) (use d p nb snoc Cons in auto)
      then show ?thesis using a lz snoc p nb Cons l(2) by (simp add: links_append)
    qed
  qed
  then show ?thesis using d by (auto simp: dll_def)
qed

lemma dll_neighbours:
  assumes "dll nx pv h (xs @ b # ys)"
  shows "nx b \<noteq> b" and "pv b \<noteq> b"
proof -
  have l: "links nx pv h xs b" "links nx pv b ys h" and d: "distinct (h # xs @ b # ys)"
    using assms by (simp_all add: dll_def links_append)
  show "pv b \<noteq> b" using links_last [OF l(1)] d by (auto split: if_splits)
  show "nx b \<noteq> b" using links_first [OF l(2)] d by (auto split: list.splits)
qed

end
