(* ===== verification/Bio.thy ===== *)
theory Bio
  imports Sleeplock Dll
begin

text \<open>
  \<^verbatim>\<open>kernel/bio.c\<close> and \<^verbatim>\<open>kernel/buf.h\<close>: the buffer cache. Buffers are the indices below \<^verbatim>\<open>NBUF\<close>; the
  list head \<^verbatim>\<open>bcache.head\<close> is the index \<^verbatim>\<open>NBUF\<close>, of which only the two links are used. The disk is
  a function from block numbers to blocks; \<open>dhist\<close> records the block writes in order, latest
  first, so that later theories can speak of a crash between two of them.
\<close>

section \<open>State\<close>

definition BSIZE :: nat where "BSIZE = 1024"

record buf =
  b_valid :: bool
  b_disk :: bool
  b_dev :: uint
  b_blockno :: uint
  b_refcnt :: int
  b_prev :: nat
  b_next :: nat
  b_data :: "uchar list"

type_synonym block = "uchar list"

record bstate = slstate +
  bufs :: "nat \<Rightarrow> buf"
  disk :: "uint \<Rightarrow> block"
  dhist :: "(uint \<times> block) list"

abbreviation bhead :: nat where
  "bhead \<equiv> NBUF"

definition upd_buf :: "nat \<Rightarrow> (buf \<Rightarrow> buf) \<Rightarrow> 'z bstate_scheme \<Rightarrow> 'z bstate_scheme" where
  "upd_buf b f s = s\<lparr>bufs := (bufs s)(b := f (bufs s b))\<rparr>"

text \<open>
  The effect of \<^verbatim>\<open>virtio_disk_rw(b, write)\<close> once the device has completed the request and the
  caller has been woken. The lemma \<open>device_serves_disk_rw\<close> of the theory on the disk queue relates it
  to the request that the driver builds.
\<close>

definition disk_rw :: "nat \<Rightarrow> bool \<Rightarrow> 'z bstate_scheme \<Rightarrow> 'z bstate_scheme" where
  "disk_rw b write s =
     (if write then s\<lparr>disk := (disk s)(b_blockno (bufs s b) := b_data (bufs s b)),
                      dhist := (b_blockno (bufs s b), b_data (bufs s b)) # dhist s\<rparr>
      else upd_buf b (\<lambda>q. q\<lparr>b_data := disk s (b_blockno q)\<rparr>) s)"

section \<open>Routines\<close>

definition binit_step :: "nat \<Rightarrow> 'z bstate_scheme \<Rightarrow> 'z bstate_scheme" where
  "binit_step b s =
     (let s = upd_buf b (\<lambda>q. q\<lparr>b_next := b_next (bufs s bhead)\<rparr>) s;
          s = upd_buf b (\<lambda>q. q\<lparr>b_prev := bhead\<rparr>) s;
          s = initsleeplock (BufLock b) ''buffer'' s;
          s = upd_buf (b_next (bufs s bhead)) (\<lambda>q. q\<lparr>b_prev := b\<rparr>) s
      in upd_buf bhead (\<lambda>q. q\<lparr>b_next := b\<rparr>) s)"

definition binit :: "'z bstate_scheme \<Rightarrow> 'z bstate_scheme" where
  "binit s =
     (let s = upd_buf bhead (\<lambda>q. q\<lparr>b_prev := bhead\<rparr>) s;
          s = upd_buf bhead (\<lambda>q. q\<lparr>b_next := bhead\<rparr>) s
      in fold binit_step [0..<NBUF] s)"

text \<open>The two scans of \<^verbatim>\<open>bget\<close>, along \<^verbatim>\<open>next\<close> and along \<^verbatim>\<open>prev\<close>; the first argument bounds them.\<close>

fun bget_cached :: "nat \<Rightarrow> uint \<Rightarrow> uint \<Rightarrow> nat \<Rightarrow> 'z bstate_scheme \<Rightarrow> (nat option, 'z bstate_scheme) res" where
  "bget_cached 0 dev blockno b s = Hang"
| "bget_cached (Suc n) dev blockno b s =
     (if b = bhead then Ret None s
      else if b_dev (bufs s b) = dev \<and> b_blockno (bufs s b) = blockno
      then Ret (Some b) (upd_buf b (\<lambda>q. q\<lparr>b_refcnt := b_refcnt q + 1\<rparr>) s)
      else bget_cached n dev blockno (b_next (bufs s b)) s)"

fun bget_recycle :: "nat \<Rightarrow> uint \<Rightarrow> uint \<Rightarrow> nat \<Rightarrow> 'z bstate_scheme \<Rightarrow> (nat option, 'z bstate_scheme) res" where
  "bget_recycle 0 dev blockno b s = Hang"
| "bget_recycle (Suc n) dev blockno b s =
     (if b = bhead then Ret None s
      else if b_refcnt (bufs s b) = 0
      then Ret (Some b) (upd_buf b (\<lambda>q. q\<lparr>b_dev := dev, b_blockno := blockno, b_valid := False, b_refcnt := 1\<rparr>) s)
      else bget_recycle n dev blockno (b_prev (bufs s b)) s)"

definition bget :: "uint \<Rightarrow> uint \<Rightarrow> 'z bstate_scheme \<Rightarrow> (nat, 'z bstate_scheme) res" where
  "bget dev blockno s =
     res_bind (lock_acquire BcacheLock s) (\<lambda>_ s.
     res_bind (bget_cached (NBUF + 1) dev blockno (b_next (bufs s bhead)) s) (\<lambda>r s.
       case r of
         Some b \<Rightarrow> res_bind (lock_release BcacheLock s) (\<lambda>_ s.
                    res_bind (acquiresleep (BufLock b) s) (\<lambda>_ s. Ret b s))
       | None \<Rightarrow> res_bind (bget_recycle (NBUF + 1) dev blockno (b_prev (bufs s bhead)) s) (\<lambda>r s.
           case r of
             Some b \<Rightarrow> res_bind (lock_release BcacheLock s) (\<lambda>_ s.
                        res_bind (acquiresleep (BufLock b) s) (\<lambda>_ s. Ret b s))
           | None \<Rightarrow> Panic ''bget: no buffers'')))"

definition bread :: "uint \<Rightarrow> uint \<Rightarrow> 'z bstate_scheme \<Rightarrow> (nat, 'z bstate_scheme) res" where
  "bread dev blockno s =
     res_bind (bget dev blockno s) (\<lambda>b s.
       if \<not> b_valid (bufs s b)
       then Ret b (upd_buf b (\<lambda>q. q\<lparr>b_valid := True\<rparr>) (disk_rw b False s))
       else Ret b s)"

definition bwrite :: "nat \<Rightarrow> 'z bstate_scheme \<Rightarrow> (unit, 'z bstate_scheme) res" where
  "bwrite b s =
     res_bind (holdingsleep (BufLock b) s) (\<lambda>h s.
       if \<not> h then Panic ''bwrite'' else Ret () (disk_rw b True s))"

definition brelse_relink :: "nat \<Rightarrow> 'z bstate_scheme \<Rightarrow> 'z bstate_scheme" where
  "brelse_relink b s =
     (let s = upd_buf (b_next (bufs s b)) (\<lambda>q. q\<lparr>b_prev := b_prev (bufs s b)\<rparr>) s;
          s = upd_buf (b_prev (bufs s b)) (\<lambda>q. q\<lparr>b_next := b_next (bufs s b)\<rparr>) s;
          s = upd_buf b (\<lambda>q. q\<lparr>b_next := b_next (bufs s bhead)\<rparr>) s;
          s = upd_buf b (\<lambda>q. q\<lparr>b_prev := bhead\<rparr>) s;
          s = upd_buf (b_next (bufs s bhead)) (\<lambda>q. q\<lparr>b_prev := b\<rparr>) s
      in upd_buf bhead (\<lambda>q. q\<lparr>b_next := b\<rparr>) s)"

definition brelse :: "nat \<Rightarrow> 'z bstate_scheme \<Rightarrow> (unit, 'z bstate_scheme) res" where
  "brelse b s =
     res_bind (holdingsleep (BufLock b) s) (\<lambda>h s.
       if \<not> h then Panic ''brelse''
       else res_bind (releasesleep (BufLock b) s) (\<lambda>_ s.
            res_bind (lock_acquire BcacheLock s) (\<lambda>_ s.
              let s = upd_buf b (\<lambda>q. q\<lparr>b_refcnt := b_refcnt q - 1\<rparr>) s;
                  s = (if b_refcnt (bufs s b) = 0 then brelse_relink b s else s)
              in lock_release BcacheLock s)))"

definition bpin :: "nat \<Rightarrow> 'z bstate_scheme \<Rightarrow> (unit, 'z bstate_scheme) res" where
  "bpin b s =
     res_bind (lock_acquire BcacheLock s) (\<lambda>_ s.
       lock_release BcacheLock (upd_buf b (\<lambda>q. q\<lparr>b_refcnt := b_refcnt q + 1\<rparr>) s))"

definition bunpin :: "nat \<Rightarrow> 'z bstate_scheme \<Rightarrow> (unit, 'z bstate_scheme) res" where
  "bunpin b s =
     res_bind (lock_acquire BcacheLock s) (\<lambda>_ s.
       lock_release BcacheLock (upd_buf b (\<lambda>q. q\<lparr>b_refcnt := b_refcnt q - 1\<rparr>) s))"

section \<open>The recency list\<close>

definition lru :: "(nat \<Rightarrow> buf) \<Rightarrow> nat list \<Rightarrow> bool" where
  "lru B xs \<longleftrightarrow> dll (\<lambda>i. b_next (B i)) (\<lambda>i. b_prev (B i)) bhead xs \<and> set xs = {..<NBUF}"

lemma lru_length: "lru B xs \<Longrightarrow> length xs = NBUF"
  by (metis card_lessThan distinct.simps(2) distinct_card dll_def lru_def)

text \<open>A scan from the head visits the list in order and stops at the first hit.\<close>

lemma bget_cached_scan:
  assumes "links (\<lambda>i. b_next (bufs s i)) pv a xs bhead" and "bhead \<notin> set xs" and "length xs < n"
  shows "bget_cached n dev bn (b_next (bufs s a)) s =
     (case List.find (\<lambda>b. b_dev (bufs s b) = dev \<and> b_blockno (bufs s b) = bn) xs of
        None \<Rightarrow> Ret None s
      | Some b \<Rightarrow> Ret (Some b) (upd_buf b (\<lambda>q. q\<lparr>b_refcnt := b_refcnt q + 1\<rparr>) s))"
  using assms
proof (induction xs arbitrary: a n)
  case Nil
  then show ?case by (cases n) auto
next
  case (Cons x xs)
  then obtain m where "n = Suc m" "length xs < m" by (cases n) auto
  with Cons show ?case by auto
qed

lemma bget_recycle_scan:
  assumes "links (\<lambda>i. b_prev (bufs s i)) nx a xs bhead" and "bhead \<notin> set xs" and "length xs < n"
  shows "bget_recycle n dev bn (b_prev (bufs s a)) s =
     (case List.find (\<lambda>b. b_refcnt (bufs s b) = 0) xs of
        None \<Rightarrow> Ret None s
      | Some b \<Rightarrow> Ret (Some b) (upd_buf b (\<lambda>q. q\<lparr>b_dev := dev, b_blockno := bn, b_valid := False, b_refcnt := 1\<rparr>) s))"
  using assms
proof (induction xs arbitrary: a n)
  case Nil
  then show ?case by (cases n) auto
next
  case (Cons x xs)
  then obtain m where "n = Suc m" "length xs < m" by (cases n) auto
  with Cons show ?case by auto
qed

declare bget_cached.simps [simp del] bget_recycle.simps [simp del]

text \<open>Moving a buffer to the front.\<close>

definition nxt :: "'z bstate_scheme \<Rightarrow> nat \<Rightarrow> nat" where
  "nxt s = (\<lambda>i. b_next (bufs s i))"

definition prv :: "'z bstate_scheme \<Rightarrow> nat \<Rightarrow> nat" where
  "prv s = (\<lambda>i. b_prev (bufs s i))"

lemma nxt_prv_upd:
  "nxt (upd_buf b (\<lambda>q. q\<lparr>b_next := v\<rparr>) s) = (nxt s)(b := v)"
  "nxt (upd_buf b (\<lambda>q. q\<lparr>b_prev := v\<rparr>) s) = nxt s"
  "prv (upd_buf b (\<lambda>q. q\<lparr>b_next := v\<rparr>) s) = prv s"
  "prv (upd_buf b (\<lambda>q. q\<lparr>b_prev := v\<rparr>) s) = (prv s)(b := v)"
  by (auto simp: nxt_def prv_def upd_buf_def fun_eq_iff)

lemma brelse_relink_links:
  assumes "nxt s b \<noteq> b" and "prv s b \<noteq> b" and "b \<noteq> bhead"
  shows "nxt (brelse_relink b s) =
      (let nx = (nxt s)(prv s b := nxt s b) in (nx(b := nx bhead))(bhead := b))"
    and "prv (brelse_relink b s) =
      (let nx = (nxt s)(prv s b := nxt s b); pv = (prv s)(nxt s b := prv s b) in (pv(b := bhead))(nx bhead := b))"
proof -
  have "brelse_relink b s =
     (let s = upd_buf (nxt s b) (\<lambda>q. q\<lparr>b_prev := prv s b\<rparr>) s;
          s = upd_buf (prv s b) (\<lambda>q. q\<lparr>b_next := nxt s b\<rparr>) s;
          s = upd_buf b (\<lambda>q. q\<lparr>b_next := nxt s bhead\<rparr>) s;
          s = upd_buf b (\<lambda>q. q\<lparr>b_prev := bhead\<rparr>) s;
          s = upd_buf (nxt s bhead) (\<lambda>q. q\<lparr>b_prev := b\<rparr>) s
      in upd_buf bhead (\<lambda>q. q\<lparr>b_next := b\<rparr>) s)"
    by (simp only: brelse_relink_def nxt_def prv_def)
  then show "nxt (brelse_relink b s) =
      (let nx = (nxt s)(prv s b := nxt s b) in (nx(b := nx bhead))(bhead := b))"
    and "prv (brelse_relink b s) =
      (let nx = (nxt s)(prv s b := nxt s b); pv = (prv s)(nxt s b := prv s b) in (pv(b := bhead))(nx bhead := b))"
    using assms by (simp_all add: Let_def nxt_prv_upd)
qed

lemma brelse_relink_lru:
  assumes "lru (bufs s) (xs @ b # ys)"
  shows "lru (bufs (brelse_relink b s)) (b # xs @ ys)"
proof -
  have d: "dll (nxt s) (prv s) bhead (xs @ b # ys)" and set: "set (xs @ b # ys) = {..<NBUF}"
    using assms by (simp_all add: lru_def nxt_def prv_def)
  have u: "dll ((nxt s)(prv s b := nxt s b)) ((prv s)(nxt s b := prv s b)) bhead (xs @ ys)"
    by (rule dll_unlink [OF d])
  have nb: "b \<notin> set (bhead # xs @ ys)" "b \<noteq> bhead" using d by (auto simp: dll_def)
  have "dll (nxt (brelse_relink b s)) (prv (brelse_relink b s)) bhead (b # xs @ ys)"
    using dll_push [OF u nb(1)] by (simp add: brelse_relink_links [OF dll_neighbours [OF d] nb(2)] Let_def)
  moreover have "set (b # xs @ ys) = {..<NBUF}" using set by auto
  ultimately show ?thesis by (simp add: lru_def nxt_def prv_def)
qed

section \<open>Cache invariant and the contents it stands for\<close>

definition buf_of :: "(nat \<Rightarrow> buf) \<Rightarrow> uint \<Rightarrow> uint \<Rightarrow> nat option" where
  "buf_of B dev bn = List.find (\<lambda>i. b_dev (B i) = dev \<and> b_blockno (B i) = bn) [0..<NBUF]"

text \<open>
  \<open>lblock B D dev bn\<close>: what a reader of block \<open>bn\<close> sees, the cached copy if there is a valid
  one and the disk otherwise.
\<close>

definition lblock :: "(nat \<Rightarrow> buf) \<Rightarrow> (uint \<Rightarrow> block) \<Rightarrow> uint \<Rightarrow> uint \<Rightarrow> block" where
  "lblock B D dev bn =
     (case buf_of B dev bn of
        Some i \<Rightarrow> if b_valid (B i) then b_data (B i) else D bn
      | None \<Rightarrow> D bn)"

text \<open>
  A block is cached at most once; an unreferenced buffer is clean. Device 0 is the label of
  buffers never used.
\<close>

definition binv :: "(nat \<Rightarrow> buf) \<Rightarrow> (uint \<Rightarrow> block) \<Rightarrow> bool" where
  "binv B D \<longleftrightarrow> (\<exists>xs. lru B xs) \<and>
     (\<forall>i < NBUF. \<forall>j < NBUF. b_dev (B i) \<noteq> 0 \<longrightarrow> b_dev (B i) = b_dev (B j) \<longrightarrow>
        b_blockno (B i) = b_blockno (B j) \<longrightarrow> i = j) \<and>
     (\<forall>i < NBUF. length (b_data (B i)) = BSIZE \<and> 0 \<le> b_refcnt (B i)) \<and>
     (\<forall>bn. length (D bn) = BSIZE) \<and>
     (\<forall>i < NBUF. b_refcnt (B i) = 0 \<longrightarrow> b_valid (B i) \<longrightarrow> b_dev (B i) \<noteq> 0 \<longrightarrow> b_data (B i) = D (b_blockno (B i)))"

lemma binv_unique:
  "binv B D \<Longrightarrow> i < NBUF \<Longrightarrow> j < NBUF \<Longrightarrow> b_dev (B i) \<noteq> 0 \<Longrightarrow> b_dev (B i) = b_dev (B j) \<Longrightarrow>
    b_blockno (B i) = b_blockno (B j) \<Longrightarrow> i = j"
  by (simp add: binv_def)

lemma binvD:
  assumes "binv B D"
  shows "\<exists>xs. lru B xs" and "length (D bn) = BSIZE"
    and "i < NBUF \<Longrightarrow> length (b_data (B i)) = BSIZE" and "i < NBUF \<Longrightarrow> 0 \<le> b_refcnt (B i)"
    and "i < NBUF \<Longrightarrow> b_refcnt (B i) = 0 \<Longrightarrow> b_valid (B i) \<Longrightarrow> b_dev (B i) \<noteq> 0 \<Longrightarrow>
      b_data (B i) = D (b_blockno (B i))"
  using assms by (simp_all add: binv_def)

lemma binvI:
  assumes "lru B xs"
    and "\<And>i j. i < NBUF \<Longrightarrow> j < NBUF \<Longrightarrow> b_dev (B i) \<noteq> 0 \<Longrightarrow> b_dev (B i) = b_dev (B j) \<Longrightarrow>
        b_blockno (B i) = b_blockno (B j) \<Longrightarrow> i = j"
    and "\<And>i. i < NBUF \<Longrightarrow> length (b_data (B i)) = BSIZE" and "\<And>i. i < NBUF \<Longrightarrow> 0 \<le> b_refcnt (B i)"
    and "\<And>bn. length (D bn) = BSIZE"
    and "\<And>i. i < NBUF \<Longrightarrow> b_refcnt (B i) = 0 \<Longrightarrow> b_valid (B i) \<Longrightarrow> b_dev (B i) \<noteq> 0 \<Longrightarrow>
        b_data (B i) = D (b_blockno (B i))"
  shows "binv B D"
  unfolding binv_def using assms by blast

lemma buf_of_Some:
  "buf_of B dev bn = Some i \<Longrightarrow> i < NBUF \<and> b_dev (B i) = dev \<and> b_blockno (B i) = bn"
  by (auto simp: buf_of_def find_upt_Some)

lemma buf_of_None:
  "buf_of B dev bn = None \<longleftrightarrow> (\<forall>i < NBUF. \<not> (b_dev (B i) = dev \<and> b_blockno (B i) = bn))"
  by (simp only: buf_of_def find_upt_None)

lemma buf_of_eq:
  assumes "binv B D" and "i < NBUF" and "b_dev (B i) = dev" and "b_blockno (B i) = bn" and "dev \<noteq> 0"
  shows "buf_of B dev bn = Some i"
proof (cases "buf_of B dev bn")
  case None
  then show ?thesis using assms(2-4) by (auto simp: buf_of_None)
next
  case (Some j)
  then have "j < NBUF" "b_dev (B j) = dev" "b_blockno (B j) = bn" using buf_of_Some by blast+
  then have "i = j" using binv_unique [OF assms(1,2), of j] assms(3-5) by simp
  then show ?thesis using Some by simp
qed

lemma find_SomeD: "List.find P xs = Some x \<Longrightarrow> x \<in> set xs \<and> P x"
  by (induction xs) (auto split: if_splits)

lemma find_unique:
  assumes "\<And>x y. x \<in> set xs \<Longrightarrow> y \<in> set xs \<Longrightarrow> P x \<Longrightarrow> P y \<Longrightarrow> x = y"
    and "x \<in> set xs" and "P x"
  shows "List.find P xs = Some x"
  using assms(2,1,3)
proof (induction xs)
  case Nil
  then show ?case by simp
next
  case (Cons y ys)
  show ?case
  proof (cases "P y")
    case True
    then show ?thesis using Cons.prems(1,3) Cons.prems(2) [of x y] by auto
  next
    case False
    then have "x \<in> set ys" using Cons.prems(1,3) by auto
    then show ?thesis using Cons.IH Cons.prems(2,3) False by simp
  qed
qed

text \<open>The buffer array after block \<open>bn\<close> has been brought into buffer \<open>i\<close>.\<close>

definition loaded :: "(nat \<Rightarrow> buf) \<Rightarrow> (uint \<Rightarrow> block) \<Rightarrow> nat \<Rightarrow> uint \<Rightarrow> uint \<Rightarrow> nat \<Rightarrow> buf" where
  "loaded B D i dev bn =
     B(i := (B i)\<lparr>b_valid := True, b_dev := dev, b_blockno := bn, b_refcnt := b_refcnt (B i) + 1,
                  b_data := lblock B D dev bn\<rparr>)"

definition load_slot :: "(nat \<Rightarrow> buf) \<Rightarrow> uint \<Rightarrow> uint \<Rightarrow> nat \<Rightarrow> bool" where
  "load_slot B dev bn i \<longleftrightarrow> i < NBUF \<and>
     (buf_of B dev bn = Some i \<or> buf_of B dev bn = None \<and> b_refcnt (B i) = 0)"

lemma lblock_length: "binv B D \<Longrightarrow> length (lblock B D dev bn) = BSIZE"
  by (auto simp: lblock_def binv_def dest!: buf_of_Some split: option.split)

lemma lru_cong:
  "(\<And>i. b_next (B i) = b_next (C i) \<and> b_prev (B i) = b_prev (C i)) \<Longrightarrow> lru B xs = lru C xs"
  by (simp add: lru_def)

lemma loaded_other: "j \<noteq> i \<Longrightarrow> loaded B D i dev bn j = B j"
  by (simp add: loaded_def)

lemma loaded_same [simp]:
  "b_valid (loaded B D i dev bn i)" "b_dev (loaded B D i dev bn i) = dev"
  "b_blockno (loaded B D i dev bn i) = bn" "b_refcnt (loaded B D i dev bn i) = b_refcnt (B i) + 1"
  "b_data (loaded B D i dev bn i) = lblock B D dev bn"
  by (simp_all add: loaded_def)

lemma loaded_lru: "lru (loaded B D i dev bn) xs = lru B xs"
  by (rule lru_cong) (simp add: loaded_def)

lemma loaded_binv:
  assumes inv: "binv B D" and slot: "load_slot B dev bn i" and "dev \<noteq> 0"
  shows "binv (loaded B D i dev bn) D"
proof -
  let ?C = "loaded B D i dev bn"
  have fresh: "j = i" if "j < NBUF" "b_dev (B j) = dev" "b_blockno (B j) = bn" for j
    using slot buf_of_eq [OF inv that assms(3)] by (auto simp: load_slot_def)
  obtain xs where xs: "lru B xs" using binvD(1) [OF inv] by blast
  have i: "i < NBUF" using slot by (simp add: load_slot_def)
  show ?thesis
  proof (rule binvI)
    show "lru ?C xs" using xs by (simp add: loaded_lru)
    show "length (D n) = BSIZE" for n using binvD(2) [OF inv] .
    show "length (b_data (?C j)) = BSIZE" if "j < NBUF" for j
      using binvD(3) [OF inv that] lblock_length [OF inv] by (cases "j = i") (simp_all add: loaded_other)
    show "0 \<le> b_refcnt (?C j)" if "j < NBUF" for j
      using binvD(4) [OF inv that] binvD(4) [OF inv i] by (cases "j = i") (simp_all add: loaded_other)
    show "b_data (?C j) = D (b_blockno (?C j))"
      if j: "j < NBUF" "b_refcnt (?C j) = 0" "b_valid (?C j)" "b_dev (?C j) \<noteq> 0" for j
    proof (cases "j = i")
      case True
      then show ?thesis using j(2) binvD(4) [OF inv i] by simp
    next
      case False
      then show ?thesis using j binvD(5) [OF inv j(1)] by (simp add: loaded_other)
    qed
    show "j = k" if jk: "j < NBUF" "k < NBUF" "b_dev (?C j) \<noteq> 0" "b_dev (?C j) = b_dev (?C k)"
      "b_blockno (?C j) = b_blockno (?C k)" for j k
    proof (cases "j = i")
      case True
      then have "k \<noteq> i \<Longrightarrow> k = i" using fresh [OF jk(2)] jk(4,5) by (simp add: loaded_other)
      then show ?thesis using True by blast
    next
      case ji: False
      show ?thesis
      proof (cases "k = i")
        case True
        then show ?thesis using fresh [OF jk(1)] jk(4,5) ji by (simp add: loaded_other)
      next
        case False
        then show ?thesis using binv_unique [OF inv jk(1,2)] jk(3-5) ji by (simp add: loaded_other)
      qed
    qed
  qed
qed

lemma loaded_lblock:
  assumes inv: "binv B D" and slot: "load_slot B dev bn i" and "dev \<noteq> 0" and "dev' \<noteq> 0"
  shows "lblock (loaded B D i dev bn) D dev' bn' = lblock B D dev' bn'"
proof -
  let ?C = "loaded B D i dev bn"
  have inv': "binv ?C D" using loaded_binv [OF assms(1-3)] .
  have i: "i < NBUF" using slot by (simp add: load_slot_def)
  show ?thesis
  proof (cases "dev' = dev \<and> bn' = bn")
    case True
    have "buf_of ?C dev bn = Some i" by (rule buf_of_eq [OF inv' i]) (use assms in simp_all)
    then show ?thesis using True by (simp add: lblock_def [of ?C])
  next
    case ne: False
    show ?thesis
    proof (cases "buf_of ?C dev' bn'")
      case (Some j)
      then have j: "j < NBUF" "b_dev (?C j) = dev'" "b_blockno (?C j) = bn'" using buf_of_Some by blast+
      then have "j \<noteq> i" using ne by auto
      then have "buf_of B dev' bn' = Some j" using j buf_of_eq [OF inv j(1)] assms(4) by (simp add: loaded_other)
      then show ?thesis using Some \<open>j \<noteq> i\<close> by (simp add: lblock_def loaded_other)
    next
      case None
      have clean: "b_valid (B k) \<longrightarrow> b_data (B k) = D bn'" if k: "buf_of B dev' bn' = Some k" for k
      proof -
        have k': "k < NBUF" "b_dev (B k) = dev'" "b_blockno (B k) = bn'" using buf_of_Some [OF k] by blast+
        have "k = i"
        proof (rule ccontr)
          assume "k \<noteq> i"
          then show False using None k' by (auto simp: buf_of_None loaded_other)
        qed
        then have "b_refcnt (B k) = 0" using slot k ne k' buf_of_Some [of B dev bn i] by (auto simp: load_slot_def)
        then show ?thesis using binvD(5) [OF inv k'(1)] k' assms(4) by simp
      qed
      show ?thesis
        using None clean by (cases "buf_of B dev' bn'") (simp_all add: lblock_def)
    qed
  qed
qed

section \<open>Behaviour of the routines\<close>

definition bidle :: "'z slstate_scheme \<Rightarrow> nat \<Rightarrow> bool" where
  "bidle s i \<longleftrightarrow> sl_locked (sleeplocks s (BufLock i)) = 0"

text \<open>No spin-lock of the cache is held by the caller.\<close>

definition bunlocked :: "'z machine_scheme \<Rightarrow> bool" where
  "bunlocked s \<longleftrightarrow> BcacheLock \<notin> set (held s) \<and> no_proc_lock s \<and> (\<forall>l. SleepLk l \<notin> set (held s))"

lemma bunlockedD:
  "bunlocked s \<Longrightarrow> BcacheLock \<notin> set (held s) \<and> SleepLk l \<notin> set (held s) \<and> no_proc_lock s"
  by (simp add: bunlocked_def)

text \<open>The block can be had without waiting.\<close>

definition bavail :: "'z bstate_scheme \<Rightarrow> uint \<Rightarrow> uint \<Rightarrow> bool" where
  "bavail s dev bn \<longleftrightarrow>
     (case buf_of (bufs s) dev bn of
        Some i \<Rightarrow> bidle s i
      | None \<Rightarrow> (\<exists>i < NBUF. b_refcnt (bufs s i) = 0) \<and> (\<forall>i < NBUF. b_refcnt (bufs s i) = 0 \<longrightarrow> bidle s i))"

lemma myproc_bufs [simp]: "myproc (s\<lparr>bufs := q\<rparr>) = myproc s" "myproc (s\<lparr>disk := d\<rparr>) = myproc s"
  "myproc (s\<lparr>dhist := h\<rparr>) = myproc s"
  by (simp_all add: myproc_def cpuid_def)

lemma bget_scans:
  assumes "binv (bufs s) D" and "dev \<noteq> 0"
  shows "bget_cached (NBUF + 1) dev bn (b_next (bufs s bhead)) s =
      (case buf_of (bufs s) dev bn of None \<Rightarrow> Ret None s
       | Some b \<Rightarrow> Ret (Some b) (upd_buf b (\<lambda>q. q\<lparr>b_refcnt := b_refcnt q + 1\<rparr>) s))"
    and "(\<exists>i < NBUF. b_refcnt (bufs s i) = 0) \<Longrightarrow>
      \<exists>b < NBUF. b_refcnt (bufs s b) = 0 \<and>
        bget_recycle (NBUF + 1) dev bn (b_prev (bufs s bhead)) s =
          Ret (Some b) (upd_buf b (\<lambda>q. q\<lparr>b_dev := dev, b_blockno := bn, b_valid := False, b_refcnt := 1\<rparr>) s)"
proof -
  obtain xs where xs: "lru (bufs s) xs" using binvD(1) [OF assms(1)] by blast
  have l: "links (\<lambda>i. b_next (bufs s i)) (\<lambda>i. b_prev (bufs s i)) bhead xs bhead" "bhead \<notin> set xs"
    "set xs = {..<NBUF}" "length xs = NBUF"
    using xs lru_length [OF xs] by (auto simp: lru_def dll_def)
  let ?P = "\<lambda>b. b_dev (bufs s b) = dev \<and> b_blockno (bufs s b) = bn"
  have "List.find ?P xs = buf_of (bufs s) dev bn"
  proof (cases "buf_of (bufs s) dev bn")
    case None
    then have "\<forall>x \<in> set xs. \<not> ?P x" using l(3) by (simp add: buf_of_None)
    then have "List.find ?P xs = None" by (auto simp: find_None_iff)
    then show ?thesis using None by simp
  next
    case (Some i)
    have "List.find ?P xs = Some i"
    proof (rule find_unique)
      show "i \<in> set xs" "?P i" using buf_of_Some [OF Some] l(3) by simp_all
      show "x = y" if "x \<in> set xs" "y \<in> set xs" "?P x" "?P y" for x y
        using that l(3) binv_unique [OF assms(1), of x y] assms(2) by simp
    qed
    then show ?thesis using Some by simp
  qed
  then show "bget_cached (NBUF + 1) dev bn (b_next (bufs s bhead)) s =
      (case buf_of (bufs s) dev bn of None \<Rightarrow> Ret None s
       | Some b \<Rightarrow> Ret (Some b) (upd_buf b (\<lambda>q. q\<lparr>b_refcnt := b_refcnt q + 1\<rparr>) s))"
    using bget_cached_scan [OF l(1,2)] l(4) by simp
  assume "\<exists>i < NBUF. b_refcnt (bufs s i) = 0"
  then have "List.find (\<lambda>b. b_refcnt (bufs s b) = 0) (rev xs) \<noteq> None"
    using l(3) by (auto simp: find_None_iff)
  then obtain b where b: "List.find (\<lambda>b. b_refcnt (bufs s b) = 0) (rev xs) = Some b" by blast
  then have "b \<in> set (rev xs)" "b_refcnt (bufs s b) = 0" using find_SomeD by fast+
  moreover have "links (\<lambda>i. b_prev (bufs s i)) (\<lambda>i. b_next (bufs s i)) bhead (rev xs) bhead"
    by (rule links_rev [THEN iffD1, OF l(1)])
  ultimately show "\<exists>b < NBUF. b_refcnt (bufs s b) = 0 \<and>
        bget_recycle (NBUF + 1) dev bn (b_prev (bufs s bhead)) s =
          Ret (Some b) (upd_buf b (\<lambda>q. q\<lparr>b_dev := dev, b_blockno := bn, b_valid := False, b_refcnt := 1\<rparr>) s)"
    using bget_recycle_scan [of s "\<lambda>i. b_next (bufs s i)" bhead "rev xs"] l(2-4) b by auto
qed

lemma bread_Ret:
  assumes inv: "binv (bufs s) (disk s)" and p: "myproc s = Some p" and lk: "bunlocked s" and dev: "dev \<noteq> 0"
    and av: "bavail s dev bn"
  shows "\<exists>i. load_slot (bufs s) dev bn i \<and> bidle s i \<and>
     bread dev bn s = Ret i (sl_take (BufLock i) p (s\<lparr>bufs := loaded (bufs s) (disk s) i dev bn\<rparr>))"
proof (cases "buf_of (bufs s) dev bn")
  case (Some i)
  then have i: "i < NBUF" "b_dev (bufs s i) = dev" "b_blockno (bufs s i) = bn" using buf_of_Some by blast+
  have free: "sl_locked (sleeplocks s (BufLock i)) = 0" using av Some by (simp add: bavail_def bidle_def)
  let ?B = "(bufs s)(i := (bufs s i)\<lparr>b_refcnt := b_refcnt (bufs s i) + 1\<rparr>)"
  have "bget dev bn s = Ret i (sl_take (BufLock i) p (s\<lparr>bufs := ?B\<rparr>))"
    using bget_scans(1) [OF inv dev, of bn] bget_scans(1) [of "s\<lparr>held := BcacheLock # held s\<rparr>", OF _ dev, of "disk s" bn]
      Some inv bunlockedD [OF lk] p free
    by (simp add: bget_def lock_simps upd_buf_def acquiresleep_Ret)
  moreover have "loaded (bufs s) (disk s) i dev bn =
      (if b_valid (bufs s i) then ?B
       else (bufs s)(i := (bufs s i)\<lparr>b_refcnt := b_refcnt (bufs s i) + 1, b_data := disk s bn, b_valid := True\<rparr>))"
    using i Some by (cases "bufs s i") (simp add: loaded_def lblock_def)
  ultimately show ?thesis
    using i Some free
    by (intro exI [of _ i]) (simp add: load_slot_def bidle_def bread_def sl_take_def disk_rw_def upd_buf_def)
next
  case None
  then have av': "\<exists>i < NBUF. b_refcnt (bufs s i) = 0" "\<forall>i < NBUF. b_refcnt (bufs s i) = 0 \<longrightarrow> bidle s i"
    using av by (simp_all add: bavail_def)
  let ?t = "s\<lparr>held := BcacheLock # held s\<rparr>"
  from bget_scans(2) [of ?t "disk s" dev bn] inv dev av'(1) obtain i where
    i: "i < NBUF" "b_refcnt (bufs s i) = 0"
      "bget_recycle (NBUF + 1) dev bn (b_prev (bufs ?t bhead)) ?t =
         Ret (Some i) (upd_buf i (\<lambda>q. q\<lparr>b_dev := dev, b_blockno := bn, b_valid := False, b_refcnt := 1\<rparr>) ?t)"
    by auto
  have free: "sl_locked (sleeplocks s (BufLock i)) = 0" using av'(2) i by (simp add: bidle_def)
  have "bget dev bn s = Ret i (sl_take (BufLock i) p (s\<lparr>bufs :=
      (bufs s)(i := (bufs s i)\<lparr>b_dev := dev, b_blockno := bn, b_valid := False, b_refcnt := 1\<rparr>)\<rparr>))"
    using bget_scans(1) [of ?t, OF _ dev, of "disk s" bn] None inv i(3) bunlockedD [OF lk] p free
    by (simp add: bget_def lock_simps upd_buf_def acquiresleep_Ret)
  moreover have "loaded (bufs s) (disk s) i dev bn = (bufs s)(i := (bufs s i)\<lparr>b_dev := dev, b_blockno := bn,
      b_refcnt := 1, b_data := disk s bn, b_valid := True\<rparr>)"
    using i None by (cases "bufs s i") (simp add: loaded_def lblock_def)
  ultimately show ?thesis
    using i None free
    by (intro exI [of _ i]) (simp add: load_slot_def bidle_def bread_def sl_take_def disk_rw_def upd_buf_def)
qed

lemma bwrite_Ret:
  assumes "myproc s = Some p" and "SleepLk (BufLock b) \<notin> set (held s)"
    and "sl_locked (sleeplocks s (BufLock b)) \<noteq> 0" and "sl_pid (sleeplocks s (BufLock b)) = pid (procs s p)"
  shows "bwrite b s = Ret () (s\<lparr>disk := (disk s)(b_blockno (bufs s b) := b_data (bufs s b)),
     dhist := (b_blockno (bufs s b), b_data (bufs s b)) # dhist s\<rparr>)"
  using assms by (simp add: bwrite_def holdingsleep_Ret disk_rw_def)

text \<open>The buffer array after \<open>brelse\<close>: one reference less, and to the front if it was the last.\<close>

definition unref :: "nat \<Rightarrow> (nat \<Rightarrow> buf) \<Rightarrow> nat \<Rightarrow> buf" where
  "unref b B = B(b := (B b)\<lparr>b_refcnt := b_refcnt (B b) - 1\<rparr>)"

definition to_front :: "nat \<Rightarrow> (nat \<Rightarrow> buf) \<Rightarrow> nat \<Rightarrow> buf" where
  "to_front b B =
     (let B = B(b_next (B b) := (B (b_next (B b)))\<lparr>b_prev := b_prev (B b)\<rparr>);
          B = B(b_prev (B b) := (B (b_prev (B b)))\<lparr>b_next := b_next (B b)\<rparr>);
          B = B(b := (B b)\<lparr>b_next := b_next (B bhead)\<rparr>);
          B = B(b := (B b)\<lparr>b_prev := bhead\<rparr>);
          B = B(b_next (B bhead) := (B (b_next (B bhead)))\<lparr>b_prev := b\<rparr>)
      in B(bhead := (B bhead)\<lparr>b_next := b\<rparr>))"

definition released :: "nat \<Rightarrow> (nat \<Rightarrow> buf) \<Rightarrow> nat \<Rightarrow> buf" where
  "released b B = (let B = unref b B in if b_refcnt (B b) = 0 then to_front b B else B)"

lemma brelse_relink_eq: "brelse_relink b s = s\<lparr>bufs := to_front b (bufs s)\<rparr>"
  by (simp add: brelse_relink_def to_front_def upd_buf_def Let_def del: fun_upd_apply)

text \<open>Relinking keeps everything but the links.\<close>

definition payload :: "buf \<Rightarrow> bool \<times> uint \<times> uint \<times> int \<times> block" where
  "payload q = (b_valid q, b_dev q, b_blockno q, b_refcnt q, b_data q)"

lemma payload_link:
  "payload ((B(j := (B j)\<lparr>b_prev := v\<rparr>)) i) = payload (B i)"
  "payload ((B(j := (B j)\<lparr>b_next := v\<rparr>)) i) = payload (B i)"
  by (simp_all add: payload_def)

lemma to_front_payload: "payload (to_front b B i) = payload (B i)"
  by (simp only: to_front_def Let_def payload_link)

lemma to_front_lru:
  assumes "lru B (xs @ b # ys)"
  shows "lru (to_front b B) (b # xs @ ys)"
proof -
  let ?s = "(undefined :: bstate)\<lparr>bufs := B\<rparr>"
  have "lru (bufs ?s) (xs @ b # ys)" using assms by simp
  then have "lru (bufs (brelse_relink b ?s)) (b # xs @ ys)" by (rule brelse_relink_lru)
  then show ?thesis by (simp add: brelse_relink_eq)
qed

lemma payload_simps:
  assumes "payload q = payload r"
  shows "b_valid q = b_valid r" "b_dev q = b_dev r" "b_blockno q = b_blockno r" "b_refcnt q = b_refcnt r"
    "b_data q = b_data r"
  using assms by (simp_all add: payload_def)

lemma lblock_payload: "(\<And>i. payload (B i) = payload (C i)) \<Longrightarrow> lblock B D dev bn = lblock C D dev bn"
  by (simp add: lblock_def buf_of_def payload_def split: option.split)

lemma binv_payload:
  assumes "binv B D" and "\<And>i. payload (C i) = payload (B i)" and "lru C xs"
  shows "binv C D"
proof (rule binvI [OF assms(3)])
  note eq = payload_simps [OF assms(2)]
  show "length (D n) = BSIZE" for n using binvD(2) [OF assms(1)] .
  show "i = j" if "i < NBUF" "j < NBUF" "b_dev (C i) \<noteq> 0" "b_dev (C i) = b_dev (C j)"
    "b_blockno (C i) = b_blockno (C j)" for i j
    using binv_unique [OF assms(1) that(1,2)] that(3-5) by (simp add: eq)
  show "length (b_data (C i)) = BSIZE" if "i < NBUF" for i using binvD(3) [OF assms(1) that] by (simp add: eq)
  show "0 \<le> b_refcnt (C i)" if "i < NBUF" for i using binvD(4) [OF assms(1) that] by (simp add: eq)
  show "b_data (C i) = D (b_blockno (C i))"
    if "i < NBUF" "b_refcnt (C i) = 0" "b_valid (C i)" "b_dev (C i) \<noteq> 0" for i
    using that binvD(5) [OF assms(1) that(1)] by (simp add: eq)
qed

lemma lru_to_front: "lru B zs \<Longrightarrow> b < NBUF \<Longrightarrow> \<exists>xs. lru (to_front b B) xs"
proof -
  assume z: "lru B zs" "b < NBUF"
  then have "b \<in> set zs" by (simp add: lru_def)
  then obtain xs ys where "zs = xs @ b # ys" by (meson split_list)
  then show ?thesis using z(1) to_front_lru by blast
qed

lemma released_payload: "payload (released b B i) = payload (unref b B i)"
  by (simp add: released_def Let_def to_front_payload)

lemma unref_lru: "lru (unref b B) xs = lru B xs"
  by (rule lru_cong) (simp add: unref_def)

lemma lblock_unref: "lblock (unref b B) D dev bn = lblock B D dev bn"
proof -
  have "b_dev (unref b B i) = b_dev (B i)" "b_blockno (unref b B i) = b_blockno (B i)" for i
    by (simp_all add: unref_def)
  then have "buf_of (unref b B) dev bn = buf_of B dev bn" by (simp add: buf_of_def)
  then show ?thesis by (simp add: lblock_def unref_def split: option.split)
qed

lemma released_lblock: "lblock (released b B) D dev bn = lblock B D dev bn"
proof -
  have "lblock (released b B) D dev bn = lblock (unref b B) D dev bn"
    by (rule lblock_payload) (rule released_payload)
  then show ?thesis by (simp add: lblock_unref)
qed

lemma released_binv:
  assumes inv: "binv B D" and b: "b < NBUF" and "0 < b_refcnt (B b)"
    and clean: "b_refcnt (B b) = 1 \<Longrightarrow> b_valid (B b) \<Longrightarrow> b_dev (B b) \<noteq> 0 \<Longrightarrow> b_data (B b) = D (b_blockno (B b))"
  shows "binv (released b B) D"
proof -
  let ?U = "unref b B"
  have eq: "b_dev (?U i) = b_dev (B i)" "b_blockno (?U i) = b_blockno (B i)" "b_valid (?U i) = b_valid (B i)"
    "b_data (?U i) = b_data (B i)" "b_refcnt (?U i) = (if i = b then b_refcnt (B b) - 1 else b_refcnt (B i))" for i
    by (simp_all add: unref_def)
  obtain xs where xs: "lru B xs" using binvD(1) [OF inv] by blast
  have u: "binv ?U D"
  proof (rule binvI)
    show "lru ?U xs" using xs by (simp add: unref_lru)
    show "length (D n) = BSIZE" for n using binvD(2) [OF inv] .
    show "i = j" if "i < NBUF" "j < NBUF" "b_dev (?U i) \<noteq> 0" "b_dev (?U i) = b_dev (?U j)"
      "b_blockno (?U i) = b_blockno (?U j)" for i j
      using binv_unique [OF inv that(1,2)] that(3-5) by (simp add: eq)
    show "length (b_data (?U i)) = BSIZE" if "i < NBUF" for i using binvD(3) [OF inv that] by (simp add: eq)
    show "0 \<le> b_refcnt (?U i)" if "i < NBUF" for i using binvD(4) [OF inv that] assms(3) by (simp add: eq)
    show "b_data (?U i) = D (b_blockno (?U i))"
      if "i < NBUF" "b_refcnt (?U i) = 0" "b_valid (?U i)" "b_dev (?U i) \<noteq> 0" for i
      using that binvD(5) [OF inv that(1)] clean by (cases "i = b") (simp_all add: eq)
  qed
  have "lru ?U xs" using xs by (simp add: unref_lru)
  then have "\<exists>ys. lru (released b B) ys"
    using lru_to_front [of ?U xs b] b by (auto simp: released_def Let_def)
  then show ?thesis using binv_payload [OF u, of "released b B"] released_payload by blast
qed

lemma brelse_Ret:
  assumes "myproc s = Some p" and lk: "bunlocked s"
    and "sl_locked (sleeplocks s (BufLock b)) \<noteq> 0" and "sl_pid (sleeplocks s (BufLock b)) = pid (procs s p)"
  shows "brelse b s = Ret () ((sl_drop (BufLock b) s)\<lparr>bufs := released b (bufs s)\<rparr>)"
proof -
  note l = bunlockedD [OF lk]
  have "brelse b s = (res_bind (lock_acquire BcacheLock (sl_drop (BufLock b) s)) (\<lambda>_ s.
              let s = upd_buf b (\<lambda>q. q\<lparr>b_refcnt := b_refcnt q - 1\<rparr>) s;
                  s = (if b_refcnt (bufs s b) = 0 then brelse_relink b s else s)
              in lock_release BcacheLock s))"
    using assms l by (simp add: brelse_def holdingsleep_Ret releasesleep_Ret)
  then show ?thesis
    using l by (simp add: lock_simps sl_drop_def upd_buf_def Let_def released_def unref_def brelse_relink_eq)
qed

section \<open>Boot\<close>

lemma nxt_prv_slock:
  "nxt (initsleeplock l n s) = nxt s" "prv (initsleeplock l n s) = prv s"
  by (simp_all add: nxt_def prv_def initsleeplock_def upd_slock_def)

lemma binit_step_links:
  assumes "b \<noteq> bhead"
  shows "nxt (binit_step b s) = ((nxt s)(b := nxt s bhead))(bhead := b)"
    and "prv (binit_step b s) = ((prv s)(b := bhead))(nxt s bhead := b)"
proof -
  have "binit_step b s =
     (let s = upd_buf b (\<lambda>q. q\<lparr>b_next := nxt s bhead\<rparr>) s;
          s = upd_buf b (\<lambda>q. q\<lparr>b_prev := bhead\<rparr>) s;
          s = initsleeplock (BufLock b) ''buffer'' s;
          s = upd_buf (nxt s bhead) (\<lambda>q. q\<lparr>b_prev := b\<rparr>) s
      in upd_buf bhead (\<lambda>q. q\<lparr>b_next := b\<rparr>) s)"
    by (simp only: binit_step_def nxt_def)
  then show "nxt (binit_step b s) = ((nxt s)(b := nxt s bhead))(bhead := b)"
    and "prv (binit_step b s) = ((prv s)(b := bhead))(nxt s bhead := b)"
    using assms by (simp_all add: Let_def nxt_prv_upd nxt_prv_slock)
qed

lemma binit_loop_dll:
  "n \<le> NBUF \<Longrightarrow> dll (nxt s) (prv s) bhead [] \<Longrightarrow>
    dll (nxt (fold binit_step [0..<n] s)) (prv (fold binit_step [0..<n] s)) bhead (rev [0..<n])"
proof (induction n)
  case 0
  then show ?case by simp
next
  case (Suc n)
  then have "dll (nxt (fold binit_step [0..<n] s)) (prv (fold binit_step [0..<n] s)) bhead (rev [0..<n])" by simp
  from dll_push [OF this, of n] Suc.prems(1) show ?case
    by (simp add: binit_step_links del: fun_upd_apply)
qed

lemma binit_lru: "lru (bufs (binit s)) (rev [0..<NBUF])"
proof -
  let ?s = "upd_buf bhead (\<lambda>q. q\<lparr>b_next := bhead\<rparr>) (upd_buf bhead (\<lambda>q. q\<lparr>b_prev := bhead\<rparr>) s)"
  have "dll (nxt ?s) (prv ?s) bhead []" by (simp add: dll_def nxt_prv_upd)
  from binit_loop_dll [OF order_refl this] show ?thesis
    by (simp add: lru_def binit_def Let_def nxt_def prv_def atLeast0LessThan)
qed

lemma binit_step_payload: "payload (bufs (binit_step b s) i) = payload (bufs s i)"
  by (simp add: binit_step_def Let_def upd_buf_def initsleeplock_def upd_slock_def payload_def)

lemma binit_step_rest:
  "disk (binit_step b s) = disk s" "held (binit_step b s) = held s" "myproc (binit_step b s) = myproc s"
  "procs (binit_step b s) = procs s"
  "bidle (binit_step b s) i \<longleftrightarrow> i = b \<or> bidle s i"
  by (auto simp: binit_step_def Let_def upd_buf_def initsleeplock_def upd_slock_def bidle_def myproc_def cpuid_def)

lemma binit_fold:
  "payload (bufs (fold binit_step xs s) i) = payload (bufs s i)"
  "disk (fold binit_step xs s) = disk s" "held (fold binit_step xs s) = held s"
  "myproc (fold binit_step xs s) = myproc s" "procs (fold binit_step xs s) = procs s"
  "bidle (fold binit_step xs s) i \<longleftrightarrow> i \<in> set xs \<or> bidle s i"
  by (induction xs arbitrary: s) (auto simp: binit_step_payload binit_step_rest)

lemma binit_rest:
  "payload (bufs (binit s) i) = payload (bufs s i)" "disk (binit s) = disk s" "held (binit s) = held s"
  "myproc (binit s) = myproc s" "procs (binit s) = procs s"
  "i < NBUF \<Longrightarrow> bidle (binit s) i"
  by (simp_all add: binit_def Let_def binit_fold) (simp_all add: upd_buf_def payload_def)

text \<open>Zero-initialised buffers.\<close>

definition blank_buf :: buf where
  "blank_buf = \<lparr>b_valid = False, b_disk = False, b_dev = 0, b_blockno = 0, b_refcnt = 0, b_prev = 0, b_next = 0,
     b_data = replicate BSIZE 0\<rparr>"

lemma binit_binv:
  assumes "\<And>i. bufs s i = blank_buf" and "\<And>bn. length (disk s bn) = BSIZE"
  shows "binv (bufs (binit s)) (disk (binit s))"
proof (rule binvI [OF binit_lru])
  have eq: "payload (bufs (binit s) i) = payload blank_buf" for i using assms(1) by (simp add: binit_rest)
  note p = payload_simps [OF eq]
  fix i j
  show "b_dev (bufs (binit s) i) \<noteq> 0 \<Longrightarrow> i = j" "length (b_data (bufs (binit s) i)) = BSIZE"
    "0 \<le> b_refcnt (bufs (binit s) i)"
    by (simp_all add: p blank_buf_def)
  show "b_valid (bufs (binit s) i) \<Longrightarrow> b_data (bufs (binit s) i) = disk (binit s) (b_blockno (bufs (binit s) i))"
    by (simp add: p blank_buf_def)
  show "length (disk (binit s) n) = BSIZE" for n using assms(2) by (simp add: binit_rest)
qed

section \<open>Coherence\<close>

text \<open>
  C29. \<^verbatim>\<open>bread\<close> of a block that can be had without waiting returns a buffer the calling process has
  locked and that holds the block's current contents: the cached copy if there is one, the disk
  otherwise. Recycling a buffer for it loses no data: the contents of every block and the
  cache invariant stay as they were.
\<close>

theorem bread_coherent:
  assumes "binv (bufs s) (disk s)" and "myproc s = Some p" and "bunlocked s" and "dev \<noteq> 0"
    and "bavail s dev bn"
  shows "\<exists>i t. bread dev bn s = Ret i t \<and> i < NBUF \<and>
     b_dev (bufs t i) = dev \<and> b_blockno (bufs t i) = bn \<and> b_valid (bufs t i) \<and>
     b_data (bufs t i) = lblock (bufs s) (disk s) dev bn \<and> 0 < b_refcnt (bufs t i) \<and>
     sl_locked (sleeplocks t (BufLock i)) \<noteq> 0 \<and> sl_pid (sleeplocks t (BufLock i)) = pid (procs t p) \<and>
     disk t = disk s \<and> binv (bufs t) (disk t) \<and>
     (\<forall>d n. d \<noteq> 0 \<longrightarrow> lblock (bufs t) (disk t) d n = lblock (bufs s) (disk s) d n)"
proof -
  obtain i where i: "load_slot (bufs s) dev bn i"
    "bread dev bn s = Ret i (sl_take (BufLock i) p (s\<lparr>bufs := loaded (bufs s) (disk s) i dev bn\<rparr>))"
    using bread_Ret [OF assms] by blast
  moreover have "i < NBUF" using i(1) by (simp add: load_slot_def)
  moreover have "0 \<le> b_refcnt (bufs s i)" using binvD(4) [OF assms(1)] calculation(3) .
  ultimately show ?thesis
    using loaded_binv [OF assms(1) i(1) assms(4)] loaded_lblock [OF assms(1) i(1) assms(4)]
    by (simp add: sl_take_def)
qed

definition blank_bstate :: bstate where
  "blank_bstate = \<lparr>held = [], ien = True, tp = 0, phys = phys blank_pcb,
     procs = (\<lambda>_. blank_proc)(0 := blank_proc\<lparr>pid := 1, pstate := RUNNING\<rparr>),
     cpu_proc = (\<lambda>_. None)(0 := Some 0), initproc = None, policy = 0, nextpid = 2, ticks = 0,
     sleeplocks = (\<lambda>_. \<lparr>sl_locked = 0, sl_name = [], sl_pid = 0\<rparr>),
     bufs = (\<lambda>_. blank_buf), disk = (\<lambda>_. replicate BSIZE 7), dhist = []\<rparr>"

lemma blank_bstate_ready:
  "binv (bufs (binit blank_bstate)) (disk (binit blank_bstate))" "myproc (binit blank_bstate) = Some 0"
  "bunlocked (binit blank_bstate)" "bavail (binit blank_bstate) 1 5"
proof -
  show "binv (bufs (binit blank_bstate)) (disk (binit blank_bstate))"
    by (rule binit_binv) (simp_all add: blank_bstate_def)
  show "myproc (binit blank_bstate) = Some 0" "bunlocked (binit blank_bstate)"
    by (simp_all add: binit_rest) (simp_all add: bunlocked_def binit_rest no_proc_lock_def blank_bstate_def myproc_def cpuid_def)
  have "payload (bufs (binit blank_bstate) i) = payload blank_buf" for i
    by (simp add: binit_rest) (simp add: blank_bstate_def)
  note p = payload_simps [OF this]
  have none: "buf_of (bufs (binit blank_bstate)) 1 5 = None" by (simp add: buf_of_None p blank_buf_def)
  have "\<exists>i < NBUF. b_refcnt (bufs (binit blank_bstate) i) = 0"
    by (intro exI [of _ 0]) (simp add: p blank_buf_def NBUF_def MAXOPBLOCKS_def)
  then show "bavail (binit blank_bstate) 1 5" using none by (simp add: bavail_def binit_rest)
qed

theorem bread_coherent_witness:
  "\<exists>i t. bread 1 5 (binit blank_bstate) = Ret i t \<and> b_data (bufs t i) = replicate BSIZE 7 \<and> binv (bufs t) (disk t)"
proof -
  have "payload (bufs (binit blank_bstate) i) = payload blank_buf" for i
    by (simp add: binit_rest) (simp add: blank_bstate_def)
  note p = payload_simps [OF this]
  have "buf_of (bufs (binit blank_bstate)) 1 5 = None" by (simp add: buf_of_None p blank_buf_def)
  then have l: "lblock (bufs (binit blank_bstate)) (disk (binit blank_bstate)) 1 5 = replicate BSIZE 7"
    by (simp add: lblock_def binit_rest) (simp add: blank_bstate_def)
  have "(1 :: uint) \<noteq> 0" by simp
  from bread_coherent [OF blank_bstate_ready(1-3) this blank_bstate_ready(4)] l show ?thesis by auto
qed

end
