(* ===== verification/Block_Cache.thy ===== *)
theory Block_Cache
  imports Bio
begin

text \<open>
  The contract of the buffer cache as its clients, the log and the file system, use it: per block
  of the root device its contents \<open>V\<close>, the number of references \<open>P\<close> and the set \<open>L\<close> of blocks
  the running process has locked, with the effect of every routine of \<^verbatim>\<open>bio.c\<close> on them.
\<close>

section \<open>Abstraction\<close>

definition view :: "'z bstate_scheme \<Rightarrow> uint \<Rightarrow> block" where
  "view s bn = lblock (bufs s) (disk s) ROOTDEV bn"

definition bpins :: "(nat \<Rightarrow> buf) \<Rightarrow> uint \<Rightarrow> int" where
  "bpins B bn = (case buf_of B ROOTDEV bn of Some i \<Rightarrow> b_refcnt (B i) | None \<Rightarrow> 0)"

abbreviation pins :: "'z bstate_scheme \<Rightarrow> uint \<Rightarrow> int" where
  "pins s \<equiv> bpins (bufs s)"

text \<open>\<open>at_buf s i bn\<close>: buffer \<open>i\<close> holds valid data of block \<open>bn\<close>.\<close>

definition at_buf :: "'z bstate_scheme \<Rightarrow> nat \<Rightarrow> uint \<Rightarrow> bool" where
  "at_buf s i bn \<longleftrightarrow> i < NBUF \<and> b_dev (bufs s i) = ROOTDEV \<and> b_blockno (bufs s i) = bn \<and> b_valid (bufs s i)"

definition mine :: "'z slstate_scheme \<Rightarrow> nat \<Rightarrow> nat \<Rightarrow> bool" where
  "mine s p i \<longleftrightarrow> sl_locked (sleeplocks s (BufLock i)) \<noteq> 0 \<and> sl_pid (sleeplocks s (BufLock i)) = pid (procs s p)"

definition bcache :: "'z bstate_scheme \<Rightarrow> nat \<Rightarrow> (uint \<Rightarrow> block) \<Rightarrow> (uint \<Rightarrow> int) \<Rightarrow> uint set \<Rightarrow> bool" where
  "bcache s p V P L \<longleftrightarrow>
     binv (bufs s) (disk s) \<and> myproc s = Some p \<and> bunlocked s \<and> V = view s \<and> P = pins s \<and>
     (\<forall>i < NBUF. b_dev (bufs s i) = 0 \<and> b_refcnt (bufs s i) = 0 \<or> b_dev (bufs s i) = ROOTDEV) \<and>
     (\<forall>bn \<in> L. 0 < P bn) \<and>
     (\<forall>i < NBUF. if b_dev (bufs s i) = ROOTDEV \<and> b_blockno (bufs s i) \<in> L
        then b_valid (bufs s i) \<and> mine s p i else bidle s i)"

lemma ROOTDEV_nz [simp]: "ROOTDEV \<noteq> 0"
  by (simp add: ROOTDEV_def)

lemma bcacheD:
  assumes "bcache s p V P L"
  shows "binv (bufs s) (disk s)" "myproc s = Some p" "bunlocked s" "V = view s" "P = pins s"
    and "i < NBUF \<Longrightarrow> b_dev (bufs s i) \<noteq> ROOTDEV \<Longrightarrow> b_dev (bufs s i) = 0 \<and> b_refcnt (bufs s i) = 0"
    and "bn \<in> L \<Longrightarrow> 0 < P bn"
    and "i < NBUF \<Longrightarrow> b_dev (bufs s i) = ROOTDEV \<Longrightarrow> b_blockno (bufs s i) \<in> L \<Longrightarrow> b_valid (bufs s i) \<and> mine s p i"
    and "i < NBUF \<Longrightarrow> b_dev (bufs s i) \<noteq> ROOTDEV \<or> b_blockno (bufs s i) \<notin> L \<Longrightarrow> bidle s i"
proof -
  have devs: "\<forall>i < NBUF. b_dev (bufs s i) = 0 \<and> b_refcnt (bufs s i) = 0 \<or> b_dev (bufs s i) = ROOTDEV"
    and pos: "\<forall>bn \<in> L. 0 < P bn"
    and locks: "\<forall>i < NBUF. if b_dev (bufs s i) = ROOTDEV \<and> b_blockno (bufs s i) \<in> L
        then b_valid (bufs s i) \<and> mine s p i else bidle s i"
    and basic: "binv (bufs s) (disk s)" "myproc s = Some p" "bunlocked s" "V = view s" "P = pins s"
    using assms [unfolded bcache_def] by - (elim conjE, assumption)+
  from basic show "binv (bufs s) (disk s)" "myproc s = Some p" "bunlocked s" "V = view s" "P = pins s" .
  show "i < NBUF \<Longrightarrow> b_dev (bufs s i) \<noteq> ROOTDEV \<Longrightarrow> b_dev (bufs s i) = 0 \<and> b_refcnt (bufs s i) = 0"
    using devs by metis
  show "bn \<in> L \<Longrightarrow> 0 < P bn" using pos by simp
  show "i < NBUF \<Longrightarrow> b_dev (bufs s i) = ROOTDEV \<Longrightarrow> b_blockno (bufs s i) \<in> L \<Longrightarrow> b_valid (bufs s i) \<and> mine s p i"
    "i < NBUF \<Longrightarrow> b_dev (bufs s i) \<noteq> ROOTDEV \<or> b_blockno (bufs s i) \<notin> L \<Longrightarrow> bidle s i"
    using locks by metis+
qed

lemma bcacheI:
  assumes "binv (bufs s) (disk s)" "myproc s = Some p" "bunlocked s" "V = view s" "P = pins s"
    and "\<And>i. i < NBUF \<Longrightarrow> b_dev (bufs s i) \<noteq> ROOTDEV \<Longrightarrow> b_dev (bufs s i) = 0 \<and> b_refcnt (bufs s i) = 0"
    and "\<And>bn. bn \<in> L \<Longrightarrow> 0 < P bn"
    and "\<And>i. i < NBUF \<Longrightarrow> b_dev (bufs s i) = ROOTDEV \<Longrightarrow> b_blockno (bufs s i) \<in> L \<Longrightarrow> b_valid (bufs s i) \<and> mine s p i"
    and "\<And>i. i < NBUF \<Longrightarrow> b_dev (bufs s i) \<noteq> ROOTDEV \<or> b_blockno (bufs s i) \<notin> L \<Longrightarrow> bidle s i"
  shows "bcache s p V P L"
  unfolding bcache_def
proof (intro conjI allI ballI impI)
  fix i assume i: "i < NBUF"
  show "b_dev (bufs s i) = 0 \<and> b_refcnt (bufs s i) = 0 \<or> b_dev (bufs s i) = ROOTDEV"
    using assms(6) [OF i] by blast
  show "if b_dev (bufs s i) = ROOTDEV \<and> b_blockno (bufs s i) \<in> L then b_valid (bufs s i) \<and> mine s p i else bidle s i"
    using assms(8,9) [OF i] by simp
qed (use assms in simp_all)

lemma at_buf_of: "binv (bufs s) D \<Longrightarrow> at_buf s i bn \<Longrightarrow> buf_of (bufs s) ROOTDEV bn = Some i"
  by (rule buf_of_eq) (auto simp: at_buf_def)

lemma at_buf_view: "binv (bufs s) (disk s) \<Longrightarrow> at_buf s i bn \<Longrightarrow> b_data (bufs s i) = view s bn"
  by (frule (1) at_buf_of) (simp add: view_def lblock_def at_buf_def)

lemma at_buf_pins: "binv (bufs s) D \<Longrightarrow> at_buf s i bn \<Longrightarrow> b_refcnt (bufs s i) = pins s bn"
  by (frule (1) at_buf_of) (simp add: bpins_def)

lemma locked_at_buf:
  assumes "bcache s p V P L" and "bn \<in> L"
  shows "\<exists>i. at_buf s i bn"
proof -
  have "0 < pins s bn" using bcacheD(5,7) [OF assms(1)] assms(2) by simp
  then obtain i where i: "buf_of (bufs s) ROOTDEV bn = Some i"
    by (auto simp: bpins_def split: option.splits)
  from buf_of_Some [OF i] show ?thesis
    using bcacheD(8) [OF assms(1), of i] assms(2) by (auto simp: at_buf_def)
qed

text \<open>Blocks nobody refers to are clean.\<close>

lemma bcache_clean:
  assumes "bcache s p V P L" and "P bn = 0"
  shows "V bn = disk s bn"
proof (cases "buf_of (bufs s) ROOTDEV bn")
  case None
  then show ?thesis using bcacheD(4) [OF assms(1)] by (simp add: view_def lblock_def)
next
  case (Some i)
  have "b_refcnt (bufs s i) = 0" using assms(2) bcacheD(5) [OF assms(1)] Some by (simp add: bpins_def)
  then show ?thesis
    using Some buf_of_Some [OF Some] binvD(5) [OF bcacheD(1) [OF assms(1)], of i] bcacheD(4) [OF assms(1)]
    by (simp add: view_def lblock_def)
qed

lemma bcache_view_length: "bcache s p V P L \<Longrightarrow> length (V bn) = BSIZE"
  using bcacheD(4) [of s p V P L] lblock_length [OF bcacheD(1) [of s p V P L]] by (simp add: view_def)

lemma bcache_pins_nonneg:
  assumes "bcache s p V P L"
  shows "0 \<le> P bn"
proof (cases "buf_of (bufs s) ROOTDEV bn")
  case None
  then show ?thesis using bcacheD(5) [OF assms] by (simp add: bpins_def)
next
  case (Some i)
  then show ?thesis
    using buf_of_Some [OF Some] binvD(4) [OF bcacheD(1) [OF assms], of i] bcacheD(5) [OF assms]
    by (simp add: bpins_def)
qed

text \<open>If fewer than NBUF blocks are referred to, some buffer is unused.\<close>

lemma unused_buffer:
  assumes "bcache s p V P L" and "card {b. 0 < P b} < NBUF"
  shows "\<exists>i < NBUF. b_refcnt (bufs s i) = 0"
proof (rule ccontr)
  assume "\<not> ?thesis"
  then have all: "b_refcnt (bufs s i) \<noteq> 0" if "i < NBUF" for i using that by blast
  note inv = bcacheD(1) [OF assms(1)]
  have dev: "b_dev (bufs s i) = ROOTDEV" if "i < NBUF" for i
    using bcacheD(6) [OF assms(1) that] all [OF that] by blast
  let ?f = "\<lambda>i. b_blockno (bufs s i)"
  have of: "buf_of (bufs s) ROOTDEV (?f i) = Some i" if "i < NBUF" for i
    by (rule buf_of_eq [OF inv that]) (simp_all add: dev that)
  have inj: "inj_on ?f {..<NBUF}"
  proof (rule inj_onI)
    fix i j assume ij: "i \<in> {..<NBUF}" "j \<in> {..<NBUF}" "?f i = ?f j"
    have "buf_of (bufs s) ROOTDEV (?f i) = Some i" using of ij(1) by blast
    moreover have "buf_of (bufs s) ROOTDEV (?f j) = Some j" using of ij(2) by blast
    ultimately show "i = j" unfolding ij(3) by simp
  qed
  have sub: "{b. 0 < P b} = ?f ` {..<NBUF}"
  proof (intro set_eqI iffI)
    fix b assume "b \<in> {b. 0 < P b}"
    then have "pins s b \<noteq> 0" using bcacheD(5) [OF assms(1)] by simp
    then obtain i where "buf_of (bufs s) ROOTDEV b = Some i" by (auto simp: bpins_def split: option.splits)
    then show "b \<in> ?f ` {..<NBUF}" using buf_of_Some by fastforce
  next
    fix b assume "b \<in> ?f ` {..<NBUF}"
    then obtain i where i: "i < NBUF" "b = ?f i" by auto
    then have "P b = b_refcnt (bufs s i)" using of [OF i(1)] bcacheD(5) [OF assms(1)] by (simp add: bpins_def)
    then show "b \<in> {b. 0 < P b}" using all [OF i(1)] binvD(4) [OF inv i(1)] by simp
  qed
  have "card {b. 0 < P b} = NBUF" using card_image [OF inj] sub by simp
  then show False using assms(2) by simp
qed

section \<open>Effect of the routines\<close>

text \<open>
  \<open>bframe s t\<close>: \<open>t\<close> differs from \<open>s\<close> in the cache's own fields, and processes have at most been
  woken.
\<close>

definition bframe :: "'z bstate_scheme \<Rightarrow> 'z bstate_scheme \<Rightarrow> bool" where
  "bframe s t \<longleftrightarrow> t = s\<lparr>procs := procs t, sleeplocks := sleeplocks t, bufs := bufs t, disk := disk t, dhist := dhist t\<rparr> \<and>
     (\<forall>i. procs t i = (procs s i)\<lparr>pstate := pstate (procs t i)\<rparr> \<and>
        (pstate (procs t i) = pstate (procs s i) \<or> pstate (procs s i) = SLEEPING \<and> pstate (procs t i) = RUNNABLE)) \<and>
     (\<forall>l. (\<forall>i. l \<noteq> BufLock i) \<longrightarrow> sleeplocks t l = sleeplocks s l)"

lemma buf_of_loaded:
  assumes "binv B D" and "load_slot B ROOTDEV bn i" and "b \<noteq> bn"
  shows "buf_of (loaded B D i ROOTDEV bn) ROOTDEV b =
     (case buf_of B ROOTDEV b of None \<Rightarrow> None | Some j \<Rightarrow> if j = i then None else Some j)"
proof -
  let ?C = "loaded B D i ROOTDEV bn"
  have inv': "binv ?C D" using loaded_binv [OF assms(1,2)] by simp
  show ?thesis
  proof (cases "buf_of B ROOTDEV b")
    case None
    then have "\<forall>j < NBUF. \<not> (b_dev (?C j) = ROOTDEV \<and> b_blockno (?C j) = b)"
      using assms(3) by (auto simp: buf_of_None loaded_def)
    then show ?thesis using None by (simp add: buf_of_None [of ?C])
  next
    case (Some j)
    then have j: "j < NBUF" "b_dev (B j) = ROOTDEV" "b_blockno (B j) = b" using buf_of_Some by blast+
    show ?thesis
    proof (cases "j = i")
      case True
      have "\<not> (b_dev (?C k) = ROOTDEV \<and> b_blockno (?C k) = b)" if "k < NBUF" for k
        using binv_unique [OF assms(1) j(1) that] j True assms(3) by (cases "k = i") (auto simp: loaded_other)
      then show ?thesis using Some True by (simp add: buf_of_None [of ?C])
    next
      case False
      then have "buf_of ?C ROOTDEV b = Some j"
        by (intro buf_of_eq [OF inv' j(1)]) (simp_all add: loaded_other j)
      then show ?thesis using Some False by simp
    qed
  qed
qed

lemma pins_loaded:
  assumes "binv B D" and "load_slot B ROOTDEV bn i"
  shows "bpins (loaded B D i ROOTDEV bn) = (bpins B)(bn := bpins B bn + 1)"
proof
  fix b
  let ?C = "loaded B D i ROOTDEV bn"
  have i: "i < NBUF" using assms(2) by (simp add: load_slot_def)
  show "bpins ?C b = ((bpins B)(bn := bpins B bn + 1)) b"
  proof (cases "b = bn")
    case True
    have "buf_of ?C ROOTDEV bn = Some i"
      by (rule buf_of_eq [OF loaded_binv [OF assms] i]) simp_all
    moreover have "bpins B bn = b_refcnt (B i)"
      using assms(2) by (auto simp: load_slot_def bpins_def)
    ultimately show ?thesis using True by (simp add: bpins_def)
  next
    case False
    have "b_refcnt (B i) = 0" if "buf_of B ROOTDEV b = Some i"
      using that False assms(2) buf_of_Some [of B ROOTDEV b i] buf_of_Some [of B ROOTDEV bn i]
      by (auto simp: load_slot_def)
    then show ?thesis
      using False buf_of_loaded [OF assms False]
      by (auto simp: bpins_def loaded_other split: option.split)
  qed
qed

lemma bread_bcache:
  assumes c: "bcache s p V P L" and bn: "bn \<notin> L" and room: "P bn = 0 \<Longrightarrow> card {b. 0 < P b} < NBUF"
  shows "\<exists>i t. bread ROOTDEV bn s = Ret i t \<and> bcache t p V (P(bn := P bn + 1)) (insert bn L) \<and>
     at_buf t i bn \<and> b_data (bufs t i) = V bn \<and> (\<forall>j b. b \<in> L \<longrightarrow> at_buf s j b \<longrightarrow> at_buf t j b) \<and>
     disk t = disk s \<and> dhist t = dhist s \<and> bframe s t"
proof -
  note D = bcacheD [OF c]
  have av: "bavail s ROOTDEV bn"
  proof (cases "buf_of (bufs s) ROOTDEV bn")
    case None
    then have "P bn = 0" using D(5) by (simp add: bpins_def)
    then have ex: "\<exists>i < NBUF. b_refcnt (bufs s i) = 0" using unused_buffer [OF c] room by blast
    have "bidle s i" if "i < NBUF" "b_refcnt (bufs s i) = 0" for i
    proof (rule D(9) [OF that(1)])
      show "b_dev (bufs s i) \<noteq> ROOTDEV \<or> b_blockno (bufs s i) \<notin> L"
      proof (rule ccontr)
        assume "\<not> ?thesis"
        then have k: "b_dev (bufs s i) = ROOTDEV" "b_blockno (bufs s i) \<in> L" by auto
        then have "buf_of (bufs s) ROOTDEV (b_blockno (bufs s i)) = Some i"
          by (intro buf_of_eq [OF D(1) that(1)]) simp_all
        then have "P (b_blockno (bufs s i)) = 0" using that(2) D(5) by (simp add: bpins_def)
        then show False using D(7) [OF k(2)] by simp
      qed
    qed
    then show ?thesis using None ex by (simp add: bavail_def)
  next
    case (Some i)
    then have "bidle s i" using D(9) [of i] buf_of_Some [OF Some] bn by auto
    then show ?thesis using Some by (simp add: bavail_def)
  qed
  obtain i where i: "load_slot (bufs s) ROOTDEV bn i" "bidle s i"
    "bread ROOTDEV bn s = Ret i (sl_take (BufLock i) p (s\<lparr>bufs := loaded (bufs s) (disk s) i ROOTDEV bn\<rparr>))"
    using bread_Ret [OF D(1-3) ROOTDEV_nz av] by blast
  have iN: "i < NBUF" using i(1) by (simp add: load_slot_def)
  let ?C = "loaded (bufs s) (disk s) i ROOTDEV bn"
  let ?t = "sl_take (BufLock i) p (s\<lparr>bufs := ?C\<rparr>)"
  have t: "bufs ?t = ?C" "disk ?t = disk s" "dhist ?t = dhist s" "procs ?t = procs s" "held ?t = held s"
    "myproc ?t = myproc s" by (simp_all add: sl_take_def)
  have inv: "binv ?C (disk s)" by (rule loaded_binv [OF D(1) i(1)]) simp
  have free: "bidle ?t j \<longleftrightarrow> j \<noteq> i \<and> bidle s j" for j by (simp add: bidle_def sl_take_def)
  have mine: "mine ?t p j \<longleftrightarrow> j = i \<or> mine s p j" for j by (simp add: mine_def sl_take_def)
  have at: "at_buf ?t i bn" using iN by (simp add: at_buf_def t)
  have notL: "b_blockno (bufs s i) \<notin> L \<or> b_dev (bufs s i) \<noteq> ROOTDEV"
    using D(8) [OF iN] i(2) by (auto simp: mine_def bidle_def)
  have "bcache ?t p V (P(bn := P bn + 1)) (insert bn L)"
  proof (rule bcacheI)
    show "binv (bufs ?t) (disk ?t)" using inv by (simp add: t)
    show "myproc ?t = Some p" using D(2) by (simp add: t)
    show "bunlocked ?t" using D(3) by (simp add: bunlocked_def no_proc_lock_def t)
    show "V = view ?t" using D(4) loaded_lblock [OF D(1) i(1) ROOTDEV_nz ROOTDEV_nz] by (simp add: view_def fun_eq_iff t)
    show "P(bn := P bn + 1) = pins ?t" using D(5) pins_loaded [OF D(1) i(1)] by (simp add: t)
    show "b_dev (bufs ?t j) \<noteq> ROOTDEV \<Longrightarrow> b_dev (bufs ?t j) = 0 \<and> b_refcnt (bufs ?t j) = 0" if "j < NBUF" for j
      using D(6) [OF that] by (cases "j = i") (simp_all add: t loaded_other)
    show "0 < (P(bn := P bn + 1)) b" if "b \<in> insert bn L" for b
      using that D(7) [of b] bcache_pins_nonneg [OF c, of bn] by auto
    show "b_valid (bufs ?t j) \<and> mine ?t p j"
      if "j < NBUF" "b_dev (bufs ?t j) = ROOTDEV" "b_blockno (bufs ?t j) \<in> insert bn L" for j
    proof (cases "j = i")
      case True
      then show ?thesis by (simp add: t mine)
    next
      case False
      then have k: "b_dev (bufs s j) = ROOTDEV" "b_blockno (bufs s j) \<in> insert bn L" using that by (simp_all add: t loaded_other)
      have "b_blockno (bufs s j) \<noteq> bn"
      proof
        assume "b_blockno (bufs s j) = bn"
        then have "b_blockno (?C j) = b_blockno (?C i)" "b_dev (?C j) = b_dev (?C i)"
          using k(1) False by (simp_all add: loaded_other)
        then show False using binv_unique [OF inv that(1) iN] k(1) False by (simp add: loaded_other)
      qed
      then show ?thesis using k D(8) [OF that(1)] False by (simp add: t loaded_other mine)
    qed
    show "bidle ?t j"
      if "j < NBUF" "b_dev (bufs ?t j) \<noteq> ROOTDEV \<or> b_blockno (bufs ?t j) \<notin> insert bn L" for j
    proof (cases "j = i")
      case True
      then show ?thesis using that(2) by (simp add: t)
    next
      case False
      then show ?thesis using that D(9) [OF that(1)] by (auto simp: t loaded_other free)
    qed
  qed
  moreover have "at_buf ?t j b" if "b \<in> L" "at_buf s j b" for j b
    using that notL by (cases "j = i") (auto simp: at_buf_def t loaded_other)
  moreover have "bframe s ?t" by (simp add: bframe_def sl_take_def)
  moreover have "b_data (bufs ?t i) = V bn" using D(4) by (simp add: t view_def)
  ultimately show ?thesis using i(3) at t by (intro exI [of _ i] exI [of _ ?t]) blast
qed

text \<open>Updates of one buffer that keep its identity and its links.\<close>

lemma buf_of_upd:
  "b_dev q = b_dev (B i) \<Longrightarrow> b_blockno q = b_blockno (B i) \<Longrightarrow> buf_of (B(i := q)) dev bn = buf_of B dev bn"
  unfolding buf_of_def by (rule arg_cong2 [of _ _ _ _ List.find]) (auto simp: fun_eq_iff)

lemma lru_upd: "b_next q = b_next (B i) \<Longrightarrow> b_prev q = b_prev (B i) \<Longrightarrow> lru (B(i := q)) xs = lru B xs"
  by (rule lru_cong) simp

text \<open>
  A locked buffer may change its data and its reference count, and the disk its block: the rest
  of the cache is not concerned.
\<close>

lemma bcache_update:
  assumes c: "bcache s p V P L" and at: "at_buf s i bn" and L: "bn \<in> L"
    and q: "b_dev q = b_dev (bufs s i)" "b_blockno q = b_blockno (bufs s i)" "b_valid q"
      "b_next q = b_next (bufs s i)" "b_prev q = b_prev (bufs s i)" "length (b_data q) = BSIZE" "0 < b_refcnt q"
    and d: "length (D bn) = BSIZE" "\<And>b. b \<noteq> bn \<Longrightarrow> D b = disk s b"
    and t: "bufs t = (bufs s)(i := q)" "disk t = D" "sleeplocks t = sleeplocks s" "procs t = procs s" "held t = held s"
      "myproc t = myproc s"
  shows "bcache t p (V(bn := b_data q)) (P(bn := b_refcnt q)) L"
proof -
  note C = bcacheD [OF c]
  have i: "i < NBUF" "b_dev (bufs s i) = ROOTDEV" "b_blockno (bufs s i) = bn" using at by (simp_all add: at_buf_def)
  have of: "buf_of (bufs t) dev b = buf_of (bufs s) dev b" for dev b
    using buf_of_upd [of q "bufs s" i dev b] q(1,2) t(1) by simp
  have ofi: "buf_of (bufs s) ROOTDEV bn = Some i" using at_buf_of [OF C(1) at] .
  have oth: "j \<noteq> i" if "buf_of (bufs s) ROOTDEV b = Some j" "b \<noteq> bn" for b j
    using that i buf_of_Some by metis
  obtain xs where xs: "lru (bufs s) xs" using binvD(1) [OF C(1)] by blast
  show ?thesis
  proof (rule bcacheI)
    show "binv (bufs t) (disk t)"
    proof (rule binvI)
      show "lru (bufs t) xs" using xs lru_upd [of q "bufs s" i xs] q(4,5) t(1) by simp
      show "length (disk t b) = BSIZE" for b using d binvD(2) [OF C(1), of b] t(2) by (cases "b = bn") simp_all
      show "j = k" if "j < NBUF" "k < NBUF" "b_dev (bufs t j) \<noteq> 0" "b_dev (bufs t j) = b_dev (bufs t k)"
        "b_blockno (bufs t j) = b_blockno (bufs t k)" for j k
      proof (rule binv_unique [OF C(1) that(1,2)])
        have eq: "b_dev (bufs t n) = b_dev (bufs s n)" "b_blockno (bufs t n) = b_blockno (bufs s n)" for n
          using q(1,2) t(1) by (cases "n = i"; simp)+
        show "b_dev (bufs s j) \<noteq> 0" "b_dev (bufs s j) = b_dev (bufs s k)" "b_blockno (bufs s j) = b_blockno (bufs s k)"
          using that(3-5) by (simp_all add: eq)
      qed
      show "length (b_data (bufs t j)) = BSIZE" if "j < NBUF" for j
        using binvD(3) [OF C(1) that] q(6) t(1) by (cases "j = i") simp_all
      show "0 \<le> b_refcnt (bufs t j)" if "j < NBUF" for j
        using binvD(4) [OF C(1) that] q(7) t(1) by (cases "j = i") simp_all
      show "b_data (bufs t j) = disk t (b_blockno (bufs t j))"
        if j: "j < NBUF" "b_refcnt (bufs t j) = 0" "b_valid (bufs t j)" "b_dev (bufs t j) \<noteq> 0" for j
      proof -
        have ne: "j \<noteq> i" using j(2) q(7) t(1) by auto
        then have s: "b_refcnt (bufs s j) = 0" "b_valid (bufs s j)" "b_dev (bufs s j) \<noteq> 0" using j t(1) by simp_all
        then have "b_dev (bufs s j) = ROOTDEV" using C(6) [OF j(1)] by blast
        then have "b_blockno (bufs s j) \<noteq> bn" using binv_unique [OF C(1) j(1) i(1)] i s(3) ne by auto
        then show ?thesis using binvD(5) [OF C(1) j(1) s] ne t(1,2) d(2) by simp
      qed
    qed
    show "myproc t = Some p" "bunlocked t" using C(2,3) t by (simp_all add: bunlocked_def no_proc_lock_def)
    show "V(bn := b_data q) = view t"
    proof
      fix b show "(V(bn := b_data q)) b = view t b"
        using C(4) of ofi q(3) t(1,2) d(2) oth
        by (cases "b = bn") (auto simp: view_def lblock_def split: option.split)
    qed
    show "P(bn := b_refcnt q) = pins t"
    proof
      fix b show "(P(bn := b_refcnt q)) b = pins t b"
        using C(5) of ofi t(1) oth by (cases "b = bn") (auto simp: bpins_def split: option.split)
    qed
    show "b_dev (bufs t j) = 0 \<and> b_refcnt (bufs t j) = 0" if "j < NBUF" "b_dev (bufs t j) \<noteq> ROOTDEV" for j
      using C(6) [OF that(1)] that(2) q(1) i(2) t(1) by (cases "j = i") simp_all
    show "0 < (P(bn := b_refcnt q)) b" if "b \<in> L" for b using C(7) [OF that] q(7) by simp
    show "b_valid (bufs t j) \<and> mine t p j" if "j < NBUF" "b_dev (bufs t j) = ROOTDEV" "b_blockno (bufs t j) \<in> L" for j
    proof (cases "j = i")
      case True
      then show ?thesis using C(8) [OF i(1,2)] i(3) L q(3) t by (simp add: mine_def)
    next
      case False
      then show ?thesis using C(8) [OF that(1)] that t by (simp add: mine_def)
    qed
    show "bidle t j" if "j < NBUF" "b_dev (bufs t j) \<noteq> ROOTDEV \<or> b_blockno (bufs t j) \<notin> L" for j
    proof -
      have "b_dev (bufs s j) \<noteq> ROOTDEV \<or> b_blockno (bufs s j) \<notin> L"
        using that(2) q(1,2) t(1) by (cases "j = i") simp_all
      then show ?thesis using C(9) [OF that(1)] t(3) by (simp add: bidle_def)
    qed
  qed
qed

lemma set_data_bcache:
  assumes c: "bcache s p V P L" and at: "at_buf s i bn" and L: "bn \<in> L" and d: "length d = BSIZE"
  shows "bcache (upd_buf i (\<lambda>q. q\<lparr>b_data := d\<rparr>) s) p (V(bn := d)) P L"
    and "at_buf s j b \<Longrightarrow> at_buf (upd_buf i (\<lambda>q. q\<lparr>b_data := d\<rparr>) s) j b"
proof -
  let ?q = "(bufs s i)\<lparr>b_data := d\<rparr>"
  have P: "b_refcnt (bufs s i) = P bn" using at_buf_pins [OF bcacheD(1) [OF c] at] bcacheD(5) [OF c] by simp
  have "bcache (upd_buf i (\<lambda>q. q\<lparr>b_data := d\<rparr>) s) p (V(bn := b_data ?q)) (P(bn := b_refcnt ?q)) L"
    by (rule bcache_update [OF c at L, where D = "disk s"])
       (use at d P bcacheD(7) [OF c L] binvD(2) [OF bcacheD(1) [OF c]] in \<open>simp_all add: at_buf_def upd_buf_def\<close>)
  moreover have "P(bn := P bn) = P" by simp
  ultimately show "bcache (upd_buf i (\<lambda>q. q\<lparr>b_data := d\<rparr>) s) p (V(bn := d)) P L" using P by simp
  show "at_buf s j b \<Longrightarrow> at_buf (upd_buf i (\<lambda>q. q\<lparr>b_data := d\<rparr>) s) j b"
    by (cases "j = i") (simp_all add: at_buf_def upd_buf_def)
qed

lemma bwrite_bcache:
  assumes c: "bcache s p V P L" and at: "at_buf s i bn" and L: "bn \<in> L"
  shows "\<exists>t. bwrite i s = Ret () t \<and> bcache t p V P L \<and> (\<forall>j b. at_buf s j b \<longrightarrow> at_buf t j b) \<and>
     disk t = (disk s)(bn := V bn) \<and> dhist t = (bn, V bn) # dhist s \<and> bufs t = bufs s \<and> bframe s t"
proof -
  note C = bcacheD [OF c]
  have i: "i < NBUF" "b_dev (bufs s i) = ROOTDEV" "b_blockno (bufs s i) = bn" "b_valid (bufs s i)"
    using at by (simp_all add: at_buf_def)
  have V: "b_data (bufs s i) = V bn" using at_buf_view [OF C(1) at] C(4) by simp
  have P: "b_refcnt (bufs s i) = P bn" using at_buf_pins [OF C(1) at] C(5) by simp
  let ?t = "s\<lparr>disk := (disk s)(bn := V bn), dhist := (bn, V bn) # dhist s\<rparr>"
  have "bwrite i s = Ret () ?t"
    using bwrite_Ret [OF C(2), of i] C(8) [OF i(1,2)] i(3) L bunlockedD [OF C(3)] V by (simp add: mine_def)
  moreover have "bcache ?t p (V(bn := b_data (bufs s i))) (P(bn := b_refcnt (bufs s i))) L"
    by (rule bcache_update [OF c at L, where D = "(disk s)(bn := V bn)"])
       (use i V P C(7) [OF L] bcache_view_length [OF c] in simp_all)
  moreover have "V(bn := V bn) = V" "P(bn := P bn) = P" by simp_all
  ultimately show ?thesis using V P by (intro exI [of _ ?t]) (simp add: at_buf_def bframe_def)
qed

lemma bpin_bcache:
  assumes c: "bcache s p V P L" and at: "at_buf s i bn" and L: "bn \<in> L" and n: "0 < P bn + n"
  shows "bcache (s\<lparr>bufs := (bufs s)(i := (bufs s i)\<lparr>b_refcnt := b_refcnt (bufs s i) + n\<rparr>)\<rparr>) p V (P(bn := P bn + n)) L"
proof -
  note C = bcacheD [OF c]
  let ?q = "(bufs s i)\<lparr>b_refcnt := b_refcnt (bufs s i) + n\<rparr>"
  have V: "b_data (bufs s i) = V bn" using at_buf_view [OF C(1) at] C(4) by simp
  have P: "b_refcnt (bufs s i) = P bn" using at_buf_pins [OF C(1) at] C(5) by simp
  have "bcache (s\<lparr>bufs := (bufs s)(i := ?q)\<rparr>) p (V(bn := b_data ?q)) (P(bn := b_refcnt ?q)) L"
    by (rule bcache_update [OF c at L, where D = "disk s"])
       (use at n P V bcache_view_length [OF c] binvD(2) [OF C(1)] in \<open>simp_all add: at_buf_def\<close>)
  moreover have "V(bn := V bn) = V" by simp
  ultimately show ?thesis using V P by simp
qed

lemma bpin_ops:
  assumes "BcacheLock \<notin> set (held s)"
  shows "bpin i s = Ret () (s\<lparr>bufs := (bufs s)(i := (bufs s i)\<lparr>b_refcnt := b_refcnt (bufs s i) + 1\<rparr>)\<rparr>)"
    and "bunpin i s = Ret () (s\<lparr>bufs := (bufs s)(i := (bufs s i)\<lparr>b_refcnt := b_refcnt (bufs s i) + -1\<rparr>)\<rparr>)"
  using assms by (simp_all add: bpin_def bunpin_def lock_simps upd_buf_def)

lemma bpins_payload: "(\<And>i. payload (B i) = payload (C i)) \<Longrightarrow> bpins B = bpins C"
  by (simp add: bpins_def buf_of_def payload_def fun_eq_iff split: option.split)

lemma bpins_unref:
  assumes "buf_of B ROOTDEV bn = Some i"
  shows "bpins (unref i B) = (bpins B)(bn := bpins B bn - 1)"
proof
  fix b
  have of: "buf_of (unref i B) ROOTDEV b = buf_of B ROOTDEV b"
    unfolding unref_def by (rule buf_of_upd) simp_all
  have "j \<noteq> i" if "buf_of B ROOTDEV b = Some j" "b \<noteq> bn" for j
    using that assms buf_of_Some by metis
  then show "bpins (unref i B) b = ((bpins B)(bn := bpins B bn - 1)) b"
    using of assms by (cases "b = bn") (auto simp: bpins_def unref_def split: option.split)
qed

lemma brelse_bcache:
  assumes c: "bcache s p V P L" and at: "at_buf s i bn" and L: "bn \<in> L" and cl: "P bn = 1 \<Longrightarrow> V bn = disk s bn"
  shows "\<exists>t. brelse i s = Ret () t \<and> bcache t p V (P(bn := P bn - 1)) (L - {bn}) \<and>
     (\<forall>j b. at_buf s j b \<longrightarrow> at_buf t j b) \<and> disk t = disk s \<and> dhist t = dhist s \<and> bframe s t"
proof -
  note C = bcacheD [OF c]
  have i: "i < NBUF" "b_dev (bufs s i) = ROOTDEV" "b_blockno (bufs s i) = bn" "b_valid (bufs s i)"
    using at by (simp_all add: at_buf_def)
  have my: "mine s p i" using C(8) [OF i(1,2)] i(3) L by simp
  have V: "b_data (bufs s i) = V bn" using at_buf_view [OF C(1) at] C(4) by simp
  have P: "b_refcnt (bufs s i) = P bn" using at_buf_pins [OF C(1) at] C(5) by simp
  let ?B = "released i (bufs s)" and ?d = "sl_drop (BufLock i) s"
  let ?t = "?d\<lparr>bufs := ?B\<rparr>"
  have run: "brelse i s = Ret () ?t" using brelse_Ret [OF C(2,3)] my by (simp add: mine_def)
  have t: "bufs ?t = ?B" "disk ?t = disk s" "dhist ?t = dhist s" "held ?t = held s" "myproc ?t = myproc s"
    by (simp_all add: sl_drop_def)
  have pay: "payload (?B j) = payload (unref i (bufs s) j)" for j by (rule released_payload)
  have eq: "b_valid (?B j) = b_valid (bufs s j)" "b_dev (?B j) = b_dev (bufs s j)"
    "b_blockno (?B j) = b_blockno (bufs s j)"
    "b_refcnt (?B j) = (if j = i then b_refcnt (bufs s i) - 1 else b_refcnt (bufs s j))" for j
    using payload_simps [OF pay [of j]] by (simp_all add: unref_def)
  have free: "bidle ?t j \<longleftrightarrow> j = i \<or> bidle s j" for j by (simp add: bidle_def sl_drop_def)
  have mine: "mine ?t p j \<longleftrightarrow> j \<noteq> i \<and> mine s p j" for j by (simp add: mine_def sl_drop_def)
  have "bcache ?t p V (P(bn := P bn - 1)) (L - {bn})"
  proof (rule bcacheI)
    show "binv (bufs ?t) (disk ?t)"
      using released_binv [OF C(1) i(1)] P C(7) [OF L] cl V i(3) by (simp add: t)
    show "myproc ?t = Some p" unfolding t(5) by (rule C(2))
    show "bunlocked ?t" using C(3) by (simp add: t bunlocked_def no_proc_lock_def)
    show "V = view ?t" using C(4) by (simp add: view_def fun_eq_iff t released_lblock)
    have "pins ?t = bpins (unref i (bufs s))" unfolding t by (rule bpins_payload) (rule pay)
    then show "P(bn := P bn - 1) = pins ?t" using bpins_unref [OF at_buf_of [OF C(1) at]] C(5) by simp
    show "b_dev (bufs ?t j) = 0 \<and> b_refcnt (bufs ?t j) = 0" if "j < NBUF" "b_dev (bufs ?t j) \<noteq> ROOTDEV" for j
      using C(6) [OF that(1)] that(2) i(2) by (cases "j = i") (simp_all add: t eq)
    show "0 < (P(bn := P bn - 1)) b" if "b \<in> L - {bn}" for b using C(7) [of b] that by auto
    show "b_valid (bufs ?t j) \<and> mine ?t p j"
      if "j < NBUF" "b_dev (bufs ?t j) = ROOTDEV" "b_blockno (bufs ?t j) \<in> L - {bn}" for j
      using C(8) [OF that(1)] that(2,3) i(3) by (cases "j = i") (simp_all add: t eq mine)
    show "bidle ?t j" if "j < NBUF" "b_dev (bufs ?t j) \<noteq> ROOTDEV \<or> b_blockno (bufs ?t j) \<notin> L - {bn}" for j
    proof (cases "j = i")
      case True
      then show ?thesis by (simp add: free)
    next
      case False
      then have "\<not> (b_dev (bufs s j) = ROOTDEV \<and> b_blockno (bufs s j) = bn)"
        using binv_unique [OF C(1) that(1) i(1)] i by auto
      then have "b_dev (bufs s j) \<noteq> ROOTDEV \<or> b_blockno (bufs s j) \<notin> L" using that(2) by (auto simp: t eq)
      then show ?thesis using C(9) [OF that(1)] by (simp add: free)
    qed
  qed
  moreover have "at_buf s j b \<longrightarrow> at_buf ?t j b" for j b by (simp add: at_buf_def t eq)
  moreover have "bframe s ?t" by (auto simp: bframe_def sl_drop_def woken_def)
  ultimately show ?thesis using run t by blast
qed

lemma bframe_refl [simp]: "bframe s s"
  by (simp add: bframe_def)

lemma bframe_trans:
  assumes "bframe s t" and "bframe t u"
  shows "bframe s u"
proof -
  have t: "t = s\<lparr>procs := procs t, sleeplocks := sleeplocks t, bufs := bufs t, disk := disk t, dhist := dhist t\<rparr>"
    and u: "u = t\<lparr>procs := procs u, sleeplocks := sleeplocks u, bufs := bufs u, disk := disk u, dhist := dhist u\<rparr>"
    using assms by (auto simp: bframe_def)
  have "u = s\<lparr>procs := procs u, sleeplocks := sleeplocks u, bufs := bufs u, disk := disk u, dhist := dhist u\<rparr>"
    by (subst u, subst t) simp
  moreover have "procs u i = (procs s i)\<lparr>pstate := pstate (procs u i)\<rparr>" for i
  proof -
    have 1: "procs t i = (procs s i)\<lparr>pstate := pstate (procs t i)\<rparr>"
      and 2: "procs u i = (procs t i)\<lparr>pstate := pstate (procs u i)\<rparr>" using assms by (auto simp: bframe_def)
    show ?thesis by (subst 2, subst 1) simp
  qed
  moreover have "pstate (procs u i) = pstate (procs s i) \<or> pstate (procs s i) = SLEEPING \<and> pstate (procs u i) = RUNNABLE" for i
  proof -
    have "pstate (procs t i) = pstate (procs s i) \<or> pstate (procs s i) = SLEEPING \<and> pstate (procs t i) = RUNNABLE"
      "pstate (procs u i) = pstate (procs t i) \<or> pstate (procs t i) = SLEEPING \<and> pstate (procs u i) = RUNNABLE"
      using assms by (auto simp: bframe_def)
    then show ?thesis by auto
  qed
  ultimately show ?thesis using assms unfolding bframe_def by metis
qed

lemma bframe_bufs: "bframe s (s\<lparr>bufs := B\<rparr>)"
  by (simp add: bframe_def)

lemma bpin_bcache_Ret:
  assumes c: "bcache s p V P L" and at: "at_buf s i bn" and L: "bn \<in> L"
  shows "\<exists>t. bpin i s = Ret () t \<and> bcache t p V (P(bn := P bn + 1)) L \<and> (\<forall>j b. at_buf s j b \<longrightarrow> at_buf t j b) \<and>
        disk t = disk s \<and> dhist t = dhist s \<and> bframe s t"
proof -
  have "0 < P bn + 1" using bcacheD(7) [OF c L] by simp
  note b = bpin_bcache [OF c at L this]
  have "BcacheLock \<notin> set (held s)" using bunlockedD bcacheD(3) [OF c] by blast
  note r = bpin_ops(1) [OF this, of i]
  show ?thesis
    by (intro exI conjI, rule r, rule b) (simp_all add: bframe_bufs, simp add: at_buf_def)
qed

lemma bunpin_bcache_Ret:
  assumes c: "bcache s p V P L" and at: "at_buf s i bn" and L: "bn \<in> L" and n: "1 < P bn"
  shows "\<exists>t. bunpin i s = Ret () t \<and> bcache t p V (P(bn := P bn - 1)) L \<and> (\<forall>j b. at_buf s j b \<longrightarrow> at_buf t j b) \<and>
        disk t = disk s \<and> dhist t = dhist s \<and> bframe s t"
proof -
  have "0 < P bn + -1" using n by simp
  note b = bpin_bcache [OF c at L this]
  have b': "bcache (s\<lparr>bufs := (bufs s)(i := (bufs s i)\<lparr>b_refcnt := b_refcnt (bufs s i) + -1\<rparr>)\<rparr>) p V (P(bn := P bn - 1)) L"
    using b by (simp only: diff_conv_add_uminus)
  have "BcacheLock \<notin> set (held s)" using bunlockedD bcacheD(3) [OF c] by blast
  note r = bpin_ops(2) [OF this, of i]
  show ?thesis
    by (intro exI conjI, rule r, rule b') (simp_all add: bframe_bufs, simp add: at_buf_def)
qed

section \<open>The contract\<close>

definition set_data :: "nat \<Rightarrow> block \<Rightarrow> 'z bstate_scheme \<Rightarrow> 'z bstate_scheme" where
  "set_data i d s = upd_buf i (\<lambda>q. q\<lparr>b_data := d\<rparr>) s"

text \<open>
  What the log and the file system may rely on: reading locks a block and gives its contents,
  storing into a locked buffer changes what the block holds, writing makes it the disk's, and
  releasing changes nothing, provided an unpinned block is clean.
\<close>

locale block_cache =
  fixes rd :: "uint \<Rightarrow> 's \<Rightarrow> (nat, 's) res"
    and wr :: "nat \<Rightarrow> 's \<Rightarrow> (unit, 's) res"
    and rel :: "nat \<Rightarrow> 's \<Rightarrow> (unit, 's) res"
    and pin :: "nat \<Rightarrow> 's \<Rightarrow> (unit, 's) res"
    and unpin :: "nat \<Rightarrow> 's \<Rightarrow> (unit, 's) res"
    and put :: "nat \<Rightarrow> block \<Rightarrow> 's \<Rightarrow> 's"
    and cache :: "'s \<Rightarrow> nat \<Rightarrow> (uint \<Rightarrow> block) \<Rightarrow> (uint \<Rightarrow> int) \<Rightarrow> uint set \<Rightarrow> bool"
    and atb :: "'s \<Rightarrow> nat \<Rightarrow> uint \<Rightarrow> bool"
    and dat :: "'s \<Rightarrow> nat \<Rightarrow> block"
    and dsk :: "'s \<Rightarrow> uint \<Rightarrow> block"
    and hist :: "'s \<Rightarrow> (uint \<times> block) list"
    and fr :: "'s \<Rightarrow> 's \<Rightarrow> bool"
  assumes rd_law: "cache s p V P L \<Longrightarrow> bn \<notin> L \<Longrightarrow> (P bn = 0 \<Longrightarrow> card {b. 0 < P b} < NBUF) \<Longrightarrow>
      \<exists>i t. rd bn s = Ret i t \<and> cache t p V (P(bn := P bn + 1)) (insert bn L) \<and> atb t i bn \<and> dat t i = V bn \<and>
        (\<forall>j b. b \<in> L \<longrightarrow> atb s j b \<longrightarrow> atb t j b) \<and> dsk t = dsk s \<and> hist t = hist s \<and> fr s t"
    and wr_law: "cache s p V P L \<Longrightarrow> atb s i bn \<Longrightarrow> bn \<in> L \<Longrightarrow>
      \<exists>t. wr i s = Ret () t \<and> cache t p V P L \<and> (\<forall>j b. atb s j b \<longrightarrow> atb t j b) \<and>
        dsk t = (dsk s)(bn := V bn) \<and> hist t = (bn, V bn) # hist s \<and> fr s t"
    and rel_law: "cache s p V P L \<Longrightarrow> atb s i bn \<Longrightarrow> bn \<in> L \<Longrightarrow> (P bn = 1 \<Longrightarrow> V bn = dsk s bn) \<Longrightarrow>
      \<exists>t. rel i s = Ret () t \<and> cache t p V (P(bn := P bn - 1)) (L - {bn}) \<and>
        (\<forall>j b. atb s j b \<longrightarrow> atb t j b) \<and> dsk t = dsk s \<and> hist t = hist s \<and> fr s t"
    and put_law: "cache s p V P L \<Longrightarrow> atb s i bn \<Longrightarrow> bn \<in> L \<Longrightarrow> length d = BSIZE \<Longrightarrow>
      cache (put i d s) p (V(bn := d)) P L \<and> (\<forall>j b. atb s j b \<longrightarrow> atb (put i d s) j b) \<and>
        dsk (put i d s) = dsk s \<and> hist (put i d s) = hist s \<and> fr s (put i d s)"
    and pin_law: "cache s p V P L \<Longrightarrow> atb s i bn \<Longrightarrow> bn \<in> L \<Longrightarrow>
      \<exists>t. pin i s = Ret () t \<and> cache t p V (P(bn := P bn + 1)) L \<and> (\<forall>j b. atb s j b \<longrightarrow> atb t j b) \<and>
        dsk t = dsk s \<and> hist t = hist s \<and> fr s t"
    and unpin_law: "cache s p V P L \<Longrightarrow> atb s i bn \<Longrightarrow> bn \<in> L \<Longrightarrow> 1 < P bn \<Longrightarrow>
      \<exists>t. unpin i s = Ret () t \<and> cache t p V (P(bn := P bn - 1)) L \<and> (\<forall>j b. atb s j b \<longrightarrow> atb t j b) \<and>
        dsk t = dsk s \<and> hist t = hist s \<and> fr s t"
    and clean_law: "cache s p V P L \<Longrightarrow> P bn = 0 \<Longrightarrow> V bn = dsk s bn"
    and dat_law: "cache s p V P L \<Longrightarrow> atb s i bn \<Longrightarrow> bn \<in> L \<Longrightarrow> dat s i = V bn"
    and len_law: "cache s p V P L \<Longrightarrow> length (V bn) = BSIZE"
    and fr_law: "fr s s" "fr s t \<Longrightarrow> fr t u \<Longrightarrow> fr s u"
begin

lemma read_block:
  assumes "cache s p V P L" and "bn \<notin> L" and "P bn = 0 \<Longrightarrow> card {b. 0 < P b} < NBUF"
  shows "returns (res_bind (rd bn s) (\<lambda>i s. let d = dat s i in res_bind (rel i s) (\<lambda>_ s. Ret (f d) s)))
     (\<lambda>r t. r = f (V bn) \<and> cache t p V P L \<and> dsk t = dsk s \<and> hist t = hist s \<and> fr s t)"
proof -
  obtain i t where t: "rd bn s = Ret i t" "cache t p V (P(bn := P bn + 1)) (insert bn L)" "atb t i bn"
    "dat t i = V bn" "dsk t = dsk s" "hist t = hist s" "fr s t"
    using rd_law [OF assms] by blast
  have cl: "(P(bn := P bn + 1)) bn = 1 \<Longrightarrow> V bn = dsk t bn" using clean_law [OF assms(1), of bn] t(5) by simp
  obtain u where u: "rel i t = Ret () u"
    "cache u p V ((P(bn := P bn + 1))(bn := (P(bn := P bn + 1)) bn - 1)) (insert bn L - {bn})"
    "dsk u = dsk t" "hist u = hist t" "fr t u"
    using rel_law [OF t(2,3) insertI1 cl] by auto
  moreover have "(P(bn := P bn + 1))(bn := (P(bn := P bn + 1)) bn - 1) = P" by auto
  moreover have "insert bn L - {bn} = L" using assms(2) by auto
  ultimately show ?thesis using t fr_law(2) by (simp add: Let_def)
qed

text \<open>Copy the contents of block \<open>b\<close> to block \<open>a\<close> and write it, as the log does.\<close>

lemma copy_block:
  assumes c: "cache s p V P {}" and ne: "a \<noteq> b" and room0: "card {x. 0 < P x} < NBUF"
    and room: "P b = 0 \<Longrightarrow> card {x. 0 < P x} < NBUF - 1" and rdb: "\<And>t. fr s t \<Longrightarrow> rdb t = rd b t"
  shows "returns (res_bind (rd a s) (\<lambda>i s. res_bind (rdb s) (\<lambda>j s. let s = put i (dat s j) s in
       res_bind (wr i s) (\<lambda>_ s. res_bind (rel j s) (\<lambda>_ s. rel i s)))))
     (\<lambda>_ t. cache t p (V(a := V b)) P {} \<and> dsk t = (dsk s)(a := V b) \<and> hist t = (a, V b) # hist s \<and> fr s t)"
proof -
  obtain i t where t: "rd a s = Ret i t" "cache t p V (P(a := P a + 1)) {a}" "atb t i a"
    "dsk t = dsk s" "hist t = hist s" "fr s t"
    using rd_law [OF c, of a] room0 by auto
  have "{x. 0 < (P(a := P a + 1)) x} \<subseteq> insert a {x. 0 < P x}" by auto
  then have "card {x. 0 < (P(a := P a + 1)) x} \<le> card (insert a {x. 0 < P x})" by (intro card_mono) auto
  also have "\<dots> \<le> Suc (card {x. 0 < P x})" by (simp add: card_insert_if)
  finally have room': "P b = 0 \<Longrightarrow> card {x. 0 < (P(a := P a + 1)) x} < NBUF" using room by simp
  let ?P2 = "(P(a := P a + 1))(b := P b + 1)"
  have "b \<notin> {a}" using ne by simp
  moreover have "(P(a := P a + 1)) b = 0 \<Longrightarrow> card {x. 0 < (P(a := P a + 1)) x} < NBUF" using room' ne by simp
  ultimately obtain j u where u: "rd b t = Ret j u"
    "cache u p V ((P(a := P a + 1))(b := (P(a := P a + 1)) b + 1)) (insert b {a})" "atb u j b" "dat u j = V b"
    "\<forall>j b. b \<in> {a} \<longrightarrow> atb t j b \<longrightarrow> atb u j b" "dsk u = dsk t" "hist u = hist t" "fr t u"
    using rd_law [OF t(2)] by blast
  have uc: "cache u p V ?P2 {b, a}" using u(2) ne by simp
  have ua: "atb u i a" and fru: "fr s u" using u(5,8) t(3,6) fr_law(2) by blast+
  let ?v = "put i (V b) u" and ?V = "V(a := V b)"
  have "a \<in> {b, a}" by simp
  note pl = put_law [OF uc ua this len_law [OF c, of b]]
  have v: "cache ?v p ?V ?P2 {b, a}" "atb ?v j b" "atb ?v i a" "dsk ?v = dsk s" "hist ?v = hist s"
    using pl u(3,6,7) ua t(4,5) by simp_all
  have frv: "fr s ?v" using pl fru fr_law(2) by blast
  from wr_law [OF v(1,3)] obtain w where w: "wr i ?v = Ret () w" "cache w p ?V ?P2 {b, a}"
    "\<forall>j b. atb ?v j b \<longrightarrow> atb w j b" "dsk w = (dsk ?v)(a := ?V a)" "hist w = (a, ?V a) # hist ?v" "fr ?v w"
    using insertI1 by blast
  have wat: "atb w j b" "atb w i a" and frw: "fr s w" using w(3,6) v(2,3) frv fr_law(2) by blast+
  have wd: "dsk w = (dsk s)(a := V b)" "hist w = (a, V b) # hist s" using w(4,5) v(4,5) by simp_all
  have cb: "?P2 b = 1 \<Longrightarrow> ?V b = dsk w b" using clean_law [OF c, of b] wd(1) ne by simp
  have "b \<in> {b, a}" by simp
  from rel_law [OF w(2) wat(1) this cb] obtain x where x: "rel j w = Ret () x"
    "cache x p ?V (?P2(b := ?P2 b - 1)) ({b, a} - {b})" "\<forall>j b. atb w j b \<longrightarrow> atb x j b" "dsk x = dsk w"
    "hist x = hist w" "fr w x" by blast
  let ?P3 = "?P2(b := ?P2 b - 1)"
  have ca: "?P3 a = 1 \<Longrightarrow> ?V a = dsk x a" using wd(1) x(4) by simp
  have xat: "atb x i a" and frx: "fr s x" using x(3,6) wat(2) frw fr_law(2) by blast+
  have "a \<in> {b, a} - {b}" using ne by simp
  from rel_law [OF x(2) xat this ca] obtain y where y: "rel i x = Ret () y"
    "cache y p ?V (?P3(a := ?P3 a - 1)) ({b, a} - {b} - {a})" "dsk y = dsk x" "hist y = hist x" "fr x y" by blast
  have fry: "fr s y" using frx y(5) fr_law(2) by blast
  have "?P3(a := ?P3 a - 1) = P" using ne by auto
  moreover have "{b, a} - {b} - {a} = {}" by auto
  ultimately have "cache y p ?V P {}" using y(2) by (simp only:)
  then show ?thesis using t(1) rdb [OF t(6)] u(1,4) w(1) wd x(1,4,5) y(1,3,4) fry by (simp add: Let_def)
qed

text \<open>Copy the contents of block \<open>a\<close> to block \<open>b\<close>, write it and take a pin off it, as the
  installation of a transaction does.\<close>

lemma install_block:
  assumes c: "cache s p V P {}" and ne: "a \<noteq> b" and room0: "card {x. 0 < P x} < NBUF"
    and room: "P b = 0 \<Longrightarrow> card {x. 0 < P x} < NBUF - 1" and rdb: "\<And>t. fr s t \<Longrightarrow> rdb t = rd b t"
    and pins: "k = (if rec then 0 else 1)" "k \<le> P b"
  shows "returns (res_bind (rd a s) (\<lambda>i s. res_bind (rdb s) (\<lambda>j s. let s = put j (dat s i) s in
       res_bind (wr j s) (\<lambda>_ s. res_bind (if rec then Ret () s else unpin j s) (\<lambda>_ s.
       res_bind (rel i s) (\<lambda>_ s. rel j s))))))
     (\<lambda>_ t. cache t p (V(b := V a)) (P(b := P b - k)) {} \<and> dsk t = (dsk s)(b := V a) \<and>
        hist t = (b, V a) # hist s \<and> fr s t)"
proof -
  obtain i t where t: "rd a s = Ret i t" "cache t p V (P(a := P a + 1)) {a}" "atb t i a" "dat t i = V a"
    "dsk t = dsk s" "hist t = hist s" "fr s t"
    using rd_law [OF c, of a] room0 by auto
  have "{x. 0 < (P(a := P a + 1)) x} \<subseteq> insert a {x. 0 < P x}" by auto
  then have "card {x. 0 < (P(a := P a + 1)) x} \<le> card (insert a {x. 0 < P x})" by (intro card_mono) auto
  also have "\<dots> \<le> Suc (card {x. 0 < P x})" by (simp add: card_insert_if)
  finally have room': "P b = 0 \<Longrightarrow> card {x. 0 < (P(a := P a + 1)) x} < NBUF" using room by simp
  let ?P2 = "(P(a := P a + 1))(b := P b + 1)"
  have "b \<notin> {a}" using ne by simp
  moreover have "(P(a := P a + 1)) b = 0 \<Longrightarrow> card {x. 0 < (P(a := P a + 1)) x} < NBUF" using room' ne by simp
  ultimately obtain j u where u: "rd b t = Ret j u"
    "cache u p V ((P(a := P a + 1))(b := (P(a := P a + 1)) b + 1)) (insert b {a})" "atb u j b"
    "\<forall>j b. b \<in> {a} \<longrightarrow> atb t j b \<longrightarrow> atb u j b" "dsk u = dsk t" "hist u = hist t" "fr t u"
    using rd_law [OF t(2)] by blast
  have uc: "cache u p V ?P2 {b, a}" using u(2) ne by simp
  have ua: "atb u i a" and fru: "fr s u" using u(4,7) t(3,7) fr_law(2) by blast+
  have ud: "dat u i = V a" by (rule dat_law [OF uc ua]) simp
  let ?v = "put j (V a) u" and ?V = "V(b := V a)"
  have "b \<in> {b, a}" by simp
  note pl = put_law [OF uc u(3) this len_law [OF c, of a]]
  have v: "cache ?v p ?V ?P2 {b, a}" "atb ?v j b" "atb ?v i a" "dsk ?v = dsk s" "hist ?v = hist s"
    using pl u(3,5,6) ua t(5,6) by simp_all
  have frv: "fr s ?v" using pl fru fr_law(2) by blast
  from wr_law [OF v(1,2)] obtain w where w: "wr j ?v = Ret () w" "cache w p ?V ?P2 {b, a}"
    "\<forall>j b. atb ?v j b \<longrightarrow> atb w j b" "dsk w = (dsk ?v)(b := ?V b)" "hist w = (b, ?V b) # hist ?v" "fr ?v w"
    using insertI1 by blast
  have wat: "atb w j b" "atb w i a" and frw: "fr s w" using w(3,6) v(2,3) frv fr_law(2) by blast+
  have wd: "dsk w = (dsk s)(b := V a)" "hist w = (b, V a) # hist s" using w(4,5) v(4,5) by simp_all
  let ?P3 = "(P(a := P a + 1))(b := P b + 1 - k)"
  have "\<exists>z. (if rec then Ret () w else unpin j w) = Ret () z \<and> cache z p ?V ?P3 {b, a} \<and> atb z j b \<and> atb z i a \<and>
      dsk z = dsk w \<and> hist z = hist w \<and> fr s z"
  proof (cases "rec")
    case True
    then show ?thesis using w(2) wat frw pins(1) by simp
  next
    case False
    then have "1 < ?P2 b" using pins by simp
    from unpin_law [OF w(2) wat(1) insertI1 this] obtain z where z: "unpin j w = Ret () z"
      "cache z p ?V (?P2(b := ?P2 b - 1)) {b, a}" "\<forall>j b. atb w j b \<longrightarrow> atb z j b" "dsk z = dsk w" "hist z = hist w" "fr w z"
      by blast
    have "?P2(b := ?P2 b - 1) = ?P3" using False pins(1) by simp
    then have "cache z p ?V ?P3 {b, a}" using z(2) by (simp only:)
    moreover have "atb z j b" "atb z i a" "fr s z" using z(3,6) wat frw fr_law(2) by blast+
    ultimately show ?thesis using z(1,4,5) False by simp
  qed
  then obtain z where z: "(if rec then Ret () w else unpin j w) = Ret () z" "cache z p ?V ?P3 {b, a}" "atb z j b"
    "atb z i a" "dsk z = dsk w" "hist z = hist w" "fr s z" by blast
  have ca: "?P3 a = 1 \<Longrightarrow> ?V a = dsk z a" using clean_law [OF c, of a] wd(1) z(5) ne by simp
  have "a \<in> {b, a}" by simp
  from rel_law [OF z(2,4) this ca] obtain x where x: "rel i z = Ret () x"
    "cache x p ?V (?P3(a := ?P3 a - 1)) ({b, a} - {a})" "\<forall>j b. atb z j b \<longrightarrow> atb x j b" "dsk x = dsk z"
    "hist x = hist z" "fr z x" by blast
  let ?P4 = "?P3(a := ?P3 a - 1)"
  have cb: "?P4 b = 1 \<Longrightarrow> ?V b = dsk x b" using wd(1) z(5) x(4) by simp
  have xat: "atb x j b" and frx: "fr s x" using x(3,6) z(3,7) fr_law(2) by blast+
  have "b \<in> {b, a} - {a}" using ne by simp
  from rel_law [OF x(2) xat this cb] obtain y where y: "rel j x = Ret () y"
    "cache y p ?V (?P4(b := ?P4 b - 1)) ({b, a} - {a} - {b})" "dsk y = dsk x" "hist y = hist x" "fr x y" by blast
  have fry: "fr s y" using frx y(5) fr_law(2) by blast
  have "?P4(b := ?P4 b - 1) = P(b := P b - k)" using ne by auto
  moreover have "{b, a} - {a} - {b} = {}" by auto
  ultimately have "cache y p ?V (P(b := P b - k)) {}" using y(2) by (simp only:)
  then show ?thesis
    using t(1) rdb [OF t(7)] u(1) ud w(1) wd z(1,5,6) x(1,4,5) y(1,3,4) fry by (cases "rec") (simp_all add: Let_def)
qed

end

interpretation bc: block_cache "bread ROOTDEV" bwrite brelse bpin bunpin set_data bcache at_buf
    "\<lambda>s i. b_data (bufs s i)" disk dhist bframe
proof unfold_locales
  fix s t u :: "'a bstate_scheme" and p V P L bn i d
  show "bcache s p V P L \<Longrightarrow> bn \<notin> L \<Longrightarrow> (P bn = 0 \<Longrightarrow> card {b. 0 < P b} < NBUF) \<Longrightarrow>
      \<exists>i t. bread ROOTDEV bn s = Ret i t \<and> bcache t p V (P(bn := P bn + 1)) (insert bn L) \<and> at_buf t i bn \<and>
        b_data (bufs t i) = V bn \<and> (\<forall>j b. b \<in> L \<longrightarrow> at_buf s j b \<longrightarrow> at_buf t j b) \<and>
        disk t = disk s \<and> dhist t = dhist s \<and> bframe s t"
    by (rule bread_bcache)
  show "bcache s p V P L \<Longrightarrow> at_buf s i bn \<Longrightarrow> bn \<in> L \<Longrightarrow>
      \<exists>t. bwrite i s = Ret () t \<and> bcache t p V P L \<and> (\<forall>j b. at_buf s j b \<longrightarrow> at_buf t j b) \<and>
        disk t = (disk s)(bn := V bn) \<and> dhist t = (bn, V bn) # dhist s \<and> bframe s t"
    using bwrite_bcache by blast
  show "bcache s p V P L \<Longrightarrow> at_buf s i bn \<Longrightarrow> bn \<in> L \<Longrightarrow> (P bn = 1 \<Longrightarrow> V bn = disk s bn) \<Longrightarrow>
      \<exists>t. brelse i s = Ret () t \<and> bcache t p V (P(bn := P bn - 1)) (L - {bn}) \<and>
        (\<forall>j b. at_buf s j b \<longrightarrow> at_buf t j b) \<and> disk t = disk s \<and> dhist t = dhist s \<and> bframe s t"
    by (rule brelse_bcache)
  show "bcache s p V P L \<Longrightarrow> at_buf s i bn \<Longrightarrow> bn \<in> L \<Longrightarrow> length d = BSIZE \<Longrightarrow>
      bcache (set_data i d s) p (V(bn := d)) P L \<and> (\<forall>j b. at_buf s j b \<longrightarrow> at_buf (set_data i d s) j b) \<and>
        disk (set_data i d s) = disk s \<and> dhist (set_data i d s) = dhist s \<and> bframe s (set_data i d s)"
    using set_data_bcache [of s p V P L i bn d] by (simp add: set_data_def) (simp add: upd_buf_def bframe_def)
  show "bcache s p V P L \<Longrightarrow> at_buf s i bn \<Longrightarrow> bn \<in> L \<Longrightarrow>
      \<exists>t. bpin i s = Ret () t \<and> bcache t p V (P(bn := P bn + 1)) L \<and> (\<forall>j b. at_buf s j b \<longrightarrow> at_buf t j b) \<and>
        disk t = disk s \<and> dhist t = dhist s \<and> bframe s t"
    by (rule bpin_bcache_Ret)
  show "bcache s p V P L \<Longrightarrow> at_buf s i bn \<Longrightarrow> bn \<in> L \<Longrightarrow> 1 < P bn \<Longrightarrow>
      \<exists>t. bunpin i s = Ret () t \<and> bcache t p V (P(bn := P bn - 1)) L \<and> (\<forall>j b. at_buf s j b \<longrightarrow> at_buf t j b) \<and>
        disk t = disk s \<and> dhist t = dhist s \<and> bframe s t"
    by (rule bunpin_bcache_Ret)
  show "bcache s p V P L \<Longrightarrow> P bn = 0 \<Longrightarrow> V bn = disk s bn" by (rule bcache_clean)
  show "bcache s p V P L \<Longrightarrow> at_buf s i bn \<Longrightarrow> bn \<in> L \<Longrightarrow> b_data (bufs s i) = V bn"
    using at_buf_view bcacheD(1,4) by metis
  show "bcache s p V P L \<Longrightarrow> length (V bn) = BSIZE" by (rule bcache_view_length)
  show "bframe s s" by simp
  show "bframe s t \<Longrightarrow> bframe t u \<Longrightarrow> bframe s u" by (rule bframe_trans)
qed

end
