(* ===== verification/Bytes.thy ===== *)
theory Bytes
  imports Prelude
begin

text \<open>
  C structures inside disk blocks: reading and writing little-endian fields of a byte list at an
  offset, with the round trips the log header, the inodes and the directory entries use.
\<close>

definition get16 :: "uchar list \<Rightarrow> nat \<Rightarrow> ushort" where
  "get16 d off = le_word (take 2 (drop off d))"

definition get32 :: "uchar list \<Rightarrow> nat \<Rightarrow> uint" where
  "get32 d off = le_word (take 4 (drop off d))"

definition put_bytes :: "uchar list \<Rightarrow> nat \<Rightarrow> uchar list \<Rightarrow> uchar list" where
  "put_bytes d off bs = take off d @ bs @ drop (off + length bs) d"

definition put16 :: "uchar list \<Rightarrow> nat \<Rightarrow> ushort \<Rightarrow> uchar list" where
  "put16 d off w = put_bytes d off (le_bytes 2 w)"

definition put32 :: "uchar list \<Rightarrow> nat \<Rightarrow> uint \<Rightarrow> uchar list" where
  "put32 d off w = put_bytes d off (le_bytes 4 w)"

lemma length_put_bytes [enc_simps]:
  "off + length bs \<le> length d \<Longrightarrow> length (put_bytes d off bs) = length d"
  by (simp add: put_bytes_def)

lemma length_put [enc_simps]:
  "off + 4 \<le> length d \<Longrightarrow> length (put32 d off w) = length d"
  "off + 2 \<le> length d \<Longrightarrow> length (put16 d off v) = length d"
  by (simp_all add: put32_def put16_def length_put_bytes)

text \<open>A field is read back as written, and fields that do not overlap it are not disturbed.\<close>

lemma take_drop_put_same:
  "off + length bs \<le> length d \<Longrightarrow> take (length bs) (drop off (put_bytes d off bs)) = bs"
  by (simp add: put_bytes_def)

lemma take_drop_put_other:
  assumes "off + length bs \<le> length d" and "o' + n \<le> off \<or> off + length bs \<le> o'"
  shows "take n (drop o' (put_bytes d off bs)) = take n (drop o' d)"
proof (rule nth_equalityI)
  show "length (take n (drop o' (put_bytes d off bs))) = length (take n (drop o' d))"
    using assms by (simp add: length_put_bytes)
  fix i assume "i < length (take n (drop o' (put_bytes d off bs)))"
  then have i: "i < n" "o' + i < length d" using assms by (auto simp: length_put_bytes)
  then show "take n (drop o' (put_bytes d off bs)) ! i = take n (drop o' d) ! i"
    using assms by (auto simp: put_bytes_def nth_append)
qed

lemma get32_put32 [enc_simps]:
  "off + 4 \<le> length d \<Longrightarrow> get32 (put32 d off w) off = w"
  using take_drop_put_same [of off "le_bytes 4 w" d]
  by (simp add: get32_def put32_def le_word_le_bytes)

lemma get16_put16 [enc_simps]:
  "off + 2 \<le> length d \<Longrightarrow> get16 (put16 d off w) off = w"
  using take_drop_put_same [of off "le_bytes 2 w" d]
  by (simp add: get16_def put16_def le_word_le_bytes)

lemma get32_put_bytes_other:
  "off + length bs \<le> length d \<Longrightarrow> o' + 4 \<le> off \<or> off + length bs \<le> o' \<Longrightarrow>
    get32 (put_bytes d off bs) o' = get32 d o'"
  by (simp add: get32_def take_drop_put_other)

lemma get16_put_bytes_other:
  "off + length bs \<le> length d \<Longrightarrow> o' + 2 \<le> off \<or> off + length bs \<le> o' \<Longrightarrow>
    get16 (put_bytes d off bs) o' = get16 d o'"
  by (simp add: get16_def take_drop_put_other)

lemma get_put_other:
  "off + 4 \<le> length d \<Longrightarrow> o' + 4 \<le> off \<or> off + 4 \<le> o' \<Longrightarrow> get32 (put32 d off w) o' = get32 d o'"
  "off + 4 \<le> length d \<Longrightarrow> o' + 2 \<le> off \<or> off + 4 \<le> o' \<Longrightarrow> get16 (put32 d off w) o' = get16 d o'"
  "off + 2 \<le> length d \<Longrightarrow> o' + 4 \<le> off \<or> off + 2 \<le> o' \<Longrightarrow> get32 (put16 d off v) o' = get32 d o'"
  "off + 2 \<le> length d \<Longrightarrow> o' + 2 \<le> off \<or> off + 2 \<le> o' \<Longrightarrow> get16 (put16 d off v) o' = get16 d o'"
  by (simp_all add: put32_def put16_def get32_put_bytes_other get16_put_bytes_other)

end
