(* ===== verification/Log.thy ===== *)
theory Log
  imports Block_Cache Bytes
begin

text \<open>
  \<^verbatim>\<open>kernel/log.c\<close>: the redo log that makes file-system transactions atomic. The routines follow the
  source; an index outside \<^verbatim>\<open>log.lh.block[LOGSIZE]\<close> is \<open>Fault\<close>.
\<close>

section \<open>State\<close>

record logst =
  lg_start :: uint
  lg_size :: int
  lg_outstanding :: int
  lg_committing :: bool
  lg_dev :: uint
  lh_n :: int
  lh_block :: "uint list"

record lgstate = bstate +
  lg :: logst

definition upd_lg :: "(logst \<Rightarrow> logst) \<Rightarrow> 'z lgstate_scheme \<Rightarrow> 'z lgstate_scheme" where
  "upd_lg f s = s\<lparr>lg := f (lg s)\<rparr>"

text \<open>The byte layout of \<^verbatim>\<open>struct logheader\<close> in its block.\<close>

definition head_n :: "block \<Rightarrow> int" where
  "head_n d = sint (get32 d 0)"

definition head_block :: "block \<Rightarrow> nat \<Rightarrow> uint" where
  "head_block d i = get32 d (4 + 4 * i)"

section \<open>Routines\<close>

definition install_trans :: "bool \<Rightarrow> 'z lgstate_scheme \<Rightarrow> (unit, 'z lgstate_scheme) res" where
  "install_trans recovering s =
     res_bind (for_loop (\<lambda>tail s.
       res_bind (bread (lg_dev (lg s)) (lg_start (lg s) + of_nat tail + 1) s) (\<lambda>lbuf s.
       if LOGSIZE \<le> tail then Fault else
       res_bind (bread (lg_dev (lg s)) (lh_block (lg s) ! tail) s) (\<lambda>dbuf s.
       let s = set_data dbuf (b_data (bufs s lbuf)) s in
       res_bind (bwrite dbuf s) (\<lambda>_ s.
       res_bind (if recovering then Ret () s else bunpin dbuf s) (\<lambda>_ s.
       res_bind (brelse lbuf s) (\<lambda>_ s.
       res_bind (brelse dbuf s) (\<lambda>_ s. Ret (None :: unit option) s)))))))
       [0..<nat (lh_n (lg s))] s) (\<lambda>_ s. Ret () s)"

definition read_head :: "'z lgstate_scheme \<Rightarrow> (unit, 'z lgstate_scheme) res" where
  "read_head s =
     res_bind (bread (lg_dev (lg s)) (lg_start (lg s)) s) (\<lambda>buf s.
       let s = upd_lg (\<lambda>l. l\<lparr>lh_n := head_n (b_data (bufs s buf))\<rparr>) s in
       res_bind (for_loop (\<lambda>i s.
           if LOGSIZE \<le> i then Fault
           else Ret (None :: unit option)
                  (upd_lg (\<lambda>l. l\<lparr>lh_block := (lh_block l)[i := head_block (b_data (bufs s buf)) i]\<rparr>) s))
         [0..<nat (lh_n (lg s))] s) (\<lambda>_ s. brelse buf s))"

definition write_head :: "'z lgstate_scheme \<Rightarrow> (unit, 'z lgstate_scheme) res" where
  "write_head s =
     res_bind (bread (lg_dev (lg s)) (lg_start (lg s)) s) (\<lambda>buf s.
       let s = set_data buf (put32 (b_data (bufs s buf)) 0 (of_int (lh_n (lg s)))) s in
       res_bind (for_loop (\<lambda>i s.
           if LOGSIZE \<le> i then Fault
           else Ret (None :: unit option)
                  (set_data buf (put32 (b_data (bufs s buf)) (4 + 4 * i) (lh_block (lg s) ! i)) s))
         [0..<nat (lh_n (lg s))] s) (\<lambda>_ s.
       res_bind (bwrite buf s) (\<lambda>_ s. brelse buf s)))"

definition recover_from_log :: "'z lgstate_scheme \<Rightarrow> (unit, 'z lgstate_scheme) res" where
  "recover_from_log s =
     res_bind (read_head s) (\<lambda>_ s.
     res_bind (install_trans True s) (\<lambda>_ s.
       write_head (upd_lg (\<lambda>l. l\<lparr>lh_n := 0\<rparr>) s)))"

text \<open>\<open>initlog dev logstart nlog\<close>; the first check of the source compares constants: 124 with 1024.\<close>

definition initlog :: "uint \<Rightarrow> uint \<Rightarrow> uint \<Rightarrow> 'z lgstate_scheme \<Rightarrow> (unit, 'z lgstate_scheme) res" where
  "initlog dev logstart nlog s =
     (if 4 + 4 * LOGSIZE \<ge> BSIZE then Panic ''initlog: too big logheader''
      else recover_from_log (upd_lg (\<lambda>l. l\<lparr>lg_start := logstart, lg_size := sint nlog, lg_dev := dev\<rparr>) s))"

text \<open>The loop of \<^verbatim>\<open>begin_op\<close> runs again when the process is woken.\<close>

definition begin_op_loop :: "'z lgstate_scheme \<Rightarrow> (unit, 'z lgstate_scheme) res" where
  "begin_op_loop s =
     (if lg_committing (lg s) then sleep (Some ChanLog) LogLock s
      else if lh_n (lg s) + (lg_outstanding (lg s) + 1) * int MAXOPBLOCKS > int LOGSIZE
      then sleep (Some ChanLog) LogLock s
      else lock_release LogLock (upd_lg (\<lambda>l. l\<lparr>lg_outstanding := lg_outstanding l + 1\<rparr>) s))"

definition begin_op :: "'z lgstate_scheme \<Rightarrow> (unit, 'z lgstate_scheme) res" where
  "begin_op s = res_bind (lock_acquire LogLock s) (\<lambda>_ s. begin_op_loop s)"

definition begin_op_resume :: "nat \<Rightarrow> 'z lgstate_scheme \<Rightarrow> (unit, 'z lgstate_scheme) res" where
  "begin_op_resume p s = res_bind (sleep_resume p LogLock s) (\<lambda>_ s. begin_op_loop s)"

definition write_log :: "'z lgstate_scheme \<Rightarrow> (unit, 'z lgstate_scheme) res" where
  "write_log s =
     res_bind (for_loop (\<lambda>tail s.
       res_bind (bread (lg_dev (lg s)) (lg_start (lg s) + of_nat tail + 1) s) (\<lambda>to s.
       if LOGSIZE \<le> tail then Fault else
       res_bind (bread (lg_dev (lg s)) (lh_block (lg s) ! tail) s) (\<lambda>from s.
       let s = set_data to (b_data (bufs s from)) s in
       res_bind (bwrite to s) (\<lambda>_ s.
       res_bind (brelse from s) (\<lambda>_ s.
       res_bind (brelse to s) (\<lambda>_ s. Ret (None :: unit option) s))))))
       [0..<nat (lh_n (lg s))] s) (\<lambda>_ s. Ret () s)"

definition commit :: "'z lgstate_scheme \<Rightarrow> (unit, 'z lgstate_scheme) res" where
  "commit s =
     (if 0 < lh_n (lg s) then
        res_bind (write_log s) (\<lambda>_ s.
        res_bind (write_head s) (\<lambda>_ s.
        res_bind (install_trans False s) (\<lambda>_ s.
          write_head (upd_lg (\<lambda>l. l\<lparr>lh_n := 0\<rparr>) s))))
      else Ret () s)"

definition end_op :: "'z lgstate_scheme \<Rightarrow> (unit, 'z lgstate_scheme) res" where
  "end_op s =
     res_bind (lock_acquire LogLock s) (\<lambda>_ s.
       let s = upd_lg (\<lambda>l. l\<lparr>lg_outstanding := lg_outstanding l - 1\<rparr>) s in
       if lg_committing (lg s) then Panic ''log.committing''
       else if lg_outstanding (lg s) = 0 then
         res_bind (lock_release LogLock (upd_lg (\<lambda>l. l\<lparr>lg_committing := True\<rparr>) s)) (\<lambda>_ s.
         res_bind (commit s) (\<lambda>_ s.
         res_bind (lock_acquire LogLock s) (\<lambda>_ s.
         res_bind (wakeup (Some ChanLog) (upd_lg (\<lambda>l. l\<lparr>lg_committing := False\<rparr>) s)) (\<lambda>_ s.
           lock_release LogLock s))))
       else res_bind (wakeup (Some ChanLog) s) (\<lambda>_ s. lock_release LogLock s))"

definition log_slot :: "uint list \<Rightarrow> nat \<Rightarrow> uint \<Rightarrow> nat" where
  "log_slot blocks n bn = (case List.find (\<lambda>i. blocks ! i = bn) [0..<n] of Some i \<Rightarrow> i | None \<Rightarrow> n)"

definition log_write :: "nat \<Rightarrow> 'z lgstate_scheme \<Rightarrow> (unit, 'z lgstate_scheme) res" where
  "log_write b s =
     res_bind (lock_acquire LogLock s) (\<lambda>_ s.
       if int LOGSIZE \<le> lh_n (lg s) \<or> lg_size (lg s) - 1 \<le> lh_n (lg s) then Panic ''too big a transaction''
       else if lg_outstanding (lg s) < 1 then Panic ''log_write outside of trans''
       else
         let i = log_slot (lh_block (lg s)) (nat (lh_n (lg s))) (b_blockno (bufs s b));
             s = upd_lg (\<lambda>l. l\<lparr>lh_block := (lh_block l)[i := b_blockno (bufs s b)]\<rparr>) s
         in res_bind (if int i = lh_n (lg s)
                      then res_bind (bpin b s) (\<lambda>_ s. Ret () (upd_lg (\<lambda>l. l\<lparr>lh_n := lh_n l + 1\<rparr>) s))
                      else Ret () s) (\<lambda>_ s. lock_release LogLock s))"

end
