(* ===== verification/Ring.thy ===== *)
theory Ring
  imports Prelude
begin

text \<open>
  Ring buffers indexed by free-running counters, as the UART, the console and the pipes use them:
  the element with count \<open>k\<close> is in slot \<open>k mod N\<close>, where the size \<open>N\<close> divides the range of the
  counter, so the counters may wrap around.
\<close>

definition ring :: "'b list \<Rightarrow> 'a::len word \<Rightarrow> 'a word \<Rightarrow> 'b list" where
  "ring buf r w = map (\<lambda>i. buf ! (unat (r + of_nat i) mod length buf)) [0..<unat (w - r)]"

lemma ring_empty [simp]: "ring buf r r = []"
  by (simp add: ring_def)

lemma length_ring [simp]: "length (ring buf r w) = unat (w - r)"
  by (simp add: ring_def)

lemma ring_nth: "i < unat (w - r) \<Longrightarrow> ring buf r w ! i = buf ! (unat (r + of_nat i) mod length buf)"
  by (simp add: ring_def)

lemma ring_empty_iff: "ring buf r w = [] \<longleftrightarrow> w = r"
  by (simp add: ring_def unat_eq_0)

lemma unat_minus_1: "x \<noteq> 0 \<Longrightarrow> unat (x - 1) = unat x - 1"
proof -
  assume "x \<noteq> 0"
  then have "(1 :: 'a::len word) \<le> x" by (simp add: word_le_nat_alt Suc_leI unat_gt_0)
  then show ?thesis by (simp add: unat_sub)
qed

lemma unat_plus_small:
  fixes x y :: "'a::len word"
  assumes "unat x + unat y < 2 ^ LENGTH('a)"
  shows "unat (x + y) = unat x + unat y"
  using assms by (simp add: unat_word_ariths)

lemma unat_suc_diff:
  fixes r w :: "'a::len word"
  assumes "unat (w - r) < N" and "N < 2 ^ LENGTH('a)"
  shows "unat (w + 1 - r) = Suc (unat (w - r))"
proof -
  have "w + 1 - r = (w - r) + 1" by simp
  moreover have "Suc (unat (w - r)) < 2 ^ LENGTH('a)" using assms by linarith
  ultimately show ?thesis using unat_plus_small [of "w - r" 1] by (simp only: unat_1)
qed

lemma unat_pred_diff:
  fixes r w :: "'a::len word"
  assumes "w \<noteq> r"
  shows "unat (w - r) = Suc (unat (w - (r + 1)))"
proof -
  have "w - r \<noteq> 0" using assms by simp
  then have "0 < unat (w - r)" by (simp add: unat_gt_0)
  moreover have "w - (r + 1) = (w - r) - 1" by simp
  then have "unat (w - (r + 1)) = unat (w - r) - 1" using unat_minus_1 [OF \<open>w - r \<noteq> 0\<close>] by metis
  ultimately show ?thesis by simp
qed

lemma slot_add:
  fixes r :: "'a::len word"
  assumes "N dvd 2 ^ LENGTH('a)"
  shows "unat (r + of_nat i) mod N = (unat r + i) mod N"
proof -
  have "unat (r + of_nat i) = (unat r + i) mod 2 ^ LENGTH('a)"
    by (simp add: unat_word_ariths unsigned_of_nat take_bit_nat_def mod_simps)
  then show ?thesis using assms by (simp add: mod_mod_cancel)
qed

lemma ring_push:
  fixes r w :: "'a::len word"
  assumes len: "length buf = N" and N: "N dvd 2 ^ LENGTH('a)" "N < 2 ^ LENGTH('a)" and room: "unat (w - r) < N"
  shows "ring (buf[unat w mod N := c]) r (w + 1) = ring buf r w @ [c]"
proof (rule nth_equalityI)
  let ?n = "unat (w - r)"
  show "length (ring (buf[unat w mod N := c]) r (w + 1)) = length (ring buf r w @ [c])"
    using unat_suc_diff [OF room N(2)] by simp
  fix i assume "i < length (ring (buf[unat w mod N := c]) r (w + 1))"
  then have i: "i \<le> ?n" "i < unat (w + 1 - r)" using unat_suc_diff [OF room N(2)] by simp_all
  have w: "w = r + of_nat ?n" by simp
  have slot: "unat w mod N = (unat r + ?n) mod N" by (subst w, rule slot_add [OF N(1)])
  have lt: "unat w mod N < N" using room by simp
  show "ring (buf[unat w mod N := c]) r (w + 1) ! i = (ring buf r w @ [c]) ! i"
  proof (cases "i = ?n")
    case True
    then show ?thesis using i len lt slot by (simp add: ring_nth nth_append slot_add [OF N(1)])
  next
    case False
    then have i': "i < ?n" using i by simp
    have "(unat r + i) mod N \<noteq> (unat r + ?n) mod N"
    proof
      assume "(unat r + i) mod N = (unat r + ?n) mod N"
      then have "N dvd (unat r + ?n) - (unat r + i)" using i' by (metis mod_eq_dvd_iff_nat nat_add_left_cancel_le less_imp_le)
      then show False using i' room by (auto dest: dvd_imp_le)
    qed
    then show ?thesis using i i' len slot by (simp add: ring_nth nth_append slot_add [OF N(1)])
  qed
qed

lemma ring_pop:
  fixes r w :: "'a::len word"
  assumes "w \<noteq> r"
  shows "ring buf r w = buf ! (unat r mod length buf) # ring buf (r + 1) w"
proof -
  have n: "unat (w - r) = Suc (unat (w - (r + 1)))" by (rule unat_pred_diff [OF assms])
  have "[0..<Suc k] = 0 # map Suc [0..<k]" for k by (simp add: map_Suc_upt upt_conv_Cons del: upt_Suc)
  then show ?thesis by (simp add: ring_def n o_def add.assoc add.commute add.left_commute)
qed

text \<open>Taking the newest element back, as erasing on the console does.\<close>

lemma ring_unpush:
  fixes r w :: "'a::len word"
  assumes "w \<noteq> r"
  shows "ring buf r (w - 1) = butlast (ring buf r w)"
proof -
  have "w - r \<noteq> 0" using assms by simp
  moreover have "w - 1 - r = (w - r) - 1" by simp
  ultimately have "unat (w - 1 - r) = unat (w - r) - 1" using unat_minus_1 by metis
  then show ?thesis by (simp add: ring_def butlast_conv_take take_map)
qed

lemma ring_last:
  fixes r w :: "'a::len word"
  assumes "w \<noteq> r"
  shows "last (ring buf r w) = buf ! (unat (w - 1) mod length buf)"
proof -
  have "w - r \<noteq> 0" using assms by simp
  then have "unat (w - r) - 1 = unat (w - r - 1)" "0 < unat (w - r)" by (simp_all add: unat_minus_1 unat_gt_0)
  then have "r + of_nat (unat (w - r) - 1) = w - 1" by simp
  moreover have "ring buf r w \<noteq> []" using assms by (simp add: ring_empty_iff)
  ultimately show ?thesis using \<open>0 < unat (w - r)\<close> by (simp add: last_conv_nth ring_nth)
qed

lemma ring_append:
  fixes r w e :: "'a::len word"
  assumes "unat (w - r) + unat (e - w) < 2 ^ LENGTH('a)"
  shows "ring buf r e = ring buf r w @ ring buf w e"
proof -
  have "e - r = (w - r) + (e - w)" by simp
  then have n: "unat (e - r) = unat (w - r) + unat (e - w)" using unat_plus_small [OF assms] by (simp only:)
  show ?thesis
  proof (rule nth_equalityI)
    fix i assume "i < length (ring buf r e)"
    then have i: "i < unat (w - r) + unat (e - w)" using n by simp
    show "ring buf r e ! i = (ring buf r w @ ring buf w e) ! i"
    proof (cases "i < unat (w - r)")
      case True
      then show ?thesis using i n by (simp add: ring_nth nth_append)
    next
      case False
      then have "(of_nat (i - unat (w - r)) :: 'a word) = of_nat i - (w - r)"
        by (simp add: of_nat_diff)
      then show ?thesis using False i n by (simp add: ring_nth nth_append add.commute)
    qed
  qed (simp add: n)
qed

end
