(* ===== verification/Vm.thy ===== *)
theory Vm
  imports Proc
begin

text \<open>
  The interface of \<^verbatim>\<open>kernel/vm.c\<close>, which is not among the sources, as a record of functions on the
  physical memory, and the two copying routines of \<^verbatim>\<open>kernel/proc.c\<close> that dispatch on the kind of
  address.
\<close>

section \<open>Virtual memory operations\<close>

text \<open>
  \<^verbatim>\<open>copyin\<close> and \<^verbatim>\<open>copyinstr\<close> write to a kernel buffer; they return the bytes written together
  with their result.
\<close>

record vm_ops =
  vm_copyout :: "uint64 \<Rightarrow> uint64 \<Rightarrow> uchar list \<Rightarrow> kmem \<Rightarrow> (cint, kmem) res"
  vm_copyin :: "uint64 \<Rightarrow> uint64 \<Rightarrow> uint64 \<Rightarrow> kmem \<Rightarrow> (cint \<times> uchar list, kmem) res"
  vm_copyinstr :: "uint64 \<Rightarrow> uint64 \<Rightarrow> uint64 \<Rightarrow> kmem \<Rightarrow> (cint \<times> uchar list, kmem) res"
  vm_uvmcreate :: "kmem \<Rightarrow> (uint64, kmem) res"
  vm_uvmfirst :: "uint64 \<Rightarrow> uchar list \<Rightarrow> kmem \<Rightarrow> (unit, kmem) res"
  vm_uvmalloc :: "uint64 \<Rightarrow> uint64 \<Rightarrow> uint64 \<Rightarrow> uint64 \<Rightarrow> kmem \<Rightarrow> (uint64, kmem) res"
  vm_uvmdealloc :: "uint64 \<Rightarrow> uint64 \<Rightarrow> uint64 \<Rightarrow> kmem \<Rightarrow> (uint64, kmem) res"
  vm_uvmcopy :: "uint64 \<Rightarrow> uint64 \<Rightarrow> uint64 \<Rightarrow> kmem \<Rightarrow> (cint, kmem) res"
  vm_uvmfree :: "uint64 \<Rightarrow> uint64 \<Rightarrow> kmem \<Rightarrow> (unit, kmem) res"
  vm_uvmunmap :: "uint64 \<Rightarrow> uint64 \<Rightarrow> uint64 \<Rightarrow> bool \<Rightarrow> kmem \<Rightarrow> (unit, kmem) res"
  vm_uvmclear :: "uint64 \<Rightarrow> uint64 \<Rightarrow> kmem \<Rightarrow> (unit, kmem) res"
  vm_mappages :: "uint64 \<Rightarrow> uint64 \<Rightarrow> uint64 \<Rightarrow> uint64 \<Rightarrow> uint64 \<Rightarrow> kmem \<Rightarrow> (cint, kmem) res"
  vm_walkaddr :: "uint64 \<Rightarrow> uint64 \<Rightarrow> kmem \<Rightarrow> (uint64, kmem) res"
  vm_kvmmap :: "uint64 \<Rightarrow> uint64 \<Rightarrow> uint64 \<Rightarrow> uint64 \<Rightarrow> uint64 \<Rightarrow> kmem \<Rightarrow> (unit, kmem) res"

definition vm_run :: "(kmem \<Rightarrow> ('a, kmem) res) \<Rightarrow> 'z kstate_scheme \<Rightarrow> ('a, 'z kstate_scheme) res" where
  "vm_run f s =
     (case f (phys s) of
        Ret a m \<Rightarrow> Ret a (s\<lparr>phys := m\<rparr>)
      | Panic e \<Rightarrow> Panic e
      | Swtch m \<Rightarrow> Fault
      | Hang \<Rightarrow> Hang
      | Fault \<Rightarrow> Fault)"

lemma vm_run_Ret [simp]: "f (phys s) = Ret a m \<Longrightarrow> vm_run f s = Ret a (s\<lparr>phys := m\<rparr>)"
  by (simp add: vm_run_def)

section \<open>Copying to and from either kind of address\<close>

text \<open>
  The destination of \<^verbatim>\<open>either_copyout\<close> is a user address, a physical address in the kernel's
  direct map, or a variable of the calling C function. Bytes for a variable are handed to the
  caller as a result.
\<close>

datatype dest = UserDst uint64 | KmemDst uint64 | VarDst

datatype source = UserSrc uint64 | KmemSrc uint64 | VarSrc "uchar list"

fun dest_add :: "dest \<Rightarrow> nat \<Rightarrow> dest" where
  "dest_add (UserDst a) n = UserDst (a + of_nat n)"
| "dest_add (KmemDst a) n = KmemDst (a + of_nat n)"
| "dest_add VarDst n = VarDst"

fun source_add :: "source \<Rightarrow> nat \<Rightarrow> source" where
  "source_add (UserSrc a) n = UserSrc (a + of_nat n)"
| "source_add (KmemSrc a) n = KmemSrc (a + of_nat n)"
| "source_add (VarSrc bs) n = VarSrc (drop n bs)"

definition either_copyout :: "vm_ops \<Rightarrow> dest \<Rightarrow> uchar list \<Rightarrow> 'z pcb_scheme \<Rightarrow> (cint, 'z pcb_scheme) res" where
  "either_copyout vm dst src s =
     (case dst of
        UserDst a \<Rightarrow> with_proc (\<lambda>p s. vm_run (vm_copyout vm (pagetable (procs s p)) a src) s) s
      | KmemDst a \<Rightarrow> Ret 0 (s\<lparr>phys := (phys s)\<lparr>pmem := store_bytes (pmem (phys s)) a src\<rparr>\<rparr>)
      | VarDst \<Rightarrow> Ret 0 s)"

definition either_copyin :: "vm_ops \<Rightarrow> source \<Rightarrow> nat \<Rightarrow> 'z pcb_scheme \<Rightarrow> (cint \<times> uchar list, 'z pcb_scheme) res" where
  "either_copyin vm src len s =
     (case src of
        UserSrc a \<Rightarrow> with_proc (\<lambda>p s. vm_run (vm_copyin vm (pagetable (procs s p)) a (of_nat len)) s) s
      | KmemSrc a \<Rightarrow> Ret (0, load_bytes (pmem (phys s)) a len) s
      | VarSrc bs \<Rightarrow> if length bs < len then Fault else Ret (0, take len bs) s)"

section \<open>A concrete instance\<close>

text \<open>
  One address space without translation, which every page table gives access to: an instance of the
  interface at which the theorems with hypotheses about \<^verbatim>\<open>vm.c\<close> are evaluated.
\<close>

definition flat_vm :: vm_ops where
  "flat_vm = \<lparr>
     vm_copyout = (\<lambda>pt va bs m. Ret 0 (m\<lparr>pmem := store_bytes (pmem m) va bs\<rparr>)),
     vm_copyin = (\<lambda>pt va n m. Ret (0, load_bytes (pmem m) va (unat n)) m),
     vm_copyinstr = (\<lambda>pt va n m. let bs = takeWhile (\<lambda>c. c \<noteq> 0) (load_bytes (pmem m) va (unat n))
        in if length bs < unat n then Ret (0, bs @ [0]) m else Ret (minus_one, bs) m),
     vm_uvmcreate = (\<lambda>m. Ret 1 m),
     vm_uvmfirst = (\<lambda>pt bs m. Ret () (m\<lparr>pmem := store_bytes (pmem m) 0 bs\<rparr>)),
     vm_uvmalloc = (\<lambda>pt old new perm m. Ret new m),
     vm_uvmdealloc = (\<lambda>pt old new m. Ret new m),
     vm_uvmcopy = (\<lambda>old new n m. Ret 0 m),
     vm_uvmfree = (\<lambda>pt n m. Ret () m),
     vm_uvmunmap = (\<lambda>pt va n free m. Ret () m),
     vm_uvmclear = (\<lambda>pt va m. Ret () m),
     vm_mappages = (\<lambda>pt va n pa perm m. Ret 0 m),
     vm_walkaddr = (\<lambda>pt va m. Ret va m),
     vm_kvmmap = (\<lambda>pt va pa n perm m. Ret () m)\<rparr>"

text \<open>The same where user memory ends at address 256, so that copies beyond it fail.\<close>

definition small_vm :: vm_ops where
  "small_vm = flat_vm\<lparr>vm_copyout := (\<lambda>pt va bs m.
     if unat va + length bs \<le> 256 then Ret 0 (m\<lparr>pmem := store_bytes (pmem m) va bs\<rparr>) else Ret minus_one m)\<rparr>"

end
