(* ===== verification/Uart.thy ===== *)
theory Uart
  imports Log Ring Vm
begin

text \<open>
  \<^verbatim>\<open>kernel/uart.c\<close>: the 16550a serial port and its transmit buffer. The registers the device
  changes by itself are inputs: \<open>lsr\<close> and \<open>rhr\<close> hold the values the next reads of the line status
  and the receive holding register give; code that reads beyond them never comes back. \<open>thr\<close>
  collects the bytes written to the transmit holding register, \<open>ctl\<close> the writes to the others.
\<close>

section \<open>State\<close>

definition UART_TX_BUF_SIZE :: nat where "UART_TX_BUF_SIZE = 32"

definition LSR_RX_READY :: uchar where "LSR_RX_READY = push_bit 0 1"
definition LSR_TX_IDLE :: uchar where "LSR_TX_IDLE = push_bit 5 1"

record uartst =
  uart_tx_buf :: "uchar list"
  uart_tx_w :: uint64
  uart_tx_r :: uint64
  thr :: "uchar list"
  lsr :: "uchar list"
  rhr :: "uchar list"
  ctl :: "(nat \<times> uchar) list"
  panicked :: bool

record ustate = lgstate +
  uart :: uartst

definition upd_uart :: "(uartst \<Rightarrow> uartst) \<Rightarrow> 'z ustate_scheme \<Rightarrow> 'z ustate_scheme" where
  "upd_uart f s = s\<lparr>uart := f (uart s)\<rparr>"

section \<open>Routines\<close>

definition IER :: nat where "IER = 1"
definition FCR :: nat where "FCR = 2"
definition LCR :: nat where "LCR = 3"

definition WriteReg :: "nat \<Rightarrow> uchar \<Rightarrow> 'z ustate_scheme \<Rightarrow> 'z ustate_scheme" where
  "WriteReg reg v = upd_uart (\<lambda>u. u\<lparr>ctl := ctl u @ [(reg, v)]\<rparr>)"

definition uartinit :: "'z ustate_scheme \<Rightarrow> 'z ustate_scheme" where
  "uartinit s =
     (let s = WriteReg IER 0x00 s;
          s = WriteReg LCR 0x80 s;
          s = WriteReg 0 0x03 s;
          s = WriteReg 1 0x00 s;
          s = WriteReg LCR 0x03 s;
          s = WriteReg FCR (0x01 OR 0x06) s
      in WriteReg IER (0x02 OR 0x01) s)"

text \<open>The loop of \<^verbatim>\<open>uartstart\<close> reads the line status once per round.\<close>

fun uartstart_loop :: "uchar list \<Rightarrow> 'z ustate_scheme \<Rightarrow> (unit, 'z ustate_scheme) res" where
  "uartstart_loop [] s =
     (if uart_tx_w (uart s) = uart_tx_r (uart s) then Ret () (upd_uart (\<lambda>u. u\<lparr>lsr := []\<rparr>) s) else Hang)"
| "uartstart_loop (v # vs) s =
     (if uart_tx_w (uart s) = uart_tx_r (uart s) then Ret () (upd_uart (\<lambda>u. u\<lparr>lsr := v # vs\<rparr>) s)
      else if v AND LSR_TX_IDLE = 0 then Ret () (upd_uart (\<lambda>u. u\<lparr>lsr := vs\<rparr>) s)
      else
        let c = uart_tx_buf (uart s) ! (unat (uart_tx_r (uart s)) mod UART_TX_BUF_SIZE);
            s = upd_uart (\<lambda>u. u\<lparr>uart_tx_r := uart_tx_r u + 1\<rparr>) s
        in res_bind (wakeup (Some ChanUartTx) s) (\<lambda>_ s.
             uartstart_loop vs (upd_uart (\<lambda>u. u\<lparr>thr := thr u @ [c]\<rparr>) s)))"

definition uartstart :: "'z ustate_scheme \<Rightarrow> (unit, 'z ustate_scheme) res" where
  "uartstart s = uartstart_loop (lsr (uart s)) s"

definition uartputc_loop :: "uchar \<Rightarrow> 'z ustate_scheme \<Rightarrow> (unit, 'z ustate_scheme) res" where
  "uartputc_loop c s =
     (if uart_tx_w (uart s) = uart_tx_r (uart s) + of_nat UART_TX_BUF_SIZE then sleep (Some ChanUartTx) UartTxLock s
      else
        let s = upd_uart (\<lambda>u. u\<lparr>uart_tx_buf := (uart_tx_buf u)[unat (uart_tx_w u) mod UART_TX_BUF_SIZE := c],
                              uart_tx_w := uart_tx_w u + 1\<rparr>) s
        in res_bind (uartstart s) (\<lambda>_ s. lock_release UartTxLock s))"

definition uartputc :: "uchar \<Rightarrow> 'z ustate_scheme \<Rightarrow> (unit, 'z ustate_scheme) res" where
  "uartputc c s =
     res_bind (lock_acquire UartTxLock s) (\<lambda>_ s. if panicked (uart s) then Hang else uartputc_loop c s)"

definition uartputc_resume :: "nat \<Rightarrow> uchar \<Rightarrow> 'z ustate_scheme \<Rightarrow> (unit, 'z ustate_scheme) res" where
  "uartputc_resume p c s = res_bind (sleep_resume p UartTxLock s) (\<lambda>_ s. uartputc_loop c s)"

text \<open>
  \<^verbatim>\<open>uartputc_sync\<close> polls; \<^verbatim>\<open>push_off\<close> and \<^verbatim>\<open>pop_off\<close> around it cancel out.
\<close>

fun uartputc_poll :: "uchar list \<Rightarrow> uchar \<Rightarrow> 'z ustate_scheme \<Rightarrow> (unit, 'z ustate_scheme) res" where
  "uartputc_poll [] c s = Hang"
| "uartputc_poll (v # vs) c s =
     (if v AND LSR_TX_IDLE = 0 then uartputc_poll vs c s
      else Ret () (upd_uart (\<lambda>u. u\<lparr>lsr := vs, thr := thr u @ [c]\<rparr>) s))"

definition uartputc_sync :: "uchar \<Rightarrow> 'z ustate_scheme \<Rightarrow> (unit, 'z ustate_scheme) res" where
  "uartputc_sync c s = (if panicked (uart s) then Hang else uartputc_poll (lsr (uart s)) c s)"

text \<open>\<open>None\<close> is the result -1; a read of an input register with nothing left never comes back.\<close>

definition uartgetc :: "'z ustate_scheme \<Rightarrow> (uchar option, 'z ustate_scheme) res" where
  "uartgetc s =
     (case lsr (uart s) of
        [] \<Rightarrow> Hang
      | v # vs \<Rightarrow>
          let s = upd_uart (\<lambda>u. u\<lparr>lsr := vs\<rparr>) s in
          if v AND LSR_RX_READY \<noteq> 0 then
            (case rhr (uart s) of [] \<Rightarrow> Hang | c # cs \<Rightarrow> Ret (Some c) (upd_uart (\<lambda>u. u\<lparr>rhr := cs\<rparr>) s))
          else Ret None s)"

section \<open>The transmit queue\<close>

definition uart_queue :: "'z ustate_scheme \<Rightarrow> uchar list" where
  "uart_queue s = ring (uart_tx_buf (uart s)) (uart_tx_r (uart s)) (uart_tx_w (uart s))"

definition uart_inv :: "'z ustate_scheme \<Rightarrow> bool" where
  "uart_inv s \<longleftrightarrow> length (uart_tx_buf (uart s)) = UART_TX_BUF_SIZE \<and>
     unat (uart_tx_w (uart s) - uart_tx_r (uart s)) \<le> UART_TX_BUF_SIZE"

lemma uart_full_iff:
  assumes "uart_inv s"
  shows "uart_tx_w (uart s) = uart_tx_r (uart s) + of_nat UART_TX_BUF_SIZE \<longleftrightarrow> length (uart_queue s) = UART_TX_BUF_SIZE"
proof -
  let ?d = "uart_tx_w (uart s) - uart_tx_r (uart s)"
  have "uart_tx_w (uart s) = uart_tx_r (uart s) + of_nat UART_TX_BUF_SIZE \<longleftrightarrow> ?d = of_nat UART_TX_BUF_SIZE"
    by (simp add: algebra_simps)
  also have "\<dots> \<longleftrightarrow> unat ?d = UART_TX_BUF_SIZE" by (simp add: word_unat_eq_iff UART_TX_BUF_SIZE_def)
  finally show ?thesis by (simp add: uart_queue_def)
qed

definition uframe :: "'z ustate_scheme \<Rightarrow> 'z ustate_scheme \<Rightarrow> bool" where
  "uframe s t \<longleftrightarrow> t = s\<lparr>procs := procs t, uart := uart t\<rparr> \<and>
     (\<forall>i. procs t i = (procs s i)\<lparr>pstate := pstate (procs t i)\<rparr> \<and>
        (pstate (procs t i) = pstate (procs s i) \<or> pstate (procs s i) = SLEEPING \<and> pstate (procs t i) = RUNNABLE))"

lemma uframe_trans:
  assumes "uframe s t" and "uframe t u"
  shows "uframe s u"
proof -
  have t: "t = s\<lparr>procs := procs t, uart := uart t\<rparr>" and u: "u = t\<lparr>procs := procs u, uart := uart u\<rparr>"
    using assms by (auto simp: uframe_def)
  have "u = s\<lparr>procs := procs u, uart := uart u\<rparr>" by (subst u, subst t) simp
  moreover have "procs u i = (procs s i)\<lparr>pstate := pstate (procs u i)\<rparr>" for i
  proof -
    have 1: "procs t i = (procs s i)\<lparr>pstate := pstate (procs t i)\<rparr>"
      and 2: "procs u i = (procs t i)\<lparr>pstate := pstate (procs u i)\<rparr>" using assms by (auto simp: uframe_def)
    show ?thesis by (subst 2, subst 1) simp
  qed
  moreover have "pstate (procs u i) = pstate (procs s i) \<or> pstate (procs s i) = SLEEPING \<and> pstate (procs u i) = RUNNABLE" for i
  proof -
    have "pstate (procs t i) = pstate (procs s i) \<or> pstate (procs s i) = SLEEPING \<and> pstate (procs t i) = RUNNABLE"
      "pstate (procs u i) = pstate (procs t i) \<or> pstate (procs t i) = SLEEPING \<and> pstate (procs u i) = RUNNABLE"
      using assms by (auto simp: uframe_def)
    then show ?thesis by auto
  qed
  ultimately show ?thesis unfolding uframe_def by metis
qed

lemma uframe_upd_uart: "uframe s (upd_uart f s)"
  by (simp add: uframe_def upd_uart_def)

lemma uframe_held: "uframe s t \<Longrightarrow> held t = held s \<and> myproc t = myproc s"
proof -
  assume "uframe s t"
  then have t: "t = s\<lparr>procs := procs t, uart := uart t\<rparr>" unfolding uframe_def by blast
  show ?thesis by (subst t, subst (2) t) (simp add: myproc_def cpuid_def)
qed

lemma uartstart_loop_spec:
  assumes "uart_inv s" and "no_proc_lock s" and "length (uart_queue s) \<le> length vs"
  shows "\<exists>t. uartstart_loop vs s = Ret () t \<and> uart_inv t \<and> thr (uart t) @ uart_queue t = thr (uart s) @ uart_queue s \<and>
     length (uart_queue t) \<le> length (uart_queue s) \<and>
     uart_tx_w (uart t) = uart_tx_w (uart s) \<and> rhr (uart t) = rhr (uart s) \<and> panicked (uart t) = panicked (uart s) \<and> uframe s t"
  using assms
proof (induction vs arbitrary: s)
  case Nil
  then have "uart_tx_w (uart s) = uart_tx_r (uart s)" by (simp add: uart_queue_def unat_eq_0)
  then show ?case using Nil(1) uframe_upd_uart by (simp add: uart_queue_def uart_inv_def upd_uart_def) (simp add: uframe_def)
next
  case (Cons v vs)
  let ?u = "uart s"
  show ?case
  proof (cases "uart_tx_w ?u = uart_tx_r ?u \<or> v AND LSR_TX_IDLE = 0")
    case True
    then show ?thesis using Cons.prems(1)
      by (auto simp: uart_queue_def uart_inv_def upd_uart_def uframe_def)
  next
    case False
    then have ne: "uart_tx_w ?u \<noteq> uart_tx_r ?u" and idle: "v AND LSR_TX_IDLE \<noteq> 0" by simp_all
    let ?c = "uart_tx_buf ?u ! (unat (uart_tx_r ?u) mod UART_TX_BUF_SIZE)"
    let ?s1 = "upd_uart (\<lambda>u. u\<lparr>uart_tx_r := uart_tx_r u + 1\<rparr>) s"
    let ?s2 = "?s1\<lparr>procs := woken (Some ChanUartTx) (myproc ?s1) (procs ?s1)\<rparr>"
    let ?s3 = "upd_uart (\<lambda>u. u\<lparr>thr := thr u @ [?c]\<rparr>) ?s2"
    have len: "length (uart_tx_buf ?u) = UART_TX_BUF_SIZE" using Cons.prems(1) by (simp add: uart_inv_def)
    have np1: "no_proc_lock ?s1" using Cons.prems(2) by (simp add: no_proc_lock_def upd_uart_def)
    have w: "wakeup (Some ChanUartTx) ?s1 = Ret () ?s2" by (rule wakeup_Ret) (rule no_proc_lockD [OF np1])
    have q: "uart_queue s = ?c # uart_queue ?s3"
      using ring_pop [OF ne, of "uart_tx_buf ?u"] len by (simp add: uart_queue_def upd_uart_def)
    have n: "unat (uart_tx_w ?u - uart_tx_r ?u) = Suc (unat (uart_tx_w ?u - (uart_tx_r ?u + 1)))" by (rule unat_pred_diff [OF ne])
    have inv: "uart_inv ?s3" using Cons.prems(1) n by (simp add: uart_inv_def upd_uart_def)
    have np3: "no_proc_lock ?s3" using Cons.prems(2) by (simp add: no_proc_lock_def upd_uart_def)
    have "length (uart_queue ?s3) \<le> length vs" using Cons.prems(3) q by simp
    from Cons.IH [OF inv np3 this] obtain t where t: "uartstart_loop vs ?s3 = Ret () t" "uart_inv t"
      "thr (uart t) @ uart_queue t = thr (uart ?s3) @ uart_queue ?s3" "length (uart_queue t) \<le> length (uart_queue ?s3)"
      "uart_tx_w (uart t) = uart_tx_w (uart ?s3)" "rhr (uart t) = rhr (uart ?s3)" "panicked (uart t) = panicked (uart ?s3)"
      "uframe ?s3 t" by blast
    have run: "uartstart_loop (v # vs) s = Ret () t" using ne idle w t(1) by (simp add: Let_def)
    have "uframe s ?s3" by (auto simp: uframe_def upd_uart_def woken_def)
    from uframe_trans [OF this t(8)] show ?thesis using run t(2-7) q by (simp add: upd_uart_def)
  qed
qed

text \<open>
  C38. The serial port sends exactly what is written to it, in order: \<^verbatim>\<open>uartputc\<close> with room in the
  buffer returns, and the bytes sent so far followed by the bytes still buffered are those
  from before followed by the new one, also when the 64-bit counters wrap. With a full buffer
  it does not overwrite anything but waits.
\<close>

theorem uart_output_order:
  assumes "uart_inv s" and "no_proc_lock s" and "UartTxLock \<notin> set (held s)" and "\<not> panicked (uart s)"
  shows "if length (uart_queue s) < UART_TX_BUF_SIZE
     then length (uart_queue s) < length (lsr (uart s)) \<longrightarrow>
       (\<exists>t. uartputc c s = Ret () t \<and> uart_inv t \<and> held t = held s \<and>
         thr (uart t) @ uart_queue t = thr (uart s) @ uart_queue s @ [c])
     else held s = [] \<and> myproc s = Some p \<and> p < NPROC \<longrightarrow>
       (\<exists>t. uartputc c s = Swtch t \<and> uart t = uart s \<and> pstate (procs t p) = SLEEPING \<and> pchan (procs t p) = Some ChanUartTx)"
proof (cases "length (uart_queue s) < UART_TX_BUF_SIZE")
  case True
  let ?s1 = "s\<lparr>held := UartTxLock # held s\<rparr>"
  let ?s2 = "upd_uart (\<lambda>u. u\<lparr>uart_tx_buf := (uart_tx_buf u)[unat (uart_tx_w u) mod UART_TX_BUF_SIZE := c],
      uart_tx_w := uart_tx_w u + 1\<rparr>) ?s1"
  have nf: "uart_tx_w (uart s) \<noteq> uart_tx_r (uart s) + of_nat UART_TX_BUF_SIZE" using uart_full_iff [OF assms(1)] True by simp
  have len: "length (uart_tx_buf (uart s)) = UART_TX_BUF_SIZE" using assms(1) by (simp add: uart_inv_def)
  have room: "unat (uart_tx_w (uart s) - uart_tx_r (uart s)) < UART_TX_BUF_SIZE" using True by (simp add: uart_queue_def)
  have N: "UART_TX_BUF_SIZE dvd 2 ^ LENGTH(64)" "UART_TX_BUF_SIZE < 2 ^ LENGTH(64)" by (simp_all add: UART_TX_BUF_SIZE_def)
  have q: "uart_queue ?s2 = uart_queue s @ [c]"
    using ring_push [OF len N room, of c] by (simp add: uart_queue_def upd_uart_def)
  have inv: "uart_inv ?s2" using len room unat_suc_diff [OF room N(2)] by (simp add: uart_inv_def upd_uart_def)
  have np: "no_proc_lock ?s2" using assms(2) by (simp add: no_proc_lock_def upd_uart_def)
  have "\<exists>t. uartputc c s = Ret () t \<and> uart_inv t \<and> held t = held s \<and>
         thr (uart t) @ uart_queue t = thr (uart s) @ uart_queue s @ [c]" if "length (uart_queue s) < length (lsr (uart s))"
  proof -
    have "length (uart_queue ?s2) \<le> length (lsr (uart s))" using that q by simp
    from uartstart_loop_spec [OF inv np this] obtain t where t: "uartstart_loop (lsr (uart s)) ?s2 = Ret () t" "uart_inv t"
      "thr (uart t) @ uart_queue t = thr (uart ?s2) @ uart_queue ?s2" "uframe ?s2 t" by blast
    have out: "thr (uart t) @ uart_queue t = thr (uart s) @ uart_queue s @ [c]" using t(3) unfolding q by (simp add: upd_uart_def)
    have h: "held t = UartTxLock # held s" using uframe_held [OF t(4)] by (simp add: upd_uart_def)
    have "uartstart ?s2 = Ret () t" using t(1) by (simp add: uartstart_def upd_uart_def)
    then have "uartputc c s = Ret () (t\<lparr>held := held s\<rparr>)"
      using assms(3,4) nf h by (simp add: uartputc_def uartputc_loop_def lock_simps Let_def)
    then show ?thesis using t(2) out by (simp add: uart_inv_def uart_queue_def)
  qed
  then show ?thesis using True by simp
next
  case False
  then have full: "uart_tx_w (uart s) = uart_tx_r (uart s) + of_nat UART_TX_BUF_SIZE"
    using uart_full_iff [OF assms(1)] assms(1) by (simp add: uart_queue_def uart_inv_def)
  have "\<exists>t. uartputc c s = Swtch t \<and> uart t = uart s \<and> pstate (procs t p) = SLEEPING \<and> pchan (procs t p) = Some ChanUartTx"
    if "held s = []" "myproc s = Some p"
    using that full assms(4)
    by (simp add: uartputc_def uartputc_loop_def lock_acquire_def lock_release_def sleep_def sched_def intr_enabled_def lock_holding_def
        upd_proc_def)
  then show ?thesis using False by simp
qed

definition blank_uart :: uartst where
  "blank_uart = \<lparr>uart_tx_buf = replicate UART_TX_BUF_SIZE 0, uart_tx_w = -1, uart_tx_r = -2, thr = [72], lsr = [0x60, 0x60, 0],
     rhr = [], ctl = [], panicked = False\<rparr>"

definition blank_ustate :: ustate where
  "blank_ustate = lgstate.extend (bstate.extend blank_bstate \<lparr>lg = \<lparr>lg_start = 2, lg_size = 30, lg_outstanding = 0,
     lg_committing = False, lg_dev = ROOTDEV, lh_n = 0, lh_block = replicate LOGSIZE 0\<rparr>\<rparr>) \<lparr>uart = blank_uart\<rparr>"

theorem uart_output_order_witness:
  "\<exists>t. uartputc 105 blank_ustate = Ret () t \<and> thr (uart t) @ uart_queue t = [72, 0, 105]"
proof -
  have q: "uart_queue blank_ustate = [0]"
    by (simp add: uart_queue_def ring_def blank_ustate_def blank_uart_def lgstate.defs UART_TX_BUF_SIZE_def)
  have u: "uart_inv blank_ustate" "no_proc_lock blank_ustate" "UartTxLock \<notin> set (held blank_ustate)" "\<not> panicked (uart blank_ustate)"
    by (simp_all add: uart_inv_def no_proc_lock_def blank_ustate_def blank_uart_def blank_bstate_def lgstate.defs bstate.defs
        UART_TX_BUF_SIZE_def)
  have "length (uart_queue blank_ustate) < UART_TX_BUF_SIZE" "length (uart_queue blank_ustate) < length (lsr (uart blank_ustate))"
    "thr (uart blank_ustate) = [72]"
    by (simp_all add: q UART_TX_BUF_SIZE_def) (simp_all add: blank_ustate_def blank_uart_def lgstate.defs)
  with uart_output_order [OF u, of 105 0] show ?thesis unfolding q by auto
qed

end
