(* ===== verification/Printf.thy ===== *)
theory Printf
  imports Uart
begin

text \<open>
  \<^verbatim>\<open>kernel/printf.c\<close> and the output half of \<^verbatim>\<open>kernel/console.c\<close>. A C string is the list of its bytes
  without the terminating zero.
\<close>

section \<open>State\<close>

record prstate = ustate +
  pr_locking :: bool

definition bytes :: "string \<Rightarrow> uchar list" where
  "bytes cs = map of_char cs"

text \<open>Variadic arguments.\<close>

datatype farg = IntArg cint | PtrArg uint64 | StrArg "uchar list option"

section \<open>Routines\<close>

definition BACKSPACE :: cint where "BACKSPACE = 0x100"

definition consputc :: "cint \<Rightarrow> 'z prstate_scheme \<Rightarrow> (unit, 'z prstate_scheme) res" where
  "consputc c s =
     (if c = BACKSPACE then
        res_bind (uartputc_sync 0x08 s) (\<lambda>_ s. res_bind (uartputc_sync 0x20 s) (\<lambda>_ s. uartputc_sync 0x08 s))
      else uartputc_sync (ucast c) s)"

fun consputs :: "uchar list \<Rightarrow> 'z prstate_scheme \<Rightarrow> (unit, 'z prstate_scheme) res" where
  "consputs [] s = Ret () s"
| "consputs (c # cs) s = res_bind (consputc (ucast c) s) (\<lambda>_ s. consputs cs s)"

definition digits :: "uchar list" where
  "digits = bytes ''0123456789abcdef''"

text \<open>
  The digits of \<open>x\<close>, lowest first, as the loop stores them; the first argument is the space left in
  \<^verbatim>\<open>buf\<close>, and \<open>None\<close> a store beyond it.
\<close>

fun printint_loop :: "nat \<Rightarrow> uint \<Rightarrow> uint \<Rightarrow> uchar list option" where
  "printint_loop 0 x base = None"
| "printint_loop (Suc n) x base =
     (let d = digits ! unat (x mod base) in
      if x div base = 0 then Some [d] else map_option ((#) d) (printint_loop n (x div base) base))"

definition printint_buf :: "cint \<Rightarrow> uint \<Rightarrow> bool \<Rightarrow> uchar list option" where
  "printint_buf xx base sign =
     (let sign = (sign \<and> sint xx < 0); x = (if sign then - xx else xx) in
      case printint_loop 16 x base of
        None \<Rightarrow> None
      | Some buf \<Rightarrow> if sign then (if length buf < 16 then Some (buf @ [of_char CHR ''-'']) else None) else Some buf)"

definition printint :: "cint \<Rightarrow> uint \<Rightarrow> bool \<Rightarrow> 'z prstate_scheme \<Rightarrow> (unit, 'z prstate_scheme) res" where
  "printint xx base sign s =
     (case printint_buf xx base sign of None \<Rightarrow> Fault | Some buf \<Rightarrow> consputs (rev buf) s)"

definition printptr :: "uint64 \<Rightarrow> 'z prstate_scheme \<Rightarrow> (unit, 'z prstate_scheme) res" where
  "printptr x s =
     consputs (bytes ''0x'' @ map (\<lambda>i. digits ! unat (drop_bit 60 (push_bit (4 * i) x))) [0..<16]) s"

text \<open>The loop over the format; an argument of another type than the directive is undefined.\<close>

fun printf_loop :: "uchar list \<Rightarrow> farg list \<Rightarrow> 'z prstate_scheme \<Rightarrow> (unit, 'z prstate_scheme) res" where
  "printf_loop [] ap s = Ret () s"
| "printf_loop [c] ap s = (if c = of_char CHR ''%'' then Ret () s else consputc (ucast c) s)"
| "printf_loop (c # d # fmt) ap s =
     (if c \<noteq> of_char CHR ''%'' then res_bind (consputc (ucast c) s) (\<lambda>_ s. printf_loop (d # fmt) ap s)
      else if d = of_char CHR ''d'' then
        (case ap of IntArg x # ap \<Rightarrow> res_bind (printint x 10 True s) (\<lambda>_ s. printf_loop fmt ap s) | _ \<Rightarrow> Fault)
      else if d = of_char CHR ''x'' then
        (case ap of IntArg x # ap \<Rightarrow> res_bind (printint x 16 True s) (\<lambda>_ s. printf_loop fmt ap s) | _ \<Rightarrow> Fault)
      else if d = of_char CHR ''p'' then
        (case ap of PtrArg x # ap \<Rightarrow> res_bind (printptr x s) (\<lambda>_ s. printf_loop fmt ap s) | _ \<Rightarrow> Fault)
      else if d = of_char CHR ''s'' then
        (case ap of
           StrArg x # ap \<Rightarrow> res_bind (consputs (case x of None \<Rightarrow> bytes ''(null)'' | Some str \<Rightarrow> str) s) (\<lambda>_ s. printf_loop fmt ap s)
         | _ \<Rightarrow> Fault)
      else if d = of_char CHR ''%'' then res_bind (consputc (ucast d) s) (\<lambda>_ s. printf_loop fmt ap s)
      else res_bind (consputc (of_char CHR ''%'') s) (\<lambda>_ s. res_bind (consputc (ucast d) s) (\<lambda>_ s. printf_loop fmt ap s)))"

definition printf :: "uchar list option \<Rightarrow> farg list \<Rightarrow> 'z prstate_scheme \<Rightarrow> (unit, 'z prstate_scheme) res" where
  "printf fmt ap s =
     (let locking = pr_locking s in
      res_bind (if locking then lock_acquire PrLock s else Ret () s) (\<lambda>_ s.
      case fmt of
        None \<Rightarrow> Panic ''null fmt''
      | Some fmt \<Rightarrow> res_bind (printf_loop fmt ap s) (\<lambda>_ s. if locking then lock_release PrLock s else Ret () s)))"

definition printfinit :: "'z prstate_scheme \<Rightarrow> 'z prstate_scheme" where
  "printfinit s = s\<lparr>pr_locking := True\<rparr>"

text \<open>The names of the states and the listing the console prints for control-P.\<close>

fun state_name :: "procstate \<Rightarrow> string" where
  "state_name UNUSED = ''unused''"
| "state_name USED = ''used''"
| "state_name SLEEPING = ''sleep ''"
| "state_name RUNNABLE = ''runble''"
| "state_name RUNNING = ''run   ''"
| "state_name ZOMBIE = ''zombie''"

definition procdump :: "'z prstate_scheme \<Rightarrow> (unit, 'z prstate_scheme) res" where
  "procdump s =
     res_bind (printf (Some [10]) [] s) (\<lambda>_ s.
     res_bind (for_loop (\<lambda>i s.
         if pstate (procs s i) = UNUSED then Ret None s
         else res_bind (printf (Some (bytes ''%d %s %s''))
                [IntArg (pid (procs s i)), StrArg (Some (bytes (state_name (pstate (procs s i))))),
                 StrArg (Some (cstr (pname (procs s i))))] s) (\<lambda>_ s.
              res_bind (printf (Some [10]) [] s) (\<lambda>_ s. Ret (None :: unit option) s))) [0..<NPROC] s) (\<lambda>_ s. Ret () s))"

section \<open>Output\<close>

definition tx_idle :: "uchar \<Rightarrow> bool" where
  "tx_idle v \<longleftrightarrow> v AND LSR_TX_IDLE \<noteq> 0"

text \<open>The device will accept that many more bytes, if polled long enough.\<close>

definition accepts :: "'z ustate_scheme \<Rightarrow> nat" where
  "accepts s = length (filter tx_idle (lsr (uart s)))"

text \<open>\<open>prints s cs t\<close>: from \<open>s\<close> to \<open>t\<close> the bytes \<open>cs\<close> have gone out and nothing else has happened.\<close>

definition prints :: "'z ustate_scheme \<Rightarrow> uchar list \<Rightarrow> 'z ustate_scheme \<Rightarrow> bool" where
  "prints s cs t \<longleftrightarrow> (\<exists>vs. t = upd_uart (\<lambda>u. u\<lparr>lsr := vs, thr := thr u @ cs\<rparr>) s \<and> length (filter tx_idle vs) + length cs = accepts s)"

lemma printsD:
  assumes "prints s cs t"
  shows "thr (uart t) = thr (uart s) @ cs" "accepts t + length cs = accepts s" "held t = held s"
    "panicked (uart t) = panicked (uart s)" "procs t = procs s"
  using assms by (auto simp: prints_def upd_uart_def accepts_def)

lemma prints_Nil: "prints s [] s"
  unfolding prints_def by (rule exI [of _ "lsr (uart s)"]) (simp add: upd_uart_def accepts_def)

lemma prints_trans: "prints s cs t \<Longrightarrow> prints t ds u \<Longrightarrow> prints s (cs @ ds) u"
proof -
  assume "prints s cs t" "prints t ds u"
  then obtain vs ws where "t = upd_uart (\<lambda>u. u\<lparr>lsr := vs, thr := thr u @ cs\<rparr>) s" "length (filter tx_idle vs) + length cs = accepts s"
    "u = upd_uart (\<lambda>u. u\<lparr>lsr := ws, thr := thr u @ ds\<rparr>) t" "length (filter tx_idle ws) + length ds = accepts t"
    unfolding prints_def by blast
  then show ?thesis unfolding prints_def by (intro exI [of _ ws]) (simp add: upd_uart_def accepts_def)
qed

lemma uartputc_sync_prints:
  assumes "\<not> panicked (uart s)" and "0 < accepts s"
  shows "\<exists>t. uartputc_sync c s = Ret () t \<and> prints s [c] t"
proof -
  have "\<exists>ws. uartputc_poll vs c s = Ret () (upd_uart (\<lambda>u. u\<lparr>lsr := ws, thr := thr u @ [c]\<rparr>) s) \<and>
      Suc (length (filter tx_idle ws)) = length (filter tx_idle vs)" if "0 < length (filter tx_idle vs)" for vs
    using that by (induction vs) (auto simp: tx_idle_def)
  from this [of "lsr (uart s)"] assms show ?thesis
    by (auto simp: uartputc_sync_def prints_def accepts_def)
qed

lemma consputc_prints:
  assumes "\<not> panicked (uart s)" and "0 < accepts s" and "c \<noteq> BACKSPACE"
  shows "\<exists>t. consputc c s = Ret () t \<and> prints s [ucast c] t"
  using uartputc_sync_prints [OF assms(1,2)] assms(3) by (simp add: consputc_def)

lemma ucast_not_backspace: "ucast (c :: uchar) \<noteq> BACKSPACE"
proof
  assume "ucast c = BACKSPACE"
  then have "unat (ucast c :: cint) = 256" by (simp add: BACKSPACE_def)
  moreover have "unat (ucast c :: cint) < 256" using unsigned_less [of c, where ?'a = nat]
    by (simp add: unsigned_ucast_eq take_bit_nat_eq_self)
  ultimately show False by simp
qed

lemma ucast_back [simp]: "ucast (ucast (c :: uchar) :: cint) = c"
  by (rule bit_word_eqI) (simp add: bit_simps)

lemma consputs_prints:
  assumes "\<not> panicked (uart s)" and "length cs \<le> accepts s"
  shows "\<exists>t. consputs cs s = Ret () t \<and> prints s cs t"
  using assms
proof (induction cs arbitrary: s)
  case Nil
  then show ?case using prints_Nil by auto
next
  case (Cons c cs)
  have "0 < accepts s" using Cons.prems(2) by (cases "accepts s") simp_all
  from consputc_prints [OF Cons.prems(1) this ucast_not_backspace [of c]] obtain t where
    t: "consputc (ucast c) s = Ret () t" "prints s [c] t" by auto
  note p = printsD [OF t(2)]
  have "\<not> panicked (uart t)" "length cs \<le> accepts t" using p(2,4) Cons.prems by simp_all
  from Cons.IH [OF this] obtain u where "consputs cs t = Ret () u" "prints t cs u" by blast
  then show ?case using t prints_trans [OF t(2)] by auto
qed

section \<open>Decimal numbers\<close>

definition dec_nat :: "uchar list \<Rightarrow> nat" where
  "dec_nat cs = fold (\<lambda>c v. 10 * v + (unat c - 48)) cs 0"

text \<open>
  The decimal notation of a number: its digits without leading zeros, at least one, behind a minus
  sign if the number is negative.
\<close>

function dec_digits :: "nat \<Rightarrow> uchar list" where
  "dec_digits n = (if n < 10 then [of_nat (48 + n)] else dec_digits (n div 10) @ [of_nat (48 + n mod 10)])"
  by pat_completeness auto
termination by (relation "measure id") simp_all

declare dec_digits.simps [simp del]

definition decimal :: "int \<Rightarrow> uchar list" where
  "decimal i = (if i < 0 then of_char CHR ''-'' # dec_digits (nat (- i)) else dec_digits (nat i))"

definition is_digit :: "uchar \<Rightarrow> bool" where
  "is_digit c \<longleftrightarrow> 48 \<le> unat c \<and> unat c \<le> 57"

lemma dec_nat_snoc: "dec_nat (cs @ [c]) = 10 * dec_nat cs + (unat c - 48)"
  by (simp add: dec_nat_def)

lemma digit_char: "d < 10 \<Longrightarrow> unat (digits ! d) = 48 + d"
proof -
  assume "d < 10"
  then have "d \<in> {0, 1, 2, 3, 4, 5, 6, 7, 8, 9}" by auto
  then show ?thesis by (auto simp: digits_def bytes_def)
qed

lemma digit_char_of_nat: "d < 10 \<Longrightarrow> digits ! d = of_nat (48 + d)"
proof -
  assume "d < 10"
  then have "unat (of_nat (48 + d) :: uchar) = 48 + d" by (simp only: unsigned_of_nat) (simp add: take_bit_nat_eq_self)
  with \<open>d < 10\<close> show ?thesis by (simp only: word_unat_eq_iff digit_char)
qed

lemma printint_loop_dec:
  assumes "unat x < 10 ^ n" and "0 < n"
  shows "\<exists>ds. printint_loop (n + k) x 10 = Some ds \<and> dec_nat (rev ds) = unat x \<and> length ds \<le> n \<and> ds \<noteq> [] \<and> list_all is_digit ds \<and>
    rev ds = dec_digits (unat x)"
  using assms
proof (induction n arbitrary: x)
  case 0
  then show ?case by simp
next
  case (Suc n)
  have m: "unat (x mod 10) = unat x mod 10" and q: "unat (x div 10) = unat x div 10" by (simp_all add: unat_mod unat_div)
  let ?d = "digits ! unat (x mod 10)"
  have d: "unat ?d = 48 + unat x mod 10" "?d = of_nat (48 + unat x mod 10)" 
    unfolding m by (rule digit_char, simp) (rule digit_char_of_nat, simp)
  then have dd: "is_digit ?d" by (simp only: is_digit_def) simp
  show ?case
  proof (cases "x div 10 = 0")
    case True
    then have "unat x div 10 = 0" using q by (metis unat_0)
    then have x: "unat x mod 10 = unat x" "unat x < 10" by simp_all
    then have "dec_digits (unat x) = [?d]" using d(2) by (simp add: dec_digits.simps [of "unat x"])
    then show ?thesis using True d(1) dd x(1) by (simp add: Let_def dec_nat_def)
  next
    case False
    then have "0 < unat x div 10" using q by (simp add: unat_gt_0 [symmetric])
    then have "0 < n" using Suc.prems(1) by (cases n) auto
    moreover have "unat (x div 10) < 10 ^ n" using Suc.prems(1) q by (simp add: less_mult_imp_div_less mult.commute)
    ultimately obtain ds where ds: "printint_loop (n + k) (x div 10) 10 = Some ds" "dec_nat (rev ds) = unat (x div 10)"
      "length ds \<le> n" "list_all is_digit ds" "rev ds = dec_digits (unat (x div 10))" using Suc.IH by blast
    have "dec_nat (rev (?d # ds)) = unat x" using ds(2) d(1) q by (simp add: dec_nat_snoc)
    moreover have "\<not> unat x < 10" using \<open>0 < unat x div 10\<close> by (simp add: div_greater_zero_iff)
    then have "rev (?d # ds) = dec_digits (unat x)"
      using ds(5) d(2) q by (simp add: dec_digits.simps [of "unat x"])
    ultimately show ?thesis using False ds(1,3,4) dd by (simp add: Let_def)
  qed
qed

lemma sint_cint: "sint (x :: cint) = (if uint x < 2 ^ 31 then uint x else uint x - 2 ^ 32)"
proof -
  have u: "0 \<le> uint x" "uint x < 2 ^ 32" using unsigned_less [of x, where ?'a = int] by simp_all
  have "sint x = (uint x + 2 ^ 31) mod 2 ^ 32 - 2 ^ 31"
    by (simp add: sint_uint signed_take_bit_eq_take_bit_shift take_bit_eq_mod)
  moreover have "(uint x + 2 ^ 31) mod 2 ^ 32 = (if uint x < 2 ^ 31 then uint x + 2 ^ 31 else uint x - 2 ^ 31)"
  proof (cases "uint x < 2 ^ 31")
    case True
    then show ?thesis using u by (simp add: mod_pos_pos_trivial)
  next
    case False
    have "(uint x + 2 ^ 31) mod 2 ^ 32 = ((uint x - 2 ^ 31) + 2 ^ 32) mod 2 ^ 32"
      by (rule arg_cong [where f = "\<lambda>k. k mod 2 ^ 32"]) simp
    also have "\<dots> = (uint x - 2 ^ 31) mod 2 ^ 32" by (rule mod_add_self2)
    also have "\<dots> = uint x - 2 ^ 31" using False u by (simp add: mod_pos_pos_trivial)
    finally show ?thesis using False by simp
  qed
  ultimately show ?thesis by simp
qed

lemma printint_buf_dec:
  "\<exists>buf. printint_buf x 10 True = Some buf \<and> rev buf = decimal (sint x) \<and> length buf \<le> 11"
proof -
  let ?y = "if sint x < 0 then - x else x"
  have "unat ?y < 10 ^ 10" using unsigned_less [of ?y, where ?'a = nat] by (simp del: if_split)
  from printint_loop_dec [OF this, of 6] obtain ds where ds: "printint_loop 16 ?y 10 = Some ds" "rev ds = dec_digits (unat ?y)"
    "length ds \<le> 10" by auto
  show ?thesis
  proof (cases "sint x < 0")
    case True
    have "int (unat (- x)) = - sint x"
    proof -
      have u: "uint (- x) = (- uint x) mod 2 ^ 32" by (simp add: uint_word_ariths)
      have s: "sint x = uint x - 2 ^ 32" and "2 ^ 31 \<le> uint x"
        using True sint_cint [of x] by (auto split: if_splits)
      have "0 < uint x" "uint x < 2 ^ 32" using \<open>2 ^ 31 \<le> uint x\<close> unsigned_less [of x, where ?'a = int] by simp_all
      then have "(- uint x) mod 2 ^ 32 = 2 ^ 32 - uint x" by (simp add: zmod_zminus1_eq_if)
      then show ?thesis using u s by simp
    qed
    then have "nat (- sint x) = unat (- x)" by (metis nat_int)
    then show ?thesis using True ds(1,3) ds(2) [symmetric] by (simp add: printint_buf_def Let_def decimal_def)
  next
    case False
    have "int (unat x) = sint x"
      using False sint_cint [of x] unsigned_less [of x, where ?'a = int] by (auto split: if_splits)
    then have "nat (sint x) = unat x" by (metis nat_int)
    then show ?thesis using False ds by (simp add: printint_buf_def Let_def decimal_def)
  qed
qed

text \<open>
  C39. \<^verbatim>\<open>printf("%d", x)\<close> prints the decimal notation of the signed number \<^verbatim>\<open>x\<close>, the most negative one
  included: exactly these bytes reach the serial port, the 16-byte buffer of \<^verbatim>\<open>printint\<close> is never
  exceeded, and the lock of \<^verbatim>\<open>printf\<close> is free again. The port is taken to accept 11 bytes.
\<close>

theorem printf_decimal:
  assumes "\<not> panicked (uart s)" and "11 \<le> accepts s" and "PrLock \<notin> set (held s)"
  shows "\<exists>t. printf (Some (bytes ''%d'')) [IntArg x] s = Ret () t \<and> prints s (decimal (sint x)) t"
proof -
  obtain buf where buf: "printint_buf x 10 True = Some buf" "rev buf = decimal (sint x)" "length buf \<le> 11"
    using printint_buf_dec by blast
  let ?s = "if pr_locking s then s\<lparr>held := PrLock # held s\<rparr> else s"
  have "\<not> panicked (uart ?s)" "length (rev buf) \<le> accepts ?s" using assms(1,2) buf(3) by (simp_all add: accepts_def)
  from consputs_prints [OF this] obtain t where t: "consputs (rev buf) ?s = Ret () t" "prints ?s (rev buf) t" by blast
  have run: "printf (Some (bytes ''%d'')) [IntArg x] s =
      Ret () (if pr_locking s then t\<lparr>held := held s\<rparr> else t)"
    using t(1) buf(1) assms(3) printsD(3) [OF t(2)]
    by (auto simp: printf_def bytes_def printint_def lock_simps Let_def)
  have "prints s (rev buf) (if pr_locking s then t\<lparr>held := held s\<rparr> else t)"
    using t(2) by (auto simp: prints_def upd_uart_def accepts_def)
  then show ?thesis using run buf(2) by (intro exI [of _ "if pr_locking s then t\<lparr>held := held s\<rparr> else t"]) simp
qed

definition blank_prstate :: prstate where
  "blank_prstate = ustate.extend (blank_ustate\<lparr>uart := blank_uart\<lparr>lsr := replicate 20 0x20\<rparr>\<rparr>) \<lparr>pr_locking = True\<rparr>"

theorem printf_decimal_witness:
  "(\<exists>t. printf (Some (bytes ''%d'')) [IntArg (-42)] blank_prstate = Ret () t \<and> thr (uart t) = 72 # bytes ''-42'') \<and>
   (\<exists>t. printf (Some (bytes ''%d'')) [IntArg 0] blank_prstate = Ret () t \<and> thr (uart t) = 72 # bytes ''0'')"
proof -
  have b: "\<not> panicked (uart blank_prstate)" "11 \<le> accepts blank_prstate" "PrLock \<notin> set (held blank_prstate)"
    by (simp_all add: blank_prstate_def ustate.defs blank_uart_def accepts_def tx_idle_def LSR_TX_IDLE_def blank_ustate_def
        lgstate.defs bstate.defs blank_bstate_def)
  have thr: "thr (uart blank_prstate) = [72]" by (simp add: blank_prstate_def ustate.defs blank_uart_def)
  have d: "decimal (sint (-42 :: cint)) = bytes ''-42''" "decimal (sint (0 :: cint)) = bytes ''0''"
    by (simp_all add: decimal_def dec_digits.simps bytes_def)
  from printf_decimal [OF b, of "-42"] obtain t where
    "printf (Some (bytes ''%d'')) [IntArg (-42)] blank_prstate = Ret () t" "prints blank_prstate (bytes ''-42'') t"
    unfolding d by blast
  moreover from printf_decimal [OF b, of 0] obtain u where
    "printf (Some (bytes ''%d'')) [IntArg 0] blank_prstate = Ret () u" "prints blank_prstate (bytes ''0'') u"
    unfolding d by blast
  ultimately show ?thesis using printsD(1) thr by (metis append_Cons append_Nil)
qed

end
