(* ===== verification/Console.thy ===== *)
theory Console
  imports Printf
begin

text \<open>
  \<^verbatim>\<open>kernel/console.c\<close>: line editing of keyboard input. The three counters delimit what has been
  read, the complete lines and the line being edited.
\<close>

section \<open>State\<close>

definition INPUT_BUF_SIZE :: nat where "INPUT_BUF_SIZE = 128"

record consst =
  cons_buf :: "uchar list"
  cons_r :: uint
  cons_w :: uint
  cons_e :: uint

text \<open>The functions a driver can enter in \<^verbatim>\<open>devsw\<close>.\<close>

datatype devfn = Fconsoleread | Fconsolewrite

record devsw_entry =
  dev_read :: "devfn option"
  dev_write :: "devfn option"

record cnstate = prstate +
  cons :: consst
  devsw :: "nat \<Rightarrow> devsw_entry"

definition CONSOLE :: nat where "CONSOLE = 1"

definition upd_cons :: "(consst \<Rightarrow> consst) \<Rightarrow> 'z cnstate_scheme \<Rightarrow> 'z cnstate_scheme" where
  "upd_cons f s = s\<lparr>cons := f (cons s)\<rparr>"

definition ctrl :: "char \<Rightarrow> cint" where
  "ctrl c = of_char c - of_char CHR ''@''"

section \<open>Routines\<close>

text \<open>The loop of \<^verbatim>\<open>consolewrite\<close> with \<open>i\<close> bytes sent and \<open>k\<close> to go.\<close>

fun consolewrite_loop :: "vm_ops \<Rightarrow> source \<Rightarrow> nat \<Rightarrow> nat \<Rightarrow> 'z cnstate_scheme \<Rightarrow> (cint, 'z cnstate_scheme) res" where
  "consolewrite_loop vm src i 0 s = Ret (of_nat i) s"
| "consolewrite_loop vm src i (Suc k) s =
     res_bind (either_copyin vm (source_add src i) 1 s) (\<lambda>(r, bs) s.
       if r = minus_one then Ret (of_nat i) s
       else res_bind (uartputc (hd bs) s) (\<lambda>_ s. consolewrite_loop vm src (Suc i) k s))"

definition consolewrite :: "vm_ops \<Rightarrow> source \<Rightarrow> cint \<Rightarrow> 'z cnstate_scheme \<Rightarrow> (cint, 'z cnstate_scheme) res" where
  "consolewrite vm src n s = consolewrite_loop vm src 0 (nat (sint n)) s"

text \<open>
  The loop of \<^verbatim>\<open>consoleread\<close> with \<open>n\<close> bytes to go; the second component collects the bytes for a
  destination in the kernel. A call of \<^verbatim>\<open>sleep\<close> continues in \<open>consoleread_resume\<close>, never behind it.
\<close>

fun consoleread_loop :: "vm_ops \<Rightarrow> nat \<Rightarrow> cint \<Rightarrow> dest \<Rightarrow> uchar list \<Rightarrow> 'z cnstate_scheme \<Rightarrow>
    (cint \<times> uchar list, 'z cnstate_scheme) res" where
  "consoleread_loop vm 0 target dst out s =
     res_bind (lock_release ConsLock s) (\<lambda>_ s. Ret (target, out) s)"
| "consoleread_loop vm (Suc n) target dst out s =
     (if cons_r (cons s) = cons_w (cons s) then
        with_proc (\<lambda>p s.
          res_bind (killed p s) (\<lambda>k s.
            if k \<noteq> 0 then res_bind (lock_release ConsLock s) (\<lambda>_ s. Ret (minus_one, out) s)
            else res_bind (sleep (Some ChanConsR) ConsLock s) (\<lambda>_ s. Hang))) s
      else
        let c = cons_buf (cons s) ! (unat (cons_r (cons s)) mod INPUT_BUF_SIZE);
            s = upd_cons (\<lambda>q. q\<lparr>cons_r := cons_r q + 1\<rparr>) s
        in if ucast c = ctrl CHR ''D'' then
             let s = (if int (Suc n) < sint target then upd_cons (\<lambda>q. q\<lparr>cons_r := cons_r q - 1\<rparr>) s else s)
             in res_bind (lock_release ConsLock s) (\<lambda>_ s. Ret (target - of_nat (Suc n), out) s)
           else res_bind (either_copyout vm dst [c] s) (\<lambda>r s.
             if r = minus_one then res_bind (lock_release ConsLock s) (\<lambda>_ s. Ret (target - of_nat (Suc n), out) s)
             else if c = 10 then res_bind (lock_release ConsLock s) (\<lambda>_ s. Ret (target - of_nat n, out @ [c]) s)
             else consoleread_loop vm n target (dest_add dst 1) (out @ [c]) s))"

definition consoleread :: "vm_ops \<Rightarrow> dest \<Rightarrow> cint \<Rightarrow> 'z cnstate_scheme \<Rightarrow> (cint \<times> uchar list, 'z cnstate_scheme) res" where
  "consoleread vm dst n s =
     res_bind (lock_acquire ConsLock s) (\<lambda>_ s. 
       if sint n \<le> 0 then res_bind (lock_release ConsLock s) (\<lambda>_ s. Ret (0, []) s)
       else consoleread_loop vm (nat (sint n)) n dst [] s)"

definition consoleread_resume :: "nat \<Rightarrow> vm_ops \<Rightarrow> nat \<Rightarrow> cint \<Rightarrow> dest \<Rightarrow> uchar list \<Rightarrow> 'z cnstate_scheme \<Rightarrow>
    (cint \<times> uchar list, 'z cnstate_scheme) res" where
  "consoleread_resume p vm n target dst out s =
     res_bind (sleep_resume p ConsLock s) (\<lambda>_ s. consoleread_loop vm n target dst out s)"

text \<open>Erasing the edited line; the first argument is its length.\<close>

fun kill_line :: "nat \<Rightarrow> 'z cnstate_scheme \<Rightarrow> (unit, 'z cnstate_scheme) res" where
  "kill_line 0 s = Ret () s"
| "kill_line (Suc k) s =
     (if cons_e (cons s) \<noteq> cons_w (cons s) \<and> cons_buf (cons s) ! (unat (cons_e (cons s) - 1) mod INPUT_BUF_SIZE) \<noteq> 10 then
        let s = upd_cons (\<lambda>q. q\<lparr>cons_e := cons_e q - 1\<rparr>) s
        in res_bind (consputc BACKSPACE s) (\<lambda>_ s. kill_line k s)
      else Ret () s)"

definition consoleintr :: "cint \<Rightarrow> 'z cnstate_scheme \<Rightarrow> (unit, 'z cnstate_scheme) res" where
  "consoleintr c s =
     res_bind (lock_acquire ConsLock s) (\<lambda>_ s.
     res_bind
       (if c = ctrl CHR ''P'' then procdump s
        else if c = ctrl CHR ''U'' then kill_line (unat (cons_e (cons s) - cons_w (cons s))) s
        else if c = ctrl CHR ''H'' \<or> c = 0x7f then
          if cons_e (cons s) \<noteq> cons_w (cons s) then consputc BACKSPACE (upd_cons (\<lambda>q. q\<lparr>cons_e := cons_e q - 1\<rparr>) s)
          else Ret () s
        else if c \<noteq> 0 \<and> unat (cons_e (cons s) - cons_r (cons s)) < INPUT_BUF_SIZE then
          let c = (if c = 13 then 10 else c) in
          res_bind (consputc c s) (\<lambda>_ s.
            let s = upd_cons (\<lambda>q. q\<lparr>cons_buf := (cons_buf q)[unat (cons_e q) mod INPUT_BUF_SIZE := ucast c],
                                    cons_e := cons_e q + 1\<rparr>) s
            in if c = 10 \<or> c = ctrl CHR ''D'' \<or> cons_e (cons s) - cons_r (cons s) = of_nat INPUT_BUF_SIZE then
                 wakeup (Some ChanConsR) (upd_cons (\<lambda>q. q\<lparr>cons_w := cons_e q\<rparr>) s)
               else Ret () s)
        else Ret () s) (\<lambda>_ s. lock_release ConsLock s))"

text \<open>The loop of \<^verbatim>\<open>uartintr\<close> takes a byte from the receive register in every round.\<close>

fun uartintr_loop :: "nat \<Rightarrow> 'z cnstate_scheme \<Rightarrow> (unit, 'z cnstate_scheme) res" where
  "uartintr_loop 0 s = Hang"
| "uartintr_loop (Suc k) s =
     res_bind (uartgetc s) (\<lambda>c s.
       case c of None \<Rightarrow> Ret () s
       | Some c \<Rightarrow> res_bind (consoleintr (ucast c) s) (\<lambda>_ s. uartintr_loop k s))"

definition uartintr :: "'z cnstate_scheme \<Rightarrow> (unit, 'z cnstate_scheme) res" where
  "uartintr s =
     res_bind (uartintr_loop (Suc (length (rhr (uart s)))) s) (\<lambda>_ s.
     res_bind (lock_acquire UartTxLock s) (\<lambda>_ s.
     res_bind (uartstart s) (\<lambda>_ s. lock_release UartTxLock s)))"

definition consoleinit :: "'z cnstate_scheme \<Rightarrow> 'z cnstate_scheme" where
  "consoleinit s =
     (let s = uartinit s
      in s\<lparr>devsw := (devsw s)(CONSOLE := \<lparr>dev_read = Some Fconsoleread, dev_write = Some Fconsolewrite\<rparr>)\<rparr>)"

section \<open>Lines\<close>

definition lines :: "'z cnstate_scheme \<Rightarrow> uchar list" where
  "lines s = ring (cons_buf (cons s)) (cons_r (cons s)) (cons_w (cons s))"

definition edit :: "'z cnstate_scheme \<Rightarrow> uchar list" where
  "edit s = ring (cons_buf (cons s)) (cons_w (cons s)) (cons_e (cons s))"

definition cons_inv :: "'z cnstate_scheme \<Rightarrow> bool" where
  "cons_inv s \<longleftrightarrow> length (cons_buf (cons s)) = INPUT_BUF_SIZE \<and> length (lines s) + length (edit s) \<le> INPUT_BUF_SIZE"

text \<open>What a key does to the complete lines and the line being edited.\<close>

definition key :: "cint \<Rightarrow> uchar list \<times> uchar list \<Rightarrow> uchar list \<times> uchar list" where
  "key c = (\<lambda>(l, e).
     if c = ctrl CHR ''P'' then (l, e)
     else if c = ctrl CHR ''U'' then (l, rev (dropWhile (\<lambda>c. c \<noteq> 10) (rev e)))
     else if c = ctrl CHR ''H'' \<or> c = 0x7f then (l, butlast e)
     else if c \<noteq> 0 \<and> length l + length e < INPUT_BUF_SIZE then
       let c = (if c = 13 then 10 else c); e = e @ [ucast c] in
       if c = 10 \<or> c = ctrl CHR ''D'' \<or> length l + length e = INPUT_BUF_SIZE then (l @ e, []) else (l, e)
     else (l, e))"

lemma cons_span:
  assumes "cons_inv s"
  shows "unat (cons_e (cons s) - cons_r (cons s)) = length (lines s) + length (edit s)"
    and "ring (cons_buf (cons s)) (cons_r (cons s)) (cons_e (cons s)) = lines s @ edit s"
proof -
  let ?q = "cons s"
  have lt: "unat (cons_w ?q - cons_r ?q) + unat (cons_e ?q - cons_w ?q) < 2 ^ LENGTH(32)"
    using assms by (simp add: cons_inv_def lines_def edit_def INPUT_BUF_SIZE_def)
  show "ring (cons_buf ?q) (cons_r ?q) (cons_e ?q) = lines s @ edit s"
    unfolding lines_def edit_def by (rule ring_append [OF lt])
  then have "length (ring (cons_buf ?q) (cons_r ?q) (cons_e ?q)) = length (lines s) + length (edit s)" by simp
  then show "unat (cons_e ?q - cons_r ?q) = length (lines s) + length (edit s)" by simp
qed

lemma cons_erase:
  assumes "cons_inv s" and "cons_e (cons s) \<noteq> cons_w (cons s)"
  defines "t \<equiv> upd_cons (\<lambda>q. q\<lparr>cons_e := cons_e q - 1\<rparr>) s"
  shows "cons_inv t" "lines t = lines s" "edit t = butlast (edit s)"
    "last (edit s) = cons_buf (cons s) ! (unat (cons_e (cons s) - 1) mod INPUT_BUF_SIZE)" "edit s \<noteq> []"
proof -
  show e: "edit t = butlast (edit s)" using ring_unpush [OF assms(2)] by (simp add: t_def edit_def upd_cons_def)
  show l: "lines t = lines s" by (simp add: t_def lines_def upd_cons_def)
  have "length (edit t) \<le> length (edit s)" unfolding e by simp
  then show "cons_inv t" using assms(1) l unfolding cons_inv_def by (simp add: t_def upd_cons_def)
  show "last (edit s) = cons_buf (cons s) ! (unat (cons_e (cons s) - 1) mod INPUT_BUF_SIZE)"
    using ring_last [OF assms(2), of "cons_buf (cons s)"] assms(1) unfolding edit_def cons_inv_def by simp
  show "edit s \<noteq> []" using assms(2) by (simp add: edit_def ring_empty_iff)
qed

lemma cons_store:
  fixes s :: "'z cnstate_scheme" and c :: uchar
  assumes inv: "cons_inv s" and room: "length (lines s) + length (edit s) < INPUT_BUF_SIZE"
  defines "t \<equiv> upd_cons (\<lambda>q. q\<lparr>cons_buf := (cons_buf q)[unat (cons_e q) mod INPUT_BUF_SIZE := c], cons_e := cons_e q + 1\<rparr>) s"
  shows "cons_inv t" "lines t = lines s" "edit t = edit s @ [c]"
proof -
  let ?q = "cons s"
  let ?b = "(cons_buf ?q)[unat (cons_e ?q) mod INPUT_BUF_SIZE := c]"
  have N: "INPUT_BUF_SIZE dvd 2 ^ LENGTH(32)" "INPUT_BUF_SIZE < 2 ^ LENGTH(32)" by (simp_all add: INPUT_BUF_SIZE_def)
  have len: "length (cons_buf ?q) = INPUT_BUF_SIZE" using inv by (simp add: cons_inv_def)
  have sp: "unat (cons_e ?q - cons_r ?q) < INPUT_BUF_SIZE" using cons_span(1) [OF inv] room by simp
  have all: "ring ?b (cons_r ?q) (cons_e ?q + 1) = lines s @ edit s @ [c]"
    using ring_push [OF len N sp, of c] cons_span(2) [OF inv] by simp
  have "unat (cons_e ?q - cons_w ?q) < INPUT_BUF_SIZE" using room by (simp add: edit_def)
  note suc = unat_suc_diff [OF this N(2)]
  have "unat (cons_w ?q - cons_r ?q) + unat (cons_e ?q + 1 - cons_w ?q) < 2 ^ LENGTH(32)"
    using room suc by (simp add: lines_def edit_def INPUT_BUF_SIZE_def)
  from ring_append [OF this, of ?b] have two: "lines t @ edit t = lines s @ edit s @ [c]"
    using all by (simp add: t_def lines_def edit_def upd_cons_def)
  have "length (lines t) = length (lines s)" by (simp add: t_def lines_def upd_cons_def)
  then show "lines t = lines s" "edit t = edit s @ [c]" using two by simp_all
  then show "cons_inv t" using room len by (simp add: cons_inv_def) (simp add: t_def upd_cons_def)
qed

lemma lines_cong:
  "cons t = cons s \<Longrightarrow> lines t = lines s" "cons t = cons s \<Longrightarrow> edit t = edit s" "cons t = cons s \<Longrightarrow> cons_inv t = cons_inv s"
  by (simp_all add: lines_def edit_def cons_inv_def)

lemma prints_cons:
  "prints s cs t \<Longrightarrow> cons (t :: 'z cnstate_scheme) = cons s"
  by (auto simp: prints_def upd_uart_def)

lemma backspace_prints:
  assumes "\<not> panicked (uart s)" and "3 \<le> accepts s"
  shows "\<exists>t. consputc BACKSPACE s = Ret () t \<and> prints s [8, 32, 8] t"
proof -
  have "0 < accepts s" using assms(2) by simp
  from uartputc_sync_prints [OF assms(1) this] obtain t where t: "uartputc_sync 8 s = Ret () t" "prints s [8] t" by blast
  have "\<not> panicked (uart t)" "0 < accepts t" using printsD [OF t(2)] assms by simp_all
  from uartputc_sync_prints [OF this] obtain u where u: "uartputc_sync 32 t = Ret () u" "prints t [32] u" by blast
  have "\<not> panicked (uart u)" "0 < accepts u" using printsD [OF t(2)] printsD [OF u(2)] assms by simp_all
  from uartputc_sync_prints [OF this] obtain v where v: "uartputc_sync 8 u = Ret () v" "prints u [8] v" by blast
  have "prints s ([8] @ [32] @ [8]) v" by (rule prints_trans [OF t(2) prints_trans [OF u(2) v(2)]])
  then show ?thesis using t(1) u(1) v(1) by (simp add: consputc_def)
qed

lemma kill_line_spec:
  assumes "cons_inv s" and "\<not> panicked (uart s)" and "3 * length (edit s) \<le> accepts s" and "k = length (edit s)"
  shows "\<exists>t. kill_line k s = Ret () t \<and> cons_inv t \<and> held t = held s \<and> lines t = lines s \<and>
     edit t = rev (dropWhile (\<lambda>c. c \<noteq> 10) (rev (edit s)))"
  using assms
proof (induction k arbitrary: s)
  case 0
  then show ?case by simp
next
  case (Suc k)
  then have ne: "cons_e (cons s) \<noteq> cons_w (cons s)" by (auto simp: edit_def)
  let ?s = "upd_cons (\<lambda>q. q\<lparr>cons_e := cons_e q - 1\<rparr>) s"
  note er = cons_erase [OF Suc.prems(1) ne]
  have split: "rev (edit s) = last (edit s) # rev (butlast (edit s))" 
    using arg_cong [OF append_butlast_last_id [OF er(5)], of rev] by simp
  show ?case
  proof (cases "last (edit s) = 10")
    case True
    have "dropWhile (\<lambda>c. c \<noteq> 10) (rev (edit s)) = rev (edit s)" by (subst split, subst split) (simp add: True)
    moreover have "kill_line (Suc k) s = Ret () s" using er(4) True by simp
    ultimately show ?thesis using Suc.prems(1) by simp
  next
    case False
    have "\<not> panicked (uart ?s)" "3 \<le> accepts ?s" using Suc.prems(2-4) by (simp_all add: upd_cons_def accepts_def)
    from backspace_prints [OF this] obtain t where t: "consputc BACKSPACE ?s = Ret () t" "prints ?s [8, 32, 8] t" by blast
    have c: "cons t = cons ?s" by (rule prints_cons [OF t(2)])
    have lt: "lines t = lines s" "edit t = butlast (edit s)" "cons_inv t"
      using er(1-3) lines_cong [OF c] by simp_all
    have "length (edit t) = k" unfolding lt(2) using Suc.prems(4) by simp
    moreover have "accepts t + 3 = accepts s" using printsD(2) [OF t(2)] by (simp add: upd_cons_def accepts_def)
    ultimately have "3 * length (edit t) \<le> accepts t" using Suc.prems(3,4) by simp
    moreover have "\<not> panicked (uart t)" using printsD(4) [OF t(2)] Suc.prems(2) by (simp add: upd_cons_def)
    ultimately obtain u where u: "kill_line k t = Ret () u" "cons_inv u" "held u = held t" "lines u = lines t"
      "edit u = rev (dropWhile (\<lambda>c. c \<noteq> 10) (rev (edit t)))"
      using Suc.IH [OF lt(3)] \<open>length (edit t) = k\<close> by blast
    have "kill_line (Suc k) s = Ret () u" using ne False er(4) t(1) u(1) by (simp add: Let_def)
    moreover have "held u = held s" using u(3) printsD(3) [OF t(2)] by (simp add: upd_cons_def)
    moreover have "dropWhile (\<lambda>c. c \<noteq> 10) (rev (edit s)) = dropWhile (\<lambda>c. c \<noteq> 10) (rev (edit t))"
      unfolding split lt(2) using False by simp
    ultimately show ?thesis using u(2,4,5) lt(1) by simp
  qed
qed

lemma cons_commit:
  assumes "cons_inv s"
  defines "t \<equiv> upd_cons (\<lambda>q. q\<lparr>cons_w := cons_e q\<rparr>) s"
  shows "cons_inv t" "lines t = lines s @ edit s" "edit t = []"
proof -
  show l: "lines t = lines s @ edit s" using cons_span(2) [OF assms(1)] by (simp add: t_def lines_def upd_cons_def)
  show e: "edit t = []" by (simp add: t_def edit_def upd_cons_def)
  show "cons_inv t" using assms(1) unfolding cons_inv_def l e by (simp add: t_def upd_cons_def)
qed

lemma key_store:
  fixes t :: "'z cnstate_scheme" and d :: cint
  assumes inv: "cons_inv t" and room: "length (lines t) + length (edit t) < INPUT_BUF_SIZE" and np: "no_proc_lock t"
  defines "u \<equiv> upd_cons (\<lambda>q. q\<lparr>cons_buf := (cons_buf q)[unat (cons_e q) mod INPUT_BUF_SIZE := ucast d], cons_e := cons_e q + 1\<rparr>) t"
  shows "\<exists>w. (if d = 10 \<or> d = ctrl CHR ''D'' \<or> cons_e (cons u) - cons_r (cons u) = of_nat INPUT_BUF_SIZE
       then wakeup (Some ChanConsR) (upd_cons (\<lambda>q. q\<lparr>cons_w := cons_e q\<rparr>) u) else Ret () u) = Ret () w \<and>
     cons_inv w \<and> held w = held t \<and>
     (lines w, edit w) = (if d = 10 \<or> d = ctrl CHR ''D'' \<or> length (lines t) + Suc (length (edit t)) = INPUT_BUF_SIZE
        then (lines t @ edit t @ [ucast d], []) else (lines t, edit t @ [ucast d]))"
proof -
  note st = cons_store [OF inv room, of "ucast d", folded u_def]
  have span: "unat (cons_e (cons u) - cons_r (cons u)) = length (lines t) + Suc (length (edit t))"
    using cons_span(1) [OF st(1)] st(2,3) by simp
  then have full: "cons_e (cons u) - cons_r (cons u) = of_nat INPUT_BUF_SIZE \<longleftrightarrow> length (lines t) + Suc (length (edit t)) = INPUT_BUF_SIZE"
    by (simp add: word_unat_eq_iff INPUT_BUF_SIZE_def)
  have hu: "held u = held t" by (simp add: u_def upd_cons_def)
  show ?thesis
  proof (cases "d = 10 \<or> d = ctrl CHR ''D'' \<or> length (lines t) + Suc (length (edit t)) = INPUT_BUF_SIZE")
    case True
    define v where "v = upd_cons (\<lambda>q. q\<lparr>cons_w := cons_e q\<rparr>) u"
    let ?w = "v\<lparr>procs := woken (Some ChanConsR) (myproc v) (procs v)\<rparr>"
    have hv: "held v = held t" using hu by (simp add: v_def upd_cons_def)
    have npv: "no_proc_lock v" using np hv by (simp add: no_proc_lock_def)
    have wk: "wakeup (Some ChanConsR) v = Ret () ?w" by (rule wakeup_Ret) (rule no_proc_lockD [OF npv])
    note cm = cons_commit [OF st(1), folded v_def]
    have "cons_inv ?w" "lines ?w = lines t @ edit t @ [ucast d]" "edit ?w = []" using cm st(2,3) lines_cong [of ?w v] by simp_all
    then show ?thesis using True full wk hv unfolding v_def [symmetric] by simp
  next
    case False
    then show ?thesis using full st hu by simp
  qed
qed

text \<open>
  C37. Keyboard input refines line editing on lists. For every key but control-P, \<^verbatim>\<open>consoleintr\<close>
  returns and changes the complete lines and the line being edited exactly as \<open>key\<close> does: erase,
  kill, end of line, end of file and a full buffer included, also when the 32-bit counters wrap.
  The buffer never overflows.
\<close>

theorem consoleintr_refines:
  assumes "cons_inv s" and "c \<noteq> ctrl CHR ''P''" and "unat c < 256" and "\<not> panicked (uart s)"
    and "3 * INPUT_BUF_SIZE \<le> accepts s" and "ConsLock \<notin> set (held s)" and "no_proc_lock s"
  shows "\<exists>t. consoleintr c s = Ret () t \<and> cons_inv t \<and> held t = held s \<and> (lines t, edit t) = key c (lines s, edit s)"
proof -
  let ?s = "s\<lparr>held := ConsLock # held s\<rparr>"
  have I: "cons_inv ?s" "lines ?s = lines s" "edit ?s = edit s" using assms(1) by (simp_all add: cons_inv_def lines_def edit_def)
  have P: "\<not> panicked (uart ?s)" "3 * INPUT_BUF_SIZE \<le> accepts ?s" using assms(4,5) by (simp_all add: accepts_def)
  have E: "length (edit s) \<le> INPUT_BUF_SIZE" using assms(1) by (simp add: cons_inv_def)
  have fin: "\<exists>t. consoleintr c s = Ret () t \<and> cons_inv t \<and> held t = held s \<and> (lines t, edit t) = (l, e)"
    if "res_bind m (\<lambda>_ s. lock_release ConsLock s) = consoleintr c s" "m = Ret () u" "cons_inv u" "held u = ConsLock # held s"
      "lines u = l" "edit u = e" for m u l e
    using that by (intro exI [of _ "u\<lparr>held := held s\<rparr>"]) (auto simp: lock_simps cons_inv_def lines_def edit_def)
  have run: "consoleintr c s = res_bind
       (if c = ctrl CHR ''U'' then kill_line (unat (cons_e (cons ?s) - cons_w (cons ?s))) ?s
        else if c = ctrl CHR ''H'' \<or> c = 0x7f then
          if cons_e (cons ?s) \<noteq> cons_w (cons ?s) then consputc BACKSPACE (upd_cons (\<lambda>q. q\<lparr>cons_e := cons_e q - 1\<rparr>) ?s)
          else Ret () ?s
        else if c \<noteq> 0 \<and> unat (cons_e (cons ?s) - cons_r (cons ?s)) < INPUT_BUF_SIZE then
          let c = (if c = 13 then 10 else c) in
          res_bind (consputc c ?s) (\<lambda>_ s.
            let s = upd_cons (\<lambda>q. q\<lparr>cons_buf := (cons_buf q)[unat (cons_e q) mod INPUT_BUF_SIZE := ucast c],
                                    cons_e := cons_e q + 1\<rparr>) s
            in if c = 10 \<or> c = ctrl CHR ''D'' \<or> cons_e (cons s) - cons_r (cons s) = of_nat INPUT_BUF_SIZE then
                 wakeup (Some ChanConsR) (upd_cons (\<lambda>q. q\<lparr>cons_w := cons_e q\<rparr>) s)
               else Ret () s)
        else Ret () ?s) (\<lambda>_ s. lock_release ConsLock s)"
    using assms(2,6) unfolding consoleintr_def by (simp add: lock_acquire_free del: res_bind_if)
  consider "c = ctrl CHR ''U''" | "c \<noteq> ctrl CHR ''U''" "c = ctrl CHR ''H'' \<or> c = 0x7f"
    | "c \<noteq> ctrl CHR ''U''" "\<not> (c = ctrl CHR ''H'' \<or> c = 0x7f)" "c \<noteq> 0" "length (lines s) + length (edit s) < INPUT_BUF_SIZE"
    | "c \<noteq> ctrl CHR ''U''" "\<not> (c = ctrl CHR ''H'' \<or> c = 0x7f)" "\<not> (c \<noteq> 0 \<and> length (lines s) + length (edit s) < INPUT_BUF_SIZE)"
    by blast
  then show ?thesis
  proof cases
    case 1
    have "unat (cons_e (cons ?s) - cons_w (cons ?s)) = length (edit ?s)" by (simp add: edit_def)
    moreover have "3 * length (edit ?s) \<le> accepts ?s" using E P(2) unfolding I(3) by linarith
    ultimately obtain u where u: "kill_line (unat (cons_e (cons ?s) - cons_w (cons ?s))) ?s = Ret () u" "cons_inv u"
      "held u = held ?s" "lines u = lines ?s" "edit u = rev (dropWhile (\<lambda>c. c \<noteq> 10) (rev (edit ?s)))"
      using kill_line_spec [OF I(1) P(1)] by blast
    have "key c (lines s, edit s) = (lines s, rev (dropWhile (\<lambda>c. c \<noteq> 10) (rev (edit s))))" using 1 assms(2) by (simp add: key_def)
    then show ?thesis using fin [OF _ u(1,2)] u(3-5) run 1 I(2,3) by simp
  next
    case 2
    have k: "key c (lines s, edit s) = (lines s, butlast (edit s))" using 2 assms(2) by (auto simp: key_def)
    show ?thesis
    proof (cases "cons_e (cons s) = cons_w (cons s)")
      case True
      then have "edit s = []" by (simp add: edit_def)
      then show ?thesis using fin [OF _ refl I(1)] run 2 True I(2,3) k by auto
    next
      case False
      then have ne: "cons_e (cons ?s) \<noteq> cons_w (cons ?s)" by simp
      let ?t = "upd_cons (\<lambda>q. q\<lparr>cons_e := cons_e q - 1\<rparr>) ?s"
      note er = cons_erase [OF I(1) ne]
      have "\<not> panicked (uart ?t)" "3 \<le> accepts ?t" using P by (simp_all add: upd_cons_def accepts_def INPUT_BUF_SIZE_def)
      from backspace_prints [OF this] obtain u where u: "consputc BACKSPACE ?t = Ret () u" "prints ?t [8, 32, 8] u" by blast
      have cu: "cons u = cons ?t" by (rule prints_cons [OF u(2)])
      have "cons_inv u" "lines u = lines s" "edit u = butlast (edit s)"
        using er(1-3) I(2,3) lines_cong [OF cu] by simp_all
      moreover have "held u = ConsLock # held s" using printsD(3) [OF u(2)] by (simp add: upd_cons_def)
      ultimately show ?thesis using fin [OF _ u(1)] run 2 ne k by auto
    qed
  next
    case 3
    let ?c = "if c = 13 then 10 else c"
    have nb: "?c \<noteq> BACKSPACE"
    proof -
      have "unat ?c < 256" using assms(3) by simp
      then show ?thesis by (auto simp: BACKSPACE_def)
    qed
    have "0 < accepts ?s" using P(2) by (simp add: INPUT_BUF_SIZE_def)
    from consputc_prints [OF P(1) this nb] obtain t where t: "consputc ?c ?s = Ret () t" "prints ?s [ucast ?c] t" by blast
    have ct: "cons t = cons ?s" by (rule prints_cons [OF t(2)])
    have It: "cons_inv t" "lines t = lines s" "edit t = edit s" "held t = ConsLock # held s"
      using I lines_cong [OF ct] printsD(3) [OF t(2)] by simp_all
    have room: "length (lines t) + length (edit t) < INPUT_BUF_SIZE" using 3(4) It by simp
    have np: "no_proc_lock t" using assms(7) It(4) by (simp add: no_proc_lock_def)
    from key_store [OF It(1) room np, of ?c] obtain w where w:
      "(let s = upd_cons (\<lambda>q. q\<lparr>cons_buf := (cons_buf q)[unat (cons_e q) mod INPUT_BUF_SIZE := ucast ?c], cons_e := cons_e q + 1\<rparr>) t
        in if ?c = 10 \<or> ?c = ctrl CHR ''D'' \<or> cons_e (cons s) - cons_r (cons s) = of_nat INPUT_BUF_SIZE
           then wakeup (Some ChanConsR) (upd_cons (\<lambda>q. q\<lparr>cons_w := cons_e q\<rparr>) s) else Ret () s) = Ret () w"
      "cons_inv w" "held w = held t" "(lines w, edit w) =
        (if ?c = 10 \<or> ?c = ctrl CHR ''D'' \<or> length (lines t) + Suc (length (edit t)) = INPUT_BUF_SIZE
         then (lines t @ edit t @ [ucast ?c], []) else (lines t, edit t @ [ucast ?c]))"
      unfolding Let_def by blast
    have k: "key c (lines s, edit s) = (lines w, edit w)"
      unfolding w(4) It(2,3) using 3 assms(2) by (simp add: key_def Let_def split del: if_split)
    have r3: "unat (cons_e (cons ?s) - cons_r (cons ?s)) < INPUT_BUF_SIZE" using cons_span(1) [OF I(1)] I(2,3) 3(4) by simp
    define F where "F c s' = (let s = upd_cons (\<lambda>q. q\<lparr>cons_buf := (cons_buf q)[unat (cons_e q) mod INPUT_BUF_SIZE := ucast c], cons_e := cons_e q + 1\<rparr>) s'
        in if c = 10 \<or> c = ctrl CHR ''D'' \<or> cons_e (cons s) - cons_r (cons s) = of_nat INPUT_BUF_SIZE
           then wakeup (Some ChanConsR) (upd_cons (\<lambda>q. q\<lparr>cons_w := cons_e q\<rparr>) s) else Ret () s)" for c and s' :: "'a cnstate_scheme"
    have "consoleintr c s = res_bind (let c = ?c in res_bind (consputc c ?s) (\<lambda>_. F c)) (\<lambda>_ s. lock_release ConsLock s)"
      unfolding run F_def by (simp only: 3(1-3) r3 if_False if_True simp_thms)
    moreover have "F ?c t = Ret () w" using w(1) by (simp only: F_def)
    ultimately have "res_bind (Ret () w) (\<lambda>_ s. lock_release ConsLock s) = consoleintr c s" using t(1) unfolding Let_def by (simp only: res_bind.simps)
    then show ?thesis unfolding k by (rule fin [OF _ refl w(2)]) (use w(3) It(4) in simp_all)
  next
    case 4
    have k: "key c (lines s, edit s) = (lines s, edit s)" using 4 assms(2) by (auto simp: key_def)
    have "\<not> (c \<noteq> 0 \<and> unat (cons_e (cons ?s) - cons_r (cons ?s)) < INPUT_BUF_SIZE)" using cons_span(1) [OF I(1)] I(2,3) 4(3) by simp
    then have "res_bind (Ret () ?s) (\<lambda>_ s. lock_release ConsLock s) = consoleintr c s"
      unfolding run by (simp only: 4(1,2) if_False)
    then show ?thesis unfolding k by (rule fin [OF _ refl I(1)]) (use I in simp_all)
  qed
qed

definition blank_cnstate :: cnstate where
  "blank_cnstate = prstate.extend (ustate.extend (blank_ustate\<lparr>uart := blank_uart\<lparr>lsr := replicate 400 0x20\<rparr>\<rparr>) \<lparr>pr_locking = True\<rparr>)
     \<lparr>cons = \<lparr>cons_buf = replicate INPUT_BUF_SIZE 120, cons_r = -3, cons_w = -1, cons_e = 2\<rparr>,
      devsw = (\<lambda>_. \<lparr>dev_read = None, dev_write = None\<rparr>)\<rparr>"

theorem consoleintr_refines_witness:
  "\<exists>t. consoleintr 10 blank_cnstate = Ret () t \<and> (lines t, edit t) = ([120, 120, 120, 120, 120, 10], [])"
proof -
  have l: "lines blank_cnstate = [120, 120]" "edit blank_cnstate = [120, 120, 120]"
    by (simp_all add: lines_def edit_def ring_def blank_cnstate_def prstate.defs INPUT_BUF_SIZE_def upt_rec)
  have h: "held blank_cnstate = []" "uart blank_cnstate = blank_uart\<lparr>lsr := replicate 400 0x20\<rparr>"
    "cons_buf (cons blank_cnstate) = replicate INPUT_BUF_SIZE 120"
    by (simp_all add: blank_cnstate_def prstate.defs ustate.defs blank_ustate_def lgstate.defs bstate.defs blank_bstate_def)
  have "cons_inv blank_cnstate" by (simp add: cons_inv_def l) (simp add: h INPUT_BUF_SIZE_def)
  moreover have "(10 :: cint) \<noteq> ctrl CHR ''P''" "unat (10 :: cint) < 256" by (simp_all add: ctrl_def)
  moreover have "\<not> panicked (uart blank_cnstate)" "3 * INPUT_BUF_SIZE \<le> accepts blank_cnstate"
    by (simp_all add: h accepts_def tx_idle_def LSR_TX_IDLE_def blank_uart_def INPUT_BUF_SIZE_def)
  moreover have "ConsLock \<notin> set (held blank_cnstate)" "no_proc_lock blank_cnstate" by (simp_all add: h no_proc_lock_def)
  ultimately obtain t where "consoleintr 10 blank_cnstate = Ret () t"
    "(lines t, edit t) = key 10 (lines blank_cnstate, edit blank_cnstate)" using consoleintr_refines by blast
  then show ?thesis by (simp add: l key_def ctrl_def INPUT_BUF_SIZE_def)
qed

end
