(* ===== verification/Fs.thy ===== *)
theory Fs
  imports Console Bytes
begin

text \<open>
  \<^verbatim>\<open>kernel/fs.c\<close>: blocks, inodes, directories and path names. In-memory inodes are indices into
  \<^verbatim>\<open>itable\<close>, the null pointer is \<open>None\<close>. A routine that has to wait for a buffer or an inode
  ends in \<open>Swtch\<close>.
\<close>

section \<open>On-disk format\<close>

definition ROOTINO :: uint where "ROOTINO = 1"
definition FSMAGIC :: uint where "FSMAGIC = 0x10203040"
definition NDIRECT :: nat where "NDIRECT = 12"
definition NINDIRECT :: nat where "NINDIRECT = BSIZE div 4"
definition MAXFILE :: nat where "MAXFILE = NDIRECT + NINDIRECT"
definition IPB :: nat where "IPB = BSIZE div 64"
definition BPB :: nat where "BPB = BSIZE * 8"
definition DIRSIZ :: nat where "DIRSIZ = 14"
definition DIRENT :: nat where "DIRENT = 16"

definition T_DIR :: ushort where "T_DIR = 1"
definition T_FILE :: ushort where "T_FILE = 2"
definition T_DEVICE :: ushort where "T_DEVICE = 3"

record superblock =
  sb_magic :: uint
  sb_size :: uint
  sb_nblocks :: uint
  sb_ninodes :: uint
  sb_nlog :: uint
  sb_logstart :: uint
  sb_inodestart :: uint
  sb_bmapstart :: uint

definition superblock_of :: "block \<Rightarrow> superblock" where
  "superblock_of d = \<lparr>sb_magic = get32 d 0, sb_size = get32 d 4, sb_nblocks = get32 d 8, sb_ninodes = get32 d 12,
     sb_nlog = get32 d 16, sb_logstart = get32 d 20, sb_inodestart = get32 d 24, sb_bmapstart = get32 d 28\<rparr>"

record dinode =
  d_type :: ushort
  d_major :: ushort
  d_minor :: ushort
  d_nlink :: ushort
  d_size :: uint
  d_addrs :: "uint list"

text \<open>Reading and writing the \<^verbatim>\<open>struct dinode\<close> at offset \<open>o\<close> of a block.\<close>

definition get_dinode :: "block \<Rightarrow> nat \<Rightarrow> dinode" where
  "get_dinode d o' = \<lparr>d_type = get16 d o', d_major = get16 d (o' + 2), d_minor = get16 d (o' + 4),
     d_nlink = get16 d (o' + 6), d_size = get32 d (o' + 8),
     d_addrs = map (\<lambda>i. get32 d (o' + 12 + 4 * i)) [0..<NDIRECT + 1]\<rparr>"

definition put_dinode :: "block \<Rightarrow> nat \<Rightarrow> dinode \<Rightarrow> block" where
  "put_dinode d o' n =
     (let d = put16 d o' (d_type n); d = put16 d (o' + 2) (d_major n); d = put16 d (o' + 4) (d_minor n);
          d = put16 d (o' + 6) (d_nlink n); d = put32 d (o' + 8) (d_size n)
      in put_bytes d (o' + 12) (concat (map (le_bytes 4) (d_addrs n))))"

section \<open>State\<close>

record inode =
  i_dev :: uint
  i_inum :: uint
  i_ref :: int
  i_valid :: bool
  i_type :: ushort
  i_major :: ushort
  i_minor :: ushort
  i_nlink :: ushort
  i_size :: uint
  i_addrs :: "uint list"

record fsstate = cnstate +
  sb :: superblock
  inodes :: "nat \<Rightarrow> inode"

definition upd_ino :: "nat \<Rightarrow> (inode \<Rightarrow> inode) \<Rightarrow> 'z fsstate_scheme \<Rightarrow> 'z fsstate_scheme" where
  "upd_ino i f s = s\<lparr>inodes := (inodes s)(i := f (inodes s i))\<rparr>"

definition IBLOCK :: "uint \<Rightarrow> superblock \<Rightarrow> uint" where
  "IBLOCK i b = i div of_nat IPB + sb_inodestart b"

definition BBLOCK :: "uint \<Rightarrow> superblock \<Rightarrow> uint" where
  "BBLOCK i b = i div of_nat BPB + sb_bmapstart b"

section \<open>Blocks\<close>

definition readsb :: "uint \<Rightarrow> 'z fsstate_scheme \<Rightarrow> (unit, 'z fsstate_scheme) res" where
  "readsb dev s =
     res_bind (bread dev 1 s) (\<lambda>bp s. brelse bp (s\<lparr>sb := superblock_of (b_data (bufs s bp))\<rparr>))"

definition fsinit :: "uint \<Rightarrow> 'z fsstate_scheme \<Rightarrow> (unit, 'z fsstate_scheme) res" where
  "fsinit dev s =
     res_bind (readsb dev s) (\<lambda>_ s.
       if sb_magic (sb s) \<noteq> FSMAGIC then Panic ''invalid file system''
       else initlog dev (sb_logstart (sb s)) (sb_nlog (sb s)) s)"

definition bzero :: "uint \<Rightarrow> uint \<Rightarrow> 'z fsstate_scheme \<Rightarrow> (unit, 'z fsstate_scheme) res" where
  "bzero dev bno s =
     res_bind (bread dev bno s) (\<lambda>bp s.
     res_bind (log_write bp (set_data bp (replicate BSIZE 0) s)) (\<lambda>_ s. brelse bp s))"

text \<open>The bit of block \<open>b\<close> in its bitmap block.\<close>

definition bit_mask :: "nat \<Rightarrow> uchar" where
  "bit_mask bi = push_bit (bi mod 8) 1"

definition bit_free :: "block \<Rightarrow> nat \<Rightarrow> bool" where
  "bit_free d bi \<longleftrightarrow> d ! (bi div 8) AND bit_mask bi = 0"

text \<open>The outer loop's body: bitmap block \<open>k\<close>.\<close>

definition balloc_body :: "uint \<Rightarrow> nat \<Rightarrow> 'z fsstate_scheme \<Rightarrow> (uint option, 'z fsstate_scheme) res" where
  "balloc_body dev k s =
     (let b = of_nat (k * BPB) in
       res_bind (bread dev (BBLOCK b (sb s)) s) (\<lambda>bp s.
         case List.find (bit_free (b_data (bufs s bp))) [0..<min BPB (unat (sb_size (sb s) - b))] of
           Some bi \<Rightarrow>
             let d = b_data (bufs s bp);
                 s = set_data bp (d[bi div 8 := (d ! (bi div 8)) OR bit_mask bi]) s
             in res_bind (log_write bp s) (\<lambda>_ s.
                res_bind (brelse bp s) (\<lambda>_ s.
                res_bind (bzero dev (b + of_nat bi) s) (\<lambda>_ s. Ret (Some (b + of_nat bi)) s)))
         | None \<Rightarrow> res_bind (brelse bp s) (\<lambda>_ s. Ret None s)))"

definition balloc :: "uint \<Rightarrow> 'z fsstate_scheme \<Rightarrow> (uint, 'z fsstate_scheme) res" where
  "balloc dev s =
     res_bind (for_loop (balloc_body dev) [0..<(unat (sb_size (sb s)) + BPB - 1) div BPB] s) (\<lambda>r s.
     case r of Some b \<Rightarrow> Ret b s
     | None \<Rightarrow> res_bind (printf (Some (bytes ''balloc: out of blocks'' @ [10])) [] s) (\<lambda>_ s. Ret 0 s))"

definition bfree :: "uint \<Rightarrow> uint \<Rightarrow> 'z fsstate_scheme \<Rightarrow> (unit, 'z fsstate_scheme) res" where
  "bfree dev b s =
     res_bind (bread dev (BBLOCK b (sb s)) s) (\<lambda>bp s.
       let bi = unat b mod BPB; d = b_data (bufs s bp) in
       if bit_free d bi then Panic ''freeing free block''
       else res_bind (log_write bp (set_data bp (d[bi div 8 := (d ! (bi div 8)) AND NOT (bit_mask bi)]) s)) (\<lambda>_ s. brelse bp s))"

section \<open>Inodes\<close>

definition iinit :: "'z fsstate_scheme \<Rightarrow> 'z fsstate_scheme" where
  "iinit s = fold (\<lambda>i. initsleeplock (InodeLock i) ''inode'') [0..<NINODE] s"

text \<open>The scan of \<^verbatim>\<open>iget\<close>: the entry of the inode, or else the first free one.\<close>

definition iget :: "uint \<Rightarrow> uint \<Rightarrow> 'z fsstate_scheme \<Rightarrow> (nat, 'z fsstate_scheme) res" where
  "iget dev inum s =
     res_bind (lock_acquire ItableLock s) (\<lambda>_ s.
       case List.find (\<lambda>i. 0 < i_ref (inodes s i) \<and> i_dev (inodes s i) = dev \<and> i_inum (inodes s i) = inum) [0..<NINODE] of
         Some i \<Rightarrow>
           let s = upd_ino i (\<lambda>n. n\<lparr>i_ref := i_ref n + 1\<rparr>) s
           in res_bind (lock_release ItableLock s) (\<lambda>_ s. Ret i s)
       | None \<Rightarrow>
           (case List.find (\<lambda>i. i_ref (inodes s i) = 0) [0..<NINODE] of
              None \<Rightarrow> Panic ''iget: no inodes''
            | Some i \<Rightarrow>
                let s = upd_ino i (\<lambda>n. n\<lparr>i_dev := dev, i_inum := inum, i_ref := 1, i_valid := False\<rparr>) s
                in res_bind (lock_release ItableLock s) (\<lambda>_ s. Ret i s)))"

definition dinode_off :: "uint \<Rightarrow> nat" where
  "dinode_off inum = unat inum mod IPB * 64"

definition ialloc :: "uint \<Rightarrow> ushort \<Rightarrow> 'z fsstate_scheme \<Rightarrow> (nat option, 'z fsstate_scheme) res" where
  "ialloc dev type s =
     res_bind (for_loop (\<lambda>k s.
       let inum = of_nat k in
       res_bind (bread dev (IBLOCK inum (sb s)) s) (\<lambda>bp s.
         let d = b_data (bufs s bp) in
         if get16 d (dinode_off inum) = 0 then
           let s = set_data bp (put16 (put_bytes d (dinode_off inum) (replicate 64 0)) (dinode_off inum) type) s
           in res_bind (log_write bp s) (\<lambda>_ s.
              res_bind (brelse bp s) (\<lambda>_ s.
              res_bind (iget dev inum s) (\<lambda>ip s. Ret (Some (Some ip)) s)))
         else res_bind (brelse bp s) (\<lambda>_ s. Ret None s)))
       [1..<unat (sb_ninodes (sb s))] s) (\<lambda>r s.
     case r of Some ip \<Rightarrow> Ret ip s
     | None \<Rightarrow> res_bind (printf (Some (bytes ''ialloc: no inodes'' @ [10])) [] s) (\<lambda>_ s. Ret None s))"

definition ino_dinode :: "inode \<Rightarrow> dinode" where
  "ino_dinode n = \<lparr>d_type = i_type n, d_major = i_major n, d_minor = i_minor n, d_nlink = i_nlink n, d_size = i_size n,
     d_addrs = i_addrs n\<rparr>"

definition iupdate :: "nat \<Rightarrow> 'z fsstate_scheme \<Rightarrow> (unit, 'z fsstate_scheme) res" where
  "iupdate ip s =
     res_bind (bread (i_dev (inodes s ip)) (IBLOCK (i_inum (inodes s ip)) (sb s)) s) (\<lambda>bp s.
       let s = set_data bp (put_dinode (b_data (bufs s bp)) (dinode_off (i_inum (inodes s ip))) (ino_dinode (inodes s ip))) s
       in res_bind (log_write bp s) (\<lambda>_ s. brelse bp s))"

definition idup :: "nat \<Rightarrow> 'z fsstate_scheme \<Rightarrow> (nat, 'z fsstate_scheme) res" where
  "idup ip s =
     res_bind (lock_acquire ItableLock s) (\<lambda>_ s.
     res_bind (lock_release ItableLock (upd_ino ip (\<lambda>n. n\<lparr>i_ref := i_ref n + 1\<rparr>) s)) (\<lambda>_ s. Ret ip s))"

definition ilock_load :: "nat \<Rightarrow> 'z fsstate_scheme \<Rightarrow> (unit, 'z fsstate_scheme) res" where
  "ilock_load ip s =
     (if i_valid (inodes s ip) then Ret () s
      else res_bind (bread (i_dev (inodes s ip)) (IBLOCK (i_inum (inodes s ip)) (sb s)) s) (\<lambda>bp s.
        let d = get_dinode (b_data (bufs s bp)) (dinode_off (i_inum (inodes s ip)));
            s = upd_ino ip (\<lambda>n. n\<lparr>i_type := d_type d, i_major := d_major d, i_minor := d_minor d, i_nlink := d_nlink d,
                                  i_size := d_size d, i_addrs := d_addrs d\<rparr>) s
        in res_bind (brelse bp s) (\<lambda>_ s.
             let s = upd_ino ip (\<lambda>n. n\<lparr>i_valid := True\<rparr>) s
             in if i_type (inodes s ip) = 0 then Panic ''ilock: no type'' else Ret () s)))"

definition ilock :: "nat option \<Rightarrow> 'z fsstate_scheme \<Rightarrow> (unit, 'z fsstate_scheme) res" where
  "ilock ip s =
     (case ip of
        None \<Rightarrow> Panic ''ilock''
      | Some i \<Rightarrow> if i_ref (inodes s i) < 1 then Panic ''ilock''
                   else res_bind (acquiresleep (InodeLock i) s) (\<lambda>_ s. ilock_load i s))"

definition ilock_resume :: "nat \<Rightarrow> nat \<Rightarrow> 'z fsstate_scheme \<Rightarrow> (unit, 'z fsstate_scheme) res" where
  "ilock_resume p i s = res_bind (acquiresleep_resume p (InodeLock i) s) (\<lambda>_ s. ilock_load i s)"

definition iunlock :: "nat option \<Rightarrow> 'z fsstate_scheme \<Rightarrow> (unit, 'z fsstate_scheme) res" where
  "iunlock ip s =
     (case ip of
        None \<Rightarrow> Panic ''iunlock''
      | Some i \<Rightarrow> res_bind (holdingsleep (InodeLock i) s) (\<lambda>h s.
                    if \<not> h \<or> i_ref (inodes s i) < 1 then Panic ''iunlock'' else releasesleep (InodeLock i) s))"


section \<open>Inode contents\<close>

definition bmap :: "nat \<Rightarrow> nat \<Rightarrow> 'z fsstate_scheme \<Rightarrow> (uint, 'z fsstate_scheme) res" where
  "bmap ip bn s =
     (if bn < NDIRECT then
        let addr = i_addrs (inodes s ip) ! bn in
        if addr = 0 then
          res_bind (balloc (i_dev (inodes s ip)) s) (\<lambda>addr s.
            if addr = 0 then Ret 0 s
            else Ret addr (upd_ino ip (\<lambda>n. n\<lparr>i_addrs := (i_addrs n)[bn := addr]\<rparr>) s))
        else Ret addr s
      else if bn - NDIRECT < NINDIRECT then
        let bn = bn - NDIRECT; addr = i_addrs (inodes s ip) ! NDIRECT in
        res_bind
          (if addr = 0 then
             res_bind (balloc (i_dev (inodes s ip)) s) (\<lambda>addr s.
               if addr = 0 then Ret 0 s
               else Ret addr (upd_ino ip (\<lambda>n. n\<lparr>i_addrs := (i_addrs n)[NDIRECT := addr]\<rparr>) s))
           else Ret addr s) (\<lambda>addr s.
        if addr = 0 then Ret 0 s
        else
          res_bind (bread (i_dev (inodes s ip)) addr s) (\<lambda>bp s.
            let addr = get32 (b_data (bufs s bp)) (4 * bn) in
            if addr = 0 then
              res_bind (balloc (i_dev (inodes s ip)) s) (\<lambda>addr s.
              res_bind (if addr \<noteq> 0 then log_write bp (set_data bp (put32 (b_data (bufs s bp)) (4 * bn) addr) s) else Ret () s) (\<lambda>_ s.
              res_bind (brelse bp s) (\<lambda>_ s. Ret addr s)))
            else res_bind (brelse bp s) (\<lambda>_ s. Ret addr s)))
      else Panic ''bmap: out of range'')"

definition itrunc :: "nat \<Rightarrow> 'z fsstate_scheme \<Rightarrow> (unit, 'z fsstate_scheme) res" where
  "itrunc ip s =
     res_bind (for_loop (\<lambda>i s.
         if i_addrs (inodes s ip) ! i \<noteq> 0 then
           res_bind (bfree (i_dev (inodes s ip)) (i_addrs (inodes s ip) ! i) s) (\<lambda>_ s.
             Ret (None :: unit option) (upd_ino ip (\<lambda>n. n\<lparr>i_addrs := (i_addrs n)[i := 0]\<rparr>) s))
         else Ret None s) [0..<NDIRECT] s) (\<lambda>_ s.
     res_bind
       (if i_addrs (inodes s ip) ! NDIRECT \<noteq> 0 then
          res_bind (bread (i_dev (inodes s ip)) (i_addrs (inodes s ip) ! NDIRECT) s) (\<lambda>bp s.
          res_bind (for_loop (\<lambda>j s.
              if get32 (b_data (bufs s bp)) (4 * j) \<noteq> 0 then
                res_bind (bfree (i_dev (inodes s ip)) (get32 (b_data (bufs s bp)) (4 * j)) s) (\<lambda>_ s. Ret (None :: unit option) s)
              else Ret None s) [0..<NINDIRECT] s) (\<lambda>_ s.
          res_bind (brelse bp s) (\<lambda>_ s.
          res_bind (bfree (i_dev (inodes s ip)) (i_addrs (inodes s ip) ! NDIRECT) s) (\<lambda>_ s.
            Ret () (upd_ino ip (\<lambda>n. n\<lparr>i_addrs := (i_addrs n)[NDIRECT := 0]\<rparr>) s)))))
        else Ret () s) (\<lambda>_ s.
     iupdate ip (upd_ino ip (\<lambda>n. n\<lparr>i_size := 0\<rparr>) s)))"

definition iput :: "nat \<Rightarrow> 'z fsstate_scheme \<Rightarrow> (unit, 'z fsstate_scheme) res" where
  "iput ip s =
     res_bind (lock_acquire ItableLock s) (\<lambda>_ s.
     res_bind
       (if i_ref (inodes s ip) = 1 \<and> i_valid (inodes s ip) \<and> i_nlink (inodes s ip) = 0 then
          res_bind (acquiresleep (InodeLock ip) s) (\<lambda>_ s.
          res_bind (lock_release ItableLock s) (\<lambda>_ s.
          res_bind (itrunc ip s) (\<lambda>_ s.
          res_bind (iupdate ip (upd_ino ip (\<lambda>n. n\<lparr>i_type := 0\<rparr>) s)) (\<lambda>_ s.
          res_bind (releasesleep (InodeLock ip) (upd_ino ip (\<lambda>n. n\<lparr>i_valid := False\<rparr>) s)) (\<lambda>_ s.
            lock_acquire ItableLock s)))))
        else Ret () s) (\<lambda>_ s.
     lock_release ItableLock (upd_ino ip (\<lambda>n. n\<lparr>i_ref := i_ref n - 1\<rparr>) s)))"

definition iunlockput :: "nat \<Rightarrow> 'z fsstate_scheme \<Rightarrow> (unit, 'z fsstate_scheme) res" where
  "iunlockput ip s = res_bind (iunlock (Some ip) s) (\<lambda>_ s. iput ip s)"

record stat =
  st_dev :: uint
  st_ino :: uint
  st_type :: ushort
  st_nlink :: ushort
  st_size :: uint64

definition stati :: "nat \<Rightarrow> 'z fsstate_scheme \<Rightarrow> stat" where
  "stati ip s = \<lparr>st_dev = i_dev (inodes s ip), st_ino = i_inum (inodes s ip), st_type = i_type (inodes s ip),
     st_nlink = i_nlink (inodes s ip), st_size = ucast (i_size (inodes s ip))\<rparr>"

text \<open>
  The loop of \<^verbatim>\<open>readi\<close>: \<open>tot\<close> bytes of \<open>n\<close> are done and \<open>off\<close> is the file offset. Every round
  copies at least one byte, so \<open>n + 1\<close> rounds are enough. The second result holds the bytes for
  a destination in the kernel.
\<close>

definition chunk :: "nat \<Rightarrow> nat \<Rightarrow> nat \<Rightarrow> nat" where
  "chunk n tot off = min (n - tot) (BSIZE - off mod BSIZE)"

fun readi_loop :: "nat \<Rightarrow> vm_ops \<Rightarrow> nat \<Rightarrow> dest \<Rightarrow> nat \<Rightarrow> nat \<Rightarrow> nat \<Rightarrow> uchar list \<Rightarrow> 'z fsstate_scheme \<Rightarrow>
    (cint \<times> uchar list, 'z fsstate_scheme) res" where
  "readi_loop 0 vm ip dst off n tot out s = Hang"
| "readi_loop (Suc k) vm ip dst off n tot out s =
     (if tot < n then
        res_bind (bmap ip (off div BSIZE) s) (\<lambda>addr s.
          if addr = 0 then Ret (of_nat tot, out) s
          else res_bind (bread (i_dev (inodes s ip)) addr s) (\<lambda>bp s.
            let m = chunk n tot off; bs = take m (drop (off mod BSIZE) (b_data (bufs s bp))) in
            res_bind (either_copyout vm dst bs s) (\<lambda>r s.
              if r = minus_one then res_bind (brelse bp s) (\<lambda>_ s. Ret (minus_one, out) s)
              else res_bind (brelse bp s) (\<lambda>_ s.
                readi_loop k vm ip (dest_add dst m) (off + m) n (tot + m) (out @ bs) s))))
      else Ret (of_nat tot, out) s)"

definition readi :: "vm_ops \<Rightarrow> nat \<Rightarrow> dest \<Rightarrow> uint \<Rightarrow> uint \<Rightarrow> 'z fsstate_scheme \<Rightarrow> (cint \<times> uchar list, 'z fsstate_scheme) res" where
  "readi vm ip dst off n s =
     (if off > i_size (inodes s ip) \<or> off + n < off then Ret (0, []) s
      else
        let n = (if off + n > i_size (inodes s ip) then i_size (inodes s ip) - off else n)
        in readi_loop (unat n + 1) vm ip dst (unat off) (unat n) 0 [] s)"

text \<open>
  The loop of \<^verbatim>\<open>writei\<close>. \<^verbatim>\<open>copyin\<close> may have stored some bytes in the buffer before it fails. The
  result is the final \<open>tot\<close> and \<open>off\<close>.
\<close>

fun writei_loop :: "nat \<Rightarrow> vm_ops \<Rightarrow> nat \<Rightarrow> source \<Rightarrow> nat \<Rightarrow> nat \<Rightarrow> nat \<Rightarrow> 'z fsstate_scheme \<Rightarrow>
    (nat \<times> nat, 'z fsstate_scheme) res" where
  "writei_loop 0 vm ip src off n tot s = Hang"
| "writei_loop (Suc k) vm ip src off n tot s =
     (if tot < n then
        res_bind (bmap ip (off div BSIZE) s) (\<lambda>addr s.
          if addr = 0 then Ret (tot, off) s
          else res_bind (bread (i_dev (inodes s ip)) addr s) (\<lambda>bp s.
            let m = chunk n tot off in
            res_bind (either_copyin vm src m s) (\<lambda>(r, bs) s.
              let s = set_data bp (put_bytes (b_data (bufs s bp)) (off mod BSIZE) bs) s in
              if r = minus_one then res_bind (brelse bp s) (\<lambda>_ s. Ret (tot, off) s)
              else res_bind (log_write bp s) (\<lambda>_ s.
                   res_bind (brelse bp s) (\<lambda>_ s.
                     writei_loop k vm ip (source_add src m) (off + m) n (tot + m) s)))))
      else Ret (tot, off) s)"

definition writei :: "vm_ops \<Rightarrow> nat \<Rightarrow> source \<Rightarrow> uint \<Rightarrow> uint \<Rightarrow> 'z fsstate_scheme \<Rightarrow> (cint, 'z fsstate_scheme) res" where
  "writei vm ip src off n s =
     (if off > i_size (inodes s ip) \<or> off + n < off then Ret minus_one s
      else if unat (off + n) > MAXFILE * BSIZE then Ret minus_one s
      else
        res_bind (writei_loop (unat n + 1) vm ip src (unat off) (unat n) 0 s) (\<lambda>(tot, off) s.
          let s = (if of_nat off > i_size (inodes s ip) then upd_ino ip (\<lambda>n. n\<lparr>i_size := of_nat off\<rparr>) s else s)
          in res_bind (iupdate ip s) (\<lambda>_ s. Ret (of_nat tot) s)))"

section \<open>Directories\<close>

definition namecmp :: "uchar list \<Rightarrow> uchar list \<Rightarrow> int option" where
  "namecmp s t = strncmp s t DIRSIZ"

definition de_inum :: "uchar list \<Rightarrow> ushort" where
  "de_inum de = get16 de 0"

definition de_name :: "uchar list \<Rightarrow> uchar list" where
  "de_name de = take DIRSIZ (drop 2 de)"

text \<open>The result carries the offset that \<^verbatim>\<open>dirlookup\<close> stores through \<^verbatim>\<open>poff\<close>.\<close>

definition dirlookup :: "vm_ops \<Rightarrow> nat \<Rightarrow> uchar list \<Rightarrow> 'z fsstate_scheme \<Rightarrow> ((nat \<times> uint) option, 'z fsstate_scheme) res" where
  "dirlookup vm dp name s =
     (if i_type (inodes s dp) \<noteq> T_DIR then Panic ''dirlookup not DIR''
      else for_loop (\<lambda>k s.
        let off = of_nat (k * DIRENT) in
        res_bind (readi vm dp VarDst off (of_nat DIRENT) s) (\<lambda>(r, de) s.
          if r \<noteq> of_nat DIRENT then Panic ''dirlookup read''
          else if de_inum de = 0 then Ret None s
          else res_bind (lift_opt (namecmp name (de_name de)) s) (\<lambda>c s.
            if c = 0 then res_bind (iget (i_dev (inodes s dp)) (ucast (de_inum de)) s) (\<lambda>ip s. Ret (Some (ip, off)) s)
            else Ret None s)))
        [0..<(unat (i_size (inodes s dp)) + DIRENT - 1) div DIRENT] s)"

text \<open>The offset of the first empty entry, or the end of the directory.\<close>

definition dirlink_slot :: "vm_ops \<Rightarrow> nat \<Rightarrow> 'z fsstate_scheme \<Rightarrow> (uint, 'z fsstate_scheme) res" where
  "dirlink_slot vm dp s =
     (let n = (unat (i_size (inodes s dp)) + DIRENT - 1) div DIRENT in
      res_bind (for_loop (\<lambda>k s.
        res_bind (readi vm dp VarDst (of_nat (k * DIRENT)) (of_nat DIRENT) s) (\<lambda>(r, de) s.
          if r \<noteq> of_nat DIRENT then Panic ''dirlink read''
          else if de_inum de = 0 then Ret (Some (of_nat (k * DIRENT))) s
          else Ret None s)) [0..<n] s) (\<lambda>r s.
      Ret (case r of Some off \<Rightarrow> off | None \<Rightarrow> of_nat (n * DIRENT)) s))"

definition dirlink :: "vm_ops \<Rightarrow> nat \<Rightarrow> uchar list \<Rightarrow> uint \<Rightarrow> 'z fsstate_scheme \<Rightarrow> (cint, 'z fsstate_scheme) res" where
  "dirlink vm dp name inum s =
     res_bind (dirlookup vm dp name s) (\<lambda>r s.
       case r of
         Some (ip, _) \<Rightarrow> res_bind (iput ip s) (\<lambda>_ s. Ret minus_one s)
       | None \<Rightarrow>
           res_bind (dirlink_slot vm dp s) (\<lambda>off s.
           res_bind (lift_opt (strncpy (replicate DIRSIZ 0) name DIRSIZ) s) (\<lambda>nm s.
           res_bind (writei vm dp (VarSrc (le_bytes 2 (ucast inum :: ushort) @ nm)) off (of_nat DIRENT) s) (\<lambda>w s.
             Ret (if w \<noteq> of_nat DIRENT then minus_one else 0) s))))"

section \<open>Paths\<close>

abbreviation slash :: uchar where
  "slash \<equiv> 47"

text \<open>
  A path is the list of its characters without the terminating zero; \<open>name\<close> is the array of
  \<^verbatim>\<open>DIRSIZ\<close> characters the element is copied to.
\<close>

definition skipelem :: "uchar list \<Rightarrow> uchar list \<Rightarrow> (uchar list \<times> uchar list) option" where
  "skipelem path name =
     (let path = dropWhile (\<lambda>c. c = slash) path in
      if path = [] then None
      else
        let elem = takeWhile (\<lambda>c. c \<noteq> slash) path; rest = dropWhile (\<lambda>c. c \<noteq> slash) path; len = length elem;
            name = (if DIRSIZ \<le> len then take DIRSIZ elem @ drop DIRSIZ name else elem @ [0] @ drop (len + 1) name)
        in Some (dropWhile (\<lambda>c. c = slash) rest, name))"

text \<open>Every round of \<^verbatim>\<open>namex\<close> takes an element off the path, whose length bounds them.\<close>

fun namex_loop :: "nat \<Rightarrow> vm_ops \<Rightarrow> bool \<Rightarrow> nat \<Rightarrow> uchar list \<Rightarrow> uchar list \<Rightarrow> 'z fsstate_scheme \<Rightarrow>
    (nat option \<times> uchar list, 'z fsstate_scheme) res" where
  "namex_loop 0 vm nameiparent ip path name s = Hang"
| "namex_loop (Suc k) vm nameiparent ip path name s =
     (case skipelem path name of
        None \<Rightarrow> if nameiparent then res_bind (iput ip s) (\<lambda>_ s. Ret (None, name) s) else Ret (Some ip, name) s
      | Some (path, name) \<Rightarrow>
          res_bind (ilock (Some ip) s) (\<lambda>_ s.
            if i_type (inodes s ip) \<noteq> T_DIR then res_bind (iunlockput ip s) (\<lambda>_ s. Ret (None, name) s)
            else if nameiparent \<and> path = [] then res_bind (iunlock (Some ip) s) (\<lambda>_ s. Ret (Some ip, name) s)
            else res_bind (dirlookup vm ip name s) (\<lambda>r s.
              case r of
                None \<Rightarrow> res_bind (iunlockput ip s) (\<lambda>_ s. Ret (None, name) s)
              | Some (next, _) \<Rightarrow> res_bind (iunlockput ip s) (\<lambda>_ s. namex_loop k vm nameiparent next path name s))))"

definition namex :: "vm_ops \<Rightarrow> uchar list \<Rightarrow> bool \<Rightarrow> uchar list \<Rightarrow> 'z fsstate_scheme \<Rightarrow>
    (nat option \<times> uchar list, 'z fsstate_scheme) res" where
  "namex vm path nameiparent name s =
     res_bind
       (if path \<noteq> [] \<and> hd path = slash then iget ROOTDEV ROOTINO s
        else with_proc (\<lambda>p s. case cwd (procs s p) of None \<Rightarrow> Fault | Some ip \<Rightarrow> idup ip s) s) (\<lambda>ip s.
     namex_loop (length path + 1) vm nameiparent ip path name s)"

definition namei :: "vm_ops \<Rightarrow> uchar list \<Rightarrow> 'z fsstate_scheme \<Rightarrow> (nat option, 'z fsstate_scheme) res" where
  "namei vm path s = res_bind (namex vm path False (replicate DIRSIZ 0) s) (\<lambda>(ip, _) s. Ret ip s)"

definition nameiparent :: "vm_ops \<Rightarrow> uchar list \<Rightarrow> uchar list \<Rightarrow> 'z fsstate_scheme \<Rightarrow>
    (nat option \<times> uchar list, 'z fsstate_scheme) res" where
  "nameiparent vm path name s = namex vm path True name s"

end
