(* ===== verification/Pipe.thy ===== *)
theory Pipe
  imports Fs
begin

text \<open>
  \<^verbatim>\<open>kernel/pipe.c\<close>. A pipe lives in a page of its own and is named by the page's address; the
  contents of the structure are kept apart from the byte memory. \<^verbatim>\<open>pipealloc\<close> is in the theory
  \<open>File\<close>, with the file table it uses.
\<close>

section \<open>State\<close>

definition PIPESIZE :: nat where "PIPESIZE = 512"

record pipe =
  p_data :: "uchar list"
  p_nread :: uint
  p_nwrite :: uint
  p_readopen :: bool
  p_writeopen :: bool

record pistate = fsstate +
  pipes :: "uint64 \<Rightarrow> pipe"

definition upd_pipe :: "uint64 \<Rightarrow> (pipe \<Rightarrow> pipe) \<Rightarrow> 'z pistate_scheme \<Rightarrow> 'z pistate_scheme" where
  "upd_pipe pi f s = s\<lparr>pipes := (pipes s)(pi := f (pipes s pi))\<rparr>"

section \<open>Routines\<close>

definition pipeclose :: "uint64 \<Rightarrow> bool \<Rightarrow> 'z pistate_scheme \<Rightarrow> (unit, 'z pistate_scheme) res" where
  "pipeclose pi writable s =
     res_bind (lock_acquire (PipeLock pi) s) (\<lambda>_ s.
     res_bind
       (if writable then wakeup (Some (ChanPipeRead pi)) (upd_pipe pi (\<lambda>p. p\<lparr>p_writeopen := False\<rparr>) s)
        else wakeup (Some (ChanPipeWrite pi)) (upd_pipe pi (\<lambda>p. p\<lparr>p_readopen := False\<rparr>) s)) (\<lambda>_ s.
     if \<not> p_readopen (pipes s pi) \<and> \<not> p_writeopen (pipes s pi)
     then res_bind (lock_release (PipeLock pi) s) (\<lambda>_ s. kfree pi s)
     else lock_release (PipeLock pi) s))"

text \<open>The loop of \<^verbatim>\<open>pipewrite\<close> with \<open>i\<close> bytes written and \<open>k\<close> to go; after \<^verbatim>\<open>sleep\<close> it continues in \<open>pipewrite_resume\<close>.\<close>

fun pipewrite_loop :: "vm_ops \<Rightarrow> uint64 \<Rightarrow> nat \<Rightarrow> uint64 \<Rightarrow> nat \<Rightarrow> nat \<Rightarrow> 'z pistate_scheme \<Rightarrow> (cint, 'z pistate_scheme) res" where
  "pipewrite_loop vm pi pr addr i 0 s =
     res_bind (wakeup (Some (ChanPipeRead pi)) s) (\<lambda>_ s.
     res_bind (lock_release (PipeLock pi) s) (\<lambda>_ s. Ret (of_nat i) s))"
| "pipewrite_loop vm pi pr addr i (Suc k) s =
     res_bind (if \<not> p_readopen (pipes s pi) then Ret 1 s else killed pr s) (\<lambda>stop s.
       if stop \<noteq> 0 then res_bind (lock_release (PipeLock pi) s) (\<lambda>_ s. Ret minus_one s)
       else if p_nwrite (pipes s pi) = p_nread (pipes s pi) + of_nat PIPESIZE then
         res_bind (wakeup (Some (ChanPipeRead pi)) s) (\<lambda>_ s.
         res_bind (sleep (Some (ChanPipeWrite pi)) (PipeLock pi) s) (\<lambda>_ s. Hang))
       else
         res_bind (vm_run (vm_copyin vm (pagetable (procs s pr)) (addr + of_nat i) 1) s) (\<lambda>(r, bs) s.
           if r = minus_one then pipewrite_loop vm pi pr addr i 0 s
           else
             pipewrite_loop vm pi pr addr (Suc i) k
               (upd_pipe pi (\<lambda>p. p\<lparr>p_data := (p_data p)[unat (p_nwrite p) mod PIPESIZE := hd bs], p_nwrite := p_nwrite p + 1\<rparr>) s)))"

definition pipewrite :: "vm_ops \<Rightarrow> uint64 \<Rightarrow> uint64 \<Rightarrow> cint \<Rightarrow> 'z pistate_scheme \<Rightarrow> (cint, 'z pistate_scheme) res" where
  "pipewrite vm pi addr n =
     with_proc (\<lambda>pr s. res_bind (lock_acquire (PipeLock pi) s) (\<lambda>_ s. pipewrite_loop vm pi pr addr 0 (nat (sint n)) s))"

definition pipewrite_resume :: "vm_ops \<Rightarrow> uint64 \<Rightarrow> nat \<Rightarrow> uint64 \<Rightarrow> nat \<Rightarrow> nat \<Rightarrow> 'z pistate_scheme \<Rightarrow> (cint, 'z pistate_scheme) res" where
  "pipewrite_resume vm pi pr addr i k s =
     res_bind (sleep_resume pr (PipeLock pi) s) (\<lambda>_ s. pipewrite_loop vm pi pr addr i k s)"

fun piperead_copy :: "vm_ops \<Rightarrow> uint64 \<Rightarrow> nat \<Rightarrow> uint64 \<Rightarrow> nat \<Rightarrow> nat \<Rightarrow> 'z pistate_scheme \<Rightarrow> (cint, 'z pistate_scheme) res" where
  "piperead_copy vm pi pr addr i 0 s =
     res_bind (wakeup (Some (ChanPipeWrite pi)) s) (\<lambda>_ s.
     res_bind (lock_release (PipeLock pi) s) (\<lambda>_ s. Ret (of_nat i) s))"
| "piperead_copy vm pi pr addr i (Suc k) s =
     (if p_nread (pipes s pi) = p_nwrite (pipes s pi) then piperead_copy vm pi pr addr i 0 s
      else
        let ch = p_data (pipes s pi) ! (unat (p_nread (pipes s pi)) mod PIPESIZE);
            s = upd_pipe pi (\<lambda>p. p\<lparr>p_nread := p_nread p + 1\<rparr>) s
        in res_bind (vm_run (vm_copyout vm (pagetable (procs s pr)) (addr + of_nat i) [ch]) s) (\<lambda>r s.
             if r = minus_one then piperead_copy vm pi pr addr i 0 s
             else piperead_copy vm pi pr addr (Suc i) k s))"

definition piperead_wait :: "vm_ops \<Rightarrow> uint64 \<Rightarrow> nat \<Rightarrow> uint64 \<Rightarrow> cint \<Rightarrow> 'z pistate_scheme \<Rightarrow> (cint, 'z pistate_scheme) res" where
  "piperead_wait vm pi pr addr n s =
     (if p_nread (pipes s pi) = p_nwrite (pipes s pi) \<and> p_writeopen (pipes s pi) then
        res_bind (killed pr s) (\<lambda>k s.
          if k \<noteq> 0 then res_bind (lock_release (PipeLock pi) s) (\<lambda>_ s. Ret minus_one s)
          else res_bind (sleep (Some (ChanPipeRead pi)) (PipeLock pi) s) (\<lambda>_ s. Hang))
      else piperead_copy vm pi pr addr 0 (nat (sint n)) s)"

definition piperead :: "vm_ops \<Rightarrow> uint64 \<Rightarrow> uint64 \<Rightarrow> cint \<Rightarrow> 'z pistate_scheme \<Rightarrow> (cint, 'z pistate_scheme) res" where
  "piperead vm pi addr n =
     with_proc (\<lambda>pr s. res_bind (lock_acquire (PipeLock pi) s) (\<lambda>_ s. piperead_wait vm pi pr addr n s))"

definition piperead_resume :: "vm_ops \<Rightarrow> uint64 \<Rightarrow> nat \<Rightarrow> uint64 \<Rightarrow> cint \<Rightarrow> 'z pistate_scheme \<Rightarrow> (cint, 'z pistate_scheme) res" where
  "piperead_resume vm pi pr addr n s =
     res_bind (sleep_resume pr (PipeLock pi) s) (\<lambda>_ s. piperead_wait vm pi pr addr n s)"

end
