(* ===== verification/File.thy ===== *)
theory File
  imports Pipe
begin

text \<open>
  \<^verbatim>\<open>kernel/file.c\<close>: the table of open files, and \<^verbatim>\<open>pipealloc\<close> of \<^verbatim>\<open>kernel/pipe.c\<close>.
\<close>

section \<open>State\<close>

datatype ftype = FD_NONE | FD_PIPE | FD_INODE | FD_DEVICE

record file_t =
  f_type :: ftype
  f_ref :: int
  f_readable :: bool
  f_writable :: bool
  f_pipe :: uint64
  f_ip :: "nat option"
  f_off :: uint
  f_major :: ushort

record flstate = pistate +
  files :: "nat \<Rightarrow> file_t"

definition upd_file :: "nat \<Rightarrow> (file_t \<Rightarrow> file_t) \<Rightarrow> 'z flstate_scheme \<Rightarrow> 'z flstate_scheme" where
  "upd_file f g s = s\<lparr>files := (files s)(f := g (files s f))\<rparr>"

section \<open>Routines\<close>

definition filealloc :: "'z flstate_scheme \<Rightarrow> (nat option, 'z flstate_scheme) res" where
  "filealloc s =
     res_bind (lock_acquire FtableLock s) (\<lambda>_ s.
       case List.find (\<lambda>f. f_ref (files s f) = 0) [0..<NFILE] of
         Some f \<Rightarrow> res_bind (lock_release FtableLock (upd_file f (\<lambda>q. q\<lparr>f_ref := 1\<rparr>) s)) (\<lambda>_ s. Ret (Some f) s)
       | None \<Rightarrow> res_bind (lock_release FtableLock s) (\<lambda>_ s. Ret None s))"

definition filedup :: "nat \<Rightarrow> 'z flstate_scheme \<Rightarrow> (nat, 'z flstate_scheme) res" where
  "filedup f s =
     res_bind (lock_acquire FtableLock s) (\<lambda>_ s.
       if f_ref (files s f) < 1 then Panic ''filedup''
       else res_bind (lock_release FtableLock (upd_file f (\<lambda>q. q\<lparr>f_ref := f_ref q + 1\<rparr>) s)) (\<lambda>_ s. Ret f s))"

definition fileclose :: "nat \<Rightarrow> 'z flstate_scheme \<Rightarrow> (unit, 'z flstate_scheme) res" where
  "fileclose f s =
     res_bind (lock_acquire FtableLock s) (\<lambda>_ s.
       if f_ref (files s f) < 1 then Panic ''fileclose''
       else
         let s = upd_file f (\<lambda>q. q\<lparr>f_ref := f_ref q - 1\<rparr>) s in
         if 0 < f_ref (files s f) then lock_release FtableLock s
         else
           let ff = files s f; s = upd_file f (\<lambda>q. q\<lparr>f_ref := 0, f_type := FD_NONE\<rparr>) s in
           res_bind (lock_release FtableLock s) (\<lambda>_ s.
             case f_type ff of
               FD_PIPE \<Rightarrow> pipeclose (f_pipe ff) (f_writable ff) s
             | FD_NONE \<Rightarrow> Ret () s
             | _ \<Rightarrow> res_bind (begin_op s) (\<lambda>_ s.
                     (case f_ip ff of None \<Rightarrow> Fault
                      | Some ip \<Rightarrow> res_bind (iput ip s) (\<lambda>_ s. end_op s)))))"

text \<open>
  The bytes of \<^verbatim>\<open>struct stat\<close>; \<open>pad\<close> is what the stack holds in the four bytes of padding before
  \<^verbatim>\<open>size\<close>.
\<close>

definition stat_bytes :: "uchar list \<Rightarrow> stat \<Rightarrow> uchar list" where
  "stat_bytes pad st = le_bytes 4 (st_dev st) @ le_bytes 4 (st_ino st) @ le_bytes 2 (st_type st) @ le_bytes 2 (st_nlink st) @
     pad @ le_bytes 8 (st_size st)"

definition filestat :: "vm_ops \<Rightarrow> uchar list \<Rightarrow> nat \<Rightarrow> uint64 \<Rightarrow> 'z flstate_scheme \<Rightarrow> (cint, 'z flstate_scheme) res" where
  "filestat vm pad f addr = with_proc (\<lambda>p s.
     if f_type (files s f) = FD_INODE \<or> f_type (files s f) = FD_DEVICE then
       res_bind (ilock (f_ip (files s f)) s) (\<lambda>_ s.
         case f_ip (files s f) of None \<Rightarrow> Fault
         | Some ip \<Rightarrow>
             let st = stati ip s in
             res_bind (iunlock (f_ip (files s f)) s) (\<lambda>_ s.
             res_bind (vm_run (vm_copyout vm (pagetable (procs s p)) addr (stat_bytes pad st)) s) (\<lambda>r s.
               Ret (if sint r < 0 then minus_one else 0) s)))
     else Ret minus_one s)"

text \<open>A call through \<^verbatim>\<open>devsw\<close>, with a user address.\<close>

definition dev_call :: "vm_ops \<Rightarrow> devfn \<Rightarrow> uint64 \<Rightarrow> cint \<Rightarrow> 'z flstate_scheme \<Rightarrow> (cint, 'z flstate_scheme) res" where
  "dev_call vm fn addr n s =
     (case fn of
        Fconsoleread \<Rightarrow> res_bind (consoleread vm (UserDst addr) n s) (\<lambda>(r, _) s. Ret r s)
      | Fconsolewrite \<Rightarrow> consolewrite vm (UserSrc addr) n s)"

definition dev_entry :: "ushort \<Rightarrow> (devsw_entry \<Rightarrow> devfn option) \<Rightarrow> 'z flstate_scheme \<Rightarrow> devfn option" where
  "dev_entry major fn s = (if sint major < 0 \<or> int NDEV \<le> sint major then None else fn (devsw s (unat major)))"

definition fileread :: "vm_ops \<Rightarrow> nat \<Rightarrow> uint64 \<Rightarrow> cint \<Rightarrow> 'z flstate_scheme \<Rightarrow> (cint, 'z flstate_scheme) res" where
  "fileread vm f addr n s =
     (if \<not> f_readable (files s f) then Ret minus_one s
      else case f_type (files s f) of
        FD_PIPE \<Rightarrow> piperead vm (f_pipe (files s f)) addr n s
      | FD_DEVICE \<Rightarrow>
          (case dev_entry (f_major (files s f)) dev_read s of
             None \<Rightarrow> Ret minus_one s
           | Some fn \<Rightarrow> dev_call vm fn addr n s)
      | FD_INODE \<Rightarrow>
          res_bind (ilock (f_ip (files s f)) s) (\<lambda>_ s.
            case f_ip (files s f) of None \<Rightarrow> Fault
            | Some ip \<Rightarrow>
                res_bind (readi vm ip (UserDst addr) (f_off (files s f)) n s) (\<lambda>(r, _) s.
                  let s = (if 0 < sint r then upd_file f (\<lambda>q. q\<lparr>f_off := f_off q + r\<rparr>) s else s)
                  in res_bind (iunlock (Some ip) s) (\<lambda>_ s. Ret r s)))
      | FD_NONE \<Rightarrow> Panic ''fileread'')"

definition filewrite_max :: nat where
  "filewrite_max = (MAXOPBLOCKS - 1 - 1 - 2) div 2 * BSIZE"

text \<open>The loop of \<^verbatim>\<open>filewrite\<close> writes at least one byte per round; the result is the final \<open>i\<close>.\<close>

fun filewrite_loop :: "nat \<Rightarrow> vm_ops \<Rightarrow> nat \<Rightarrow> uint64 \<Rightarrow> nat \<Rightarrow> nat \<Rightarrow> 'z flstate_scheme \<Rightarrow> (nat, 'z flstate_scheme) res" where
  "filewrite_loop 0 vm f addr i n s = Hang"
| "filewrite_loop (Suc k) vm f addr i n s =
     (if i < n then
        let n1 = min (n - i) filewrite_max in
        res_bind (begin_op s) (\<lambda>_ s.
        res_bind (ilock (f_ip (files s f)) s) (\<lambda>_ s.
          case f_ip (files s f) of None \<Rightarrow> Fault
          | Some ip \<Rightarrow>
              res_bind (writei vm ip (UserSrc (addr + of_nat i)) (f_off (files s f)) (of_nat n1) s) (\<lambda>r s.
                let s = (if 0 < sint r then upd_file f (\<lambda>q. q\<lparr>f_off := f_off q + r\<rparr>) s else s) in
                res_bind (iunlock (Some ip) s) (\<lambda>_ s.
                res_bind (end_op s) (\<lambda>_ s.
                  if r \<noteq> of_nat n1 then Ret i s else filewrite_loop k vm f addr (i + n1) n s)))))
      else Ret i s)"

definition filewrite :: "vm_ops \<Rightarrow> nat \<Rightarrow> uint64 \<Rightarrow> cint \<Rightarrow> 'z flstate_scheme \<Rightarrow> (cint, 'z flstate_scheme) res" where
  "filewrite vm f addr n s =
     (if \<not> f_writable (files s f) then Ret minus_one s
      else case f_type (files s f) of
        FD_PIPE \<Rightarrow> pipewrite vm (f_pipe (files s f)) addr n s
      | FD_DEVICE \<Rightarrow>
          (case dev_entry (f_major (files s f)) dev_write s of
             None \<Rightarrow> Ret minus_one s
           | Some fn \<Rightarrow> dev_call vm fn addr n s)
      | FD_INODE \<Rightarrow>
          res_bind (filewrite_loop (nat (sint n) + 1) vm f addr 0 (nat (sint n)) s) (\<lambda>i s.
            Ret (if int i = sint n then n else minus_one) s)
      | FD_NONE \<Rightarrow> Panic ''filewrite'')"

section \<open>Creating a pipe\<close>

text \<open>The exit at the label \<^verbatim>\<open>bad\<close>, before a page was allocated.\<close>

definition pipealloc_bad :: "nat option \<Rightarrow> nat option \<Rightarrow> 'z flstate_scheme \<Rightarrow> ((nat \<times> nat) option, 'z flstate_scheme) res" where
  "pipealloc_bad f0 f1 s =
     res_bind (case f0 of None \<Rightarrow> Ret () s | Some f \<Rightarrow> fileclose f s) (\<lambda>_ s.
     res_bind (case f1 of None \<Rightarrow> Ret () s | Some f \<Rightarrow> fileclose f s) (\<lambda>_ s. Ret None s))"

definition pipealloc :: "'z flstate_scheme \<Rightarrow> ((nat \<times> nat) option, 'z flstate_scheme) res" where
  "pipealloc s =
     res_bind (filealloc s) (\<lambda>f0 s.
       case f0 of None \<Rightarrow> pipealloc_bad None None s
       | Some a \<Rightarrow>
           res_bind (filealloc s) (\<lambda>f1 s.
             case f1 of None \<Rightarrow> pipealloc_bad f0 None s
             | Some b \<Rightarrow>
                 res_bind (kalloc s) (\<lambda>pi s.
                   if pi = 0 then pipealloc_bad f0 f1 s
                   else
                     let s = upd_pipe pi (\<lambda>p. p\<lparr>p_readopen := True, p_writeopen := True, p_nwrite := 0, p_nread := 0\<rparr>) s;
                         s = upd_file a (\<lambda>q. q\<lparr>f_type := FD_PIPE, f_readable := True, f_writable := False, f_pipe := pi\<rparr>) s;
                         s = upd_file b (\<lambda>q. q\<lparr>f_type := FD_PIPE, f_readable := False, f_writable := True, f_pipe := pi\<rparr>) s
                     in Ret (Some (a, b)) s)))"

section \<open>A concrete state\<close>

text \<open>A file system without open files, in which the process in entry 0 runs on hart 0.\<close>

definition blank_file :: file_t where
  "blank_file = \<lparr>f_type = FD_NONE, f_ref = 0, f_readable = False, f_writable = False, f_pipe = 0, f_ip = None, f_off = 0, f_major = 0\<rparr>"

definition blank_fsstate :: fsstate where
  "blank_fsstate = cnstate.extend blank_cnstate
     \<lparr>sb = \<lparr>sb_magic = FSMAGIC, sb_size = 1000, sb_nblocks = 954, sb_ninodes = 200, sb_nlog = 30, sb_logstart = 2, sb_inodestart = 32,
            sb_bmapstart = 45\<rparr>,
      inodes = (\<lambda>_. \<lparr>i_dev = 0, i_inum = 0, i_ref = 0, i_valid = False, i_type = 0, i_major = 0, i_minor = 0, i_nlink = 0, i_size = 0,
            i_addrs = replicate 13 0\<rparr>)\<rparr>"

definition blank_flstate :: flstate where
  "blank_flstate = pistate.extend (fsstate.extend blank_fsstate
     \<lparr>pipes = (\<lambda>_. \<lparr>p_data = replicate PIPESIZE 0, p_nread = 0, p_nwrite = 0, p_readopen = False, p_writeopen = False\<rparr>)\<rparr>)
     \<lparr>files = (\<lambda>_. blank_file)\<rparr>"

lemma blank_flstate_simps:
  "held blank_flstate = []" "procs blank_flstate = (\<lambda>_. blank_proc)(0 := blank_proc\<lparr>pid := 1, pstate := RUNNING\<rparr>)"
  "myproc blank_flstate = Some 0" "phys blank_flstate = phys blank_pcb" "files blank_flstate = (\<lambda>_. blank_file)"
  by (simp_all add: blank_flstate_def pistate.defs fsstate.defs blank_fsstate_def cnstate.defs blank_cnstate_def prstate.defs ustate.defs
      blank_ustate_def lgstate.defs bstate.defs blank_bstate_def myproc_def cpuid_def)

end
