(* ===== verification/Lifecycle.thy ===== *)
theory Lifecycle
  imports File
begin

text \<open>
  Creation and end of processes in \<^verbatim>\<open>kernel/proc.c\<close>: allocation of table entries and page tables,
  \<^verbatim>\<open>fork\<close>, \<^verbatim>\<open>exit\<close> and \<^verbatim>\<open>wait\<close>. Trapframes are read and written in physical memory.
\<close>

section \<open>Trapframes\<close>

text \<open>Addresses the linker assigns.\<close>

record ksyms =
  sym_trampoline :: uint64
  sym_forkret :: uint64
  sym_usertrap :: uint64
  sym_uservec :: uint64
  sym_userret :: uint64
  sym_kernelvec :: uint64

definition tf_satp :: uint64 where "tf_satp = 0"
definition tf_ksp :: uint64 where "tf_ksp = 8"
definition tf_ktrap :: uint64 where "tf_ktrap = 16"
definition tf_epc :: uint64 where "tf_epc = 24"
definition tf_hartid :: uint64 where "tf_hartid = 32"
definition tf_sp :: uint64 where "tf_sp = 48"

definition tf_a :: "nat \<Rightarrow> uint64" where
  "tf_a n = 112 + 8 * of_nat n"

definition tf_get :: "nat \<Rightarrow> uint64 \<Rightarrow> 'z pcb_scheme \<Rightarrow> uint64" where
  "tf_get p off s = load64 (pmem (phys s)) (trapframe (procs s p) + off)"

definition tf_put :: "nat \<Rightarrow> uint64 \<Rightarrow> uint64 \<Rightarrow> 'z pcb_scheme \<Rightarrow> 'z pcb_scheme" where
  "tf_put p off v s = s\<lparr>phys := (phys s)\<lparr>pmem := store64 (pmem (phys s)) (trapframe (procs s p) + off) v\<rparr>\<rparr>"

text \<open>The assignment of one \<^verbatim>\<open>struct trapframe\<close> of 288 bytes to another.\<close>

definition tf_copy :: "nat \<Rightarrow> nat \<Rightarrow> 'z pcb_scheme \<Rightarrow> 'z pcb_scheme" where
  "tf_copy q p s = s\<lparr>phys := (phys s)\<lparr>pmem :=
     store_bytes (pmem (phys s)) (trapframe (procs s q)) (load_bytes (pmem (phys s)) (trapframe (procs s p)) 288)\<rparr>\<rparr>"

section \<open>Page tables and table entries\<close>

definition proc_mapstacks :: "vm_ops \<Rightarrow> uint64 \<Rightarrow> 'z kstate_scheme \<Rightarrow> (unit, 'z kstate_scheme) res" where
  "proc_mapstacks vm kpgtbl s =
     res_bind (for_loop (\<lambda>i s.
       res_bind (kalloc s) (\<lambda>pa s.
         if pa = 0 then Panic ''kalloc''
         else res_bind (vm_run (vm_kvmmap vm kpgtbl (KSTACK i) pa PGSIZE (PTE_R OR PTE_W)) s) (\<lambda>_ s. Ret (None :: unit option) s)))
       [0..<NPROC] s) (\<lambda>_ s. Ret () s)"

definition proc_pagetable :: "vm_ops \<Rightarrow> ksyms \<Rightarrow> nat \<Rightarrow> 'z pcb_scheme \<Rightarrow> (uint64, 'z pcb_scheme) res" where
  "proc_pagetable vm ks p s =
     res_bind (vm_run (vm_uvmcreate vm) s) (\<lambda>pt s.
       if pt = 0 then Ret 0 s
       else res_bind (vm_run (vm_mappages vm pt TRAMPOLINE PGSIZE (sym_trampoline ks) (PTE_R OR PTE_X)) s) (\<lambda>r s.
         if sint r < 0 then res_bind (vm_run (vm_uvmfree vm pt 0) s) (\<lambda>_ s. Ret 0 s)
         else res_bind (vm_run (vm_mappages vm pt TRAPFRAME PGSIZE (trapframe (procs s p)) (PTE_R OR PTE_W)) s) (\<lambda>r s.
           if sint r < 0 then
             res_bind (vm_run (vm_uvmunmap vm pt TRAMPOLINE 1 False) s) (\<lambda>_ s.
             res_bind (vm_run (vm_uvmfree vm pt 0) s) (\<lambda>_ s. Ret 0 s))
           else Ret pt s)))"

definition proc_freepagetable :: "vm_ops \<Rightarrow> uint64 \<Rightarrow> uint64 \<Rightarrow> 'z kstate_scheme \<Rightarrow> (unit, 'z kstate_scheme) res" where
  "proc_freepagetable vm pt n s =
     res_bind (vm_run (vm_uvmunmap vm pt TRAMPOLINE 1 False) s) (\<lambda>_ s.
     res_bind (vm_run (vm_uvmunmap vm pt TRAPFRAME 1 False) s) (\<lambda>_ s.
       vm_run (vm_uvmfree vm pt n) s))"

definition freeproc :: "vm_ops \<Rightarrow> nat \<Rightarrow> 'z pcb_scheme \<Rightarrow> (unit, 'z pcb_scheme) res" where
  "freeproc vm p s =
     res_bind (if trapframe (procs s p) \<noteq> 0 then kfree (trapframe (procs s p)) s else Ret () s) (\<lambda>_ s.
     let s = upd_proc p (\<lambda>q. q\<lparr>trapframe := 0\<rparr>) s in
     res_bind (if pagetable (procs s p) \<noteq> 0 then proc_freepagetable vm (pagetable (procs s p)) (sz (procs s p)) s else Ret () s) (\<lambda>_ s.
       Ret () (upd_proc p (\<lambda>q. q\<lparr>pagetable := 0, sz := 0, pid := 0, parent := None, pname := (pname q)[0 := 0],
                               pchan := None, pkilled := 0, xstate := 0, pstate := UNUSED\<rparr>) s)))"

text \<open>The part of \<^verbatim>\<open>allocproc\<close> after the label \<^verbatim>\<open>found\<close>, with the lock of entry \<open>p\<close> held.\<close>

definition allocproc_found :: "vm_ops \<Rightarrow> ksyms \<Rightarrow> nat \<Rightarrow> 'z pcb_scheme \<Rightarrow> (nat option, 'z pcb_scheme) res" where
  "allocproc_found vm ks p s =
     res_bind (allocpid s) (\<lambda>i s.
     res_bind (kalloc (upd_proc p (\<lambda>q. q\<lparr>pid := i, pstate := USED\<rparr>) s)) (\<lambda>tf s.
     let s = upd_proc p (\<lambda>q. q\<lparr>trapframe := tf\<rparr>) s in
     if tf = 0 then
       res_bind (freeproc vm p s) (\<lambda>_ s. res_bind (lock_release (ProcLock p) s) (\<lambda>_ s. Ret None s))
     else
       res_bind (proc_pagetable vm ks p s) (\<lambda>pt s.
         let s = upd_proc p (\<lambda>q. q\<lparr>pagetable := pt\<rparr>) s in
         if pt = 0 then
           res_bind (freeproc vm p s) (\<lambda>_ s. res_bind (lock_release (ProcLock p) s) (\<lambda>_ s. Ret None s))
         else
           Ret (Some p) (upd_proc p (\<lambda>q. q\<lparr>
             pcontext := \<lparr>ctx_ra = sym_forkret ks, ctx_sp = kstack q + PGSIZE, ctx_s = replicate 12 0\<rparr>,
             ps_priority := 0, cfs_priority := 1, rtime := 0, retime := 0, stime := 0\<rparr>) s))))"

definition allocproc :: "vm_ops \<Rightarrow> ksyms \<Rightarrow> 'z pcb_scheme \<Rightarrow> (nat option, 'z pcb_scheme) res" where
  "allocproc vm ks s =
     res_bind (for_loop (\<lambda>p s.
       res_bind (lock_acquire (ProcLock p) s) (\<lambda>_ s.
         if pstate (procs s p) = UNUSED then res_bind (allocproc_found vm ks p s) (\<lambda>r s. Ret (Some r) s)
         else res_bind (lock_release (ProcLock p) s) (\<lambda>_ s. Ret None s))) [0..<NPROC] s) (\<lambda>r s.
     Ret (case r of None \<Rightarrow> None | Some q \<Rightarrow> q) s)"

definition initcode :: "uchar list" where
  "initcode = [
    0x17, 0x05, 0x00, 0x00, 0x13, 0x05, 0x45, 0x02,
    0x97, 0x05, 0x00, 0x00, 0x93, 0x85, 0x35, 0x02,
    0x93, 0x08, 0x70, 0x00, 0x73, 0x00, 0x00, 0x00,
    0x93, 0x08, 0x20, 0x00, 0x73, 0x00, 0x00, 0x00,
    0xef, 0xf0, 0x9f, 0xff, 0x2f, 0x69, 0x6e, 0x69,
    0x74, 0x00, 0x00, 0x24, 0x00, 0x00, 0x00, 0x00,
    0x00, 0x00, 0x00, 0x00]"

definition userinit :: "vm_ops \<Rightarrow> ksyms \<Rightarrow> 'z flstate_scheme \<Rightarrow> (unit, 'z flstate_scheme) res" where
  "userinit vm ks s =
     res_bind (allocproc vm ks s) (\<lambda>r s.
     let s = s\<lparr>initproc := r\<rparr> in
     case r of None \<Rightarrow> Fault
     | Some p \<Rightarrow>
         res_bind (vm_run (vm_uvmfirst vm (pagetable (procs s p)) initcode) s) (\<lambda>_ s.
         let s = upd_proc p (\<lambda>q. q\<lparr>sz := PGSIZE\<rparr>) s;
             s = tf_put p tf_epc 0 s;
             s = tf_put p tf_sp PGSIZE s
         in res_bind (lift_opt (safestrcpy (pname (procs s p)) (bytes ''initcode'' @ [0]) 16) s) (\<lambda>nm s.
            res_bind (namei vm [slash] (upd_proc p (\<lambda>q. q\<lparr>pname := nm\<rparr>) s)) (\<lambda>ip s.
              lock_release (ProcLock p) (upd_proc p (\<lambda>q. q\<lparr>cwd := ip, pstate := RUNNABLE\<rparr>) s)))))"

definition growproc :: "vm_ops \<Rightarrow> cint \<Rightarrow> 'z pcb_scheme \<Rightarrow> (cint, 'z pcb_scheme) res" where
  "growproc vm n = with_proc (\<lambda>p s.
     let size = sz (procs s p) in
     if 0 < sint n then
       res_bind (vm_run (vm_uvmalloc vm (pagetable (procs s p)) size (size + scast n) PTE_W) s) (\<lambda>r s.
         if r = 0 then Ret minus_one s else Ret 0 (upd_proc p (\<lambda>q. q\<lparr>sz := r\<rparr>) s))
     else if sint n < 0 then
       res_bind (vm_run (vm_uvmdealloc vm (pagetable (procs s p)) size (size + scast n)) s) (\<lambda>r s.
         Ret 0 (upd_proc p (\<lambda>q. q\<lparr>sz := r\<rparr>) s))
     else Ret 0 (upd_proc p (\<lambda>q. q\<lparr>sz := size\<rparr>) s))"

section \<open>Fork\<close>

definition fork_files :: "nat \<Rightarrow> nat \<Rightarrow> 'z flstate_scheme \<Rightarrow> (unit, 'z flstate_scheme) res" where
  "fork_files np p s =
     res_bind (for_loop (\<lambda>i s.
       case ofile (procs s p) i of
         None \<Rightarrow> Ret (None :: unit option) s
       | Some f \<Rightarrow> res_bind (filedup f s) (\<lambda>f s. Ret None (upd_proc np (\<lambda>q. q\<lparr>ofile := (ofile q)(i := Some f)\<rparr>) s)))
       [0..<NOFILE] s) (\<lambda>_ s. Ret () s)"

definition fork :: "vm_ops \<Rightarrow> ksyms \<Rightarrow> 'z flstate_scheme \<Rightarrow> (cint, 'z flstate_scheme) res" where
  "fork vm ks = with_proc (\<lambda>p s.
     res_bind (allocproc vm ks s) (\<lambda>r s.
     case r of None \<Rightarrow> Ret minus_one s
     | Some np \<Rightarrow>
       res_bind (vm_run (vm_uvmcopy vm (pagetable (procs s p)) (pagetable (procs s np)) (sz (procs s p))) s) (\<lambda>c s.
       if sint c < 0 then
         res_bind (freeproc vm np s) (\<lambda>_ s. res_bind (lock_release (ProcLock np) s) (\<lambda>_ s. Ret minus_one s))
       else
         let s = upd_proc np (\<lambda>q. q\<lparr>sz := sz (procs s p)\<rparr>) s;
             s = tf_copy np p s;
             s = tf_put np (tf_a 0) 0 s
         in
         res_bind (fork_files np p s) (\<lambda>_ s.
         res_bind (case cwd (procs s p) of None \<Rightarrow> Fault | Some ip \<Rightarrow> idup ip s) (\<lambda>ip s.
         let s = upd_proc np (\<lambda>q. q\<lparr>cwd := Some ip\<rparr>) s in
         res_bind (lift_opt (safestrcpy (pname (procs s np)) (pname (procs s p)) 16) s) (\<lambda>nm s.
         let s = upd_proc np (\<lambda>q. q\<lparr>pname := nm\<rparr>) s; i = pid (procs s np) in
         res_bind (lock_release (ProcLock np) s) (\<lambda>_ s.
         res_bind (lock_acquire WaitLock s) (\<lambda>_ s.
         res_bind (lock_release WaitLock (upd_proc np (\<lambda>q. q\<lparr>parent := Some p\<rparr>) s)) (\<lambda>_ s.
         res_bind (lock_acquire (ProcLock np) s) (\<lambda>_ s.
         case parent (procs s np) of None \<Rightarrow> Fault
         | Some pa \<Rightarrow>
             res_bind (lock_acquire (ProcLock pa) s) (\<lambda>_ s.
             res_bind (lock_release (ProcLock pa) (upd_proc np (\<lambda>q. q\<lparr>cfs_priority := cfs_priority (procs s pa)\<rparr>) s)) (\<lambda>_ s.
             res_bind (lock_release (ProcLock np) (upd_proc np (\<lambda>q. q\<lparr>pstate := RUNNABLE\<rparr>) s)) (\<lambda>_ s.
               Ret i s)))))))))))))"

section \<open>Exit and wait\<close>

definition chan_of :: "nat option \<Rightarrow> chan option" where
  "chan_of p = map_option ChanProc p"

definition reparent :: "nat \<Rightarrow> 'z pcb_scheme \<Rightarrow> (unit, 'z pcb_scheme) res" where
  "reparent p s =
     res_bind (for_loop (\<lambda>pp s.
       if parent (procs s pp) = Some p then
         res_bind (wakeup (chan_of (initproc s)) (upd_proc pp (\<lambda>q. q\<lparr>parent := initproc s\<rparr>) s)) (\<lambda>_ s. Ret (None :: unit option) s)
       else Ret None s) [0..<NPROC] s) (\<lambda>_ s. Ret () s)"

definition exit_files :: "nat \<Rightarrow> 'z flstate_scheme \<Rightarrow> (unit, 'z flstate_scheme) res" where
  "exit_files p s =
     res_bind (for_loop (\<lambda>fd s.
       case ofile (procs s p) fd of
         None \<Rightarrow> Ret (None :: unit option) s
       | Some f \<Rightarrow> res_bind (fileclose f s) (\<lambda>_ s. Ret None (upd_proc p (\<lambda>q. q\<lparr>ofile := (ofile q)(fd := None)\<rparr>) s)))
       [0..<NOFILE] s) (\<lambda>_ s. Ret () s)"

text \<open>
  The size given to \<^verbatim>\<open>safestrcpy\<close> is that of the parameter \<^verbatim>\<open>char *exit_msg\<close>, eight bytes. The last
  part, under \<^verbatim>\<open>wait_lock\<close>, is \<open>exit_finish\<close>.
\<close>

definition exit_finish :: "nat \<Rightarrow> cint \<Rightarrow> 'z pcb_scheme \<Rightarrow> ('a, 'z pcb_scheme) res" where
  "exit_finish p status s =
     res_bind (lock_acquire WaitLock s) (\<lambda>_ s.
     res_bind (reparent p s) (\<lambda>_ s.
     res_bind (wakeup (chan_of (parent (procs s p))) s) (\<lambda>_ s.
     res_bind (lock_acquire (ProcLock p) s) (\<lambda>_ s.
     res_bind (lock_release WaitLock (upd_proc p (\<lambda>q. q\<lparr>xstate := status, pstate := ZOMBIE\<rparr>) s)) (\<lambda>_ s.
     res_bind (sched s :: (unit, 'z pcb_scheme) res) (\<lambda>_ s. Panic ''zombie exit''))))))"

definition exit :: "cint \<Rightarrow> uchar list \<Rightarrow> 'z flstate_scheme \<Rightarrow> ('a, 'z flstate_scheme) res" where
  "exit status msg = with_proc (\<lambda>p s.
     res_bind (lift_opt (safestrcpy (exit_msg (procs s p)) msg 8) s) (\<lambda>m s.
     let s = upd_proc p (\<lambda>q. q\<lparr>exit_msg := m\<rparr>) s in
     if Some p = initproc s then Panic ''init exiting''
     else
       res_bind (exit_files p s) (\<lambda>_ s.
       res_bind (begin_op s) (\<lambda>_ s.
       res_bind (case cwd (procs s p) of None \<Rightarrow> Fault | Some ip \<Rightarrow> iput ip s) (\<lambda>_ s.
       res_bind (end_op s) (\<lambda>_ s.
         exit_finish p status (upd_proc p (\<lambda>q. q\<lparr>cwd := None\<rparr>) s)))))))"

text \<open>The scan of \<^verbatim>\<open>wait\<close> over the table; the value is a result to return, and whether there are children.\<close>

fun wait_scan :: "vm_ops \<Rightarrow> nat \<Rightarrow> uint64 \<Rightarrow> uint64 \<Rightarrow> nat list \<Rightarrow> bool \<Rightarrow> 'z pcb_scheme \<Rightarrow> (cint option \<times> bool, 'z pcb_scheme) res" where
  "wait_scan vm p addr addr2 [] havekids s = Ret (None, havekids) s"
| "wait_scan vm p addr addr2 (pp # pps) havekids s =
     (if parent (procs s pp) \<noteq> Some p then wait_scan vm p addr addr2 pps havekids s
      else
        res_bind (lock_acquire (ProcLock pp) s) (\<lambda>_ s.
        res_bind (if addr2 \<noteq> 0 then vm_run (vm_copyout vm (pagetable (procs s p)) addr2 (exit_msg (procs s pp))) s else Ret 0 s) (\<lambda>r s.
        if sint r < 0 then
          res_bind (lock_release (ProcLock pp) s) (\<lambda>_ s.
          res_bind (lock_release WaitLock s) (\<lambda>_ s. Ret (Some minus_one, havekids) s))
        else if pstate (procs s pp) = ZOMBIE then
          let i = pid (procs s pp) in
          res_bind (if addr \<noteq> 0 then vm_run (vm_copyout vm (pagetable (procs s p)) addr (le_bytes 4 (xstate (procs s pp)))) s else Ret 0 s) (\<lambda>r s.
          if sint r < 0 then
            res_bind (lock_release (ProcLock pp) s) (\<lambda>_ s.
            res_bind (lock_release WaitLock s) (\<lambda>_ s. Ret (Some minus_one, True) s))
          else
            res_bind (freeproc vm pp s) (\<lambda>_ s.
            res_bind (lock_release (ProcLock pp) s) (\<lambda>_ s.
            res_bind (lock_release WaitLock s) (\<lambda>_ s. Ret (Some i, True) s))))
        else
          res_bind (lock_release (ProcLock pp) s) (\<lambda>_ s. wait_scan vm p addr addr2 pps True s))))"

definition wait_loop :: "vm_ops \<Rightarrow> nat \<Rightarrow> uint64 \<Rightarrow> uint64 \<Rightarrow> 'z pcb_scheme \<Rightarrow> (cint, 'z pcb_scheme) res" where
  "wait_loop vm p addr addr2 s =
     res_bind (wait_scan vm p addr addr2 [0..<NPROC] False s) (\<lambda>(r, havekids) s.
       case r of Some i \<Rightarrow> Ret i s
       | None \<Rightarrow>
           res_bind (if \<not> havekids then Ret 1 s else killed p s) (\<lambda>stop s.
             if stop \<noteq> 0 then res_bind (lock_release WaitLock s) (\<lambda>_ s. Ret minus_one s)
             else res_bind (sleep (Some (ChanProc p)) WaitLock s) (\<lambda>_ s. Hang)))"

definition wait :: "vm_ops \<Rightarrow> uint64 \<Rightarrow> uint64 \<Rightarrow> 'z pcb_scheme \<Rightarrow> (cint, 'z pcb_scheme) res" where
  "wait vm addr addr2 =
     with_proc (\<lambda>p s. res_bind (lock_acquire WaitLock s) (\<lambda>_ s. wait_loop vm p addr addr2 s))"

definition wait_resume :: "vm_ops \<Rightarrow> nat \<Rightarrow> uint64 \<Rightarrow> uint64 \<Rightarrow> 'z pcb_scheme \<Rightarrow> (cint, 'z pcb_scheme) res" where
  "wait_resume vm p addr addr2 s =
     res_bind (sleep_resume p WaitLock s) (\<lambda>_ s. wait_loop vm p addr addr2 s)"

text \<open>The four counters as the \<^verbatim>\<open>int\<close> fields of \<^verbatim>\<open>struct proc_info\<close>.\<close>

definition get_cfs_priority :: "vm_ops \<Rightarrow> cint \<Rightarrow> uint64 \<Rightarrow> 'z pcb_scheme \<Rightarrow> (cint, 'z pcb_scheme) res" where
  "get_cfs_priority vm i dst s =
     (case List.find (\<lambda>pp. pid (procs s pp) = i) [0..<NPROC] of
        None \<Rightarrow> Ret minus_one s
      | Some pp \<Rightarrow>
          let q = procs s pp;
              info = le_bytes 4 (cfs_priority q) @ le_bytes 4 (of_int (retime q) :: cint) @ le_bytes 4 (of_int (rtime q) :: cint) @
                     le_bytes 4 (of_int (stime q) :: cint)
          in res_bind (vm_run (vm_copyout vm (pagetable q) dst info) s) (\<lambda>r s. Ret (if sint r < 0 then minus_one else 0) s))"

end
