(* ===== verification/Exec.thy ===== *)
theory Exec
  imports Lifecycle
begin

text \<open>
  \<^verbatim>\<open>kernel/exec.c\<close>: replacing the image of the current process by a program of the file system.
\<close>

section \<open>Program files\<close>

text \<open>The fields of \<^verbatim>\<open>struct elfhdr\<close> and \<^verbatim>\<open>struct proghdr\<close> that \<^verbatim>\<open>exec\<close> reads.\<close>

definition get64 :: "uchar list \<Rightarrow> nat \<Rightarrow> uint64" where
  "get64 d off = le_word (take 8 (drop off d))"

definition ELF_MAGIC :: uint where "ELF_MAGIC = 0x464C457F"
definition ELF_PROG_LOAD :: uint where "ELF_PROG_LOAD = 1"

record elfhdr =
  e_magic :: uint
  e_entry :: uint64
  e_phoff :: uint64
  e_phnum :: ushort

definition elfhdr_size :: nat where "elfhdr_size = 64"

definition elfhdr_of :: "uchar list \<Rightarrow> elfhdr" where
  "elfhdr_of d = \<lparr>e_magic = get32 d 0, e_entry = get64 d 24, e_phoff = get64 d 32, e_phnum = get16 d 56\<rparr>"

record proghdr =
  ph_type :: uint
  ph_flags :: uint
  ph_off :: uint64
  ph_vaddr :: uint64
  ph_filesz :: uint64
  ph_memsz :: uint64

definition proghdr_size :: nat where "proghdr_size = 56"

definition proghdr_of :: "uchar list \<Rightarrow> proghdr" where
  "proghdr_of d = \<lparr>ph_type = get32 d 0, ph_flags = get32 d 4, ph_off = get64 d 8, ph_vaddr = get64 d 16,
     ph_filesz = get64 d 32, ph_memsz = get64 d 40\<rparr>"

definition flags2perm :: "uint \<Rightarrow> cint" where
  "flags2perm flags =
     (let perm = (if flags AND 1 \<noteq> 0 then ucast PTE_X else 0)
      in if flags AND 2 \<noteq> 0 then perm OR ucast PTE_W else perm)"

section \<open>Loading\<close>

text \<open>
  The counter of \<^verbatim>\<open>loadseg\<close> is an \<^verbatim>\<open>uint\<close> that grows by a page, so \<open>sz div 4096 + 2\<close> rounds end the
  loop unless the counter wraps, and then it never ends.
\<close>

fun loadseg_loop :: "nat \<Rightarrow> vm_ops \<Rightarrow> uint64 \<Rightarrow> uint64 \<Rightarrow> nat \<Rightarrow> uint \<Rightarrow> uint \<Rightarrow> uint \<Rightarrow> 'z fsstate_scheme \<Rightarrow>
    (cint, 'z fsstate_scheme) res" where
  "loadseg_loop 0 vm pt va ip offset msz i s = Hang"
| "loadseg_loop (Suc k) vm pt va ip offset msz i s =
     (if i < msz then
        res_bind (vm_run (vm_walkaddr vm pt (va + ucast i)) s) (\<lambda>pa s.
          if pa = 0 then Panic ''loadseg: address should exist''
          else
            let n = (if msz - i < ucast PGSIZE then msz - i else ucast PGSIZE) in
            res_bind (readi vm ip (KmemDst pa) (offset + i) n s) (\<lambda>(r, _) s.
              if r \<noteq> n then Ret minus_one s
              else loadseg_loop k vm pt va ip offset msz (i + ucast PGSIZE) s))
      else Ret 0 s)"

definition loadseg :: "vm_ops \<Rightarrow> uint64 \<Rightarrow> uint64 \<Rightarrow> nat \<Rightarrow> uint \<Rightarrow> uint \<Rightarrow> 'z fsstate_scheme \<Rightarrow>
    (cint, 'z fsstate_scheme) res" where
  "loadseg vm pt va ip offset msz = loadseg_loop (unat msz div 4096 + 2) vm pt va ip offset msz 0"

text \<open>The loop over the program headers, with \<open>n\<close> headers to go; the result is success and the size.\<close>

fun exec_load :: "vm_ops \<Rightarrow> uint64 \<Rightarrow> nat \<Rightarrow> nat \<Rightarrow> cint \<Rightarrow> uint64 \<Rightarrow> 'z fsstate_scheme \<Rightarrow> (bool \<times> uint64, 'z fsstate_scheme) res" where
  "exec_load vm pt ip 0 off msz s = Ret (True, msz) s"
| "exec_load vm pt ip (Suc n) off msz s =
     res_bind (readi vm ip VarDst off (of_nat proghdr_size) s) (\<lambda>(r, d) s.
       let ph = proghdr_of d; off' = off + of_nat proghdr_size in
       if r \<noteq> of_nat proghdr_size then Ret (False, msz) s
       else if ph_type ph \<noteq> ELF_PROG_LOAD then exec_load vm pt ip n off' msz s
       else if ph_memsz ph < ph_filesz ph then Ret (False, msz) s
       else if ph_vaddr ph + ph_memsz ph < ph_vaddr ph then Ret (False, msz) s
       else if ph_vaddr ph mod PGSIZE \<noteq> 0 then Ret (False, msz) s
       else
         res_bind (vm_run (vm_uvmalloc vm pt msz (ph_vaddr ph + ph_memsz ph) (scast (flags2perm (ph_flags ph)))) s) (\<lambda>sz1 s.
           if sz1 = 0 then Ret (False, msz) s
           else res_bind (loadseg vm pt (ph_vaddr ph) ip (ucast (ph_off ph)) (ucast (ph_filesz ph)) s) (\<lambda>r s.
             if sint r < 0 then Ret (False, sz1) s
             else exec_load vm pt ip n off' sz1 s)))"

section \<open>Arguments\<close>

text \<open>A string in kernel memory; the buffers of \<^verbatim>\<open>argv\<close> are pages.\<close>

definition page_string :: "uint64 \<Rightarrow> 'z kstate_scheme \<Rightarrow> uchar list" where
  "page_string a s = load_bytes (pmem (phys s)) a 4096"

text \<open>
  The loop that pushes the argument strings, over the pointers \<^verbatim>\<open>argv[argc]\<close>, \<^verbatim>\<open>argv[argc+1]\<close> and so on;
  \<open>ustack\<close> holds the first \<^verbatim>\<open>argc\<close> entries of the array of the same name. \<open>None\<close> is the jump to
  \<^verbatim>\<open>bad\<close>.
\<close>

fun exec_args :: "vm_ops \<Rightarrow> uint64 \<Rightarrow> uint64 \<Rightarrow> uint64 list \<Rightarrow> uint64 \<Rightarrow> uint64 list \<Rightarrow> 'z kstate_scheme \<Rightarrow>
    ((uint64 \<times> uint64 list) option, 'z kstate_scheme) res" where
  "exec_args vm pt stackbase [] sp ustack s = Fault"
| "exec_args vm pt stackbase (a # argv) sp ustack s =
     (if a = 0 then Ret (Some (sp, ustack)) s
      else if MAXARG \<le> length ustack then Ret None s
      else
        res_bind (lift_opt (strlen (page_string a s)) s) (\<lambda>len s.
          let sp = sp - (of_nat len + 1); sp = sp - sp mod 16 in
          if sp < stackbase then Ret None s
          else res_bind (vm_run (vm_copyout vm pt sp (take (len + 1) (page_string a s))) s) (\<lambda>r s.
            if sint r < 0 then Ret None s
            else exec_args vm pt stackbase argv sp (ustack @ [sp]) s)))"

text \<open>The part of the path after the last slash.\<close>

fun last_elem :: "uchar list \<Rightarrow> uchar list \<Rightarrow> uchar list" where
  "last_elem lst [] = lst"
| "last_elem lst (c # s) = last_elem (if c = slash then s else lst) s"

section \<open>Exec\<close>

text \<open>The label \<^verbatim>\<open>bad\<close>; \<open>ip\<close> is null once the file is closed.\<close>

definition exec_bad :: "vm_ops \<Rightarrow> uint64 \<Rightarrow> uint64 \<Rightarrow> nat option \<Rightarrow> 'z fsstate_scheme \<Rightarrow> (cint, 'z fsstate_scheme) res" where
  "exec_bad vm pt msz ip s =
     res_bind (if pt \<noteq> 0 then proc_freepagetable vm pt msz s else Ret () s) (\<lambda>_ s.
     res_bind (case ip of None \<Rightarrow> Ret () s | Some i \<Rightarrow> res_bind (iunlockput i s) (\<lambda>_ s. end_op s)) (\<lambda>_ s.
     Ret minus_one s))"

text \<open>The end of \<^verbatim>\<open>exec\<close>, from the push of the array of pointers on.\<close>

definition exec_commit :: "vm_ops \<Rightarrow> nat \<Rightarrow> uchar list \<Rightarrow> elfhdr \<Rightarrow> uint64 \<Rightarrow> uint64 \<Rightarrow> uint64 \<Rightarrow> uint64 \<Rightarrow> uint64 list \<Rightarrow> uint64 \<Rightarrow>
    'z fsstate_scheme \<Rightarrow> (cint, 'z fsstate_scheme) res" where
  "exec_commit vm p path elf pt msz oldsz stackbase ustack sp s =
     (let argc = length ustack;
          sp = sp - (of_nat argc + 1) * 8;
          sp = sp - sp mod 16
      in if MAXARG \<le> argc then Fault
      else if sp < stackbase then exec_bad vm pt msz None s
      else res_bind (vm_run (vm_copyout vm pt sp (concat (map (le_bytes 8) (ustack @ [0])))) s) (\<lambda>r s.
        if sint r < 0 then exec_bad vm pt msz None s
        else
          let s = tf_put p (tf_a 1) sp s in
          res_bind (lift_opt (safestrcpy (pname (procs s p)) (last_elem path path @ [0]) 16) s) (\<lambda>nm s.
            let oldpt = pagetable (procs s p);
                s = upd_proc p (\<lambda>q. q\<lparr>pname := nm, pagetable := pt, sz := msz\<rparr>) s;
                s = tf_put p tf_epc (e_entry elf) s;
                s = tf_put p tf_sp sp s
            in res_bind (proc_freepagetable vm oldpt oldsz s) (\<lambda>_ s. Ret (of_nat argc) s))))"

text \<open>From the closing of the file on: the stack and the arguments.\<close>

definition exec_stack :: "vm_ops \<Rightarrow> nat \<Rightarrow> uchar list \<Rightarrow> uint64 list \<Rightarrow> elfhdr \<Rightarrow> uint64 \<Rightarrow> uint64 \<Rightarrow> 'z fsstate_scheme \<Rightarrow>
    (cint, 'z fsstate_scheme) res" where
  "exec_stack vm p path argv elf pt msz s =
     (let oldsz = sz (procs s p); msz = PGROUNDUP msz in
      res_bind (vm_run (vm_uvmalloc vm pt msz (msz + 2 * PGSIZE) PTE_W) s) (\<lambda>sz1 s.
        if sz1 = 0 then exec_bad vm pt msz None s
        else
          res_bind (vm_run (vm_uvmclear vm pt (sz1 - 2 * PGSIZE)) s) (\<lambda>_ s.
          res_bind (exec_args vm pt (sz1 - PGSIZE) argv sz1 [] s) (\<lambda>r s.
            case r of None \<Rightarrow> exec_bad vm pt sz1 None s
            | Some (sp, ustack) \<Rightarrow> exec_commit vm p path elf pt sz1 oldsz (sz1 - PGSIZE) ustack sp s))))"

definition exec :: "vm_ops \<Rightarrow> ksyms \<Rightarrow> uchar list \<Rightarrow> uint64 list \<Rightarrow> 'z fsstate_scheme \<Rightarrow> (cint, 'z fsstate_scheme) res" where
  "exec vm ks path argv = with_proc (\<lambda>p s.
     res_bind (begin_op s) (\<lambda>_ s.
     res_bind (namei vm path s) (\<lambda>r s.
       case r of None \<Rightarrow> res_bind (end_op s) (\<lambda>_ s. Ret minus_one s)
       | Some ip \<Rightarrow>
           res_bind (ilock (Some ip) s) (\<lambda>_ s.
           res_bind (readi vm ip VarDst 0 (of_nat elfhdr_size) s) (\<lambda>(r, d) s.
             let elf = elfhdr_of d in
             if r \<noteq> of_nat elfhdr_size then exec_bad vm 0 0 (Some ip) s
             else if e_magic elf \<noteq> ELF_MAGIC then exec_bad vm 0 0 (Some ip) s
             else res_bind (proc_pagetable vm ks p s) (\<lambda>pt s.
               if pt = 0 then exec_bad vm 0 0 (Some ip) s
               else res_bind (exec_load vm pt ip (unat (e_phnum elf)) (ucast (e_phoff elf)) 0 s) (\<lambda>(ok, msz) s.
                 if \<not> ok then exec_bad vm pt msz (Some ip) s
                 else res_bind (iunlockput ip s) (\<lambda>_ s.
                      res_bind (end_op s) (\<lambda>_ s. exec_stack vm p path argv elf pt msz s)))))))))"

end
