(* ===== verification/Sysproc.thy ===== *)
theory Sysproc
  imports Exec
begin

text \<open>
  The arguments of system calls (\<^verbatim>\<open>kernel/syscall.c\<close>) and the system calls on processes
  (\<^verbatim>\<open>kernel/sysproc.c\<close>). Out-parameters are results.
\<close>

section \<open>Arguments of system calls\<close>

definition fetchaddr :: "vm_ops \<Rightarrow> uint64 \<Rightarrow> 'z pcb_scheme \<Rightarrow> (cint \<times> uint64, 'z pcb_scheme) res" where
  "fetchaddr vm addr = with_proc (\<lambda>p s.
     if sz (procs s p) \<le> addr \<or> sz (procs s p) < addr + 8 then Ret (minus_one, 0) s
     else res_bind (vm_run (vm_copyin vm (pagetable (procs s p)) addr 8) s) (\<lambda>(r, bs) s.
       if r \<noteq> 0 then Ret (minus_one, 0) s else Ret (0, le_word bs) s))"

text \<open>The second result of \<open>fetchstr\<close> holds the bytes written to the buffer.\<close>

definition fetchstr :: "vm_ops \<Rightarrow> uint64 \<Rightarrow> nat \<Rightarrow> 'z pcb_scheme \<Rightarrow> (cint \<times> uchar list, 'z pcb_scheme) res" where
  "fetchstr vm addr mx = with_proc (\<lambda>p s.
     res_bind (vm_run (vm_copyinstr vm (pagetable (procs s p)) addr (of_nat mx)) s) (\<lambda>(r, bs) s.
       if sint r < 0 then Ret (minus_one, bs) s
       else res_bind (lift_opt (strlen bs) s) (\<lambda>n s. Ret (of_nat n, bs) s)))"

definition argraw :: "nat \<Rightarrow> 'z pcb_scheme \<Rightarrow> (uint64, 'z pcb_scheme) res" where
  "argraw n = with_proc (\<lambda>p s. if n \<le> 5 then Ret (tf_get p (tf_a n) s) s else Panic ''argraw'')"

definition argint :: "nat \<Rightarrow> 'z pcb_scheme \<Rightarrow> (cint, 'z pcb_scheme) res" where
  "argint n s = res_bind (argraw n s) (\<lambda>a s. Ret (ucast a) s)"

definition argaddr :: "nat \<Rightarrow> 'z pcb_scheme \<Rightarrow> (uint64, 'z pcb_scheme) res" where
  "argaddr n s = argraw n s"

definition argstr :: "vm_ops \<Rightarrow> nat \<Rightarrow> nat \<Rightarrow> 'z pcb_scheme \<Rightarrow> (cint \<times> uchar list, 'z pcb_scheme) res" where
  "argstr vm n mx s = res_bind (argaddr n s) (\<lambda>addr s. fetchstr vm addr mx s)"

section \<open>System calls on processes\<close>

text \<open>
  \<open>junk\<close> is the content of the uninitialised array \<^verbatim>\<open>exit_msg\<close> on the stack; the result of \<^verbatim>\<open>argstr\<close>
  is not looked at.
\<close>

definition sys_exit :: "vm_ops \<Rightarrow> uchar list \<Rightarrow> 'z flstate_scheme \<Rightarrow> (uint64, 'z flstate_scheme) res" where
  "sys_exit vm junk s =
     res_bind (argint 0 s) (\<lambda>n s.
     res_bind (argstr vm 1 32 s) (\<lambda>(_, bs) s. exit n (put_bytes junk 0 bs) s))"

definition sys_getpid :: "'z pcb_scheme \<Rightarrow> (uint64, 'z pcb_scheme) res" where
  "sys_getpid = with_proc (\<lambda>p s. Ret (scast (pid (procs s p))) s)"

definition sys_fork :: "vm_ops \<Rightarrow> ksyms \<Rightarrow> 'z flstate_scheme \<Rightarrow> (uint64, 'z flstate_scheme) res" where
  "sys_fork vm ks s = res_bind (fork vm ks s) (\<lambda>r s. Ret (scast r) s)"

definition sys_wait :: "vm_ops \<Rightarrow> 'z pcb_scheme \<Rightarrow> (uint64, 'z pcb_scheme) res" where
  "sys_wait vm s =
     res_bind (argaddr 0 s) (\<lambda>a s.
     res_bind (argaddr 1 s) (\<lambda>b s.
     res_bind (wait vm a b s) (\<lambda>r s. Ret (scast r) s)))"

definition sys_sbrk :: "vm_ops \<Rightarrow> 'z pcb_scheme \<Rightarrow> (uint64, 'z pcb_scheme) res" where
  "sys_sbrk vm s =
     res_bind (argint 0 s) (\<lambda>n s.
     with_proc (\<lambda>p s.
       let addr = sz (procs s p) in
       res_bind (growproc vm n s) (\<lambda>r s. Ret (if sint r < 0 then -1 else addr) s)) s)"

text \<open>
  \<^verbatim>\<open>ticks - ticks0 < n\<close> compares an unsigned with a signed integer, so C converts \<open>n\<close> to unsigned.
\<close>

definition sys_sleep_loop :: "uint \<Rightarrow> cint \<Rightarrow> 'z pcb_scheme \<Rightarrow> (uint64, 'z pcb_scheme) res" where
  "sys_sleep_loop ticks0 n s =
     (if ticks s - ticks0 < n then
        with_proc (\<lambda>p s. res_bind (killed p s) (\<lambda>k s.
          if k \<noteq> 0 then res_bind (lock_release TicksLock s) (\<lambda>_ s. Ret (-1) s)
          else res_bind (sleep (Some ChanTicks) TicksLock s) (\<lambda>_ s. Hang))) s
      else res_bind (lock_release TicksLock s) (\<lambda>_ s. Ret 0 s))"

definition sys_sleep :: "'z pcb_scheme \<Rightarrow> (uint64, 'z pcb_scheme) res" where
  "sys_sleep s =
     res_bind (argint 0 s) (\<lambda>n s.
     res_bind (lock_acquire TicksLock s) (\<lambda>_ s. sys_sleep_loop (ticks s) n s))"

definition sys_sleep_resume :: "nat \<Rightarrow> uint \<Rightarrow> cint \<Rightarrow> 'z pcb_scheme \<Rightarrow> (uint64, 'z pcb_scheme) res" where
  "sys_sleep_resume p ticks0 n s =
     res_bind (sleep_resume p TicksLock s) (\<lambda>_ s. sys_sleep_loop ticks0 n s)"

definition sys_kill :: "'z pcb_scheme \<Rightarrow> (uint64, 'z pcb_scheme) res" where
  "sys_kill s = res_bind (argint 0 s) (\<lambda>i s. res_bind (kill i s) (\<lambda>r s. Ret (scast r) s))"

definition sys_uptime :: "'z pcb_scheme \<Rightarrow> (uint64, 'z pcb_scheme) res" where
  "sys_uptime s =
     res_bind (lock_acquire TicksLock s) (\<lambda>_ s.
       let xticks = ticks s in res_bind (lock_release TicksLock s) (\<lambda>_ s. Ret (ucast xticks) s))"

definition sys_memsize :: "'z pcb_scheme \<Rightarrow> (uint64, 'z pcb_scheme) res" where
  "sys_memsize = with_proc (\<lambda>p s. Ret (sz (procs s p)) s)"

definition sys_set_ps_priority :: "'z pcb_scheme \<Rightarrow> (uint64, 'z pcb_scheme) res" where
  "sys_set_ps_priority s =
     res_bind (argint 0 s) (\<lambda>pr s. res_bind (set_ps_priority pr s) (\<lambda>_ s. Ret (scast pr) s))"

definition sys_set_cfs_priority :: "'z pcb_scheme \<Rightarrow> (uint64, 'z pcb_scheme) res" where
  "sys_set_cfs_priority s =
     res_bind (argint 0 s) (\<lambda>pr s.
       if pr \<noteq> 0 \<and> pr \<noteq> 1 \<and> pr \<noteq> 2 then Ret (-1) s
       else res_bind (set_cfs_priority pr s) (\<lambda>_ s. Ret 0 s))"

definition sys_get_cfs_stats :: "vm_ops \<Rightarrow> 'z pcb_scheme \<Rightarrow> (uint64, 'z pcb_scheme) res" where
  "sys_get_cfs_stats vm s =
     res_bind (argint 0 s) (\<lambda>i s.
     res_bind (argaddr 1 s) (\<lambda>dst s.
     res_bind (get_cfs_priority vm i dst s) (\<lambda>r s. Ret (scast r) s)))"

definition sys_set_policy :: "'z pcb_scheme \<Rightarrow> (uint64, 'z pcb_scheme) res" where
  "sys_set_policy s =
     res_bind (argint 0 s) (\<lambda>pol s.
       if pol \<noteq> 0 \<and> pol \<noteq> 1 \<and> pol \<noteq> 2 then Ret (-1) s
       else res_bind (set_policy pol s) (\<lambda>_ s. Ret 0 s))"

end
