(* ===== verification/Sysfile.thy ===== *)
theory Sysfile
  imports Sysproc
begin

text \<open>
  \<^verbatim>\<open>kernel/sysfile.c\<close>: the system calls on files. A file or inode pointer is an index, and a string
  argument the list of its characters.
\<close>

section \<open>File descriptors\<close>

definition argfd :: "nat \<Rightarrow> 'z pcb_scheme \<Rightarrow> ((cint \<times> nat) option, 'z pcb_scheme) res" where
  "argfd n s =
     res_bind (argint n s) (\<lambda>fd s.
       if sint fd < 0 \<or> int NOFILE \<le> sint fd then Ret None s
       else with_proc (\<lambda>p s. Ret (map_option (\<lambda>f. (fd, f)) (ofile (procs s p) (unat fd))) s) s)"

definition fdalloc :: "nat \<Rightarrow> 'z pcb_scheme \<Rightarrow> (nat option, 'z pcb_scheme) res" where
  "fdalloc f = with_proc (\<lambda>p s.
     case List.find (\<lambda>fd. ofile (procs s p) fd = None) [0..<NOFILE] of
       None \<Rightarrow> Ret None s
     | Some fd \<Rightarrow> Ret (Some fd) (upd_proc p (\<lambda>q. q\<lparr>ofile := (ofile q)(fd := Some f)\<rparr>) s))"

definition clear_fd :: "nat \<Rightarrow> nat \<Rightarrow> 'z pcb_scheme \<Rightarrow> 'z pcb_scheme" where
  "clear_fd p fd s = upd_proc p (\<lambda>q. q\<lparr>ofile := (ofile q)(fd := None)\<rparr>) s"

definition sys_dup :: "'z flstate_scheme \<Rightarrow> (uint64, 'z flstate_scheme) res" where
  "sys_dup s =
     res_bind (argfd 0 s) (\<lambda>r s. case r of None \<Rightarrow> Ret (-1) s
     | Some (_, f) \<Rightarrow>
         res_bind (fdalloc f s) (\<lambda>r s. case r of None \<Rightarrow> Ret (-1) s
         | Some fd \<Rightarrow> res_bind (filedup f s) (\<lambda>_ s. Ret (of_nat fd) s)))"

definition sys_read :: "vm_ops \<Rightarrow> 'z flstate_scheme \<Rightarrow> (uint64, 'z flstate_scheme) res" where
  "sys_read vm s =
     res_bind (argaddr 1 s) (\<lambda>a s.
     res_bind (argint 2 s) (\<lambda>n s.
     res_bind (argfd 0 s) (\<lambda>r s. case r of None \<Rightarrow> Ret (-1) s
     | Some (_, f) \<Rightarrow> res_bind (fileread vm f a n s) (\<lambda>r s. Ret (scast r) s))))"

definition sys_write :: "vm_ops \<Rightarrow> 'z flstate_scheme \<Rightarrow> (uint64, 'z flstate_scheme) res" where
  "sys_write vm s =
     res_bind (argaddr 1 s) (\<lambda>a s.
     res_bind (argint 2 s) (\<lambda>n s.
     res_bind (argfd 0 s) (\<lambda>r s. case r of None \<Rightarrow> Ret (-1) s
     | Some (_, f) \<Rightarrow> res_bind (filewrite vm f a n s) (\<lambda>r s. Ret (scast r) s))))"

definition sys_close :: "'z flstate_scheme \<Rightarrow> (uint64, 'z flstate_scheme) res" where
  "sys_close s =
     res_bind (argfd 0 s) (\<lambda>r s. case r of None \<Rightarrow> Ret (-1) s
     | Some (fd, f) \<Rightarrow>
         with_proc (\<lambda>p s. res_bind (fileclose f (clear_fd p (unat fd) s)) (\<lambda>_ s. Ret 0 s)) s)"

definition sys_fstat :: "vm_ops \<Rightarrow> uchar list \<Rightarrow> 'z flstate_scheme \<Rightarrow> (uint64, 'z flstate_scheme) res" where
  "sys_fstat vm pad s =
     res_bind (argaddr 1 s) (\<lambda>st s.
     res_bind (argfd 0 s) (\<lambda>r s. case r of None \<Rightarrow> Ret (-1) s
     | Some (_, f) \<Rightarrow> res_bind (filestat vm pad f st s) (\<lambda>r s. Ret (scast r) s)))"

section \<open>Links and directories\<close>

text \<open>A path argument: \<open>None\<close> if it cannot be fetched.\<close>

definition argpath :: "vm_ops \<Rightarrow> nat \<Rightarrow> 'z pcb_scheme \<Rightarrow> (uchar list option, 'z pcb_scheme) res" where
  "argpath vm n s =
     res_bind (argstr vm n MAXPATH s) (\<lambda>(r, bs) s. Ret (if sint r < 0 then None else Some (cstr bs)) s)"

definition fail_op :: "'z lgstate_scheme \<Rightarrow> (uint64, 'z lgstate_scheme) res" where
  "fail_op s = res_bind (end_op s) (\<lambda>_ s. Ret (-1) s)"

definition add_nlink :: "nat \<Rightarrow> ushort \<Rightarrow> 'z fsstate_scheme \<Rightarrow> 'z fsstate_scheme" where
  "add_nlink ip d s = upd_ino ip (\<lambda>n. n\<lparr>i_nlink := i_nlink n + d\<rparr>) s"

text \<open>The label \<^verbatim>\<open>bad\<close> of \<^verbatim>\<open>sys_link\<close>.\<close>

definition sys_link_bad :: "nat \<Rightarrow> 'z fsstate_scheme \<Rightarrow> (uint64, 'z fsstate_scheme) res" where
  "sys_link_bad ip s =
     res_bind (ilock (Some ip) s) (\<lambda>_ s.
     res_bind (iupdate ip (add_nlink ip (-1) s)) (\<lambda>_ s.
     res_bind (iunlockput ip s) (\<lambda>_ s. fail_op s)))"

definition sys_link :: "vm_ops \<Rightarrow> 'z fsstate_scheme \<Rightarrow> (uint64, 'z fsstate_scheme) res" where
  "sys_link vm s =
     res_bind (argpath vm 0 s) (\<lambda>old s. case old of None \<Rightarrow> Ret (-1) s
     | Some old \<Rightarrow>
     res_bind (argpath vm 1 s) (\<lambda>new s. case new of None \<Rightarrow> Ret (-1) s
     | Some new \<Rightarrow>
       res_bind (begin_op s) (\<lambda>_ s.
       res_bind (namei vm old s) (\<lambda>r s. case r of None \<Rightarrow> fail_op s
       | Some ip \<Rightarrow>
         res_bind (ilock (Some ip) s) (\<lambda>_ s.
         if i_type (inodes s ip) = T_DIR then res_bind (iunlockput ip s) (\<lambda>_ s. fail_op s)
         else
           res_bind (iupdate ip (add_nlink ip 1 s)) (\<lambda>_ s.
           res_bind (iunlock (Some ip) s) (\<lambda>_ s.
           res_bind (nameiparent vm new (replicate DIRSIZ 0) s) (\<lambda>(r, name) s. case r of None \<Rightarrow> sys_link_bad ip s
           | Some dp \<Rightarrow>
             res_bind (ilock (Some dp) s) (\<lambda>_ s.
             res_bind (if i_dev (inodes s dp) \<noteq> i_dev (inodes s ip) then Ret minus_one s
                       else dirlink vm dp name (i_inum (inodes s ip)) s) (\<lambda>r s.
             if sint r < 0 then res_bind (iunlockput dp s) (\<lambda>_ s. sys_link_bad ip s)
             else
               res_bind (iunlockput dp s) (\<lambda>_ s.
               res_bind (iput ip s) (\<lambda>_ s.
               res_bind (end_op s) (\<lambda>_ s. Ret 0 s)))))))))))))"

definition isdirempty :: "vm_ops \<Rightarrow> nat \<Rightarrow> 'z fsstate_scheme \<Rightarrow> (bool, 'z fsstate_scheme) res" where
  "isdirempty vm dp s =
     res_bind (for_loop (\<lambda>k s.
       res_bind (readi vm dp VarDst (of_nat (k * DIRENT)) (of_nat DIRENT) s) (\<lambda>(r, de) s.
         if r \<noteq> of_nat DIRENT then Panic ''isdirempty: readi''
         else Ret (if de_inum de \<noteq> 0 then Some () else None) s))
       [2..<(unat (i_size (inodes s dp)) + DIRENT - 1) div DIRENT] s) (\<lambda>r s. Ret (r = None) s)"

definition dot :: "uchar list" where "dot = [46, 0]"
definition dotdot :: "uchar list" where "dotdot = [46, 46, 0]"

definition sys_unlink :: "vm_ops \<Rightarrow> 'z fsstate_scheme \<Rightarrow> (uint64, 'z fsstate_scheme) res" where
  "sys_unlink vm s =
     res_bind (argpath vm 0 s) (\<lambda>path s. case path of None \<Rightarrow> Ret (-1) s
     | Some path \<Rightarrow>
       res_bind (begin_op s) (\<lambda>_ s.
       res_bind (nameiparent vm path (replicate DIRSIZ 0) s) (\<lambda>(r, name) s. case r of None \<Rightarrow> fail_op s
       | Some dp \<Rightarrow>
         res_bind (ilock (Some dp) s) (\<lambda>_ s.
         if namecmp name dot = Some 0 \<or> namecmp name dotdot = Some 0 then res_bind (iunlockput dp s) (\<lambda>_ s. fail_op s)
         else
           res_bind (dirlookup vm dp name s) (\<lambda>r s. case r of None \<Rightarrow> res_bind (iunlockput dp s) (\<lambda>_ s. fail_op s)
           | Some (ip, off) \<Rightarrow>
             res_bind (ilock (Some ip) s) (\<lambda>_ s.
             if sint (i_nlink (inodes s ip)) < 1 then Panic ''unlink: nlink < 1''
             else
               res_bind (if i_type (inodes s ip) = T_DIR then isdirempty vm ip s else Ret True s) (\<lambda>ok s.
               if \<not> ok then res_bind (iunlockput ip s) (\<lambda>_ s. res_bind (iunlockput dp s) (\<lambda>_ s. fail_op s))
               else
                 res_bind (writei vm dp (VarSrc (replicate DIRENT 0)) off (of_nat DIRENT) s) (\<lambda>w s.
                 if w \<noteq> of_nat DIRENT then Panic ''unlink: writei''
                 else
                   res_bind (if i_type (inodes s ip) = T_DIR then iupdate dp (add_nlink dp (-1) s) else Ret () s) (\<lambda>_ s.
                   res_bind (iunlockput dp s) (\<lambda>_ s.
                   res_bind (iupdate ip (add_nlink ip (-1) s)) (\<lambda>_ s.
                   res_bind (iunlockput ip s) (\<lambda>_ s.
                   res_bind (end_op s) (\<lambda>_ s. Ret 0 s)))))))))))))"

section \<open>Creating and opening\<close>

text \<open>The label \<^verbatim>\<open>fail\<close> of \<^verbatim>\<open>create\<close>.\<close>

definition create_fail :: "nat \<Rightarrow> nat \<Rightarrow> 'z fsstate_scheme \<Rightarrow> (nat option, 'z fsstate_scheme) res" where
  "create_fail ip dp s =
     res_bind (iupdate ip (upd_ino ip (\<lambda>n. n\<lparr>i_nlink := 0\<rparr>) s)) (\<lambda>_ s.
     res_bind (iunlockput ip s) (\<lambda>_ s.
     res_bind (iunlockput dp s) (\<lambda>_ s. Ret None s)))"

text \<open>The part of \<^verbatim>\<open>create\<close> that fills the new inode \<open>ip\<close> and enters it into \<open>dp\<close>.\<close>

definition create_new :: "vm_ops \<Rightarrow> nat \<Rightarrow> nat \<Rightarrow> uchar list \<Rightarrow> ushort \<Rightarrow> ushort \<Rightarrow> ushort \<Rightarrow> 'z fsstate_scheme \<Rightarrow>
    (nat option, 'z fsstate_scheme) res" where
  "create_new vm dp ip name type major minor s =
     res_bind (ilock (Some ip) s) (\<lambda>_ s.
     res_bind (iupdate ip (upd_ino ip (\<lambda>n. n\<lparr>i_major := major, i_minor := minor, i_nlink := 1\<rparr>) s)) (\<lambda>_ s.
     res_bind
       (if type = T_DIR then
          res_bind (dirlink vm ip dot (i_inum (inodes s ip)) s) (\<lambda>r s.
            if sint r < 0 then Ret r s else dirlink vm ip dotdot (i_inum (inodes s dp)) s)
        else Ret 0 s) (\<lambda>r s.
     if sint r < 0 then create_fail ip dp s
     else res_bind (dirlink vm dp name (i_inum (inodes s ip)) s) (\<lambda>r s.
       if sint r < 0 then create_fail ip dp s
       else
         res_bind (if type = T_DIR then iupdate dp (add_nlink dp 1 s) else Ret () s) (\<lambda>_ s.
         res_bind (iunlockput dp s) (\<lambda>_ s. Ret (Some ip) s))))))"

definition create :: "vm_ops \<Rightarrow> uchar list \<Rightarrow> ushort \<Rightarrow> ushort \<Rightarrow> ushort \<Rightarrow> 'z fsstate_scheme \<Rightarrow> (nat option, 'z fsstate_scheme) res" where
  "create vm path type major minor s =
     res_bind (nameiparent vm path (replicate DIRSIZ 0) s) (\<lambda>(r, name) s. case r of None \<Rightarrow> Ret None s
     | Some dp \<Rightarrow>
       res_bind (ilock (Some dp) s) (\<lambda>_ s.
       res_bind (dirlookup vm dp name s) (\<lambda>r s. case r of
         Some (ip, _) \<Rightarrow>
           res_bind (iunlockput dp s) (\<lambda>_ s.
           res_bind (ilock (Some ip) s) (\<lambda>_ s.
             if type = T_FILE \<and> (i_type (inodes s ip) = T_FILE \<or> i_type (inodes s ip) = T_DEVICE) then Ret (Some ip) s
             else res_bind (iunlockput ip s) (\<lambda>_ s. Ret None s)))
       | None \<Rightarrow>
           res_bind (ialloc (i_dev (inodes s dp)) type s) (\<lambda>r s. case r of
             None \<Rightarrow> res_bind (iunlockput dp s) (\<lambda>_ s. Ret None s)
           | Some ip \<Rightarrow> create_new vm dp ip name type major minor s))))"

definition O_RDONLY :: cint where "O_RDONLY = 0"
definition O_WRONLY :: cint where "O_WRONLY = 1"
definition O_RDWR :: cint where "O_RDWR = 2"
definition O_CREATE :: cint where "O_CREATE = 0x200"
definition O_TRUNC :: cint where "O_TRUNC = 0x400"

text \<open>The first part of \<^verbatim>\<open>sys_open\<close>, which returns the inode locked.\<close>

definition sys_open_inode :: "vm_ops \<Rightarrow> uchar list \<Rightarrow> cint \<Rightarrow> 'z fsstate_scheme \<Rightarrow> (nat option, 'z fsstate_scheme) res" where
  "sys_open_inode vm path omode s =
     (if omode AND O_CREATE \<noteq> 0 then create vm path T_FILE 0 0 s
      else res_bind (namei vm path s) (\<lambda>r s. case r of None \<Rightarrow> Ret None s
      | Some ip \<Rightarrow>
          res_bind (ilock (Some ip) s) (\<lambda>_ s.
            if i_type (inodes s ip) = T_DIR \<and> omode \<noteq> O_RDONLY then res_bind (iunlockput ip s) (\<lambda>_ s. Ret None s)
            else Ret (Some ip) s)))"

definition open_file :: "nat \<Rightarrow> cint \<Rightarrow> 'z fsstate_scheme \<Rightarrow> file_t \<Rightarrow> file_t" where
  "open_file ip omode s f =
     (let f = (if i_type (inodes s ip) = T_DEVICE then f\<lparr>f_type := FD_DEVICE, f_major := i_major (inodes s ip)\<rparr>
               else f\<lparr>f_type := FD_INODE, f_off := 0\<rparr>)
      in f\<lparr>f_ip := Some ip, f_readable := (omode AND O_WRONLY = 0),
           f_writable := (omode AND O_WRONLY \<noteq> 0 \<or> omode AND O_RDWR \<noteq> 0)\<rparr>)"

definition sys_open :: "vm_ops \<Rightarrow> 'z flstate_scheme \<Rightarrow> (uint64, 'z flstate_scheme) res" where
  "sys_open vm s =
     res_bind (argint 1 s) (\<lambda>omode s.
     res_bind (argpath vm 0 s) (\<lambda>path s. case path of None \<Rightarrow> Ret (-1) s
     | Some path \<Rightarrow>
       res_bind (begin_op s) (\<lambda>_ s.
       res_bind (sys_open_inode vm path omode s) (\<lambda>r s. case r of None \<Rightarrow> fail_op s
       | Some ip \<Rightarrow>
         if i_type (inodes s ip) = T_DEVICE \<and> (sint (i_major (inodes s ip)) < 0 \<or> int NDEV \<le> sint (i_major (inodes s ip)))
         then res_bind (iunlockput ip s) (\<lambda>_ s. fail_op s)
         else
           res_bind (filealloc s) (\<lambda>f s. case f of None \<Rightarrow> res_bind (iunlockput ip s) (\<lambda>_ s. fail_op s)
           | Some f \<Rightarrow>
             res_bind (fdalloc f s) (\<lambda>fd s. case fd of
               None \<Rightarrow> res_bind (fileclose f s) (\<lambda>_ s. res_bind (iunlockput ip s) (\<lambda>_ s. fail_op s))
             | Some fd \<Rightarrow>
                 let s = upd_file f (open_file ip omode s) s in
                 res_bind (if omode AND O_TRUNC \<noteq> 0 \<and> i_type (inodes s ip) = T_FILE then itrunc ip s else Ret () s) (\<lambda>_ s.
                 res_bind (iunlock (Some ip) s) (\<lambda>_ s.
                 res_bind (end_op s) (\<lambda>_ s. Ret (of_nat fd) s)))))))))"

definition sys_mkdir :: "vm_ops \<Rightarrow> 'z fsstate_scheme \<Rightarrow> (uint64, 'z fsstate_scheme) res" where
  "sys_mkdir vm s =
     res_bind (begin_op s) (\<lambda>_ s.
     res_bind (argpath vm 0 s) (\<lambda>path s. case path of None \<Rightarrow> fail_op s
     | Some path \<Rightarrow>
       res_bind (create vm path T_DIR 0 0 s) (\<lambda>r s. case r of None \<Rightarrow> fail_op s
       | Some ip \<Rightarrow> res_bind (iunlockput ip s) (\<lambda>_ s. res_bind (end_op s) (\<lambda>_ s. Ret 0 s)))))"

definition sys_mknod :: "vm_ops \<Rightarrow> 'z fsstate_scheme \<Rightarrow> (uint64, 'z fsstate_scheme) res" where
  "sys_mknod vm s =
     res_bind (begin_op s) (\<lambda>_ s.
     res_bind (argint 1 s) (\<lambda>major s.
     res_bind (argint 2 s) (\<lambda>minor s.
     res_bind (argpath vm 0 s) (\<lambda>path s. case path of None \<Rightarrow> fail_op s
     | Some path \<Rightarrow>
       res_bind (create vm path T_DEVICE (ucast major) (ucast minor) s) (\<lambda>r s. case r of None \<Rightarrow> fail_op s
       | Some ip \<Rightarrow> res_bind (iunlockput ip s) (\<lambda>_ s. res_bind (end_op s) (\<lambda>_ s. Ret 0 s)))))))"

definition sys_chdir :: "vm_ops \<Rightarrow> 'z fsstate_scheme \<Rightarrow> (uint64, 'z fsstate_scheme) res" where
  "sys_chdir vm = with_proc (\<lambda>p s.
     res_bind (begin_op s) (\<lambda>_ s.
     res_bind (argpath vm 0 s) (\<lambda>path s. case path of None \<Rightarrow> fail_op s
     | Some path \<Rightarrow>
       res_bind (namei vm path s) (\<lambda>r s. case r of None \<Rightarrow> fail_op s
       | Some ip \<Rightarrow>
         res_bind (ilock (Some ip) s) (\<lambda>_ s.
         if i_type (inodes s ip) \<noteq> T_DIR then res_bind (iunlockput ip s) (\<lambda>_ s. fail_op s)
         else
           res_bind (iunlock (Some ip) s) (\<lambda>_ s.
           res_bind (case cwd (procs s p) of None \<Rightarrow> Fault | Some c \<Rightarrow> iput c s) (\<lambda>_ s.
           res_bind (end_op s) (\<lambda>_ s.
             Ret 0 (upd_proc p (\<lambda>q. q\<lparr>cwd := Some ip\<rparr>) s)))))))))"

section \<open>Exec and pipe\<close>

text \<open>
  The loop of \<^verbatim>\<open>sys_exec\<close> at index \<open>i\<close> of \<^verbatim>\<open>argv\<close>, with \<open>n\<close> entries of the array left. The result tells
  whether the list was complete, and gives the array.
\<close>

fun sys_exec_args :: "vm_ops \<Rightarrow> uint64 \<Rightarrow> nat \<Rightarrow> nat \<Rightarrow> uint64 list \<Rightarrow> 'z pcb_scheme \<Rightarrow> (bool \<times> uint64 list, 'z pcb_scheme) res" where
  "sys_exec_args vm uargv i 0 argv s = Ret (False, argv) s"
| "sys_exec_args vm uargv i (Suc n) argv s =
     res_bind (fetchaddr vm (uargv + 8 * of_nat i) s) (\<lambda>(r, uarg) s.
       if sint r < 0 then Ret (False, argv) s
       else if uarg = 0 then Ret (True, argv[i := 0]) s
       else res_bind (kalloc s) (\<lambda>pg s.
         let argv = argv[i := pg] in
         if pg = 0 then Ret (False, argv) s
         else res_bind (fetchstr vm uarg 4096 s) (\<lambda>(r, bs) s.
           let s = s\<lparr>phys := (phys s)\<lparr>pmem := store_bytes (pmem (phys s)) pg bs\<rparr>\<rparr> in
           if sint r < 0 then Ret (False, argv) s
           else sys_exec_args vm uargv (Suc i) n argv s)))"

definition free_args :: "uint64 list \<Rightarrow> 'z kstate_scheme \<Rightarrow> (unit, 'z kstate_scheme) res" where
  "free_args argv s =
     res_bind (for_loop (\<lambda>a s. res_bind (kfree a s) (\<lambda>_ s. Ret (None :: unit option) s))
       (takeWhile (\<lambda>a. a \<noteq> 0) argv) s) (\<lambda>_ s. Ret () s)"

definition sys_exec :: "vm_ops \<Rightarrow> ksyms \<Rightarrow> 'z fsstate_scheme \<Rightarrow> (uint64, 'z fsstate_scheme) res" where
  "sys_exec vm ks s =
     res_bind (argaddr 1 s) (\<lambda>uargv s.
     res_bind (argpath vm 0 s) (\<lambda>path s. case path of None \<Rightarrow> Ret (-1) s
     | Some path \<Rightarrow>
       res_bind (sys_exec_args vm uargv 0 MAXARG (replicate MAXARG 0) s) (\<lambda>(ok, argv) s.
       if \<not> ok then res_bind (free_args argv s) (\<lambda>_ s. Ret (-1) s)
       else res_bind (exec vm ks path argv s) (\<lambda>ret s.
            res_bind (free_args argv s) (\<lambda>_ s. Ret (scast ret) s)))))"

text \<open>The failing exits of \<^verbatim>\<open>sys_pipe\<close> clear the descriptors and close both files.\<close>

definition sys_pipe_fail :: "nat \<Rightarrow> nat list \<Rightarrow> nat \<Rightarrow> nat \<Rightarrow> 'z flstate_scheme \<Rightarrow> (uint64, 'z flstate_scheme) res" where
  "sys_pipe_fail p fds rfile wfile s =
     res_bind (fileclose rfile (fold (clear_fd p) fds s)) (\<lambda>_ s.
     res_bind (fileclose wfile s) (\<lambda>_ s. Ret (-1) s))"

definition sys_pipe :: "vm_ops \<Rightarrow> 'z flstate_scheme \<Rightarrow> (uint64, 'z flstate_scheme) res" where
  "sys_pipe vm = with_proc (\<lambda>p s.
     res_bind (argaddr 0 s) (\<lambda>fdarray s.
     res_bind (pipealloc s) (\<lambda>r s. case r of None \<Rightarrow> Ret (-1) s
     | Some (rfile, wfile) \<Rightarrow>
       res_bind (fdalloc rfile s) (\<lambda>r s. case r of None \<Rightarrow> sys_pipe_fail p [] rfile wfile s
       | Some fd0 \<Rightarrow>
         res_bind (fdalloc wfile s) (\<lambda>r s. case r of None \<Rightarrow> sys_pipe_fail p [fd0] rfile wfile s
         | Some fd1 \<Rightarrow>
           res_bind (vm_run (vm_copyout vm (pagetable (procs s p)) fdarray (le_bytes 4 (of_nat fd0 :: cint))) s) (\<lambda>r s.
           if sint r < 0 then sys_pipe_fail p [fd0, fd1] rfile wfile s
           else
             res_bind (vm_run (vm_copyout vm (pagetable (procs s p)) (fdarray + 4) (le_bytes 4 (of_nat fd1 :: cint))) s) (\<lambda>r s.
             if sint r < 0 then sys_pipe_fail p [fd0, fd1] rfile wfile s else Ret 0 s)))))))"

end
