(* ===== verification/Virtio.thy ===== *)
theory Virtio
  imports Lifecycle
begin

text \<open>
  \<^verbatim>\<open>kernel/virtio_disk.c\<close>: the driver of the disk. The three queue pages are kept as structures, apart
  from the byte memory. What the device writes (the used ring and the status bytes) is part of the
  state, and the values it returns for register reads are the argument \<open>R\<close>. The other theories use
  the effect of a completed request, \<^const>\<open>disk_rw\<close>.
\<close>

section \<open>State\<close>

definition NUM :: nat where "NUM = 8"
definition VRING_DESC_F_NEXT :: ushort where "VRING_DESC_F_NEXT = 1"
definition VRING_DESC_F_WRITE :: ushort where "VRING_DESC_F_WRITE = 2"
definition VIRTIO_BLK_T_IN :: uint where "VIRTIO_BLK_T_IN = 0"
definition VIRTIO_BLK_T_OUT :: uint where "VIRTIO_BLK_T_OUT = 1"

text \<open>
  The addresses a descriptor holds: null, of a request header \<^verbatim>\<open>disk.ops[i]\<close>, of the data of a
  buffer, of a status byte \<^verbatim>\<open>disk.info[i].status\<close>.
\<close>

datatype dma = NullAddr | OpAddr nat | DataAddr nat | StatusAddr nat

record virtq_desc =
  vq_addr :: dma
  vq_len :: uint
  vq_flags :: ushort
  vq_next :: ushort

definition null_desc :: virtq_desc where
  "null_desc = \<lparr>vq_addr = NullAddr, vq_len = 0, vq_flags = 0, vq_next = 0\<rparr>"

record virtio_blk_req =
  rq_type :: uint
  rq_reserved :: uint
  rq_sector :: uint64

record vdisk_t =
  desc_page :: uint64
  avail_page :: uint64
  used_page :: uint64
  vdesc :: "nat \<Rightarrow> virtq_desc"
  avail_ring :: "nat \<Rightarrow> ushort"
  avail_idx :: ushort
  used_ring :: "nat \<Rightarrow> uint"
  used_dev_idx :: ushort
  vfree :: "nat \<Rightarrow> bool"
  used_idx :: ushort
  info_b :: "nat \<Rightarrow> nat option"
  info_status :: "nat \<Rightarrow> uchar"
  vops :: "nat \<Rightarrow> virtio_blk_req"
  mmio :: "(nat \<times> uint) list"

record vdstate = flstate +
  vd :: vdisk_t

definition upd_vd :: "(vdisk_t \<Rightarrow> vdisk_t) \<Rightarrow> 'z vdstate_scheme \<Rightarrow> 'z vdstate_scheme" where
  "upd_vd f s = s\<lparr>vd := f (vd s)\<rparr>"

definition upd_desc :: "nat \<Rightarrow> (virtq_desc \<Rightarrow> virtq_desc) \<Rightarrow> vdisk_t \<Rightarrow> vdisk_t" where
  "upd_desc i f d = d\<lparr>vdesc := (vdesc d)(i := f (vdesc d i))\<rparr>"

text \<open>A write to a device register; the list holds the latest first.\<close>

definition mmio_write :: "nat \<Rightarrow> uint \<Rightarrow> 'z vdstate_scheme \<Rightarrow> 'z vdstate_scheme" where
  "mmio_write r v = upd_vd (\<lambda>d. d\<lparr>mmio := (r, v) # mmio d\<rparr>)"

section \<open>Initialisation\<close>

definition driver_features :: "uint64 \<Rightarrow> uint64" where
  "driver_features f = fold (\<lambda>b f. f AND NOT (push_bit b 1)) [5, 7, 11, 12, 27, 29, 28] f"

text \<open>The part after the allocation of the three pages.\<close>

definition virtio_disk_ready :: "uint64 \<Rightarrow> uint64 \<Rightarrow> uint64 \<Rightarrow> uint \<Rightarrow> 'z vdstate_scheme \<Rightarrow> 'z vdstate_scheme" where
  "virtio_disk_ready dp ap up status s =
     (let s = upd_vd (\<lambda>d. d\<lparr>vdesc := (\<lambda>_. null_desc), avail_ring := (\<lambda>_. 0), avail_idx := 0, used_ring := (\<lambda>_. 0),
                           used_dev_idx := 0\<rparr>) s;
          s = mmio_write 0x038 (of_nat NUM) s;
          s = mmio_write 0x080 (ucast dp) s; s = mmio_write 0x084 (ucast (drop_bit 32 dp)) s;
          s = mmio_write 0x090 (ucast ap) s; s = mmio_write 0x094 (ucast (drop_bit 32 ap)) s;
          s = mmio_write 0x0a0 (ucast up) s; s = mmio_write 0x0a4 (ucast (drop_bit 32 up)) s;
          s = mmio_write 0x044 1 s;
          s = upd_vd (\<lambda>d. d\<lparr>vfree := (\<lambda>i. if i < NUM then True else vfree d i)\<rparr>) s
      in mmio_write 0x070 (status OR 4) s)"

definition virtio_disk_init :: "(nat \<Rightarrow> uint) \<Rightarrow> 'z vdstate_scheme \<Rightarrow> (unit, 'z vdstate_scheme) res" where
  "virtio_disk_init R s =
     (if R 0x000 \<noteq> 0x74726976 \<or> R 0x004 \<noteq> 2 \<or> R 0x008 \<noteq> 2 \<or> R 0x00c \<noteq> 0x554d4551 then Panic ''could not find virtio disk''
      else
        let s = mmio_write 0x070 0 s;
            s = mmio_write 0x070 1 s;
            s = mmio_write 0x070 (1 OR 2) s;
            s = mmio_write 0x020 (ucast (driver_features (ucast (R 0x010)))) s;
            s = mmio_write 0x070 (1 OR 2 OR 8) s;
            status = R 0x070
        in if status AND 8 = 0 then Panic ''virtio disk FEATURES_OK unset''
        else
          let s = mmio_write 0x030 0 s in
          if R 0x044 \<noteq> 0 then Panic ''virtio disk should not be ready''
          else if R 0x034 = 0 then Panic ''virtio disk has no queue 0''
          else if R 0x034 < of_nat NUM then Panic ''virtio disk max queue too short''
          else
            res_bind (kalloc s) (\<lambda>dp s.
            res_bind (kalloc s) (\<lambda>ap s.
            res_bind (kalloc s) (\<lambda>up s.
              let s = upd_vd (\<lambda>d. d\<lparr>desc_page := dp, avail_page := ap, used_page := up\<rparr>) s in
              if dp = 0 \<or> ap = 0 \<or> up = 0 then Panic ''virtio disk kalloc''
              else Ret () (virtio_disk_ready dp ap up status s)))))"

section \<open>Descriptors\<close>

definition alloc_desc :: "'z vdstate_scheme \<Rightarrow> (nat option, 'z vdstate_scheme) res" where
  "alloc_desc s =
     (case List.find (vfree (vd s)) [0..<NUM] of
        Some i \<Rightarrow> Ret (Some i) (upd_vd (\<lambda>d. d\<lparr>vfree := (vfree d)(i := False)\<rparr>) s)
      | None \<Rightarrow> Ret None s)"

definition free_desc :: "nat \<Rightarrow> 'z vdstate_scheme \<Rightarrow> (unit, 'z vdstate_scheme) res" where
  "free_desc i s =
     (if NUM \<le> i then Panic ''free_desc 1''
      else if vfree (vd s) i then Panic ''free_desc 2''
      else wakeup (Some ChanDiskFree) (upd_vd (\<lambda>d. (upd_desc i (\<lambda>_. null_desc) d)\<lparr>vfree := (vfree d)(i := True)\<rparr>) s))"

text \<open>Every round of \<^verbatim>\<open>free_chain\<close> frees a used descriptor or panics, so \<^verbatim>\<open>NUM\<close>\<open> + 1\<close> rounds are enough.\<close>

fun free_chain_loop :: "nat \<Rightarrow> nat \<Rightarrow> 'z vdstate_scheme \<Rightarrow> (unit, 'z vdstate_scheme) res" where
  "free_chain_loop 0 i s = Hang"
| "free_chain_loop (Suc k) i s =
     (let flag = vq_flags (vdesc (vd s) i); nxt = unat (vq_next (vdesc (vd s) i))
      in res_bind (free_desc i s) (\<lambda>_ s.
           if flag AND VRING_DESC_F_NEXT \<noteq> 0 then free_chain_loop k nxt s else Ret () s))"

definition free_chain :: "nat \<Rightarrow> 'z vdstate_scheme \<Rightarrow> (unit, 'z vdstate_scheme) res" where
  "free_chain i s = free_chain_loop (NUM + 1) i s"

text \<open>The loop of \<^verbatim>\<open>alloc3_desc\<close> with \<open>n\<close> descriptors to go and \<open>ids\<close> allocated.\<close>

fun alloc3_loop :: "nat \<Rightarrow> nat list \<Rightarrow> 'z vdstate_scheme \<Rightarrow> (nat list option, 'z vdstate_scheme) res" where
  "alloc3_loop 0 ids s = Ret (Some ids) s"
| "alloc3_loop (Suc n) ids s =
     res_bind (alloc_desc s) (\<lambda>r s.
       case r of
         Some i \<Rightarrow> alloc3_loop n (ids @ [i]) s
       | None \<Rightarrow>
           res_bind (for_loop (\<lambda>j s. res_bind (free_desc j s) (\<lambda>_ s. Ret (None :: unit option) s)) ids s) (\<lambda>_ s. Ret None s))"

definition alloc3_desc :: "'z vdstate_scheme \<Rightarrow> (nat list option, 'z vdstate_scheme) res" where
  "alloc3_desc s = alloc3_loop 3 [] s"

section \<open>Requests\<close>

text \<open>Formatting the three descriptors and telling the device.\<close>

definition virtio_request :: "nat \<Rightarrow> bool \<Rightarrow> nat \<Rightarrow> nat \<Rightarrow> nat \<Rightarrow> 'z vdstate_scheme \<Rightarrow> 'z vdstate_scheme" where
  "virtio_request b write i0 i1 i2 s =
     (let sector = ucast (b_blockno (bufs s b) * of_nat (BSIZE div 512)) :: uint64;
          s = upd_vd (\<lambda>d. d\<lparr>vops := (vops d)(i0 :=
                \<lparr>rq_type = (if write then VIRTIO_BLK_T_OUT else VIRTIO_BLK_T_IN), rq_reserved = 0, rq_sector = sector\<rparr>)\<rparr>) s;
          s = upd_vd (upd_desc i0 (\<lambda>_. \<lparr>vq_addr = OpAddr i0, vq_len = 16, vq_flags = VRING_DESC_F_NEXT, vq_next = of_nat i1\<rparr>)) s;
          s = upd_vd (upd_desc i1 (\<lambda>_. \<lparr>vq_addr = DataAddr b, vq_len = of_nat BSIZE,
                vq_flags = (if write then 0 else VRING_DESC_F_WRITE) OR VRING_DESC_F_NEXT, vq_next = of_nat i2\<rparr>)) s;
          s = upd_vd (\<lambda>d. d\<lparr>info_status := (info_status d)(i0 := 0xff)\<rparr>) s;
          s = upd_vd (upd_desc i2 (\<lambda>_. \<lparr>vq_addr = StatusAddr i0, vq_len = 1, vq_flags = VRING_DESC_F_WRITE, vq_next = 0\<rparr>)) s;
          s = upd_buf b (\<lambda>q. q\<lparr>b_disk := True\<rparr>) s;
          s = upd_vd (\<lambda>d. d\<lparr>info_b := (info_b d)(i0 := Some b)\<rparr>) s;
          s = upd_vd (\<lambda>d. d\<lparr>avail_ring := (avail_ring d)(unat (avail_idx d) mod NUM := of_nat i0)\<rparr>) s;
          s = upd_vd (\<lambda>d. d\<lparr>avail_idx := avail_idx d + 1\<rparr>) s
      in mmio_write 0x050 0 s)"

text \<open>The wait for the completion of the request with head \<open>i0\<close>.\<close>

definition virtio_wait :: "nat \<Rightarrow> nat \<Rightarrow> 'z vdstate_scheme \<Rightarrow> (unit, 'z vdstate_scheme) res" where
  "virtio_wait b i0 s =
     (if b_disk (bufs s b) then sleep (Some (ChanBuf b)) VdiskLock s
      else
        res_bind (free_chain i0 (upd_vd (\<lambda>d. d\<lparr>info_b := (info_b d)(i0 := None)\<rparr>) s)) (\<lambda>_ s.
          lock_release VdiskLock s))"

definition virtio_wait_resume :: "nat \<Rightarrow> nat \<Rightarrow> nat \<Rightarrow> 'z vdstate_scheme \<Rightarrow> (unit, 'z vdstate_scheme) res" where
  "virtio_wait_resume p b i0 s = res_bind (sleep_resume p VdiskLock s) (\<lambda>_ s. virtio_wait b i0 s)"

definition virtio_disk_rw_loop :: "nat \<Rightarrow> bool \<Rightarrow> 'z vdstate_scheme \<Rightarrow> (unit, 'z vdstate_scheme) res" where
  "virtio_disk_rw_loop b write s =
     res_bind (alloc3_desc s) (\<lambda>r s.
       case r of
         Some [i0, i1, i2] \<Rightarrow> virtio_wait b i0 (virtio_request b write i0 i1 i2 s)
       | _ \<Rightarrow> sleep (Some ChanDiskFree) VdiskLock s)"

definition virtio_disk_rw :: "nat \<Rightarrow> bool \<Rightarrow> 'z vdstate_scheme \<Rightarrow> (unit, 'z vdstate_scheme) res" where
  "virtio_disk_rw b write s = res_bind (lock_acquire VdiskLock s) (\<lambda>_ s. virtio_disk_rw_loop b write s)"

definition virtio_disk_rw_resume :: "nat \<Rightarrow> nat \<Rightarrow> bool \<Rightarrow> 'z vdstate_scheme \<Rightarrow> (unit, 'z vdstate_scheme) res" where
  "virtio_disk_rw_resume p b write s =
     res_bind (sleep_resume p VdiskLock s) (\<lambda>_ s. virtio_disk_rw_loop b write s)"

section \<open>Completion\<close>

text \<open>The loop of \<^verbatim>\<open>virtio_disk_intr\<close> runs once per entry between the two indices.\<close>

fun virtio_intr_loop :: "nat \<Rightarrow> 'z vdstate_scheme \<Rightarrow> (unit, 'z vdstate_scheme) res" where
  "virtio_intr_loop 0 s = Ret () s"
| "virtio_intr_loop (Suc k) s =
     (let i = unat (used_ring (vd s) (unat (used_idx (vd s)) mod NUM)) in
      if NUM \<le> i then Fault
      else if info_status (vd s) i \<noteq> 0 then Panic ''virtio_disk_intr status''
      else case info_b (vd s) i of None \<Rightarrow> Fault
      | Some b \<Rightarrow>
          res_bind (wakeup (Some (ChanBuf b)) (upd_buf b (\<lambda>q. q\<lparr>b_disk := False\<rparr>) s)) (\<lambda>_ s.
            virtio_intr_loop k (upd_vd (\<lambda>d. d\<lparr>used_idx := used_idx d + 1\<rparr>) s)))"

definition virtio_disk_intr :: "(nat \<Rightarrow> uint) \<Rightarrow> 'z vdstate_scheme \<Rightarrow> (unit, 'z vdstate_scheme) res" where
  "virtio_disk_intr R s =
     res_bind (lock_acquire VdiskLock s) (\<lambda>_ s.
     res_bind (virtio_intr_loop (unat (used_dev_idx (vd s) - used_idx (vd s))) (mmio_write 0x064 (R 0x060 AND 3) s)) (\<lambda>_ s.
       lock_release VdiskLock s))"

text \<open>The driver's memory before the device is set up, with every descriptor free.\<close>

definition blank_vdisk :: vdisk_t where
  "blank_vdisk = \<lparr>desc_page = 0, avail_page = 0, used_page = 0, vdesc = (\<lambda>_. null_desc), avail_ring = (\<lambda>_. 0), avail_idx = 0,
     used_ring = (\<lambda>_. 0), used_dev_idx = 0, vfree = (\<lambda>i. i < NUM), used_idx = 0, info_b = (\<lambda>_. None), info_status = (\<lambda>_. 0),
     vops = (\<lambda>_. \<lparr>rq_type = 0, rq_reserved = 0, rq_sector = 0\<rparr>), mmio = []\<rparr>"

end
