(* ===== verification/Trap.thy ===== *)
theory Trap
  imports Sysfile Virtio
begin

text \<open>
  The dispatch of system calls (\<^verbatim>\<open>kernel/syscall.c\<close>), the interrupt controller (\<^verbatim>\<open>kernel/plic.c\<close>), and
  traps, interrupts and the return to user space (\<^verbatim>\<open>kernel/trap.c\<close>, \<^verbatim>\<open>forkret\<close> of \<^verbatim>\<open>kernel/proc.c\<close>).
\<close>

section \<open>State\<close>

text \<open>
  The supervisor registers of the hart; the bit \<^verbatim>\<open>SSTATUS_SIE\<close> is \<open>ien\<close> of the machine state.
  \<open>plic_claims\<close> lists the interrupts the controller will hand out, and \<open>first_ret\<close> is the static
  variable \<^verbatim>\<open>first\<close> of \<^verbatim>\<open>forkret\<close>.
\<close>

record trstate = vdstate +
  c_sstatus :: uint64
  c_sepc :: uint64
  c_scause :: uint64
  c_stval :: uint64
  c_stvec :: uint64
  c_sip :: uint64
  c_satp :: uint64
  plic_claims :: "uint list"
  plic_writes :: "(uint64 \<times> uint) list"
  first_ret :: bool

definition SSTATUS_SPP :: uint64 where "SSTATUS_SPP = push_bit 8 1"
definition SSTATUS_SPIE :: uint64 where "SSTATUS_SPIE = push_bit 5 1"

definition MAKE_SATP :: "uint64 \<Rightarrow> uint64" where
  "MAKE_SATP pt = push_bit 60 8 OR drop_bit 12 pt"

section \<open>System calls\<close>

text \<open>
  The table \<^verbatim>\<open>syscalls\<close>: \<open>None\<close> for a number without an entry. \<open>junk\<close> is the uninitialised stack memory
  that \<^verbatim>\<open>sys_exit\<close> and \<^verbatim>\<open>sys_fstat\<close> may pass on.
\<close>

definition syscalls :: "vm_ops \<Rightarrow> ksyms \<Rightarrow> uchar list \<Rightarrow> cint \<Rightarrow> ('z flstate_scheme \<Rightarrow> (uint64, 'z flstate_scheme) res) option" where
  "syscalls vm ks junk num =
     (if num = 1 then Some (sys_fork vm ks)
      else if num = 2 then Some (sys_exit vm junk)
      else if num = 3 then Some (sys_wait vm)
      else if num = 4 then Some (sys_pipe vm)
      else if num = 5 then Some (sys_read vm)
      else if num = 6 then Some sys_kill
      else if num = 7 then Some (sys_exec vm ks)
      else if num = 8 then Some (sys_fstat vm (take 4 junk))
      else if num = 9 then Some (sys_chdir vm)
      else if num = 10 then Some sys_dup
      else if num = 11 then Some sys_getpid
      else if num = 12 then Some (sys_sbrk vm)
      else if num = 13 then Some sys_sleep
      else if num = 14 then Some sys_uptime
      else if num = 15 then Some (sys_open vm)
      else if num = 16 then Some (sys_write vm)
      else if num = 17 then Some (sys_mknod vm)
      else if num = 18 then Some (sys_unlink vm)
      else if num = 19 then Some (sys_link vm)
      else if num = 20 then Some (sys_mkdir vm)
      else if num = 21 then Some sys_close
      else if num = 22 then Some sys_memsize
      else if num = 23 then Some sys_set_ps_priority
      else if num = 24 then Some sys_set_cfs_priority
      else if num = 25 then Some (sys_get_cfs_stats vm)
      else if num = 26 then Some sys_set_policy
      else None)"

definition syscall :: "vm_ops \<Rightarrow> ksyms \<Rightarrow> uchar list \<Rightarrow> 'z flstate_scheme \<Rightarrow> (unit, 'z flstate_scheme) res" where
  "syscall vm ks junk = with_proc (\<lambda>p s.
     let num = ucast (tf_get p (tf_a 7) s) in
     case syscalls vm ks junk num of
       Some f \<Rightarrow> res_bind (f s) (\<lambda>r s. Ret () (tf_put p (tf_a 0) r s))
     | None \<Rightarrow>
         res_bind (printf (Some (bytes ''%d %s: unknown sys call %d'' @ [10]))
           [IntArg (pid (procs s p)), StrArg (Some (cstr (pname (procs s p)))), IntArg num] s) (\<lambda>_ s.
         Ret () (tf_put p (tf_a 0) (-1) s)))"

section \<open>Interrupt controller\<close>

definition UART0_IRQ :: nat where "UART0_IRQ = 10"
definition VIRTIO0_IRQ :: nat where "VIRTIO0_IRQ = 1"
definition PLIC :: uint64 where "PLIC = 0x0c000000"

definition PLIC_SENABLE :: "nat \<Rightarrow> uint64" where "PLIC_SENABLE hart = PLIC + 0x2080 + of_nat hart * 0x100"
definition PLIC_SPRIORITY :: "nat \<Rightarrow> uint64" where "PLIC_SPRIORITY hart = PLIC + 0x201000 + of_nat hart * 0x2000"
definition PLIC_SCLAIM :: "nat \<Rightarrow> uint64" where "PLIC_SCLAIM hart = PLIC + 0x201004 + of_nat hart * 0x2000"

definition plic_write :: "uint64 \<Rightarrow> uint \<Rightarrow> 'z trstate_scheme \<Rightarrow> 'z trstate_scheme" where
  "plic_write a v s = s\<lparr>plic_writes := (a, v) # plic_writes s\<rparr>"

definition plicinit :: "'z trstate_scheme \<Rightarrow> 'z trstate_scheme" where
  "plicinit s = plic_write (PLIC + of_nat VIRTIO0_IRQ * 4) 1 (plic_write (PLIC + of_nat UART0_IRQ * 4) 1 s)"

definition plicinithart :: "'z trstate_scheme \<Rightarrow> 'z trstate_scheme" where
  "plicinithart s =
     plic_write (PLIC_SPRIORITY (cpuid s)) 0
       (plic_write (PLIC_SENABLE (cpuid s)) (push_bit UART0_IRQ 1 OR push_bit VIRTIO0_IRQ 1) s)"

text \<open>Reading the claim register gives 0 when no interrupt is pending.\<close>

definition plic_claim :: "'z trstate_scheme \<Rightarrow> uint \<times> 'z trstate_scheme" where
  "plic_claim s = (case plic_claims s of [] \<Rightarrow> (0, s) | irq # irqs \<Rightarrow> (irq, s\<lparr>plic_claims := irqs\<rparr>))"

definition plic_complete :: "uint \<Rightarrow> 'z trstate_scheme \<Rightarrow> 'z trstate_scheme" where
  "plic_complete irq s = plic_write (PLIC_SCLAIM (cpuid s)) irq s"

section \<open>Interrupts\<close>

definition clockintr :: "'z pcb_scheme \<Rightarrow> (unit, 'z pcb_scheme) res" where
  "clockintr s =
     res_bind (lock_acquire TicksLock s) (\<lambda>_ s.
     res_bind (wakeup (Some ChanTicks) (s\<lparr>ticks := ticks s + 1\<rparr>)) (\<lambda>_ s. lock_release TicksLock s))"

definition devintr :: "(nat \<Rightarrow> uint) \<Rightarrow> 'z trstate_scheme \<Rightarrow> (cint, 'z trstate_scheme) res" where
  "devintr R s =
     (let scause = c_scause s in
      if scause AND 0x8000000000000000 \<noteq> 0 \<and> scause AND 0xff = 9 then
        let (irq, s) = plic_claim s in
        res_bind
          (if irq = of_nat UART0_IRQ then uartintr s
           else if irq = of_nat VIRTIO0_IRQ then virtio_disk_intr R s
           else if irq \<noteq> 0 then printf (Some (bytes ''unexpected interrupt irq=%d'' @ [10])) [IntArg irq] s
           else Ret () s) (\<lambda>_ s.
        Ret 1 (if irq \<noteq> 0 then plic_complete irq s else s))
      else if scause = 0x8000000000000001 then
        res_bind (if cpuid s = 0 then clockintr s else Ret () s) (\<lambda>_ s.
        Ret 2 (s\<lparr>c_sip := c_sip s AND NOT 2\<rparr>))
      else Ret 0 s)"

section \<open>Traps\<close>

definition trapinithart :: "ksyms \<Rightarrow> 'z trstate_scheme \<Rightarrow> 'z trstate_scheme" where
  "trapinithart ks s = s\<lparr>c_stvec := sym_kernelvec ks\<rparr>"

text \<open>The value is the argument of the jump to \<^verbatim>\<open>userret\<close> in the trampoline.\<close>

definition usertrapret :: "ksyms \<Rightarrow> 'z trstate_scheme \<Rightarrow> (uint64, 'z trstate_scheme) res" where
  "usertrapret ks = with_proc (\<lambda>p s.
     let s = s\<lparr>ien := False\<rparr>;
         s = s\<lparr>c_stvec := TRAMPOLINE + (sym_uservec ks - sym_trampoline ks)\<rparr>;
         s = tf_put p tf_satp (c_satp s) s;
         s = tf_put p tf_ksp (kstack (procs s p) + PGSIZE) s;
         s = tf_put p tf_ktrap (sym_usertrap ks) s;
         s = tf_put p tf_hartid (of_nat (tp s)) s;
         s = s\<lparr>c_sstatus := c_sstatus s AND NOT SSTATUS_SPP OR SSTATUS_SPIE\<rparr>;
         s = s\<lparr>c_sepc := tf_get p tf_epc s\<rparr>
     in Ret (MAKE_SATP (pagetable (procs s p))) s)"

definition accumulate :: "nat \<Rightarrow> 'z pcb_scheme \<Rightarrow> 'z pcb_scheme" where
  "accumulate p s = upd_proc p (\<lambda>q. q\<lparr>accumulator := accumulator q + sint (ps_priority q)\<rparr>) s"

text \<open>
  The end of \<^verbatim>\<open>usertrap\<close>, from the second test of \<^verbatim>\<open>killed\<close> on. When the process runs again after
  \<^verbatim>\<open>yield\<close>, it continues in \<open>usertrap_resume\<close>; when a system call slept, it continues in
  \<open>syscall_return\<close> with the value of the call.
\<close>

definition usertrap_tail :: "ksyms \<Rightarrow> nat \<Rightarrow> cint \<Rightarrow> 'z trstate_scheme \<Rightarrow> (uint64, 'z trstate_scheme) res" where
  "usertrap_tail ks p which_dev s =
     res_bind (killed p s) (\<lambda>k s.
       if k \<noteq> 0 then exit minus_one [0] s
       else if which_dev = 2 then
         res_bind (update_ticks s) (\<lambda>_ s.
         res_bind (lock_acquire (ProcLock p) s) (\<lambda>_ s.
         res_bind (lock_release (ProcLock p) (accumulate p s)) (\<lambda>_ s.
         res_bind (yield s) (\<lambda>_ s. usertrapret ks s))))
       else usertrapret ks s)"

definition usertrap_resume :: "ksyms \<Rightarrow> nat \<Rightarrow> 'z trstate_scheme \<Rightarrow> (uint64, 'z trstate_scheme) res" where
  "usertrap_resume ks p s = res_bind (yield_resume p s) (\<lambda>_ s. usertrapret ks s)"

definition syscall_return :: "ksyms \<Rightarrow> nat \<Rightarrow> uint64 \<Rightarrow> 'z trstate_scheme \<Rightarrow> (uint64, 'z trstate_scheme) res" where
  "syscall_return ks p v s = usertrap_tail ks p 0 (tf_put p (tf_a 0) v s)"

definition usertrap :: "vm_ops \<Rightarrow> ksyms \<Rightarrow> uchar list \<Rightarrow> (nat \<Rightarrow> uint) \<Rightarrow> 'z trstate_scheme \<Rightarrow> (uint64, 'z trstate_scheme) res" where
  "usertrap vm ks junk R s =
     (if c_sstatus s AND SSTATUS_SPP \<noteq> 0 then Panic ''usertrap: not from user mode''
      else
        let s = s\<lparr>c_stvec := sym_kernelvec ks\<rparr> in
        with_proc (\<lambda>p s.
          let s = tf_put p tf_epc (c_sepc s) s in
          if c_scause s = 8 then
            res_bind (killed p s) (\<lambda>k s.
              if k \<noteq> 0 then exit minus_one [0] s
              else
                let s = tf_put p tf_epc (tf_get p tf_epc s + 4) s; s = s\<lparr>ien := True\<rparr>
                in res_bind (syscall vm ks junk s) (\<lambda>_ s. usertrap_tail ks p 0 s))
          else
            res_bind (devintr R s) (\<lambda>which_dev s.
              if which_dev \<noteq> 0 then usertrap_tail ks p which_dev s
              else
                res_bind (printf (Some (bytes ''usertrap(): unexpected scause %p pid=%d'' @ [10]))
                  [PtrArg (c_scause s), IntArg (pid (procs s p))] s) (\<lambda>_ s.
                res_bind (printf (Some (bytes ''            sepc=%p stval=%p'' @ [10]))
                  [PtrArg (c_sepc s), PtrArg (c_stval s)] s) (\<lambda>_ s.
                res_bind (setkilled p s) (\<lambda>_ s. usertrap_tail ks p 0 s))))) s)"

text \<open>
  The end of \<^verbatim>\<open>kerneltrap\<close>: the registers read at the entry are restored. Interrupts were off there.
\<close>

definition kerneltrap_end :: "uint64 \<Rightarrow> uint64 \<Rightarrow> 'z trstate_scheme \<Rightarrow> (unit, 'z trstate_scheme) res" where
  "kerneltrap_end sepc sstatus s =
     Ret () (s\<lparr>c_sepc := sepc, c_sstatus := sstatus, ien := (held s \<noteq> [] \<and> ien s)\<rparr>)"

definition kerneltrap :: "(nat \<Rightarrow> uint) \<Rightarrow> 'z trstate_scheme \<Rightarrow> (unit, 'z trstate_scheme) res" where
  "kerneltrap R s =
     (let sepc = c_sepc s; sstatus = c_sstatus s; scause = c_scause s in
      if sstatus AND SSTATUS_SPP = 0 then Panic ''kerneltrap: not from supervisor mode''
      else if intr_enabled s then Panic ''kerneltrap: interrupts enabled''
      else
        res_bind (devintr R s) (\<lambda>which_dev s.
          if which_dev = 0 then
            res_bind (printf (Some (bytes ''scause %p'' @ [10])) [PtrArg scause] s) (\<lambda>_ s.
            res_bind (printf (Some (bytes ''sepc=%p stval=%p'' @ [10])) [PtrArg (c_sepc s), PtrArg (c_stval s)] s) (\<lambda>_ s.
            Panic ''kerneltrap''))
          else
            res_bind (if which_dev = 2 then update_ticks s else Ret () s) (\<lambda>_ s.
              case myproc s of
                Some p \<Rightarrow>
                  if which_dev = 2 \<and> pstate (procs s p) = RUNNING
                  then res_bind (yield (accumulate p s)) (\<lambda>_ s. kerneltrap_end sepc sstatus s)
                  else kerneltrap_end sepc sstatus s
              | None \<Rightarrow> kerneltrap_end sepc sstatus s)))"

definition kerneltrap_resume :: "nat \<Rightarrow> uint64 \<Rightarrow> uint64 \<Rightarrow> 'z trstate_scheme \<Rightarrow> (unit, 'z trstate_scheme) res" where
  "kerneltrap_resume p sepc sstatus s = res_bind (yield_resume p s) (\<lambda>_ s. kerneltrap_end sepc sstatus s)"

definition forkret :: "ksyms \<Rightarrow> 'z trstate_scheme \<Rightarrow> (uint64, 'z trstate_scheme) res" where
  "forkret ks = with_proc (\<lambda>p s.
     res_bind (lock_release (ProcLock p) s) (\<lambda>_ s.
       if first_ret s then res_bind (fsinit ROOTDEV (s\<lparr>first_ret := False\<rparr>)) (\<lambda>_ s. usertrapret ks s)
       else usertrapret ks s))"

end
