(* ===== verification/Sched_Frame.thy ===== *)
theory Sched_Frame
  imports Trap
begin

text \<open>
  What the whole kernel does to the states of processes and to the CPUs: every routine a process can
  enter, from \<^verbatim>\<open>usertrap\<close> through all system calls down to the drivers, either returns with the same
  processes RUNNING on the same CPUs and the same locks held, or gives up the CPU in \<^verbatim>\<open>sched()\<close>, and then
  it holds the lock of its own process only, which alone is no longer RUNNING.
\<close>

section \<open>Outcomes\<close>

text \<open>The hart, what each CPU runs, and which processes are RUNNING.\<close>

type_synonym sched_core = "nat \<times> (nat \<Rightarrow> nat option) \<times> nat set"

definition core :: "'z pcb_scheme \<Rightarrow> sched_core" where
  "core s = (tp s, cpu_proc s, {i. i < NPROC \<and> pstate (procs s i) = RUNNING})"

definition gave_up :: "sched_core \<Rightarrow> 'z pcb_scheme \<Rightarrow> bool" where
  "gave_up c t \<longleftrightarrow> (\<exists>p. fst (snd c) (fst c) = Some p \<and> held t = [ProcLock p] \<and>
     core t = (fst c, fst (snd c), snd (snd c) - {p}))"

definition leaves :: "sched_core \<Rightarrow> ('a, 'z pcb_scheme) res \<Rightarrow> ('a \<Rightarrow> 'z pcb_scheme \<Rightarrow> bool) \<Rightarrow> bool" where
  "leaves c m Q \<longleftrightarrow> (case m of Ret a t \<Rightarrow> Q a t | Swtch t \<Rightarrow> gave_up c t | _ \<Rightarrow> True)"

text \<open>\<open>kp c h m\<close>: a routine that returns with the processes and CPUs as in \<open>c\<close> and the locks \<open>h\<close> held.\<close>

definition kp :: "sched_core \<Rightarrow> lock_id list \<Rightarrow> ('a, 'z pcb_scheme) res \<Rightarrow> bool" where
  "kp c h m \<longleftrightarrow> leaves c m (\<lambda>_ t. core t = c \<and> held t = h)"

lemma leaves_simps [simp]:
  "leaves c (Ret a t) Q = Q a t" "leaves c (Swtch t) Q = gave_up c t" "leaves c (Panic e) Q" "leaves c Hang Q" "leaves c Fault Q"
  by (simp_all add: leaves_def)

lemma kp_simps [simp]:
  "kp c h (Ret a t) \<longleftrightarrow> core t = c \<and> held t = h" "kp c h (Swtch t) = gave_up c t"
  "kp c h (Panic e)" "kp c h Hang" "kp c h Fault"
  by (simp_all add: kp_def)

lemma leaves_bind: "leaves c m Q' \<Longrightarrow> (\<And>a t. Q' a t \<Longrightarrow> leaves c (f a t) Q) \<Longrightarrow> leaves c (res_bind m f) Q"
  by (cases m) auto

lemma leaves_mono: "leaves c m Q' \<Longrightarrow> (\<And>a t. Q' a t \<Longrightarrow> Q a t) \<Longrightarrow> leaves c m Q"
  by (cases m) auto

lemma kp_ends: "kp c h' m \<Longrightarrow> (\<And>a t. core t = c \<Longrightarrow> held t = h' \<Longrightarrow> leaves c (f a t) Q) \<Longrightarrow> leaves c (res_bind m f) Q"
  by (cases m) auto

section \<open>Rules for the result type\<close>

named_theorems kp_rules

lemma kp_bind [kp_rules]:
  "kp c h' m \<Longrightarrow> (\<And>a t. core t = c \<Longrightarrow> held t = h' \<Longrightarrow> kp c h (f a t)) \<Longrightarrow> kp c h (res_bind m f)"
  by (cases m) auto

lemma kp_option [kp_rules]:
  "(x = None \<Longrightarrow> kp c h a) \<Longrightarrow> (\<And>y. x = Some y \<Longrightarrow> kp c h (b y)) \<Longrightarrow> kp c h (case x of None \<Rightarrow> a | Some y \<Rightarrow> b y)"
  by (cases x) auto

lemma kp_prod [kp_rules]:
  "(\<And>a b. x = (a, b) \<Longrightarrow> kp c h (f a b)) \<Longrightarrow> kp c h (case x of (a, b) \<Rightarrow> f a b)"
  "(\<And>a b. x = (a, b) \<Longrightarrow> kp c h (g a b t)) \<Longrightarrow> kp c h ((case x of (a, b) \<Rightarrow> g a b) t)"
  by (cases x; auto)+

lemma kp_let [kp_rules]: "(\<And>x. x = e \<Longrightarrow> kp c h (f x)) \<Longrightarrow> kp c h (Let e f)"
  by simp

text \<open>The process that runs.\<close>

definition running_proc :: "sched_core \<Rightarrow> nat option" where
  "running_proc c = fst (snd c) (fst c)"

lemma running_proc: "core s = c \<Longrightarrow> myproc s = running_proc c"
  by (auto simp: running_proc_def core_def myproc_def cpuid_def)

lemma kp_with_proc [kp_rules]:
  "core s = c \<Longrightarrow> (\<And>p. running_proc c = Some p \<Longrightarrow> kp c h (f p s)) \<Longrightarrow> kp c h (with_proc f s)"
  using running_proc [of s c] by (simp add: with_proc_def split: option.split)

lemma kp_lift_opt [kp_rules]: "core s = c \<Longrightarrow> held s = h \<Longrightarrow> kp c h (lift_opt x s)"
  by (cases x) simp_all

lemma kp_if [kp_rules]: "(b \<Longrightarrow> kp c h m) \<Longrightarrow> (\<not> b \<Longrightarrow> kp c h n) \<Longrightarrow> kp c h (if b then m else n)"
  by simp

lemma kp_leaf [kp_rules]:
  "core s = c \<Longrightarrow> held s = h \<Longrightarrow> kp c h (Ret a s)" "kp c h (Panic e)" "kp c h Hang" "kp c h Fault"
  by simp_all

lemma kp_for [kp_rules]:
  assumes "core s = c" "\<And>i t. core t = c \<Longrightarrow> held t = held s \<Longrightarrow> kp c (held s) (f i t)" "held s = h"
  shows "kp c h (for_loop f is s)"
proof -
  have "kp c (held s) (for_loop f is t)" if "core t = c" "held t = held s" for t
    using that
  proof (induction "is" arbitrary: t)
    case (Cons i "is")
    have "kp c (held s) (f i t)" using assms(2) Cons.prems by blast
    then show ?case using Cons.IH by (cases "f i t") (auto split: option.split)
  qed simp
  then show ?thesis using assms(1,3) by blast
qed

lemma kp_list [kp_rules]:
  "(x = [] \<Longrightarrow> kp c h a) \<Longrightarrow> (\<And>y ys. x = y # ys \<Longrightarrow> kp c h (b y ys)) \<Longrightarrow> kp c h (case x of [] \<Rightarrow> a | y # ys \<Rightarrow> b y ys)"
  by (cases x) auto

lemma kp_farg [kp_rules]:
  "(\<And>y. x = IntArg y \<Longrightarrow> kp c h (a y)) \<Longrightarrow> (\<And>y. x = PtrArg y \<Longrightarrow> kp c h (b y)) \<Longrightarrow> (\<And>y. x = StrArg y \<Longrightarrow> kp c h (d y)) \<Longrightarrow>
    kp c h (case x of IntArg y \<Rightarrow> a y | PtrArg y \<Rightarrow> b y | StrArg y \<Rightarrow> d y)"
  by (cases x) auto

lemma kp_dest [kp_rules]:
  "(\<And>y. x = UserDst y \<Longrightarrow> kp c h (a y)) \<Longrightarrow> (\<And>y. x = KmemDst y \<Longrightarrow> kp c h (b y)) \<Longrightarrow> (x = VarDst \<Longrightarrow> kp c h d) \<Longrightarrow>
    kp c h (case x of UserDst y \<Rightarrow> a y | KmemDst y \<Rightarrow> b y | VarDst \<Rightarrow> d)"
  by (cases x) auto

lemma kp_source [kp_rules]:
  "(\<And>y. x = UserSrc y \<Longrightarrow> kp c h (a y)) \<Longrightarrow> (\<And>y. x = KmemSrc y \<Longrightarrow> kp c h (b y)) \<Longrightarrow> (\<And>y. x = VarSrc y \<Longrightarrow> kp c h (d y)) \<Longrightarrow>
    kp c h (case x of UserSrc y \<Rightarrow> a y | KmemSrc y \<Rightarrow> b y | VarSrc y \<Rightarrow> d y)"
  by (cases x) auto

declare refl [kp_rules]

section \<open>Updates that do not matter\<close>

lemma core_simps [simp]:
  "core (s\<lparr>held := a\<rparr>) = core s" "core (s\<lparr>ien := b\<rparr>) = core s" "core (s\<lparr>phys := m\<rparr>) = core s"
  "core (s\<lparr>nextpid := np\<rparr>) = core s" "core (s\<lparr>policy := po\<rparr>) = core s" "core (s\<lparr>initproc := ip\<rparr>) = core s"
  "core (s\<lparr>ticks := ti\<rparr>) = core s"
  by (simp_all add: core_def)

lemma core_sleeplocks [simp]: "core (s\<lparr>sleeplocks := x\<rparr>) = core s" by (simp add: core_def)
lemma core_bufs [simp]: "core (s\<lparr>bufs := x\<rparr>) = core s" by (simp add: core_def)
lemma core_disk [simp]: "core (s\<lparr>disk := x\<rparr>) = core s" by (simp add: core_def)
lemma core_dhist [simp]: "core (s\<lparr>dhist := x\<rparr>) = core s" by (simp add: core_def)
lemma core_lg [simp]: "core (s\<lparr>lg := x\<rparr>) = core s" by (simp add: core_def)
lemma core_uart [simp]: "core (s\<lparr>uart := x\<rparr>) = core s" by (simp add: core_def)
lemma core_cons [simp]: "core (s\<lparr>cons := x\<rparr>) = core s" by (simp add: core_def)
lemma core_pipes [simp]: "core (s\<lparr>pipes := x\<rparr>) = core s" by (simp add: core_def)
lemma core_inodes [simp]: "core (s\<lparr>inodes := x\<rparr>) = core s" by (simp add: core_def)
lemma core_files [simp]: "core (s\<lparr>files := x\<rparr>) = core s" by (simp add: core_def)
lemma core_vd [simp]: "core (s\<lparr>vd := x\<rparr>) = core s" by (simp add: core_def)
lemma core_pr_locking [simp]: "core (s\<lparr>pr_locking := x\<rparr>) = core s" by (simp add: core_def)
lemma core_devsw [simp]: "core (s\<lparr>devsw := x\<rparr>) = core s" by (simp add: core_def)
lemma core_plic_claims [simp]: "core (s\<lparr>plic_claims := x\<rparr>) = core s" by (simp add: core_def)
lemma core_c_sstatus [simp]: "core (s\<lparr>c_sstatus := x\<rparr>) = core s" by (simp add: core_def)
lemma core_c_sepc [simp]: "core (s\<lparr>c_sepc := x\<rparr>) = core s" by (simp add: core_def)
lemma core_c_scause [simp]: "core (s\<lparr>c_scause := x\<rparr>) = core s" by (simp add: core_def)
lemma core_c_stval [simp]: "core (s\<lparr>c_stval := x\<rparr>) = core s" by (simp add: core_def)
lemma core_c_stvec [simp]: "core (s\<lparr>c_stvec := x\<rparr>) = core s" by (simp add: core_def)
lemma core_c_sip [simp]: "core (s\<lparr>c_sip := x\<rparr>) = core s" by (simp add: core_def)
lemma core_c_satp [simp]: "core (s\<lparr>c_satp := x\<rparr>) = core s" by (simp add: core_def)
lemma core_first_ret [simp]: "core (s\<lparr>first_ret := x\<rparr>) = core s" by (simp add: core_def)

lemma core_upd_proc [simp]:
  "(pstate (f (procs s p)) = RUNNING \<longleftrightarrow> pstate (procs s p) = RUNNING) \<Longrightarrow> core (upd_proc p f s) = core s"
  by (auto simp: core_def upd_proc_def)

lemma upd_core_upd_ino [simp]: "core (upd_ino i g s) = core s" "held (upd_ino i g s) = held s"
  by (simp_all add: core_def upd_ino_def)

lemma upd_core_upd_slock [simp]: "core (upd_slock l g s) = core s" "held (upd_slock l g s) = held s"
  by (simp_all add: core_def upd_slock_def)

lemma upd_core_upd_buf [simp]: "core (upd_buf b g s) = core s" "held (upd_buf b g s) = held s"
  by (simp_all add: core_def upd_buf_def)

lemma upd_core_upd_lg [simp]: "core (upd_lg g s) = core s" "held (upd_lg g s) = held s"
  by (simp_all add: core_def upd_lg_def)

lemma upd_core_upd_uart [simp]: "core (upd_uart g s) = core s" "held (upd_uart g s) = held s"
  by (simp_all add: core_def upd_uart_def)

lemma upd_core_upd_cons [simp]: "core (upd_cons g s) = core s" "held (upd_cons g s) = held s"
  by (simp_all add: core_def upd_cons_def)

lemma upd_core_upd_pipe [simp]: "core (upd_pipe i g s) = core s" "held (upd_pipe i g s) = held s"
  by (simp_all add: core_def upd_pipe_def)

lemma upd_core_set_data [simp]: "core (set_data b d s) = core s" "held (set_data b d s) = held s"
  by (simp_all add: core_def set_data_def upd_buf_def)

lemma upd_core_disk_rw [simp]: "core (disk_rw b w s) = core s" "held (disk_rw b w s) = held s"
  by (simp_all add: core_def disk_rw_def upd_buf_def set_data_def)

lemma upd_core_WriteReg [simp]: "core (WriteReg r x s) = core s" "held (WriteReg r x s) = held s"
  by (simp_all add: core_def WriteReg_def upd_uart_def)

lemma upd_core_tf_put [simp]: "core (tf_put p off y s) = core s" "held (tf_put p off y s) = held s"
  by (simp_all add: core_def tf_put_def)

lemma upd_core_tf_copy [simp]: "core (tf_copy p q s) = core s" "held (tf_copy p q s) = held s"
  by (simp_all add: core_def tf_copy_def)

lemma upd_core_sched_resume [simp]: "core (sched_resume p s) = core s" "held (sched_resume p s) = held s"
  by (simp_all add: core_def sched_resume_def)

lemma upd_core_upd_file [simp]: "core (upd_file f g s) = core s" "held (upd_file f g s) = held s"
  by (simp_all add: core_def upd_file_def)

lemma upd_core_upd_vd [simp]: "core (upd_vd g s) = core s" "held (upd_vd g s) = held s"
  by (simp_all add: core_def upd_vd_def)

lemma upd_core_mmio_write [simp]: "core (mmio_write a x s) = core s" "held (mmio_write a x s) = held s"
  by (simp_all add: core_def mmio_write_def upd_vd_def)

lemma upd_core_plic_write [simp]: "core (plic_write a x s) = core s" "held (plic_write a x s) = held s"
  by (simp_all add: core_def plic_write_def)

lemma core_if [simp]: "core (if b then s else t) = (if b then core s else core t)" "held (if b then s else t) = (if b then held s else held t)"
  by simp_all

section \<open>Locks, memory and giving up the CPU\<close>

lemma kp_lock [kp_rules]:
  "core s = c \<Longrightarrow> l # held s = h \<Longrightarrow> kp c h (lock_acquire l s)"
  "core s = c \<Longrightarrow> remove1 l (held s) = h \<Longrightarrow> kp c h (lock_release l s)"
  by (simp_all add: lock_acquire_def lock_release_def)

lemma kp_vm_run [kp_rules]: "core s = c \<Longrightarrow> held s = h \<Longrightarrow> kp c h (vm_run f s)"
  by (simp add: vm_run_def split: res.split)

lemma kp_kalloc [kp_rules]:
  "core s = c \<Longrightarrow> held s = h \<Longrightarrow> kp c h (kalloc s)"
  "core s = c \<Longrightarrow> held s = h \<Longrightarrow> kp c h (kfree pa s)"
  unfolding kalloc_def kfree_def by ((intro kp_rules; (rule refl)?), ((simp; fail)+)?)+

text \<open>
  The only places where the state of a process other than a free, sleeping or dead one changes:
  \<^verbatim>\<open>sched\<close> is entered with the state of the calling process changed.
\<close>

lemma sched_gives_up:
  assumes "core s = c" "myproc s = Some p" "pstate q \<noteq> RUNNING"
  shows "kp c h (sched (upd_proc p (\<lambda>_. q) s))"
proof -
  have c: "c = (tp s, cpu_proc s, {i. i < NPROC \<and> pstate (procs s i) = RUNNING})" using assms(1) by (simp add: core_def)
  have l: "held s = [ProcLock p]" if "ProcLock p \<in> set (held s)" "length (held s) = 1" using that by (cases "held s") auto
  have "gave_up c (upd_proc p (\<lambda>q. q\<lparr>kintena := b\<rparr>) (upd_proc p (\<lambda>_. q) s))" if "held s = [ProcLock p]" for b
    using assms(2,3) that unfolding gave_up_def c by (auto simp: core_def upd_proc_def myproc_def cpuid_def)
  then show ?thesis using assms(2) l by (simp add: sched_def lock_holding_def)
qed

lemma upd_proc_const: "upd_proc p f s = upd_proc p (\<lambda>_. f (procs s p)) s"
  by (simp add: upd_proc_def)

lemma kp_sched [kp_rules]:
  "core s = c \<Longrightarrow> running_proc c = Some p \<Longrightarrow> pstate (f (procs s p)) \<noteq> RUNNING \<Longrightarrow> kp c h (sched (upd_proc p f s))"
  by (subst upd_proc_const, rule sched_gives_up) (simp_all add: running_proc)

lemma kp_sleep [kp_rules]: "core s = c \<Longrightarrow> kp c h (sleep ch lk s)" "core s = c \<Longrightarrow> kp c h (yield s)"
  unfolding sleep_def yield_def by ((intro kp_rules; (rule refl)?), ((simp; fail)+)?)+

section \<open>Up to the system calls\<close>

lemma kp_proc [kp_rules]:
  "core s = c \<Longrightarrow> held s = h \<Longrightarrow> kp c h (wakeup ch s)"
  "core s = c \<Longrightarrow> held s = h \<Longrightarrow> kp c h (killed p s)"
  "core s = c \<Longrightarrow> held s = h \<Longrightarrow> kp c h (kill i s)"
  "core s = c \<Longrightarrow> held s = h \<Longrightarrow> kp c h (set_ps_priority pr s)"
  "core s = c \<Longrightarrow> held s = h \<Longrightarrow> kp c h (set_cfs_priority pr s)"
  "core s = c \<Longrightarrow> held s = h \<Longrightarrow> kp c h (set_policy pol s)"
  unfolding wakeup_def killed_def kill_def set_ps_priority_def set_cfs_priority_def set_policy_def
  by ((intro kp_rules; (rule refl)?), ((simp; fail)+)?)+

lemma kp_sleeplock [kp_rules]:
  "core s = c \<Longrightarrow> held s = h \<Longrightarrow> kp c h (acquiresleep l s)"
  "core s = c \<Longrightarrow> held s = h \<Longrightarrow> kp c h (releasesleep l s)"
  "core s = c \<Longrightarrow> held s = h \<Longrightarrow> kp c h (holdingsleep l s)"
  unfolding acquiresleep_def acquiresleep_loop_def releasesleep_def holdingsleep_def
  by ((intro kp_rules; (rule refl)?), ((simp; fail)+)?)+

lemma kp_bget_cached [kp_rules]: "core s = c \<Longrightarrow> held s = h \<Longrightarrow> kp c h (bget_cached n dev bn b s)"
  by (induction n arbitrary: b) (simp_all add: bget_cached.simps)

lemma kp_bget_recycle [kp_rules]: "core s = c \<Longrightarrow> held s = h \<Longrightarrow> kp c h (bget_recycle n dev bn b s)"
  by (induction n arbitrary: b) (simp_all add: bget_recycle.simps)

lemma kp_bget2 [kp_rules]:
  "core s = c \<Longrightarrow> held s = h \<Longrightarrow> kp c h (bget dev bn s)"
  unfolding bget_def
  by ((intro kp_rules; (rule refl)?), ((simp; fail)+)?)+

lemma core_relink [simp]: "core (brelse_relink b s) = core s" "held (brelse_relink b s) = held s"
  by (simp_all add: brelse_relink_def Let_def)

lemma kp_bio [kp_rules]:
  "core s = c \<Longrightarrow> held s = h \<Longrightarrow> kp c h (bread dev bn s)"
  "core s = c \<Longrightarrow> held s = h \<Longrightarrow> kp c h (bwrite b s)"
  "core s = c \<Longrightarrow> held s = h \<Longrightarrow> kp c h (brelse b s)"
  "core s = c \<Longrightarrow> held s = h \<Longrightarrow> kp c h (bpin b s)"
  "core s = c \<Longrightarrow> held s = h \<Longrightarrow> kp c h (bunpin b s)"
  unfolding bread_def bwrite_def brelse_def bpin_def bunpin_def
  by ((intro kp_rules; (rule refl)?), ((simp; fail)+)?)+

lemma kp_log [kp_rules]:
  "core s = c \<Longrightarrow> held s = h \<Longrightarrow> kp c h (install_trans r s)"
  "core s = c \<Longrightarrow> held s = h \<Longrightarrow> kp c h (write_head s)"
  "core s = c \<Longrightarrow> held s = h \<Longrightarrow> kp c h (write_log s)"
  "core s = c \<Longrightarrow> held s = h \<Longrightarrow> kp c h (log_write b s)"
  "core s = c \<Longrightarrow> held s = h \<Longrightarrow> kp c h (begin_op s)"
  unfolding install_trans_def write_head_def write_log_def log_write_def begin_op_def begin_op_loop_def
  by ((intro kp_rules; (rule refl)?), ((simp; fail)+)?)+

lemma kp_commit [kp_rules]:
  "core s = c \<Longrightarrow> held s = h \<Longrightarrow> kp c h (commit s)"
  unfolding commit_def
  by ((intro kp_rules; (rule refl)?), ((simp; fail)+)?)+

lemma kp_end_op [kp_rules]:
  "core s = c \<Longrightarrow> held s = h \<Longrightarrow> kp c h (end_op s)"
  unfolding end_op_def
  by ((intro kp_rules; (rule refl)?), ((simp; fail)+)?)+

lemma kp_uartstart_loop [kp_rules]: "core s = c \<Longrightarrow> held s = h \<Longrightarrow> kp c h (uartstart_loop vs s)"
  by (induction vs arbitrary: s) (unfold uartstart_loop.simps, ((intro kp_rules; (rule refl)?), ((simp; fail)+)?)+)

lemma kp_uartputc_poll [kp_rules]: "core s = c \<Longrightarrow> held s = h \<Longrightarrow> kp c h (uartputc_poll vs ch s)"
  by (induction vs arbitrary: s) (unfold uartputc_poll.simps, ((intro kp_rules; (rule refl)?), ((simp; fail)+)?)+)

lemma kp_uart [kp_rules]:
  "core s = c \<Longrightarrow> held s = h \<Longrightarrow> kp c h (uartstart s)"
  "core s = c \<Longrightarrow> held s = h \<Longrightarrow> kp c h (uartputc_sync ch s)"
  unfolding uartstart_def uartputc_sync_def
  by ((intro kp_rules; (rule refl)?), ((simp; fail)+)?)+

lemma kp_uartputc [kp_rules]:
  "core s = c \<Longrightarrow> held s = h \<Longrightarrow> kp c h (uartputc ch s)"
  unfolding uartputc_def uartputc_loop_def
  by ((intro kp_rules; (rule refl)?), ((simp; fail)+)?)+

lemma kp_consputc [kp_rules]:
  "core s = c \<Longrightarrow> held s = h \<Longrightarrow> kp c h (consputc ch s)"
  unfolding consputc_def
  by ((intro kp_rules; (rule refl)?), ((simp; fail)+)?)+

lemma kp_consputs [kp_rules]: "core s = c \<Longrightarrow> held s = h \<Longrightarrow> kp c h (consputs cs s)"
  by (induction cs arbitrary: s) (unfold consputs.simps, ((intro kp_rules; (rule refl)?), ((simp; fail)+)?)+)

lemma kp_print [kp_rules]:
  "core s = c \<Longrightarrow> held s = h \<Longrightarrow> kp c h (printint x b sg s)"
  "core s = c \<Longrightarrow> held s = h \<Longrightarrow> kp c h (printptr y s)"
  unfolding printint_def printptr_def
  by ((intro kp_rules; (rule refl)?), ((simp; fail)+)?)+

lemma kp_printf_loop [kp_rules]: "core s = c \<Longrightarrow> held s = h \<Longrightarrow> kp c h (printf_loop fmt ap s)"
proof (induction "length fmt" arbitrary: fmt ap s rule: less_induct)
  case less
  consider "fmt = []" | x where "fmt = [x]" | x y ys where "fmt = x # y # ys" by (metis list.exhaust)
  then show ?case
  proof cases
    case 3
    show ?thesis unfolding 3 printf_loop.simps
      by (intro kp_rules; (rule refl)?; (rule less)?; (rule refl)?) (simp_all add: 3 less.prems)
  qed (use less.prems in \<open>simp_all add: kp_consputc\<close>)
qed

lemma kp_printf [kp_rules]:
  "core s = c \<Longrightarrow> held s = h \<Longrightarrow> kp c h (printf fm ap s)"
  unfolding printf_def Let_def
  by (cases "pr_locking s"; simp only: if_True if_False res_bind.simps)
     ((intro kp_rules; (rule refl)?), ((simp; fail)+)?)+

lemma kp_either [kp_rules]:
  "core s = c \<Longrightarrow> held s = h \<Longrightarrow> kp c h (either_copyout vm dst bs s)"
  "core s = c \<Longrightarrow> held s = h \<Longrightarrow> kp c h (either_copyin vm src n s)"
  unfolding either_copyout_def either_copyin_def
  by ((intro kp_rules; (rule refl)?), ((simp; fail)+)?)+

lemma kp_bzero [kp_rules]:
  "core s = c \<Longrightarrow> held s = h \<Longrightarrow> kp c h (bzero dev bn s)"
  unfolding bzero_def
  by ((intro kp_rules; (rule refl)?), ((simp; fail)+)?)+

lemma kp_balloc [kp_rules]:
  "core s = c \<Longrightarrow> held s = h \<Longrightarrow> kp c h (balloc dev s)"
  "core s = c \<Longrightarrow> held s = h \<Longrightarrow> kp c h (bfree dev bn s)"
  unfolding balloc_def balloc_body_def [abs_def] bfree_def
  by ((intro kp_rules; (rule refl)?), ((simp; fail)+)?)+

lemma kp_iupdate [kp_rules]:
  "core s = c \<Longrightarrow> held s = h \<Longrightarrow> kp c h (iupdate ip s)"
  unfolding iupdate_def
  by ((intro kp_rules; (rule refl)?), ((simp; fail)+)?)+

lemma kp_ilock [kp_rules]:
  "core s = c \<Longrightarrow> held s = h \<Longrightarrow> kp c h (ilock ipo s)"
  unfolding ilock_def ilock_load_def
  by ((intro kp_rules; (rule refl)?), ((simp; fail)+)?)+

lemma kp_iunlock [kp_rules]:
  "core s = c \<Longrightarrow> held s = h \<Longrightarrow> kp c h (iunlock ipo s)"
  unfolding iunlock_def
  by ((intro kp_rules; (rule refl)?), ((simp; fail)+)?)+

lemma kp_bmap [kp_rules]:
  "core s = c \<Longrightarrow> held s = h \<Longrightarrow> kp c h (bmap ip bn s)"
  unfolding bmap_def
  by ((intro kp_rules; (rule refl)?), ((simp; fail)+)?)+

lemma kp_itrunc [kp_rules]:
  "core s = c \<Longrightarrow> held s = h \<Longrightarrow> kp c h (itrunc ip s)"
  unfolding itrunc_def
  by ((intro kp_rules; (rule refl)?), ((simp; fail)+)?)+

lemma kp_readi_loop [kp_rules]: "core s = c \<Longrightarrow> held s = h \<Longrightarrow> kp c h (readi_loop k vm ip dst off n tot out s)"
  by (induction k arbitrary: dst off tot out s) (unfold readi_loop.simps, ((intro kp_rules; (rule refl)?), ((simp; fail)+)?)+)

lemma kp_readi [kp_rules]:
  "core s = c \<Longrightarrow> held s = h \<Longrightarrow> kp c h (readi vm ip dst off n s)"
  unfolding readi_def
  by ((intro kp_rules; (rule refl)?), ((simp; fail)+)?)+

lemma kp_writei_loop [kp_rules]: "core s = c \<Longrightarrow> held s = h \<Longrightarrow> kp c h (writei_loop k vm ip src off n tot s)"
  by (induction k arbitrary: src off tot s) (unfold writei_loop.simps, ((intro kp_rules; (rule refl)?), ((simp; fail)+)?)+)

lemma kp_writei [kp_rules]:
  "core s = c \<Longrightarrow> held s = h \<Longrightarrow> kp c h (writei vm ip src off n s)"
  unfolding writei_def
  by ((intro kp_rules; (rule refl)?), ((simp; fail)+)?)+

lemma kp_dirlink_slot [kp_rules]:
  "core s = c \<Longrightarrow> held s = h \<Longrightarrow> kp c h (dirlink_slot vm dp s)"
  unfolding dirlink_slot_def
  by ((intro kp_rules; (rule refl)?), ((simp; fail)+)?)+

lemma kp_isdirempty [kp_rules]:
  "core s = c \<Longrightarrow> held s = h \<Longrightarrow> kp c h (isdirempty vm dp s)"
  unfolding isdirempty_def
  by ((intro kp_rules; (rule refl)?), ((simp; fail)+)?)+

lemma kp_pipeclose [kp_rules]:
  "core s = c \<Longrightarrow> held s = h \<Longrightarrow> kp c h (pipeclose pi w s)"
  unfolding pipeclose_def
  by ((intro kp_rules; (rule refl)?), ((simp; fail)+)?)+

lemma kp_pipewrite_loop [kp_rules]:
  "core s = c \<Longrightarrow> remove1 (PipeLock pi) (held s) = h \<Longrightarrow> kp c h (pipewrite_loop vm pi pr a i k s)"
  by (induction k arbitrary: i s) (unfold pipewrite_loop.simps, ((intro kp_rules; (rule refl)?), ((simp; fail)+)?)+)

lemma kp_piperead_copy [kp_rules]:
  "core s = c \<Longrightarrow> remove1 (PipeLock pi) (held s) = h \<Longrightarrow> kp c h (piperead_copy vm pi pr a i k s)"
  by (induction k arbitrary: i s) (unfold piperead_copy.simps, ((intro kp_rules; (rule refl)?), ((simp; fail)+)?)+)

lemma kp_pipe [kp_rules]:
  "core s = c \<Longrightarrow> held s = h \<Longrightarrow> kp c h (pipewrite vm pi a n s)"
  "core s = c \<Longrightarrow> held s = h \<Longrightarrow> kp c h (piperead vm pi a n s)"
  unfolding pipewrite_def piperead_def piperead_wait_def
  by ((intro kp_rules; (rule refl)?), ((simp; fail)+)?)+

lemma kp_consolewrite_loop [kp_rules]: "core s = c \<Longrightarrow> held s = h \<Longrightarrow> kp c h (consolewrite_loop vm src i k s)"
  by (induction k arbitrary: i s) (unfold consolewrite_loop.simps, ((intro kp_rules; (rule refl)?), ((simp; fail)+)?)+)

lemma kp_consoleread_loop [kp_rules]:
  "core s = c \<Longrightarrow> remove1 ConsLock (held s) = h \<Longrightarrow> kp c h (consoleread_loop vm n target dst out s)"
  by (induction n arbitrary: dst out s) (unfold consoleread_loop.simps, ((intro kp_rules; (rule refl)?), ((simp; fail)+)?)+)

lemma kp_console [kp_rules]:
  "core s = c \<Longrightarrow> held s = h \<Longrightarrow> kp c h (consolewrite vm src n s)"
  "core s = c \<Longrightarrow> held s = h \<Longrightarrow> kp c h (consoleread vm dst n s)"
  unfolding consolewrite_def consoleread_def
  by ((intro kp_rules; (rule refl)?), ((simp; fail)+)?)+

lemma kp_iget [kp_rules]:
  "core s = c \<Longrightarrow> held s = h \<Longrightarrow> kp c h (iget dev n s)"
  "core s = c \<Longrightarrow> held s = h \<Longrightarrow> kp c h (idup ip s)"
  "core s = c \<Longrightarrow> held s = h \<Longrightarrow> kp c h (iput ip s)"
  unfolding iget_def idup_def iput_def
  by ((intro kp_rules; (rule refl)?), ((simp; fail)+)?)+

lemma kp_iunlockput [kp_rules]:
  "core s = c \<Longrightarrow> held s = h \<Longrightarrow> kp c h (iunlockput ip s)"
  unfolding iunlockput_def
  by ((intro kp_rules; (rule refl)?), ((simp; fail)+)?)+

lemma kp_ialloc [kp_rules]:
  "core s = c \<Longrightarrow> held s = h \<Longrightarrow> kp c h (ialloc dev ty s)"
  unfolding ialloc_def
  by ((intro kp_rules; (rule refl)?), ((simp; fail)+)?)+

lemma kp_dirlookup [kp_rules]:
  "core s = c \<Longrightarrow> held s = h \<Longrightarrow> kp c h (dirlookup vm dp nm s)"
  unfolding dirlookup_def
  by ((intro kp_rules; (rule refl)?), ((simp; fail)+)?)+

lemma kp_dirlink [kp_rules]:
  "core s = c \<Longrightarrow> held s = h \<Longrightarrow> kp c h (dirlink vm dp nm n s)"
  unfolding dirlink_def
  by ((intro kp_rules; (rule refl)?), ((simp; fail)+)?)+

lemma kp_namex_loop [kp_rules]: "core s = c \<Longrightarrow> held s = h \<Longrightarrow> kp c h (namex_loop k vm np ip path nm s)"
  by (induction k arbitrary: ip path nm s) (unfold namex_loop.simps, ((intro kp_rules; (rule refl)?), ((simp; fail)+)?)+)

lemma kp_namex [kp_rules]:
  "core s = c \<Longrightarrow> held s = h \<Longrightarrow> kp c h (namex vm path np nm s)"
  unfolding namex_def
  by ((intro kp_rules; (rule refl)?), ((simp; fail)+)?)+

lemma kp_namei [kp_rules]:
  "core s = c \<Longrightarrow> held s = h \<Longrightarrow> kp c h (namei vm path s)"
  "core s = c \<Longrightarrow> held s = h \<Longrightarrow> kp c h (nameiparent vm path nm s)"
  unfolding namei_def nameiparent_def
  by ((intro kp_rules; (rule refl)?), ((simp; fail)+)?)+

lemma kp_pagetable [kp_rules]:
  "core s = c \<Longrightarrow> held s = h \<Longrightarrow> kp c h (proc_pagetable vm ks p s)"
  "core s = c \<Longrightarrow> held s = h \<Longrightarrow> kp c h (proc_freepagetable vm pt n s)"
  unfolding proc_pagetable_def proc_freepagetable_def
  by ((intro kp_rules; (rule refl)?), ((simp; fail)+)?)+

lemma kp_growproc [kp_rules]:
  "core s = c \<Longrightarrow> held s = h \<Longrightarrow> kp c h (growproc vm k s)"
  "core s = c \<Longrightarrow> held s = h \<Longrightarrow> kp c h (get_cfs_priority vm i dst s)"
  unfolding growproc_def get_cfs_priority_def
  by ((intro kp_rules; (rule refl)?), ((simp; fail)+)?)+

lemma kp_loadseg_loop [kp_rules]: "core s = c \<Longrightarrow> held s = h \<Longrightarrow> kp c h (loadseg_loop k vm pt va ip off msz i s)"
  by (induction k arbitrary: i s) (unfold loadseg_loop.simps, ((intro kp_rules; (rule refl)?), ((simp; fail)+)?)+)

lemma kp_loadseg [kp_rules]:
  "core s = c \<Longrightarrow> held s = h \<Longrightarrow> kp c h (loadseg vm pt va ip off msz s)"
  unfolding loadseg_def
  by ((intro kp_rules; (rule refl)?), ((simp; fail)+)?)+

lemma kp_exec_load [kp_rules]: "core s = c \<Longrightarrow> held s = h \<Longrightarrow> kp c h (exec_load vm pt ip n off msz s)"
  by (induction n arbitrary: off msz s) (unfold exec_load.simps, ((intro kp_rules; (rule refl)?), ((simp; fail)+)?)+)

lemma kp_exec_args [kp_rules]: "core s = c \<Longrightarrow> held s = h \<Longrightarrow> kp c h (exec_args vm pt stb argv sp us s)"
  by (induction argv arbitrary: sp us s) (unfold exec_args.simps, ((intro kp_rules; (rule refl)?), ((simp; fail)+)?)+)

lemma kp_exec_bad [kp_rules]:
  "core s = c \<Longrightarrow> held s = h \<Longrightarrow> kp c h (exec_bad vm pt msz ipo s)"
  unfolding exec_bad_def
  by ((intro kp_rules; (rule refl)?), ((simp; fail)+)?)+

lemma kp_exec_commit [kp_rules]:
  "core s = c \<Longrightarrow> held s = h \<Longrightarrow> kp c h (exec_commit vm p path elf pt msz osz stb us sp s)"
  unfolding exec_commit_def
  by ((intro kp_rules; (rule refl)?), ((simp; fail)+)?)+

lemma kp_exec_stack [kp_rules]:
  "core s = c \<Longrightarrow> held s = h \<Longrightarrow> kp c h (exec_stack vm p path argv elf pt msz s)"
  unfolding exec_stack_def
  by ((intro kp_rules; (rule refl)?), ((simp; fail)+)?)+

lemma kp_exec [kp_rules]:
  "core s = c \<Longrightarrow> held s = h \<Longrightarrow> kp c h (exec vm ks path argv s)"
  unfolding exec_def
  by ((intro kp_rules; (rule refl)?), ((simp; fail)+)?)+

section \<open>Processes that do not run\<close>

lemma core_idle [simp]:
  "p \<notin> snd (snd (core s)) \<Longrightarrow> pstate (f (procs s p)) \<noteq> RUNNING \<Longrightarrow> core (upd_proc p f s) = core s"
  by (auto simp: core_def upd_proc_def)

lemma not_running: "core s = c \<Longrightarrow> pstate (procs s p) \<noteq> RUNNING \<Longrightarrow> p \<notin> snd (snd c)"
  by (auto simp: core_def)

lemma kp_freeproc [kp_rules]:
  "core s = c \<Longrightarrow> p \<notin> snd (snd c) \<Longrightarrow> held s = h \<Longrightarrow> kp c h (freeproc vm p s)"
  unfolding freeproc_def by ((intro kp_rules; (rule refl)?), ((simp; fail)+)?)+

lemma leaves_for:
  assumes "I s" "\<And>i t. I t \<Longrightarrow> leaves c (f i t) (\<lambda>r t. case r of None \<Rightarrow> I t | Some v \<Rightarrow> Q v t)"
  shows "leaves c (for_loop f is s) (\<lambda>r t. case r of None \<Rightarrow> I t | Some v \<Rightarrow> Q v t)"
  using assms(1)
proof (induction "is" arbitrary: s)
  case (Cons i "is")
  have "leaves c (f i s) (\<lambda>r t. case r of None \<Rightarrow> I t | Some v \<Rightarrow> Q v t)" using assms(2) Cons.prems by blast
  then show ?case using Cons.IH
  proof (cases "f i s")
    case (Ret r t)
    then show ?thesis using \<open>leaves c (f i s) _\<close> Cons.IH [of t] by (cases r) simp_all
  qed simp_all
qed simp

lemma leaves_if: "(b \<Longrightarrow> leaves c m Q) \<Longrightarrow> (\<not> b \<Longrightarrow> leaves c n Q) \<Longrightarrow> leaves c (if b then m else n) Q"
  by simp

lemma leaves_let: "(\<And>x. x = e \<Longrightarrow> leaves c (f x) Q) \<Longrightarrow> leaves c (Let e f) Q"
  by simp

lemma leaves_Ret: "Q a t \<Longrightarrow> leaves c (Ret a t) Q"
  by simp

lemmas leaves_rules = leaves_if leaves_let kp_ends leaves_Ret kp_rules

text \<open>The result of \<^verbatim>\<open>allocproc\<close>: an entry that does not run, with its lock held.\<close>

definition allocated :: "sched_core \<Rightarrow> lock_id list \<Rightarrow> nat option \<Rightarrow> 'z pcb_scheme \<Rightarrow> bool" where
  "allocated c h r t \<longleftrightarrow> core t = c \<and>
     (case r of None \<Rightarrow> held t = h | Some p \<Rightarrow> held t = ProcLock p # h \<and> p \<notin> snd (snd c))"

lemma allocproc_found_ends:
  assumes "core s = c" "held s = ProcLock p # h" "p \<notin> snd (snd c)"
  shows "leaves c (allocproc_found vm ks p s) (allocated c h)"
  using assms unfolding allocproc_found_def allocpid_def
  by ((intro leaves_rules; (rule refl)?), (simp add: allocated_def; fail)+)

lemma allocproc_ends:
  assumes "core s = c" "held s = h"
  shows "leaves c (allocproc vm ks s) (allocated c h)"
proof -
  let ?f = "\<lambda>p s. res_bind (lock_acquire (ProcLock p) s) (\<lambda>_ s.
         if pstate (procs s p) = UNUSED then res_bind (allocproc_found vm ks p s) (\<lambda>r s. Ret (Some r) s)
         else res_bind (lock_release (ProcLock p) s) (\<lambda>_ s. Ret None s))"
  have "leaves c (for_loop ?f [0..<NPROC] s) (\<lambda>r t. case r of None \<Rightarrow> core t = c \<and> held t = h | Some v \<Rightarrow> allocated c h v t)"
  proof (rule leaves_for [where I = "\<lambda>t. core t = c \<and> held t = h"])
    fix p and t :: "'a pcb_scheme" assume t: "core t = c \<and> held t = h"
    show "leaves c (?f p t) (\<lambda>r t. case r of None \<Rightarrow> core t = c \<and> held t = h | Some v \<Rightarrow> allocated c h v t)"
    proof (rule kp_ends [of _ "ProcLock p # h"])
      show "kp c (ProcLock p # h) (lock_acquire (ProcLock p) t)" using t by (simp add: lock_acquire_def)
      fix a :: unit and u :: "'a pcb_scheme" assume u: "core u = c" "held u = ProcLock p # h"
      show "leaves c (if pstate (procs u p) = UNUSED then res_bind (allocproc_found vm ks p u) (\<lambda>r s. Ret (Some r) s)
          else res_bind (lock_release (ProcLock p) u) (\<lambda>_ s. Ret None s))
          (\<lambda>r t. case r of None \<Rightarrow> core t = c \<and> held t = h | Some v \<Rightarrow> allocated c h v t)"
        using u allocproc_found_ends [OF u not_running [OF u(1)], of vm ks]
        by (auto simp: lock_release_def intro: leaves_bind)
    qed
  qed (use assms in simp)
  then show ?thesis unfolding allocproc_def
    by (rule leaves_bind) (auto simp: allocated_def split: option.splits)
qed

section \<open>Processes and files\<close>

lemma kp_marks [kp_rules]:
  "core s = c \<Longrightarrow> held s = h \<Longrightarrow> kp c h (setkilled p s)"
  "core s = c \<Longrightarrow> held s = h \<Longrightarrow> kp c h (allocpid s)"
  "core s = c \<Longrightarrow> held s = h \<Longrightarrow> kp c h (update_ticks s)"
  unfolding setkilled_def allocpid_def update_ticks_def
  by ((intro kp_rules; (rule refl)?), ((simp; fail)+)?)+

lemma kp_filedup [kp_rules]:
  "core s = c \<Longrightarrow> held s = h \<Longrightarrow> kp c h (filealloc s)"
  "core s = c \<Longrightarrow> held s = h \<Longrightarrow> kp c h (filedup f s)"
  unfolding filealloc_def filedup_def
  by ((intro kp_rules; (rule refl)?), ((simp; fail)+)?)+

lemma kp_ftype [kp_rules]:
  "(x = FD_NONE \<Longrightarrow> kp c h a) \<Longrightarrow> (x = FD_PIPE \<Longrightarrow> kp c h b) \<Longrightarrow> (x = FD_INODE \<Longrightarrow> kp c h d) \<Longrightarrow> (x = FD_DEVICE \<Longrightarrow> kp c h e) \<Longrightarrow>
    kp c h (case x of FD_NONE \<Rightarrow> a | FD_PIPE \<Rightarrow> b | FD_INODE \<Rightarrow> d | FD_DEVICE \<Rightarrow> e)"
  by (cases x) auto

lemma kp_devfn [kp_rules]:
  "(x = Fconsoleread \<Longrightarrow> kp c h a) \<Longrightarrow> (x = Fconsolewrite \<Longrightarrow> kp c h b) \<Longrightarrow>
    kp c h (case x of Fconsoleread \<Rightarrow> a | Fconsolewrite \<Rightarrow> b)"
  by (cases x) auto

lemma kp_fileclose [kp_rules]:
  "core s = c \<Longrightarrow> held s = h \<Longrightarrow> kp c h (fileclose f s)"
  unfolding fileclose_def
  by ((intro kp_rules; (rule refl)?), ((simp; fail)+)?)+

lemma kp_idup [kp_rules]:
  "core s = c \<Longrightarrow> held s = h \<Longrightarrow> kp c h (idup ip s)"
  unfolding idup_def
  by ((intro kp_rules; (rule refl)?), ((simp; fail)+)?)+

lemma kp_fork_files [kp_rules]:
  "core s = c \<Longrightarrow> held s = h \<Longrightarrow> kp c h (fork_files np p s)"
  unfolding fork_files_def
  by ((intro kp_rules; (rule refl)?), ((simp; fail)+)?)+

lemma allocated_bind:
  assumes "core s = c" "held s = h"
    "\<And>t. core t = c \<Longrightarrow> held t = h \<Longrightarrow> kp c h (f None t)"
    "\<And>p t. core t = c \<Longrightarrow> held t = ProcLock p # h \<Longrightarrow> p \<notin> snd (snd c) \<Longrightarrow> kp c h (f (Some p) t)"
  shows "kp c h (res_bind (allocproc vm ks s) f)"
  unfolding kp_def using allocproc_ends [OF assms(1,2)]
  by (rule leaves_bind) (use assms(3,4) in \<open>auto simp: allocated_def kp_def split: option.splits\<close>)

lemma kp_fork [kp_rules]: "core s = c \<Longrightarrow> held s = h \<Longrightarrow> kp c h (fork vm ks s)"
  unfolding fork_def
  by (intro kp_with_proc allocated_bind, simp, simp, simp, simp) (((intro kp_rules; (rule refl)?), ((simp; fail)+)?)+)

section \<open>Exit and wait\<close>

lemma kp_reparent [kp_rules]:
  "core s = c \<Longrightarrow> held s = h \<Longrightarrow> kp c h (reparent p s)"
  unfolding reparent_def by ((intro kp_rules; (rule refl)?), ((simp; fail)+)?)+

lemma kp_exit_files [kp_rules]: "core s = c \<Longrightarrow> held s = h \<Longrightarrow> kp c h (exit_files p s)"
  unfolding exit_files_def by ((intro kp_rules; (rule refl)?), ((simp; fail)+)?)+

lemma sched_no_return: "res_bind (sched s) g = sched s"
  by (simp add: sched_def with_proc_def split: option.split)

lemma release_then_sched:
  assumes "core s = c" "running_proc c = Some p" "pstate (f (procs s p)) \<noteq> RUNNING"
  shows "kp c h (res_bind (lock_release l (upd_proc p f s)) (\<lambda>_ s. res_bind (sched s) g))"
proof (cases "l \<in> set (held s)")
  case True
  have "kp c h (sched (upd_proc p f (s\<lparr>held := remove1 l (held s)\<rparr>)))"
    by (rule kp_sched) (use assms in simp_all)
  moreover have "(upd_proc p f s)\<lparr>held := remove1 l (held s)\<rparr> = upd_proc p f (s\<lparr>held := remove1 l (held s)\<rparr>)"
    by (simp add: upd_proc_def)
  ultimately show ?thesis using True by (simp add: lock_release_def sched_no_return)
qed (simp add: lock_release_def)

lemma kp_exit_finish [kp_rules]: "core s = c \<Longrightarrow> running_proc c = Some p \<Longrightarrow> kp c h (exit_finish p status s)"
  unfolding exit_finish_def
  by ((intro release_then_sched kp_rules; (rule refl)?), ((simp; fail)+)?)+

lemma kp_exit [kp_rules]: "core s = c \<Longrightarrow> kp c h (exit status msg s)"
  unfolding exit_def by ((intro kp_rules; (rule refl)?), ((simp; fail)+)?)+

text \<open>A scan of \<^verbatim>\<open>wait\<close> that settles the call has released \<^verbatim>\<open>wait_lock\<close>.\<close>

lemma wait_scan_ends:
  "core s = c \<Longrightarrow> held s = WaitLock # h \<Longrightarrow>
    leaves c (wait_scan vm p addr addr2 pps hk s)
      (\<lambda>r t. core t = c \<and> held t = (if fst r = None then WaitLock # h else h))"
proof (induction vm p addr addr2 pps hk s rule: wait_scan.induct)
  case (2 vm p addr addr2 pp pps hk s)
  show ?case
  proof (cases "parent (procs s pp) = Some p")
    case True
    then show ?thesis using 2(3,4)
      unfolding wait_scan.simps
      apply (simp only: not_True_eq_False if_False)
      apply ((intro 2(2) leaves_rules; (rule refl | assumption)?), ((simp; fail | (rule not_running, assumption, simp; fail))+)?)
      done
  qed (use 2 in simp)
qed simp

lemma kp_wait_loop [kp_rules]:
  assumes "core s = c" "held s = WaitLock # h"
  shows "kp c h (wait_loop vm p addr addr2 s)"
  unfolding wait_loop_def kp_def using wait_scan_ends [OF assms]
  by (rule leaves_bind)
    (auto simp flip: kp_def split: option.splits prod.splits intro!: kp_rules)

lemma kp_wait [kp_rules]:
  "core s = c \<Longrightarrow> held s = h \<Longrightarrow> kp c h (wait vm addr addr2 s)"
  unfolding wait_def
  by ((intro kp_rules; (rule refl)?), ((simp; fail)+)?)+

section \<open>System calls\<close>

lemma kp_filestat [kp_rules]:
  "core s = c \<Longrightarrow> held s = h \<Longrightarrow> kp c h (filestat vm pad f addr s)"
  unfolding filestat_def
  by ((intro kp_rules; (rule refl)?), ((simp; fail)+)?)+

lemma kp_dev_call [kp_rules]:
  "core s = c \<Longrightarrow> held s = h \<Longrightarrow> kp c h (dev_call vm fn addr n s)"
  unfolding dev_call_def
  by ((intro kp_rules; (rule refl)?), ((simp; fail)+)?)+

lemma kp_fileread [kp_rules]:
  "core s = c \<Longrightarrow> held s = h \<Longrightarrow> kp c h (fileread vm f addr n s)"
  unfolding fileread_def
  by ((intro kp_rules; (rule refl)?), ((simp; fail)+)?)+

lemma kp_filewrite_loop [kp_rules]:
  "core s = c \<Longrightarrow> held s = h \<Longrightarrow> kp c h (filewrite_loop k vm f addr i n s)"
proof (induction k vm f addr i n s rule: filewrite_loop.induct)
  case (2 k vm f addr i n s)
  show ?case using 2(2,3) unfolding filewrite_loop.simps
    by ((intro 2(1) kp_rules; (rule refl)?), ((simp; fail)+)?)
qed simp

lemma kp_filewrite [kp_rules]:
  "core s = c \<Longrightarrow> held s = h \<Longrightarrow> kp c h (filewrite vm f addr n s)"
  unfolding filewrite_def
  by ((intro kp_rules; (rule refl)?), ((simp; fail)+)?)+

lemma kp_pipealloc_bad [kp_rules]:
  "core s = c \<Longrightarrow> held s = h \<Longrightarrow> kp c h (pipealloc_bad f0 f1 s)"
  unfolding pipealloc_bad_def
  by ((intro kp_rules; (rule refl)?), ((simp; fail)+)?)+

lemma kp_pipealloc [kp_rules]:
  "core s = c \<Longrightarrow> held s = h \<Longrightarrow> kp c h (pipealloc s)"
  unfolding pipealloc_def
  by ((intro kp_rules; (rule refl)?), ((simp; fail)+)?)+

lemma kp_fetch [kp_rules]:
  "core s = c \<Longrightarrow> held s = h \<Longrightarrow> kp c h (fetchaddr vm addr s)"
  "core s = c \<Longrightarrow> held s = h \<Longrightarrow> kp c h (fetchstr vm addr mx s)"
  unfolding fetchaddr_def fetchstr_def
  by ((intro kp_rules; (rule refl)?), ((simp; fail)+)?)+

lemma kp_argraw [kp_rules]:
  "core s = c \<Longrightarrow> held s = h \<Longrightarrow> kp c h (argraw n s)"
  unfolding argraw_def
  by ((intro kp_rules; (rule refl)?), ((simp; fail)+)?)+

lemma kp_argint [kp_rules]:
  "core s = c \<Longrightarrow> held s = h \<Longrightarrow> kp c h (argint n s)"
  "core s = c \<Longrightarrow> held s = h \<Longrightarrow> kp c h (argaddr n s)"
  unfolding argint_def argaddr_def
  by ((intro kp_rules; (rule refl)?), ((simp; fail)+)?)+

lemma kp_argstr [kp_rules]:
  "core s = c \<Longrightarrow> held s = h \<Longrightarrow> kp c h (argstr vm n mx s)"
  unfolding argstr_def
  by ((intro kp_rules; (rule refl)?), ((simp; fail)+)?)+

lemma kp_sys_exit [kp_rules]:
  "core s = c \<Longrightarrow> held s = h \<Longrightarrow> kp c h (sys_exit vm junk s)"
  unfolding sys_exit_def
  by ((intro kp_rules; (rule refl)?), ((simp; fail)+)?)+

lemma kp_sys_fork [kp_rules]:
  "core s = c \<Longrightarrow> held s = h \<Longrightarrow> kp c h (sys_fork vm ks s)"
  unfolding sys_fork_def
  by ((intro kp_rules; (rule refl)?), ((simp; fail)+)?)+

lemma kp_sys_sleep_loop [kp_rules]:
  "core s = c \<Longrightarrow> held s = TicksLock # h \<Longrightarrow> kp c h (sys_sleep_loop t0 n s)"
  unfolding sys_sleep_loop_def by ((intro kp_rules; (rule refl | assumption)?), ((simp; fail)+)?)+

lemma kp_sysproc [kp_rules]:
  "core s = c \<Longrightarrow> held s = h \<Longrightarrow> kp c h (sys_getpid s)"
  "core s = c \<Longrightarrow> held s = h \<Longrightarrow> kp c h (sys_wait vm s)"
  "core s = c \<Longrightarrow> held s = h \<Longrightarrow> kp c h (sys_sbrk vm s)"
  "core s = c \<Longrightarrow> held s = h \<Longrightarrow> kp c h (sys_sleep s)"
  "core s = c \<Longrightarrow> held s = h \<Longrightarrow> kp c h (sys_kill s)"
  "core s = c \<Longrightarrow> held s = h \<Longrightarrow> kp c h (sys_uptime s)"
  "core s = c \<Longrightarrow> held s = h \<Longrightarrow> kp c h (sys_memsize s)"
  "core s = c \<Longrightarrow> held s = h \<Longrightarrow> kp c h (sys_set_ps_priority s)"
  "core s = c \<Longrightarrow> held s = h \<Longrightarrow> kp c h (sys_set_cfs_priority s)"
  "core s = c \<Longrightarrow> held s = h \<Longrightarrow> kp c h (sys_get_cfs_stats vm s)"
  "core s = c \<Longrightarrow> held s = h \<Longrightarrow> kp c h (sys_set_policy s)"
  unfolding sys_getpid_def sys_wait_def sys_sbrk_def sys_sleep_def sys_kill_def sys_uptime_def sys_memsize_def sys_set_ps_priority_def sys_set_cfs_priority_def sys_get_cfs_stats_def sys_set_policy_def
  by ((intro kp_rules; (rule refl)?), ((simp; fail)+)?)+

lemma kp_argfd [kp_rules]:
  "core s = c \<Longrightarrow> held s = h \<Longrightarrow> kp c h (argfd n s)"
  "core s = c \<Longrightarrow> held s = h \<Longrightarrow> kp c h (fdalloc f s)"
  unfolding argfd_def fdalloc_def
  by ((intro kp_rules; (rule refl)?), ((simp; fail)+)?)+

lemma core_clear_fd [simp]: "core (clear_fd p fd s) = core s" "held (clear_fd p fd s) = held s"
  by (simp_all add: clear_fd_def)

lemma core_add_nlink [simp]: "core (add_nlink ip k s) = core s" "held (add_nlink ip k s) = held s"
  by (simp_all add: add_nlink_def)

lemma kp_sys_files [kp_rules]:
  "core s = c \<Longrightarrow> held s = h \<Longrightarrow> kp c h (sys_dup s)"
  "core s = c \<Longrightarrow> held s = h \<Longrightarrow> kp c h (sys_read vm s)"
  "core s = c \<Longrightarrow> held s = h \<Longrightarrow> kp c h (sys_write vm s)"
  "core s = c \<Longrightarrow> held s = h \<Longrightarrow> kp c h (sys_close s)"
  "core s = c \<Longrightarrow> held s = h \<Longrightarrow> kp c h (sys_fstat vm pad s)"
  unfolding sys_dup_def sys_read_def sys_write_def sys_close_def sys_fstat_def
  by ((intro kp_rules; (rule refl)?), ((simp; fail)+)?)+

lemma kp_argpath [kp_rules]:
  "core s = c \<Longrightarrow> held s = h \<Longrightarrow> kp c h (argpath vm n s)"
  unfolding argpath_def
  by ((intro kp_rules; (rule refl)?), ((simp; fail)+)?)+

lemma kp_fail_op [kp_rules]:
  "core s = c \<Longrightarrow> held s = h \<Longrightarrow> kp c h (fail_op s)"
  unfolding fail_op_def
  by ((intro kp_rules; (rule refl)?), ((simp; fail)+)?)+

lemma kp_sys_link_bad [kp_rules]:
  "core s = c \<Longrightarrow> held s = h \<Longrightarrow> kp c h (sys_link_bad ip s)"
  unfolding sys_link_bad_def
  by ((intro kp_rules; (rule refl)?), ((simp; fail)+)?)+

lemma kp_nameiparent [kp_rules]:
  "core s = c \<Longrightarrow> held s = h \<Longrightarrow> kp c h (nameiparent vm path name s)"
  unfolding nameiparent_def
  by ((intro kp_rules; (rule refl)?), ((simp; fail)+)?)+

lemma kp_sys_link [kp_rules]:
  "core s = c \<Longrightarrow> held s = h \<Longrightarrow> kp c h (sys_link vm s)"
  unfolding sys_link_def
  by ((intro kp_rules; (rule refl)?), ((simp; fail)+)?)+

lemma kp_sys_unlink [kp_rules]:
  "core s = c \<Longrightarrow> held s = h \<Longrightarrow> kp c h (sys_unlink vm s)"
  unfolding sys_unlink_def
  by ((intro kp_rules; (rule refl)?), ((simp; fail)+)?)+

lemma kp_create_fail [kp_rules]:
  "core s = c \<Longrightarrow> held s = h \<Longrightarrow> kp c h (create_fail ip dp s)"
  unfolding create_fail_def
  by ((intro kp_rules; (rule refl)?), ((simp; fail)+)?)+

lemma kp_create_new [kp_rules]:
  "core s = c \<Longrightarrow> held s = h \<Longrightarrow> kp c h (create_new vm dp ip name type major minor s)"
  unfolding create_new_def
  by ((intro kp_rules; (rule refl)?), ((simp; fail)+)?)+

lemma kp_create [kp_rules]:
  "core s = c \<Longrightarrow> held s = h \<Longrightarrow> kp c h (create vm path type major minor s)"
  unfolding create_def
  by ((intro kp_rules; (rule refl)?), ((simp; fail)+)?)+

lemma kp_sys_open_inode [kp_rules]:
  "core s = c \<Longrightarrow> held s = h \<Longrightarrow> kp c h (sys_open_inode vm path omode s)"
  unfolding sys_open_inode_def
  by ((intro kp_rules; (rule refl)?), ((simp; fail)+)?)+

lemma kp_sys_open [kp_rules]:
  "core s = c \<Longrightarrow> held s = h \<Longrightarrow> kp c h (sys_open vm s)"
  unfolding sys_open_def
  by ((intro kp_rules; (rule refl)?), ((simp; fail)+)?)+

lemma kp_sys_dirs [kp_rules]:
  "core s = c \<Longrightarrow> held s = h \<Longrightarrow> kp c h (sys_mkdir vm s)"
  "core s = c \<Longrightarrow> held s = h \<Longrightarrow> kp c h (sys_mknod vm s)"
  "core s = c \<Longrightarrow> held s = h \<Longrightarrow> kp c h (sys_chdir vm s)"
  unfolding sys_mkdir_def sys_mknod_def sys_chdir_def
  by ((intro kp_rules; (rule refl)?), ((simp; fail)+)?)+

lemma kp_sys_exec_args [kp_rules]:
  "core s = c \<Longrightarrow> held s = h \<Longrightarrow> kp c h (sys_exec_args vm uargv i n argv s)"
proof (induction vm uargv i n argv s rule: sys_exec_args.induct)
  case (2 vm uargv i n argv s)
  show ?case using 2(2,3) unfolding sys_exec_args.simps
    by ((intro 2(1) kp_rules; (rule refl)?), ((simp; fail)+)?)
qed simp

lemma kp_free_args [kp_rules]:
  "core s = c \<Longrightarrow> held s = h \<Longrightarrow> kp c h (free_args argv s)"
  unfolding free_args_def
  by ((intro kp_rules; (rule refl)?), ((simp; fail)+)?)+

lemma kp_sys_exec [kp_rules]:
  "core s = c \<Longrightarrow> held s = h \<Longrightarrow> kp c h (sys_exec vm ks s)"
  unfolding sys_exec_def
  by ((intro kp_rules; (rule refl)?), ((simp; fail)+)?)+

lemma core_clear_fds [simp]: "core (fold (clear_fd p) fds s) = core s" "held (fold (clear_fd p) fds s) = held s"
  by (induction fds arbitrary: s) simp_all

lemma kp_sys_pipe_fail [kp_rules]:
  "core s = c \<Longrightarrow> held s = h \<Longrightarrow> kp c h (sys_pipe_fail p fds rfile wfile s)"
  unfolding sys_pipe_fail_def
  by ((intro kp_rules; (rule refl)?), ((simp; fail)+)?)+

lemma kp_sys_pipe [kp_rules]:
  "core s = c \<Longrightarrow> held s = h \<Longrightarrow> kp c h (sys_pipe vm s)"
  unfolding sys_pipe_def
  by ((intro kp_rules; (rule refl)?), ((simp; fail)+)?)+

lemma kp_syscalls:
  "syscalls vm ks junk num = Some f \<Longrightarrow> core s = c \<Longrightarrow> held s = h \<Longrightarrow> kp c h (f s)"
  unfolding syscalls_def by (auto simp del: refl split: if_split_asm intro!: kp_rules)

lemma kp_syscall [kp_rules]:
  "core s = c \<Longrightarrow> held s = h \<Longrightarrow> kp c h (syscall vm ks junk s)"
  unfolding syscall_def
  by ((intro kp_syscalls kp_rules; (rule refl | assumption)?), ((simp; fail)+)?)+

section \<open>Interrupts and traps\<close>

lemma kp_procdump [kp_rules]:
  "core s = c \<Longrightarrow> held s = h \<Longrightarrow> kp c h (procdump s)"
  unfolding procdump_def
  by ((intro kp_rules; (rule refl)?), ((simp; fail)+)?)+

lemma kp_kill_line [kp_rules]: "core s = c \<Longrightarrow> held s = h \<Longrightarrow> kp c h (kill_line k s)"
proof (induction k s rule: kill_line.induct)
  case (2 k s)
  show ?case using 2(2,3) unfolding kill_line.simps
    by ((intro 2(1) kp_rules; (rule refl)?), ((simp; fail)+)?)
qed simp

lemma kp_consoleintr [kp_rules]:
  "core s = c \<Longrightarrow> held s = h \<Longrightarrow> kp c h (consoleintr ch s)"
  unfolding consoleintr_def
  by ((intro kp_rules; (rule refl)?), ((simp; fail)+)?)+

lemma kp_uartgetc [kp_rules]:
  "core s = c \<Longrightarrow> held s = h \<Longrightarrow> kp c h (uartgetc s)"
  unfolding uartgetc_def
  by ((intro kp_rules; (rule refl)?), ((simp; fail)+)?)+

lemma kp_uartintr_loop [kp_rules]: "core s = c \<Longrightarrow> held s = h \<Longrightarrow> kp c h (uartintr_loop k s)"
proof (induction k s rule: uartintr_loop.induct)
  case (2 k s)
  show ?case using 2(2,3) unfolding uartintr_loop.simps
    by ((intro 2(1) kp_rules; (rule refl)?), ((simp; fail)+)?)
qed simp

lemma kp_uartintr [kp_rules]:
  "core s = c \<Longrightarrow> held s = h \<Longrightarrow> kp c h (uartintr s)"
  unfolding uartintr_def
  by ((intro kp_rules; (rule refl)?), ((simp; fail)+)?)+

lemma kp_virtio_intr_loop [kp_rules]: "core s = c \<Longrightarrow> held s = h \<Longrightarrow> kp c h (virtio_intr_loop k s)"
proof (induction k s rule: virtio_intr_loop.induct)
  case (2 k s)
  show ?case using 2(2,3) unfolding virtio_intr_loop.simps
    by ((intro 2(1) kp_rules; (rule refl)?), ((simp; fail)+)?)
qed simp

lemma kp_virtio_disk_intr [kp_rules]:
  "core s = c \<Longrightarrow> held s = h \<Longrightarrow> kp c h (virtio_disk_intr R s)"
  unfolding virtio_disk_intr_def
  by ((intro kp_rules; (rule refl)?), ((simp; fail)+)?)+

lemma core_plic [simp]:
  "core (snd (plic_claim s)) = core s" "held (snd (plic_claim s)) = held s"
  "core (plic_complete irq s) = core s" "held (plic_complete irq s) = held s"
  by (simp_all add: plic_claim_def plic_complete_def plic_write_def core_def split: list.split)

lemma core_plic_claim:
  "plic_claim s = (irq, t) \<Longrightarrow> core t = core s" "plic_claim s = (irq, t) \<Longrightarrow> held t = held s"
  using core_plic(1,2) [of s] by simp_all

lemma core_accumulate [simp]: "core (accumulate p s) = core s" "held (accumulate p s) = held s"
  by (simp_all add: accumulate_def)

lemma kp_clockintr [kp_rules]:
  "core s = c \<Longrightarrow> held s = h \<Longrightarrow> kp c h (clockintr s)"
  unfolding clockintr_def
  by ((intro kp_rules; (rule refl)?), ((simp; fail)+)?)+

lemma kp_devintr [kp_rules]:
  "core s = c \<Longrightarrow> held s = h \<Longrightarrow> kp c h (devintr R s)"
  unfolding devintr_def
  by ((intro kp_rules; (rule refl)?), ((simp; fail | (auto dest: core_plic_claim core_plic_claim [OF sym]; fail))+)?)+

lemma kp_usertrapret [kp_rules]:
  "core s = c \<Longrightarrow> held s = h \<Longrightarrow> kp c h (usertrapret ks s)"
  unfolding usertrapret_def
  by ((intro kp_rules; (rule refl)?), ((simp; fail)+)?)+

lemma kp_usertrap_tail [kp_rules]:
  "core s = c \<Longrightarrow> held s = h \<Longrightarrow> kp c h (usertrap_tail ks p which_dev s)"
  unfolding usertrap_tail_def
  by ((intro kp_rules; (rule refl)?), ((simp; fail)+)?)+

lemma kp_usertrap [kp_rules]:
  "core s = c \<Longrightarrow> held s = h \<Longrightarrow> kp c h (usertrap vm ks junk R s)"
  unfolding usertrap_def
  by ((intro kp_rules; (rule refl)?), ((simp; fail)+)?)+

lemma kp_kerneltrap_end [kp_rules]:
  "core s = c \<Longrightarrow> held s = h \<Longrightarrow> kp c h (kerneltrap_end sepc sstatus s)"
  unfolding kerneltrap_end_def
  by ((intro kp_rules; (rule refl)?), ((simp; fail)+)?)+

lemma kp_kerneltrap [kp_rules]:
  "core s = c \<Longrightarrow> held s = h \<Longrightarrow> kp c h (kerneltrap R s)"
  unfolding kerneltrap_def
  by ((intro kp_rules; (rule refl)?), ((simp; fail)+)?)+

lemma core_sb [simp]: "core (s\<lparr>sb := x\<rparr>) = core s"
  by (simp add: core_def)

lemma kp_readsb [kp_rules]:
  "core s = c \<Longrightarrow> held s = h \<Longrightarrow> kp c h (readsb dev s)"
  unfolding readsb_def
  by ((intro kp_rules; (rule refl)?), ((simp; fail)+)?)+

lemma kp_read_head [kp_rules]:
  "core s = c \<Longrightarrow> held s = h \<Longrightarrow> kp c h (read_head s)"
  unfolding read_head_def
  by ((intro kp_rules; (rule refl)?), ((simp; fail)+)?)+

lemma kp_recover_from_log [kp_rules]:
  "core s = c \<Longrightarrow> held s = h \<Longrightarrow> kp c h (recover_from_log s)"
  unfolding recover_from_log_def
  by ((intro kp_rules; (rule refl)?), ((simp; fail)+)?)+

lemma kp_initlog [kp_rules]:
  "core s = c \<Longrightarrow> held s = h \<Longrightarrow> kp c h (initlog dev logstart nlog s)"
  unfolding initlog_def
  by ((intro kp_rules; (rule refl)?), ((simp; fail)+)?)+

lemma kp_fsinit [kp_rules]:
  "core s = c \<Longrightarrow> held s = h \<Longrightarrow> kp c h (fsinit dev s)"
  unfolding fsinit_def
  by ((intro kp_rules; (rule refl)?), ((simp; fail)+)?)+


end
