(* ===== verification/Cpus.thy ===== *)
theory Cpus
  imports Sched_Frame
begin

text \<open>
  All CPUs together: each one either scans the process table in a scheduler or runs a process.
  A step of the system is one scheduler loop body up to the switch, a trap, a system call or
  another kernel routine of a running process, which returns or gives the CPU up, or an interrupt
  taken by a scanning CPU. The routines are those of the other theories, whole.
\<close>

section \<open>The system of CPUs\<close>

datatype mode = Scanning | InProc nat

text \<open>
  Between steps no CPU holds a spin-lock, so the lock list of the shared state is empty; the
  interrupt flag is per CPU. \<open>load\<close> and \<open>store\<close> make a CPU the current one.
\<close>

record cpus =
  shared :: trstate
  hien :: "nat \<Rightarrow> bool"
  stack :: "nat \<Rightarrow> frame list"
  mode :: "nat \<Rightarrow> mode"

definition load :: "nat \<Rightarrow> cpus \<Rightarrow> trstate" where
  "load c w = (shared w)\<lparr>tp := c, ien := hien w c\<rparr>"

definition store :: "nat \<Rightarrow> trstate \<Rightarrow> cpus \<Rightarrow> cpus" where
  "store c s w = w\<lparr>shared := s, hien := (hien w)(c := ien s)\<rparr>"

text \<open>
  What the kernel stack of a process does when it is switched to: the rest of the timer interrupt it
  yielded in, of \<^verbatim>\<open>wait\<close>, of \<^verbatim>\<open>sys_sleep\<close>, of any other \<^verbatim>\<open>sleep\<close> up to the release of the lock it slept
  with, or \<^verbatim>\<open>forkret\<close>. Each may give the CPU up again.
\<close>

datatype resume =
  InUsertrap | InKerneltrap uint64 uint64 | InWait uint64 uint64 | InSysSleep uint cint | InSleep lock_id | AtForkret

fun proc_resume :: "vm_ops \<Rightarrow> ksyms \<Rightarrow> resume \<Rightarrow> nat \<Rightarrow> trstate \<Rightarrow> (unit, trstate) res" where
  "proc_resume vm ks InUsertrap p s = res_bind (usertrap_resume ks p s) (\<lambda>_. Ret ())"
| "proc_resume vm ks (InKerneltrap sepc sstatus) p s = kerneltrap_resume p sepc sstatus s"
| "proc_resume vm ks (InWait addr addr2) p s = res_bind (wait_resume vm p addr addr2 s) (\<lambda>_. Ret ())"
| "proc_resume vm ks (InSysSleep ticks0 n) p s = res_bind (sys_sleep_resume p ticks0 n s) (\<lambda>_. Ret ())"
| "proc_resume vm ks (InSleep lk) p s = res_bind (sleep_resume p lk s) (\<lambda>_. lock_release lk)"
| "proc_resume vm ks AtForkret p s = res_bind (forkret ks s) (\<lambda>_. Ret ())"

text \<open>
  What a running process does: a whole trap from user space, with any system call in it; a trap out
  of the kernel; and the parts of these that follow when a call slept in between: the system call
  alone, the end of \<^verbatim>\<open>usertrap\<close>, and the routines of \<^verbatim>\<open>kernel/proc.c\<close> that the file system, the log,
  the pipes and the drivers call in the rest of a call, in any order and with any arguments.
\<close>

datatype kcall =
  Usertrap "uchar list" "nat \<Rightarrow> uint" | Kerneltrap "nat \<Rightarrow> uint" | Syscall "uchar list" | TrapTail cint
  | Sleep "chan option" lock_id | Wakeup "chan option" | Setkilled | Exit cint "uchar list" | ExitFinish cint

fun kcall_run :: "vm_ops \<Rightarrow> ksyms \<Rightarrow> nat \<Rightarrow> kcall \<Rightarrow> trstate \<Rightarrow> (unit, trstate) res" where
  "kcall_run vm ks p (Usertrap junk R) s = res_bind (usertrap vm ks junk R s) (\<lambda>_. Ret ())"
| "kcall_run vm ks p (Kerneltrap R) s = kerneltrap R s"
| "kcall_run vm ks p (Syscall junk) s = syscall vm ks junk s"
| "kcall_run vm ks p (TrapTail which_dev) s = res_bind (usertrap_tail ks p which_dev s) (\<lambda>_. Ret ())"
| "kcall_run vm ks p (Sleep chan lk) s = res_bind (lock_acquire lk s) (\<lambda>_. sleep chan lk)"
| "kcall_run vm ks p (Wakeup chan) s = wakeup chan s"
| "kcall_run vm ks p Setkilled s = setkilled p s"
| "kcall_run vm ks p (Exit status msg) s = exit status msg s"
| "kcall_run vm ks p (ExitFinish status) s = exit_finish p status s"

text \<open>
  Everything else: user instructions, the hardware's part of a trap, devices, and assignments of the
  kernel outside \<^verbatim>\<open>kernel/proc.c\<close>. No such code writes \<^verbatim>\<open>p->state\<close>, \<^verbatim>\<open>c->proc\<close> or the policy.
\<close>

definition assigns :: "trstate \<Rightarrow> trstate \<Rightarrow> bool" where
  "assigns s t \<longleftrightarrow> held t = held s \<and> tp t = tp s \<and> cpu_proc t = cpu_proc s \<and> policy t = policy s \<and>
     (\<forall>i. pstate (procs t i) = pstate (procs s i))"

inductive cpu_step :: "vm_ops \<Rightarrow> ksyms \<Rightarrow> cpus \<Rightarrow> cpus \<Rightarrow> bool" for vm ks where
  scan_skip: "c < NCPU \<Longrightarrow> mode w c = Scanning \<Longrightarrow> stack w c = f # fs \<Longrightarrow>
     sched_pick (alg f) (minimum f) (idx f) (load c w) = Ret False s \<Longrightarrow>
     scan_after False f fs s = Ret gs t \<Longrightarrow>
     cpu_step vm ks w ((store c t w)\<lparr>stack := (stack w)(c := gs)\<rparr>)"
| scan_switch: "c < NCPU \<Longrightarrow> mode w c = Scanning \<Longrightarrow> stack w c = f # fs \<Longrightarrow>
     sched_pick (alg f) (minimum f) (idx f) (load c w) = Ret True s \<Longrightarrow>
     proc_resume vm ks k (idx f) s = Ret () t \<Longrightarrow>
     cpu_step vm ks w ((store c t w)\<lparr>mode := (mode w)(c := InProc (idx f))\<rparr>)"
| scan_switch_back: "c < NCPU \<Longrightarrow> mode w c = Scanning \<Longrightarrow> stack w c = f # fs \<Longrightarrow>
     sched_pick (alg f) (minimum f) (idx f) (load c w) = Ret True s \<Longrightarrow>
     proc_resume vm ks k (idx f) s = Swtch u \<Longrightarrow> scan_after True f fs u = Ret gs t \<Longrightarrow>
     cpu_step vm ks w ((store c t w)\<lparr>stack := (stack w)(c := gs)\<rparr>)"
| scan_irq: "c < NCPU \<Longrightarrow> mode w c = Scanning \<Longrightarrow> kerneltrap R (load c w) = Ret () t \<Longrightarrow>
     cpu_step vm ks w (store c t w)"
| proc_call: "c < NCPU \<Longrightarrow> mode w c = InProc p \<Longrightarrow> kcall_run vm ks p k (load c w) = Ret () t \<Longrightarrow>
     cpu_step vm ks w (store c t w)"
| proc_gives_up: "c < NCPU \<Longrightarrow> mode w c = InProc p \<Longrightarrow> stack w c = f # fs \<Longrightarrow>
     kcall_run vm ks p k (load c w) = Swtch s \<Longrightarrow> scan_after True f fs s = Ret gs t \<Longrightarrow>
     cpu_step vm ks w ((store c t w)\<lparr>stack := (stack w)(c := gs), mode := (mode w)(c := Scanning)\<rparr>)"
| other: "c < NCPU \<Longrightarrow> assigns (load c w) t \<Longrightarrow> cpu_step vm ks w (store c t w)"

text \<open>Boot: \<^verbatim>\<open>main()\<close> calls \<^verbatim>\<open>scheduler()\<close> on every CPU, and nothing runs yet.\<close>

definition cpus_boot :: "cpus \<Rightarrow> bool" where
  "cpus_boot w \<longleftrightarrow> held (shared w) = [] \<and>
     (\<forall>i < NPROC. pstate (procs (shared w) i) \<noteq> RUNNING) \<and>
     (\<forall>c < NCPU. mode w c = Scanning \<and> cpu_proc (shared w) c = None \<and>
        (\<exists>a. scheduler (shared w) = Some a \<and>
           stack w c = [\<lparr>alg = a, idx = 0, minimum = new_minimum a (procs (shared w))\<rparr>]))"

definition mode_proc :: "mode \<Rightarrow> nat option" where
  "mode_proc m = (case m of Scanning \<Rightarrow> None | InProc p \<Rightarrow> Some p)"

lemma mode_proc_simps [simp]:
  "mode_proc Scanning = None" "mode_proc (InProc p) = Some p"
  "mode_proc m = Some p \<longleftrightarrow> m = InProc p" "mode_proc m = None \<longleftrightarrow> m = Scanning"
  by (auto simp: mode_proc_def split: mode.splits)

definition cpu_inv :: "cpus \<Rightarrow> bool" where
  "cpu_inv w \<longleftrightarrow> held (shared w) = [] \<and>
     (\<forall>c < NCPU. stack w c \<noteq> [] \<and> idx (hd (stack w c)) < NPROC \<and>
        cpu_proc (shared w) c = mode_proc (mode w c) \<and>
        (\<forall>p. mode w c = InProc p \<longrightarrow> idx (hd (stack w c)) = p \<and> pstate (procs (shared w) p) = RUNNING)) \<and>
     (\<forall>c < NCPU. \<forall>d < NCPU. \<forall>p. mode w c = InProc p \<longrightarrow> mode w d = InProc p \<longrightarrow> c = d) \<and>
     (\<forall>p < NPROC. pstate (procs (shared w) p) = RUNNING \<longrightarrow> (\<exists>c < NCPU. mode w c = InProc p))"

lemma cpu_boot_inv: "cpus_boot w \<Longrightarrow> cpu_inv w"
  by (auto simp: cpus_boot_def cpu_inv_def NPROC_def)

section \<open>Preservation\<close>

lemma cpu_invD:
  assumes "cpu_inv w" and "c < NCPU"
  shows "held (shared w) = []" and "stack w c \<noteq> []" and "idx (hd (stack w c)) < NPROC"
    and "cpu_proc (shared w) c = mode_proc (mode w c)"
    and "mode w c = InProc p \<Longrightarrow> idx (hd (stack w c)) = p \<and> pstate (procs (shared w) p) = RUNNING"
    and "mode w c = InProc p \<Longrightarrow> d < NCPU \<Longrightarrow> mode w d = InProc p \<Longrightarrow> d = c"
proof -
  have local: "\<forall>c < NCPU. stack w c \<noteq> [] \<and> idx (hd (stack w c)) < NPROC \<and>
        cpu_proc (shared w) c = mode_proc (mode w c) \<and>
        (\<forall>p. mode w c = InProc p \<longrightarrow> idx (hd (stack w c)) = p \<and> pstate (procs (shared w) p) = RUNNING)"
    and uniq: "\<forall>c < NCPU. \<forall>d < NCPU. \<forall>p. mode w c = InProc p \<longrightarrow> mode w d = InProc p \<longrightarrow> c = d"
    and "held (shared w) = []"
    using assms(1) by (simp_all add: cpu_inv_def)
  then show "held (shared w) = []" by simp
  show "stack w c \<noteq> []" "idx (hd (stack w c)) < NPROC" "cpu_proc (shared w) c = mode_proc (mode w c)"
    "mode w c = InProc p \<Longrightarrow> idx (hd (stack w c)) = p \<and> pstate (procs (shared w) p) = RUNNING"
    using local assms(2) by simp_all
  show "mode w c = InProc p \<Longrightarrow> d < NCPU \<Longrightarrow> mode w d = InProc p \<Longrightarrow> d = c"
    using uniq assms(2) by metis
qed

text \<open>
  One CPU \<open>c\<close> changes its mode from \<open>mode w c\<close> to \<open>m\<close>, and the RUNNING states follow.
\<close>

lemma cpu_inv_update:
  assumes inv: "cpu_inv w" and c: "c < NCPU"
    and "held (shared v) = []" and stack: "stack v = (stack w)(c := st)" and "st \<noteq> []" "idx (hd st) < NPROC"
    and mode: "mode v = (mode w)(c := m)"
    and cpu: "cpu_proc (shared v) = (cpu_proc (shared w))(c := mode_proc m)"
    and top: "\<And>p. m = InProc p \<Longrightarrow> idx (hd st) = p"
    and fresh: "\<And>p. m = InProc p \<Longrightarrow> mode w c = InProc p \<or> pstate (procs (shared w) p) \<noteq> RUNNING"
    and run: "\<And>p. p < NPROC \<Longrightarrow> pstate (procs (shared v) p) = RUNNING \<longleftrightarrow>
        m = InProc p \<or> mode w c \<noteq> InProc p \<and> pstate (procs (shared w) p) = RUNNING"
  shows "cpu_inv v"
proof -
  note D = cpu_invD [OF inv]
  have other: "mode v d = mode w d \<and> stack v d = stack w d \<and> cpu_proc (shared v) d = cpu_proc (shared w) d"
    if "d \<noteq> c" for d using that stack mode cpu by simp
  have uniq: "d = e" if de: "d < NCPU" "e < NCPU" "mode v d = InProc p" "mode v e = InProc p" for d e p
  proof (rule ccontr)
    assume ne: "d \<noteq> e"
    have no: "x = c" if x: "x < NCPU" "mode w x = InProc p" "m = InProc p" for x
      using fresh [OF x(3)] D(5) [OF x(1,2)] D(6) [OF c _ x(1,2)] by blast
    consider "d = c" | "e = c" | "d \<noteq> c" "e \<noteq> c" by blast
    then show False
    proof cases
      case 1
      then have "m = InProc p" "mode w e = InProc p" using de mode ne by simp_all
      then show False using no de(2) 1 ne by blast
    next
      case 2
      then have "m = InProc p" "mode w d = InProc p" using de mode ne by simp_all
      then show False using no de(1) 2 ne by blast
    next
      case 3
      then have "mode w d = InProc p" "mode w e = InProc p" using de mode by simp_all
      then show False using D(6) [OF de(1) _ de(2)] ne by blast
    qed
  qed
  have local: "stack v d \<noteq> [] \<and> idx (hd (stack v d)) < NPROC \<and>
      cpu_proc (shared v) d = mode_proc (mode v d) \<and>
      (\<forall>p. mode v d = InProc p \<longrightarrow> idx (hd (stack v d)) = p \<and> pstate (procs (shared v) p) = RUNNING)"
    if d: "d < NCPU" for d
  proof (cases "d = c")
    case True
    then show ?thesis using assms(5,6) stack mode cpu top run by auto
  next
    case False
    have "pstate (procs (shared v) p) = RUNNING" if p: "mode w d = InProc p" for p
    proof -
      have "p < NPROC" "pstate (procs (shared w) p) = RUNNING"
        using D(3) [OF d] D(5) [OF d p] by auto
      moreover have "mode w c \<noteq> InProc p" using D(6) [OF d p c] False by blast
      ultimately show ?thesis using run by blast
    qed
    then show ?thesis using other [OF False] D(2-5) [OF d] by simp
  qed
  have "\<exists>d < NCPU. mode v d = InProc p" if p: "p < NPROC" "pstate (procs (shared v) p) = RUNNING" for p
  proof (cases "m = InProc p")
    case True
    then show ?thesis using c mode by auto
  next
    case False
    then have "mode w c \<noteq> InProc p" "pstate (procs (shared w) p) = RUNNING" using run p by blast+
    moreover then obtain d where "d < NCPU" "mode w d = InProc p"
      using inv p(1) unfolding cpu_inv_def by blast
    ultimately show ?thesis using other by metis
  qed
  then show ?thesis
    using assms(3) local uniq unfolding cpu_inv_def by blast
qed

lemma load_simps [simp]:
  "held (load c w) = held (shared w)" "tp (load c w) = c" "procs (load c w) = procs (shared w)"
  "cpu_proc (load c w) = cpu_proc (shared w)" "policy (load c w) = policy (shared w)"
  by (simp_all add: load_def)

lemma store_simps [simp]:
  "shared (store c s w) = s" "stack (store c s w) = stack w" "mode (store c s w) = mode w"
  by (simp_all add: store_def)

lemma core_load: "core (load c w) = (c, cpu_proc (shared w), {i. i < NPROC \<and> pstate (procs (shared w) i) = RUNNING})"
  by (simp add: core_def)

lemma kp_Ret: "kp c h m \<Longrightarrow> m = Ret a t \<Longrightarrow> core t = c \<and> held t = h"
  by simp

lemma kp_Swtch: "kp c h m \<Longrightarrow> m = Swtch t \<Longrightarrow> gave_up c t"
  by simp

text \<open>Real kernel code meets the discipline of \<open>kp\<close>, from the switch on and for every call.\<close>

lemma kcall_run_kp:
  assumes "core s = c" "held s = []" "running_proc c = Some p"
  shows "kp c [] (kcall_run vm ks p k s)"
  using assms by (cases k) (auto intro!: kp_rules)

lemma proc_resume_kp:
  assumes "core s = c" "held s = [ProcLock p]" "running_proc c = Some p"
  shows "kp c [] (proc_resume vm ks k p s)"
  using assms
  by (cases k) (auto simp: usertrap_resume_def kerneltrap_resume_def wait_resume_def sys_sleep_resume_def
      sleep_resume_def yield_resume_def forkret_def Let_def intro!: kp_rules)

lemma cpu_inv_op:
  assumes "cpu_inv w" and "c < NCPU" and "core t = core (load c w)" "held t = []"
  shows "cpu_inv (store c t w)"
proof (rule cpu_inv_update [OF assms(1,2), where st = "stack w c" and m = "mode w c"])
  note D = cpu_invD [OF assms(1,2)]
  show "held (shared (store c t w)) = []" using assms(4) by simp
  show "stack w c \<noteq> []" "idx (hd (stack w c)) < NPROC" using D by simp_all
  show "cpu_proc (shared (store c t w)) = (cpu_proc (shared w))(c := mode_proc (mode w c))"
    using assms(3) D(4) by (simp add: core_load core_def fun_upd_idem)
  show "mode w c = InProc p \<Longrightarrow> idx (hd (stack w c)) = p" for p using D(5) by blast
  fix p assume "p < NPROC"
  then show "pstate (procs (shared (store c t w)) p) = RUNNING \<longleftrightarrow>
      mode w c = InProc p \<or> mode w c \<noteq> InProc p \<and> pstate (procs (shared w) p) = RUNNING"
    using assms(3) D(5) by (auto simp: core_load core_def)
qed simp_all

lemma cpu_inv_skip:
  assumes "cpu_inv w" and c: "c < NCPU" and m: "mode w c = Scanning" and st: "stack w c = f # fs"
    and "sched_pick (alg f) (minimum f) (idx f) (load c w) = Ret False s"
    and "scan_after False f fs s = Ret gs t"
  shows "cpu_inv ((store c t w)\<lparr>stack := (stack w)(c := gs)\<rparr>)"
proof -
  note D = cpu_invD [OF assms(1) c]
  have s: "s = (load c w)\<lparr>held := [ProcLock (idx f)]\<rparr>"
    using assms(5) D(1) by (simp add: sched_pick_Ret split: if_splits)
  then obtain g hs where g: "gs = g # hs" "idx g < NPROC" "held t = []" "procs t = procs (shared w)"
    "cpu_proc t = cpu_proc (shared w)"
    using scan_after_fresh [of s f False fs] assms(6) D(4) m by auto
  show ?thesis
    by (rule cpu_inv_update [OF assms(1) c, where st = gs and m = Scanning])
       (use g m D(4) in \<open>auto simp: fun_upd_idem_iff\<close>)
qed

text \<open>The state in which the scheduler switches to the process it picked.\<close>

lemma cpu_inv_picked:
  assumes "cpu_inv w" and c: "c < NCPU" and m: "mode w c = Scanning" and st: "stack w c = f # fs"
    and "sched_pick (alg f) (minimum f) (idx f) (load c w) = Ret True s"
  shows "held s = [ProcLock (idx f)]" "idx f < NPROC" "pstate (procs (shared w) (idx f)) \<noteq> RUNNING"
    "core s = (c, (cpu_proc (shared w))(c := Some (idx f)),
       insert (idx f) {i. i < NPROC \<and> pstate (procs (shared w) i) = RUNNING})"
proof -
  note D = cpu_invD [OF assms(1) c]
  have s: "s = running (idx f) (load c w)" "pstate (procs (shared w) (idx f)) = RUNNABLE"
    using assms(5) D(1) by (auto simp: sched_pick_Ret wants_def split: if_splits)
  show "held s = [ProcLock (idx f)]" "pstate (procs (shared w) (idx f)) \<noteq> RUNNING" using s D(1) by (simp_all add: running_def)
  show i: "idx f < NPROC" using D(3) st by simp
  show "core s = (c, (cpu_proc (shared w))(c := Some (idx f)),
       insert (idx f) {i. i < NPROC \<and> pstate (procs (shared w) i) = RUNNING})"
    using s(1) i by (auto simp: running_def core_def)
qed

lemma cpu_inv_switch:
  assumes "cpu_inv w" and c: "c < NCPU" and m: "mode w c = Scanning" and st: "stack w c = f # fs"
    and "sched_pick (alg f) (minimum f) (idx f) (load c w) = Ret True s"
    and "proc_resume vm ks k (idx f) s = Ret () t"
  shows "cpu_inv ((store c t w)\<lparr>mode := (mode w)(c := InProc (idx f))\<rparr>)"
proof -
  note P = cpu_inv_picked [OF assms(1-5)]
  have "running_proc (core s) = Some (idx f)" by (simp add: P(4) running_proc_def)
  then have t: "core t = core s" "held t = []"
    using kp_Ret [OF proc_resume_kp [OF refl P(1)] assms(6)] by simp_all
  have "{i. i < NPROC \<and> pstate (procs t i) = RUNNING} = insert (idx f) {i. i < NPROC \<and> pstate (procs (shared w) i) = RUNNING}"
    and cp: "cpu_proc t = (cpu_proc (shared w))(c := Some (idx f))"
    using t(1) P(4) by (simp_all add: core_def)
  then have "i < NPROC \<Longrightarrow> pstate (procs t i) = RUNNING \<longleftrightarrow> i = idx f \<or> pstate (procs (shared w) i) = RUNNING" for i
    by blast
  then show ?thesis
    by (intro cpu_inv_update [OF assms(1) c, where st = "stack w c" and m = "InProc (idx f)"])
       (use t cp st m P(2,3) in auto)
qed

text \<open>A process that ran on CPU \<open>c\<close>, or was just switched to, has given it up.\<close>

lemma cpu_inv_idle:
  assumes "cpu_inv w" and c: "c < NCPU"
    and s: "held s = [ProcLock (idx f)]" "tp s = c" "\<And>d. d \<noteq> c \<Longrightarrow> cpu_proc s d = cpu_proc (shared w) d"
    and run: "\<And>q. q < NPROC \<Longrightarrow> pstate (procs s q) = RUNNING \<longleftrightarrow>
        mode w c \<noteq> InProc q \<and> pstate (procs (shared w) q) = RUNNING"
    and "scan_after True f fs s = Ret gs t"
  shows "cpu_inv ((store c t w)\<lparr>stack := (stack w)(c := gs), mode := (mode w)(c := Scanning)\<rparr>)"
proof -
  obtain g hs where g: "gs = g # hs" "idx g < NPROC" "held t = []" "procs t = procs s"
    "cpu_proc t = (cpu_proc s)(tp s := None)"
    using scan_after_fresh [of s f True fs] assms(7) s(1) by auto
  have "cpu_proc t = (cpu_proc (shared w))(c := None)" using g(5) s(2,3) by auto
  then show ?thesis
    by (intro cpu_inv_update [OF assms(1) c, where st = gs and m = Scanning]) (use g run in auto)
qed

lemma cpu_inv_switch_back:
  assumes "cpu_inv w" and c: "c < NCPU" and m: "mode w c = Scanning" and st: "stack w c = f # fs"
    and "sched_pick (alg f) (minimum f) (idx f) (load c w) = Ret True s"
    and "proc_resume vm ks k (idx f) s = Swtch u" and "scan_after True f fs u = Ret gs t"
  shows "cpu_inv ((store c t w)\<lparr>stack := (stack w)(c := gs)\<rparr>)"
proof -
  note P = cpu_inv_picked [OF assms(1-5)]
  have "running_proc (core s) = Some (idx f)" by (simp add: P(4) running_proc_def)
  then have "gave_up (core s) u" by (rule kp_Swtch [OF proc_resume_kp [OF refl P(1)] assms(6)])
  then have u: "held u = [ProcLock (idx f)]"
    "core u = (c, (cpu_proc (shared w))(c := Some (idx f)), {i. i < NPROC \<and> pstate (procs (shared w) i) = RUNNING} - {idx f})"
    using P(4) by (auto simp: gave_up_def)
  then have "{i. i < NPROC \<and> pstate (procs u i) = RUNNING} = {i. i < NPROC \<and> pstate (procs (shared w) i) = RUNNING}"
    and tc: "tp u = c" "cpu_proc u = (cpu_proc (shared w))(c := Some (idx f))"
    using P(3) by (auto simp: core_def)
  then have "pstate (procs u q) = RUNNING \<longleftrightarrow> mode w c \<noteq> InProc q \<and> pstate (procs (shared w) q) = RUNNING"
    if "q < NPROC" for q using that m by auto
  from cpu_inv_idle [OF assms(1) c u(1) tc(1) _ this assms(7)] tc(2)
  have "cpu_inv ((store c t w)\<lparr>stack := (stack w)(c := gs), mode := (mode w)(c := Scanning)\<rparr>)" by simp
  moreover have "(mode w)(c := Scanning) = mode w" using m by (simp add: fun_upd_idem)
  ultimately show ?thesis by (simp add: store_def)
qed

lemma running_load: "cpu_inv w \<Longrightarrow> c < NCPU \<Longrightarrow> running_proc (core (load c w)) = mode_proc (mode w c)"
  using cpu_invD(4) [of w c] by (simp add: core_load running_proc_def)

lemma cpu_inv_gives_up:
  assumes "cpu_inv w" and c: "c < NCPU" and m: "mode w c = InProc p" and st: "stack w c = f # fs"
    and k: "kcall_run vm ks p k (load c w) = Swtch s" and "scan_after True f fs s = Ret gs t"
  shows "cpu_inv ((store c t w)\<lparr>stack := (stack w)(c := gs), mode := (mode w)(c := Scanning)\<rparr>)"
proof -
  note D = cpu_invD [OF assms(1) c]
  have p: "idx f = p" using D(5) [OF m] st by simp
  have "gave_up (core (load c w)) s"
    by (rule kp_Swtch [OF kcall_run_kp k]) (use D(1) m running_load [OF assms(1) c] in simp_all)
  then have s: "held s = [ProcLock p]"
    "core s = (c, cpu_proc (shared w), {i. i < NPROC \<and> pstate (procs (shared w) i) = RUNNING} - {p})"
    using D(4) m by (auto simp: gave_up_def core_load)
  then have "pstate (procs s q) = RUNNING \<longleftrightarrow> mode w c \<noteq> InProc q \<and> pstate (procs (shared w) q) = RUNNING"
    if "q < NPROC" for q using that m by (auto simp: core_def set_eq_iff)
  moreover have "tp s = c" "cpu_proc s = cpu_proc (shared w)" using s(2) by (simp_all add: core_def)
  ultimately show ?thesis using s(1) p by (intro cpu_inv_idle [OF assms(1) c _ _ _ _ assms(6)]) simp_all
qed

lemma cpu_inv_call:
  assumes "cpu_inv w" "c < NCPU" "mode w c = InProc p" "kcall_run vm ks p k (load c w) = Ret () t"
  shows "cpu_inv (store c t w)"
  using kp_Ret [OF kcall_run_kp assms(4)] cpu_invD(1) [OF assms(1,2)] assms(3) running_load [OF assms(1,2)]
  by (intro cpu_inv_op [OF assms(1,2)]) simp_all

lemma cpu_inv_irq:
  assumes "cpu_inv w" "c < NCPU" "kerneltrap R (load c w) = Ret () t"
  shows "cpu_inv (store c t w)"
  using kp_Ret [OF kp_kerneltrap assms(3)] cpu_invD(1) [OF assms(1,2)]
  by (intro cpu_inv_op [OF assms(1,2)]) simp_all

lemma cpu_inv_assigns:
  assumes "cpu_inv w" "c < NCPU" "assigns (load c w) t"
  shows "cpu_inv (store c t w)"
  using assms(3) cpu_invD(1) [OF assms(1,2)]
  by (intro cpu_inv_op [OF assms(1,2)]) (simp_all add: assigns_def core_def)

lemma cpu_step_inv: "cpu_step vm ks w v \<Longrightarrow> cpu_inv w \<Longrightarrow> cpu_inv v"
  by (induction rule: cpu_step.induct)
     (blast intro: cpu_inv_skip cpu_inv_switch cpu_inv_switch_back cpu_inv_irq cpu_inv_call cpu_inv_gives_up
        cpu_inv_assigns)+

lemma cpu_steps_inv: "(cpu_step vm ks)\<^sup>*\<^sup>* w v \<Longrightarrow> cpu_inv w \<Longrightarrow> cpu_inv v"
  by (induction rule: rtranclp_induct) (auto intro: cpu_step_inv)

lemma scan_irq_returns:
  assumes "cpu_inv w" "c < NCPU" "mode w c = Scanning"
  shows "kerneltrap R (load c w) \<noteq> Swtch t"
proof
  assume "kerneltrap R (load c w) = Swtch t"
  then have "gave_up (core (load c w)) t" by (rule kp_Swtch [OF kp_kerneltrap [OF refl refl]])
  then show False using running_load [OF assms(1,2)] assms(3) by (auto simp: gave_up_def running_proc_def)
qed

text \<open>
  C1. In every state the CPUs can reach from the boot, whatever traps the processes take, whatever
  system calls they make, under any policy and any sequence of policy changes, no process runs on
  two CPUs, and a process is in state RUNNING exactly when some CPU's \<^verbatim>\<open>c->proc\<close> points to it.
\<close>

theorem running_exclusive:
  assumes "cpus_boot w" and "(cpu_step vm ks)\<^sup>*\<^sup>* w v"
  shows "(\<forall>c < NCPU. \<forall>d < NCPU. \<forall>p. cpu_proc (shared v) c = Some p \<longrightarrow> cpu_proc (shared v) d = Some p \<longrightarrow> c = d) \<and>
     (\<forall>p < NPROC. pstate (procs (shared v) p) = RUNNING \<longleftrightarrow> (\<exists>c < NCPU. cpu_proc (shared v) c = Some p))"
proof -
  have inv: "cpu_inv v" using cpu_steps_inv [OF assms(2) cpu_boot_inv [OF assms(1)]] .
  note D = cpu_invD [OF inv]
  have "c = d" if "c < NCPU" "d < NCPU" "cpu_proc (shared v) c = Some p" "cpu_proc (shared v) d = Some p" for c d p
    using D(4,6) that by (metis mode_proc_simps(3))
  moreover have "pstate (procs (shared v) p) = RUNNING"
    if "c < NCPU" "cpu_proc (shared v) c = Some p" for c p
    using D(4) [of c] D(5) [of c p] that by (metis mode_proc_simps(3))
  moreover have "\<exists>c < NCPU. cpu_proc (shared v) c = Some p"
    if p: "p < NPROC" "pstate (procs (shared v) p) = RUNNING" for p
  proof -
    obtain c where "c < NCPU" "mode v c = InProc p" using inv p unfolding cpu_inv_def by blast
    then show ?thesis using D(4) [of c] by auto
  qed
  ultimately show ?thesis by blast
qed

definition blank_ksyms :: ksyms where
  "blank_ksyms = \<lparr>sym_trampoline = 0, sym_forkret = 0, sym_usertrap = 0, sym_uservec = 0, sym_userret = 0, sym_kernelvec = 0\<rparr>"

definition blank_trstate :: trstate where
  "blank_trstate = vdstate.extend (flstate.extend blank_flstate \<lparr>vd = blank_vdisk\<rparr>)
     \<lparr>c_sstatus = 0, c_sepc = 0, c_scause = 0, c_stval = 0, c_stvec = 0, c_sip = 0, c_satp = 0, plic_claims = [], plic_writes = [],
      first_ret = False\<rparr>"

definition boot_cpus :: cpus where
  "boot_cpus = \<lparr>shared = blank_trstate\<lparr>procs := (\<lambda>_. blank_proc)(0 := blank_proc\<lparr>pstate := RUNNABLE\<rparr>),
       cpu_proc := (\<lambda>_. None), policy := 0, held := []\<rparr>,
     hien = (\<lambda>_. True), stack = (\<lambda>_. [\<lparr>alg = SchedOld, idx = 0, minimum = 0\<rparr>]), mode = (\<lambda>_. Scanning)\<rparr>"

lemma boot_cpus_boot: "cpus_boot boot_cpus"
  by (simp add: cpus_boot_def boot_cpus_def blank_proc_def scheduler_def new_minimum_def)

lemma forkret_later:
  assumes "myproc s = Some p" "held s = [ProcLock p]" "\<not> first_ret s"
  shows "\<exists>r t. forkret ks s = Ret r t"
  using assms by (simp add: forkret_def usertrapret_def with_proc_def myproc_def cpuid_def lock_simps Let_def)

lemma boot_cpus_runs:
  "\<exists>v. cpu_step vm ks boot_cpus v \<and> mode v 3 = InProc 0"
proof -
  let ?s = "running 0 (load 3 boot_cpus)"
  have "sched_pick SchedOld 0 0 (load 3 boot_cpus) = Ret True ?s"
    by (subst sched_pick_Ret) (simp_all add: boot_cpus_def wants_def load_def)
  moreover have "\<exists>r t. forkret ks ?s = Ret r t"
    by (rule forkret_later [of _ 0])
       (simp_all add: running_def boot_cpus_def load_def myproc_def cpuid_def blank_trstate_def vdstate.defs)
  then obtain t where "proc_resume vm ks AtForkret 0 ?s = Ret () t" by auto
  ultimately have "cpu_step vm ks boot_cpus ((store 3 t boot_cpus)\<lparr>mode := (mode boot_cpus)(3 := InProc 0)\<rparr>)"
    using scan_switch [of 3 boot_cpus "\<lparr>alg = SchedOld, idx = 0, minimum = 0\<rparr>" "[]" ?s vm ks AtForkret t]
    by (simp add: boot_cpus_def NCPU_def)
  then show ?thesis by (intro exI conjI) auto
qed

theorem running_exclusive_witness:
  "\<exists>v. (cpu_step flat_vm blank_ksyms)\<^sup>*\<^sup>* boot_cpus v \<and> cpu_proc (shared v) 3 = Some 0 \<and>
     cpu_proc (shared v) 5 \<noteq> Some 0 \<and> pstate (procs (shared v) 0) = RUNNING"
proof -
  obtain v where v: "(cpu_step flat_vm blank_ksyms)\<^sup>*\<^sup>* boot_cpus v" "mode v 3 = InProc 0"
    using boot_cpus_runs by blast
  have n: "3 < NCPU" "5 < NCPU" "0 < NPROC" by (simp_all add: NCPU_def NPROC_def)
  have 3: "cpu_proc (shared v) 3 = Some 0"
    using cpu_invD(4) [OF cpu_steps_inv [OF v(1) cpu_boot_inv [OF boot_cpus_boot]] n(1)] v(2) by simp
  have "cpu_proc (shared v) 5 \<noteq> Some 0"
  proof
    assume "cpu_proc (shared v) 5 = Some 0"
    then have "(3 :: nat) = 5" using running_exclusive [OF boot_cpus_boot v(1)] 3 n by blast
    then show False by simp
  qed
  moreover have "pstate (procs (shared v) 0) = RUNNING"
    using running_exclusive [OF boot_cpus_boot v(1)] 3 n by blast
  ultimately show ?thesis using v(1) 3 by blast
qed

section \<open>Policy changes pile up scheduler activations\<close>

lemma two_words: "\<exists>m. load64 m a = v \<and> load64 m (a + 56) = w"
proof -
  define m :: memory where
    "m = (\<lambda>x. if unat (x - a) < 8 then le_bytes 8 v ! unat (x - a) else le_bytes 8 w ! unat (x - (a + 56)))"
  have i: "unat (of_nat i :: uint64) = i" if "i < 8" for i using that by (simp add: unat_of_nat take_bit_eq_mod)
  have "load_bytes m a 8 = le_bytes 8 v"
    by (rule nth_equalityI) (auto simp: load_bytes_def m_def i)
  moreover have "load_bytes m (a + 56) 8 = le_bytes 8 w"
  proof (rule nth_equalityI)
    fix j assume "j < length (load_bytes m (a + 56) 8)"
    then have j: "j < 8" by simp
    have "unat (56 + of_nat j :: uint64) = 56 + j" using j by (simp add: unat_word_ariths i)
    moreover have "a + 56 + of_nat j - a = 56 + of_nat j" by simp
    ultimately show "load_bytes m (a + 56) 8 ! j = le_bytes 8 w ! j" using j by (simp add: load_bytes_def m_def i)
  qed simp
  ultimately show ?thesis by (intro exI [of _ m]) (simp add: load64_def le_word_le_bytes)
qed

text \<open>A process puts the number of \<^verbatim>\<open>set_policy\<close> and its argument into its registers and traps.\<close>

lemma sets_policy:
  assumes "cpu_inv w" and d: "d < NCPU" "mode w d = InProc p" and n: "n = 0 \<or> n = 1 \<or> n = (2 :: cint)"
  shows "\<exists>v. (cpu_step vm ks)\<^sup>*\<^sup>* w v \<and> cpu_inv v \<and> mode v = mode w \<and> stack v = stack w \<and>
     procs (shared v) = procs (shared w) \<and> policy (shared v) = n"
proof -
  let ?tf = "trapframe (procs (shared w) p)"
  obtain m where m: "load64 m (?tf + 112) = scast n" "load64 m (?tf + 112 + 56) = 26" using two_words by blast
  let ?s = "(load d w)\<lparr>phys := (phys (shared w))\<lparr>pmem := m\<rparr>\<rparr>"
  let ?u = "store d ?s w"
  have s1: "cpu_step vm ks w ?u" by (rule other) (simp_all add: d assigns_def)
  note inv = cpu_step_inv [OF s1 assms(1)]
  have my: "cpu_proc (shared w) d = Some p" using cpu_invD(4) [OF assms(1) d(1)] d(2) by simp
  let ?l = "load d ?u"
  have proc: "with_proc F ?l = F p ?l" for F :: "nat \<Rightarrow> trstate \<Rightarrow> ('b, trstate) res"
    using my by (simp add: with_proc_def myproc_def cpuid_def)
  have "tf_get p (tf_a 7) ?l = 26" "tf_get p (tf_a 0) ?l = scast n"
    using m by (simp_all add: tf_get_def tf_a_def load_def store_def add.assoc)
  moreover have "syscalls vm ks [] 26 = (Some sys_set_policy :: (trstate \<Rightarrow> _) option)" by (simp add: syscalls_def)
  moreover have "ucast (scast n :: uint64) = n" using n by auto
  ultimately have "syscall vm ks [] ?l = Ret () (tf_put p (tf_a 0) 0 (?l\<lparr>policy := n\<rparr>))"
    using n by (auto simp: syscall_def proc sys_set_policy_def argint_def argraw_def set_policy_def)
  then obtain t where t: "syscall vm ks [] ?l = Ret () t" "procs t = procs (shared w)" "policy t = n"
    by (simp add: tf_put_def)
  have s2: "cpu_step vm ks ?u (store d t ?u)"
    by (rule proc_call [where k = "Syscall []"]) (use d t in simp_all)
  have "(cpu_step vm ks)\<^sup>*\<^sup>* w (store d t ?u)" using s1 s2 by (meson converse_rtranclp_into_rtranclp r_into_rtranclp)
  then show ?thesis using cpu_step_inv [OF s2 inv] t by (intro exI [of _ "store d t ?u"]) simp
qed

lemma policy_change_grows:
  assumes inv: "cpu_inv w" and c: "c < NCPU" "mode w c = Scanning" and d: "d < NCPU" "mode w d = InProc p"
    and none: "\<forall>i < NPROC. pstate (procs (shared w) i) \<noteq> RUNNABLE"
  shows "\<exists>v. (cpu_step vm ks)\<^sup>*\<^sup>* w v \<and> cpu_inv v \<and> mode v = mode w \<and> procs (shared v) = procs (shared w) \<and>
     length (stack v c) = Suc (length (stack w c))"
proof -
  obtain f fs where st: "stack w c = f # fs" using cpu_invD(2) [OF inv c(1)] by (cases "stack w c") auto
  define n :: cint where "n = (if alg f = SchedOld then 1 else 0)"
  have n01: "n = 0 \<or> n = 1 \<or> n = 2" by (simp add: n_def)
  have n: "next_call (alg f) n \<noteq> None" by (cases "alg f") (simp_all add: next_call_def n_def)
  obtain v where v: "(cpu_step vm ks)\<^sup>*\<^sup>* w v" "cpu_inv v" "mode v = mode w" "stack v = stack w"
    "procs (shared v) = procs (shared w)" "policy (shared v) = n"
    using sets_policy [OF inv d, of n vm ks] n01 by blast
  let ?s = "(load c v)\<lparr>held := [ProcLock (idx f)]\<rparr>"
  have h: "held (load c v) = []" using cpu_invD(1) [OF v(2) c(1)] by simp
  have "idx f < NPROC" using cpu_invD(3) [OF inv c(1)] st by simp
  then have "\<not> wants (alg f) (minimum f) (procs (load c v) (idx f))" using none v(5) by (simp add: wants_def)
  then have pick: "sched_pick (alg f) (minimum f) (idx f) (load c v) = Ret False ?s"
    using h by (simp add: sched_pick_Ret)
  obtain g gs t where t: "scan_after False f fs ?s = Ret (g # gs) t" "procs t = procs (shared w)"
    "length (g # gs) = Suc (Suc (length fs))"
    using scan_after_fresh [of ?s f False fs] n v(5,6) by auto
  let ?u = "(store c t v)\<lparr>stack := (stack v)(c := g # gs)\<rparr>"
  have step: "cpu_step vm ks v ?u" by (rule scan_skip) (use c st v pick t in simp_all)
  have "cpu_inv ?u" using cpu_step_inv [OF step v(2)] .
  moreover have "(cpu_step vm ks)\<^sup>*\<^sup>* w ?u" using v(1) step by (rule rtranclp.rtrancl_into_rtrancl)
  ultimately show ?thesis using t st v by (intro exI [of _ ?u]) simp
qed

text \<open>
  C21. The schedulers call each other and never return, so policy changes pile up activations: on
  an idle CPU, while a process on another CPU keeps changing the policy, the scheduler's call
  stack exceeds every bound (the stack page behind it does not).
\<close>

theorem scheduler_stack_unbounded:
  assumes "cpu_inv w" and "c < NCPU" and "mode w c = Scanning" and "d < NCPU" and "mode w d = InProc p"
    and "\<forall>i < NPROC. pstate (procs (shared w) i) \<noteq> RUNNABLE"
  shows "\<exists>v. (cpu_step vm ks)\<^sup>*\<^sup>* w v \<and> n \<le> length (stack v c)"
proof -
  have "\<exists>v. (cpu_step vm ks)\<^sup>*\<^sup>* w v \<and> cpu_inv v \<and> mode v = mode w \<and> procs (shared v) = procs (shared w) \<and>
     n \<le> length (stack v c)"
  proof (induction n)
    case 0
    then show ?case using assms(1) by blast
  next
    case (Suc n)
    then obtain v where v: "(cpu_step vm ks)\<^sup>*\<^sup>* w v" "cpu_inv v" "mode v = mode w" "procs (shared v) = procs (shared w)"
      "n \<le> length (stack v c)" by blast
    with policy_change_grows [of v c d p vm ks] assms obtain u where
      u: "(cpu_step vm ks)\<^sup>*\<^sup>* v u" "cpu_inv u" "mode u = mode v" "procs (shared u) = procs (shared v)"
      "length (stack u c) = Suc (length (stack v c))" by auto
    then show ?case using v by (intro exI [of _ u]) auto
  qed
  then show ?thesis by blast
qed

definition busy_cpus :: cpus where
  "busy_cpus = boot_cpus\<lparr>shared := (shared boot_cpus)\<lparr>procs := (\<lambda>_. blank_proc)(0 := blank_proc\<lparr>pstate := RUNNING\<rparr>),
       cpu_proc := (\<lambda>_. None)(1 := Some 0)\<rparr>, mode := (\<lambda>_. Scanning)(1 := InProc 0)\<rparr>"

theorem scheduler_stack_unbounded_witness:
  "\<exists>v. (cpu_step flat_vm blank_ksyms)\<^sup>*\<^sup>* busy_cpus v \<and> 1000000 \<le> length (stack v 0)"
proof (rule scheduler_stack_unbounded [of _ 0 1 0])
  show "cpu_inv busy_cpus"
    by (auto simp: cpu_inv_def busy_cpus_def boot_cpus_def blank_proc_def NPROC_def NCPU_def
        split: if_splits)
qed (simp_all add: busy_cpus_def boot_cpus_def blank_proc_def NPROC_def NCPU_def)

end
