(* ===== verification/Log_Disk.thy ===== *)
theory Log_Disk
  imports Log
begin

text \<open>
  What the log of \<^verbatim>\<open>kernel/log.c\<close> means on the disk: the sequence of block writes a commit makes,
  the disk a crash leaves when only a prefix of them has happened, and what recovery turns it
  into. The routines are shown to perform exactly these writes in the theory \<open>Log_Crash\<close>.
\<close>

section \<open>Header image\<close>

definition head_image :: "block \<Rightarrow> uint list \<Rightarrow> block" where
  "head_image d bs = fold (\<lambda>i d. put32 d (4 + 4 * i) (bs ! i)) [0..<length bs] (put32 d 0 (of_nat (length bs)))"

definition head_part :: "block \<Rightarrow> uint list \<Rightarrow> nat \<Rightarrow> block" where
  "head_part d bs k = fold (\<lambda>i d. put32 d (4 + 4 * i) (bs ! i)) [0..<k] (put32 d 0 (of_nat (length bs)))"

lemma head_part_simps:
  "head_part d bs 0 = put32 d 0 (of_nat (length bs))"
  "head_part d bs (Suc k) = put32 (head_part d bs k) (4 + 4 * k) (bs ! k)"
  "head_image d bs = head_part d bs (length bs)"
  by (simp_all add: head_part_def head_image_def)

lemma head_part_fields:
  assumes "length d = BSIZE" and "k \<le> LOGSIZE"
  shows "length (head_part d bs k) = BSIZE \<and> get32 (head_part d bs k) 0 = of_nat (length bs) \<and>
    (\<forall>i < k. get32 (head_part d bs k) (4 + 4 * i) = bs ! i)"
  using assms(2)
proof (induction k)
  case 0
  then show ?case using assms(1) by (simp add: head_part_simps BSIZE_def enc_simps)
next
  case (Suc k)
  then have IH: "length (head_part d bs k) = BSIZE" "get32 (head_part d bs k) 0 = of_nat (length bs)"
    "\<forall>i < k. get32 (head_part d bs k) (4 + 4 * i) = bs ! i" by simp_all
  have k: "4 + 4 * k + 4 \<le> BSIZE" using Suc.prems by (simp add: BSIZE_def LOGSIZE_def MAXOPBLOCKS_def)
  have "get32 (head_part d bs (Suc k)) (4 + 4 * i) = bs ! i" if "i < Suc k" for i
    using that IH k by (cases "i = k") (simp_all add: head_part_simps get_put_other enc_simps)
  then show ?case using IH k by (simp add: head_part_simps get_put_other enc_simps)
qed

lemma head_image_fields:
  assumes "length d = BSIZE" and "length bs \<le> LOGSIZE"
  shows "length (head_image d bs) = BSIZE" and "head_n (head_image d bs) = int (length bs)"
    and "i < length bs \<Longrightarrow> head_block (head_image d bs) i = bs ! i"
proof -
  note f = head_part_fields [OF assms, of bs, folded head_part_simps(3)]
  then show "length (head_image d bs) = BSIZE" by simp
  have "length bs < 2 ^ 31" using assms(2) by (simp add: LOGSIZE_def MAXOPBLOCKS_def)
  then have "sint (of_nat (length bs) :: uint) = int (length bs)"
    by (simp add: sint_uint unsigned_of_nat signed_take_bit_int_eq_self take_bit_nat_eq_self)
  then show "head_n (head_image d bs) = int (length bs)" using f by (simp add: head_n_def)
  show "i < length bs \<Longrightarrow> head_block (head_image d bs) i = bs ! i" using f by (simp add: head_block_def)
qed

section \<open>Writes of a commit\<close>

definition apply_writes :: "(uint \<times> block) list \<Rightarrow> (uint \<Rightarrow> block) \<Rightarrow> uint \<Rightarrow> block" where
  "apply_writes ws D = fold (\<lambda>(b, d) D. D(b := d)) ws D"

lemma apply_writes_simps [simp]:
  "apply_writes [] D = D"
  "apply_writes ((b, d) # ws) D = apply_writes ws (D(b := d))"
  "apply_writes (ws @ vs) D = apply_writes vs (apply_writes ws D)"
  by (simp_all add: apply_writes_def)

definition log_slot_no :: "uint \<Rightarrow> nat \<Rightarrow> uint" where
  "log_slot_no start i = start + of_nat i + 1"

text \<open>
  The log takes the \<open>nl\<close> blocks from \<open>start\<close> on, where \<open>nl\<close> is the field \<^verbatim>\<open>nlog\<close> of the super block: the
  header and \<open>nl - 1\<close> slots. With the layout of \<^verbatim>\<open>mkfs\<close> these are the blocks 2 to 31, and block 32 is the
  first block of inodes.
\<close>

definition log_area :: "uint \<Rightarrow> nat \<Rightarrow> uint set" where
  "log_area start nl = insert start (log_slot_no start ` {..<nl - 1})"

definition log_writes :: "uint \<Rightarrow> (uint \<Rightarrow> block) \<Rightarrow> uint list \<Rightarrow> (uint \<times> block) list" where
  "log_writes start V bs = map (\<lambda>i. (log_slot_no start i, V (bs ! i))) [0..<length bs]"

definition home_writes :: "(uint \<Rightarrow> block) \<Rightarrow> uint list \<Rightarrow> (uint \<times> block) list" where
  "home_writes V bs = map (\<lambda>b. (b, V b)) bs"

definition commit_writes :: "uint \<Rightarrow> block \<Rightarrow> (uint \<Rightarrow> block) \<Rightarrow> uint list \<Rightarrow> (uint \<times> block) list" where
  "commit_writes start h V bs =
     (if bs = [] then []
      else log_writes start V bs @ (start, head_image h bs) # home_writes V bs @
        [(start, head_image (head_image h bs) [])])"

lemma apply_writes_other:
  "b \<notin> fst ` set ws \<Longrightarrow> apply_writes ws D b = D b"
proof (induction ws arbitrary: D)
  case (Cons w ws)
  then show ?case by (cases w) simp
qed simp

lemma apply_writes_home: "apply_writes (home_writes V bs) D b = (if b \<in> set bs then V b else D b)"
  by (induction bs arbitrary: D) (auto simp: home_writes_def)

lemma log_slot_no_inj:
  assumes "log_slot_no start i = log_slot_no start j" and "i < 2 ^ 32" and "j < 2 ^ 32"
  shows "i = j"
proof -
  have "(of_nat i :: uint) = of_nat j" using assms(1) by (simp add: log_slot_no_def)
  then have "unat (of_nat i :: uint) = unat (of_nat j :: uint)" by simp
  then show ?thesis using assms(2,3) by (simp add: unsigned_of_nat take_bit_nat_eq_self)
qed

lemma log_slot_not_start: "i < 2 ^ 32 - 1 \<Longrightarrow> log_slot_no start i \<noteq> start"
proof
  assume "i < 2 ^ 32 - 1" "log_slot_no start i = start"
  then have "(of_nat (Suc i) :: uint) = 0" by (simp add: log_slot_no_def add.commute add.left_commute)
  then have "2 ^ 32 dvd Suc i" by (simp only: word_of_nat_eq_0_iff) simp
  then show False using \<open>i < 2 ^ 32 - 1\<close> by (auto dest: dvd_imp_le)
qed

lemma apply_log_writes:
  assumes "length bs \<le> LOGSIZE" and "k \<le> length bs" and "i < k"
  shows "apply_writes (take k (log_writes start V bs)) D (log_slot_no start i) = V (bs ! i)"
  using assms(2,3)
proof (induction k)
  case (Suc k)
  have eq: "take (Suc k) (log_writes start V bs) = take k (log_writes start V bs) @ [(log_slot_no start k, V (bs ! k))]"
    using Suc.prems(1) by (simp add: take_Suc_conv_app_nth log_writes_def)
  show ?case
  proof (cases "i = k")
    case True
    then show ?thesis by (simp add: eq)
  next
    case False
    then have "log_slot_no start i \<noteq> log_slot_no start k"
      using log_slot_no_inj [of start i k] Suc.prems assms(1) by (auto simp: LOGSIZE_def MAXOPBLOCKS_def)
    then show ?thesis using Suc False by (simp add: eq)
  qed
qed simp

section \<open>Recovery\<close>

definition recovery_writes :: "uint \<Rightarrow> (uint \<Rightarrow> block) \<Rightarrow> (uint \<times> block) list" where
  "recovery_writes start D =
     map (\<lambda>i. (head_block (D start) i, D (log_slot_no start i))) [0..<nat (head_n (D start))] @
     [(start, head_image (D start) [])]"

definition recovered :: "uint \<Rightarrow> (uint \<Rightarrow> block) \<Rightarrow> uint \<Rightarrow> block" where
  "recovered start D = apply_writes (recovery_writes start D) D"

text \<open>What the disk of a log of the given length must look like for recovery to be well defined.\<close>

definition log_ok :: "uint \<Rightarrow> nat \<Rightarrow> (uint \<Rightarrow> block) \<Rightarrow> bool" where
  "log_ok start nl D \<longleftrightarrow> length (D start) = BSIZE \<and> head_n (D start) \<le> int LOGSIZE \<and> head_n (D start) \<le> int (nl - 1) \<and>
     (\<forall>i < nat (head_n (D start)). head_block (D start) i \<notin> log_area start nl)"

text \<open>\<open>same_files\<close>: two disks agree outside the log.\<close>

definition same_files :: "uint \<Rightarrow> nat \<Rightarrow> (uint \<Rightarrow> block) \<Rightarrow> (uint \<Rightarrow> block) \<Rightarrow> bool" where
  "same_files start nl D E \<longleftrightarrow> (\<forall>b. b \<notin> log_area start nl \<longrightarrow> D b = E b)"

lemma log_area_simps [simp]:
  "start \<in> log_area start nl" "i < nl - 1 \<Longrightarrow> log_slot_no start i \<in> log_area start nl"
  by (auto simp: log_area_def)

lemma same_files_trans: "same_files a nl D E \<Longrightarrow> same_files a nl E F \<Longrightarrow> same_files a nl D F"
  by (simp add: same_files_def)

lemma recovered_empty:
  assumes "head_n (D start) \<le> 0"
  shows "recovered start D = D(start := head_image (D start) [])"
  using assms by (simp add: recovered_def recovery_writes_def)

lemma recovered_committed:
  assumes n: "head_n (D start) = int (length bs)" and hb: "\<And>i. i < length bs \<Longrightarrow> head_block (D start) i = bs ! i"
    and sl: "\<And>i. i < length bs \<Longrightarrow> D (log_slot_no start i) = V (bs ! i)" and b: "b \<noteq> start"
  shows "recovered start D b = (if b \<in> set bs then V b else D b)"
proof -
  have "map (\<lambda>i. (head_block (D start) i, D (log_slot_no start i))) [0..<length bs] = home_writes V bs"
    by (rule nth_equalityI) (simp_all add: home_writes_def hb sl)
  then have "recovered start D = (apply_writes (home_writes V bs) D)(start := head_image (D start) [])"
    by (simp add: recovered_def recovery_writes_def n)
  then show ?thesis using b by (simp add: apply_writes_home)
qed

lemma log_writes_fst: "fst ` set (take k (log_writes start V bs)) \<subseteq> log_slot_no start ` {..<length bs}"
  by (auto simp: log_writes_def dest!: in_set_takeD)

lemma home_writes_fst: "fst ` set (take k (home_writes V bs)) \<subseteq> set bs"
  by (auto simp: home_writes_def dest!: in_set_takeD)

lemma take_home_writes: "take k (home_writes V bs) = home_writes V (take k bs)"
  by (simp add: home_writes_def take_map)

text \<open>The disk after a prefix of a commit, in the three phases: before, after and long after the header.\<close>

definition committing :: "uint \<Rightarrow> nat \<Rightarrow> (uint \<Rightarrow> block) \<Rightarrow> (uint \<Rightarrow> block) \<Rightarrow> uint list \<Rightarrow> bool" where
  "committing start nl D V bs \<longleftrightarrow> length (D start) = BSIZE \<and> head_n (D start) \<le> 0 \<and> length bs \<le> LOGSIZE \<and> length bs \<le> nl - 1 \<and>
     set bs \<inter> log_area start nl = {} \<and> (\<forall>b. b \<notin> set bs \<longrightarrow> b \<notin> log_area start nl \<longrightarrow> V b = D b)"

lemma committingD:
  assumes "committing start nl D V bs"
  shows "length (D start) = BSIZE" "head_n (D start) \<le> 0" "length bs \<le> LOGSIZE" "set bs \<inter> log_area start nl = {}"
    "b \<notin> set bs \<Longrightarrow> b \<notin> log_area start nl \<Longrightarrow> V b = D b" "length bs < 2 ^ 32 - 1" "length bs \<le> nl - 1"
  using assms by (simp_all add: committing_def LOGSIZE_def MAXOPBLOCKS_def)

definition logged :: "uint \<Rightarrow> (uint \<Rightarrow> block) \<Rightarrow> (uint \<Rightarrow> block) \<Rightarrow> uint list \<Rightarrow> nat \<Rightarrow> uint \<Rightarrow> block" where
  "logged start D V bs k = apply_writes (take k (log_writes start V bs)) D"

definition installed :: "uint \<Rightarrow> (uint \<Rightarrow> block) \<Rightarrow> (uint \<Rightarrow> block) \<Rightarrow> uint list \<Rightarrow> nat \<Rightarrow> uint \<Rightarrow> block" where
  "installed start D V bs j =
     apply_writes (take j (home_writes V bs)) ((logged start D V bs (length bs))(start := head_image (D start) bs))"

lemma logged_start: "committing start nl D V bs \<Longrightarrow> logged start D V bs k start = D start"
proof -
  assume c: "committing start nl D V bs"
  have "start \<notin> log_slot_no start ` {..<length bs}"
  proof
    assume "start \<in> log_slot_no start ` {..<length bs}"
    then obtain i where "i < length bs" "log_slot_no start i = start" by auto
    then show False using log_slot_not_start [of i start] committingD(6) [OF c] by simp
  qed
  then show ?thesis unfolding logged_def using log_writes_fst by (intro apply_writes_other) blast
qed

lemma logged_other:
  assumes "committing start nl D V bs" and "b \<notin> log_area start nl"
  shows "logged start D V bs k b = D b"
proof -
  have "b \<notin> log_slot_no start ` {..<length bs}"
    using committingD(7) [OF assms(1)] assms(2) by (auto simp: log_area_def)
  then show ?thesis unfolding logged_def using log_writes_fst by (intro apply_writes_other) blast
qed

lemma before_header:
  assumes c: "committing start nl D V bs"
  shows "log_ok start nl (logged start D V bs k)" "same_files start nl (recovered start (logged start D V bs k)) D"
proof -
  note C = committingD [OF c]
  show "log_ok start nl (logged start D V bs k)" using C(1,2) by (simp add: log_ok_def logged_start [OF c])
  have r: "recovered start (logged start D V bs k) = (logged start D V bs k)(start := head_image (D start) [])"
    using recovered_empty [of "logged start D V bs k" start] C(2) by (simp add: logged_start [OF c])
  have "recovered start (logged start D V bs k) b = D b" if b: "b \<notin> log_area start nl" for b
  proof -
    have "b \<noteq> start" using b by auto
    then show ?thesis using logged_other [OF c b] r by simp
  qed
  then show "same_files start nl (recovered start (logged start D V bs k)) D" by (simp add: same_files_def)
qed

lemma installed_log:
  assumes c: "committing start nl D V bs" and b: "b \<in> log_area start nl"
  shows "installed start D V bs j b = (if b = start then head_image (D start) bs else logged start D V bs (length bs) b)"
proof -
  have "b \<notin> set bs" using committingD(4) [OF c] b by blast
  then have "b \<notin> fst ` set (take j (home_writes V bs))" using home_writes_fst by blast
  then show ?thesis unfolding installed_def by (subst apply_writes_other) simp_all
qed

lemma installed_home:
  "committing start nl D V bs \<Longrightarrow> b \<notin> log_area start nl \<Longrightarrow>
    installed start D V bs j b = (if b \<in> set (take j bs) then V b else D b)"
  unfolding installed_def by (auto simp: take_home_writes apply_writes_home logged_other)

lemma installed_slot:
  assumes c: "committing start nl D V bs" and i: "i < length bs"
  shows "installed start D V bs j (log_slot_no start i) = V (bs ! i)"
proof -
  note C = committingD [OF c]
  have "log_slot_no start i \<in> log_area start nl" using C(7) i by simp
  moreover have "log_slot_no start i \<noteq> start" using log_slot_not_start C(6) i by simp
  ultimately show ?thesis
    using installed_log [OF c] apply_log_writes [OF C(3) order_refl i] by (simp add: logged_def)
qed

lemma after_header:
  assumes c: "committing start nl D V bs"
  shows "log_ok start nl (installed start D V bs j)" "same_files start nl (recovered start (installed start D V bs j)) V"
proof -
  note C = committingD [OF c]
  note h = head_image_fields [OF C(1,3)]
  have st: "installed start D V bs j start = head_image (D start) bs" by (simp add: installed_log [OF c])
  have "bs ! i \<notin> log_area start nl" if "i < length bs" for i
    using C(4) nth_mem [OF that] by blast
  then show "log_ok start nl (installed start D V bs j)" using C(3,7) by (simp add: log_ok_def st h)
  have "recovered start (installed start D V bs j) b = V b" if b: "b \<notin> log_area start nl" for b
  proof -
    have "b \<noteq> start" using b by auto
    then have "recovered start (installed start D V bs j) b = (if b \<in> set bs then V b else installed start D V bs j b)"
      by (intro recovered_committed) (simp_all add: st h installed_slot [OF c])
    moreover have "b \<in> set (take j bs) \<Longrightarrow> b \<in> set bs" by (rule in_set_takeD)
    ultimately show ?thesis using C(5) [OF _ b] installed_home [OF c b, of j] by auto
  qed
  then show "same_files start nl (recovered start (installed start D V bs j)) V" by (simp add: same_files_def)
qed

lemma at_end:
  assumes c: "committing start nl D V bs"
  defines "E \<equiv> (installed start D V bs (length bs))(start := head_image (head_image (D start) bs) [])"
  shows "log_ok start nl E" "same_files start nl (recovered start E) V"
proof -
  note C = committingD [OF c]
  note h = head_image_fields [OF head_image_fields(1) [OF C(1,3)], of "[]"]
  have E: "head_n (E start) = 0" "length (E start) = BSIZE" using h by (simp_all add: E_def)
  then show "log_ok start nl E" by (simp add: log_ok_def)
  have r: "recovered start E = E(start := head_image (E start) [])" using E by (intro recovered_empty) simp
  have "recovered start E b = V b" if b: "b \<notin> log_area start nl" for b
  proof -
    have "b \<noteq> start" using b by auto
    then have "recovered start E b = installed start D V bs (length bs) b" using r by (simp add: E_def)
    then show ?thesis using installed_home [OF c b] C(5) [OF _ b] by auto
  qed
  then show "same_files start nl (recovered start E) V" by (simp add: same_files_def)
qed

lemma crash_commit:
  assumes c: "committing start nl D V bs" and E: "E = apply_writes (take k (commit_writes start (D start) V bs)) D"
  shows "log_ok start nl E \<and> same_files start nl (recovered start E) (if k \<le> length bs then D else V)"
proof -
  let ?n = "length bs"
  have L: "length (log_writes start V bs) = ?n" "length (home_writes V bs) = ?n"
    by (simp_all add: log_writes_def home_writes_def)
  consider "bs = []" | "bs \<noteq> []" "k \<le> ?n" | j where "bs \<noteq> []" "k = Suc (?n + j)" "j \<le> ?n"
    | "bs \<noteq> []" "Suc (?n + ?n) < k"
  proof -
    have "k = Suc (?n + (k - Suc ?n)) \<and> k - Suc ?n \<le> ?n" if "\<not> k \<le> ?n" "\<not> Suc (?n + ?n) < k" using that by simp
    then show ?thesis using that by blast
  qed
  then show ?thesis
  proof cases
    case 1
    then have "E = logged start D V bs 0" using E by (simp add: commit_writes_def logged_def)
    moreover have "same_files start nl D V" using committingD(5) [OF c] 1 by (simp add: same_files_def)
    ultimately have "log_ok start nl E" "same_files start nl (recovered start E) D" "same_files start nl (recovered start E) V"
      using before_header [OF c, of 0] same_files_trans by blast+
    then show ?thesis by simp
  next
    case 2
    then have "E = logged start D V bs k" using E L by (simp add: commit_writes_def logged_def)
    then show ?thesis using before_header [OF c] 2 by simp
  next
    case 3
    then have "E = installed start D V bs j" using E L by (simp add: commit_writes_def installed_def logged_def)
    then show ?thesis using after_header [OF c] 3 by simp
  next
    case 4
    then have "take k (commit_writes start (D start) V bs) = commit_writes start (D start) V bs"
      using L by (simp add: commit_writes_def)
    then have "E = (installed start D V bs ?n)(start := head_image (head_image (D start) bs) [])"
      using E L 4 by (simp add: commit_writes_def installed_def logged_def)
    then show ?thesis using at_end [OF c] 4 by simp
  qed
qed

lemma commit_files:
  assumes c: "committing start nl D V bs"
  shows "same_files start nl (apply_writes (commit_writes start (D start) V bs) D) V"
proof (cases "bs = []")
  case True
  then show ?thesis using committingD(5) [OF c] by (simp add: commit_writes_def same_files_def)
next
  case False
  have "apply_writes (commit_writes start (D start) V bs) D b = V b" if b: "b \<notin> log_area start nl" for b
  proof -
    have "b \<noteq> start" using b by auto
    moreover have "length (log_writes start V bs) = length bs" "length (home_writes V bs) = length bs"
      by (simp_all add: log_writes_def home_writes_def)
    ultimately have "apply_writes (commit_writes start (D start) V bs) D b = installed start D V bs (length bs) b"
      using False by (simp add: commit_writes_def installed_def logged_def)
    then show ?thesis using installed_home [OF c b] committingD(5) [OF c _ b] by auto
  qed
  then show ?thesis by (simp add: same_files_def)
qed

section \<open>A crash during recovery\<close>

lemma apply_writes_cong:
  assumes "\<And>b. b \<notin> fst ` set ws \<Longrightarrow> D b = E b"
  shows "apply_writes ws D = apply_writes ws E"
  using assms
proof (induction ws arbitrary: D E)
  case Nil
  then show ?case by (simp add: fun_eq_iff)
next
  case (Cons w ws)
  obtain b d where w: "w = (b, d)" by (cases w)
  have "apply_writes ws (D(b := d)) = apply_writes ws (E(b := d))"
    by (rule Cons.IH) (use Cons.prems in \<open>simp add: w\<close>)
  then show ?case by (simp add: w)
qed

lemma apply_writes_take: "apply_writes ws (apply_writes (take k ws) D) = apply_writes ws D"
proof (rule apply_writes_cong)
  fix b assume "b \<notin> fst ` set ws"
  then have "b \<notin> fst ` set (take k ws)" using set_take_subset [of k ws] by blast
  then show "apply_writes (take k ws) D b = D b" by (rule apply_writes_other)
qed

lemma crash_recovery:
  assumes ok: "log_ok start nl D" and E: "E = apply_writes (take k (recovery_writes start D)) D"
  shows "log_ok start nl E \<and> same_files start nl (recovered start E) (recovered start D)"
proof (cases "k \<le> nat (head_n (D start))")
  case True
  let ?n = "nat (head_n (D start))"
  have n: "?n \<le> nl - 1" using ok unfolding log_ok_def by linarith
  have "fst ` set (take k (recovery_writes start D)) \<subseteq> head_block (D start) ` {..<?n}"
    using True by (auto simp: recovery_writes_def dest!: in_set_takeD)
  then have area: "E b = D b" if "b \<in> log_area start nl" for b
    unfolding E using that ok by (intro apply_writes_other) (auto simp: log_ok_def)
  then have st: "E start = D start" by simp
  have "recovery_writes start E = recovery_writes start D"
    using n by (simp add: recovery_writes_def st area)
  then have "recovered start E = recovered start D"
    by (simp add: recovered_def E apply_writes_take)
  then show ?thesis using ok st by (simp add: log_ok_def same_files_def)
next
  case False
  then have eq: "E = recovered start D" using E by (simp add: recovered_def recovery_writes_def)
  have len: "length (D start) = BSIZE" using ok by (simp add: log_ok_def)
  have st: "E start = head_image (D start) []" by (simp add: eq recovered_def recovery_writes_def)
  have h: "head_n (E start) = 0" "length (E start) = BSIZE" using head_image_fields [OF len, of "[]"] by (simp_all add: st)
  then have "recovered start E = E(start := head_image (E start) [])" by (intro recovered_empty) simp
  then have "same_files start nl (recovered start E) E" by (auto simp: same_files_def)
  then show ?thesis using h eq by (simp add: log_ok_def)
qed

end
