(* ===== verification/Log_Crash.thy ===== *)
theory Log_Crash
  imports Log_Disk
begin

text \<open>
  The routines of \<^verbatim>\<open>kernel/log.c\<close> perform the writes of the theory \<open>Log_Disk\<close>, and transactions
  are atomic: a crash at any moment of a commit, and any number of crashes of the recoveries that
  follow, leave the files as they were before the transaction or as they are after it.
\<close>

section \<open>Frame\<close>

lemma bframe_lg:
  fixes s t :: "'z lgstate_scheme"
  assumes "bframe s t"
  shows "lg t = lg s"
proof -
  have "t = s\<lparr>procs := procs t, sleeplocks := sleeplocks t, bufs := bufs t, disk := disk t, dhist := dhist t\<rparr>"
    using assms unfolding bframe_def by blast
  then have "lg t = lg (s\<lparr>procs := procs t, sleeplocks := sleeplocks t, bufs := bufs t, disk := disk t, dhist := dhist t\<rparr>)"
    by (rule arg_cong)
  then show ?thesis by simp
qed

lemma bframe_held: "bframe s t \<Longrightarrow> held t = held s"
proof -
  assume "bframe s t"
  then have "t = s\<lparr>procs := procs t, sleeplocks := sleeplocks t, bufs := bufs t, disk := disk t, dhist := dhist t\<rparr>"
    unfolding bframe_def by blast
  then have "held t = held (s\<lparr>procs := procs t, sleeplocks := sleeplocks t, bufs := bufs t, disk := disk t, dhist := dhist t\<rparr>)"
    by (rule arg_cong)
  then show ?thesis by simp
qed

lemma lg_irrelevant [simp]:
  "bcache (upd_lg f s) p V P L = bcache s p V P L" "at_buf (upd_lg f s) i bn = at_buf s i bn"
  "disk (upd_lg f s) = disk s" "dhist (upd_lg f s) = dhist s" "bufs (upd_lg f s) = bufs s"
  "held (upd_lg f s) = held s" "lg (upd_lg f s) = f (lg s)" "lg (set_data i d s) = lg s"
  by (simp_all add: upd_lg_def bcache_def view_def[abs_def] bidle_def mine_def bunlocked_def no_proc_lock_def
      myproc_def cpuid_def at_buf_def set_data_def upd_buf_def)

text \<open>\<open>in_log s start bs\<close>: the in-memory header of the log at \<open>start\<close> lists the blocks \<open>bs\<close>.\<close>

definition in_log :: "'z lgstate_scheme \<Rightarrow> uint \<Rightarrow> uint list \<Rightarrow> bool" where
  "in_log s start bs \<longleftrightarrow> lg_dev (lg s) = ROOTDEV \<and> lg_start (lg s) = start \<and> lh_n (lg s) = int (length bs) \<and>
     length bs \<le> LOGSIZE \<and> take (length bs) (lh_block (lg s)) = bs"

lemma in_logD:
  assumes "in_log s start bs"
  shows "lg_dev (lg s) = ROOTDEV" "lg_start (lg s) = start" "lh_n (lg s) = int (length bs)" "length bs \<le> LOGSIZE"
    and "i < length bs \<Longrightarrow> lh_block (lg s) ! i = bs ! i"
proof -
  show "lg_dev (lg s) = ROOTDEV" "lg_start (lg s) = start" "lh_n (lg s) = int (length bs)" "length bs \<le> LOGSIZE"
    using assms by (simp_all add: in_log_def)
  assume i: "i < length bs"
  have "bs = take (length bs) (lh_block (lg s))" using assms by (simp add: in_log_def)
  then have "bs ! i = take (length bs) (lh_block (lg s)) ! i" by (rule arg_cong)
  then show "lh_block (lg s) ! i = bs ! i" using i by simp
qed

lemma in_log_cong: "lg t = lg s \<Longrightarrow> in_log t start bs = in_log s start bs"
  by (simp add: in_log_def)

section \<open>Header\<close>

lemma set_data_twice [simp]: "set_data i d (set_data i e s) = set_data i d s"
  by (simp add: set_data_def upd_buf_def)

lemma set_data_read [simp]: "b_data (bufs (set_data i d s) i) = d"
  by (simp add: set_data_def upd_buf_def)

lemma write_head_fill:
  assumes "in_log s start bs"
  shows "for_loop (\<lambda>i s. if LOGSIZE \<le> i then Fault
       else Ret (None :: unit option) (set_data buf (put32 (b_data (bufs s buf)) (4 + 4 * i) (lh_block (lg s) ! i)) s))
     [0..<length bs] (set_data buf (put32 d 0 (of_nat (length bs))) s) = Ret None (set_data buf (head_image d bs) s)"
proof -
  note I = in_logD [OF assms]
  have "returns (for_loop (\<lambda>i s. if LOGSIZE \<le> i then Fault
       else Ret (None :: unit option) (set_data buf (put32 (b_data (bufs s buf)) (4 + 4 * i) (lh_block (lg s) ! i)) s))
     [0..<length bs] (set_data buf (put32 d 0 (of_nat (length bs))) s))
     (\<lambda>r t. r = None \<and> t = set_data buf (head_part d bs (length bs)) s)"
    by (rule for_loop_returns [where I = "\<lambda>k t. t = set_data buf (head_part d bs k) s"])
       (use I(4,5) in \<open>simp_all add: head_part_simps\<close>)
  then show ?thesis by (auto simp: head_part_simps elim: returnsE)
qed

lemma write_head_spec:
  assumes c: "bcache s p V P {}" and il: "in_log s start bs" and room: "card {b. 0 < P b} < NBUF"
  shows "\<exists>t. write_head s = Ret () t \<and> bcache t p (V(start := head_image (V start) bs)) P {} \<and>
     disk t = (disk s)(start := head_image (V start) bs) \<and>
     dhist t = (start, head_image (V start) bs) # dhist s \<and> bframe s t"
proof -
  note I = in_logD [OF il]
  let ?h = "head_image (V start) bs"
  from bc.rd_law [OF c, of start] room obtain i t where t: "bread ROOTDEV start s = Ret i t"
    "bcache t p V (P(start := P start + 1)) {start}" "at_buf t i start" "b_data (bufs t i) = V start"
    "disk t = disk s" "dhist t = dhist s" "bframe s t" by auto
  have len: "length ?h = BSIZE" by (rule head_image_fields(1) [OF bcache_view_length [OF c] I(4)])
  let ?u = "set_data i ?h t"
  have "start \<in> {start}" by simp
  from bc.put_law [OF t(2,3) this len] have u: "bcache ?u p (V(start := ?h)) (P(start := P start + 1)) {start}"
    "at_buf ?u i start" "disk ?u = disk t" "dhist ?u = dhist t" "bframe t ?u" using t(3) by blast+
  from bc.wr_law [OF u(1,2)] obtain w where w: "bwrite i ?u = Ret () w"
    "bcache w p (V(start := ?h)) (P(start := P start + 1)) {start}" "at_buf w i start"
    "disk w = (disk ?u)(start := (V(start := ?h)) start)" "dhist w = (start, (V(start := ?h)) start) # dhist ?u" "bframe ?u w"
    using u(2) by blast
  have cl: "(P(start := P start + 1)) start = 1 \<Longrightarrow> (V(start := ?h)) start = disk w start" by (simp add: w(4))
  have "start \<in> {start}" by simp
  from bc.rel_law [OF w(2,3) this cl] obtain x where x: "brelse i w = Ret () x"
    "bcache x p (V(start := ?h)) ((P(start := P start + 1))(start := (P(start := P start + 1)) start - 1)) ({start} - {start})"
    "disk x = disk w" "dhist x = dhist w" "bframe w x" by blast
  have P: "(P(start := P start + 1))(start := (P(start := P start + 1)) start - 1) = P" "{start} - {start} = {}" by auto
  have il': "in_log t start bs" using il in_log_cong [OF bframe_lg [OF t(7)]] by simp
  have "write_head s = Ret () x"
    using write_head_fill [OF il', of i "V start"] in_logD(3) [OF il'] t(1,4) w(1) x(1)
    by (simp add: write_head_def I(1,2) Let_def)
  moreover have "bframe s x" using t(7) u(5) w(6) x(5) bframe_trans by blast
  ultimately show ?thesis using x(2-4) w(4,5) u(3,4) t(5,6) unfolding P by simp
qed


lemma read_head_fill:
  assumes "n \<le> LOGSIZE" and "LOGSIZE \<le> length (lh_block (lg s))" and "b_data (bufs s buf) = d"
  shows "\<exists>bl. for_loop (\<lambda>i s. if LOGSIZE \<le> i then Fault
       else Ret (None :: unit option) (upd_lg (\<lambda>l. l\<lparr>lh_block := (lh_block l)[i := head_block (b_data (bufs s buf)) i]\<rparr>) s))
     [0..<n] s = Ret None (upd_lg (\<lambda>l. l\<lparr>lh_block := bl\<rparr>) s) \<and>
     length bl = length (lh_block (lg s)) \<and> take n bl = map (head_block d) [0..<n]"
proof -
  define I where "I k t \<longleftrightarrow> (\<exists>bl. t = upd_lg (\<lambda>l. l\<lparr>lh_block := bl\<rparr>) s \<and>
     length bl = length (lh_block (lg s)) \<and> take k bl = map (head_block d) [0..<k])" for k t
  have "s = upd_lg (\<lambda>l. l\<lparr>lh_block := lh_block (lg s)\<rparr>) s" by (simp add: upd_lg_def)
  then have "I 0 s" unfolding I_def by (intro exI [of _ "lh_block (lg s)"]) simp
  moreover have "returns (if LOGSIZE \<le> k then Fault
       else Ret (None :: unit option) (upd_lg (\<lambda>l. l\<lparr>lh_block := (lh_block l)[k := head_block (b_data (bufs t buf)) k]\<rparr>) t))
     (\<lambda>r u. r = None \<and> I (Suc k) u)" if k: "k < n" and t: "I k t" for k t
  proof -
    obtain bl where bl: "t = upd_lg (\<lambda>l. l\<lparr>lh_block := bl\<rparr>) s" "length bl = length (lh_block (lg s))"
      "take k bl = map (head_block d) [0..<k]" using t unfolding I_def by blast
    have "upd_lg (\<lambda>l. l\<lparr>lh_block := (lh_block l)[k := head_block d k]\<rparr>) t =
        upd_lg (\<lambda>l. l\<lparr>lh_block := bl[k := head_block d k]\<rparr>) s" by (simp add: bl(1) upd_lg_def)
    moreover have "take (Suc k) (bl[k := head_block d k]) = map (head_block d) [0..<Suc k]"
      using bl(2,3) k assms(1,2) by (simp add: take_Suc_conv_app_nth)
    ultimately have "I (Suc k) (upd_lg (\<lambda>l. l\<lparr>lh_block := (lh_block l)[k := head_block d k]\<rparr>) t)"
      unfolding I_def using bl(2) by (intro exI [of _ "bl[k := head_block d k]"]) simp
    moreover have "b_data (bufs t buf) = d" using assms(3) by (simp add: bl(1))
    ultimately show ?thesis using k assms(1) by simp
  qed
  ultimately have "returns (for_loop (\<lambda>i s. if LOGSIZE \<le> i then Fault
       else Ret (None :: unit option) (upd_lg (\<lambda>l. l\<lparr>lh_block := (lh_block l)[i := head_block (b_data (bufs s buf)) i]\<rparr>) s))
     [0..<n] s) (\<lambda>r t. r = None \<and> I n t)"
    by (rule for_loop_returns)
  then show ?thesis unfolding I_def by (blast elim: returnsE)
qed

text \<open>\<open>lframe s t\<close>: only the cache and the in-memory log header may have changed.\<close>

definition lframe :: "'z lgstate_scheme \<Rightarrow> 'z lgstate_scheme \<Rightarrow> bool" where
  "lframe s t \<longleftrightarrow> bframe s (t\<lparr>lg := lg s\<rparr>)"

lemma bframe_upd_lg: "bframe s t \<Longrightarrow> bframe (s\<lparr>lg := l\<rparr>) (t\<lparr>lg := l\<rparr>)"
proof -
  assume f: "bframe s t"
  then have t: "t = s\<lparr>procs := procs t, sleeplocks := sleeplocks t, bufs := bufs t, disk := disk t, dhist := dhist t\<rparr>"
    unfolding bframe_def by blast
  have "t\<lparr>lg := l\<rparr> = (s\<lparr>lg := l\<rparr>)\<lparr>procs := procs t, sleeplocks := sleeplocks t, bufs := bufs t, disk := disk t, dhist := dhist t\<rparr>"
    by (subst t) simp
  then show ?thesis using f unfolding bframe_def by simp
qed

lemma lframe_intros:
  "bframe s t \<Longrightarrow> lframe s t" "lframe s (upd_lg f s)"
proof -
  assume f: "bframe s t"
  then have "t\<lparr>lg := lg s\<rparr> = t" using bframe_lg [OF f] by simp
  then show "lframe s t" using f by (simp add: lframe_def)
qed (simp add: lframe_def upd_lg_def)

lemma lframe_trans: "lframe s t \<Longrightarrow> lframe t u \<Longrightarrow> lframe s u"
proof -
  assume s: "lframe s t" and t: "lframe t u"
  have "bframe (t\<lparr>lg := lg s\<rparr>) ((u\<lparr>lg := lg t\<rparr>)\<lparr>lg := lg s\<rparr>)"
    by (rule bframe_upd_lg) (use t in \<open>simp add: lframe_def\<close>)
  then show ?thesis using s bframe_trans unfolding lframe_def by simp blast
qed

lemma lframe_held: "lframe s t \<Longrightarrow> held t = held s"
  unfolding lframe_def by (drule bframe_held) simp

lemma read_head_spec:
  assumes c: "bcache s p V P {}" and room: "card {b. 0 < P b} < NBUF" and dev: "lg_dev (lg s) = ROOTDEV"
    and n: "head_n (V (lg_start (lg s))) \<le> int LOGSIZE" and len: "LOGSIZE \<le> length (lh_block (lg s))"
  shows "\<exists>t bl. read_head s = Ret () t \<and> bcache t p V P {} \<and> disk t = disk s \<and> dhist t = dhist s \<and> lframe s t \<and>
     lg t = (lg s)\<lparr>lh_n := head_n (V (lg_start (lg s))), lh_block := bl\<rparr> \<and> length bl = length (lh_block (lg s)) \<and>
     take (nat (head_n (V (lg_start (lg s))))) bl =
       map (head_block (V (lg_start (lg s)))) [0..<nat (head_n (V (lg_start (lg s))))]"
proof -
  define start where "start = lg_start (lg s)"
  from bc.rd_law [OF c, of start] room obtain i t where t: "bread ROOTDEV start s = Ret i t"
    "bcache t p V (P(start := P start + 1)) {start}" "at_buf t i start" "b_data (bufs t i) = V start"
    "disk t = disk s" "dhist t = dhist s" "bframe s t" by auto
  let ?n = "nat (head_n (V start))" and ?t = "upd_lg (\<lambda>l. l\<lparr>lh_n := head_n (V start)\<rparr>) t"
  have lgt: "lg t = lg s" by (rule bframe_lg [OF t(7)])
  have n': "?n \<le> LOGSIZE" using n by (simp add: start_def)
  have bl': "LOGSIZE \<le> length (lh_block (lg ?t))" "b_data (bufs ?t i) = V start" using len lgt t(4) by simp_all
  from read_head_fill [OF n' bl'] obtain bl where bl: "for_loop (\<lambda>i' s. if LOGSIZE \<le> i' then Fault
       else Ret (None :: unit option) (upd_lg (\<lambda>l. l\<lparr>lh_block := (lh_block l)[i' := head_block (b_data (bufs s i)) i']\<rparr>) s))
     [0..<?n] ?t = Ret None (upd_lg (\<lambda>l. l\<lparr>lh_block := bl\<rparr>) ?t)"
     "length bl = length (lh_block (lg ?t))" "take ?n bl = map (head_block (V start)) [0..<?n]"
    by (elim exE conjE)
  let ?u = "upd_lg (\<lambda>l. l\<lparr>lh_block := bl\<rparr>) ?t"
  have u: "bcache ?u p V (P(start := P start + 1)) {start}" "at_buf ?u i start" using t(2,3) by simp_all
  have cl: "(P(start := P start + 1)) start = 1 \<Longrightarrow> V start = disk ?u start"
    using bc.clean_law [OF c, of start] t(5) by simp
  have "start \<in> {start}" by simp
  from bc.rel_law [OF u this cl] obtain x where x: "brelse i ?u = Ret () x"
    "bcache x p V ((P(start := P start + 1))(start := (P(start := P start + 1)) start - 1)) ({start} - {start})"
    "disk x = disk ?u" "dhist x = dhist ?u" "bframe ?u x" by blast
  have P: "(P(start := P start + 1))(start := (P(start := P start + 1)) start - 1) = P" "{start} - {start} = {}" by auto
  have run: "read_head s = Ret () x"
    using bl(1) t(1,4) x(1) by (simp add: read_head_def dev Let_def start_def [symmetric])
  have fr: "lframe s x"
    using lframe_trans [OF lframe_trans [OF lframe_intros(1) [OF t(7)] lframe_intros(2)]
        lframe_trans [OF lframe_intros(2) lframe_intros(1) [OF x(5)]]] .
  have "lg x = (lg s)\<lparr>lh_n := head_n (V start), lh_block := bl\<rparr>" using bframe_lg [OF x(5)] lgt by simp
  then show ?thesis
    using run fr x(2-4) t(5,6) bl(2,3) lgt unfolding P start_def [symmetric]
    by (intro exI [of _ x] exI [of _ bl]) simp
qed

section \<open>Copying to and from the log\<close>

text \<open>The blocks \<open>bs\<close> fit into the slots of the log, and none of them is a block of the log itself.\<close>

definition log_fits :: "uint \<Rightarrow> nat \<Rightarrow> uint list \<Rightarrow> bool" where
  "log_fits start nl bs \<longleftrightarrow> length bs \<le> nl - 1 \<and> set bs \<inter> log_area start nl = {}"

lemma log_fitsD:
  assumes "log_fits start nl bs"
  shows "start \<notin> set bs" "i < length bs \<Longrightarrow> log_slot_no start i \<in> log_area start nl"
    "i < length bs \<Longrightarrow> log_slot_no start i \<notin> set bs"
proof -
  have l: "length bs \<le> nl - 1" and d: "set bs \<inter> log_area start nl = {}" using assms unfolding log_fits_def by blast+
  show "start \<notin> set bs" using d log_area_simps(1) by blast
  show m: "log_slot_no start i \<in> log_area start nl" if "i < length bs" using l that by simp
  show "log_slot_no start i \<notin> set bs" if "i < length bs" using d m [OF that] by blast
qed

lemma slot_not_home:
  assumes "log_fits start nl bs" and "i < length bs" and "j < length bs"
  shows "log_slot_no start i \<noteq> bs ! j"
  using log_fitsD(3) [OF assms(1,2)] nth_mem [OF assms(3)] by metis

lemma write_log_spec:
  assumes c: "bcache s p V P {}" and il: "in_log s start bs" and room: "card {b. 0 < P b} < NBUF"
    and pinned: "\<And>b. b \<in> set bs \<Longrightarrow> 0 < P b" and out: "log_fits start nl bs"
  shows "\<exists>t. write_log s = Ret () t \<and> bcache t p (apply_writes (log_writes start V bs) V) P {} \<and>
     disk t = apply_writes (log_writes start V bs) (disk s) \<and>
     dhist t = rev (log_writes start V bs) @ dhist s \<and> bframe s t"
proof -
  note I = in_logD [OF il]
  let ?W = "log_writes start V bs" and ?n = "length bs"
  have LW: "length ?W = ?n" "\<And>k. k < ?n \<Longrightarrow> ?W ! k = (log_slot_no start k, V (bs ! k))"
    by (simp_all add: log_writes_def)
  let ?F = "\<lambda>tail s. res_bind (bread (lg_dev (lg s)) (lg_start (lg s) + of_nat tail + 1) s) (\<lambda>to s.
       if LOGSIZE \<le> tail then Fault else
       res_bind (bread (lg_dev (lg s)) (lh_block (lg s) ! tail) s) (\<lambda>from s.
       let s = set_data to (b_data (bufs s from)) s in
       res_bind (bwrite to s) (\<lambda>_ s.
       res_bind (brelse from s) (\<lambda>_ s.
       res_bind (brelse to s) (\<lambda>_ s. Ret (None :: unit option) s)))))"
  define J where "J k t \<longleftrightarrow> bcache t p (apply_writes (take k ?W) V) P {} \<and> disk t = apply_writes (take k ?W) (disk s) \<and>
     dhist t = rev (take k ?W) @ dhist s \<and> bframe s t" for k t
  have step: "returns (?F k t) (\<lambda>r u. r = None \<and> J (Suc k) u)"
    if k: "k < ?n" and t: "J k t" for k t
  proof -
    let ?V = "apply_writes (take k ?W) V" and ?a = "log_slot_no start k" and ?b = "bs ! k"
    have J: "bcache t p ?V P {}" "disk t = apply_writes (take k ?W) (disk s)" "dhist t = rev (take k ?W) @ dhist s"
      "bframe s t" using t unfolding J_def by blast+
    have kl: "\<not> LOGSIZE \<le> k" using k I(4) by simp
    have "?b \<notin> log_slot_no start ` {..<?n}" using slot_not_home [OF out _ k] by force
    then have Vb: "?V ?b = V ?b" using log_writes_fst [of k start V bs] by (intro apply_writes_other) blast
    have rd: "bread (lg_dev (lg u)) (lh_block (lg u) ! k) u = bread ROOTDEV ?b u" if "bframe t u" for u
      using bframe_lg [OF that] bframe_lg [OF J(4)] I(1,5) k by simp
    have pb: "P ?b = 0 \<Longrightarrow> card {x. 0 < P x} < NBUF - 1" using pinned [OF nth_mem [OF k]] by simp
    have W: "take (Suc k) ?W = take k ?W @ [(?a, V ?b)]" using k LW by (simp add: take_Suc_conv_app_nth)
    from bc.copy_block [OF J(1) slot_not_home [OF out k k] room pb, where rdb = "\<lambda>u. bread (lg_dev (lg u)) (lh_block (lg u) ! k) u", OF _ rd]
    have "returns (res_bind (bread ROOTDEV ?a t) (\<lambda>i s. res_bind (bread (lg_dev (lg s)) (lh_block (lg s) ! k) s) (\<lambda>j s.
         let s = set_data i (b_data (bufs s j)) s in
         res_bind (bwrite i s) (\<lambda>_ s. res_bind (brelse j s) (\<lambda>_ s. brelse i s)))))
       (\<lambda>_ u. bcache u p (?V(?a := ?V ?b)) P {} \<and> disk u = (disk t)(?a := ?V ?b) \<and> dhist u = (?a, ?V ?b) # dhist t \<and> bframe t u)"
      by blast
    then obtain u where u: "res_bind (bread ROOTDEV ?a t) (\<lambda>i s. res_bind (bread (lg_dev (lg s)) (lh_block (lg s) ! k) s) (\<lambda>j s.
         let s = set_data i (b_data (bufs s j)) s in
         res_bind (bwrite i s) (\<lambda>_ s. res_bind (brelse j s) (\<lambda>_ s. brelse i s)))) = Ret () u"
       "bcache u p (?V(?a := ?V ?b)) P {}" "disk u = (disk t)(?a := ?V ?b)" "dhist u = (?a, ?V ?b) # dhist t" "bframe t u"
      by (auto elim: returnsE)
    have "J (Suc k) u" unfolding J_def W using u(2-4) J(2,3) Vb bframe_trans [OF J(4) u(5)] by simp
    moreover have "lg_start (lg t) + of_nat k + 1 = ?a" "lg_dev (lg t) = ROOTDEV"
      using bframe_lg [OF J(4)] I(1,2) by (simp_all add: log_slot_no_def)
    ultimately show ?thesis
      using arg_cong [OF u(1), of "\<lambda>m. res_bind m (\<lambda>_ s. Ret (None :: unit option) s)"] kl
      by (simp add: res_bind_assoc Let_def)
  qed
  have "J 0 s" using c by (simp add: J_def)
  from for_loop_returns [where I = J and f = ?F, OF this step]
  obtain t where "for_loop ?F [0..<?n] s = Ret None t" "J ?n t" by (blast elim: returnsE)
  moreover from this(1) have "write_log s = Ret () t" unfolding write_log_def I(3) nat_int by (simp only: res_bind.simps)
  ultimately show ?thesis unfolding J_def using LW(1) by (intro exI [of _ t]) simp
qed


text \<open>The references that are left when the first \<open>k\<close> blocks of a transaction have been installed.\<close>

definition ipins :: "bool \<Rightarrow> uint list \<Rightarrow> nat \<Rightarrow> uint \<Rightarrow> int" where
  "ipins recovering bs k b = (if \<not> recovering \<and> b \<in> set (drop k bs) then 1 else 0)"

lemma ipins_card:
  assumes "recovering \<or> length bs < NBUF"
  shows "card {b. 0 < ipins recovering bs k b} < NBUF"
proof -
  have "{b. 0 < ipins recovering bs k b} = (if recovering then {} else set (drop k bs))" by (auto simp: ipins_def)
  moreover have "card (set (drop k bs)) \<le> length bs" using card_length [of "drop k bs"] by simp
  ultimately show ?thesis using assms by (cases recovering) (auto simp: NBUF_def MAXOPBLOCKS_def)
qed

lemma ipins_step:
  assumes "recovering \<or> distinct bs" and "k < length bs"
  shows "(ipins recovering bs k)(bs ! k := ipins recovering bs k (bs ! k) - (if recovering then 0 else 1)) =
    ipins recovering bs (Suc k)" and "(if recovering then 0 else 1) \<le> ipins recovering bs k (bs ! k)"
    and "recovering \<or> 0 < ipins recovering bs k (bs ! k)"
proof -
  have d: "drop k bs = bs ! k # drop (Suc k) bs" using assms(2) by (rule Cons_nth_drop_Suc [symmetric])
  have "distinct (drop k bs)" if "distinct bs" using that by simp
  then have "\<not> recovering \<Longrightarrow> bs ! k \<notin> set (drop (Suc k) bs)" using assms(1) d by simp
  then show "(ipins recovering bs k)(bs ! k := ipins recovering bs k (bs ! k) - (if recovering then 0 else 1)) =
      ipins recovering bs (Suc k)"
    by (auto simp: ipins_def d fun_eq_iff)
  show "(if recovering then 0 else 1) \<le> ipins recovering bs k (bs ! k)" "recovering \<or> 0 < ipins recovering bs k (bs ! k)"
    by (simp_all add: ipins_def d)
qed

definition install_writes :: "uint \<Rightarrow> (uint \<Rightarrow> block) \<Rightarrow> uint list \<Rightarrow> (uint \<times> block) list" where
  "install_writes start V bs = map (\<lambda>i. (bs ! i, V (log_slot_no start i))) [0..<length bs]"

lemma install_trans_spec:
  assumes c: "bcache s p V (ipins recovering bs 0) {}" and il: "in_log s start bs"
    and room: "recovering \<or> length bs < NBUF \<and> distinct bs" and out: "log_fits start nl bs"
  shows "\<exists>t. install_trans recovering s = Ret () t \<and> bcache t p (apply_writes (install_writes start V bs) V) (\<lambda>_. 0) {} \<and>
     disk t = apply_writes (install_writes start V bs) (disk s) \<and>
     dhist t = rev (install_writes start V bs) @ dhist s \<and> bframe s t"
proof -
  note I = in_logD [OF il]
  let ?W = "install_writes start V bs" and ?n = "length bs"
  have LW: "length ?W = ?n" "\<And>k. k < ?n \<Longrightarrow> ?W ! k = (bs ! k, V (log_slot_no start k))"
    "\<And>k. fst ` set (take k ?W) \<subseteq> set bs"
    by (auto simp: install_writes_def dest!: in_set_takeD)
  let ?F = "\<lambda>tail s.
       res_bind (bread (lg_dev (lg s)) (lg_start (lg s) + of_nat tail + 1) s) (\<lambda>lbuf s.
       if LOGSIZE \<le> tail then Fault else
       res_bind (bread (lg_dev (lg s)) (lh_block (lg s) ! tail) s) (\<lambda>dbuf s.
       let s = set_data dbuf (b_data (bufs s lbuf)) s in
       res_bind (bwrite dbuf s) (\<lambda>_ s.
       res_bind (if recovering then Ret () s else bunpin dbuf s) (\<lambda>_ s.
       res_bind (brelse lbuf s) (\<lambda>_ s.
       res_bind (brelse dbuf s) (\<lambda>_ s. Ret (None :: unit option) s))))))"
  define J where "J k t \<longleftrightarrow> bcache t p (apply_writes (take k ?W) V) (ipins recovering bs k) {} \<and>
     disk t = apply_writes (take k ?W) (disk s) \<and> dhist t = rev (take k ?W) @ dhist s \<and> bframe s t" for k t
  have step: "returns (?F k t) (\<lambda>r u. r = None \<and> J (Suc k) u)" if k: "k < ?n" and t: "J k t" for k t
  proof -
    let ?V = "apply_writes (take k ?W) V" and ?a = "log_slot_no start k" and ?b = "bs ! k" and ?P = "ipins recovering bs k"
    have J: "bcache t p ?V ?P {}" "disk t = apply_writes (take k ?W) (disk s)" "dhist t = rev (take k ?W) @ dhist s"
      "bframe s t" using t unfolding J_def by blast+
    have kl: "\<not> LOGSIZE \<le> k" using k I(4) by simp
    have "?a \<notin> set bs" using log_fitsD(3) [OF out k] .
    then have Va: "?V ?a = V ?a" using LW(3) by (intro apply_writes_other) blast
    have rd: "bread (lg_dev (lg u)) (lh_block (lg u) ! k) u = bread ROOTDEV ?b u" if "bframe t u" for u
      using bframe_lg [OF that] bframe_lg [OF J(4)] I(1,5) k by simp
    have rm: "recovering \<or> distinct bs" "recovering \<or> ?n < NBUF" using room by blast+
    note st = ipins_step [OF rm(1) k]
    have pb: "?P ?b = 0 \<Longrightarrow> card {x. 0 < ?P x} < NBUF - 1"
      using st(3) by (cases recovering) (simp_all add: ipins_def NBUF_def MAXOPBLOCKS_def)
    have W: "take (Suc k) ?W = take k ?W @ [(?b, V ?a)]" using k LW by (simp add: take_Suc_conv_app_nth)
    note ib = bc.install_block [OF J(1) slot_not_home [OF out k k] ipins_card [OF rm(2)] pb, OF _ rd refl st(2)]
    have ib' : "returns (res_bind (bread ROOTDEV ?a t) (\<lambda>i s. res_bind (bread (lg_dev (lg s)) (lh_block (lg s) ! k) s) (\<lambda>j s.
         let s = set_data j (b_data (bufs s i)) s in res_bind (bwrite j s) (\<lambda>_ s.
         res_bind (if recovering then Ret () s else bunpin j s) (\<lambda>_ s. res_bind (brelse i s) (\<lambda>_ s. brelse j s))))))
       (\<lambda>_ u. bcache u p (?V(?b := ?V ?a)) (?P(?b := ?P ?b - (if recovering then 0 else 1))) {} \<and>
         disk u = (disk t)(?b := ?V ?a) \<and> dhist u = (?b, ?V ?a) # dhist t \<and> bframe t u)"
      by (rule ib)
    from returns_unitD [OF ib'] obtain u where u: "res_bind (bread ROOTDEV ?a t) (\<lambda>i s. res_bind (bread (lg_dev (lg s)) (lh_block (lg s) ! k) s) (\<lambda>j s.
         let s = set_data j (b_data (bufs s i)) s in res_bind (bwrite j s) (\<lambda>_ s.
         res_bind (if recovering then Ret () s else bunpin j s) (\<lambda>_ s. res_bind (brelse i s) (\<lambda>_ s. brelse j s))))) = Ret () u"
       "bcache u p (?V(?b := ?V ?a)) (?P(?b := ?P ?b - (if recovering then 0 else 1))) {}"
       "disk u = (disk t)(?b := ?V ?a)" "dhist u = (?b, ?V ?a) # dhist t" "bframe t u"
      by (elim exE conjE)
    have "J (Suc k) u" unfolding J_def W using u(2-4) J(2,3) Va st(1) bframe_trans [OF J(4) u(5)] by simp
    moreover have "lg_start (lg t) + of_nat k + 1 = ?a" "lg_dev (lg t) = ROOTDEV"
      using bframe_lg [OF J(4)] I(1,2) by (simp_all add: log_slot_no_def)
    ultimately show ?thesis
      using arg_cong [OF u(1), of "\<lambda>m. res_bind m (\<lambda>_ s. Ret (None :: unit option) s)"] kl
      by (cases recovering) (simp_all add: res_bind_assoc Let_def)
  qed
  have "J 0 s" using c by (simp add: J_def)
  from for_loop_returns [where I = J and f = ?F, OF this step]
  obtain t where "for_loop ?F [0..<?n] s = Ret None t" "J ?n t" by (blast elim: returnsE)
  moreover from this(1) have "install_trans recovering s = Ret () t"
    unfolding install_trans_def I(3) nat_int by (simp only: res_bind.simps)
  moreover have "ipins recovering bs ?n = (\<lambda>_. 0)" by (simp add: ipins_def fun_eq_iff)
  ultimately show ?thesis unfolding J_def using LW(1) by (intro exI [of _ t]) simp
qed

section \<open>Recovery\<close>

lemma recover_from_log_spec:
  assumes c: "bcache s p V (\<lambda>_. 0) {}" and ok: "log_ok start nl (disk s)"
    and lg: "lg_dev (lg s) = ROOTDEV" "lg_start (lg s) = start" "length (lh_block (lg s)) = LOGSIZE"
  shows "\<exists>t. recover_from_log s = Ret () t \<and> bcache t p (recovered start (disk s)) (\<lambda>_. 0) {} \<and>
     disk t = recovered start (disk s) \<and> dhist t = rev (recovery_writes start (disk s)) @ dhist s \<and> lframe s t \<and>
     in_log t start []"
proof -
  let ?h = "disk s start"
  define n where "n = nat (head_n ?h)"
  define bs where "bs = map (head_block ?h) [0..<n]"
  have VD: "V = disk s" using bc.clean_law [OF c] by auto
  have room: "card {b :: uint. 0 < (0 :: int)} < NBUF" by (simp add: NBUF_def MAXOPBLOCKS_def)
  have O: "head_n ?h \<le> int LOGSIZE" "\<And>i. i < n \<Longrightarrow> head_block ?h i \<notin> log_area start nl" "length ?h = BSIZE"
    "n \<le> nl - 1"
    using ok unfolding log_ok_def n_def by (blast, blast, blast, linarith)
  have hn: "head_n (V (lg_start (lg s))) \<le> int LOGSIZE" using O(1) by (simp add: VD lg)
  from read_head_spec [OF c room lg(1) hn] lg(3) obtain t bl where t: "read_head s = Ret () t"
    "bcache t p V (\<lambda>_. 0) {}" "disk t = disk s" "dhist t = dhist s" "lframe s t"
    "lg t = (lg s)\<lparr>lh_n := head_n ?h, lh_block := bl\<rparr>" "length bl = LOGSIZE" "take n bl = bs"
    by (auto simp: VD lg(2) n_def bs_def)
  have len: "length bs = n" "length bs \<le> LOGSIZE" using O(1) by (simp_all add: bs_def n_def)
  show ?thesis
  proof (cases "0 \<le> head_n ?h")
    case True
    then have hl: "head_n ?h = int (length bs)" using len by (simp add: n_def)
    have il: "in_log t start bs" using t(6,8) len lg hl by (simp add: in_log_def)
    have out: "log_fits start nl bs" using O(2,4) by (auto simp: bs_def log_fits_def)
    have ip: "ipins True bs 0 = (\<lambda>_. 0)" by (simp add: ipins_def fun_eq_iff)
    let ?W = "install_writes start V bs"
    from install_trans_spec [of t p V True bs start] t(2) il out obtain u where u: "install_trans True t = Ret () u"
      "bcache u p (apply_writes ?W V) (\<lambda>_. 0) {}" "disk u = apply_writes ?W (disk t)" "dhist u = rev ?W @ dhist t" "bframe t u"
      by (auto simp: ip)
    let ?u = "upd_lg (\<lambda>l. l\<lparr>lh_n := 0\<rparr>) u"
    have lgu: "lg u = lg t" by (rule bframe_lg [OF u(5)])
    have il0: "in_log ?u start []" using il by (simp add: in_log_def lgu)
    have cu: "bcache ?u p (apply_writes ?W V) (\<lambda>_. 0) {}" using u(2) by simp
    from write_head_spec [OF cu il0 room] obtain x where x: "write_head ?u = Ret () x"
      "bcache x p ((apply_writes ?W V)(start := head_image (apply_writes ?W V start) [])) (\<lambda>_. 0) {}"
      "disk x = (disk ?u)(start := head_image (apply_writes ?W V start) [])"
      "dhist x = (start, head_image (apply_writes ?W V start) []) # dhist ?u" "bframe ?u x" by blast
    have "fst ` set ?W \<subseteq> set bs" by (auto simp: install_writes_def)
    moreover have "start \<notin> set bs" using log_fitsD(1) [OF out] .
    ultimately have st: "apply_writes ?W V start = ?h" using VD by (subst apply_writes_other) auto
    have W: "recovery_writes start (disk s) = ?W @ [(start, head_image ?h [])]"
      using len hl by (simp add: recovery_writes_def install_writes_def VD) (simp add: bs_def)
    have "recover_from_log s = Ret () x" using t(1) u(1) x(1) by (simp add: recover_from_log_def)
    moreover have "lframe s x"
      using lframe_trans [OF t(5) lframe_trans [OF lframe_intros(1) [OF u(5)] lframe_trans [OF lframe_intros(2) lframe_intros(1) [OF x(5)]]]] .
    moreover have "in_log x start []" using il0 in_log_cong [OF bframe_lg [OF x(5)]] by blast
    ultimately show ?thesis
      using x(2-4) [unfolded st] u(3,4) t(3,4) by (simp add: recovered_def W VD)
  next
    case False
    then have n0: "n = 0" "bs = []" by (simp_all add: n_def bs_def)
    have it: "install_trans True t = Ret () t" using False by (simp add: install_trans_def t(6))
    let ?u = "upd_lg (\<lambda>l. l\<lparr>lh_n := 0\<rparr>) t"
    have il0: "in_log ?u start []" using lg by (simp add: in_log_def t(6))
    have cu: "bcache ?u p V (\<lambda>_. 0) {}" using t(2) by simp
    from write_head_spec [OF cu il0 room] obtain x where x: "write_head ?u = Ret () x"
      "bcache x p (V(start := head_image (V start) [])) (\<lambda>_. 0) {}"
      "disk x = (disk ?u)(start := head_image (V start) [])"
      "dhist x = (start, head_image (V start) []) # dhist ?u" "bframe ?u x" by blast
    have W: "recovery_writes start (disk s) = [(start, head_image ?h [])]"
      using n0 by (simp add: recovery_writes_def n_def)
    have "recover_from_log s = Ret () x" using t(1) it x(1) by (simp add: recover_from_log_def)
    moreover have "lframe s x"
      using lframe_trans [OF t(5) lframe_trans [OF lframe_intros(2) lframe_intros(1) [OF x(5)]]] .
    moreover have "in_log x start []" using il0 in_log_cong [OF bframe_lg [OF x(5)]] by blast
    ultimately show ?thesis using x(2-4) t(3,4) by (simp add: recovered_def W VD)
  qed
qed

lemma initlog_spec:
  assumes "bcache s p V (\<lambda>_. 0) {}" and "log_ok start nl (disk s)" and "length (lh_block (lg s)) = LOGSIZE"
  shows "\<exists>t. initlog ROOTDEV start nlog s = Ret () t \<and> bcache t p (recovered start (disk s)) (\<lambda>_. 0) {} \<and>
     disk t = recovered start (disk s) \<and> dhist t = rev (recovery_writes start (disk s)) @ dhist s \<and> lframe s t \<and>
     in_log t start []"
proof -
  let ?s = "upd_lg (\<lambda>l. l\<lparr>lg_start := start, lg_size := sint nlog, lg_dev := ROOTDEV\<rparr>) s"
  have "bcache ?s p V (\<lambda>_. 0) {}" "log_ok start nl (disk ?s)" using assms by simp_all
  from recover_from_log_spec [OF this] assms(3) obtain t where t: "recover_from_log ?s = Ret () t"
    "bcache t p (recovered start (disk s)) (\<lambda>_. 0) {}" "disk t = recovered start (disk s)"
    "dhist t = rev (recovery_writes start (disk s)) @ dhist s" "lframe ?s t" "in_log t start []" by auto
  moreover have "initlog ROOTDEV start nlog s = recover_from_log ?s"
    by (simp add: initlog_def BSIZE_def LOGSIZE_def MAXOPBLOCKS_def)
  ultimately show ?thesis using lframe_trans [OF lframe_intros(2) t(5)] by simp
qed

section \<open>Commit\<close>

lemma commit_spec:
  assumes c: "bcache s p V (ipins False bs 0) {}" and il: "in_log s start bs" and bs: "distinct bs" "length bs < NBUF"
    and out: "log_fits start nl bs"
  shows "\<exists>t. commit s = Ret () t \<and> bcache t p (disk t) (\<lambda>_. 0) {} \<and>
     disk t = apply_writes (commit_writes start (disk s start) V bs) (disk s) \<and>
     dhist t = rev (commit_writes start (disk s start) V bs) @ dhist s \<and> lframe s t \<and> in_log t start []"
proof (cases "bs = []")
  case True
  then have "commit s = Ret () s" "V = disk s" "ipins False bs 0 = (\<lambda>_. 0)"
    using in_logD(3) [OF il] bc.clean_law [OF c] by (auto simp: commit_def ipins_def)
  then show ?thesis using c il True lframe_intros(1) [OF bframe_refl] by (auto simp: commit_writes_def)
next
  case False
  let ?P = "ipins False bs 0"
  have room: "card {b. 0 < ?P b} < NBUF" by (rule ipins_card) (simp add: bs)
  have "start \<notin> set bs" using log_fitsD(1) [OF out] .
  then have V0: "V start = disk s start" using bc.clean_law [OF c, of start] by (simp add: ipins_def)
  let ?h = "disk s start" and ?L = "log_writes start V bs"
  have pinned: "\<And>b. b \<in> set bs \<Longrightarrow> 0 < ?P b" by (simp add: ipins_def)
  from write_log_spec [OF c il room pinned out] obtain t where t: "write_log s = Ret () t"
    "bcache t p (apply_writes ?L V) ?P {}" "disk t = apply_writes ?L (disk s)" "dhist t = rev ?L @ dhist s" "bframe s t" by blast
  have ilt: "in_log t start bs" using il in_log_cong [OF bframe_lg [OF t(5)]] by blast
  have Lst: "apply_writes ?L V start = ?h"
  proof -
    have "start \<notin> fst ` set ?L"
    proof
      assume "start \<in> fst ` set ?L"
      then obtain i where "i < length bs" "log_slot_no start i = start" by (auto simp: log_writes_def)
      then show False using log_slot_not_start [of i start] bs(2) by (simp add: NBUF_def MAXOPBLOCKS_def)
    qed
    then show ?thesis using V0 by (simp add: apply_writes_other)
  qed
  let ?H = "head_image ?h bs" and ?V2 = "(apply_writes ?L V)(start := head_image ?h bs)"
  from write_head_spec [OF t(2) ilt room, unfolded Lst] obtain u where u: "write_head t = Ret () u" "bcache u p ?V2 ?P {}"
    "disk u = (disk t)(start := ?H)" "dhist u = (start, ?H) # dhist t" "bframe t u" by blast
  have ilu: "in_log u start bs" using ilt in_log_cong [OF bframe_lg [OF u(5)]] by blast
  have sl: "?V2 (log_slot_no start i) = V (bs ! i)" if "i < length bs" for i
  proof -
    have "log_slot_no start i \<noteq> start" using log_slot_not_start that bs(2) by (simp add: NBUF_def MAXOPBLOCKS_def)
    moreover have "apply_writes ?L V (log_slot_no start i) = V (bs ! i)"
      using apply_log_writes [OF in_logD(4) [OF il] order_refl that, of start V V] by (simp add: log_writes_def)
    ultimately show ?thesis by simp
  qed
  have iw: "install_writes start ?V2 bs = home_writes V bs"
    by (rule nth_equalityI) (simp_all add: install_writes_def home_writes_def sl del: fun_upd_apply)
  let ?V3 = "apply_writes (home_writes V bs) ?V2"
  have rm: "False \<or> length bs < NBUF \<and> distinct bs" using bs by simp
  from install_trans_spec [OF u(2) ilu rm out, unfolded iw] obtain w where w: "install_trans False u = Ret () w"
    "bcache w p ?V3 (\<lambda>_. 0) {}" "disk w = apply_writes (home_writes V bs) (disk u)"
    "dhist w = rev (home_writes V bs) @ dhist u" "bframe u w" by blast
  let ?w = "upd_lg (\<lambda>l. l\<lparr>lh_n := 0\<rparr>) w"
  have il0: "in_log ?w start []"
    using ilu bframe_lg [OF w(5)] by (simp add: in_log_def)
  have cw: "bcache ?w p ?V3 (\<lambda>_. 0) {}" using w(2) by simp
  have r0: "card {b :: uint. 0 < (0 :: int)} < NBUF" by (simp add: NBUF_def MAXOPBLOCKS_def)
  have V3: "?V3 start = ?H" using \<open>start \<notin> set bs\<close> by (simp add: apply_writes_home)
  from write_head_spec [OF cw il0 r0, unfolded V3] obtain x where x: "write_head ?w = Ret () x"
    "bcache x p (?V3(start := head_image ?H [])) (\<lambda>_. 0) {}" "disk x = (disk ?w)(start := head_image ?H [])"
    "dhist x = (start, head_image ?H []) # dhist ?w" "bframe ?w x" by blast
  have "commit s = Ret () x" using t(1) u(1) w(1) x(1) in_logD(3) [OF il] False by (simp add: commit_def)
  moreover have "lframe s x"
    using lframe_trans [OF lframe_intros(1) [OF bframe_trans [OF bframe_trans [OF t(5) u(5)] w(5)]]
        lframe_trans [OF lframe_intros(2) lframe_intros(1) [OF x(5)]]] .
  moreover have "in_log x start []" using il0 in_log_cong [OF bframe_lg [OF x(5)]] by blast
  moreover have "?V3(start := head_image ?H []) = disk x" using bc.clean_law [OF x(2)] by auto
  then have "bcache x p (disk x) (\<lambda>_. 0) {}" using x(2) by simp
  ultimately show ?thesis
    using x(3,4) w(3,4) u(3,4) t(3,4) False by (simp add: commit_writes_def)
qed

section \<open>Writes inside a transaction\<close>

definition log_add :: "uint \<Rightarrow> uint list \<Rightarrow> uint list" where
  "log_add bn bs = (if bn \<in> set bs then bs else bs @ [bn])"

text \<open>The log has room for another block, and a system call is inside \<^verbatim>\<open>begin_op\<close>/\<^verbatim>\<open>end_op\<close>.\<close>

definition log_open :: "'z lgstate_scheme \<Rightarrow> nat \<Rightarrow> bool" where
  "log_open s n \<longleftrightarrow> n < LOGSIZE \<and> int n < lg_size (lg s) - 1 \<and> 1 \<le> lg_outstanding (lg s) \<and>
     length (lh_block (lg s)) = LOGSIZE \<and> LogLock \<notin> set (held s)"

lemma log_slot_in:
  assumes "take n blocks = bs" and "length bs = n" and "bn \<in> set bs"
  shows "log_slot blocks n bn < n \<and> blocks ! log_slot blocks n bn = bn"
proof -
  obtain j where "j < n" "bs ! j = bn" using assms(2,3) by (auto simp: in_set_conv_nth)
  then have "j < n" "blocks ! j = bn" using assms(1) by auto
  then obtain i where "List.find (\<lambda>i. blocks ! i = bn) [0..<n] = Some i"
    using find_upt_None [of "\<lambda>i. blocks ! i = bn" n] by fastforce
  moreover from this have "i < n" "blocks ! i = bn" by (simp_all only: find_upt_Some)
  ultimately show ?thesis by (simp add: log_slot_def)
qed

lemma log_slot_notin:
  assumes "take n blocks = bs" and "length bs = n" and "bn \<notin> set bs"
  shows "log_slot blocks n bn = n"
proof -
  have "blocks ! i \<noteq> bn" if "i < n" for i
  proof -
    have "bs ! i \<in> set bs" "bs ! i = blocks ! i" using assms(1,2) that by auto
    then show ?thesis using assms(3) by auto
  qed
  then have "List.find (\<lambda>i. blocks ! i = bn) [0..<n] = None" by (simp only: find_upt_None) blast
  then show ?thesis by (simp add: log_slot_def)
qed

lemma log_write_Ret:
  assumes il: "in_log s start bs" and op: "log_open s (length bs)" and b: "b_blockno (bufs s i) = bn"
    and free: "BcacheLock \<notin> set (held s)"
  shows "\<exists>l. log_write i s = Ret () (s\<lparr>bufs := if bn \<in> set bs then bufs s
        else (bufs s)(i := (bufs s i)\<lparr>b_refcnt := b_refcnt (bufs s i) + 1\<rparr>), lg := l\<rparr>) \<and>
     l = (lg s)\<lparr>lh_n := int (length (log_add bn bs)), lh_block := lh_block l\<rparr> \<and>
     take (length (log_add bn bs)) (lh_block l) = log_add bn bs \<and> length (lh_block l) = LOGSIZE"
proof -
  note I = in_logD [OF il]
  let ?n = "length bs" and ?bl = "lh_block (lg s)"
  have tk: "take ?n ?bl = bs" using il by (simp add: in_log_def)
  have op': "?n < LOGSIZE" "int ?n < lg_size (lg s) - 1" "1 \<le> lg_outstanding (lg s)" "length ?bl = LOGSIZE"
    "LogLock \<notin> set (held s)" using op by (simp_all add: log_open_def)
  let ?k = "log_slot ?bl ?n bn"
  show ?thesis
  proof (cases "bn \<in> set bs")
    case True
    note k = log_slot_in [OF tk refl True]
    have "log_write i s = Ret () (s\<lparr>lg := (lg s)\<lparr>lh_block := ?bl[?k := bn]\<rparr>\<rparr>)"
      using op' k by (simp add: log_write_def I(3) b lock_simps upd_lg_def Let_def)
    moreover have "?bl[?k := bn] = ?bl" using k by (metis list_update_id)
    ultimately show ?thesis using True I(3) tk op'(4) by (intro exI [of _ "lg s"]) (simp add: log_add_def)
  next
    case False
    note k = log_slot_notin [OF tk refl False]
    let ?l = "(lg s)\<lparr>lh_n := int ?n + 1, lh_block := ?bl[?n := bn]\<rparr>"
    have "log_write i s = Ret () (s\<lparr>bufs := (bufs s)(i := (bufs s i)\<lparr>b_refcnt := b_refcnt (bufs s i) + 1\<rparr>), lg := ?l\<rparr>)"
      using op' k free by (simp add: log_write_def I(3) b lock_simps upd_lg_def Let_def bpin_ops)
    moreover have "take (Suc ?n) (?bl[?n := bn]) = bs @ [bn]"
      using tk op'(1,4) by (simp add: take_Suc_conv_app_nth)
    ultimately show ?thesis using False op'(4) by (intro exI [of _ ?l]) (simp add: log_add_def)
  qed
qed

lemma log_write_spec:
  assumes c: "bcache s p V ((ipins False bs 0)(bn := ipins False bs 0 bn + 1)) {bn}" and at: "at_buf s i bn"
    and il: "in_log s start bs" and op: "log_open s (length bs)"
  shows "\<exists>t. log_write i s = Ret () t \<and>
     bcache t p V ((ipins False (log_add bn bs) 0)(bn := ipins False (log_add bn bs) 0 bn + 1)) {bn} \<and> at_buf t i bn \<and>
     in_log t start (log_add bn bs) \<and> disk t = disk s \<and> dhist t = dhist s \<and> lframe s t \<and>
     lg_size (lg t) = lg_size (lg s) \<and> lg_outstanding (lg t) = lg_outstanding (lg s) \<and>
     lg_committing (lg t) = lg_committing (lg s) \<and> length (lh_block (lg t)) = LOGSIZE"
proof -
  let ?P = "(ipins False bs 0)(bn := ipins False bs 0 bn + 1)"
  have b: "b_blockno (bufs s i) = bn" using at by (simp add: at_buf_def)
  have free: "BcacheLock \<notin> set (held s)" using bunlockedD bcacheD(3) [OF c] by blast
  from log_write_Ret [OF il op b free] obtain l where l: "log_write i s = Ret () (s\<lparr>bufs := if bn \<in> set bs then bufs s
        else (bufs s)(i := (bufs s i)\<lparr>b_refcnt := b_refcnt (bufs s i) + 1\<rparr>), lg := l\<rparr>)"
     "l = (lg s)\<lparr>lh_n := int (length (log_add bn bs)), lh_block := lh_block l\<rparr>"
     "take (length (log_add bn bs)) (lh_block l) = log_add bn bs" "length (lh_block l) = LOGSIZE"
    by blast
  let ?s = "s\<lparr>bufs := if bn \<in> set bs then bufs s else (bufs s)(i := (bufs s i)\<lparr>b_refcnt := b_refcnt (bufs s i) + 1\<rparr>)\<rparr>"
  have t: "log_write i s = Ret () (upd_lg (\<lambda>_. l) ?s)" using l(1) by (simp add: upd_lg_def)
  have "bn \<in> {bn}" by simp
  moreover have "0 < ?P bn + 1" by (simp add: ipins_def)
  ultimately have "bcache ?s p V (?P(bn := ?P bn + (if bn \<in> set bs then 0 else 1))) {bn}"
    using c bpin_bcache [OF c at, of 1] by simp
  moreover have "?P(bn := ?P bn + (if bn \<in> set bs then 0 else 1)) =
      (ipins False (log_add bn bs) 0)(bn := ipins False (log_add bn bs) 0 bn + 1)"
    by (auto simp: ipins_def log_add_def fun_eq_iff)
  ultimately have cs: "bcache ?s p V ((ipins False (log_add bn bs) 0)(bn := ipins False (log_add bn bs) 0 bn + 1)) {bn}" by metis
  have fr: "lframe s (upd_lg (\<lambda>_. l) ?s)" by (rule lframe_trans [OF lframe_intros(1) [OF bframe_bufs] lframe_intros(2)])
  have len: "length (log_add bn bs) \<le> LOGSIZE" using op in_logD(4) [OF il] by (simp add: log_add_def log_open_def)
  have lg: "lg_dev l = lg_dev (lg s)" "lg_start l = lg_start (lg s)" "lg_size l = lg_size (lg s)"
    "lg_outstanding l = lg_outstanding (lg s)" "lg_committing l = lg_committing (lg s)" "lh_n l = int (length (log_add bn bs))"
    using arg_cong [OF l(2), of lg_dev] arg_cong [OF l(2), of lg_start] arg_cong [OF l(2), of lg_size]
      arg_cong [OF l(2), of lg_outstanding] arg_cong [OF l(2), of lg_committing] arg_cong [OF l(2), of lh_n] by simp_all
  have "in_log (upd_lg (\<lambda>_. l) ?s) start (log_add bn bs)"
    using in_logD(1,2) [OF il] lg l(3) len by (simp add: in_log_def)
  moreover have "at_buf (upd_lg (\<lambda>_. l) ?s) i bn" using at by (simp add: at_buf_def)
  ultimately show ?thesis using t cs fr lg l(4) by (intro exI [of _ "upd_lg (\<lambda>_. l) ?s"]) simp
qed

text \<open>
  The use of the log the comment at \<^verbatim>\<open>log_write\<close> prescribes, to replace a block, and a sequence
  of such updates.
\<close>

definition logged_write :: "uint \<Rightarrow> block \<Rightarrow> 'z lgstate_scheme \<Rightarrow> (unit, 'z lgstate_scheme) res" where
  "logged_write bn d s =
     res_bind (bread ROOTDEV bn s) (\<lambda>bp s.
     res_bind (log_write bp (set_data bp d s)) (\<lambda>_ s. brelse bp s))"

fun logged_writes :: "(uint \<times> block) list \<Rightarrow> 'z lgstate_scheme \<Rightarrow> (unit, 'z lgstate_scheme) res" where
  "logged_writes [] s = Ret () s"
| "logged_writes ((bn, d) # us) s = res_bind (logged_write bn d s) (\<lambda>_ s. logged_writes us s)"

lemma log_open_mono: "log_open s m \<Longrightarrow> n \<le> m \<Longrightarrow> log_open s n"
  by (auto simp: log_open_def)

lemma log_open_cong:
  "held t = held s \<Longrightarrow> lg_size (lg t) = lg_size (lg s) \<Longrightarrow> lg_outstanding (lg t) = lg_outstanding (lg s) \<Longrightarrow>
    length (lh_block (lg t)) = length (lh_block (lg s)) \<Longrightarrow> log_open t n = log_open s n"
  by (simp add: log_open_def)

lemma logged_write_spec:
  assumes c: "bcache s p V (ipins False bs 0) {}" and il: "in_log s start bs" and op: "log_open s (length bs)"
    and d: "length d = BSIZE"
  shows "\<exists>t. logged_write bn d s = Ret () t \<and> bcache t p (V(bn := d)) (ipins False (log_add bn bs) 0) {} \<and>
     in_log t start (log_add bn bs) \<and> disk t = disk s \<and> dhist t = dhist s \<and> lframe s t \<and> (\<forall>n. log_open t n = log_open s n) \<and>
     lg_size (lg t) = lg_size (lg s) \<and> lg_outstanding (lg t) = lg_outstanding (lg s) \<and> lg_committing (lg t) = lg_committing (lg s)"
proof -
  let ?P = "ipins False bs 0" and ?bs = "log_add bn bs"
  have len: "length bs < NBUF" using op by (simp add: log_open_def NBUF_def LOGSIZE_def MAXOPBLOCKS_def)
  have room: "card {b. 0 < ?P b} < NBUF" by (rule ipins_card) (simp add: len)
  from bc.rd_law [OF c, of bn] room obtain i t where t: "bread ROOTDEV bn s = Ret i t"
    "bcache t p V (?P(bn := ?P bn + 1)) {bn}" "at_buf t i bn" "disk t = disk s" "dhist t = dhist s" "bframe s t" by auto
  let ?u = "set_data i d t"
  have L: "bn \<in> {bn}" by simp
  from bc.put_law [OF t(2,3) L d] t(3) have u: "bcache ?u p (V(bn := d)) (?P(bn := ?P bn + 1)) {bn}"
    "at_buf ?u i bn" "disk ?u = disk t" "dhist ?u = dhist t" "bframe t ?u" by blast+
  have su: "bframe s ?u" by (rule bframe_trans [OF t(6) u(5)])
  have ilu: "in_log ?u start bs" using il in_log_cong [OF bframe_lg [OF su]] by blast
  have opu: "log_open ?u (length bs)" using op log_open_cong [of ?u s] bframe_lg [OF su] bframe_held [OF su] by simp
  from log_write_spec [OF u(1,2) ilu opu] obtain w where w: "log_write i ?u = Ret () w"
    "bcache w p (V(bn := d)) ((ipins False ?bs 0)(bn := ipins False ?bs 0 bn + 1)) {bn}" "at_buf w i bn"
    "in_log w start ?bs" "disk w = disk ?u" "dhist w = dhist ?u" "lframe ?u w"
    "lg_size (lg w) = lg_size (lg ?u)" "lg_outstanding (lg w) = lg_outstanding (lg ?u)" "length (lh_block (lg w)) = LOGSIZE"
    "lg_committing (lg w) = lg_committing (lg ?u)"
    by blast
  let ?Q = "(ipins False ?bs 0)(bn := ipins False ?bs 0 bn + 1)"
  have "ipins False ?bs 0 bn = 1" by (simp add: ipins_def log_add_def)
  then have cl: "?Q bn = 1 \<Longrightarrow> (V(bn := d)) bn = disk w bn" by simp
  from bc.rel_law [OF w(2,3) L cl] obtain x where x: "brelse i w = Ret () x"
    "bcache x p (V(bn := d)) (?Q(bn := ?Q bn - 1)) ({bn} - {bn})" "disk x = disk w" "dhist x = dhist w" "bframe w x" by blast
  have Q: "?Q(bn := ?Q bn - 1) = ipins False ?bs 0" "{bn} - {bn} = {}" by auto
  have run: "logged_write bn d s = Ret () x" using t(1) w(1) x(1) by (simp add: logged_write_def)
  have fr: "lframe s x"
    using lframe_trans [OF lframe_intros(1) [OF su] lframe_trans [OF w(7) lframe_intros(1) [OF x(5)]]] .
  have "in_log x start ?bs" using w(4) in_log_cong [OF bframe_lg [OF x(5)]] by blast
  moreover have "log_open x n = log_open s n" for n
    by (rule log_open_cong)
       (use lframe_held [OF fr] bframe_lg [OF x(5)] w(8-10) bframe_lg [OF su] op in \<open>simp_all add: log_open_def\<close>)
  moreover have "lg_size (lg x) = lg_size (lg s)" "lg_outstanding (lg x) = lg_outstanding (lg s)"
    "lg_committing (lg x) = lg_committing (lg s)"
    using bframe_lg [OF x(5)] bframe_lg [OF su] w(8,9,11) by simp_all
  ultimately show ?thesis using run fr x(2-4) w(5,6) u(3,4) t(4,5) unfolding Q by (intro exI [of _ x]) simp
qed

lemma log_add_props:
  "distinct bs \<Longrightarrow> distinct (log_add bn bs)" "length (log_add bn bs) \<le> Suc (length bs)"
  "set (log_add bn bs) = insert bn (set bs)"
  by (auto simp: log_add_def)

lemma logged_writes_spec:
  assumes "bcache s p V (ipins False bs 0) {}" and "in_log s start bs"
    and "us \<noteq> [] \<Longrightarrow> log_open s (length bs + length us - 1)" and "\<And>u. u \<in> set us \<Longrightarrow> length (snd u) = BSIZE"
  shows "\<exists>t. logged_writes us s = Ret () t \<and>
     bcache t p (apply_writes us V) (ipins False (fold log_add (map fst us) bs) 0) {} \<and>
     in_log t start (fold log_add (map fst us) bs) \<and> disk t = disk s \<and> dhist t = dhist s \<and> lframe s t \<and>
     lg_size (lg t) = lg_size (lg s) \<and> lg_outstanding (lg t) = lg_outstanding (lg s) \<and> lg_committing (lg t) = lg_committing (lg s)"
  using assms
proof (induction us arbitrary: s V bs)
  case Nil
  then show ?case using lframe_intros(1) [OF bframe_refl] by simp
next
  case (Cons u us)
  obtain bn d where u: "u = (bn, d)" by (cases u)
  have d: "length d = BSIZE" using Cons.prems(4) [of u] by (simp add: u)
  have op: "log_open s (length bs)" and op': "log_open s (length bs + length us)"
    using Cons.prems(3) by (auto simp: log_open_def)
  from logged_write_spec [OF Cons.prems(1,2) op d, of bn] obtain t where t: "logged_write bn d s = Ret () t"
    "bcache t p (V(bn := d)) (ipins False (log_add bn bs) 0) {}" "in_log t start (log_add bn bs)"
    "disk t = disk s" "dhist t = dhist s" "lframe s t" "\<forall>n. log_open t n = log_open s n"
    "lg_outstanding (lg t) = lg_outstanding (lg s)" "lg_committing (lg t) = lg_committing (lg s)"
    "lg_size (lg t) = lg_size (lg s)" by blast
  have "log_open s (length (log_add bn bs) + length us - 1)"
    by (rule log_open_mono [OF op']) (use log_add_props(2) [of bn bs] in linarith)
  then have "log_open t (length (log_add bn bs) + length us - 1)" using t(7) by blast
  moreover have "\<And>u. u \<in> set us \<Longrightarrow> length (snd u) = BSIZE" using Cons.prems(4) by simp
  ultimately obtain x where x: "logged_writes us t = Ret () x"
     "bcache x p (apply_writes us (V(bn := d))) (ipins False (fold log_add (map fst us) (log_add bn bs)) 0) {}"
     "in_log x start (fold log_add (map fst us) (log_add bn bs))" "disk x = disk t" "dhist x = dhist t" "lframe t x"
     "lg_outstanding (lg x) = lg_outstanding (lg t)" "lg_committing (lg x) = lg_committing (lg t)"
     "lg_size (lg x) = lg_size (lg t)"
    using Cons.IH [OF t(2,3)] by blast
  then show ?case using t(1,4,5,8-10) lframe_trans [OF t(6) x(6)] by (simp add: u)
qed

lemma fold_log_add:
  "(distinct bs \<longrightarrow> distinct (fold log_add xs bs)) \<and> length (fold log_add xs bs) \<le> length bs + length xs \<and>
   set (fold log_add xs bs) = set xs \<union> set bs"
proof (induction xs arbitrary: bs)
  case (Cons x xs)
  have "length (fold log_add xs (log_add x bs)) \<le> length (log_add x bs) + length xs" using Cons.IH by blast
  then show ?case using Cons.IH [of "log_add x bs"] log_add_props [where bn = x and bs = bs] by auto
qed simp

section \<open>Boot\<close>

text \<open>The cache as zero-initialised memory holds it before \<^verbatim>\<open>binit\<close>, with a process running.\<close>

definition cache_zeroed :: "'z bstate_scheme \<Rightarrow> nat \<Rightarrow> bool" where
  "cache_zeroed s p \<longleftrightarrow> (\<forall>i. bufs s i = blank_buf) \<and> (\<forall>bn. length (disk s bn) = BSIZE) \<and>
     myproc s = Some p \<and> bunlocked s"

lemma binit_bcache:
  assumes "cache_zeroed s p"
  shows "bcache (binit s) p (disk s) (\<lambda>_. 0) {}"
proof -
  have z: "\<And>i. bufs s i = blank_buf" "\<And>bn. length (disk s bn) = BSIZE" "myproc s = Some p" "bunlocked s"
    using assms by (simp_all add: cache_zeroed_def)
  have eq: "payload (bufs (binit s) i) = payload blank_buf" for i using z(1) by (simp add: binit_rest)
  note pl = payload_simps [OF eq]
  have none: "buf_of (bufs (binit s)) ROOTDEV bn = None" for bn by (simp add: buf_of_None pl blank_buf_def)
  show ?thesis
  proof (rule bcacheI)
    show "binv (bufs (binit s)) (disk (binit s))" by (rule binit_binv [OF z(1,2)])
    show "myproc (binit s) = Some p" "bunlocked (binit s)"
      using z(3,4) by (simp_all add: binit_rest bunlocked_def no_proc_lock_def)
    show "disk s = view (binit s)" by (simp add: view_def lblock_def none binit_rest fun_eq_iff)
    show "(\<lambda>_. 0) = pins (binit s)" by (simp add: bpins_def none fun_eq_iff)
    show "b_dev (bufs (binit s) i) = 0 \<and> b_refcnt (bufs (binit s) i) = 0" for i by (simp add: pl blank_buf_def)
    show "bidle (binit s) i" if "i < NBUF" for i using that by (rule binit_rest)
  qed (simp_all add: pl blank_buf_def)
qed

lemma binit_lg [simp]: "lg (binit s) = lg s"
proof -
  have "lg (fold binit_step xs s) = lg s" for xs and s :: "'a lgstate_scheme"
    by (induction xs arbitrary: s) (simp_all add: binit_step_def Let_def upd_buf_def initsleeplock_def upd_slock_def)
  then show ?thesis by (simp add: binit_def Let_def upd_buf_def)
qed

section \<open>Atomicity\<close>

lemma begin_op_Ret:
  assumes "LogLock \<notin> set (held s)" and "\<not> lg_committing (lg s)"
    and "lh_n (lg s) + (lg_outstanding (lg s) + 1) * int MAXOPBLOCKS \<le> int LOGSIZE"
  shows "begin_op s = Ret () (upd_lg (\<lambda>l. l\<lparr>lg_outstanding := lg_outstanding l + 1\<rparr>) s)"
  using assms by (simp add: begin_op_def begin_op_loop_def lock_simps upd_lg_def)

text \<open>The last \<^verbatim>\<open>end_op\<close> commits.\<close>

lemma end_op_commit:
  assumes c: "bcache s p V (ipins False bs 0) {}" and il: "in_log s start bs" and bs: "distinct bs" "length bs < NBUF"
    and out: "log_fits start nl bs" and free: "LogLock \<notin> set (held s)"
    and last: "lg_outstanding (lg s) = 1" "\<not> lg_committing (lg s)"
  shows "\<exists>t. end_op s = Ret () t \<and> disk t = apply_writes (commit_writes start (disk s start) V bs) (disk s) \<and>
     dhist t = rev (commit_writes start (disk s start) V bs) @ dhist s"
proof -
  let ?s = "upd_lg (\<lambda>l. l\<lparr>lg_outstanding := 0, lg_committing := True\<rparr>) s"
  have "bcache ?s p V (ipins False bs 0) {}" "in_log ?s start bs" using c il by (simp_all add: in_log_def)
  from commit_spec [OF this bs out] obtain t where t: "commit ?s = Ret () t" "bcache t p (disk t) (\<lambda>_. 0) {}"
    "disk t = apply_writes (commit_writes start (disk s start) V bs) (disk s)"
    "dhist t = rev (commit_writes start (disk s start) V bs) @ dhist s" "lframe ?s t" by auto
  have held: "held t = held s" using lframe_held [OF t(5)] by simp
  have np: "no_proc_lock (upd_lg (\<lambda>l. l\<lparr>lg_committing := False\<rparr>) (t\<lparr>held := LogLock # held s\<rparr>))"
    using bcacheD(3) [OF t(2)] held by (simp add: bunlocked_def no_proc_lock_def)
  let ?t = "upd_lg (\<lambda>l. l\<lparr>lg_committing := False\<rparr>) (t\<lparr>held := LogLock # held s\<rparr>)"
  have w: "wakeup (Some ChanLog) ?t = Ret () (?t\<lparr>procs := woken (Some ChanLog) (myproc ?t) (procs ?t)\<rparr>)"
    by (rule wakeup_Ret) (rule no_proc_lockD [OF np])
  have "end_op s = Ret () (?t\<lparr>procs := woken (Some ChanLog) (myproc ?t) (procs ?t), held := held s\<rparr>)"
    using t(1) w free last held by (simp add: end_op_def lock_simps upd_lg_def Let_def)
  then show ?thesis using t(3,4) by (simp add: upd_lg_def)
qed

text \<open>
  C3. File-system transactions are atomic under crashes. Let the log be idle and empty and a system
  call update the blocks \<open>us\<close> through \<^verbatim>\<open>log_write\<close> between \<^verbatim>\<open>begin_op\<close> and \<^verbatim>\<open>end_op\<close>. The call
  returns, and whatever prefix of its block writes has reached the disk when the machine stops,
  the next boot (\<^verbatim>\<open>binit\<close> and \<^verbatim>\<open>initlog\<close> on zeroed memory) ends with a disk whose blocks outside
  the \<open>nl\<close> = \<^verbatim>\<open>sb.nlog\<close> blocks of the log hold either all of the old contents or all of the updates: the old ones as long as the
  header of the log has not been written, the new ones from then on.
\<close>

theorem transaction_atomic:
  fixes s :: "'z lgstate_scheme"
  assumes "bcache s p (disk s) (\<lambda>_. 0) {}" and "in_log s start []" and "head_n (disk s start) \<le> 0"
    and "lg_outstanding (lg s) = 0" and "\<not> lg_committing (lg s)" and "LogLock \<notin> set (held s)"
    and "length (lh_block (lg s)) = LOGSIZE" and "length us < LOGSIZE \<and> length us < nl" and "lg_size (lg s) = int nl"
    and "\<forall>(b, d) \<in> set us. length d = BSIZE \<and> b \<notin> log_area start nl"
  shows "\<exists>t ws. res_bind (begin_op s) (\<lambda>_ s. res_bind (logged_writes us s) (\<lambda>_ s. end_op s)) = Ret () t \<and>
     dhist t = rev ws @ dhist s \<and> disk t = apply_writes ws (disk s) \<and> same_files start nl (disk t) (apply_writes us (disk s)) \<and>
     (\<forall>k (u :: 'z lgstate_scheme) q nlog. k \<le> length ws \<longrightarrow> disk u = apply_writes (take k ws) (disk s) \<longrightarrow>
        cache_zeroed u q \<longrightarrow> length (lh_block (lg u)) = LOGSIZE \<longrightarrow>
        (\<exists>v. initlog ROOTDEV start nlog (binit u) = Ret () v \<and>
          same_files start nl (disk v) (if k \<le> card (fst ` set us) then disk s else apply_writes us (disk s))))"
proof -
  let ?D = "disk s" and ?V = "apply_writes us (disk s)"
  define bs where "bs = fold log_add (map fst us) []"
  have bs: "distinct bs" "length bs \<le> length us" "set bs = fst ` set us"
    using fold_log_add [of "[]" "map fst us"] by (simp_all add: bs_def)
  have len: "length bs = card (fst ` set us)" using distinct_card [OF bs(1)] bs(3) by simp
  have ip: "ipins False [] 0 = (\<lambda>_. 0)" by (simp add: ipins_def fun_eq_iff)
  have us: "\<And>u. u \<in> set us \<Longrightarrow> length (snd u) = BSIZE" and out: "log_fits start nl bs"
    using assms(8,10) bs(2,3) by (auto simp: log_fits_def)
  let ?s = "upd_lg (\<lambda>l. l\<lparr>lg_outstanding := 1\<rparr>) s"
  have bo: "begin_op s = Ret () ?s"
    using begin_op_Ret [of s] assms(4-6) in_logD(3) [OF assms(2)] by (simp add: LOGSIZE_def MAXOPBLOCKS_def upd_lg_def)
  have c: "bcache ?s p ?D (ipins False [] 0) {}" and il: "in_log ?s start []" using assms(1,2) by (simp_all add: ip in_log_def)
  have op: "us \<noteq> [] \<Longrightarrow> log_open ?s (length us - 1)" using assms(6-9) by (cases us) (auto simp: log_open_def)
  from logged_writes_spec [OF c il, of us] op us assms(5) obtain t where t: "logged_writes us ?s = Ret () t"
    "bcache t p ?V (ipins False bs 0) {}" "in_log t start bs" "disk t = ?D" "dhist t = dhist s" "lframe ?s t"
    "lg_outstanding (lg t) = 1" "\<not> lg_committing (lg t)"
    by (auto simp: bs_def)
  have "length bs < NBUF" "LogLock \<notin> set (held t)"
    using bs(2) assms(6,8) lframe_held [OF t(6)] by (simp_all add: NBUF_def LOGSIZE_def)
  from end_op_commit [OF t(2,3) bs(1) this(1) out this(2) t(7,8)] t(4,5) obtain x where x: "end_op t = Ret () x"
    "disk x = apply_writes (commit_writes start (?D start) ?V bs) ?D"
    "dhist x = rev (commit_writes start (?D start) ?V bs) @ dhist s" by auto
  have "length (?D start) = BSIZE" by (rule bcache_view_length [OF assms(1)])
  moreover have "?V b = ?D b" if "b \<notin> set bs" for b using that bs(3) by (simp add: apply_writes_other)
  ultimately have c: "committing start nl ?D ?V bs"
    using assms(3) in_logD(4) [OF t(3)] out by (simp add: committing_def log_fits_def)
  have "\<exists>v. initlog ROOTDEV start nlog (binit u) = Ret () v \<and>
      same_files start nl (disk v) (if k \<le> card (fst ` set us) then ?D else ?V)"
    if u: "disk u = apply_writes (take k (commit_writes start (?D start) ?V bs)) ?D" "cache_zeroed u q"
      "length (lh_block (lg u)) = LOGSIZE" for k and u :: "'z lgstate_scheme" and q nlog
  proof -
    note cr = crash_commit [OF c u(1)]
    have "log_ok start nl (disk (binit u))" "length (lh_block (lg (binit u))) = LOGSIZE" using cr u(3) by (simp_all add: binit_rest)
    from initlog_spec [OF binit_bcache [OF u(2)] this] obtain v where
      "initlog ROOTDEV start nlog (binit u) = Ret () v" "disk v = recovered start (disk u)" by (auto simp: binit_rest)
    then show ?thesis using cr len by (intro exI [of _ v]) simp
  qed
  then show ?thesis
    using bo t(1) x commit_files [OF c]
    by (intro exI [of _ x] exI [of _ "commit_writes start (?D start) ?V bs"]) simp
qed

text \<open>
  C5. Recovery can itself be interrupted any number of times: if the machine stops after any
  prefix of the block writes \<^verbatim>\<open>initlog\<close> makes, the log on the disk is still well formed and the
  \<^verbatim>\<open>initlog\<close> of the next boot ends with the same files an uninterrupted recovery gives.
\<close>

theorem recovery_restartable:
  fixes s :: "'z lgstate_scheme"
  assumes "cache_zeroed s p" and "length (lh_block (lg s)) = LOGSIZE" and "log_ok start nl (disk s)"
  shows "\<exists>t ws. initlog ROOTDEV start nlog (binit s) = Ret () t \<and> dhist t = rev ws @ dhist (binit s) \<and>
     (\<forall>k (u :: 'z lgstate_scheme) q. k \<le> length ws \<longrightarrow> disk u = apply_writes (take k ws) (disk s) \<longrightarrow>
        cache_zeroed u q \<longrightarrow> length (lh_block (lg u)) = LOGSIZE \<longrightarrow>
        (\<exists>v. log_ok start nl (disk u) \<and> initlog ROOTDEV start nlog (binit u) = Ret () v \<and> same_files start nl (disk v) (disk t)))"
proof -
  have run: "\<exists>t. initlog ROOTDEV start nlog (binit u) = Ret () t \<and> disk t = recovered start (disk u) \<and>
      dhist t = rev (recovery_writes start (disk u)) @ dhist (binit u)"
    if "cache_zeroed u q" "length (lh_block (lg u)) = LOGSIZE" "log_ok start nl (disk u)" for u :: "'z lgstate_scheme" and q
  proof -
    have "log_ok start nl (disk (binit u))" "length (lh_block (lg (binit u))) = LOGSIZE" using that(2,3) by (simp_all add: binit_rest)
    from initlog_spec [OF binit_bcache [OF that(1)] this] show ?thesis by (auto simp: binit_rest)
  qed
  from run [OF assms] obtain t where t: "initlog ROOTDEV start nlog (binit s) = Ret () t"
    "disk t = recovered start (disk s)" "dhist t = rev (recovery_writes start (disk s)) @ dhist (binit s)" by blast
  have "\<exists>v. log_ok start nl (disk u) \<and> initlog ROOTDEV start nlog (binit u) = Ret () v \<and> same_files start nl (disk v) (disk t)"
    if "disk u = apply_writes (take k (recovery_writes start (disk s))) (disk s)" "cache_zeroed u q"
      "length (lh_block (lg u)) = LOGSIZE" for k and u :: "'z lgstate_scheme" and q
  proof -
    note cr = crash_recovery [OF assms(3) that(1)]
    then show ?thesis using run [OF that(2,3)] t(2) by auto
  qed
  then show ?thesis using t(1,3) by (intro exI [of _ t] exI [of _ "recovery_writes start (disk s)"]) simp
qed

text \<open>
  C30. The reservation of \<^verbatim>\<open>begin_op\<close> does not cover what \<^verbatim>\<open>log_write\<close> accepts. With the log of 30
  blocks that \<^verbatim>\<open>mkfs\<close> makes, \<^verbatim>\<open>begin_op\<close> admits three system calls of \<^verbatim>\<open>MAXOPBLOCKS\<close> = 10 blocks
  each into one transaction, but once they have logged 29 different blocks the next \<^verbatim>\<open>log_write\<close>
  panics, even if it writes a block that is already in the log.
\<close>

theorem log_reservation_panics:
  assumes "bcache s p (disk s) (\<lambda>_. 0) {}" and "in_log s start []"
    and "lg_outstanding (lg s) = 0" and "\<not> lg_committing (lg s)" and "LogLock \<notin> set (held s)"
    and "length (lh_block (lg s)) = LOGSIZE" and "lg_size (lg s) = int LOGSIZE"
    and "length us = LOGSIZE - 1" and "distinct (map fst us)" and "\<forall>(b, d) \<in> set us. length d = BSIZE" and "length d = BSIZE"
  shows "res_bind (begin_op s) (\<lambda>_ s. res_bind (begin_op s) (\<lambda>_ s. res_bind (begin_op s) (\<lambda>_ s.
     res_bind (logged_writes us s) (\<lambda>_ s. logged_write bn d s)))) = Panic ''too big a transaction''"
proof -
  let ?s = "upd_lg (\<lambda>l. l\<lparr>lg_outstanding := 3\<rparr>) s"
  have c: "bcache ?s p (disk s) (ipins False [] 0) {}" and il: "in_log ?s start []"
    using assms(1,2) by (simp_all add: in_log_def ipins_def [abs_def])
  have b3: "res_bind (begin_op s) (\<lambda>_ s. res_bind (begin_op s) (\<lambda>_ s. res_bind (begin_op s) f)) = f () ?s" for f
    using assms(3-5) in_logD(3) [OF assms(2)] by (simp add: begin_op_Ret LOGSIZE_def MAXOPBLOCKS_def) (simp add: upd_lg_def)
  define bs where "bs = fold log_add (map fst us) []"
  have op: "us \<noteq> [] \<Longrightarrow> log_open ?s (length [] + length us - 1)"
    using assms(5-8) by (simp add: log_open_def LOGSIZE_def MAXOPBLOCKS_def)
  have us: "\<And>u. u \<in> set us \<Longrightarrow> length (snd u) = BSIZE" using assms(10) by auto
  from logged_writes_spec [OF c il op us] obtain t where t: "logged_writes us ?s = Ret () t"
    "bcache t p (apply_writes us (disk s)) (ipins False bs 0) {}" "in_log t start bs" "lframe ?s t" "lg_size (lg t) = int LOGSIZE"
    using assms(7) by (auto simp: bs_def)
  have len: "length bs = LOGSIZE - 1"
    using fold_log_add [of "[]" "map fst us"] distinct_card [of bs] distinct_card [OF assms(9)] assms(8) by (simp add: bs_def)
  have room: "card {b. 0 < ipins False bs 0 b} < NBUF"
    by (rule ipins_card) (simp add: len NBUF_def LOGSIZE_def MAXOPBLOCKS_def)
  from bc.rd_law [OF t(2), of bn] room obtain i u where u: "bread ROOTDEV bn t = Ret i u" "bframe t u" by auto
  have "LogLock \<notin> set (held (set_data i d u))"
    using assms(5) lframe_held [OF t(4)] bframe_held [OF u(2)] by (simp add: set_data_def upd_buf_def)
  then have "log_write i (set_data i d u) = Panic ''too big a transaction''"
    using bframe_lg [OF u(2)] t(5) in_logD(3) [OF t(3)] len by (simp add: log_write_def lock_simps LOGSIZE_def MAXOPBLOCKS_def)
  then have "logged_write bn d t = Panic ''too big a transaction''" using u(1) by (simp add: logged_write_def)
  then show ?thesis by (simp add: b3 t(1))
qed

section \<open>Witnesses\<close>

text \<open>A zeroed disk with an idle log at block 2.\<close>

definition blank_lgstate :: lgstate where
  "blank_lgstate = bstate.extend (blank_bstate\<lparr>disk := \<lambda>_. replicate BSIZE 0\<rparr>)
     \<lparr>lg = \<lparr>lg_start = 2, lg_size = 30, lg_outstanding = 0, lg_committing = False, lg_dev = ROOTDEV, lh_n = 0,
        lh_block = replicate LOGSIZE 0\<rparr>\<rparr>"

lemma blank_lgstate_simps:
  "bufs blank_lgstate = (\<lambda>_. blank_buf)" "disk blank_lgstate = (\<lambda>_. replicate BSIZE 0)" "held blank_lgstate = []"
  "lg blank_lgstate = \<lparr>lg_start = 2, lg_size = 30, lg_outstanding = 0, lg_committing = False, lg_dev = ROOTDEV, lh_n = 0,
     lh_block = replicate LOGSIZE 0\<rparr>" "myproc blank_lgstate = Some 0" "bunlocked blank_lgstate" "dhist blank_lgstate = []"
  by (simp_all add: blank_lgstate_def blank_bstate_def bstate.defs myproc_def cpuid_def bunlocked_def no_proc_lock_def)

lemma blank_head: "head_n (replicate BSIZE 0) = 0"
  by (simp add: head_n_def get32_def BSIZE_def numeral_eq_Suc)

lemma blank_lgstate_ok:
  "cache_zeroed blank_lgstate 0" "length (lh_block (lg blank_lgstate)) = LOGSIZE" "log_ok 2 30 (disk blank_lgstate)"
  by (simp_all add: cache_zeroed_def blank_lgstate_simps log_ok_def blank_head)

text \<open>The first block of inodes, right behind the log.\<close>

lemma inodes_behind_log: "(32 :: uint) \<notin> log_area 2 30"
proof
  assume "(32 :: uint) \<in> log_area 2 30"
  then obtain i where i: "i < 29" "(32 :: uint) = log_slot_no 2 i" by (auto simp: log_area_def)
  then have "(of_nat i :: uint) = 29" by (simp add: log_slot_no_def algebra_simps)
  then have "unat (of_nat i :: uint) = 29" by simp
  then show False using i(1) by (simp add: unsigned_of_nat take_bit_nat_eq_self)
qed

theorem transaction_atomic_witness:
  "\<exists>t ws. res_bind (begin_op (binit blank_lgstate)) (\<lambda>_ s.
       res_bind (logged_writes [(32, replicate BSIZE 1)] s) (\<lambda>_ s. end_op s)) = Ret () t \<and>
     dhist t = rev ws @ dhist (binit blank_lgstate) \<and> disk t 32 = replicate BSIZE 1"
proof -
  let ?s = "binit blank_lgstate"
  have 1: "bcache ?s 0 (disk ?s) (\<lambda>_. 0) {}"
    using binit_bcache [OF blank_lgstate_ok(1)] by (simp add: binit_rest)
  have 2: "in_log ?s 2 []" "head_n (disk ?s 2) \<le> 0" "lg_outstanding (lg ?s) = 0" "\<not> lg_committing (lg ?s)"
    "LogLock \<notin> set (held ?s)" "length (lh_block (lg ?s)) = LOGSIZE"
    by (simp_all add: in_log_def blank_lgstate_simps binit_rest blank_head)
  have 3: "length [(32 :: uint, replicate BSIZE (1 :: uchar))] < LOGSIZE \<and> length [(32 :: uint, replicate BSIZE (1 :: uchar))] < 30"
    "lg_size (lg ?s) = int 30"
    "\<forall>(b, d) \<in> set [(32 :: uint, replicate BSIZE (1 :: uchar))]. length d = BSIZE \<and> b \<notin> log_area 2 30"
    using inodes_behind_log by (simp_all add: blank_lgstate_simps binit_rest LOGSIZE_def MAXOPBLOCKS_def)
  from transaction_atomic [OF 1 2 3] obtain t ws where
    t: "res_bind (begin_op ?s) (\<lambda>_ s. res_bind (logged_writes [(32, replicate BSIZE 1)] s) (\<lambda>_ s. end_op s)) = Ret () t"
      "dhist t = rev ws @ dhist ?s" "same_files 2 30 (disk t) (apply_writes [(32, replicate BSIZE 1)] (disk ?s))"
    by blast
  have "disk t 32 = replicate BSIZE 1" using t(3) inodes_behind_log by (simp add: same_files_def)
  with t show ?thesis by blast
qed

theorem recovery_restartable_witness:
  "\<exists>t ws. initlog ROOTDEV 2 30 (binit blank_lgstate) = Ret () t \<and> dhist t = rev ws @ dhist (binit blank_lgstate)"
  using recovery_restartable [OF blank_lgstate_ok, of 30] by blast

theorem log_reservation_panics_witness:
  "res_bind (begin_op (binit blank_lgstate)) (\<lambda>_ s. res_bind (begin_op s) (\<lambda>_ s. res_bind (begin_op s) (\<lambda>_ s.
     res_bind (logged_writes (map (\<lambda>i. (of_nat i + 100, replicate BSIZE 1)) [0..<29]) s)
       (\<lambda>_ s. logged_write 100 (replicate BSIZE 2) s)))) = Panic ''too big a transaction''"
proof -
  let ?s = "binit blank_lgstate" and ?us = "map (\<lambda>i. (of_nat i + 100 :: uint, replicate BSIZE (1 :: uchar))) [0..<29]"
  have 1: "bcache ?s 0 (disk ?s) (\<lambda>_. 0) {}"
    using binit_bcache [OF blank_lgstate_ok(1)] by (simp add: binit_rest)
  have 2: "in_log ?s 2 []" "lg_outstanding (lg ?s) = 0" "\<not> lg_committing (lg ?s)"
    "LogLock \<notin> set (held ?s)" "length (lh_block (lg ?s)) = LOGSIZE" "lg_size (lg ?s) = int LOGSIZE"
    by (simp_all add: in_log_def blank_lgstate_simps binit_rest LOGSIZE_def MAXOPBLOCKS_def)
  have 3: "length ?us = LOGSIZE - 1" "\<forall>(b, d) \<in> set ?us. length d = BSIZE" "length (replicate BSIZE (2 :: uchar)) = BSIZE"
    by (simp_all add: LOGSIZE_def MAXOPBLOCKS_def)
  have 4: "distinct (map fst ?us)" by (simp add: upt_rec)
  show ?thesis using log_reservation_panics [OF 1 2 3(1) 4 3(2,3)] by blast
qed

end
