(* ===== verification/Boot.thy ===== *)
theory Boot
  imports Trap Scheduler
begin

text \<open>
  The boot: \<^verbatim>\<open>start\<close> and \<^verbatim>\<open>timerinit\<close> in machine mode (\<^verbatim>\<open>kernel/start.c\<close>) and \<^verbatim>\<open>main\<close> in supervisor
  mode (\<^verbatim>\<open>kernel/main.c\<close>).
\<close>

section \<open>Machine mode\<close>

text \<open>The machine-mode registers of a hart, the timer, and the hart's part of \<^verbatim>\<open>timer_scratch\<close>.\<close>

record mhart =
  m_mstatus :: uint64
  m_mepc :: uint64
  m_satp :: uint64
  m_medeleg :: uint64
  m_mideleg :: uint64
  m_sie :: uint64
  m_pmpaddr0 :: uint64
  m_pmpcfg0 :: uint64
  m_mhartid :: uint64
  m_mscratch :: uint64
  m_mtvec :: uint64
  m_mie :: uint64
  m_tp :: uint64
  m_mtime :: uint64
  m_mtimecmp :: uint64
  m_scratch :: "uint64 list"

definition MSTATUS_MPP_MASK :: uint64 where "MSTATUS_MPP_MASK = push_bit 11 3"
definition MSTATUS_MPP_S :: uint64 where "MSTATUS_MPP_S = push_bit 11 1"
definition MSTATUS_MIE :: uint64 where "MSTATUS_MIE = push_bit 3 1"
definition SIE_SEIE :: uint64 where "SIE_SEIE = push_bit 9 1"
definition SIE_STIE :: uint64 where "SIE_STIE = push_bit 5 1"
definition SIE_SSIE :: uint64 where "SIE_SSIE = push_bit 1 1"
definition MIE_MTIE :: uint64 where "MIE_MTIE = push_bit 7 1"

definition CLINT :: uint64 where "CLINT = 0x2000000"
definition CLINT_MTIMECMP :: "uint64 \<Rightarrow> uint64" where "CLINT_MTIMECMP hart = CLINT + 0x4000 + 8 * hart"

text \<open>\<open>scr\<close> is the address of \<^verbatim>\<open>timer_scratch\<close>, whose rows are 40 bytes, and \<open>timervec\<close> that of the handler.\<close>

definition timerinit :: "uint64 \<Rightarrow> uint64 \<Rightarrow> mhart \<Rightarrow> mhart" where
  "timerinit scr timervec m =
     (let i = m_mhartid m; interval = 1000000;
          m = m\<lparr>m_mtimecmp := m_mtime m + interval\<rparr>;
          m = m\<lparr>m_scratch := (m_scratch m)[3 := CLINT_MTIMECMP i, 4 := interval]\<rparr>;
          m = m\<lparr>m_mscratch := scr + 40 * i\<rparr>;
          m = m\<lparr>m_mtvec := timervec\<rparr>;
          m = m\<lparr>m_mstatus := m_mstatus m OR MSTATUS_MIE\<rparr>
      in m\<lparr>m_mie := m_mie m OR MIE_MTIE\<rparr>)"

definition start :: "uint64 \<Rightarrow> uint64 \<Rightarrow> uint64 \<Rightarrow> mhart \<Rightarrow> mhart" where
  "start mainaddr scr timervec m =
     (let m = m\<lparr>m_mstatus := m_mstatus m AND NOT MSTATUS_MPP_MASK OR MSTATUS_MPP_S\<rparr>;
          m = m\<lparr>m_mepc := mainaddr\<rparr>;
          m = m\<lparr>m_satp := 0\<rparr>;
          m = m\<lparr>m_medeleg := 0xffff\<rparr>;
          m = m\<lparr>m_mideleg := 0xffff\<rparr>;
          m = m\<lparr>m_sie := m_sie m OR SIE_SEIE OR SIE_STIE OR SIE_SSIE\<rparr>;
          m = m\<lparr>m_pmpaddr0 := 0x3fffffffffffff\<rparr>;
          m = m\<lparr>m_pmpcfg0 := 0xf\<rparr>;
          m = timerinit scr timervec m
      in m\<lparr>m_tp := m_mhartid m\<rparr>)"

section \<open>Supervisor mode\<close>

text \<open>
  \<^verbatim>\<open>kvminit\<close> and the value \<^verbatim>\<open>kvminithart\<close> writes to \<^verbatim>\<open>satp\<close> are of \<^verbatim>\<open>kernel/vm.c\<close>. The initialisations that
  only name a free lock (\<^verbatim>\<open>trapinit\<close>, \<^verbatim>\<open>fileinit\<close>) have no effect on the state of the hart.
\<close>

record kvm_ops =
  kvm_init :: "kmem \<Rightarrow> (unit, kmem) res"
  kvm_satp :: "kmem \<Rightarrow> uint64"

record bootstate = trstate +
  started :: bool

definition kvminithart :: "kvm_ops \<Rightarrow> 'z trstate_scheme \<Rightarrow> 'z trstate_scheme" where
  "kvminithart kv s = s\<lparr>c_satp := kvm_satp kv (phys s)\<rparr>"

definition main_banner :: "'z prstate_scheme \<Rightarrow> (unit, 'z prstate_scheme) res" where
  "main_banner s =
     res_bind (printf (Some [10]) [] s) (\<lambda>_ s.
     res_bind (printf (Some (bytes ''xv6 kernel is booting'' @ [10])) [] s) (\<lambda>_ s.
     printf (Some [10]) [] s))"

text \<open>
  \<^verbatim>\<open>main\<close> up to the call of \<^verbatim>\<open>scheduler\<close>; the value is the policy function called there. A hart other than
  0 spins until \<^verbatim>\<open>started\<close> is set.
\<close>

definition main :: "kvm_ops \<Rightarrow> vm_ops \<Rightarrow> ksyms \<Rightarrow> (nat \<Rightarrow> uint) \<Rightarrow> 'z bootstate_scheme \<Rightarrow> (sched_alg option, 'z bootstate_scheme) res" where
  "main kv vm ks R s =
     (if cpuid s = 0 then
        res_bind (main_banner (printfinit (consoleinit s))) (\<lambda>_ s.
        res_bind (kinit s) (\<lambda>_ s.
        res_bind (vm_run (kvm_init kv) s) (\<lambda>_ s.
        res_bind (procinit (kvminithart kv s)) (\<lambda>_ s.
        let s = trapinithart ks s; s = plicinit s; s = plicinithart s; s = binit s; s = iinit s in
        res_bind (virtio_disk_init R s) (\<lambda>_ s.
        res_bind (userinit vm ks s) (\<lambda>_ s.
        let s = s\<lparr>started := True\<rparr> in Ret (scheduler s) s))))))
      else if started s then
        res_bind (printf (Some (bytes ''hart %d starting'' @ [10])) [IntArg (of_nat (cpuid s))] s) (\<lambda>_ s.
        let s = kvminithart kv s; s = trapinithart ks s; s = plicinithart s in
        Ret (scheduler s) s)
      else Hang)"

end
