(* ===== verification/Asm.thy ===== *)
theory Asm
  imports Kalloc
begin

text \<open>
  The assembly code of the kernel: \<^verbatim>\<open>kernel/trampoline.S\<close>, \<^verbatim>\<open>kernel/swtch.S\<close> and \<^verbatim>\<open>kernel/kernelvec.S\<close>,
  as lists of the instructions they use, with an interpreter for these. Address translation is the
  argument \<open>tr\<close>, from the value of \<^verbatim>\<open>satp\<close> and a virtual address to a physical one.
\<close>

section \<open>Instructions\<close>

datatype reg =
    RA | SP | GP | TP | T0 | T1 | T2 | S0 | S1
  | A0 | A1 | A2 | A3 | A4 | A5 | A6 | A7
  | S2 | S3 | S4 | S5 | S6 | S7 | S8 | S9 | S10 | S11 | T3 | T4 | T5 | T6

datatype csr = Sscratch | Satp | Mscratch | Sip

datatype instr =
    Sd reg nat reg | Ld reg nat reg | Li reg uint64 | Addi reg reg uint64 | Add reg reg reg
  | Csrw csr reg | Csrr reg csr | Csrrw reg csr reg | Sfence | Jr reg | Retn | Sret | Mret

record acpu =
  aregs :: "reg \<Rightarrow> uint64"
  acsr :: "csr \<Rightarrow> uint64"
  amem :: memory
  apc :: uint64
  asepc :: uint64
  amepc :: uint64

type_synonym mmu = "uint64 \<Rightarrow> uint64 \<Rightarrow> uint64"

definition addr :: "mmu \<Rightarrow> acpu \<Rightarrow> reg \<Rightarrow> nat \<Rightarrow> uint64" where
  "addr tr c b off = tr (acsr c Satp) (aregs c b + of_nat off)"

fun step :: "mmu \<Rightarrow> instr \<Rightarrow> acpu \<Rightarrow> acpu" where
  "step tr (Sd r off b) c = c\<lparr>amem := store64 (amem c) (addr tr c b off) (aregs c r)\<rparr>"
| "step tr (Ld r off b) c = c\<lparr>aregs := (aregs c)(r := load64 (amem c) (addr tr c b off))\<rparr>"
| "step tr (Li r v) c = c\<lparr>aregs := (aregs c)(r := v)\<rparr>"
| "step tr (Addi r a v) c = c\<lparr>aregs := (aregs c)(r := aregs c a + v)\<rparr>"
| "step tr (Add r a b) c = c\<lparr>aregs := (aregs c)(r := aregs c a + aregs c b)\<rparr>"
| "step tr (Csrw x r) c = c\<lparr>acsr := (acsr c)(x := aregs c r)\<rparr>"
| "step tr (Csrr r x) c = c\<lparr>aregs := (aregs c)(r := acsr c x)\<rparr>"
| "step tr (Csrrw r x a) c = c\<lparr>aregs := (aregs c)(r := acsr c x), acsr := (acsr c)(x := aregs c a)\<rparr>"
| "step tr Sfence c = c"
| "step tr (Jr r) c = c\<lparr>apc := aregs c r\<rparr>"
| "step tr Retn c = c\<lparr>apc := aregs c RA\<rparr>"
| "step tr Sret c = c\<lparr>apc := asepc c\<rparr>"
| "step tr Mret c = c\<lparr>apc := amepc c\<rparr>"

definition run :: "mmu \<Rightarrow> instr list \<Rightarrow> acpu \<Rightarrow> acpu" where
  "run tr is c = fold (step tr) is c"

section \<open>The routines\<close>

definition uservec :: "instr list" where
  "uservec = [
     Csrw Sscratch A0, Li A0 TRAPFRAME, Sd RA 40 A0, Sd SP 48 A0, Sd GP 56 A0, Sd TP 64 A0,
     Sd T0 72 A0, Sd T1 80 A0, Sd T2 88 A0, Sd S0 96 A0, Sd S1 104 A0, Sd A1 120 A0,
     Sd A2 128 A0, Sd A3 136 A0, Sd A4 144 A0, Sd A5 152 A0, Sd A6 160 A0, Sd A7 168 A0,
     Sd S2 176 A0, Sd S3 184 A0, Sd S4 192 A0, Sd S5 200 A0, Sd S6 208 A0, Sd S7 216 A0,
     Sd S8 224 A0, Sd S9 232 A0, Sd S10 240 A0, Sd S11 248 A0, Sd T3 256 A0, Sd T4 264 A0,
     Sd T5 272 A0, Sd T6 280 A0, Csrr T0 Sscratch, Sd T0 112 A0, Ld SP 8 A0, Ld TP 32 A0,
     Ld T0 16 A0, Ld T1 0 A0, Sfence, Csrw Satp T1, Sfence, Jr T0]"

definition userret :: "instr list" where
  "userret = [
     Sfence, Csrw Satp A0, Sfence, Li A0 TRAPFRAME, Ld RA 40 A0, Ld SP 48 A0,
     Ld GP 56 A0, Ld TP 64 A0, Ld T0 72 A0, Ld T1 80 A0, Ld T2 88 A0, Ld S0 96 A0,
     Ld S1 104 A0, Ld A1 120 A0, Ld A2 128 A0, Ld A3 136 A0, Ld A4 144 A0, Ld A5 152 A0,
     Ld A6 160 A0, Ld A7 168 A0, Ld S2 176 A0, Ld S3 184 A0, Ld S4 192 A0, Ld S5 200 A0,
     Ld S6 208 A0, Ld S7 216 A0, Ld S8 224 A0, Ld S9 232 A0, Ld S10 240 A0, Ld S11 248 A0,
     Ld T3 256 A0, Ld T4 264 A0, Ld T5 272 A0, Ld T6 280 A0, Ld A0 112 A0, Sret]"

definition swtch :: "instr list" where
  "swtch = [
     Sd RA 0 A0, Sd SP 8 A0, Sd S0 16 A0, Sd S1 24 A0, Sd S2 32 A0, Sd S3 40 A0,
     Sd S4 48 A0, Sd S5 56 A0, Sd S6 64 A0, Sd S7 72 A0, Sd S8 80 A0, Sd S9 88 A0,
     Sd S10 96 A0, Sd S11 104 A0, Ld RA 0 A1, Ld SP 8 A1, Ld S0 16 A1, Ld S1 24 A1,
     Ld S2 32 A1, Ld S3 40 A1, Ld S4 48 A1, Ld S5 56 A1, Ld S6 64 A1, Ld S7 72 A1,
     Ld S8 80 A1, Ld S9 88 A1, Ld S10 96 A1, Ld S11 104 A1, Retn]"

text \<open>\<^verbatim>\<open>kernelvec\<close> before and after its call of \<^verbatim>\<open>kerneltrap\<close>.\<close>

definition kernelvec_save :: "instr list" where
  "kernelvec_save = [
     Addi SP SP (-256), Sd RA 0 SP, Sd SP 8 SP, Sd GP 16 SP, Sd TP 24 SP, Sd T0 32 SP,
     Sd T1 40 SP, Sd T2 48 SP, Sd S0 56 SP, Sd S1 64 SP, Sd A0 72 SP, Sd A1 80 SP,
     Sd A2 88 SP, Sd A3 96 SP, Sd A4 104 SP, Sd A5 112 SP, Sd A6 120 SP, Sd A7 128 SP,
     Sd S2 136 SP, Sd S3 144 SP, Sd S4 152 SP, Sd S5 160 SP, Sd S6 168 SP, Sd S7 176 SP,
     Sd S8 184 SP, Sd S9 192 SP, Sd S10 200 SP, Sd S11 208 SP, Sd T3 216 SP, Sd T4 224 SP,
     Sd T5 232 SP, Sd T6 240 SP]"

definition kernelvec_restore :: "instr list" where
  "kernelvec_restore = [
     Ld RA 0 SP, Ld SP 8 SP, Ld GP 16 SP, Ld T0 32 SP, Ld T1 40 SP, Ld T2 48 SP,
     Ld S0 56 SP, Ld S1 64 SP, Ld A0 72 SP, Ld A1 80 SP, Ld A2 88 SP, Ld A3 96 SP,
     Ld A4 104 SP, Ld A5 112 SP, Ld A6 120 SP, Ld A7 128 SP, Ld S2 136 SP, Ld S3 144 SP,
     Ld S4 152 SP, Ld S5 160 SP, Ld S6 168 SP, Ld S7 176 SP, Ld S8 184 SP, Ld S9 192 SP,
     Ld S10 200 SP, Ld S11 208 SP, Ld T3 216 SP, Ld T4 224 SP, Ld T5 232 SP, Ld T6 240 SP,
     Addi SP SP 256, Sret]"

definition timervec :: "instr list" where
  "timervec = [
     Csrrw A0 Mscratch A0, Sd A1 0 A0, Sd A2 8 A0, Sd A3 16 A0, Ld A1 24 A0, Ld A2 32 A0,
     Ld A3 0 A1, Add A3 A3 A2, Sd A3 0 A1, Li A1 2, Csrw Sip A1, Ld A3 16 A0,
     Ld A2 8 A0, Ld A1 0 A0, Csrrw A0 Mscratch A0, Mret]"

section \<open>Save areas\<close>

text \<open>
  \<open>n\<close> bytes at the virtual address \<open>va\<close> that lie in one piece at the physical address \<open>pa\<close>, and the
  aligned doublewords in them.
\<close>

definition mapped :: "mmu \<Rightarrow> uint64 \<Rightarrow> uint64 \<Rightarrow> uint64 \<Rightarrow> nat \<Rightarrow> bool" where
  "mapped tr satp va pa n \<longleftrightarrow> unat pa + n \<le> 2 ^ 64 \<and> (\<forall>i<n. tr satp (va + of_nat i) = pa + of_nat i)"

definition slot_ok :: "nat \<Rightarrow> nat \<Rightarrow> bool" where
  "slot_ok n off \<longleftrightarrow> off mod 8 = 0 \<and> off + 8 \<le> n"

lemma mapped_slot: "mapped tr satp va pa n \<Longrightarrow> slot_ok n off \<Longrightarrow> tr satp (va + of_nat off) = pa + of_nat off"
  by (simp add: mapped_def slot_ok_def)

lemma load64_slot:
  assumes "unat pa + n \<le> 2 ^ 64" "slot_ok n i" "slot_ok n j"
  shows "load64 (store64 m (pa + of_nat i) v) (pa + of_nat j) = (if i = j then v else load64 m (pa + of_nat j))"
proof (cases "i = j")
  case True
  have "unat (pa + of_nat i) + 8 \<le> 2 ^ 64"
    using assms by (simp add: slot_ok_def unat_add_of_nat)
  then show ?thesis using True by (simp add: load64_store64)
next
  case False
  have i: "unat (pa + of_nat i) = unat pa + i" "i + 8 \<le> n" using assms by (simp_all add: slot_ok_def unat_add_of_nat)
  have "store64 m (pa + of_nat i) v (pa + of_nat j + of_nat k) = m (pa + of_nat j + of_nat k)" if k: "k < 8" for k
  proof -
    have jk: "unat (pa + of_nat (j + k)) = unat pa + (j + k)" using assms k by (intro unat_add_of_nat) (simp add: slot_ok_def)
    have "\<not> (i \<le> j + k \<and> j + k < i + 8)"
      using False assms k by (auto simp: slot_ok_def elim!: dvdE simp flip: dvd_eq_mod_eq_0)
    then have "\<not> in_range (pa + of_nat i) 8 (pa + of_nat (j + k))"
      using i jk by (simp add: in_range_def)
    then show ?thesis
      using i assms(1) by (simp add: store64_def store_bytes_apply add.assoc)
  qed
  then have "load64 (store64 m (pa + of_nat i) v) (pa + of_nat j) = load64 m (pa + of_nat j)" by (rule load64_cong)
  then show ?thesis using False by simp
qed

definition saves :: "reg \<Rightarrow> (reg \<times> nat) list \<Rightarrow> instr list" where
  "saves b ps = map (\<lambda>(r, off). Sd r off b) ps"

definition loads :: "reg \<Rightarrow> (reg \<times> nat) list \<Rightarrow> instr list" where
  "loads b ps = map (\<lambda>(r, off). Ld r off b) ps"

lemma run_simps [simp]:
  "run tr [] c = c"
  "run tr (i # is) c = run tr is (step tr i c)"
  "run tr (is @ js) c = run tr js (run tr is c)"
  by (simp_all add: run_def)

lemma run_saves:
  assumes "mapped tr (acsr c Satp) (aregs c b) pa n" "list_all (\<lambda>x. slot_ok n (snd x)) ps"
  shows "run tr (saves b ps) c = c\<lparr>amem := fold (\<lambda>(r, off) m. store64 m (pa + of_nat off) (aregs c r)) ps (amem c)\<rparr>"
  using assms
proof (induction ps arbitrary: c)
  case Nil
  then show ?case by (simp add: saves_def)
next
  case (Cons x ps)
  obtain r off where x: "x = (r, off)" by (cases x)
  let ?d = "c\<lparr>amem := store64 (amem c) (pa + of_nat off) (aregs c r)\<rparr>"
  have "step tr (Sd r off b) c = ?d" using Cons.prems x by (simp add: addr_def mapped_slot)
  moreover have "run tr (saves b ps) ?d = ?d\<lparr>amem := fold (\<lambda>(r, off) m. store64 m (pa + of_nat off) (aregs ?d r)) ps (amem ?d)\<rparr>"
    using Cons.prems by (intro Cons.IH) simp_all
  ultimately show ?case by (simp add: saves_def x)
qed

lemma saves_frame: "aregs (run tr (saves b ps) c) = aregs c \<and> acsr (run tr (saves b ps) c) = acsr c"
  by (induction ps arbitrary: c) (auto simp: saves_def)

lemma load_saved:
  assumes "unat pa + n \<le> 2 ^ 64" "list_all (\<lambda>x. slot_ok n (snd x)) ps" "distinct (map snd ps)" "slot_ok n off"
  shows "load64 (fold (\<lambda>(r, off) m. store64 m (pa + of_nat off) (g r)) ps m) (pa + of_nat off) =
    (case map_of (map prod.swap ps) off of Some r \<Rightarrow> g r | None \<Rightarrow> load64 m (pa + of_nat off))"
  using assms(2,3)
proof (induction ps arbitrary: m)
  case Nil
  then show ?case by simp
next
  case (Cons x ps)
  obtain r i where x: "x = (r, i)" by (cases x)
  have "map_of (map prod.swap ps) i = None" using Cons.prems x by (auto simp: map_of_eq_None_iff image_image)
  then show ?case using Cons x assms(1,4) by (auto simp: load64_slot split: option.splits)
qed

lemma run_loads:
  assumes "mapped tr (acsr c Satp) (aregs c b) pa n" "list_all (\<lambda>x. slot_ok n (snd x) \<and> fst x \<noteq> b) ps" "distinct (map fst ps)"
  shows "run tr (loads b ps) c =
    c\<lparr>aregs := (\<lambda>r. case map_of ps r of Some off \<Rightarrow> load64 (amem c) (pa + of_nat off) | None \<Rightarrow> aregs c r)\<rparr>"
  using assms
proof (induction ps arbitrary: c)
  case Nil
  then show ?case by (simp add: loads_def)
next
  case (Cons x ps)
  obtain r off where x: "x = (r, off)" by (cases x)
  let ?d = "c\<lparr>aregs := (aregs c)(r := load64 (amem c) (pa + of_nat off))\<rparr>"
  have "step tr (Ld r off b) c = ?d" using Cons.prems x by (simp add: addr_def mapped_slot)
  moreover have "run tr (loads b ps) ?d =
      ?d\<lparr>aregs := (\<lambda>r. case map_of ps r of Some off \<Rightarrow> load64 (amem ?d) (pa + of_nat off) | None \<Rightarrow> aregs ?d r)\<rparr>"
    using Cons.prems x by (intro Cons.IH) auto
  moreover have "map_of ps r = None" using Cons.prems x by (auto simp: map_of_eq_None_iff)
  ultimately show ?case by (auto simp: loads_def x fun_eq_iff split: option.splits)
qed

section \<open>Traps from user space\<close>

text \<open>The slots of the trapframe for the registers other than \<open>a0\<close>, and for all.\<close>

definition user_slots :: "(reg \<times> nat) list" where
  "user_slots = [(RA, 40), (SP, 48), (GP, 56), (TP, 64), (T0, 72), (T1, 80), (T2, 88), (S0, 96), (S1, 104), (A1, 120),
     (A2, 128), (A3, 136), (A4, 144), (A5, 152), (A6, 160), (A7, 168), (S2, 176), (S3, 184), (S4, 192), (S5, 200),
     (S6, 208), (S7, 216), (S8, 224), (S9, 232), (S10, 240), (S11, 248), (T3, 256), (T4, 264), (T5, 272), (T6, 280)]"

definition tf_slot :: "reg \<Rightarrow> nat" where
  "tf_slot r = (case map_of user_slots r of Some off \<Rightarrow> off | None \<Rightarrow> 112)"

lemma uservec_split:
  "uservec = [Csrw Sscratch A0, Li A0 TRAPFRAME] @ saves A0 user_slots @ [Csrr T0 Sscratch, Sd T0 112 A0] @
     [Ld SP 8 A0, Ld TP 32 A0, Ld T0 16 A0, Ld T1 0 A0, Sfence, Csrw Satp T1, Sfence, Jr T0]"
  by (simp add: uservec_def saves_def user_slots_def)

lemma userret_split:
  "userret = [Sfence, Csrw Satp A0, Sfence, Li A0 TRAPFRAME] @ loads A0 user_slots @ [Ld A0 112 A0, Sret]"
  by (simp add: userret_def loads_def user_slots_def)

lemma user_slots_ok:
  "list_all (\<lambda>x. slot_ok 288 (snd x)) user_slots" "list_all (\<lambda>x. slot_ok 288 (snd x) \<and> fst x \<noteq> A0) user_slots"
  "distinct (map fst user_slots)" "distinct (map snd user_slots)"
  by (simp_all add: user_slots_def slot_ok_def)

lemma user_slots_all: "r \<noteq> A0 \<Longrightarrow> map_of user_slots r = Some (tf_slot r)" "tf_slot A0 = 112"
  by (cases r; simp add: tf_slot_def user_slots_def) (simp add: tf_slot_def user_slots_def)

lemma user_slots_swap: "r \<noteq> A0 \<Longrightarrow> map_of (map prod.swap user_slots) (tf_slot r) = Some r"
  by (cases r; simp add: tf_slot_def user_slots_def)

lemma tf_slot_ok: "slot_ok 288 (tf_slot r)" "40 \<le> tf_slot r"
  by (cases r; simp add: tf_slot_def user_slots_def slot_ok_def)+

lemma tf_slot_a0: "r \<noteq> A0 \<Longrightarrow> tf_slot r \<noteq> 112"
  by (cases r; simp add: tf_slot_def user_slots_def)

lemma uservec_saves:
  assumes "mapped tr (acsr c Satp) TRAPFRAME pa 288"
  shows "load64 (amem (run tr uservec c)) (pa + of_nat (tf_slot r)) = aregs c r"
proof -
  let ?c = "c\<lparr>acsr := (acsr c)(Sscratch := aregs c A0), aregs := (aregs c)(A0 := TRAPFRAME)\<rparr>"
  let ?m = "fold (\<lambda>(r, off) m. store64 m (pa + of_nat off) (aregs ?c r)) user_slots (amem c)"
  have n: "unat pa + 288 \<le> 2 ^ 64" using assms by (simp add: mapped_def)
  have s: "run tr (saves A0 user_slots) ?c = ?c\<lparr>amem := fold (\<lambda>(r, off) m. store64 m (pa + of_nat off) (aregs ?c r)) user_slots (amem ?c)\<rparr>"
    using assms by (intro run_saves [where n = 288]) (simp_all add: user_slots_ok)
  have "tr (acsr c Satp) (TRAPFRAME + of_nat 112) = pa + of_nat 112"
    using assms by (rule mapped_slot) (simp add: slot_ok_def)
  then have "amem (run tr uservec c) = store64 ?m (pa + of_nat 112) (aregs c A0)"
    unfolding uservec_split by (simp add: s addr_def)
  moreover have "load64 (store64 ?m (pa + of_nat 112) (aregs c A0)) (pa + of_nat (tf_slot r)) =
      (if 112 = tf_slot r then aregs c A0 else load64 ?m (pa + of_nat (tf_slot r)))"
    by (rule load64_slot [OF n]) (simp_all add: tf_slot_ok, simp add: slot_ok_def)
  moreover have "load64 ?m (pa + of_nat (tf_slot r)) =
      (case map_of (map prod.swap user_slots) (tf_slot r) of Some r \<Rightarrow> aregs ?c r | None \<Rightarrow> load64 (amem c) (pa + of_nat (tf_slot r)))"
    by (rule load_saved [OF n user_slots_ok(1,4) tf_slot_ok(1)])
  ultimately show ?thesis by (cases "r = A0") (simp_all add: user_slots_all user_slots_swap tf_slot_a0)
qed

lemma userret_loads:
  assumes "mapped tr (aregs c A0) TRAPFRAME pa 288"
  shows "aregs (run tr userret c) r = load64 (amem c) (pa + of_nat (tf_slot r))"
proof -
  let ?c = "c\<lparr>acsr := (acsr c)(Satp := aregs c A0), aregs := (aregs c)(A0 := TRAPFRAME)\<rparr>"
  have l: "run tr (loads A0 user_slots) ?c =
      ?c\<lparr>aregs := (\<lambda>r. case map_of user_slots r of Some off \<Rightarrow> load64 (amem ?c) (pa + of_nat off) | None \<Rightarrow> aregs ?c r)\<rparr>"
    using assms by (intro run_loads [where n = 288]) (simp_all add: user_slots_ok)
  have "tr (aregs c A0) (TRAPFRAME + of_nat 112) = pa + of_nat 112"
    using assms by (rule mapped_slot) (simp add: slot_ok_def)
  moreover have "map_of user_slots A0 = None" by (simp add: user_slots_def)
  ultimately show ?thesis
    unfolding userret_split by (cases "r = A0") (simp_all add: l addr_def user_slots_all)
qed

lemma load64_bytes:
  assumes "\<And>i. lo \<le> i \<Longrightarrow> i < n \<Longrightarrow> m (pa + of_nat i) = m' (pa + of_nat i)" "lo \<le> off" "off + 8 \<le> n"
  shows "load64 m (pa + of_nat off) = load64 m' (pa + of_nat off)"
  using assms(2,3) assms(1) [of "off + _"] by (intro load64_cong) (simp add: add.assoc)

text \<open>
  C33. A trap does not disturb the user program: if the kernel leaves the saved registers in the
  trapframe alone, the way from \<^verbatim>\<open>uservec\<close> to \<^verbatim>\<open>userret\<close> gives every register the value it had when
  the trap occurred.
\<close>

theorem user_registers_restored:
  assumes "mapped tr (acsr c Satp) TRAPFRAME pa 288"
    and "aregs d A0 = acsr c Satp"
    and "\<And>i. 40 \<le> i \<Longrightarrow> i < 288 \<Longrightarrow> amem d (pa + of_nat i) = amem (run tr uservec c) (pa + of_nat i)"
  shows "aregs (run tr userret d) r = aregs c r"
proof -
  have "aregs (run tr userret d) r = load64 (amem d) (pa + of_nat (tf_slot r))"
    using assms by (intro userret_loads) simp
  also have "\<dots> = load64 (amem (run tr uservec c)) (pa + of_nat (tf_slot r))"
    using tf_slot_ok [of r] by (intro load64_bytes [where lo = 40 and n = 288] assms(3)) (simp_all add: slot_ok_def)
  also have "\<dots> = aregs c r" using assms(1) by (rule uservec_saves)
  finally show ?thesis .
qed

definition demo_cpu :: acpu where
  "demo_cpu = \<lparr>aregs = (\<lambda>r. if r = S1 then 7 else if r = A1 then 512 else 256), acsr = (\<lambda>_. 256), amem = (\<lambda>_. 0), apc = 0, asepc = 0, amepc = 0\<rparr>"

lemma mapped_id: "unat va + n \<le> 2 ^ 64 \<Longrightarrow> mapped (\<lambda>_ a. a) satp va va n"
  by (simp add: mapped_def)

theorem user_registers_restored_witness:
  "mapped (\<lambda>_ a. a) (acsr demo_cpu Satp) TRAPFRAME TRAPFRAME 288 \<and>
   aregs (run (\<lambda>_ a. a) userret (demo_cpu\<lparr>amem := amem (run (\<lambda>_ a. a) uservec demo_cpu)\<rparr>)) S1 = 7"
proof -
  let ?d = "demo_cpu\<lparr>amem := amem (run (\<lambda>_ a. a) uservec demo_cpu)\<rparr>"
  have m: "mapped (\<lambda>_ a. a) (acsr demo_cpu Satp) TRAPFRAME TRAPFRAME 288"
    by (rule mapped_id) (simp add: layout_defs)
  then have "aregs (run (\<lambda>_ a. a) userret ?d) S1 = aregs demo_cpu S1"
    by (rule user_registers_restored) (simp_all add: demo_cpu_def)
  with m show ?thesis by (simp add: demo_cpu_def)
qed

section \<open>Context switch\<close>

definition ctx_slots :: "(reg \<times> nat) list" where
  "ctx_slots = [(RA, 0), (SP, 8), (S0, 16), (S1, 24), (S2, 32), (S3, 40), (S4, 48), (S5, 56), (S6, 64), (S7, 72),
     (S8, 80), (S9, 88), (S10, 96), (S11, 104)]"

lemma swtch_split: "swtch = saves A0 ctx_slots @ loads A1 ctx_slots @ [Retn]"
  by (simp add: swtch_def saves_def loads_def ctx_slots_def)

lemma ctx_slots_ok:
  "list_all (\<lambda>x. slot_ok 112 (snd x)) ctx_slots" "list_all (\<lambda>x. slot_ok 112 (snd x) \<and> fst x \<noteq> A1) ctx_slots"
  "distinct (map fst ctx_slots)" "distinct (map snd ctx_slots)"
  by (simp_all add: ctx_slots_def slot_ok_def)

lemma ctx_slots_swap: "(r, off) \<in> set ctx_slots \<Longrightarrow> map_of (map prod.swap ctx_slots) off = Some r"
  by (auto simp: ctx_slots_def)

lemma swtch_run:
  fixes c :: acpu and tr :: mmu
  assumes "mapped tr (acsr c Satp) (aregs c A0) old 112" "mapped tr (acsr c Satp) (aregs c A1) new 112"
  defines "m \<equiv> fold (\<lambda>(r, off) m. store64 m (old + of_nat off) (aregs c r)) ctx_slots (amem c)"
  shows "amem (run tr swtch c) = m"
    "aregs (run tr swtch c) r = (case map_of ctx_slots r of Some off \<Rightarrow> load64 m (new + of_nat off) | None \<Rightarrow> aregs c r)"
proof -
  have s: "run tr (saves A0 ctx_slots) c = c\<lparr>amem := m\<rparr>"
    unfolding m_def using assms by (intro run_saves [where n = 112]) (simp_all add: ctx_slots_ok)
  have l: "run tr (loads A1 ctx_slots) (c\<lparr>amem := m\<rparr>) = c\<lparr>amem := m, aregs :=
      (\<lambda>r. case map_of ctx_slots r of Some off \<Rightarrow> load64 m (new + of_nat off) | None \<Rightarrow> aregs c r)\<rparr>"
    using run_loads [of tr "c\<lparr>amem := m\<rparr>" A1 new 112 ctx_slots] assms(2) by (simp add: ctx_slots_ok cong: option.case_cong)
  show "amem (run tr swtch c) = m"
    "aregs (run tr swtch c) r = (case map_of ctx_slots r of Some off \<Rightarrow> load64 m (new + of_nat off) | None \<Rightarrow> aregs c r)"
    unfolding swtch_split by (simp_all add: s l)
qed

lemma store64_elsewhere:
  assumes "unat a + 8 \<le> 2 ^ 64" "\<not> in_range a 8 x"
  shows "store64 m a v x = m x"
  using assms by (simp add: store64_def store_bytes_apply)

lemma saved_elsewhere:
  assumes "unat pa + n \<le> 2 ^ 64" "list_all (\<lambda>x. slot_ok n (snd x)) ps" "\<not> in_range pa n x"
  shows "fold (\<lambda>(r, off) m. store64 m (pa + of_nat off) (g r)) ps m x = m x"
  using assms(2)
proof (induction ps arbitrary: m)
  case (Cons y ps)
  obtain r off where y: "y = (r, off)" by (cases y)
  have "unat (pa + of_nat off) = unat pa + off" "off + 8 \<le> n"
    using assms(1) Cons.prems y by (simp_all add: slot_ok_def unat_add_of_nat)
  then have "store64 m (pa + of_nat off) (g r) x = m x"
    using assms by (intro store64_elsewhere) (auto simp: in_range_def)
  then show ?case using Cons y by simp
qed simp

text \<open>
  C34. A thread that gave up the CPU by \<^verbatim>\<open>swtch\<close> continues with its own registers: when, some time later,
  a \<^verbatim>\<open>swtch\<close> of any hart names the thread's context as the new one, and the context was left alone, the
  return address, the stack pointer and the callee-saved registers are those of the first call.
\<close>

theorem swtch_resumes:
  assumes "mapped tr (acsr c Satp) (aregs c A0) old 112" "mapped tr (acsr c Satp) (aregs c A1) new 112"
    and "mapped tr (acsr d Satp) (aregs d A0) old' 112" "mapped tr (acsr d Satp) (aregs d A1) old 112"
    and "\<And>i. i < 112 \<Longrightarrow> amem d (old + of_nat i) = amem (run tr swtch c) (old + of_nat i)"
    and "\<And>i. i < 112 \<Longrightarrow> \<not> in_range old' 112 (old + of_nat i)"
    and "r \<in> {RA, SP, S0, S1, S2, S3, S4, S5, S6, S7, S8, S9, S10, S11}"
  shows "aregs (run tr swtch d) r = aregs c r \<and> apc (run tr swtch d) = aregs c RA"
proof -
  obtain off where r: "map_of ctx_slots r = Some off" "(r, off) \<in> set ctx_slots"
    using assms(7) by (auto simp: ctx_slots_def)
  let ?md = "fold (\<lambda>(r, off) m. store64 m (old' + of_nat off) (aregs d r)) ctx_slots (amem d)"
  let ?mc = "fold (\<lambda>(r, off) m. store64 m (old + of_nat off) (aregs c r)) ctx_slots (amem c)"
  have *: "aregs (run tr swtch d) q = aregs c q" if q: "(q, j) \<in> set ctx_slots" for q j
  proof -
    have j: "slot_ok 112 j" "map_of ctx_slots q = Some j" using q by (auto simp: ctx_slots_def slot_ok_def)
    have "aregs (run tr swtch d) q = load64 ?md (old + of_nat j)"
      using swtch_run(2) [OF assms(3,4)] j by simp
    also have "\<dots> = load64 ?mc (old + of_nat j)"
    proof (rule load64_bytes [where lo = 0 and n = 112])
      fix i :: nat assume "i < 112"
      with assms(5,6) swtch_run(1) [OF assms(1,2)] have "amem d (old + of_nat i) = ?mc (old + of_nat i)"
        "\<not> in_range old' 112 (old + of_nat i)" by simp_all
      then show "?md (old + of_nat i) = ?mc (old + of_nat i)"
        using saved_elsewhere [of old' 112 ctx_slots] assms(3) ctx_slots_ok(1) by (simp add: mapped_def)
    qed (use j in \<open>simp_all add: slot_ok_def\<close>)
    also have "\<dots> = aregs c q"
      using load_saved [of old 112 ctx_slots j "aregs c" "amem c"] assms(1) j ctx_slots_swap [OF q]
      by (simp add: mapped_def ctx_slots_ok)
    finally show ?thesis .
  qed
  have "apc (run tr swtch d) = aregs (run tr swtch d) RA" unfolding swtch_split by simp
  with * [OF r(2)] * [of RA 0] show ?thesis by (simp add: ctx_slots_def)
qed

theorem swtch_resumes_witness:
  "aregs (run (\<lambda>_ a. a) swtch (demo_cpu\<lparr>aregs := (\<lambda>r. if r = A1 then 256 else 1024),
      amem := amem (run (\<lambda>_ a. a) swtch demo_cpu)\<rparr>)) S1 = 7"
proof -
  let ?d = "demo_cpu\<lparr>aregs := (\<lambda>r. if r = A1 then 256 else 1024), amem := amem (run (\<lambda>_ a. a) swtch demo_cpu)\<rparr>"
  have "\<not> in_range 1024 112 (256 + of_nat i)" if "i < 112" for i :: nat
    using that unat_add_of_nat [of 256 i] by (simp add: in_range_def)
  then have "aregs (run (\<lambda>_ a. a) swtch ?d) S1 = aregs demo_cpu S1 \<and> apc (run (\<lambda>_ a. a) swtch ?d) = aregs demo_cpu RA"
    by (intro swtch_resumes [where old = 256 and new = 512 and old' = 1024]) (simp_all add: mapped_def demo_cpu_def)
  then show ?thesis by (simp add: demo_cpu_def)
qed

section \<open>Traps from the kernel\<close>

text \<open>The slots on the kernel stack that \<^verbatim>\<open>kernelvec\<close> restores through the stack pointer it loads.\<close>

definition kvec_slots :: "(reg \<times> nat) list" where
  "kvec_slots = [(GP, 16), (T0, 32), (T1, 40), (T2, 48), (S0, 56), (S1, 64), (A0, 72), (A1, 80), (A2, 88), (A3, 96),
     (A4, 104), (A5, 112), (A6, 120), (A7, 128), (S2, 136), (S3, 144), (S4, 152), (S5, 160), (S6, 168), (S7, 176),
     (S8, 184), (S9, 192), (S10, 200), (S11, 208), (T3, 216), (T4, 224), (T5, 232), (T6, 240)]"

definition kvec_all :: "(reg \<times> nat) list" where
  "kvec_all = (RA, 0) # (SP, 8) # hd kvec_slots # (TP, 24) # tl kvec_slots"

lemma kernelvec_save_split: "kernelvec_save = Addi SP SP (-256) # saves SP kvec_all"
  by (simp add: kernelvec_save_def saves_def kvec_all_def kvec_slots_def)

lemma kernelvec_restore_split:
  "kernelvec_restore = [Ld RA 0 SP, Ld SP 8 SP] @ loads SP kvec_slots @ [Addi SP SP 256, Sret]"
  by (simp add: kernelvec_restore_def loads_def kvec_slots_def)

lemma kvec_slots_ok:
  "list_all (\<lambda>x. slot_ok 256 (snd x)) kvec_all" "list_all (\<lambda>x. slot_ok 256 (snd x) \<and> fst x \<noteq> SP) kvec_slots"
  "distinct (map fst kvec_slots)" "distinct (map snd kvec_all)"
  by (simp_all add: kvec_slots_def kvec_all_def slot_ok_def)

lemma kvec_saved:
  assumes "mapped tr (acsr c Satp) (aregs c SP - 256) pa 256" "(r, off) \<in> set kvec_all"
  shows "load64 (amem (run tr kernelvec_save c)) (pa + of_nat off) = ((aregs c)(SP := aregs c SP - 256)) r" "slot_ok 256 off"
proof -
  let ?c = "c\<lparr>aregs := (aregs c)(SP := aregs c SP - 256)\<rparr>"
  have "run tr (saves SP kvec_all) ?c =
      ?c\<lparr>amem := fold (\<lambda>(r, off) m. store64 m (pa + of_nat off) (aregs ?c r)) kvec_all (amem ?c)\<rparr>"
    using assms by (intro run_saves [where n = 256]) (simp_all add: kvec_slots_ok)
  then have "amem (run tr kernelvec_save c) = fold (\<lambda>(r, off) m. store64 m (pa + of_nat off) (aregs ?c r)) kvec_all (amem c)"
    by (simp add: kernelvec_save_split)
  moreover show off: "slot_ok 256 off" using assms(2) kvec_slots_ok(1) by (auto simp: list_all_iff)
  moreover have "map_of (map prod.swap kvec_all) off = Some r"
    using assms(2) kvec_slots_ok(4) by (intro map_of_is_SomeI) (auto simp: comp_def intro!: image_eqI [where x = "(r, off)"])
  ultimately show "load64 (amem (run tr kernelvec_save c)) (pa + of_nat off) = ((aregs c)(SP := aregs c SP - 256)) r"
    using load_saved [of pa 256 kvec_all off "aregs ?c" "amem c"] assms(1) by (simp add: kvec_slots_ok mapped_def)
qed

lemma kvec_slot: "r \<noteq> RA \<Longrightarrow> r \<noteq> SP \<Longrightarrow> r \<noteq> TP \<Longrightarrow> \<exists>off. map_of kvec_slots r = Some off \<and> (r, off) \<in> set kvec_all"
  by (cases r) (simp_all add: kvec_slots_def kvec_all_def)

lemma kvec_None: "map_of kvec_slots RA = None" "map_of kvec_slots SP = None" "map_of kvec_slots TP = None"
  by (simp_all add: kvec_slots_def)

text \<open>
  C35. An interrupt taken inside the kernel is transparent: if \<^verbatim>\<open>kerneltrap\<close> leaves the stack pointer and
  the saved registers on the kernel stack alone, \<^verbatim>\<open>kernelvec\<close> restores every register but \<open>tp\<close>, which
  keeps the value for the hart that runs now.
\<close>

theorem kernel_registers_restored:
  assumes "mapped tr (acsr c Satp) (aregs c SP - 256) pa 256" "mapped tr (acsr d Satp) (aregs c SP - 256) pa 256"
    and "aregs d SP = aregs c SP - 256"
    and "\<And>i. i < 256 \<Longrightarrow> amem d (pa + of_nat i) = amem (run tr kernelvec_save c) (pa + of_nat i)"
  shows "aregs (run tr kernelvec_restore d) r = (if r = TP then aregs d TP else aregs c r)"
proof -
  have ld: "load64 (amem d) (pa + of_nat off) = ((aregs c)(SP := aregs c SP - 256)) q" if "(q, off) \<in> set kvec_all" for q off
  proof -
    have "load64 (amem d) (pa + of_nat off) = load64 (amem (run tr kernelvec_save c)) (pa + of_nat off)"
      using kvec_saved(2) [OF assms(1) that] by (intro load64_bytes [where lo = 0 and n = 256] assms(4)) (simp_all add: slot_ok_def)
    then show ?thesis using kvec_saved(1) [OF assms(1) that] by simp
  qed
  have tr0: "tr (acsr d Satp) (aregs d SP + of_nat off) = pa + of_nat off" if "slot_ok 256 off" for off
    using mapped_slot [OF assms(2) that] assms(3) by simp
  have ra: "load64 (amem d) (tr (acsr d Satp) (aregs d SP)) = aregs c RA" and sp: "load64 (amem d) (tr (acsr d Satp) (aregs d SP + 8)) = aregs c SP - 256"
    using tr0 [of 0] tr0 [of 8] ld [of RA 0] ld [of SP 8] by (simp_all add: slot_ok_def kvec_all_def)
  let ?d = "d\<lparr>aregs := (aregs d)(RA := aregs c RA, SP := aregs c SP - 256)\<rparr>"
  have "run tr (loads SP kvec_slots) ?d =
      ?d\<lparr>aregs := (\<lambda>r. case map_of kvec_slots r of Some off \<Rightarrow> load64 (amem ?d) (pa + of_nat off) | None \<Rightarrow> aregs ?d r)\<rparr>"
    using assms(2) by (intro run_loads [where n = 256]) (simp_all add: kvec_slots_ok)
  then have "aregs (run tr kernelvec_restore d) = (\<lambda>r. case map_of kvec_slots r of Some off \<Rightarrow> load64 (amem d) (pa + of_nat off)
      | None \<Rightarrow> aregs ?d r) (SP := aregs c SP)"
    unfolding kernelvec_restore_split by (simp add: addr_def ra sp kvec_None fun_upd_def cong: option.case_cong)
  then show ?thesis
    using kvec_slot [of r] ld [of r] by (cases "r = RA \<or> r = SP \<or> r = TP") (auto simp: kvec_None)
qed

theorem kernel_registers_restored_witness:
  "aregs (run (\<lambda>_ a. a) kernelvec_restore (run (\<lambda>_ a. a) kernelvec_save demo_cpu)) S1 = 7"
proof -
  let ?d = "run (\<lambda>_ a. a) kernelvec_save demo_cpu"
  have "aregs (run (\<lambda>_ a. a) kernelvec_restore ?d) S1 = (if S1 = TP then aregs ?d TP else aregs demo_cpu S1)"
    by (rule kernel_registers_restored [where pa = 0]) (simp_all add: mapped_def demo_cpu_def kernelvec_save_split saves_frame)
  then show ?thesis by (simp add: demo_cpu_def)
qed

section \<open>Timer interrupts\<close>

lemma load64_elsewhere:
  assumes "unat a + 8 \<le> 2 ^ 64" "unat b + 8 \<le> 2 ^ 64" "unat a + 8 \<le> unat b \<or> unat b + 8 \<le> unat a"
  shows "load64 (store64 m a v) b = load64 m b"
proof (rule load64_cong)
  fix i :: nat assume "i < 8"
  then have "unat (b + of_nat i) = unat b + i" using assms by (intro unat_add_of_nat) simp
  with \<open>i < 8\<close> assms show "store64 m a v (b + of_nat i) = m (b + of_nat i)"
    by (intro store64_elsewhere) (auto simp: in_range_def)
qed

text \<open>
  C36. The machine-mode timer handler is transparent and arms the next tick: no register changes, the
  hart's \<^verbatim>\<open>MTIMECMP\<close> advances by the interval that \<^verbatim>\<open>timerinit\<close> stored, and a supervisor software
  interrupt is raised. Machine mode does not translate addresses.
\<close>

theorem timervec_transparent:
  assumes "s = acsr c Mscratch" "unat s + 40 \<le> 2 ^ 64"
    and "cmp = load64 (amem c) (s + 24)" "unat cmp + 8 \<le> 2 ^ 64" "unat cmp + 8 \<le> unat s \<or> unat s + 40 \<le> unat cmp"
  shows "aregs (run (\<lambda>_ a. a) timervec c) = aregs c
    \<and> load64 (amem (run (\<lambda>_ a. a) timervec c)) cmp = load64 (amem c) cmp + load64 (amem c) (s + 32)
    \<and> acsr (run (\<lambda>_ a. a) timervec c) = (acsr c)(Sip := 2)"
proof -
  let ?m = "store64 (store64 (store64 (amem c) s (aregs c A1)) (s + 8) (aregs c A2)) (s + 16) (aregs c A3)"
  have sl: "load64 (store64 m (s + of_nat i) v) (s + of_nat j) = (if i = j then v else load64 m (s + of_nat j))"
    if "slot_ok 40 i" "slot_ok 40 j" for m v i j
    using assms(2) that by (rule load64_slot)
  have u: "unat (s + 8) = unat s + 8" "unat (s + 16) = unat s + 16"
    using unat_add_of_nat [of s 8] unat_add_of_nat [of s 16] assms(2) by simp_all
  have m: "load64 ?m (s + 24) = cmp" "load64 ?m (s + 32) = load64 (amem c) (s + 32)"
    "load64 ?m s = aregs c A1" "load64 ?m (s + 8) = aregs c A2" "load64 ?m (s + 16) = aregs c A3"
    using sl [of 0 24] sl [of 8 24] sl [of 16 24] sl [of 0 32] sl [of 8 32] sl [of 16 32]
      sl [of 0 0] sl [of 8 0] sl [of 16 0] sl [of 8 8] sl [of 16 8] sl [of 16 16] assms(3)
    by (simp_all add: slot_ok_def)
  have e: "load64 (store64 m a v) cmp = load64 m cmp \<and> load64 (store64 m cmp v) a = load64 m a" if "a = s \<or> a = s + 8 \<or> a = s + 16" for m a v
    using that assms(2,4,5) u by (auto intro!: load64_elsewhere)
  have c: "load64 ?m cmp = load64 (amem c) cmp" by (simp add: e)
  have b: "load64 (store64 ?m cmp v) s = load64 ?m s" "load64 (store64 ?m cmp v) (s + 8) = load64 ?m (s + 8)"
    "load64 (store64 ?m cmp v) (s + 16) = load64 ?m (s + 16)" for v
    by (simp_all add: e)
  show ?thesis
    using assms(4) by (simp add: timervec_def addr_def m b c load64_store64 fun_eq_iff flip: assms(1))
qed

theorem timervec_transparent_witness:
  "load64 (store64 (\<lambda>_. 0) (256 + 24) 4096) (256 + 24) = 4096 \<and>
   aregs (run (\<lambda>_ a. a) timervec (demo_cpu\<lparr>amem := store64 (\<lambda>_. 0) (256 + 24) 4096\<rparr>)) S1 = 7"
proof -
  let ?c = "demo_cpu\<lparr>amem := store64 (\<lambda>_. 0) (256 + 24) 4096\<rparr>"
  have l: "load64 (store64 (\<lambda>_. 0) (256 + 24) 4096) (256 + 24) = 4096" by (rule load64_store64) simp
  then have "aregs (run (\<lambda>_ a. a) timervec ?c) = aregs ?c
      \<and> load64 (amem (run (\<lambda>_ a. a) timervec ?c)) 4096 = load64 (amem ?c) 4096 + load64 (amem ?c) (256 + 32)
      \<and> acsr (run (\<lambda>_ a. a) timervec ?c) = (acsr ?c)(Sip := 2)"
    by (intro timervec_transparent) (simp_all add: demo_cpu_def)
  with l show ?thesis by (simp add: demo_cpu_def)
qed

end
