(* ===== verification/Frames.thy ===== *)
theory Frames
  imports Sysfile
begin

text \<open>
  What the lower layers leave alone. A view is a function of the state that depends only on the
  process each CPU runs, the open-file table, the descriptor tables and the identities and reference counts of the inode table;
  every routine of the layers below keeps every view.
\<close>

section \<open>Rules for the result type\<close>

named_theorems keep_rules

lemma keeps_bindv [keep_rules]:
  "keeps P m \<Longrightarrow> (\<And>a t. P t \<Longrightarrow> keeps P (f a t)) \<Longrightarrow> keeps P (res_bind m f)"
  by (cases m) auto

lemma keeps_optionv [keep_rules]:
  "(x = None \<Longrightarrow> keeps P a) \<Longrightarrow> (\<And>y. x = Some y \<Longrightarrow> keeps P (b y)) \<Longrightarrow> keeps P (case x of None \<Rightarrow> a | Some y \<Rightarrow> b y)"
  by (cases x) auto

lemma keeps_prodv [keep_rules]:
  "(\<And>a b. x = (a, b) \<Longrightarrow> keeps P (f a b)) \<Longrightarrow> keeps P (case x of (a, b) \<Rightarrow> f a b)"
  by (cases x) auto

lemma keeps_prodv2 [keep_rules]:
  "(\<And>a b. x = (a, b) \<Longrightarrow> keeps P (f a b t)) \<Longrightarrow> keeps P ((case x of (a, b) \<Rightarrow> f a b) t)"
  by (cases x) auto

lemma keeps_let [keep_rules]:
  "(\<And>x. x = e \<Longrightarrow> keeps P (f x)) \<Longrightarrow> keeps P (Let e f)"
  by simp

lemma keeps_with_proc [keep_rules]:
  "(\<And>p. keeps P (f p s)) \<Longrightarrow> keeps P (with_proc f s)"
  by (simp add: with_proc_def split: option.split)

lemma keeps_lift_opt [keep_rules]: "P s \<Longrightarrow> keeps P (lift_opt x s)"
  by (cases x) simp_all

lemma keeps_for [keep_rules]:
  "P s \<Longrightarrow> (\<And>i t. P t \<Longrightarrow> keeps P (f i t)) \<Longrightarrow> keeps P (for_loop f is s)"
  by (rule for_loop_keeps)

lemma keeps_listv [keep_rules]:
  "(x = [] \<Longrightarrow> keeps P a) \<Longrightarrow> (\<And>y ys. x = y # ys \<Longrightarrow> keeps P (b y ys)) \<Longrightarrow> keeps P (case x of [] \<Rightarrow> a | y # ys \<Rightarrow> b y ys)"
  by (cases x) auto

lemma keeps_fargv [keep_rules]:
  "(\<And>y. x = IntArg y \<Longrightarrow> keeps P (a y)) \<Longrightarrow> (\<And>y. x = PtrArg y \<Longrightarrow> keeps P (b y)) \<Longrightarrow> (\<And>y. x = StrArg y \<Longrightarrow> keeps P (d y)) \<Longrightarrow>
    keeps P (case x of IntArg y \<Rightarrow> a y | PtrArg y \<Rightarrow> b y | StrArg y \<Rightarrow> d y)"
  by (cases x) auto

declare keeps_if [keep_rules]

lemma keeps_leaf [keep_rules]:
  "P s \<Longrightarrow> keeps P (Ret a s)" "P s \<Longrightarrow> keeps P (Swtch s)" "keeps P (Panic e)" "keeps P Hang" "keeps P Fault"
  by simp_all

section \<open>Views\<close>

definition ikey :: "inode \<Rightarrow> uint \<times> uint \<times> int" where
  "ikey n = (i_dev n, i_inum n, i_ref n)"

locale view =
  fixes v :: "'z flstate_scheme \<Rightarrow> 'v"
  assumes v_cong: "cpu_proc s = cpu_proc t \<Longrightarrow> tp s = tp t \<Longrightarrow> files s = files t \<Longrightarrow> (\<And>p. ofile (procs s p) = ofile (procs t p)) \<Longrightarrow>
      (\<And>i. ikey (inodes s i) = ikey (inodes t i)) \<Longrightarrow> v s = v t"
begin

lemma v_simps [simp]:
  "v (s\<lparr>held := a\<rparr>) = v s" "v (s\<lparr>ien := b\<rparr>) = v s" "v (s\<lparr>phys := m\<rparr>) = v s" "v (s\<lparr>sleeplocks := sl\<rparr>) = v s"
  "v (s\<lparr>bufs := bf\<rparr>) = v s" "v (s\<lparr>disk := dk\<rparr>) = v s" "v (s\<lparr>dhist := dh\<rparr>) = v s" "v (s\<lparr>lg := l\<rparr>) = v s"
  "v (s\<lparr>uart := u\<rparr>) = v s" "v (s\<lparr>cons := co\<rparr>) = v s" "v (s\<lparr>pipes := pi\<rparr>) = v s" "v (s\<lparr>nextpid := np\<rparr>) = v s"
  "v (s\<lparr>policy := po\<rparr>) = v s"
  by (rule v_cong; simp)+

lemma v_upd [simp]:
  "ofile (f (procs s p)) = ofile (procs s p) \<Longrightarrow> v (upd_proc p f s) = v s"
  "ikey (g (inodes s i)) = ikey (inodes s i) \<Longrightarrow> v (upd_ino i g s) = v s"
  "v (upd_slock l h s) = v s" "v (upd_buf b k s) = v s" "v (upd_lg j s) = v s" "v (upd_uart u s) = v s"
  "v (upd_cons w s) = v s" "v (upd_pipe pi q s) = v s" "v (set_data b d s) = v s" "v (disk_rw b wr s) = v s"
  "v (WriteReg r x s) = v s" "v (tf_put p off y s) = v s" "v (tf_copy p q' s) = v s" "v (sched_resume p s) = v s"
  by (rule v_cong; auto simp: upd_proc_def upd_ino_def upd_slock_def upd_buf_def upd_lg_def upd_uart_def upd_cons_def
      upd_pipe_def set_data_def disk_rw_def WriteReg_def tf_put_def tf_copy_def sched_resume_def)+

lemma vk_lock [keep_rules]:
  "v s = c \<Longrightarrow> keeps (\<lambda>t. v t = c) (lock_acquire l s)"
  "v s = c \<Longrightarrow> keeps (\<lambda>t. v t = c) (lock_release l s)"
  by (simp_all add: lock_acquire_def lock_release_def)

lemma vk_vm_run [keep_rules]: "v s = c \<Longrightarrow> keeps (\<lambda>t. v t = c) (vm_run f s)"
  by (simp add: vm_run_def split: res.split)

lemma vk_kalloc [keep_rules]:
  "v s = c \<Longrightarrow> keeps (\<lambda>t. v t = c) (kalloc s)"
  "v s = c \<Longrightarrow> keeps (\<lambda>t. v t = c) (kfree pa s)"
  unfolding kalloc_def kfree_def by (intro keep_rules; simp)+

lemma vk_sched [keep_rules]: "v s = c \<Longrightarrow> keeps (\<lambda>t. v t = c) (sched s)"
  unfolding sched_def by (intro keep_rules; simp)

lemma vk_proc [keep_rules]:
  "v s = c \<Longrightarrow> keeps (\<lambda>t. v t = c) (sleep ch lk s)"
  "v s = c \<Longrightarrow> keeps (\<lambda>t. v t = c) (wakeup ch s)"
  "v s = c \<Longrightarrow> keeps (\<lambda>t. v t = c) (killed p s)"
  "v s = c \<Longrightarrow> keeps (\<lambda>t. v t = c) (kill i s)"
  "v s = c \<Longrightarrow> keeps (\<lambda>t. v t = c) (set_ps_priority pr s)"
  "v s = c \<Longrightarrow> keeps (\<lambda>t. v t = c) (set_cfs_priority pr s)"
  "v s = c \<Longrightarrow> keeps (\<lambda>t. v t = c) (set_policy pol s)"
  unfolding sleep_def wakeup_def killed_def kill_def set_ps_priority_def set_cfs_priority_def set_policy_def
  by (intro keep_rules; simp)+

lemma vk_sleeplock [keep_rules]:
  "v s = c \<Longrightarrow> keeps (\<lambda>t. v t = c) (acquiresleep l s)"
  "v s = c \<Longrightarrow> keeps (\<lambda>t. v t = c) (releasesleep l s)"
  "v s = c \<Longrightarrow> keeps (\<lambda>t. v t = c) (holdingsleep l s)"
  unfolding acquiresleep_def acquiresleep_loop_def releasesleep_def holdingsleep_def
  by (intro keep_rules; simp)+

lemma vk_bget_cached [keep_rules]: "v s = c \<Longrightarrow> keeps (\<lambda>t. v t = c) (bget_cached n dev bn b s)"
  by (induction n arbitrary: b) (simp_all add: bget_cached.simps)

lemma vk_bget_recycle [keep_rules]: "v s = c \<Longrightarrow> keeps (\<lambda>t. v t = c) (bget_recycle n dev bn b s)"
  by (induction n arbitrary: b) (simp_all add: bget_recycle.simps)

lemma vk_bget2 [keep_rules]:
  "v s = c \<Longrightarrow> keeps (\<lambda>t. v t = c) (bget dev bn s)"
  unfolding bget_def
  by (intro keep_rules; simp)+

lemma v_relink [simp]: "v (brelse_relink b s) = v s"
  by (simp add: brelse_relink_def Let_def)

lemma vk_bio [keep_rules]:
  "v s = c \<Longrightarrow> keeps (\<lambda>t. v t = c) (bread dev bn s)"
  "v s = c \<Longrightarrow> keeps (\<lambda>t. v t = c) (bwrite b s)"
  "v s = c \<Longrightarrow> keeps (\<lambda>t. v t = c) (brelse b s)"
  "v s = c \<Longrightarrow> keeps (\<lambda>t. v t = c) (bpin b s)"
  "v s = c \<Longrightarrow> keeps (\<lambda>t. v t = c) (bunpin b s)"
  unfolding bread_def bwrite_def brelse_def bpin_def bunpin_def
  by (intro keep_rules; simp)+

lemma vk_log [keep_rules]:
  "v s = c \<Longrightarrow> keeps (\<lambda>t. v t = c) (install_trans r s)"
  "v s = c \<Longrightarrow> keeps (\<lambda>t. v t = c) (write_head s)"
  "v s = c \<Longrightarrow> keeps (\<lambda>t. v t = c) (write_log s)"
  "v s = c \<Longrightarrow> keeps (\<lambda>t. v t = c) (log_write b s)"
  "v s = c \<Longrightarrow> keeps (\<lambda>t. v t = c) (begin_op s)"
  unfolding install_trans_def write_head_def write_log_def log_write_def begin_op_def begin_op_loop_def
  by (intro keep_rules; simp)+

lemma vk_commit [keep_rules]:
  "v s = c \<Longrightarrow> keeps (\<lambda>t. v t = c) (commit s)"
  unfolding commit_def
  by (intro keep_rules; simp)+

lemma vk_end_op [keep_rules]:
  "v s = c \<Longrightarrow> keeps (\<lambda>t. v t = c) (end_op s)"
  unfolding end_op_def
  by (intro keep_rules; simp)+

lemma vk_uartstart_loop [keep_rules]: "v s = c \<Longrightarrow> keeps (\<lambda>t. v t = c) (uartstart_loop vs s)"
  by (induction vs arbitrary: s) (unfold uartstart_loop.simps, (intro keep_rules; simp)+)

lemma vk_uartputc_poll [keep_rules]: "v s = c \<Longrightarrow> keeps (\<lambda>t. v t = c) (uartputc_poll vs ch s)"
  by (induction vs arbitrary: s) (unfold uartputc_poll.simps, (intro keep_rules; simp)+)

lemma vk_uart [keep_rules]:
  "v s = c \<Longrightarrow> keeps (\<lambda>t. v t = c) (uartstart s)"
  "v s = c \<Longrightarrow> keeps (\<lambda>t. v t = c) (uartputc_sync ch s)"
  unfolding uartstart_def uartputc_sync_def
  by (intro keep_rules; simp)+

lemma vk_uartputc [keep_rules]:
  "v s = c \<Longrightarrow> keeps (\<lambda>t. v t = c) (uartputc ch s)"
  unfolding uartputc_def uartputc_loop_def
  by (intro keep_rules; simp)+

lemma vk_consputc [keep_rules]:
  "v s = c \<Longrightarrow> keeps (\<lambda>t. v t = c) (consputc ch s)"
  unfolding consputc_def
  by (intro keep_rules; simp)+

lemma vk_consputs [keep_rules]: "v s = c \<Longrightarrow> keeps (\<lambda>t. v t = c) (consputs cs s)"
  by (induction cs arbitrary: s) (unfold consputs.simps, (intro keep_rules; simp)+)

lemma vk_print [keep_rules]:
  "v s = c \<Longrightarrow> keeps (\<lambda>t. v t = c) (printint x b sg s)"
  "v s = c \<Longrightarrow> keeps (\<lambda>t. v t = c) (printptr y s)"
  unfolding printint_def printptr_def
  by (intro keep_rules; simp)+

lemma vk_printf_loop [keep_rules]: "v s = c \<Longrightarrow> keeps (\<lambda>t. v t = c) (printf_loop fmt ap s)"
proof (induction "length fmt" arbitrary: fmt ap s rule: less_induct)
  case less
  consider "fmt = []" | x where "fmt = [x]" | x y ys where "fmt = x # y # ys" by (metis list.exhaust)
  then show ?case
  proof cases
    case 3
    show ?thesis unfolding 3 printf_loop.simps by (intro keep_rules; (rule less)?; simp add: 3 less.prems)
  qed (simp_all add: less.prems vk_consputc)
qed

lemma vk_printf [keep_rules]:
  "v s = c \<Longrightarrow> keeps (\<lambda>t. v t = c) (printf fm ap s)"
  unfolding printf_def
  by (intro keep_rules; simp)+

lemma keeps_destv [keep_rules]:
  "(\<And>y. x = UserDst y \<Longrightarrow> keeps P (a y)) \<Longrightarrow> (\<And>y. x = KmemDst y \<Longrightarrow> keeps P (b y)) \<Longrightarrow> (x = VarDst \<Longrightarrow> keeps P d) \<Longrightarrow>
    keeps P (case x of UserDst y \<Rightarrow> a y | KmemDst y \<Rightarrow> b y | VarDst \<Rightarrow> d)"
  by (cases x) auto

lemma keeps_sourcev [keep_rules]:
  "(\<And>y. x = UserSrc y \<Longrightarrow> keeps P (a y)) \<Longrightarrow> (\<And>y. x = KmemSrc y \<Longrightarrow> keeps P (b y)) \<Longrightarrow> (\<And>y. x = VarSrc y \<Longrightarrow> keeps P (d y)) \<Longrightarrow>
    keeps P (case x of UserSrc y \<Rightarrow> a y | KmemSrc y \<Rightarrow> b y | VarSrc y \<Rightarrow> d y)"
  by (cases x) auto

lemma vk_either [keep_rules]:
  "v s = c \<Longrightarrow> keeps (\<lambda>t. v t = c) (either_copyout vm dst bs s)"
  "v s = c \<Longrightarrow> keeps (\<lambda>t. v t = c) (either_copyin vm src n s)"
  unfolding either_copyout_def either_copyin_def
  by (intro keep_rules; simp)+

lemma vk_bzero [keep_rules]:
  "v s = c \<Longrightarrow> keeps (\<lambda>t. v t = c) (bzero dev bn s)"
  unfolding bzero_def
  by (intro keep_rules; simp)+

lemma vk_balloc [keep_rules]:
  "v s = c \<Longrightarrow> keeps (\<lambda>t. v t = c) (balloc dev s)"
  "v s = c \<Longrightarrow> keeps (\<lambda>t. v t = c) (bfree dev bn s)"
  unfolding balloc_def balloc_body_def [abs_def] bfree_def
  by (intro keep_rules; simp)+

lemma vk_iupdate [keep_rules]:
  "v s = c \<Longrightarrow> keeps (\<lambda>t. v t = c) (iupdate ip s)"
  unfolding iupdate_def
  by (intro keep_rules; simp)+

lemma vk_ilock [keep_rules]:
  "v s = c \<Longrightarrow> keeps (\<lambda>t. v t = c) (ilock ipo s)"
  unfolding ilock_def ilock_load_def
  by (intro keep_rules; simp add: ikey_def)+

lemma vk_iunlock [keep_rules]:
  "v s = c \<Longrightarrow> keeps (\<lambda>t. v t = c) (iunlock ipo s)"
  unfolding iunlock_def
  by (intro keep_rules; simp)+

lemma vk_bmap [keep_rules]:
  "v s = c \<Longrightarrow> keeps (\<lambda>t. v t = c) (bmap ip bn s)"
  unfolding bmap_def
  by (intro keep_rules; simp add: ikey_def)+

lemma vk_itrunc [keep_rules]:
  "v s = c \<Longrightarrow> keeps (\<lambda>t. v t = c) (itrunc ip s)"
  unfolding itrunc_def
  by (intro keep_rules; simp add: ikey_def)+

lemma vk_readi_loop [keep_rules]: "v s = c \<Longrightarrow> keeps (\<lambda>t. v t = c) (readi_loop k vm ip dst off n tot out s)"
  by (induction k arbitrary: dst off tot out s) (unfold readi_loop.simps, (intro keep_rules; simp)+)

lemma vk_readi [keep_rules]:
  "v s = c \<Longrightarrow> keeps (\<lambda>t. v t = c) (readi vm ip dst off n s)"
  unfolding readi_def
  by (intro keep_rules; simp)+

lemma vk_writei_loop [keep_rules]: "v s = c \<Longrightarrow> keeps (\<lambda>t. v t = c) (writei_loop k vm ip src off n tot s)"
  by (induction k arbitrary: src off tot s) (unfold writei_loop.simps, (intro keep_rules; simp)+)

lemma vk_writei [keep_rules]:
  "v s = c \<Longrightarrow> keeps (\<lambda>t. v t = c) (writei vm ip src off n s)"
  unfolding writei_def
  by (intro keep_rules; simp add: ikey_def)+

lemma vk_dirlink_slot [keep_rules]:
  "v s = c \<Longrightarrow> keeps (\<lambda>t. v t = c) (dirlink_slot vm dp s)"
  unfolding dirlink_slot_def
  by (intro keep_rules; simp)+

lemma vk_isdirempty [keep_rules]:
  "v s = c \<Longrightarrow> keeps (\<lambda>t. v t = c) (isdirempty vm dp s)"
  unfolding isdirempty_def
  by (intro keep_rules; simp)+

lemma vk_pipeclose [keep_rules]:
  "v s = c \<Longrightarrow> keeps (\<lambda>t. v t = c) (pipeclose pi w s)"
  unfolding pipeclose_def
  by (intro keep_rules; simp)+

lemma vk_pipewrite_loop [keep_rules]: "v s = c \<Longrightarrow> keeps (\<lambda>t. v t = c) (pipewrite_loop vm pi pr a i k s)"
  by (induction k arbitrary: i s) (unfold pipewrite_loop.simps, (intro keep_rules; simp)+)

lemma vk_piperead_copy [keep_rules]: "v s = c \<Longrightarrow> keeps (\<lambda>t. v t = c) (piperead_copy vm pi pr a i k s)"
  by (induction k arbitrary: i s) (unfold piperead_copy.simps, (intro keep_rules; simp)+)

lemma vk_pipe [keep_rules]:
  "v s = c \<Longrightarrow> keeps (\<lambda>t. v t = c) (pipewrite vm pi a n s)"
  "v s = c \<Longrightarrow> keeps (\<lambda>t. v t = c) (piperead vm pi a n s)"
  unfolding pipewrite_def piperead_def piperead_wait_def
  by (intro keep_rules; simp)+

lemma vk_consolewrite_loop [keep_rules]: "v s = c \<Longrightarrow> keeps (\<lambda>t. v t = c) (consolewrite_loop vm src i k s)"
  by (induction k arbitrary: i s) (unfold consolewrite_loop.simps, (intro keep_rules; simp)+)

lemma vk_consoleread_loop [keep_rules]: "v s = c \<Longrightarrow> keeps (\<lambda>t. v t = c) (consoleread_loop vm n target dst out s)"
  by (induction n arbitrary: dst out s) (unfold consoleread_loop.simps, (intro keep_rules; simp)+)

lemma vk_console [keep_rules]:
  "v s = c \<Longrightarrow> keeps (\<lambda>t. v t = c) (consolewrite vm src n s)"
  "v s = c \<Longrightarrow> keeps (\<lambda>t. v t = c) (consoleread vm dst n s)"
  unfolding consolewrite_def consoleread_def
  by (intro keep_rules; simp)+

end

section \<open>Views without the inode table\<close>

locale fd_view = view +
  assumes v_ino [simp]: "v (upd_ino i g s) = v s"
begin

lemma vk_iget [keep_rules]:
  "v s = c \<Longrightarrow> keeps (\<lambda>t. v t = c) (iget dev n s)"
  "v s = c \<Longrightarrow> keeps (\<lambda>t. v t = c) (idup ip s)"
  "v s = c \<Longrightarrow> keeps (\<lambda>t. v t = c) (iput ip s)"
  unfolding iget_def idup_def iput_def
  by (intro keep_rules; simp)+

lemma vk_iunlockput [keep_rules]:
  "v s = c \<Longrightarrow> keeps (\<lambda>t. v t = c) (iunlockput ip s)"
  unfolding iunlockput_def
  by (intro keep_rules; simp)+

lemma vk_ialloc [keep_rules]:
  "v s = c \<Longrightarrow> keeps (\<lambda>t. v t = c) (ialloc dev ty s)"
  unfolding ialloc_def
  by (intro keep_rules; simp)+

lemma vk_dirlookup [keep_rules]:
  "v s = c \<Longrightarrow> keeps (\<lambda>t. v t = c) (dirlookup vm dp nm s)"
  unfolding dirlookup_def
  by (intro keep_rules; simp)+

lemma vk_dirlink [keep_rules]:
  "v s = c \<Longrightarrow> keeps (\<lambda>t. v t = c) (dirlink vm dp nm n s)"
  unfolding dirlink_def
  by (intro keep_rules; simp)+

lemma vk_namex_loop [keep_rules]: "v s = c \<Longrightarrow> keeps (\<lambda>t. v t = c) (namex_loop k vm np ip path nm s)"
  by (induction k arbitrary: ip path nm s) (unfold namex_loop.simps, (intro keep_rules; simp)+)

lemma vk_namex [keep_rules]:
  "v s = c \<Longrightarrow> keeps (\<lambda>t. v t = c) (namex vm path np nm s)"
  unfolding namex_def
  by (intro keep_rules; simp)+

lemma vk_namei [keep_rules]:
  "v s = c \<Longrightarrow> keeps (\<lambda>t. v t = c) (namei vm path s)"
  "v s = c \<Longrightarrow> keeps (\<lambda>t. v t = c) (nameiparent vm path nm s)"
  unfolding namei_def nameiparent_def
  by (intro keep_rules; simp)+

lemma vk_pagetable [keep_rules]:
  "v s = c \<Longrightarrow> keeps (\<lambda>t. v t = c) (proc_pagetable vm ks p s)"
  "v s = c \<Longrightarrow> keeps (\<lambda>t. v t = c) (proc_freepagetable vm pt n s)"
  unfolding proc_pagetable_def proc_freepagetable_def
  by (intro keep_rules; simp)+

lemma vk_freeproc [keep_rules]:
  "v s = c \<Longrightarrow> keeps (\<lambda>t. v t = c) (freeproc vm p s)"
  unfolding freeproc_def
  by (intro keep_rules; simp)+

lemma vk_growproc [keep_rules]:
  "v s = c \<Longrightarrow> keeps (\<lambda>t. v t = c) (growproc vm k s)"
  "v s = c \<Longrightarrow> keeps (\<lambda>t. v t = c) (get_cfs_priority vm i dst s)"
  unfolding growproc_def get_cfs_priority_def
  by (intro keep_rules; simp)+

lemma vk_wait_scan [keep_rules]: "v s = c \<Longrightarrow> keeps (\<lambda>t. v t = c) (wait_scan vm p a b ps hk s)"
  by (induction ps arbitrary: hk s) (unfold wait_scan.simps, (intro keep_rules; simp)+)

lemma vk_wait [keep_rules]:
  "v s = c \<Longrightarrow> keeps (\<lambda>t. v t = c) (wait vm a b s)"
  unfolding wait_def wait_loop_def
  by (intro keep_rules; simp)+

lemma vk_loadseg_loop [keep_rules]: "v s = c \<Longrightarrow> keeps (\<lambda>t. v t = c) (loadseg_loop k vm pt va ip off msz i s)"
  by (induction k arbitrary: i s) (unfold loadseg_loop.simps, (intro keep_rules; simp)+)

lemma vk_loadseg [keep_rules]:
  "v s = c \<Longrightarrow> keeps (\<lambda>t. v t = c) (loadseg vm pt va ip off msz s)"
  unfolding loadseg_def
  by (intro keep_rules; simp)+

lemma vk_exec_load [keep_rules]: "v s = c \<Longrightarrow> keeps (\<lambda>t. v t = c) (exec_load vm pt ip n off msz s)"
  by (induction n arbitrary: off msz s) (unfold exec_load.simps, (intro keep_rules; simp)+)

lemma vk_exec_args [keep_rules]: "v s = c \<Longrightarrow> keeps (\<lambda>t. v t = c) (exec_args vm pt stb argv sp us s)"
  by (induction argv arbitrary: sp us s) (unfold exec_args.simps, (intro keep_rules; simp)+)

lemma vk_exec_bad [keep_rules]:
  "v s = c \<Longrightarrow> keeps (\<lambda>t. v t = c) (exec_bad vm pt msz ipo s)"
  unfolding exec_bad_def
  by (intro keep_rules; simp)+

lemma vk_exec_commit [keep_rules]:
  "v s = c \<Longrightarrow> keeps (\<lambda>t. v t = c) (exec_commit vm p path elf pt msz osz stb us sp s)"
  unfolding exec_commit_def
  by (intro keep_rules; simp)+

lemma vk_exec_stack [keep_rules]:
  "v s = c \<Longrightarrow> keeps (\<lambda>t. v t = c) (exec_stack vm p path argv elf pt msz s)"
  unfolding exec_stack_def
  by (intro keep_rules; simp)+

lemma vk_exec [keep_rules]:
  "v s = c \<Longrightarrow> keeps (\<lambda>t. v t = c) (exec vm ks path argv s)"
  unfolding exec_def
  by (intro keep_rules; simp)+

end

end
