(* ===== verification/Descriptors.thy ===== *)
theory Descriptors
  imports Frames Trap
begin

text \<open>
  The reference counts of open files: in every state a system call hands on, the count of a file is
  the number of descriptors that name it.
\<close>

section \<open>The invariant\<close>

text \<open>The part of the state the invariant is about: counts and types of the files, and the descriptors.\<close>

definition fdtab :: "'z flstate_scheme \<Rightarrow> (nat \<Rightarrow> int \<times> ftype) \<times> (nat \<Rightarrow> nat \<Rightarrow> nat option)" where
  "fdtab s = ((\<lambda>f. (f_ref (files s f), f_type (files s f))), (\<lambda>p. ofile (procs s p)))"

definition fd_refs :: "(nat \<Rightarrow> nat \<Rightarrow> nat option) \<Rightarrow> nat \<Rightarrow> (nat \<times> nat) set" where
  "fd_refs D f = {(p, fd). D p fd = Some f}"

text \<open>
  \<open>d f\<close> is the number of references to \<open>f\<close> that are counted but not held by a descriptor, such as the
  one that a system call holds in a local variable.
\<close>

definition refs_ok :: "(nat \<Rightarrow> int) \<Rightarrow> (nat \<Rightarrow> int \<times> ftype) \<times> (nat \<Rightarrow> nat \<Rightarrow> nat option) \<Rightarrow> bool" where
  "refs_ok d V \<longleftrightarrow> finite {(p, fd). snd V p fd \<noteq> None}
     \<and> (\<forall>p fd f. snd V p fd = Some f \<longrightarrow> fd < NOFILE \<and> f < NFILE)
     \<and> (\<forall>f. fst (fst V f) = int (card (fd_refs (snd V) f)) + d f)
     \<and> (\<forall>f. fst (fst V f) = 0 \<longrightarrow> snd (fst V f) = FD_NONE)"

definition refs_inv :: "'z flstate_scheme \<Rightarrow> bool" where
  "refs_inv s \<longleftrightarrow> refs_ok (\<lambda>_. 0) (fdtab s)"

lemma fd_refs_finite: "refs_ok d (F, D) \<Longrightarrow> finite (fd_refs D f)"
  by (rule finite_subset [of _ "{(p, fd). D p fd \<noteq> None}"]) (auto simp: fd_refs_def refs_ok_def)

lemma refs_free_type: "refs_ok d V \<Longrightarrow> fst (fst V f) = 0 \<Longrightarrow> snd (fst V f) = FD_NONE"
  unfolding refs_ok_def by blast

lemma refs_count:
  assumes "refs_ok d (F, D)" "fst (F f) + k \<noteq> 0 \<or> ty = FD_NONE"
  shows "refs_ok (d(f := d f + k)) (F(f := (fst (F f) + k, ty)), D)"
  using assms by (auto simp: refs_ok_def)

lemma refs_enter:
  assumes "refs_ok d (F, D)" "D p fd = None" "fd < NOFILE" "f < NFILE"
  shows "refs_ok (d(f := d f - 1)) (F, D(p := (D p)(fd := Some f)))"
proof -
  let ?D = "D(p := (D p)(fd := Some f))"
  have f: "fd_refs ?D f = insert (p, fd) (fd_refs D f)" "(p, fd) \<notin> fd_refs D f"
    using assms(2) by (auto simp: fd_refs_def split: if_splits)
  have g: "fd_refs ?D g = fd_refs D g" if "g \<noteq> f" for g
    using assms(2) that by (auto simp: fd_refs_def split: if_splits)
  have "{(q, i). ?D q i \<noteq> None} = insert (p, fd) {(q, i). D q i \<noteq> None}" by (auto split: if_splits)
  then show ?thesis
    using assms f g fd_refs_finite [OF assms(1), of f] by (auto simp: refs_ok_def split: if_splits)
qed

lemma refs_leave:
  assumes "refs_ok d (F, D)" "D p fd = Some f"
  shows "refs_ok (d(f := d f + 1)) (F, D(p := (D p)(fd := None)))"
proof -
  let ?D = "D(p := (D p)(fd := None))"
  have f: "fd_refs D f = insert (p, fd) (fd_refs ?D f)" "(p, fd) \<notin> fd_refs ?D f"
    using assms(2) by (auto simp: fd_refs_def split: if_splits)
  have g: "fd_refs ?D g = fd_refs D g" if "g \<noteq> f" for g
    using assms(2) that by (auto simp: fd_refs_def split: if_splits)
  have "finite (fd_refs ?D f)" using fd_refs_finite [OF assms(1), of f] f(1) by simp
  then have c: "card (fd_refs D f) = Suc (card (fd_refs ?D f))" using f by simp
  have "{(q, i). ?D q i \<noteq> None} \<subseteq> {(q, i). D q i \<noteq> None}" by (auto split: if_splits)
  then have "finite {(q, i). ?D q i \<noteq> None}" using assms(1) by (auto simp: refs_ok_def intro: finite_subset)
  then show ?thesis
    using assms c g by (auto simp: refs_ok_def split: if_splits)
qed

lemma refs_open: "refs_ok d (F, D) \<Longrightarrow> D p fd = Some f \<Longrightarrow> 1 + d f \<le> fst (F f)"
proof -
  assume r: "refs_ok d (F, D)" and "D p fd = Some f"
  then have "fd_refs D f \<noteq> {}" by (auto simp: fd_refs_def)
  then have "0 < card (fd_refs D f)" using fd_refs_finite [OF r] by (simp add: card_gt_0_iff)
  then show ?thesis using r by (simp add: refs_ok_def)
qed

section \<open>The view\<close>

interpretation fdv: fd_view fdtab
  by unfold_locales (simp_all add: fdtab_def upd_ino_def)

interpretation mpv: fd_view myproc
  by unfold_locales (simp_all add: myproc_def cpuid_def upd_ino_def)

lemma fdtab_upd [simp]:
  "f_ref (g (files s f)) = f_ref (files s f) \<Longrightarrow> f_type (g (files s f)) = f_type (files s f) \<Longrightarrow> fdtab (upd_file f g s) = fdtab s"
  by (auto simp: fdtab_def upd_file_def fun_eq_iff)

lemma keeps_ftype [keep_rules]:
  "(x = FD_NONE \<Longrightarrow> keeps P a) \<Longrightarrow> (x = FD_PIPE \<Longrightarrow> keeps P b) \<Longrightarrow> (x = FD_INODE \<Longrightarrow> keeps P e) \<Longrightarrow> (x = FD_DEVICE \<Longrightarrow> keeps P g) \<Longrightarrow>
    keeps P (case x of FD_NONE \<Rightarrow> a | FD_PIPE \<Rightarrow> b | FD_INODE \<Rightarrow> e | FD_DEVICE \<Rightarrow> g)"
  by (cases x) auto

lemma keeps_devfn [keep_rules]:
  "keeps P a \<Longrightarrow> keeps P b \<Longrightarrow> keeps P (case x of Fconsoleread \<Rightarrow> a | Fconsolewrite \<Rightarrow> b)"
  by (cases x) auto

lemma fdk_filestat [keep_rules]:
  "fdtab s = c \<Longrightarrow> keeps (\<lambda>t. fdtab t = c) (filestat vm pad f a s)"
  unfolding filestat_def by (intro keep_rules; simp)

lemma fdk_dev_call [keep_rules]:
  "fdtab s = c \<Longrightarrow> keeps (\<lambda>t. fdtab t = c) (dev_call vm fn a n s)"
  unfolding dev_call_def
  by (intro keep_rules; simp)+

lemma fdk_fileread [keep_rules]:
  "fdtab s = c \<Longrightarrow> keeps (\<lambda>t. fdtab t = c) (fileread vm f a n s)"
  unfolding fileread_def
  by (intro keep_rules; simp)+

lemma fdk_filewrite_loop [keep_rules]: "fdtab s = c \<Longrightarrow> keeps (\<lambda>t. fdtab t = c) (filewrite_loop k vm f a i n s)"
  by (induction k arbitrary: i s) (unfold filewrite_loop.simps, (intro keep_rules; simp)+)

lemma fdk_filewrite [keep_rules]:
  "fdtab s = c \<Longrightarrow> keeps (\<lambda>t. fdtab t = c) (filewrite vm f a n s)"
  unfolding filewrite_def
  by (intro keep_rules; simp)+

lemma fdk_args [keep_rules]:
  "fdtab s = c \<Longrightarrow> keeps (\<lambda>t. fdtab t = c) (fetchaddr vm a s)"
  "fdtab s = c \<Longrightarrow> keeps (\<lambda>t. fdtab t = c) (fetchstr vm a n s)"
  "fdtab s = c \<Longrightarrow> keeps (\<lambda>t. fdtab t = c) (argraw i s)"
  unfolding fetchaddr_def fetchstr_def argraw_def
  by (intro keep_rules; simp)+

lemma fdk_argint [keep_rules]:
  "fdtab s = c \<Longrightarrow> keeps (\<lambda>t. fdtab t = c) (argint i s)"
  "fdtab s = c \<Longrightarrow> keeps (\<lambda>t. fdtab t = c) (argaddr i s)"
  unfolding argint_def argaddr_def
  by (intro keep_rules; simp)+

lemma fdk_argstr [keep_rules]:
  "fdtab s = c \<Longrightarrow> keeps (\<lambda>t. fdtab t = c) (argstr vm i n s)"
  "fdtab s = c \<Longrightarrow> keeps (\<lambda>t. fdtab t = c) (argfd i s)"
  unfolding argstr_def argfd_def
  by (intro keep_rules; simp)+

lemma fdk_argpath [keep_rules]:
  "fdtab s = c \<Longrightarrow> keeps (\<lambda>t. fdtab t = c) (argpath vm i s)"
  "fdtab s = c \<Longrightarrow> keeps (\<lambda>t. fdtab t = c) (fail_op s)"
  unfolding argpath_def fail_op_def
  by (intro keep_rules; simp)+

lemma fdk_sysproc [keep_rules]:
  "fdtab s = c \<Longrightarrow> keeps (\<lambda>t. fdtab t = c) (sys_getpid s)"
  "fdtab s = c \<Longrightarrow> keeps (\<lambda>t. fdtab t = c) (sys_wait vm s)"
  "fdtab s = c \<Longrightarrow> keeps (\<lambda>t. fdtab t = c) (sys_sbrk vm s)"
  "fdtab s = c \<Longrightarrow> keeps (\<lambda>t. fdtab t = c) (sys_kill s)"
  "fdtab s = c \<Longrightarrow> keeps (\<lambda>t. fdtab t = c) (sys_uptime s)"
  "fdtab s = c \<Longrightarrow> keeps (\<lambda>t. fdtab t = c) (sys_memsize s)"
  "fdtab s = c \<Longrightarrow> keeps (\<lambda>t. fdtab t = c) (sys_set_ps_priority s)"
  "fdtab s = c \<Longrightarrow> keeps (\<lambda>t. fdtab t = c) (sys_set_cfs_priority s)"
  "fdtab s = c \<Longrightarrow> keeps (\<lambda>t. fdtab t = c) (sys_get_cfs_stats vm s)"
  "fdtab s = c \<Longrightarrow> keeps (\<lambda>t. fdtab t = c) (sys_set_policy s)"
  unfolding sys_getpid_def sys_wait_def sys_sbrk_def sys_kill_def sys_uptime_def sys_memsize_def
    sys_set_ps_priority_def sys_set_cfs_priority_def sys_get_cfs_stats_def sys_set_policy_def
  by (intro keep_rules; simp)+

lemma fdk_sys_sleep [keep_rules]:
  "fdtab s = c \<Longrightarrow> keeps (\<lambda>t. fdtab t = c) (sys_sleep s)"
  unfolding sys_sleep_def sys_sleep_loop_def
  by (intro keep_rules; simp)+

lemma fdk_sys_file [keep_rules]:
  "fdtab s = c \<Longrightarrow> keeps (\<lambda>t. fdtab t = c) (sys_read vm s)"
  "fdtab s = c \<Longrightarrow> keeps (\<lambda>t. fdtab t = c) (sys_write vm s)"
  "fdtab s = c \<Longrightarrow> keeps (\<lambda>t. fdtab t = c) (sys_fstat vm pad s)"
  unfolding sys_read_def sys_write_def sys_fstat_def
  by (intro keep_rules; simp)+

lemma fdk_add_nlink [simp]: "fdtab (add_nlink ip d s) = fdtab s"
  by (simp add: add_nlink_def)

lemma fdk_create_aux [keep_rules]:
  "fdtab s = c \<Longrightarrow> keeps (\<lambda>t. fdtab t = c) (create_fail ip dp s)"
  "fdtab s = c \<Longrightarrow> keeps (\<lambda>t. fdtab t = c) (create_new vm dp ip nm ty ma mi s)"
  "fdtab s = c \<Longrightarrow> keeps (\<lambda>t. fdtab t = c) (sys_link_bad ip s)"
  unfolding create_fail_def create_new_def sys_link_bad_def
  by (intro keep_rules; simp)+

lemma fdk_create [keep_rules]:
  "fdtab s = c \<Longrightarrow> keeps (\<lambda>t. fdtab t = c) (create vm path ty ma mi s)"
  "fdtab s = c \<Longrightarrow> keeps (\<lambda>t. fdtab t = c) (sys_link vm s)"
  "fdtab s = c \<Longrightarrow> keeps (\<lambda>t. fdtab t = c) (sys_unlink vm s)"
  unfolding create_def sys_link_def sys_unlink_def
  by (intro keep_rules; simp)+

lemma fdk_mkdir [keep_rules]:
  "fdtab s = c \<Longrightarrow> keeps (\<lambda>t. fdtab t = c) (sys_mkdir vm s)"
  "fdtab s = c \<Longrightarrow> keeps (\<lambda>t. fdtab t = c) (sys_mknod vm s)"
  "fdtab s = c \<Longrightarrow> keeps (\<lambda>t. fdtab t = c) (sys_chdir vm s)"
  "fdtab s = c \<Longrightarrow> keeps (\<lambda>t. fdtab t = c) (sys_open_inode vm path om s)"
  unfolding sys_mkdir_def sys_mknod_def sys_chdir_def sys_open_inode_def
  by (intro keep_rules; simp)+

lemma fdk_sys_exec_args [keep_rules]: "fdtab s = c \<Longrightarrow> keeps (\<lambda>t. fdtab t = c) (sys_exec_args vm ua i n argv s)"
  by (induction n arbitrary: i argv s) (unfold sys_exec_args.simps, (intro keep_rules; simp)+)

lemma fdk_free_args [keep_rules]:
  "fdtab s = c \<Longrightarrow> keeps (\<lambda>t. fdtab t = c) (free_args argv s)"
  unfolding free_args_def
  by (intro keep_rules; simp)+

lemma fdk_sys_exec [keep_rules]:
  "fdtab s = c \<Longrightarrow> keeps (\<lambda>t. fdtab t = c) (sys_exec vm ks s)"
  unfolding sys_exec_def
  by (intro keep_rules; simp)+

section \<open>Calls that change the counts\<close>

text \<open>\<open>ends I Q m\<close>: a state handed to the scheduler satisfies \<open>I\<close>, a result and its state satisfy \<open>Q\<close>.\<close>

definition ends :: "('s \<Rightarrow> bool) \<Rightarrow> ('a \<Rightarrow> 's \<Rightarrow> bool) \<Rightarrow> ('a, 's) res \<Rightarrow> bool" where
  "ends I Q m \<longleftrightarrow> (case m of Ret a t \<Rightarrow> Q a t | Swtch t \<Rightarrow> I t | _ \<Rightarrow> True)"

lemma ends_simps [simp]:
  "ends I Q (Ret a t) = Q a t" "ends I Q (Swtch t) = I t" "ends I Q (Panic e) = True" "ends I Q Hang = True" "ends I Q Fault = True"
  by (simp_all add: ends_def)

lemma keeps_ends: "keeps I m \<longleftrightarrow> ends I (\<lambda>_. I) m"
  by (cases m) simp_all

lemma ends_bind: "ends I Q m \<Longrightarrow> (\<And>a t. Q a t \<Longrightarrow> ends I R (f a t)) \<Longrightarrow> ends I R (res_bind m f)"
  by (cases m) auto

lemma ends_mono: "ends I Q m \<Longrightarrow> (\<And>t. I t \<Longrightarrow> J t) \<Longrightarrow> (\<And>a t. Q a t \<Longrightarrow> R a t) \<Longrightarrow> ends J R m"
  by (cases m) auto

definition no_swtch :: "('a, 's) res \<Rightarrow> bool" where
  "no_swtch m \<longleftrightarrow> (\<forall>t. m \<noteq> Swtch t)"

lemma no_swtch_simps [simp]: "no_swtch (Ret a s)" "no_swtch (Panic e)" "no_swtch Hang" "no_swtch Fault" "\<not> no_swtch (Swtch s)"
  by (simp_all add: no_swtch_def)

lemma no_swtch_bind: "no_swtch m \<Longrightarrow> (\<And>a t. no_swtch (f a t)) \<Longrightarrow> no_swtch (res_bind m f)"
  by (cases m) (auto simp: no_swtch_def)

lemma no_swtch_for: "(\<And>i t. no_swtch (f i t)) \<Longrightarrow> no_swtch (for_loop f is s)"
proof (induction "is" arbitrary: s)
  case (Cons i "is")
  then show ?case
    unfolding for_loop.simps by (intro no_swtch_bind) (auto simp: no_swtch_def split: option.split)
qed (simp add: no_swtch_def)

lemma no_swtch_lock: "no_swtch (lock_acquire l s)" "no_swtch (lock_release l s)"
  by (simp_all add: no_swtch_def lock_acquire_def lock_release_def)

lemma no_swtch_wakeup: "no_swtch (wakeup ch s)"
  unfolding wakeup_def
  by (intro no_swtch_bind no_swtch_for) (auto simp: no_swtch_def Let_def lock_acquire_def lock_release_def)

lemma no_swtch_kfree: "no_swtch (kfree pa s)"
  by (auto simp: no_swtch_def kfree_def lock_acquire_def lock_release_def Let_def)

lemma no_swtch_pipeclose: "no_swtch (pipeclose pi w s)"
  unfolding pipeclose_def
  by (intro no_swtch_bind no_swtch_lock) (auto intro!: no_swtch_wakeup no_swtch_bind no_swtch_lock no_swtch_kfree)

lemma ends_keeps: "keeps P m \<Longrightarrow> no_swtch m \<Longrightarrow> ends I (\<lambda>_. P) m"
  by (cases m) (simp_all add: no_swtch_def)

lemma ends_lock: "fdtab s = V \<Longrightarrow> ends I (\<lambda>_ t. fdtab t = V \<and> files t = files s \<and> procs t = procs s) (lock_acquire l s)"
  "fdtab s = V \<Longrightarrow> ends I (\<lambda>_ t. fdtab t = V \<and> files t = files s \<and> procs t = procs s) (lock_release l s)"
  by (auto simp: lock_acquire_def lock_release_def fdtab_def)

lemma fdtab_count:
  "f_ref (g (files s f)) = r \<Longrightarrow> f_type (g (files s f)) = ty \<Longrightarrow>
     fdtab (upd_file f g s) = ((fst (fdtab s))(f := (r, ty)), snd (fdtab s))"
  by (auto simp: fdtab_def upd_file_def fun_eq_iff)

lemma fst_fdtab: "fst (fdtab s) f = (f_ref (files s f), f_type (files s f))"
  by (simp add: fdtab_def)

lemma filealloc_ends:
  "ends I (\<lambda>r t. case r of None \<Rightarrow> fdtab t = fdtab s
     | Some f \<Rightarrow> f < NFILE \<and> fst (fst (fdtab s) f) = 0 \<and> fdtab t = ((fst (fdtab s))(f := (1, f_type (files s f))), snd (fdtab s)))
     (filealloc s)"
proof -
  have "ends I (\<lambda>r u. case r of None \<Rightarrow> fdtab u = fdtab s
     | Some f \<Rightarrow> f < NFILE \<and> fst (fst (fdtab s) f) = 0 \<and> fdtab u = ((fst (fdtab s))(f := (1, f_type (files s f))), snd (fdtab s)))
       (case List.find (\<lambda>f. f_ref (files t f) = 0) [0..<NFILE] of
         Some f \<Rightarrow> res_bind (lock_release FtableLock (upd_file f (\<lambda>q. q\<lparr>f_ref := 1\<rparr>) t)) (\<lambda>_ s. Ret (Some f) s)
       | None \<Rightarrow> res_bind (lock_release FtableLock t) (\<lambda>_ s. Ret None s))"
    if t: "fdtab t = fdtab s \<and> files t = files s \<and> procs t = procs s" for t
  proof (cases "List.find (\<lambda>f. f_ref (files t f) = 0) [0..<NFILE]")
    case None
    then show ?thesis using ends_lock(2) [of t "fdtab s" I FtableLock] t by (auto intro!: ends_bind)
  next
    case (Some f)
    then have f: "f < NFILE" "f_ref (files t f) = 0" by (auto simp: find_upt_Some)
    let ?t = "upd_file f (\<lambda>q. q\<lparr>f_ref := 1\<rparr>) t"
    have "fdtab ?t = ((fst (fdtab s))(f := (1, f_type (files s f))), snd (fdtab s))"
      using t fdtab_count [of "\<lambda>q. q\<lparr>f_ref := 1\<rparr>" t f] by simp
    then show ?thesis using Some f t fst_fdtab [of s f] ends_lock(2) [of ?t "fdtab ?t" I FtableLock] by (auto intro!: ends_bind)
  qed
  then show ?thesis unfolding filealloc_def
    by (intro ends_bind [OF ends_lock(1) [OF refl]]) blast
qed

lemma fdalloc_ends:
  assumes "refs_ok d (fdtab s)" "f < NFILE"
  shows "ends I (\<lambda>r t. (case r of None \<Rightarrow> t = s | Some fd \<Rightarrow> fd < NOFILE \<and> refs_ok (d(f := d f - 1)) (fdtab t)
     \<and> files t = files s \<and> (\<exists>p. myproc s = Some p \<and> snd (fdtab s) p fd = None \<and> snd (fdtab t) = (snd (fdtab s))(p := (snd (fdtab s) p)(fd := Some f)))) \<and> myproc t = myproc s) (fdalloc f s)"
proof (cases "myproc s")
  case (Some p)
  show ?thesis
  proof (cases "List.find (\<lambda>fd. ofile (procs s p) fd = None) [0..<NOFILE]")
    case (Some fd)
    then have fd: "fd < NOFILE" "ofile (procs s p) fd = None" by (auto simp: find_upt_Some)
    let ?t = "upd_proc p (\<lambda>q. q\<lparr>ofile := (ofile q)(fd := Some f)\<rparr>) s"
    have V: "fdtab ?t = (fst (fdtab s), (snd (fdtab s))(p := (snd (fdtab s) p)(fd := Some f)))"
      by (auto simp: fdtab_def upd_proc_def fun_eq_iff)
    have "refs_ok (d(f := d f - 1)) (fdtab ?t)"
      unfolding V using assms fd by (intro refs_enter) (simp_all, simp add: fdtab_def)
    moreover have "snd (fdtab s) p fd = None" using fd by (simp add: fdtab_def)
    ultimately show ?thesis using \<open>myproc s = Some p\<close> Some fd V by (simp add: fdalloc_def) (simp add: upd_proc_def)
  qed (simp add: fdalloc_def \<open>myproc s = Some p\<close>)
qed (simp add: fdalloc_def with_proc_def)

lemma filedup_ends:
  assumes "refs_ok d (fdtab s)"
  shows "ends I (\<lambda>_ t. refs_ok (d(f := d f + 1)) (fdtab t)) (filedup f s)"
proof -
  have "ends I (\<lambda>_ u. refs_ok (d(f := d f + 1)) (fdtab u))
      (lock_release FtableLock (upd_file f (\<lambda>q. q\<lparr>f_ref := f_ref q + 1\<rparr>) t))"
    if t: "fdtab t = fdtab s" "1 \<le> f_ref (files t f)" for t
  proof -
    let ?t = "upd_file f (\<lambda>q. q\<lparr>f_ref := f_ref q + 1\<rparr>) t"
    have V: "fdtab ?t = ((fst (fdtab s))(f := (fst (fst (fdtab s) f) + 1, f_type (files t f))), snd (fdtab s))"
      using t fst_fdtab [of t f] fdtab_count [of "\<lambda>q. q\<lparr>f_ref := f_ref q + 1\<rparr>" t f] by simp
    have "refs_ok (d(f := d f + 1)) (fdtab ?t)"
      unfolding V using assms t fst_fdtab [of t f] by (intro refs_count) simp_all
    then show ?thesis by (intro ends_mono [OF ends_lock(2) [OF refl, of I ?t]]) simp_all
  qed
  then show ?thesis unfolding filedup_def
    by (intro ends_bind [OF ends_lock(1) [OF refl]])
      (auto intro!: ends_bind [where Q = "\<lambda>_ u. refs_ok (d(f := d f + 1)) (fdtab u)"])
qed

text \<open>The state after the critical section of \<^verbatim>\<open>fileclose\<close>, and the rest of the routine.\<close>

definition closed :: "nat \<Rightarrow> 'z flstate_scheme \<Rightarrow> 'z flstate_scheme" where
  "closed f s = upd_file f (\<lambda>q. if 1 < f_ref q then q\<lparr>f_ref := f_ref q - 1\<rparr> else q\<lparr>f_ref := 0, f_type := FD_NONE\<rparr>) s"

lemma closed_refs:
  assumes "refs_ok d (fdtab s)" "1 \<le> f_ref (files s f)"
  shows "refs_ok (d(f := d f - 1)) (fdtab (closed f s))"
proof -
  let ?ty = "if 1 < f_ref (files s f) then f_type (files s f) else FD_NONE"
  have "fdtab (closed f s) = ((fst (fdtab s))(f := (fst (fst (fdtab s) f) + -1, ?ty)), snd (fdtab s))"
    using assms fst_fdtab [of s f] unfolding closed_def by (subst fdtab_count [where ty = ?ty]) auto
  then show ?thesis
    using refs_count [of d "fst (fdtab s)" "snd (fdtab s)" f "-1" ?ty] assms fst_fdtab [of s f] by auto
qed

lemma fileclose_cases:
  fixes s :: "'z flstate_scheme"
  shows "fileclose f s = res_bind (lock_acquire FtableLock s) (\<lambda>_ s.
     if f_ref (files s f) < 1 then Panic ''fileclose''
     else res_bind (lock_release FtableLock (closed f s)) (\<lambda>_ t.
       if 1 < f_ref (files s f) then Ret () t
       else case f_type (files s f) of
         FD_PIPE \<Rightarrow> pipeclose (f_pipe (files s f)) (f_writable (files s f)) t
       | FD_NONE \<Rightarrow> Ret () t
       | _ \<Rightarrow> res_bind (begin_op t) (\<lambda>_ t. (case f_ip (files s f) of None \<Rightarrow> Fault
                | Some ip \<Rightarrow> res_bind (iput ip t) (\<lambda>_ t. end_op t)))))"
proof -
  have "upd_file f (\<lambda>q. q\<lparr>f_ref := 0, f_type := FD_NONE\<rparr>) (upd_file f (\<lambda>q. q\<lparr>f_ref := f_ref q - 1\<rparr>) s) = closed f s"
    if "\<not> 1 < f_ref (files s f)" for s :: "'z flstate_scheme"
    using that by (simp add: upd_file_def closed_def)
  moreover have "upd_file f (\<lambda>q. q\<lparr>f_ref := f_ref q - 1\<rparr>) s = closed f s" if "1 < f_ref (files s f)" for s :: "'z flstate_scheme"
    using that by (simp add: upd_file_def closed_def)
  moreover have "files (upd_file f g s) f = g (files s f)" for g and s :: "'z flstate_scheme" by (simp add: upd_file_def)
  ultimately show ?thesis
    unfolding fileclose_def Let_def
    by (intro arg_cong2 [where f = res_bind] ext refl) (auto cong: ftype.case_cong)
qed

lemma fileclose_keeps:
  fixes s :: "'z flstate_scheme"
  assumes "refs_ok d (fdtab s)"
  shows "keeps (\<lambda>t. refs_ok (d(f := d f - 1)) (fdtab t)) (fileclose f s)"
proof -
  let ?I = "\<lambda>t. refs_ok (d(f := d f - 1)) (fdtab t)"
  have k: "keeps ?I m" if "keeps (\<lambda>t. fdtab t = V) m" "refs_ok (d(f := d f - 1)) V" for m :: "(unit, 'z flstate_scheme) res" and V
    using that by (cases m) simp_all
  show ?thesis
    unfolding fileclose_cases keeps_ends
  proof (rule ends_bind [OF ends_lock(1) [OF refl]])
    fix u :: unit and t :: "'z flstate_scheme" assume t: "fdtab t = fdtab s \<and> files t = files s \<and> procs t = procs s"
    show "ends ?I (\<lambda>_. ?I) (if f_ref (files t f) < 1 then Panic ''fileclose''
       else res_bind (lock_release FtableLock (closed f t)) (\<lambda>_ u.
         if 1 < f_ref (files t f) then Ret () u
         else case f_type (files t f) of
           FD_PIPE \<Rightarrow> pipeclose (f_pipe (files t f)) (f_writable (files t f)) u
         | FD_NONE \<Rightarrow> Ret () u
         | _ \<Rightarrow> res_bind (begin_op u) (\<lambda>_ t'. (case f_ip (files t f) of None \<Rightarrow> Fault
                  | Some ip \<Rightarrow> res_bind (iput ip t') (\<lambda>_ t. end_op t)))))"
    proof (cases "f_ref (files t f) < 1")
      case False
      then have r: "refs_ok (d(f := d f - 1)) (fdtab (closed f t))" using assms t by (intro closed_refs) simp_all
      have "keeps (\<lambda>u. fdtab u = fdtab (closed f t)) (res_bind (lock_release FtableLock (closed f t)) (\<lambda>_ u.
         if 1 < f_ref (files t f) then Ret () u
         else case f_type (files t f) of
           FD_PIPE \<Rightarrow> pipeclose (f_pipe (files t f)) (f_writable (files t f)) u
         | FD_NONE \<Rightarrow> Ret () u
         | _ \<Rightarrow> res_bind (begin_op u) (\<lambda>_ t'. (case f_ip (files t f) of None \<Rightarrow> Fault
                  | Some ip \<Rightarrow> res_bind (iput ip t') (\<lambda>_ t. end_op t)))))"
        by (intro keep_rules; simp)
      from k [OF this r] show ?thesis using False unfolding keeps_ends by simp
    qed simp
  qed
qed

lemma argfd_ends:
  "ends I (\<lambda>r t. t = s \<and> (\<forall>fd f. r = Some (fd, f) \<longrightarrow> (\<exists>p. myproc s = Some p \<and> snd (fdtab s) p (unat fd) = Some f))) (argfd n s)"
  by (auto simp: argfd_def argint_def argraw_def with_proc_def fdtab_def split: option.split)

lemma ends_view:
  assumes "keeps (\<lambda>t. fdtab t = V) m" "\<And>t. fdtab t = V \<Longrightarrow> I t"
  shows "ends I (\<lambda>_ t. fdtab t = V) m"
  using assms by (cases m) simp_all

lemma refs_inv_cong: "refs_inv s \<Longrightarrow> fdtab t = fdtab s \<Longrightarrow> refs_inv t"
  by (simp add: refs_inv_def)

lemma keeps_refs: "refs_inv s \<Longrightarrow> keeps (\<lambda>t. fdtab t = fdtab s) m \<Longrightarrow> keeps refs_inv m"
  by (cases m) (simp_all add: refs_inv_def)

lemmas refs_rules =
  keeps_refs [OF _ fdk_argint(1) [OF refl]] keeps_refs [OF _ fdk_argint(2) [OF refl]] keeps_refs [OF _ fdk_argpath(1) [OF refl]]
  keeps_refs [OF _ fdk_argpath(2) [OF refl]] keeps_refs [OF _ fdv.vk_log(5) [OF refl]] keeps_refs [OF _ fdk_mkdir(4) [OF refl]]
  keeps_refs [OF _ fdv.vk_iunlockput [OF refl]] keeps_refs [OF _ fdv.vk_vm_run [OF refl]]

lemma refs_inv_eta: "refs_inv = (\<lambda>s. refs_ok (\<lambda>_. 0) (fdtab s))"
  by (simp add: fun_eq_iff refs_inv_def)

lemma slack_zero [simp]: "(\<lambda>_. 0)(f := 0) = (\<lambda>_. 0 :: int)"
  by (simp add: fun_eq_iff)

lemma sys_dup_refs:
  assumes "refs_inv s"
  shows "keeps refs_inv (sys_dup s)"
  unfolding sys_dup_def keeps_ends
proof (rule ends_bind [OF argfd_ends])
  fix r :: "(cint \<times> nat) option" and t :: "'a flstate_scheme"
  assume t: "t = s \<and> (\<forall>fd f. r = Some (fd, f) \<longrightarrow> (\<exists>p. myproc s = Some p \<and> snd (fdtab s) p (unat fd) = Some f))"
  show "ends refs_inv (\<lambda>_. refs_inv) (case r of None \<Rightarrow> Ret (-1) t | Some (_, f) \<Rightarrow>
         res_bind (fdalloc f t) (\<lambda>r s. case r of None \<Rightarrow> Ret (-1) s
         | Some fd \<Rightarrow> res_bind (filedup f s) (\<lambda>_ s. Ret (of_nat fd) s)))"
  proof (cases r)
    case None
    then show ?thesis using assms t by simp
  next
    case (Some x)
    obtain fd f where r: "r = Some (fd, f)" using Some by (cases x) auto
    then have f: "f < NFILE" using assms t by (auto simp: refs_inv_def refs_ok_def)
    have "ends refs_inv (\<lambda>_. refs_inv) (res_bind (fdalloc f s) (\<lambda>r s. case r of None \<Rightarrow> Ret (-1) s
         | Some fd \<Rightarrow> res_bind (filedup f s) (\<lambda>_ s. Ret (of_nat fd) s)))"
    proof (rule ends_bind [OF fdalloc_ends [OF assms [unfolded refs_inv_def] f]])
      fix r' and u :: "'a flstate_scheme"
      assume u: "(case r' of None \<Rightarrow> u = s | Some fd \<Rightarrow> fd < NOFILE \<and> refs_ok ((\<lambda>_. 0)(f := 0 - 1)) (fdtab u)
         \<and> files u = files s \<and> (\<exists>p. myproc s = Some p \<and> snd (fdtab s) p fd = None \<and> snd (fdtab u) = (snd (fdtab s))(p := (snd (fdtab s) p)(fd := Some f)))) \<and> myproc u = myproc s"
      show "ends refs_inv (\<lambda>_. refs_inv) (case r' of None \<Rightarrow> Ret (-1) u
         | Some fd \<Rightarrow> res_bind (filedup f u) (\<lambda>_ s. Ret (of_nat fd) s))"
      proof (cases r')
        case (Some fd')
        then have d: "refs_ok ((\<lambda>_. 0)(f := 0 - 1)) (fdtab u)" using u by simp
        have "ends refs_inv (\<lambda>_. refs_inv) (filedup f u)"
          using filedup_ends [OF d, of refs_inv f] by (simp add: refs_inv_eta)
        then show ?thesis using Some by (auto intro: ends_bind)
      qed (use u assms in simp)
    qed
    then show ?thesis using r t by simp
  qed
qed

lemma clear_refs:
  assumes "refs_ok d (fdtab s)" "snd (fdtab s) p fd = Some f"
  shows "refs_ok (d(f := d f + 1)) (fdtab (clear_fd p fd s))"
    "fdtab (clear_fd p fd s) = (fst (fdtab s), (snd (fdtab s))(p := (snd (fdtab s) p)(fd := None)))"
proof -
  show V: "fdtab (clear_fd p fd s) = (fst (fdtab s), (snd (fdtab s))(p := (snd (fdtab s) p)(fd := None)))"
    by (auto simp: fdtab_def clear_fd_def upd_proc_def fun_eq_iff)
  show "refs_ok (d(f := d f + 1)) (fdtab (clear_fd p fd s))"
    unfolding V using assms by (intro refs_leave) simp_all
qed

lemma sys_close_refs:
  assumes "refs_inv s"
  shows "keeps refs_inv (sys_close s)"
  unfolding sys_close_def keeps_ends
proof (rule ends_bind [OF argfd_ends])
  fix r :: "(cint \<times> nat) option" and t :: "'a flstate_scheme"
  assume t: "t = s \<and> (\<forall>fd f. r = Some (fd, f) \<longrightarrow> (\<exists>p. myproc s = Some p \<and> snd (fdtab s) p (unat fd) = Some f))"
  show "ends refs_inv (\<lambda>_. refs_inv) (case r of None \<Rightarrow> Ret (-1) t | Some (fd, f) \<Rightarrow>
         with_proc (\<lambda>p s. res_bind (fileclose f (clear_fd p (unat fd) s)) (\<lambda>_ s. Ret 0 s)) t)"
  proof (cases r)
    case None
    then show ?thesis using assms t by simp
  next
    case (Some x)
    obtain fd f where r: "r = Some (fd, f)" using Some by (cases x) auto
    then obtain p where p: "myproc s = Some p" "snd (fdtab s) p (unat fd) = Some f" using t by blast
    let ?u = "clear_fd p (unat fd) s"
    have "refs_ok ((\<lambda>_. 0)(f := 0 + 1)) (fdtab ?u)"
      using clear_refs(1) [of "\<lambda>_. 0"] assms p(2) by (simp add: refs_inv_def)
    from fileclose_keeps [OF this, of f] have "ends refs_inv (\<lambda>_. refs_inv) (fileclose f ?u)"
      by (simp add: keeps_ends refs_inv_eta)
    then show ?thesis using r t p by (auto intro: ends_bind)
  qed
qed

lemma no_swtch_fileclose:
  assumes "f_type (files s f) = FD_PIPE \<or> f_type (files s f) = FD_NONE"
  shows "no_swtch (fileclose f s)"
proof -
  have "no_swtch (res_bind (lock_acquire FtableLock s) (\<lambda>_ u. if f_ref (files u f) < 1 then Panic ''fileclose''
     else res_bind (lock_release FtableLock (closed f u)) (\<lambda>_ t.
       if 1 < f_ref (files u f) then Ret () t
       else case f_type (files u f) of
         FD_PIPE \<Rightarrow> pipeclose (f_pipe (files u f)) (f_writable (files u f)) t
       | FD_NONE \<Rightarrow> Ret () t
       | _ \<Rightarrow> res_bind (begin_op t) (\<lambda>_ t. (case f_ip (files u f) of None \<Rightarrow> Fault
                | Some ip \<Rightarrow> res_bind (iput ip t) (\<lambda>_ t. end_op t))))))"
  proof (cases "lock_acquire FtableLock s")
    case (Ret a u)
    then have e: "files u = files s" by (auto simp: lock_acquire_def split: if_splits)
    have "no_swtch (res_bind (lock_release FtableLock (closed f u)) (\<lambda>_ t.
       if 1 < f_ref (files s f) then Ret () t
       else case f_type (files s f) of
         FD_PIPE \<Rightarrow> pipeclose (f_pipe (files s f)) (f_writable (files s f)) t
       | FD_NONE \<Rightarrow> Ret () t
       | _ \<Rightarrow> res_bind (begin_op t) (\<lambda>_ t. (case f_ip (files s f) of None \<Rightarrow> Fault
                | Some ip \<Rightarrow> res_bind (iput ip t) (\<lambda>_ t. end_op t)))))"
      using assms by (intro no_swtch_bind no_swtch_lock) (auto intro: no_swtch_pipeclose)
    then show ?thesis unfolding Ret res_bind.simps e by simp
  qed (use no_swtch_lock(1) [of FtableLock s] in \<open>simp_all add: no_swtch_def\<close>)
  then show ?thesis by (simp add: fileclose_cases)
qed

lemma open_file_ref [simp]: "f_ref (open_file ip om s q) = f_ref q"
  by (simp add: open_file_def Let_def)

text \<open>The end of \<^verbatim>\<open>sys_open\<close>, once the file and the descriptor are there.\<close>

lemma sys_open_finish:
  assumes "refs_inv t" "snd (fdtab t) p fd = Some f"
  shows "keeps refs_inv (let s = upd_file f (open_file ip omode t) t in
     res_bind (if omode AND O_TRUNC \<noteq> 0 \<and> i_type (inodes s ip) = T_FILE then itrunc ip s else Ret () s) (\<lambda>_ s.
     res_bind (iunlock (Some ip) s) (\<lambda>_ s.
     res_bind (end_op s) (\<lambda>_ s. Ret (of_nat fd :: uint64) s))))"
proof -
  let ?u = "upd_file f (open_file ip omode t) t"
  let ?ty = "f_type (open_file ip omode t (files t f))"
  have r: "1 \<le> f_ref (files t f)"
    using refs_open [of "\<lambda>_. 0" "fst (fdtab t)" "snd (fdtab t)" p fd f] assms fst_fdtab [of t f] by (simp add: refs_inv_def)
  have "fdtab ?u = ((fst (fdtab t))(f := (fst (fst (fdtab t) f) + 0, ?ty)), snd (fdtab t))"
    using fst_fdtab [of t f] by (subst fdtab_count) auto
  moreover have "refs_ok ((\<lambda>_. 0)(f := 0 + 0)) ((fst (fdtab t))(f := (fst (fst (fdtab t) f) + 0, ?ty)), snd (fdtab t))"
    using assms(1) r fst_fdtab [of t f] by (intro refs_count) (simp_all add: refs_inv_def)
  ultimately have u: "refs_inv ?u" by (simp add: refs_inv_def)
  show ?thesis
    by (rule keeps_refs [OF u]) (unfold Let_def, (intro keep_rules; simp)+)
qed

lemma filealloc_refs:
  assumes "refs_ok d (fdtab s)" "fst (fst (fdtab s) f) = 0" "fdtab t = ((fst (fdtab s))(f := (1, ty)), snd (fdtab s))"
  shows "refs_ok (d(f := d f + 1)) (fdtab t)"
  using refs_count [of d "fst (fdtab s)" "snd (fdtab s)" f 1 ty] assms by simp

lemma sys_open_refs:
  assumes "refs_inv s"
  shows "keeps refs_inv (sys_open vm s)"
proof -
  have fl: "keeps refs_inv (res_bind (filealloc t) (\<lambda>f s. case f of None \<Rightarrow> res_bind (iunlockput ip s) (\<lambda>_ s. fail_op s)
           | Some f \<Rightarrow>
             res_bind (fdalloc f s) (\<lambda>fd s. case fd of
               None \<Rightarrow> res_bind (fileclose f s) (\<lambda>_ s. res_bind (iunlockput ip s) (\<lambda>_ s. fail_op s))
             | Some fd \<Rightarrow>
                 let s = upd_file f (open_file ip omode s) s in
                 res_bind (if omode AND O_TRUNC \<noteq> 0 \<and> i_type (inodes s ip) = T_FILE then itrunc ip s else Ret () s) (\<lambda>_ s.
                 res_bind (iunlock (Some ip) s) (\<lambda>_ s.
                 res_bind (end_op s) (\<lambda>_ s. Ret (of_nat fd) s))))))"
    if t: "refs_inv t" for t :: "'a flstate_scheme" and ip omode
    unfolding keeps_ends
  proof (rule ends_bind [OF filealloc_ends], goal_cases)
    case (1 r u)
    have fail: "keeps refs_inv (res_bind (iunlockput ip w) (\<lambda>_ s. fail_op s))" if "refs_inv w" for w :: "'a flstate_scheme"
      by (rule keeps_refs [OF that]) (intro keep_rules; simp)
    show ?case
    proof (cases r)
      case None
      then have "refs_inv u" using 1 by (intro refs_inv_cong [OF t]) simp
      then show ?thesis using None fail [of u] by (simp add: keeps_ends)
    next
      case (Some f)
      then have f: "f < NFILE" and d: "refs_ok ((\<lambda>_. 0)(f := 0 + 1)) (fdtab u)"
        using 1 t filealloc_refs [of "\<lambda>_. 0" t f u] by (auto simp: refs_inv_def)
      have "ends refs_inv (\<lambda>_. refs_inv) (res_bind (fdalloc f u) (\<lambda>fd s. case fd of
               None \<Rightarrow> res_bind (fileclose f s) (\<lambda>_ s. res_bind (iunlockput ip s) (\<lambda>_ s. fail_op s))
             | Some fd \<Rightarrow>
                 let s = upd_file f (open_file ip omode s) s in
                 res_bind (if omode AND O_TRUNC \<noteq> 0 \<and> i_type (inodes s ip) = T_FILE then itrunc ip s else Ret () s) (\<lambda>_ s.
                 res_bind (iunlock (Some ip) s) (\<lambda>_ s.
                 res_bind (end_op s) (\<lambda>_ s. Ret (of_nat fd) s)))))"
      proof (rule ends_bind [OF fdalloc_ends [OF d f]], goal_cases)
        case (1 fd w)
        show ?case
        proof (cases fd)
          case None
          then have "keeps refs_inv (fileclose f w)"
            using 1 fileclose_keeps [OF d, of f] by (simp add: refs_inv_eta)
          then show ?thesis using None fail by (auto simp: keeps_ends intro: ends_bind)
        next
          case (Some i)
          then have w: "refs_inv w" "\<exists>p. snd (fdtab w) p i = Some f" using 1 by (auto simp: refs_inv_def)
          then show ?thesis using sys_open_finish [OF w(1)] Some by (auto simp: keeps_ends)
        qed
      qed
      then show ?thesis using Some by simp
    qed
  qed
  show ?thesis
    unfolding sys_open_def
    by (intro keeps_bindv keeps_optionv keeps_if keeps_leaf refs_rules fl; (rule assms)?)
qed

section \<open>Pipes\<close>

lemma ends_myproc: "ends I Q m \<Longrightarrow> keeps (\<lambda>t. myproc t = c) m \<Longrightarrow> ends I (\<lambda>a t. Q a t \<and> myproc t = c) m"
  by (cases m) simp_all

lemma myproc_upd_file [simp]: "myproc (upd_file f g s) = myproc s"
  by (simp add: upd_file_def myproc_def cpuid_def)

lemma mpk_files [keep_rules]:
  "myproc s = c \<Longrightarrow> keeps (\<lambda>t. myproc t = c) (filealloc s)"
  "myproc s = c \<Longrightarrow> keeps (\<lambda>t. myproc t = c) (fileclose f s)"
  unfolding filealloc_def fileclose_def by (intro keep_rules; simp)+

lemma mpk_pipealloc [keep_rules]: "myproc s = c \<Longrightarrow> keeps (\<lambda>t. myproc t = c) (pipealloc s)"
  unfolding pipealloc_def pipealloc_bad_def by (intro keep_rules; simp)

lemma fileclose_ends:
  assumes "refs_ok d (fdtab s)" "snd (fst (fdtab s) f) \<in> {FD_PIPE, FD_NONE}"
  shows "ends I (\<lambda>_ t. refs_ok (d(f := d f - 1)) (fdtab t)) (fileclose f s)"
  using assms(2) by (intro ends_keeps fileclose_keeps [OF assms(1)] no_swtch_fileclose) (auto simp: fst_fdtab)

text \<open>Two files that a routine holds in local variables.\<close>

abbreviation two :: "nat \<Rightarrow> nat \<Rightarrow> nat \<Rightarrow> int" where
  "two a b \<equiv> (\<lambda>_. 0)(a := 1, b := 1)"

lemma close_two:
  assumes "refs_ok (two a b) (fdtab s)" "a \<noteq> b" "snd (fst (fdtab s) a) \<in> {FD_PIPE, FD_NONE}"
  shows "keeps refs_inv (res_bind (fileclose a s) (\<lambda>_ s. res_bind (fileclose b s) (\<lambda>_ s. Ret x s)))"
  unfolding keeps_ends
proof (rule ends_bind [OF fileclose_ends [OF assms(1,3)]])
  fix y :: unit and t :: "'a flstate_scheme"
  assume "refs_ok ((two a b)(a := two a b a - 1)) (fdtab t)"
  then have "refs_ok ((\<lambda>_. 0)(b := 1)) (fdtab t)" using assms(2) by (simp add: fun_upd_twist)
  from fileclose_keeps [OF this, of b] have "ends refs_inv (\<lambda>_. refs_inv) (fileclose b t)"
    by (simp add: keeps_ends refs_inv_eta)
  then show "ends refs_inv (\<lambda>_. refs_inv) (res_bind (fileclose b t) (\<lambda>_ s. Ret x s))"
    by (auto intro: ends_bind)
qed

lemma no_swtch_kalloc: "no_swtch (kalloc s)"
  by (auto simp: no_swtch_def kalloc_def lock_acquire_def lock_release_def Let_def)

lemma refs_retype:
  assumes "refs_ok d (fdtab s)" "1 \<le> d f" "\<And>q. f_ref (g q) = f_ref q"
  shows "refs_ok d (fdtab (upd_file f g s))"
proof -
  let ?ty = "f_type (g (files s f))"
  have "fdtab (upd_file f g s) = ((fst (fdtab s))(f := (fst (fst (fdtab s) f) + 0, ?ty)), snd (fdtab s))"
    using assms(3) fst_fdtab [of s f] by (subst fdtab_count) auto
  moreover have "fst (fst (fdtab s) f) \<noteq> 0" using assms(1,2) by (simp add: refs_ok_def)
  ultimately show ?thesis
    using refs_count [of d "fst (fdtab s)" "snd (fdtab s)" f 0 ?ty] assms(1) by (simp add: fun_upd_idem)
qed

lemma pipealloc_setup:
  assumes "refs_ok (two a b) (fdtab u)" "fst (fdtab u) a = (1, FD_NONE)" "a \<noteq> b" "a < NFILE" "b < NFILE"
  shows "ends refs_inv (\<lambda>r t. case r of None \<Rightarrow> refs_inv t | Some (a, b) \<Rightarrow> a \<noteq> b \<and> a < NFILE \<and> b < NFILE
     \<and> refs_ok (two a b) (fdtab t) \<and> snd (fst (fdtab t) a) = FD_PIPE)
     (res_bind (kalloc u) (\<lambda>pi s. if pi = 0 then pipealloc_bad (Some a) (Some b) s
          else let s = upd_pipe pi (\<lambda>p. p\<lparr>p_readopen := True, p_writeopen := True, p_nwrite := 0, p_nread := 0\<rparr>) s;
                   s = upd_file a (\<lambda>q. q\<lparr>f_type := FD_PIPE, f_readable := True, f_writable := False, f_pipe := pi\<rparr>) s;
                   s = upd_file b (\<lambda>q. q\<lparr>f_type := FD_PIPE, f_readable := False, f_writable := True, f_pipe := pi\<rparr>) s
               in Ret (Some (a, b)) s))"
  (is "ends _ ?Q _")
proof (rule ends_bind [OF ends_keeps [OF fdv.vk_kalloc(1) [OF refl] no_swtch_kalloc]], goal_cases)
  case (1 pi t)
  show ?case
  proof (cases "pi = 0")
    case True
    have "keeps refs_inv (pipealloc_bad (Some a) (Some b) t)"
      using close_two [of a b t None] assms 1 by (simp add: pipealloc_bad_def)
    moreover have "\<And>x w. pipealloc_bad (Some a) (Some b) t = Ret x w \<Longrightarrow> x = None"
      by (auto simp: pipealloc_bad_def res_bind_eq_Ret_iff)
    ultimately show ?thesis using True by (cases "pipealloc_bad (Some a) (Some b) t") auto
  next
    case False
    let ?t0 = "upd_pipe pi (\<lambda>p. p\<lparr>p_readopen := True, p_writeopen := True, p_nwrite := 0, p_nread := 0\<rparr>) t"
    let ?g = "\<lambda>q. q\<lparr>f_type := FD_PIPE, f_readable := True, f_writable := False, f_pipe := pi\<rparr>"
    let ?h = "\<lambda>q. q\<lparr>f_type := FD_PIPE, f_readable := False, f_writable := True, f_pipe := pi\<rparr>"
    have "refs_ok (two a b) (fdtab ?t0)" using assms(1) 1 by simp
    then have "refs_ok (two a b) (fdtab (upd_file a ?g ?t0))" by (rule refs_retype) (use assms(3) in simp_all)
    then have "refs_ok (two a b) (fdtab (upd_file b ?h (upd_file a ?g ?t0)))" by (rule refs_retype) simp_all
    moreover have "snd (fst (fdtab (upd_file b ?h (upd_file a ?g ?t0))) a) = FD_PIPE"
      using assms(3) by (simp add: fst_fdtab upd_file_def)
    ultimately show ?thesis using False assms(3-5) by (simp add: Let_def)
  qed
qed

lemma pipealloc_ends:
  assumes "refs_inv s"
  shows "ends refs_inv (\<lambda>r t. case r of None \<Rightarrow> refs_inv t | Some (a, b) \<Rightarrow> a \<noteq> b \<and> a < NFILE \<and> b < NFILE
     \<and> refs_ok (two a b) (fdtab t) \<and> snd (fst (fdtab t) a) = FD_PIPE) (pipealloc s)"
  (is "ends _ ?Q _")
  unfolding pipealloc_def
proof (rule ends_bind [OF filealloc_ends], goal_cases)
  case (1 f0 t)
  have inv: "ends refs_inv ?Q m" if "keeps refs_inv m" "\<And>a t. m = Ret a t \<Longrightarrow> a = None" for m
    using that by (cases m) auto
  show ?case
  proof (cases f0)
    case None
    then show ?thesis using 1 assms refs_inv_cong [of s t] by (simp add: pipealloc_bad_def)
  next
    case (Some a)
    then have t: "refs_ok ((\<lambda>_. 0)(a := 0 + 1)) (fdtab t)" "a < NFILE" "fst (fdtab t) a = (1, FD_NONE)"
      using 1 assms filealloc_refs [of "\<lambda>_. 0" s a t] refs_free_type [of "\<lambda>_. 0" "fdtab s" a] fst_fdtab [of s a] by (auto simp: refs_inv_def)
    have "ends refs_inv ?Q (res_bind (filealloc t) (\<lambda>f1 s. case f1 of None \<Rightarrow> pipealloc_bad f0 None s
       | Some b \<Rightarrow> res_bind (kalloc s) (\<lambda>pi s. if pi = 0 then pipealloc_bad f0 f1 s
          else let s = upd_pipe pi (\<lambda>p. p\<lparr>p_readopen := True, p_writeopen := True, p_nwrite := 0, p_nread := 0\<rparr>) s;
                   s = upd_file a (\<lambda>q. q\<lparr>f_type := FD_PIPE, f_readable := True, f_writable := False, f_pipe := pi\<rparr>) s;
                   s = upd_file b (\<lambda>q. q\<lparr>f_type := FD_PIPE, f_readable := False, f_writable := True, f_pipe := pi\<rparr>) s
               in Ret (Some (a, b)) s)))"
    proof (rule ends_bind [OF filealloc_ends], goal_cases)
      case (1 f1 u)
      show ?case
      proof (cases f1)
        case None
        then have "keeps refs_inv (fileclose a u)" using 1 t fileclose_keeps [of "(\<lambda>_. 0)(a := 0 + 1)" u a] by (simp add: refs_inv_eta)
        then show ?thesis using None Some by (intro inv) (auto simp: pipealloc_bad_def keeps_ends res_bind_eq_Ret_iff intro: ends_bind)
      next
        case (Some b)
        then have b: "a \<noteq> b" "b < NFILE" using 1 t by auto
        then have u: "refs_ok (two a b) (fdtab u)" "fst (fdtab u) a = (1, FD_NONE)"
          using Some 1 t filealloc_refs [OF t(1), of b u] by simp_all
        show ?thesis using pipealloc_setup [OF u b(1) t(2) b(2)] unfolding Some \<open>f0 = Some a\<close> by simp
      qed
    qed
    then show ?thesis using Some by simp
  qed
qed

lemma sys_pipe_fail_refs:
  assumes "refs_ok (two a b) (fdtab (fold (clear_fd p) fds s))" "a \<noteq> b" "snd (fst (fdtab (fold (clear_fd p) fds s)) a) = FD_PIPE"
  shows "keeps refs_inv (sys_pipe_fail p fds a b s)"
  unfolding sys_pipe_fail_def by (rule close_two) (use assms in auto)

text \<open>\<^verbatim>\<open>sys_pipe\<close> once both descriptors are there.\<close>

lemma sys_pipe_copy:
  assumes "refs_inv s" "snd (fdtab s) p fd0 = Some a" "snd (fdtab s) p fd1 = Some b" "a \<noteq> b" "fd0 \<noteq> fd1"
    "snd (fst (fdtab s) a) = FD_PIPE"
  shows "keeps refs_inv (res_bind (vm_run c0 s) (\<lambda>r s. if sint (r :: cint) < 0 then sys_pipe_fail p [fd0, fd1] a b s
     else res_bind (vm_run (c1 s) s) (\<lambda>r s. if sint (r :: cint) < 0 then sys_pipe_fail p [fd0, fd1] a b s else Ret 0 s)))"
proof -
  have fail: "keeps refs_inv (sys_pipe_fail p [fd0, fd1] a b t)" if t: "fdtab t = fdtab s" for t
  proof (rule sys_pipe_fail_refs)
    have 0: "refs_ok ((\<lambda>_. 0)(a := 0 + 1)) (fdtab (clear_fd p fd0 t))"
      "fdtab (clear_fd p fd0 t) = (fst (fdtab s), (snd (fdtab s))(p := (snd (fdtab s) p)(fd0 := None)))"
      using clear_refs [of "\<lambda>_. 0" t p fd0 a] assms t by (simp_all add: refs_inv_def)
    then have 1: "snd (fdtab (clear_fd p fd0 t)) p fd1 = Some b" using assms by simp
    from clear_refs [OF 0(1) this] show "refs_ok (two a b) (fdtab (fold (clear_fd p) [fd0, fd1] t))"
      using assms(4) by simp
    show "snd (fst (fdtab (fold (clear_fd p) [fd0, fd1] t)) a) = FD_PIPE"
      using clear_refs(2) [OF 0(1) 1] 0(2) assms(6) by simp
  qed (rule assms(4))
  have k: "ends refs_inv (\<lambda>_ t. fdtab t = fdtab s) (vm_run c t)" if "fdtab t = fdtab s" for t :: "'a flstate_scheme" and c :: "kmem \<Rightarrow> (cint, kmem) res"
    using fdv.vk_vm_run [OF that, of c] assms(1) by (cases "vm_run c t") (auto simp: refs_inv_def)
  show ?thesis
    unfolding keeps_ends
    by (rule ends_bind [OF k [OF refl]], simp add: fail [unfolded keeps_ends], intro impI, erule ends_bind [OF k])
      (use assms(1) in \<open>simp add: fail [unfolded keeps_ends] refs_inv_def\<close>)
qed

lemma sys_pipe_alloc:
  fixes s :: "'z flstate_scheme"
  assumes "refs_ok (two a b) (fdtab s)" "a \<noteq> b" "a < NFILE" "b < NFILE" "snd (fst (fdtab s) a) = FD_PIPE" "myproc s = Some p"
  shows "keeps refs_inv (res_bind (fdalloc a s) (\<lambda>r s. case r of None \<Rightarrow> sys_pipe_fail p [] a b s
       | Some fd0 \<Rightarrow>
         res_bind (fdalloc b s) (\<lambda>r s. case r of None \<Rightarrow> sys_pipe_fail p [fd0] a b s
         | Some fd1 \<Rightarrow>
           res_bind (vm_run (vm_copyout vm (pagetable (procs s p)) fdarray (le_bytes 4 (of_nat fd0 :: cint))) s) (\<lambda>r s.
           if sint r < 0 then sys_pipe_fail p [fd0, fd1] a b s
           else
             res_bind (vm_run (vm_copyout vm (pagetable (procs s p)) (fdarray + 4) (le_bytes 4 (of_nat fd1 :: cint))) s) (\<lambda>r s.
             if sint r < 0 then sys_pipe_fail p [fd0, fd1] a b s else Ret 0 s)))))"
  unfolding keeps_ends
proof (rule ends_bind [OF fdalloc_ends [OF assms(1,3)]], goal_cases)
  case (1 r0 t)
  show ?case
  proof (cases r0)
    case None
    then show ?thesis
      using 1 sys_pipe_fail_refs [of a b p "[]" t] assms by (simp add: keeps_ends)
  next
    case (Some fd0)
    then have t: "refs_ok ((\<lambda>_. 0)(b := 1)) (fdtab t)" "files t = files s" "myproc t = Some p"
        "snd (fdtab t) = (snd (fdtab s))(p := (snd (fdtab s) p)(fd0 := Some a))"
      using 1 assms(2,6) by (auto simp: fun_upd_twist)
    then have ta: "snd (fst (fdtab t) a) = FD_PIPE" "snd (fdtab t) p fd0 = Some a" using assms(5) by (simp_all add: fst_fdtab)
    have "ends refs_inv (\<lambda>_. refs_inv) (res_bind (fdalloc b t) (\<lambda>r s. case r of None \<Rightarrow> sys_pipe_fail p [fd0] a b s
         | Some fd1 \<Rightarrow>
           res_bind (vm_run (vm_copyout vm (pagetable (procs s p)) fdarray (le_bytes 4 (of_nat fd0 :: cint))) s) (\<lambda>r s.
           if sint r < 0 then sys_pipe_fail p [fd0, fd1] a b s
           else
             res_bind (vm_run (vm_copyout vm (pagetable (procs s p)) (fdarray + 4) (le_bytes 4 (of_nat fd1 :: cint))) s) (\<lambda>r s.
             if sint r < 0 then sys_pipe_fail p [fd0, fd1] a b s else Ret 0 s))))"
    proof (rule ends_bind [OF fdalloc_ends [OF t(1) assms(4)]], goal_cases)
      case (1 r1 u)
      show ?case
      proof (cases r1)
        case None
        then have "u = t" using 1 by simp
        moreover have "refs_ok (two a b) (fdtab (clear_fd p fd0 t))" "snd (fst (fdtab (clear_fd p fd0 t)) a) = FD_PIPE"
          using clear_refs [OF t(1) ta(2)] ta(1) assms(2) by (simp_all add: fun_upd_twist)
        ultimately show ?thesis using None sys_pipe_fail_refs [of a b p "[fd0]" t] assms(2) by (simp add: keeps_ends)
      next
        case (Some fd1)
        then have u: "refs_inv u" "files u = files t" "snd (fdtab t) p fd1 = None"
            "snd (fdtab u) = (snd (fdtab t))(p := (snd (fdtab t) p)(fd1 := Some b))"
          using 1 t(3) by (auto simp: refs_inv_def)
        have "fd0 \<noteq> fd1" using u(3) ta(2) by auto
        moreover have "snd (fdtab u) p fd0 = Some a" "snd (fdtab u) p fd1 = Some b" "snd (fst (fdtab u) a) = FD_PIPE"
          using u ta t(2) calculation by (simp_all add: fst_fdtab)
        ultimately show ?thesis
          using Some sys_pipe_copy [OF u(1), of p fd0 a fd1 b] assms(2) by (simp add: keeps_ends)
      qed
    qed
    then show ?thesis using Some by simp
  qed
qed

lemma sys_pipe_refs:
  fixes s :: "'z flstate_scheme"
  assumes "refs_inv s"
  shows "keeps refs_inv (sys_pipe vm s)"
proof (cases "myproc s")
  case (Some p)
  have arg: "keeps (\<lambda>t. t = s) (argaddr 0 s)" by (simp add: argaddr_def argraw_def Some)
  have "ends refs_inv (\<lambda>_. refs_inv) (res_bind (pipealloc s) (\<lambda>r s. case r of None \<Rightarrow> Ret (-1) s
     | Some (rfile, wfile) \<Rightarrow>
       res_bind (fdalloc rfile s) (\<lambda>r s. case r of None \<Rightarrow> sys_pipe_fail p [] rfile wfile s
       | Some fd0 \<Rightarrow>
         res_bind (fdalloc wfile s) (\<lambda>r s. case r of None \<Rightarrow> sys_pipe_fail p [fd0] rfile wfile s
         | Some fd1 \<Rightarrow>
           res_bind (vm_run (vm_copyout vm (pagetable (procs s p)) fdarray (le_bytes 4 (of_nat fd0 :: cint))) s) (\<lambda>r s.
           if sint r < 0 then sys_pipe_fail p [fd0, fd1] rfile wfile s
           else
             res_bind (vm_run (vm_copyout vm (pagetable (procs s p)) (fdarray + 4) (le_bytes 4 (of_nat fd1 :: cint))) s) (\<lambda>r s.
             if sint r < 0 then sys_pipe_fail p [fd0, fd1] rfile wfile s else Ret 0 s))))))" for fdarray
    by (rule ends_bind [OF ends_myproc [OF pipealloc_ends [OF assms] mpk_pipealloc [OF Some]]])
      (auto split: option.splits simp: sys_pipe_alloc [unfolded keeps_ends] refs_inv_def)
  then show ?thesis
    using arg assms by (cases "argaddr 0 s") (simp_all add: sys_pipe_def Some keeps_ends)
qed (simp add: sys_pipe_def with_proc_def)

section \<open>Every system call\<close>

text \<open>
  C4. Reference counts of open files are exact: if every file's count is the number of descriptors of
  all processes that name it, then every system call but \<^verbatim>\<open>fork\<close> and \<^verbatim>\<open>exit\<close> hands on a state, to its
  caller or to the scheduler, in which this is so again, also when it fails; and there every
  descriptor names an entry of the file table that is in use. The calls of the virtual memory layer
  may return anything.
\<close>

theorem syscalls_file_refs:
  fixes s :: "'z flstate_scheme"
  assumes "refs_inv s" "syscalls vm ks junk num = Some f" "num \<noteq> 1" "num \<noteq> 2"
  shows "keeps (\<lambda>t. refs_inv t \<and> (\<forall>p fd g. ofile (procs t p) fd = Some g \<longrightarrow> fd < NOFILE \<and> g < NFILE \<and> 1 \<le> f_ref (files t g))) (f s)"
proof -
  have "keeps refs_inv (f s)"
    using assms sys_dup_refs [OF assms(1)] sys_close_refs [OF assms(1)] sys_open_refs [OF assms(1), of vm] sys_pipe_refs [OF assms(1), of vm]
    unfolding syscalls_def
    by (auto split: if_splits intro!: keeps_refs [OF assms(1)] fdk_sysproc fdk_sys_sleep fdk_sys_file fdk_create fdk_mkdir fdk_sys_exec)
  moreover have "fd < NOFILE \<and> g < NFILE \<and> 1 \<le> f_ref (files t g)" if "refs_inv t" "ofile (procs t p) fd = Some g" for t :: "'z flstate_scheme" and p fd g
    using that refs_open [of "\<lambda>_. 0" "fst (fdtab t)" "snd (fdtab t)" p fd g] fst_fdtab [of t g]
    by (auto simp: refs_inv_def refs_ok_def fdtab_def)
  ultimately show ?thesis by (cases "f s") simp_all
qed

text \<open>Entry 0 of the process table has descriptor 0 open on file 3; \<^verbatim>\<open>dup(0)\<close> keeps the counts exact.\<close>

definition one_file :: flstate where
  "one_file = upd_proc 0 (\<lambda>q. q\<lparr>ofile := (\<lambda>_. None)(0 := Some 3)\<rparr>) (upd_file 3 (\<lambda>f. f\<lparr>f_ref := 1, f_type := FD_INODE\<rparr>) blank_flstate)"

lemma one_file_refs: "refs_inv one_file"
proof -
  have o: "ofile (procs one_file p) fd = (if p = 0 \<and> fd = 0 then Some 3 else None)" for p fd
    by (simp add: one_file_def upd_proc_def upd_file_def blank_flstate_simps blank_proc_def)
  have f: "files one_file = (\<lambda>_. blank_file)(3 := blank_file\<lparr>f_ref := 1, f_type := FD_INODE\<rparr>)"
    by (simp add: one_file_def upd_proc_def upd_file_def blank_flstate_simps)
  have "fd_refs (snd (fdtab one_file)) g = (if g = 3 then {(0, 0)} else {})" for g
    by (auto simp: fd_refs_def fdtab_def o split: if_splits)
  moreover have "{(p, fd). snd (fdtab one_file) p fd \<noteq> None} = {(0, 0)}" by (auto simp: fdtab_def o split: if_splits)
  ultimately show ?thesis
    by (auto simp: refs_inv_def refs_ok_def fdtab_def o f blank_file_def NOFILE_def NFILE_def split: if_splits)
qed

theorem syscalls_file_refs_witness: "refs_inv one_file \<and> keeps refs_inv (sys_dup one_file)"
  using syscalls_file_refs [OF one_file_refs, of _ _ _ 10 sys_dup] one_file_refs
  by (cases "sys_dup one_file") (simp_all add: syscalls_def)

end
