(* ===== verification/Paths.thy ===== *)
theory Paths
  imports Fs
begin

text \<open>
  The loops of \<^verbatim>\<open>kernel/fs.c\<close> against recursions on lists: \<^verbatim>\<open>namex\<close> visits the components of a path,
  \<^verbatim>\<open>readi\<close> and \<^verbatim>\<open>writei\<close> visit the blocks of a range of the file. The rounds that the model allows
  for these loops are therefore enough.
\<close>

section \<open>Path names\<close>

fun split_on :: "'a \<Rightarrow> 'a list \<Rightarrow> 'a list list" where
  "split_on c [] = [[]]"
| "split_on c (x # xs) = (if x = c then [] # split_on c xs else (x # hd (split_on c xs)) # tl (split_on c xs))"

definition components :: "uchar list \<Rightarrow> uchar list list" where
  "components path = filter (\<lambda>e. e \<noteq> []) (split_on slash path)"

text \<open>The contents of the array \<^verbatim>\<open>name\<close> once the component \<open>e\<close> is stored there.\<close>

definition set_name :: "uchar list \<Rightarrow> uchar list \<Rightarrow> uchar list" where
  "set_name e name = (if DIRSIZ \<le> length e then take DIRSIZ e @ drop DIRSIZ name else e @ [0] @ drop (length e + 1) name)"

lemma split_on_takeWhile:
  "split_on c xs = takeWhile (\<lambda>x. x \<noteq> c) xs #
     (case dropWhile (\<lambda>x. x \<noteq> c) xs of [] \<Rightarrow> [] | _ # ys \<Rightarrow> split_on c ys)"
  by (induction xs) auto

lemma components_slash: "components (dropWhile (\<lambda>c. c = slash) path) = components path"
  by (induction path) (simp_all add: components_def)

lemma components_Nil: "components path = [] \<longleftrightarrow> dropWhile (\<lambda>c. c = slash) path = []"
  by (induction path) (simp_all add: components_def)

lemma components_elem:
  assumes "p \<noteq> []" "hd p \<noteq> slash"
  shows "components p = takeWhile (\<lambda>c. c \<noteq> slash) p # components (dropWhile (\<lambda>c. c \<noteq> slash) p)"
proof -
  have "takeWhile (\<lambda>c. c \<noteq> slash) p \<noteq> []" using assms by (cases p) auto
  moreover have "components q = filter (\<lambda>e. e \<noteq> []) (case q of [] \<Rightarrow> [] | _ # ys \<Rightarrow> split_on slash ys)" if "q = [] \<or> hd q = slash" for q
    using that by (cases q) (auto simp: components_def)
  moreover have "dropWhile (\<lambda>c. c \<noteq> slash) p = [] \<or> hd (dropWhile (\<lambda>c. c \<noteq> slash) p) = slash"
    using hd_dropWhile [of "\<lambda>c. c \<noteq> slash" p] by blast
  ultimately show ?thesis unfolding components_def by (subst split_on_takeWhile) simp
qed

lemma skipelem_set_name:
  "skipelem path name = (let p = dropWhile (\<lambda>c. c = slash) path in
     if p = [] then None
     else Some (dropWhile (\<lambda>c. c = slash) (dropWhile (\<lambda>c. c \<noteq> slash) p), set_name (takeWhile (\<lambda>c. c \<noteq> slash) p) name))"
  by (simp add: skipelem_def set_name_def Let_def)

lemma skipelem_components:
  "skipelem path name = None \<longleftrightarrow> components path = []"
  "skipelem path name = Some (rest, nm) \<Longrightarrow>
     \<exists>e es. components path = e # es \<and> components rest = es \<and> nm = set_name e name \<and> (rest = [] \<longleftrightarrow> es = []) \<and> length rest < length path"
proof -
  show "skipelem path name = None \<longleftrightarrow> components path = []" unfolding skipelem_set_name Let_def components_Nil by simp
next
  assume a: "skipelem path name = Some (rest, nm)"
  let ?p = "dropWhile (\<lambda>c. c = slash) path"
  have p: "?p \<noteq> []" "hd ?p \<noteq> slash" using a hd_dropWhile [of "\<lambda>c. c = slash" path] unfolding skipelem_set_name Let_def by (auto split: if_splits)
  have r: "rest = dropWhile (\<lambda>c. c = slash) (dropWhile (\<lambda>c. c \<noteq> slash) ?p)" "nm = set_name (takeWhile (\<lambda>c. c \<noteq> slash) ?p) name"
    using a p(1) unfolding skipelem_set_name Let_def by (simp_all split: if_splits)
  have "length rest < length ?p"
    using p unfolding r by (cases ?p) (auto intro!: le_less_trans [OF length_dropWhile_le] length_dropWhile_le simp: le_imp_less_Suc length_dropWhile_le)
  then have "length rest < length path" using length_dropWhile_le [of "\<lambda>c. c = slash" path] by simp
  moreover have "components path = takeWhile (\<lambda>c. c \<noteq> slash) ?p # components (dropWhile (\<lambda>c. c \<noteq> slash) ?p)"
    using components_elem [OF p] by (simp add: components_slash)
  moreover have "components rest = components (dropWhile (\<lambda>c. c \<noteq> slash) ?p)" by (simp add: r components_slash)
  moreover have "rest = [] \<longleftrightarrow> components (dropWhile (\<lambda>c. c \<noteq> slash) ?p) = []" by (simp add: r components_Nil)
  ultimately show "\<exists>e es. components path = e # es \<and> components rest = es \<and> nm = set_name e name \<and> (rest = [] \<longleftrightarrow> es = []) \<and> length rest < length path"
    using r(2) by auto
qed

text \<open>The walk of \<^verbatim>\<open>namex\<close> over the components of a path.\<close>

fun walk :: "vm_ops \<Rightarrow> bool \<Rightarrow> uchar list list \<Rightarrow> nat \<Rightarrow> uchar list \<Rightarrow> 'z fsstate_scheme \<Rightarrow> (nat option \<times> uchar list, 'z fsstate_scheme) res" where
  "walk vm par [] ip name s = (if par then res_bind (iput ip s) (\<lambda>_ s. Ret (None, name) s) else Ret (Some ip, name) s)"
| "walk vm par (e # es) ip name s =
     (let name = set_name e name in
      res_bind (ilock (Some ip) s) (\<lambda>_ s.
        if i_type (inodes s ip) \<noteq> T_DIR then res_bind (iunlockput ip s) (\<lambda>_ s. Ret (None, name) s)
        else if par \<and> es = [] then res_bind (iunlock (Some ip) s) (\<lambda>_ s. Ret (Some ip, name) s)
        else res_bind (dirlookup vm ip name s) (\<lambda>r s.
          case r of
            None \<Rightarrow> res_bind (iunlockput ip s) (\<lambda>_ s. Ret (None, name) s)
          | Some (next, _) \<Rightarrow> res_bind (iunlockput ip s) (\<lambda>_ s. walk vm par es next name s))))"

lemma namex_loop_walk:
  fixes s :: "'z fsstate_scheme"
  shows "length path < k \<Longrightarrow> namex_loop k vm par ip path name s = walk vm par (components path) ip name s"
proof (induction k arbitrary: ip path name s)
  case (Suc k)
  show ?case
  proof (cases "skipelem path name")
    case None
    then show ?thesis using skipelem_components(1) [of path name] by simp
  next
    case (Some a)
    obtain rest nm where a: "a = (rest, nm)" by (cases a)
    obtain e es where e: "components path = e # es" "components rest = es" "nm = set_name e name" "rest = [] \<longleftrightarrow> es = []" "length rest < length path"
      using skipelem_components(2) [of path name rest nm] Some a by auto
    then have "namex_loop k vm par jp rest nm = (walk vm par es jp nm :: 'z fsstate_scheme \<Rightarrow> _)" for jp
      using Suc.IH [of rest] Suc.prems by (intro ext) simp
    then show ?thesis using Some a e by (simp add: Let_def cong: option.case_cong if_cong)
  qed
qed simp

text \<open>
  C22. \<^verbatim>\<open>namex\<close> splits a path at its slashes: it walks over the non-empty components in order, from the
  root directory or the current directory, with each component cut to 14 characters, and as
  \<^verbatim>\<open>nameiparent\<close> stops before the last one. It does one step for each component and so ends for every
  path, with any number of slashes at any place.
\<close>

theorem namex_walks:
  fixes s :: "'z fsstate_scheme"
  shows "namex vm path par name s =
     res_bind (if path \<noteq> [] \<and> hd path = slash then iget ROOTDEV ROOTINO s
               else with_proc (\<lambda>p s. case cwd (procs s p) of None \<Rightarrow> Fault | Some ip \<Rightarrow> idup ip s) s)
       (\<lambda>ip s. walk vm par (components path) ip name s)"
proof -
  have "namex_loop (length path + 1) vm par ip path name = (walk vm par (components path) ip name :: 'z fsstate_scheme \<Rightarrow> _)" for ip
    by (intro ext, rule namex_loop_walk) simp
  then show ?thesis by (simp only: namex_def)
qed

section \<open>Ranges of a file\<close>

text \<open>The pieces of the range of \<open>n\<close> bytes at \<open>off\<close>: number of the block, offset in it, and length.\<close>

definition pieces :: "nat \<Rightarrow> nat \<Rightarrow> (nat \<times> nat \<times> nat) list" where
  "pieces off n = (if n = 0 then [] else
     map (\<lambda>b. let lo = max off (b * BSIZE) in (b, lo - b * BSIZE, min (off + n) (Suc b * BSIZE) - lo))
       [off div BSIZE..<Suc ((off + n - 1) div BSIZE)])"

lemma pieces_Cons:
  fixes off n :: nat
  defines "m \<equiv> min n (BSIZE - off mod BSIZE)"
  assumes "0 < n"
  shows "pieces off n = (off div BSIZE, off mod BSIZE, m) # pieces (off + m) (n - m)"
proof -
  let ?b = "off div BSIZE" and ?e = "(off + n - 1) div BSIZE"
  have B: "0 < BSIZE" by (simp add: BSIZE_def)
  have o: "off = ?b * BSIZE + off mod BSIZE" "off mod BSIZE < BSIZE" using B by simp_all
  have be: "?b \<le> ?e" using assms(2) by (intro div_le_mono) simp
  have u: "[?b..<Suc ?e] = ?b # [Suc ?b..<Suc ?e]" using be by (simp add: upt_rec)
  have hd: "max off (?b * BSIZE) - ?b * BSIZE = off mod BSIZE" "min (off + n) (Suc ?b * BSIZE) - max off (?b * BSIZE) = m"
    unfolding m_def mult_Suc using div_mult_mod_eq [of off BSIZE] o(2) by linarith+
  have tl: "map (\<lambda>b. let lo = max off (b * BSIZE) in (b, lo - b * BSIZE, min (off + n) (Suc b * BSIZE) - lo)) [Suc ?b..<Suc ?e] = pieces (off + m) (n - m)"
  proof (cases "n \<le> BSIZE - off mod BSIZE")
    case True
    then have "off + n - 1 < Suc ?b * BSIZE" using div_mult_mod_eq [of off BSIZE] o(2) assms(2) unfolding mult_Suc by linarith
    then have "?e < Suc ?b" using B by (simp add: less_mult_imp_div_less)
    then show ?thesis using True by (simp add: m_def pieces_def)
  next
    case False
    then have m: "off + m = Suc ?b * BSIZE" "0 < n - m"
      unfolding m_def mult_Suc using div_mult_mod_eq [of off BSIZE] o(2) by linarith+
    then have "(off + m) div BSIZE = Suc ?b" "off + m + (n - m) = off + n" using B by simp_all
    moreover have "max (off + m) (b * BSIZE) = max off (b * BSIZE)" if "Suc ?b \<le> b" for b
      using m(1) mult_le_mono1 [OF that, of BSIZE] by simp
    ultimately show ?thesis using m(2) by (auto simp: pieces_def Let_def)
  qed
  have "n \<noteq> 0" using assms(2) by simp
  then show ?thesis by (subst pieces_def) (simp only: u if_False list.map tl, simp only: Let_def hd)
qed

lemma pieces_0: "pieces off 0 = []"
  by (simp add: pieces_def)

lemma pieces_induct:
  assumes "\<And>off. P off 0"
    and "\<And>off n m. 0 < n \<Longrightarrow> m = min n (BSIZE - off mod BSIZE) \<Longrightarrow> 0 < m \<Longrightarrow> off mod BSIZE + m \<le> BSIZE \<Longrightarrow> P (off + m) (n - m) \<Longrightarrow> P off n"
  shows "P off n"
proof (induction n arbitrary: off rule: less_induct)
  case (less n)
  have "off mod BSIZE < BSIZE" by (simp add: BSIZE_def)
  then show ?case using assms less by (cases "n = 0") auto
qed

lemma pieces_sum: "sum_list (map (\<lambda>(b, p, m). m) (pieces off n)) = n"
  by (induction off n rule: pieces_induct) (simp_all add: pieces_0 pieces_Cons)

lemma pieces_inside: "list_all (\<lambda>(b, p, m). 0 < m \<and> p + m \<le> BSIZE) (pieces off n)"
  by (induction off n rule: pieces_induct) (simp_all add: pieces_0 pieces_Cons)

lemma chunk_piece: "chunk n tot off = min (n - tot) (BSIZE - off mod BSIZE)"
  by (simp add: chunk_def)

fun read_pieces :: "vm_ops \<Rightarrow> nat \<Rightarrow> dest \<Rightarrow> (nat \<times> nat \<times> nat) list \<Rightarrow> nat \<Rightarrow> uchar list \<Rightarrow> 'z fsstate_scheme \<Rightarrow>
    (cint \<times> uchar list, 'z fsstate_scheme) res" where
  "read_pieces vm ip dst [] tot out s = Ret (of_nat tot, out) s"
| "read_pieces vm ip dst ((b, p, m) # ps) tot out s =
     res_bind (bmap ip b s) (\<lambda>addr s.
       if addr = 0 then Ret (of_nat tot, out) s
       else res_bind (bread (i_dev (inodes s ip)) addr s) (\<lambda>bp s.
         let bs = take m (drop p (b_data (bufs s bp))) in
         res_bind (either_copyout vm dst bs s) (\<lambda>r s.
           if r = minus_one then res_bind (brelse bp s) (\<lambda>_ s. Ret (minus_one, out) s)
           else res_bind (brelse bp s) (\<lambda>_ s. read_pieces vm ip (dest_add dst m) ps (tot + m) (out @ bs) s))))"

fun write_pieces :: "vm_ops \<Rightarrow> nat \<Rightarrow> source \<Rightarrow> (nat \<times> nat \<times> nat) list \<Rightarrow> nat \<Rightarrow> nat \<Rightarrow> 'z fsstate_scheme \<Rightarrow>
    (nat \<times> nat, 'z fsstate_scheme) res" where
  "write_pieces vm ip src [] tot off s = Ret (tot, off) s"
| "write_pieces vm ip src ((b, p, m) # ps) tot off s =
     res_bind (bmap ip b s) (\<lambda>addr s.
       if addr = 0 then Ret (tot, off) s
       else res_bind (bread (i_dev (inodes s ip)) addr s) (\<lambda>bp s.
         res_bind (either_copyin vm src m s) (\<lambda>(r, bs) s.
           let s = set_data bp (put_bytes (b_data (bufs s bp)) p bs) s in
           if r = minus_one then res_bind (brelse bp s) (\<lambda>_ s. Ret (tot, off) s)
           else res_bind (log_write bp s) (\<lambda>_ s.
                res_bind (brelse bp s) (\<lambda>_ s. write_pieces vm ip (source_add src m) ps (tot + m) (off + m) s)))))"

lemma readi_loop_pieces:
  fixes s :: "'z fsstate_scheme"
  shows "n - tot < k \<Longrightarrow> readi_loop k vm ip dst off n tot out s = read_pieces vm ip dst (pieces off (n - tot)) tot out s"
proof (induction k arbitrary: dst off tot out s)
  case (Suc k)
  show ?case
  proof (cases "tot < n")
    case True
    let ?m = "chunk n tot off"
    have "0 < ?m" using True by (simp add: chunk_def BSIZE_def)
    then have "readi_loop k vm ip d (off + ?m) n (tot + ?m) out' =
        (read_pieces vm ip d (pieces (off + ?m) (n - tot - ?m)) (tot + ?m) out' :: 'z fsstate_scheme \<Rightarrow> _)" for d out'
      using Suc.IH [of "tot + ?m"] Suc.prems True by (intro ext) simp
    then show ?thesis using True by (subst pieces_Cons) (simp_all add: chunk_piece [symmetric] Let_def cong: if_cong)
  qed (simp add: pieces_def)
qed simp

lemma writei_loop_pieces:
  fixes s :: "'z fsstate_scheme"
  shows "n - tot < k \<Longrightarrow> writei_loop k vm ip src off n tot s = write_pieces vm ip src (pieces off (n - tot)) tot off s"
proof (induction k arbitrary: src off tot s)
  case (Suc k)
  show ?case
  proof (cases "tot < n")
    case True
    let ?m = "chunk n tot off"
    have "0 < ?m" using True by (simp add: chunk_def BSIZE_def)
    then have "writei_loop k vm ip d (off + ?m) n (tot + ?m) =
        (write_pieces vm ip d (pieces (off + ?m) (n - tot - ?m)) (tot + ?m) (off + ?m) :: 'z fsstate_scheme \<Rightarrow> _)" for d
      using Suc.IH [of "tot + ?m"] Suc.prems True by (intro ext) simp
    then show ?thesis using True by (subst pieces_Cons) (simp_all add: chunk_piece [symmetric] Let_def cong: if_cong)
  qed (simp add: pieces_def)
qed simp

text \<open>
  C23. \<^verbatim>\<open>readi\<close> and \<^verbatim>\<open>writei\<close> end: they visit the blocks that the range of the request touches, once each and
  in order, a range that \<^verbatim>\<open>readi\<close> cuts off at the end of the file. The pieces are non-empty, lie within
  their blocks and add up to the length of the range.
\<close>

theorem file_ranges_visited:
  "readi vm ip dst off n s =
     (if off > i_size (inodes s ip) \<or> off + n < off then Ret (0, []) s
      else read_pieces vm ip dst (pieces (unat off) (unat (if off + n > i_size (inodes s ip) then i_size (inodes s ip) - off else n))) 0 [] s) \<and>
   writei vm ip src off n s =
     (if off > i_size (inodes s ip) \<or> off + n < off \<or> unat (off + n) > MAXFILE * BSIZE then Ret minus_one s
      else res_bind (write_pieces vm ip src (pieces (unat off) (unat n)) 0 (unat off) s) (\<lambda>(tot, off) s.
             let s = (if of_nat off > i_size (inodes s ip) then upd_ino ip (\<lambda>n. n\<lparr>i_size := of_nat off\<rparr>) s else s)
             in res_bind (iupdate ip s) (\<lambda>_ s. Ret (of_nat tot) s))) \<and>
   sum_list (map (\<lambda>(b, p, m). m) (pieces a l)) = l \<and>
   map (\<lambda>(b, p, m). b) (pieces a l) = (if l = 0 then [] else [a div BSIZE..<Suc ((a + l - 1) div BSIZE)]) \<and>
   list_all (\<lambda>(b, p, m). 0 < m \<and> p + m \<le> BSIZE) (pieces a l)"
proof (intro conjI pieces_sum pieces_inside)
  have r: "readi_loop (m + 1) vm ip dst a m 0 [] s = read_pieces vm ip dst (pieces a m) 0 [] s" for m a
    by (subst readi_loop_pieces) simp_all
  show "readi vm ip dst off n s =
     (if off > i_size (inodes s ip) \<or> off + n < off then Ret (0, []) s
      else read_pieces vm ip dst (pieces (unat off) (unat (if off + n > i_size (inodes s ip) then i_size (inodes s ip) - off else n))) 0 [] s)"
    unfolding readi_def Let_def r ..
  have w: "writei_loop (m + 1) vm ip src a m 0 s = write_pieces vm ip src (pieces a m) 0 a s" for m a
    by (subst writei_loop_pieces) simp_all
  show "writei vm ip src off n s =
     (if off > i_size (inodes s ip) \<or> off + n < off \<or> unat (off + n) > MAXFILE * BSIZE then Ret minus_one s
      else res_bind (write_pieces vm ip src (pieces (unat off) (unat n)) 0 (unat off) s) (\<lambda>(tot, off) s.
             let s = (if of_nat off > i_size (inodes s ip) then upd_ino ip (\<lambda>n. n\<lparr>i_size := of_nat off\<rparr>) s else s)
             in res_bind (iupdate ip s) (\<lambda>_ s. Ret (of_nat tot) s)))"
    unfolding writei_def w by simp
qed (simp add: pieces_def comp_def Let_def)

end
