(* ===== verification/Stack_Image.thy ===== *)
theory Stack_Image
  imports Exec
begin

text \<open>
  The user stack that \<^verbatim>\<open>exec\<close> prepares: all it writes there stays inside the stack page and is aligned.
\<close>

section \<open>Guarded copies\<close>

text \<open>
  A virtual memory layer whose \<^verbatim>\<open>copyout\<close> accepts only 16-byte aligned addresses and only bytes that lie
  in the page at \<open>base\<close>; anything else is a fault.
\<close>

definition stack_guard :: "uint64 \<Rightarrow> vm_ops \<Rightarrow> vm_ops" where
  "stack_guard base vm = vm\<lparr>vm_copyout := \<lambda>pt va bs m.
     if va mod 16 = 0 \<and> base \<le> va \<and> unat va + length bs \<le> unat base + 4096 then vm_copyout vm pt va bs m else Fault\<rparr>"

lemma stack_guard_copyout:
  assumes "va mod 16 = 0" "base \<le> va" "unat va + length bs \<le> unat base + 4096"
  shows "vm_run (vm_copyout (stack_guard base vm) pt va bs) s = vm_run (vm_copyout vm pt va bs) s"
  using assms by (simp add: stack_guard_def vm_run_def)

lemma stack_guard_simps [simp]:
  "vm_uvmalloc (stack_guard base vm) = vm_uvmalloc vm" "vm_uvmclear (stack_guard base vm) = vm_uvmclear vm"
  "vm_uvmunmap (stack_guard base vm) = vm_uvmunmap vm" "vm_uvmfree (stack_guard base vm) = vm_uvmfree vm"
  by (simp_all add: stack_guard_def)

lemma align_down:
  fixes x :: uint64
  shows "(x - x mod 16) mod 16 = 0" "unat (x - x mod 16) = unat x - unat x mod 16"
proof -
  have "unat (x mod 16) = unat x mod 16" by (simp add: unat_mod)
  moreover have "x mod 16 \<le> x" by (simp add: word_le_nat_alt unat_mod)
  ultimately show u: "unat (x - x mod 16) = unat x - unat x mod 16" by (simp add: unat_sub)
  have "unat ((x - x mod 16) mod 16) = (unat x - unat x mod 16) mod 16" by (simp only: unat_mod u) simp
  then have "unat ((x - x mod 16) mod 16) = 0" by (simp add: minus_mod_eq_mult_div)
  then show "(x - x mod 16) mod 16 = 0" by (simp add: unat_eq_zero)
qed

text \<open>A push of \<open>n\<close> bytes onto a stack pointer in the page, as both pushes of \<^verbatim>\<open>exec\<close> do it.\<close>

lemma push_bounds:
  fixes base sp :: uint64
  assumes "unat base + 4096 < 2 ^ 64" "4096 \<le> unat base" "base \<le> sp" "unat sp \<le> unat base + 4096" "n \<le> 4096"
  defines "sp' \<equiv> sp - of_nat n - (sp - of_nat n) mod 16"
  shows "sp' mod 16 = 0" "unat sp' + n \<le> unat sp"
proof -
  show "sp' mod 16 = 0" unfolding sp'_def by (rule align_down)
  have "unat (sp - of_nat n) = unat sp - n"
    using assms by (simp add: unat_sub word_le_nat_alt unat_of_nat)
  then have "unat sp' \<le> unat sp - n" unfolding sp'_def by (simp add: align_down)
  then show "unat sp' + n \<le> unat sp" using assms by (simp add: word_le_nat_alt)
qed

section \<open>The arguments\<close>

lemma strlen_bound: "strlen s = Some n \<Longrightarrow> n < length s"
  by (induction s arbitrary: n) (auto split: if_splits)

lemma exec_args_guard:
  fixes s :: "'z kstate_scheme"
  assumes b: "unat base + 4096 < 2 ^ 64" "4096 \<le> unat base"
    and "base \<le> sp" "unat sp \<le> unat base + 4096"
  shows "exec_args (stack_guard base vm) pt base argv sp ustack s = exec_args vm pt base argv sp ustack s \<and>
     (\<forall>sp' us t. exec_args vm pt base argv sp ustack s = Ret (Some (sp', us)) t \<longrightarrow> base \<le> sp' \<and> unat sp' \<le> unat base + 4096)"
  using assms(3,4)
proof (induction argv arbitrary: sp ustack s)
  case (Cons a argv)
  show ?case
  proof (cases "a = 0 \<or> MAXARG \<le> length ustack \<or> strlen (page_string a s) = None")
    case True
    then show ?thesis using Cons.prems by auto
  next
    case False
    then obtain len where len: "strlen (page_string a s) = Some len" by auto
    then have "len < 4096" using strlen_bound [OF len] by (simp add: page_string_def)
    define sp' where "sp' = sp - of_nat (len + 1) - (sp - of_nat (len + 1)) mod 16"
    note pb = push_bounds [OF b Cons.prems, of "len + 1", folded sp'_def]
    have eq: "sp - (of_nat len + 1) - (sp - (of_nat len + 1)) mod 16 = sp'" by (simp add: sp'_def add.commute)
    have le: "sp' mod 16 = 0" "unat sp' + (len + 1) \<le> unat sp" using pb \<open>len < 4096\<close> by simp_all
    show ?thesis
    proof (cases "sp' < base")
      case True
      then show ?thesis using False len eq by (simp add: Let_def)
    next
      case c: False
      then have p: "base \<le> sp'" "unat sp' \<le> unat base + 4096" using le Cons.prems by (simp_all add: word_le_nat_alt word_less_nat_alt)
      have g: "vm_run (vm_copyout (stack_guard base vm) pt sp' (take (len + 1) (page_string a s))) s
          = vm_run (vm_copyout vm pt sp' (take (len + 1) (page_string a s))) s"
        using le p Cons.prems by (intro stack_guard_copyout) simp_all
      show ?thesis
        using False len eq c g Cons.IH [OF p]
        by (cases "vm_run (vm_copyout vm pt sp' (take (len + 1) (page_string a s))) s") (auto simp: Let_def)
    qed
  qed
qed simp

lemma exec_bad_guard: "exec_bad (stack_guard base vm) pt msz ip s = exec_bad vm pt msz ip s"
  by (simp add: exec_bad_def proc_freepagetable_def)

lemma freepagetable_guard: "proc_freepagetable (stack_guard base vm) = proc_freepagetable vm"
  by (intro ext) (simp add: proc_freepagetable_def)

lemma length_pointers: "length (concat (map (le_bytes 8) us)) = 8 * length us"
  by (induction us) simp_all

lemma exec_commit_guard:
  assumes "unat base + 4096 < 2 ^ 64" "4096 \<le> unat base" "base \<le> sp" "unat sp \<le> unat base + 4096"
  shows "exec_commit (stack_guard base vm) p path elf pt msz oldsz base ustack sp s = exec_commit vm p path elf pt msz oldsz base ustack sp s"
proof (cases "MAXARG \<le> length ustack")
  case False
  define sp' where "sp' = sp - of_nat (8 * (length ustack + 1)) - (sp - of_nat (8 * (length ustack + 1))) mod 16"
  have eq: "sp - (of_nat (length ustack) + 1) * 8 = sp - of_nat (8 * (length ustack + 1))" by simp
  have "8 * (length ustack + 1) \<le> 4096" using False by (simp add: MAXARG_def)
  note pb = push_bounds [OF assms this, folded sp'_def]
  show ?thesis
  proof (cases "sp' < base")
    case True
    then show ?thesis using False unfolding exec_commit_def Let_def eq sp'_def [symmetric] by (simp add: exec_bad_guard)
  next
    case c: False
    have "vm_run (vm_copyout (stack_guard base vm) pt sp' (concat (map (le_bytes 8) (ustack @ [0])))) s
        = vm_run (vm_copyout vm pt sp' (concat (map (le_bytes 8) (ustack @ [0])))) s"
      using pb c assms(4) by (intro stack_guard_copyout) (simp_all add: length_pointers del: map_append concat_append)
    then show ?thesis
      using False c unfolding exec_commit_def Let_def eq sp'_def [symmetric] freepagetable_guard exec_bad_guard by (simp only:)
  qed
qed (simp add: exec_commit_def)

text \<open>
  C26. Everything \<^verbatim>\<open>exec\<close> writes to the new user stack stays inside the one page it has set aside for it,
  above the guard page, at addresses that are multiples of 16, for every argument vector: a virtual
  memory layer that rejects any other \<^verbatim>\<open>copyout\<close> makes no difference. The hypotheses are that
  \<^verbatim>\<open>uvmalloc\<close> returns 0 or the new size it was given, and that the image ends below \<^verbatim>\<open>MAXVA\<close>.
\<close>

theorem exec_stack_bounds:
  fixes s :: "'z fsstate_scheme"
  assumes "\<forall>old new perm m r m'. vm_uvmalloc vm pt old new perm m = Ret r m' \<longrightarrow> r = 0 \<or> r = new"
    and "msz \<le> MAXVA"
  shows "exec_stack (stack_guard (PGROUNDUP msz + PGSIZE) vm) p path argv elf pt msz s = exec_stack vm p path argv elf pt msz s"
proof -
  let ?b = "PGROUNDUP msz + PGSIZE"
  have msz: "unat msz \<le> 2 ^ 38" using assms(2) by (simp add: word_le_nat_alt MAXVA_def)
  then have u: "unat (PGROUNDUP msz) = (unat msz + 4095) div 4096 * 4096" by (intro PGROUNDUP_unat) simp
  also have "\<dots> \<le> 2 ^ 39" using msz by simp
  finally have l: "unat (PGROUNDUP msz) \<le> 2 ^ 39" .
  then have b: "unat ?b = unat (PGROUNDUP msz) + 4096" by (simp add: unat_word_ariths PGSIZE_def)
  then have top: "unat (?b + PGSIZE) = unat ?b + 4096" using l by (simp only: unat_word_ariths) (simp add: PGSIZE_def)
  have ok: "unat ?b + 4096 < 2 ^ 64" "4096 \<le> unat ?b" using b l by simp_all
  have t: "?b \<le> PGROUNDUP msz + 2 * PGSIZE" "unat (PGROUNDUP msz + 2 * PGSIZE) \<le> unat ?b + 4096" "PGROUNDUP msz + 2 * PGSIZE - PGSIZE = ?b"
    using top by (simp_all add: word_le_nat_alt algebra_simps)
  note ea = exec_args_guard [OF ok t(1,2)]
  have "exec_stack (stack_guard ?b vm) p path argv elf pt msz s = exec_stack vm p path argv elf pt msz s"
    if "vm_run (vm_uvmalloc vm pt (PGROUNDUP msz) (PGROUNDUP msz + 2 * PGSIZE) PTE_W) s = Ret r u" for r u
  proof (cases "r = 0")
    case False
    then have r: "r = PGROUNDUP msz + 2 * PGSIZE" using that assms(1) by (auto simp: vm_run_def split: res.splits) blast
    have c: "exec_commit (stack_guard ?b vm) p path elf pt r (sz (procs s p)) ?b us sp v = exec_commit vm p path elf pt r (sz (procs s p)) ?b us sp v"
      if "exec_args vm pt ?b argv r [] w = Ret (Some (sp, us)) v" for us sp v and w :: "'z fsstate_scheme"
    proof -
      have "?b \<le> sp" "unat sp \<le> unat ?b + 4096" using ea [of vm pt argv "[]" w] that r by auto
      then show ?thesis by (intro exec_commit_guard ok)
    qed
    have a: "exec_args (stack_guard ?b vm) pt ?b argv r [] w = exec_args vm pt ?b argv r [] w" for w :: "'z fsstate_scheme" using ea r by blast
    have rb: "r - PGSIZE = ?b" using r t(3) by simp
    show ?thesis
    proof (cases "vm_run (vm_uvmclear vm pt (r - 2 * PGSIZE)) u")
      case (Ret x v)
      show ?thesis
        unfolding exec_stack_def Let_def stack_guard_simps that res_bind.simps if_not_P [OF False] Ret rb a exec_bad_guard
        using c [where w = v] by (cases "exec_args vm pt ?b argv r [] v") (auto split: option.splits)
    qed (use that False in \<open>simp_all add: exec_stack_def Let_def\<close>)
  qed (use that in \<open>simp add: exec_stack_def Let_def exec_bad_guard\<close>)
  then show ?thesis
    by (cases "vm_run (vm_uvmalloc vm pt (PGROUNDUP msz) (PGROUNDUP msz + 2 * PGSIZE) PTE_W) s")
      (simp_all add: exec_stack_def Let_def)
qed

theorem exec_stack_bounds_witness:
  "exec_stack (stack_guard (PGROUNDUP 8000 + PGSIZE) flat_vm) 0 [] [0x80030000, 0] (elfhdr_of []) 1 8000 blank_fsstate
     = exec_stack flat_vm 0 [] [0x80030000, 0] (elfhdr_of []) 1 8000 blank_fsstate"
  by (rule exec_stack_bounds) (simp_all add: flat_vm_def MAXVA_def)

end
