(* ===== verification/Pipe_Queue.thy ===== *)
theory Pipe_Queue
  imports File Ring
begin

text \<open>
  A pipe is a bounded first-in first-out queue of bytes: \<^verbatim>\<open>pipewrite\<close> and \<^verbatim>\<open>piperead\<close> on the ring buffer
  implement appending to and taking from a list.
\<close>

section \<open>The queue of a pipe\<close>

definition pipe_queue :: "pipe \<Rightarrow> uchar list" where
  "pipe_queue p = ring (p_data p) (p_nread p) (p_nwrite p)"

definition pipe_ok :: "pipe \<Rightarrow> bool" where
  "pipe_ok p \<longleftrightarrow> length (p_data p) = PIPESIZE \<and> length (pipe_queue p) \<le> PIPESIZE"

lemma pipe_full:
  assumes "pipe_ok p"
  shows "p_nwrite p = p_nread p + of_nat PIPESIZE \<longleftrightarrow> length (pipe_queue p) = PIPESIZE"
proof -
  have "p_nwrite p = p_nread p + of_nat PIPESIZE \<longleftrightarrow> p_nwrite p - p_nread p = of_nat PIPESIZE" by (simp add: diff_eq_eq add.commute)
  also have "\<dots> \<longleftrightarrow> unat (p_nwrite p - p_nread p) = PIPESIZE"
    by (simp add: word_unat_eq_iff unat_of_nat PIPESIZE_def)
  finally show ?thesis by (simp add: pipe_queue_def)
qed

lemma pipe_push:
  fixes c :: uchar
  assumes "pipe_ok p" "length (pipe_queue p) < PIPESIZE"
  defines "q \<equiv> p\<lparr>p_data := (p_data p)[unat (p_nwrite p) mod PIPESIZE := c], p_nwrite := p_nwrite p + 1\<rparr>"
  shows "pipe_queue q = pipe_queue p @ [c]" "pipe_ok q"
proof -
  have "ring ((p_data p)[unat (p_nwrite p) mod PIPESIZE := c]) (p_nread p) (p_nwrite p + 1) = pipe_queue p @ [c]"
    using assms unfolding pipe_queue_def by (intro ring_push) (simp_all add: pipe_ok_def PIPESIZE_def pipe_queue_def)
  then show "pipe_queue q = pipe_queue p @ [c]" by (simp add: pipe_queue_def q_def)
  then show "pipe_ok q" using assms by (simp add: pipe_ok_def q_def)
qed

lemma pipe_empty: "pipe_queue p = [] \<longleftrightarrow> p_nread p = p_nwrite p"
  by (auto simp: pipe_queue_def ring_empty_iff)

lemma pipe_pop:
  assumes "pipe_ok p" "p_nread p \<noteq> p_nwrite p"
  shows "pipe_queue p = p_data p ! (unat (p_nread p) mod PIPESIZE) # pipe_queue (p\<lparr>p_nread := p_nread p + 1\<rparr>)"
    "pipe_ok (p\<lparr>p_nread := p_nread p + 1\<rparr>)"
proof -
  show "pipe_queue p = p_data p ! (unat (p_nread p) mod PIPESIZE) # pipe_queue (p\<lparr>p_nread := p_nread p + 1\<rparr>)"
    using assms ring_pop [of "p_nwrite p" "p_nread p" "p_data p"] by (simp add: pipe_queue_def pipe_ok_def)
  then show "pipe_ok (p\<lparr>p_nread := p_nread p + 1\<rparr>)" using assms(1) by (simp add: pipe_ok_def)
qed

section \<open>Writing\<close>

lemma wakeup_held: "held s = [PipeLock pi] \<Longrightarrow> wakeup ch s = Ret () (s\<lparr>procs := woken ch (myproc s) (procs s)\<rparr>)"
  by (rule wakeup_Ret) simp

text \<open>
  \<open>u i\<close> is byte \<open>i\<close> of the user buffer. The writer stores bytes until all are in the pipe or the pipe is
  full, and then sleeps.
\<close>

lemma pipewrite_loop_queue:
  assumes "held s = [PipeLock pi]" "myproc s = Some p" "pipe_ok (pipes s pi)" "p_readopen (pipes s pi)" "pkilled (procs s p) = 0"
    and "\<And>j. j < i + k \<Longrightarrow> vm_copyin vm (pagetable (procs s p)) (addr + of_nat j) 1 (phys s) = Ret (0, [u j]) (phys s)"
  shows "let room = PIPESIZE - length (pipe_queue (pipes s pi)) in
     if k \<le> room
     then \<exists>t. pipewrite_loop vm pi p addr i k s = Ret (of_nat (i + k)) t \<and> held t = [] \<and> pipe_ok (pipes t pi) \<and>
            pipe_queue (pipes t pi) = pipe_queue (pipes s pi) @ map u [i..<i + k]
     else \<exists>t. pipewrite_loop vm pi p addr i k s = Swtch t \<and> held t = [ProcLock p] \<and> pipe_ok (pipes t pi) \<and>
            pstate (procs t p) = SLEEPING \<and> pchan (procs t p) = Some (ChanPipeWrite pi) \<and>
            pipe_queue (pipes t pi) = pipe_queue (pipes s pi) @ map u [i..<i + room]"
  using assms
proof (induction k arbitrary: i s)
  case 0
  then show ?case by (simp add: wakeup_held lock_simps)
next
  case (Suc k)
  have k: "killed p s = Ret 0 s" using Suc.prems by (simp add: killed_Ret)
  show ?case
  proof (cases "length (pipe_queue (pipes s pi)) = PIPESIZE")
    case True
    then have f: "p_nwrite (pipes s pi) = p_nread (pipes s pi) + of_nat PIPESIZE" using Suc.prems by (simp add: pipe_full)
    let ?w = "s\<lparr>procs := woken (Some (ChanPipeRead pi)) (Some p) (procs s)\<rparr>"
    have "sleep (Some (ChanPipeWrite pi)) (PipeLock pi) ?w =
        Swtch (?w\<lparr>held := [ProcLock p], procs := (procs ?w)(p := (procs ?w p)\<lparr>pchan := Some (ChanPipeWrite pi), pstate := SLEEPING, kintena := ien ?w\<rparr>)\<rparr>)"
      using Suc.prems(1,2) by (intro sleep_Swtch) (simp_all add: myproc_def cpuid_def)
    then show ?thesis using Suc.prems k f True by (simp add: wakeup_held upd_proc_def)
  next
    case False
    let ?p = "pipes s pi"
    let ?t = "upd_pipe pi (\<lambda>p. p\<lparr>p_data := (p_data p)[unat (p_nwrite p) mod PIPESIZE := u i], p_nwrite := p_nwrite p + 1\<rparr>) s"
    have l: "length (pipe_queue ?p) < PIPESIZE" using False Suc.prems(3) by (simp add: pipe_ok_def)
    have c: "vm_run (vm_copyin vm (pagetable (procs s p)) (addr + of_nat i) 1) s = Ret (0, [u i]) s"
      using Suc.prems(6) [of i] by (simp add: vm_run_def)
    have step: "pipewrite_loop vm pi p addr i (Suc k) s = pipewrite_loop vm pi p addr (Suc i) k ?t"
      using Suc.prems k c False by (simp add: pipe_full)
    have q: "pipe_queue (pipes ?t pi) = pipe_queue ?p @ [u i]" "pipe_ok (pipes ?t pi)"
      using pipe_push [OF Suc.prems(3) l, of "u i"] by (simp_all add: upd_pipe_def)
    have IH: "let room = PIPESIZE - length (pipe_queue (pipes ?t pi)) in
     if k \<le> room
     then \<exists>v. pipewrite_loop vm pi p addr (Suc i) k ?t = Ret (of_nat (Suc i + k)) v \<and> held v = [] \<and> pipe_ok (pipes v pi) \<and>
            pipe_queue (pipes v pi) = pipe_queue (pipes ?t pi) @ map u [Suc i..<Suc i + k]
     else \<exists>v. pipewrite_loop vm pi p addr (Suc i) k ?t = Swtch v \<and> held v = [ProcLock p] \<and> pipe_ok (pipes v pi) \<and>
            pstate (procs v p) = SLEEPING \<and> pchan (procs v p) = Some (ChanPipeWrite pi) \<and>
            pipe_queue (pipes v pi) = pipe_queue (pipes ?t pi) @ map u [Suc i..<Suc i + room]"
      using Suc.prems q by (intro Suc.IH) (simp_all add: upd_pipe_def myproc_def cpuid_def)
    have cons: "[i..<i + Suc n] = i # [Suc i..<Suc i + n]" for n by (simp add: upt_conv_Cons del: upt_Suc)
    have r: "PIPESIZE - length (pipe_queue ?p) = Suc (PIPESIZE - Suc (length (pipe_queue ?p)))" using l by simp
    show ?thesis
      using IH unfolding Let_def step r cons q(1)
      by (cases "k \<le> PIPESIZE - Suc (length (pipe_queue ?p))") (simp_all del: upt_Suc of_nat_Suc)
  qed
qed

text \<open>
  C24. \<^verbatim>\<open>pipewrite\<close> appends to the pipe's queue: when the reader's end is open and the user buffer is
  readable, it stores the bytes of the buffer in order after the bytes in the pipe. If they all fit,
  it returns their number with no lock held; otherwise it fills the 512 bytes of the pipe exactly and
  goes to sleep on \<^verbatim>\<open>&pi->nwrite\<close>. This holds also when the counters wrap around.
\<close>

theorem pipewrite_appends:
  assumes "held s = []" "myproc s = Some p" "pipe_ok (pipes s pi)" "p_readopen (pipes s pi)" "pkilled (procs s p) = 0"
    and "\<forall>j < nat (sint n). vm_copyin vm (pagetable (procs s p)) (addr + of_nat j) 1 (phys s) = Ret (0, [u j]) (phys s)"
  shows "let q = pipe_queue (pipes s pi); room = PIPESIZE - length q in
     if nat (sint n) \<le> room
     then \<exists>t. pipewrite vm pi addr n s = Ret (of_nat (nat (sint n))) t \<and> held t = [] \<and> pipe_ok (pipes t pi) \<and>
            pipe_queue (pipes t pi) = q @ map u [0..<nat (sint n)]
     else \<exists>t. pipewrite vm pi addr n s = Swtch t \<and> held t = [ProcLock p] \<and> pipe_ok (pipes t pi) \<and>
            pstate (procs t p) = SLEEPING \<and> pchan (procs t p) = Some (ChanPipeWrite pi) \<and>
            pipe_queue (pipes t pi) = q @ map u [0..<room]"
proof -
  let ?s = "s\<lparr>held := [PipeLock pi]\<rparr>"
  have w: "pipewrite vm pi addr n s = pipewrite_loop vm pi p addr 0 (nat (sint n)) ?s"
    using assms(1,2) by (simp add: pipewrite_def with_proc_def lock_acquire_def)
  have "let room = PIPESIZE - length (pipe_queue (pipes ?s pi)) in
     if nat (sint n) \<le> room
     then \<exists>t. pipewrite_loop vm pi p addr 0 (nat (sint n)) ?s = Ret (of_nat (0 + nat (sint n))) t \<and> held t = [] \<and> pipe_ok (pipes t pi) \<and>
            pipe_queue (pipes t pi) = pipe_queue (pipes ?s pi) @ map u [0..<0 + nat (sint n)]
     else \<exists>t. pipewrite_loop vm pi p addr 0 (nat (sint n)) ?s = Swtch t \<and> held t = [ProcLock p] \<and> pipe_ok (pipes t pi) \<and>
            pstate (procs t p) = SLEEPING \<and> pchan (procs t p) = Some (ChanPipeWrite pi) \<and>
            pipe_queue (pipes t pi) = pipe_queue (pipes ?s pi) @ map u [0..<0 + room]"
    using assms by (intro pipewrite_loop_queue) (simp_all add: myproc_def cpuid_def)
  then show ?thesis
    unfolding w Let_def add_0 by (cases "nat (sint n) \<le> PIPESIZE - length (pipe_queue (pipes s pi))") simp_all
qed

text \<open>An open pipe whose counters are about to wrap around.\<close>

definition open_pipe :: "uint \<Rightarrow> flstate" where
  "open_pipe w = upd_pipe 0x80050000 (\<lambda>_. \<lparr>p_data = replicate PIPESIZE 7, p_nread = -1, p_nwrite = w, p_readopen = True, p_writeopen = True\<rparr>) blank_flstate"

lemma open_pipe_simps:
  "held (open_pipe w) = []" "myproc (open_pipe w) = Some 0" "procs (open_pipe w) = procs blank_flstate" "phys (open_pipe w) = phys blank_pcb"
  "pipes (open_pipe w) 0x80050000 = \<lparr>p_data = replicate PIPESIZE 7, p_nread = -1, p_nwrite = w, p_readopen = True, p_writeopen = True\<rparr>"
  using blank_flstate_simps by (simp_all add: open_pipe_def upd_pipe_def myproc_def cpuid_def)

theorem pipewrite_appends_witness:
  "\<exists>t. pipewrite flat_vm 0x80050000 64 2 (open_pipe (-1)) = Ret 2 t \<and> pipe_queue (pipes t 0x80050000) = [0, 0]"
proof -
  have q: "pipe_queue (pipes (open_pipe (-1)) 0x80050000) = []" by (simp add: pipe_queue_def open_pipe_simps)
  have n: "sint (2 :: cint) = 2" by simp
  have "pipe_ok (pipes (open_pipe (-1)) 0x80050000)" using q by (simp add: pipe_ok_def) (simp add: open_pipe_simps)
  moreover have "\<forall>j < nat (sint (2 :: cint)). vm_copyin flat_vm (pagetable (procs (open_pipe (-1)) 0)) (64 + of_nat j) 1 (phys (open_pipe (-1)))
      = Ret (0, [0]) (phys (open_pipe (-1)))"
    by (simp add: flat_vm_def open_pipe_simps blank_pcb_def load_bytes_def)
  ultimately show ?thesis
    using pipewrite_appends [of "open_pipe (-1)" 0 "0x80050000" 2 flat_vm 64 "\<lambda>_. 0"] q n
    by (simp add: open_pipe_simps blank_flstate_simps blank_proc_def PIPESIZE_def numeral_2_eq_2) blast
qed

section \<open>Reading\<close>

text \<open>
  \<open>um m a\<close> is the byte at the user address \<open>a\<close> when the physical memory is \<open>m\<close>. The user buffer of \<open>n\<close>
  bytes at \<open>addr\<close> can be written, in the memories \<open>ok\<close> that the copies go through: \<^verbatim>\<open>copyout\<close> of a byte to
  it succeeds and changes that byte of the buffer only.
\<close>

definition buffer_writable :: "vm_ops \<Rightarrow> (kmem \<Rightarrow> bool) \<Rightarrow> (kmem \<Rightarrow> uint64 \<Rightarrow> uchar) \<Rightarrow> uint64 \<Rightarrow> uint64 \<Rightarrow> nat \<Rightarrow> bool" where
  "buffer_writable vm ok um pt addr n \<longleftrightarrow> (\<forall>i < n. \<forall>c m. ok m \<longrightarrow>
     (\<exists>m'. vm_copyout vm pt (addr + of_nat i) [c] m = Ret 0 m' \<and> ok m' \<and>
        (\<forall>j < n. um m' (addr + of_nat j) = (if j = i then c else um m (addr + of_nat j)))))"

lemma piperead_copy_queue:
  assumes "held s = [PipeLock pi]" "pipe_ok (pipes s pi)"
    and "buffer_writable vm ok um (pagetable (procs s p)) addr n" "ok (phys s)" "i + k \<le> n"
  shows "let r = min k (length (pipe_queue (pipes s pi))) in
     \<exists>t. piperead_copy vm pi p addr i k s = Ret (of_nat (i + r)) t \<and> held t = [] \<and> pipe_ok (pipes t pi) \<and>
       pipe_queue (pipes t pi) = drop r (pipe_queue (pipes s pi)) \<and>
       map (\<lambda>j. um (phys t) (addr + of_nat j)) [0..<i + r] =
         map (\<lambda>j. um (phys s) (addr + of_nat j)) [0..<i] @ take r (pipe_queue (pipes s pi))"
  using assms
proof (induction k arbitrary: i s)
  case 0
  then show ?case by (simp add: wakeup_held lock_simps)
next
  case (Suc k)
  let ?q = "pipe_queue (pipes s pi)"
  show ?case
  proof (cases "p_nread (pipes s pi) = p_nwrite (pipes s pi)")
    case True
    then have "?q = []" by (simp add: pipe_empty)
    then show ?thesis using True Suc.prems(1,2) by (simp add: wakeup_held lock_simps)
  next
    case False
    let ?c = "p_data (pipes s pi) ! (unat (p_nread (pipes s pi)) mod PIPESIZE)"
    let ?s = "upd_pipe pi (\<lambda>p. p\<lparr>p_nread := p_nread p + 1\<rparr>) s"
    have "i < n" using Suc.prems(5) by simp
    then obtain m where m: "vm_copyout vm (pagetable (procs s p)) (addr + of_nat i) [?c] (phys s) = Ret 0 m" "ok m"
      "\<And>j. j < n \<Longrightarrow> um m (addr + of_nat j) = (if j = i then ?c else um (phys s) (addr + of_nat j))"
      using Suc.prems(3,4) unfolding buffer_writable_def by blast
    let ?t = "?s\<lparr>phys := m\<rparr>"
    have step: "piperead_copy vm pi p addr i (Suc k) s = piperead_copy vm pi p addr (Suc i) k ?t"
      using False m(1) by (simp add: Let_def upd_pipe_def)
    have q: "?q = ?c # pipe_queue (pipes ?t pi)" "pipe_ok (pipes ?t pi)"
      using pipe_pop [OF Suc.prems(2) False] by (simp_all add: upd_pipe_def)
    let ?r = "min k (length (pipe_queue (pipes ?t pi)))"
    have "let r = ?r in
     \<exists>v. piperead_copy vm pi p addr (Suc i) k ?t = Ret (of_nat (Suc i + r)) v \<and> held v = [] \<and> pipe_ok (pipes v pi) \<and>
       pipe_queue (pipes v pi) = drop r (pipe_queue (pipes ?t pi)) \<and>
       map (\<lambda>j. um (phys v) (addr + of_nat j)) [0..<Suc i + r] =
         map (\<lambda>j. um (phys ?t) (addr + of_nat j)) [0..<Suc i] @ take r (pipe_queue (pipes ?t pi))"
      using Suc.prems q(2) m(2) by (intro Suc.IH) (simp_all add: upd_pipe_def)
    then obtain v where v: "piperead_copy vm pi p addr (Suc i) k ?t = Ret (of_nat (Suc i + ?r)) v" "held v = []" "pipe_ok (pipes v pi)"
       "pipe_queue (pipes v pi) = drop ?r (pipe_queue (pipes ?t pi))"
       "map (\<lambda>j. um (phys v) (addr + of_nat j)) [0..<Suc i + ?r] =
         map (\<lambda>j. um (phys ?t) (addr + of_nat j)) [0..<Suc i] @ take ?r (pipe_queue (pipes ?t pi))" by (auto simp: Let_def)
    have "map (\<lambda>j. um m (addr + of_nat j)) [0..<Suc i] = map (\<lambda>j. um (phys s) (addr + of_nat j)) [0..<i] @ [?c]"
      using \<open>i < n\<close> by (simp add: m(3))
    then have "map (\<lambda>j. um (phys v) (addr + of_nat j)) [0..<Suc i + ?r] =
         map (\<lambda>j. um (phys s) (addr + of_nat j)) [0..<i] @ take (Suc ?r) ?q" using v(5) q(1) by simp
    moreover have "min (Suc k) (length ?q) = Suc ?r" by (subst q(1)) simp
    moreover have "pipe_queue (pipes v pi) = drop (Suc ?r) ?q" using v(4) q(1) by simp
    ultimately show ?thesis unfolding step Let_def using v(1-3) by (simp del: upt_Suc)
  qed
qed

text \<open>
  C25. \<^verbatim>\<open>piperead\<close> takes from the front of the pipe's queue: unless the pipe is empty and still open for
  writing, it moves the oldest bytes, as many as there are and at most \<open>n\<close>, in order to the user
  buffer, removes them from the queue, and returns their number with no lock held. An empty pipe whose
  writer has closed it gives 0. The hypothesis on \<^verbatim>\<open>copyout\<close> is that the \<open>n\<close> bytes of the user buffer can
  be written.
\<close>

theorem piperead_takes:
  assumes "held s = []" "myproc s = Some p" "pipe_ok (pipes s pi)" "pipe_queue (pipes s pi) \<noteq> [] \<or> \<not> p_writeopen (pipes s pi)"
    and "buffer_writable vm ok um (pagetable (procs s p)) addr (nat (sint n))" "ok (phys s)"
  shows "let q = pipe_queue (pipes s pi); r = min (nat (sint n)) (length q) in
     \<exists>t. piperead vm pi addr n s = Ret (of_nat r) t \<and> held t = [] \<and> pipe_ok (pipes t pi) \<and>
       pipe_queue (pipes t pi) = drop r q \<and> map (\<lambda>j. um (phys t) (addr + of_nat j)) [0..<r] = take r q"
proof -
  let ?s = "s\<lparr>held := [PipeLock pi]\<rparr>"
  have w: "piperead vm pi addr n s = piperead_copy vm pi p addr 0 (nat (sint n)) ?s"
    using assms(1,2,4) by (auto simp: piperead_def piperead_wait_def with_proc_def lock_acquire_def pipe_empty)
  have "let r = min (nat (sint n)) (length (pipe_queue (pipes ?s pi))) in
     \<exists>t. piperead_copy vm pi p addr 0 (nat (sint n)) ?s = Ret (of_nat (0 + r)) t \<and> held t = [] \<and> pipe_ok (pipes t pi) \<and>
       pipe_queue (pipes t pi) = drop r (pipe_queue (pipes ?s pi)) \<and>
       map (\<lambda>j. um (phys t) (addr + of_nat j)) [0..<0 + r] =
         map (\<lambda>j. um (phys ?s) (addr + of_nat j)) [0..<0] @ take r (pipe_queue (pipes ?s pi))"
    using assms by (intro piperead_copy_queue [where ok = ok and n = "nat (sint n)"]) simp_all
  then show ?thesis unfolding w Let_def by simp
qed

theorem piperead_takes_witness:
  "\<exists>t. piperead small_vm 0x80050000 64 5 (open_pipe 1) = Ret 2 t \<and> pipe_queue (pipes t 0x80050000) = [] \<and>
     pmem (phys t) 64 = 7 \<and> pmem (phys t) 65 = 7"
proof -
  have q: "pipe_queue (pipes (open_pipe 1) 0x80050000) = [7, 7]"
    by (simp add: pipe_queue_def open_pipe_simps ring_def PIPESIZE_def upt_rec)
  have "pipe_ok (pipes (open_pipe 1) 0x80050000)" using q by (simp add: pipe_ok_def PIPESIZE_def) (simp add: open_pipe_simps PIPESIZE_def)
  moreover have "unat (64 + of_nat i :: uint64) = 64 + i" if "i < 5" for i
    using that by (simp add: unat_word_ariths unat_of_nat)
  then have "buffer_writable small_vm (\<lambda>_. True) pmem (pagetable (procs (open_pipe 1) 0)) 64 (nat (sint (5 :: cint)))"
    by (auto simp: buffer_writable_def small_vm_def word_unat_eq_iff)
  ultimately show ?thesis
    using piperead_takes [of "open_pipe 1" 0 "0x80050000" small_vm "\<lambda>_. True" pmem 64 5] q by (simp add: open_pipe_simps) blast
qed

end
