(* ===== verification/Disk_Queue.thy ===== *)
theory Disk_Queue
  imports Virtio Ring "HOL-Library.Multiset"
begin

text \<open>
  The driver of the disk and the device as one system: processes submit requests and wait for them,
  the device takes requests and completes them in any order, and the interrupt handler marks them as
  done. The invariant says which descriptors are in use and where each request is.
\<close>

section \<open>The invariant\<close>

text \<open>
  A request is the buffer with the three descriptors that the process sleeping in \<^verbatim>\<open>virtio_disk_rw\<close>
  has in its array \<^verbatim>\<open>idx\<close>.
\<close>

type_synonym request = "nat \<times> nat \<times> nat \<times> nat"

fun req_head :: "request \<Rightarrow> nat" where
  "req_head (b, i0, i1, i2) = i0"

fun req_descs :: "request \<Rightarrow> nat list" where
  "req_descs (b, i0, i1, i2) = [i0, i1, i2]"

definition descs :: "request list \<Rightarrow> nat list" where
  "descs fl = concat (map req_descs fl)"

fun chain_ok :: "vdisk_t \<Rightarrow> request \<Rightarrow> bool" where
  "chain_ok d (b, i0, i1, i2) \<longleftrightarrow>
     vq_flags (vdesc d i0) AND VRING_DESC_F_NEXT \<noteq> 0 \<and> unat (vq_next (vdesc d i0)) = i1 \<and>
     vq_flags (vdesc d i1) AND VRING_DESC_F_NEXT \<noteq> 0 \<and> unat (vq_next (vdesc d i1)) = i2 \<and>
     vq_flags (vdesc d i2) AND VRING_DESC_F_NEXT = 0 \<and> info_b d i0 = Some b"

text \<open>The entries the device has not taken yet, and those the interrupt handler has not seen yet.\<close>

definition pend_avail :: "vdisk_t \<Rightarrow> ushort \<Rightarrow> nat list" where
  "pend_avail d dev = map unat (ring (map (avail_ring d) [0..<NUM]) dev (avail_idx d))"

definition pend_used :: "vdisk_t \<Rightarrow> nat list" where
  "pend_used d = map unat (ring (map (used_ring d) [0..<NUM]) (used_idx d) (used_dev_idx d))"

text \<open>
  \<open>bd\<close> are the flags \<^verbatim>\<open>b->disk\<close>, \<open>fl\<close> the requests in flight, \<open>dev\<close> the device's position in the ring
  of available requests and \<open>tk\<close> the requests it is working on.
\<close>

definition vinv :: "vdisk_t \<Rightarrow> (nat \<Rightarrow> bool) \<Rightarrow> request list \<Rightarrow> ushort \<Rightarrow> nat list \<Rightarrow> bool" where
  "vinv d bd fl dev tk \<longleftrightarrow>
     distinct (descs fl) \<and> distinct (map fst fl) \<and> (\<forall>r \<in> set fl. chain_ok d r) \<and>
     (\<forall>i. i \<in> set (descs fl) \<longleftrightarrow> i < NUM \<and> \<not> vfree d i) \<and>
     mset (pend_avail d dev) + mset tk + mset (pend_used d) = mset (map req_head (filter (\<lambda>r. bd (fst r)) fl)) \<and>
     (\<forall>h \<in> set (pend_used d). info_status d h = 0)"

lemma length_descs: "length (descs fl) = 3 * length fl"
  by (induction fl) (auto simp: descs_def)

lemma descs_Cons [simp]: "descs (r # fl) = req_descs r @ descs fl" "descs [] = []"
  by (simp_all add: descs_def)

lemma descs_append [simp]: "descs (fl @ gl) = descs fl @ descs gl"
  by (simp add: descs_def)

lemma req_head_descs: "r \<in> set fl \<Longrightarrow> req_head r \<in> set (descs fl)"
  by (induction fl) auto

lemma req_descs_sub: "r \<in> set fl \<Longrightarrow> set (req_descs r) \<subseteq> set (descs fl)"
  by (induction fl) auto

lemma chains_cong:
  assumes "\<And>r. r \<in> set fl \<Longrightarrow> chain_ok d r" "\<And>i. i \<in> set (descs fl) \<Longrightarrow> vdesc e i = vdesc d i \<and> info_b e i = info_b d i" "r \<in> set fl"
  shows "chain_ok e r"
proof -
  obtain c j0 j1 j2 where r: "r = (c, j0, j1, j2)" by (cases r)
  have "j0 \<in> set (descs fl)" "j1 \<in> set (descs fl)" "j2 \<in> set (descs fl)" using req_descs_sub [OF assms(3)] by (simp_all add: r)
  then show ?thesis using assms(1) [OF assms(3)] assms(2) by (simp add: r)
qed

text \<open>Every descriptor is free or belongs to one request, so at most two requests are in flight.\<close>

lemma vinv_count:
  assumes "vinv d bd fl dev tk"
  shows "card {i. i < NUM \<and> vfree d i} + 3 * length fl = NUM"
proof -
  have s: "set (descs fl) = {i. i < NUM \<and> \<not> vfree d i}" using assms by (auto simp: vinv_def)
  have "card (set (descs fl)) = 3 * length fl" using assms distinct_card [of "descs fl"] by (simp add: vinv_def length_descs)
  moreover have "{i. i < NUM \<and> vfree d i} \<union> {i. i < NUM \<and> \<not> vfree d i} = {..<NUM}" by auto
  then have "card {i. i < NUM \<and> vfree d i} + card {i. i < NUM \<and> \<not> vfree d i} = card {..<NUM}"
    by (subst card_Un_disjoint [symmetric]) auto
  ultimately show ?thesis using s by simp
qed

lemma vinv_where:
  "vinv d bd fl dev tk \<Longrightarrow>
     mset (pend_avail d dev) + mset tk + mset (pend_used d) = mset (map req_head (filter (\<lambda>r. bd (fst r)) fl))"
  unfolding vinv_def by blast

lemma vinv_small:
  assumes "vinv d bd fl dev tk"
  shows "length (pend_avail d dev) < NUM" "length (pend_used d) < NUM"
proof -
  have "size (mset (pend_avail d dev) + mset tk + mset (pend_used d)) = length (filter (\<lambda>r. bd (fst r)) fl)"
    unfolding vinv_where [OF assms] by (simp only: size_mset length_map)
  moreover have "length (filter (\<lambda>r. bd (fst r)) fl) \<le> length fl" by (rule length_filter_le)
  moreover have "length fl < NUM" using vinv_count [OF assms] by (simp add: NUM_def)
  ultimately show "length (pend_avail d dev) < NUM" "length (pend_used d) < NUM" by (simp_all only: size_union size_mset)
qed

lemma pend_member:
  assumes "vinv d bd fl dev tk" "h \<in> set (pend_avail d dev) \<union> set tk \<union> set (pend_used d)"
  obtains r where "r \<in> set fl" "bd (fst r)" "req_head r = h"
proof -
  have "h \<in># mset (pend_avail d dev) + mset tk + mset (pend_used d)" using assms(2) by auto
  then have "h \<in> req_head ` set (filter (\<lambda>r. bd (fst r)) fl)" unfolding vinv_where [OF assms(1)] by simp
  then show thesis using that by auto
qed

section \<open>Steps on the queue\<close>

definition queue_push :: "(nat \<Rightarrow> 'b::len word) \<Rightarrow> ushort \<Rightarrow> 'b word \<Rightarrow> (nat \<Rightarrow> 'b word)" where
  "queue_push q w v = q(unat w mod NUM := v)"

lemma ring_queue_push:
  fixes r w :: ushort
  assumes "unat (w - r) < NUM"
  shows "ring (map (queue_push q w v) [0..<NUM]) r (w + 1) = ring (map q [0..<NUM]) r w @ [v]"
proof -
  have "map (queue_push q w v) [0..<NUM] = (map q [0..<NUM])[unat w mod NUM := v]"
    by (rule nth_equalityI) (auto simp: queue_push_def nth_list_update NUM_def)
  then show ?thesis using ring_push [of "map q [0..<NUM]" NUM w r v] assms by (simp add: NUM_def)
qed

lemma vinv_submit:
  assumes I: "vinv d bd fl dev tk"
    and new: "distinct [i0, i1, i2]" "\<And>i. i \<in> {i0, i1, i2} \<Longrightarrow> i < NUM \<and> vfree d i" "b \<notin> fst ` set fl"
    and e: "chain_ok e (b, i0, i1, i2)" "\<And>i. i \<notin> {i0, i1, i2} \<Longrightarrow> vdesc e i = vdesc d i" "\<And>i. i \<noteq> i0 \<Longrightarrow> info_b e i = info_b d i"
      "\<And>i. vfree e i \<longleftrightarrow> vfree d i \<and> i \<notin> {i0, i1, i2}"
      "avail_ring e = queue_push (avail_ring d) (avail_idx d) (of_nat i0)" "avail_idx e = avail_idx d + 1"
      "used_ring e = used_ring d" "used_idx e = used_idx d" "used_dev_idx e = used_dev_idx d"
      "\<And>i. i \<noteq> i0 \<Longrightarrow> info_status e i = info_status d i"
  shows "vinv e (bd(b := True)) ((b, i0, i1, i2) # fl) dev tk"
proof -
  have used: "{i0, i1, i2} \<inter> set (descs fl) = {}" using I new(2) by (auto simp: vinv_def)
  have "unat (of_nat i0 :: ushort) = i0" using new(2) [of i0] by (simp add: NUM_def unat_of_nat)
  then have "pend_avail e dev = pend_avail d dev @ [i0]"
    using vinv_small(1) [OF I] by (simp add: pend_avail_def e ring_queue_push)
  moreover have pu: "pend_used e = pend_used d" by (simp add: pend_used_def e)
  moreover have "filter (\<lambda>r. (bd(b := True)) (fst r)) fl = filter (\<lambda>r. bd (fst r)) fl"
    using new(3) by (intro filter_cong) auto
  ultimately have m: "mset (pend_avail e dev) + mset tk + mset (pend_used e)
      = mset (map req_head (filter (\<lambda>r. (bd(b := True)) (fst r)) ((b, i0, i1, i2) # fl)))"
    using I by (simp add: vinv_def)
  have "chain_ok e r" if "r \<in> set fl" for r
  proof (rule chains_cong [of fl d e r])
    show "chain_ok d r" if "r \<in> set fl" for r using I that by (simp add: vinv_def)
    show "vdesc e i = vdesc d i \<and> info_b e i = info_b d i" if "i \<in> set (descs fl)" for i
      using used that e(2) [of i] e(3) [of i] by blast
  qed (rule that)
  moreover have "info_status e h = 0" if h: "h \<in> set (pend_used e)" for h
  proof -
    have "h \<in> set (pend_avail d dev) \<union> set tk \<union> set (pend_used d)" using h pu by simp
    then obtain r where r: "r \<in> set fl" "req_head r = h" using pend_member [OF I] by blast
    then have "h \<noteq> i0" using used req_head_descs [OF r(1)] by auto
    then show ?thesis using I h pu e(10) by (simp add: vinv_def)
  qed
  ultimately show ?thesis
    using I new used e(1,4) m unfolding vinv_def by (auto simp del: chain_ok.simps)
qed

lemma vinv_take:
  assumes I: "vinv d bd fl dev tk" and "dev \<noteq> avail_idx d"
  shows "vinv d bd fl (dev + 1) (unat (avail_ring d (unat dev mod NUM)) # tk)"
proof -
  have "pend_avail d dev = unat (avail_ring d (unat dev mod NUM)) # pend_avail d (dev + 1)"
    using ring_pop [of "avail_idx d" dev "map (avail_ring d) [0..<NUM]"] assms(2) by (simp add: pend_avail_def NUM_def)
  then show ?thesis using I by (simp add: vinv_def)
qed

lemma vinv_complete:
  assumes I: "vinv d bd fl dev (tk1 @ h # tk2)"
  shows "vinv (d\<lparr>info_status := (info_status d)(h := 0), used_ring := queue_push (used_ring d) (used_dev_idx d) (of_nat h),
     used_dev_idx := used_dev_idx d + 1\<rparr>) bd fl dev (tk1 @ tk2)" (is "vinv ?e bd fl dev _")
proof -
  have "h \<in> set (pend_avail d dev) \<union> set (tk1 @ h # tk2) \<union> set (pend_used d)" by simp
  then obtain r where r: "r \<in> set fl" "req_head r = h" using pend_member [OF I] by blast
  then have h: "h < NUM" using I req_head_descs [OF r(1)] by (simp add: vinv_def)
  have "unat (of_nat h :: uint) = h" using h by (simp add: NUM_def unat_of_nat)
  then have "pend_used ?e = pend_used d @ [h]"
    using vinv_small(2) [OF I] by (simp add: pend_used_def ring_queue_push)
  moreover have "pend_avail ?e dev = pend_avail d dev" by (simp add: pend_avail_def)
  moreover have "chain_ok ?e r \<longleftrightarrow> chain_ok d r" for r by (cases r) simp
  ultimately show ?thesis using I by (auto simp: vinv_def)
qed

lemma vinv_intr:
  assumes I: "vinv d bd fl dev tk" and ne: "used_idx d \<noteq> used_dev_idx d"
  defines "h \<equiv> unat (used_ring d (unat (used_idx d) mod NUM))"
  obtains b where "h < NUM" "info_status d h = 0" "info_b d h = Some b" "vinv (d\<lparr>used_idx := used_idx d + 1\<rparr>) (bd(b := False)) fl dev tk"
proof -
  let ?e = "d\<lparr>used_idx := used_idx d + 1\<rparr>"
  have pu: "pend_used d = h # pend_used ?e"
    using ring_pop [of "used_dev_idx d" "used_idx d" "map (used_ring d) [0..<NUM]"] ne by (simp add: pend_used_def NUM_def h_def)
  have "h \<in> set (pend_avail d dev) \<union> set tk \<union> set (pend_used d)" by (simp add: pu)
  then obtain r where r: "r \<in> set fl" "bd (fst r)" "req_head r = h" using pend_member [OF I] by blast
  obtain b i1 i2 where b: "r = (b, h, i1, i2)" using r(3) by (cases r) auto
  obtain fl1 fl2 where fl: "fl = fl1 @ r # fl2" using r(1) by (auto simp: in_set_conv_decomp)
  have d: "fst r \<notin> set (map fst fl1)" "fst r \<notin> set (map fst fl2)" using I by (auto simp: vinv_def fl)
  have "filter (\<lambda>r. (bd(b := False)) (fst r)) fl = filter (\<lambda>r. bd (fst r)) fl1 @ filter (\<lambda>r. bd (fst r)) fl2"
    using d by (auto simp: fl b intro!: arg_cong2 [of _ _ _ _ append] filter_cong)
  moreover have "mset (pend_avail d dev) + mset tk + add_mset h (mset (pend_used ?e)) = mset (map req_head (filter (\<lambda>r. bd (fst r)) fl))"
    using I pu by (simp add: vinv_def)
  then have "mset (pend_avail d dev) + mset tk + mset (pend_used ?e) = mset (map req_head (filter (\<lambda>r. bd (fst r)) fl1 @ filter (\<lambda>r. bd (fst r)) fl2))"
    using r by (simp add: fl)
  moreover have "chain_ok ?e r \<longleftrightarrow> chain_ok d r" for r by (cases r) simp
  moreover have "pend_avail ?e dev = pend_avail d dev" by (simp add: pend_avail_def)
  ultimately have "vinv ?e (bd(b := False)) fl dev tk" using I pu by (auto simp: vinv_def)
  moreover have "h < NUM" using I req_head_descs [OF r(1)] r(3) by (simp add: vinv_def)
  moreover have "info_status d h = 0" using I pu by (simp add: vinv_def)
  moreover have "info_b d h = Some b" using I r(1) b by (auto simp: vinv_def)
  ultimately show thesis using that by blast
qed

lemma vinv_finish:
  assumes I: "vinv d bd (fl1 @ (b, i0, i1, i2) # fl2) dev tk" and "\<not> bd b"
    and e: "\<And>i. i \<notin> {i0, i1, i2} \<Longrightarrow> vdesc e i = vdesc d i" "\<And>i. i \<noteq> i0 \<Longrightarrow> info_b e i = info_b d i"
      "\<And>i. vfree e i \<longleftrightarrow> vfree d i \<or> i \<in> {i0, i1, i2}"
      "avail_ring e = avail_ring d" "avail_idx e = avail_idx d"
      "used_ring e = used_ring d" "used_idx e = used_idx d" "used_dev_idx e = used_dev_idx d" "info_status e = info_status d"
  shows "vinv e bd (fl1 @ fl2) dev tk"
proof -
  have p: "pend_avail e dev = pend_avail d dev" "pend_used e = pend_used d" by (simp_all add: pend_avail_def pend_used_def e)
  have u: "{i0, i1, i2} \<inter> set (descs (fl1 @ fl2)) = {}" using I by (auto simp: vinv_def)
  have "chain_ok e r" if "r \<in> set (fl1 @ fl2)" for r
  proof (rule chains_cong [of "fl1 @ fl2" d e r])
    show "chain_ok d r" if "r \<in> set (fl1 @ fl2)" for r using I that by (auto simp: vinv_def)
    show "vdesc e i = vdesc d i \<and> info_b e i = info_b d i" if "i \<in> set (descs (fl1 @ fl2))" for i
      using u that e(1) [of i] e(2) [of i] by blast
  qed (rule that)
  then show ?thesis using I assms(2) by (auto simp: vinv_def e p simp del: chain_ok.simps)
qed

section \<open>The routines of the driver\<close>

definition free_one :: "nat \<Rightarrow> vdisk_t \<Rightarrow> vdisk_t" where
  "free_one i d = (upd_desc i (\<lambda>_. null_desc) d)\<lparr>vfree := (vfree d)(i := True)\<rparr>"

lemma free_one_simps [simp]:
  "vdesc (free_one i d) j = (if j = i then null_desc else vdesc d j)" "vfree (free_one i d) j \<longleftrightarrow> j = i \<or> vfree d j"
  "avail_ring (free_one i d) = avail_ring d" "avail_idx (free_one i d) = avail_idx d" "used_ring (free_one i d) = used_ring d"
  "used_idx (free_one i d) = used_idx d" "used_dev_idx (free_one i d) = used_dev_idx d" "info_status (free_one i d) = info_status d"
  "info_b (free_one i d) = info_b d"
  by (simp_all add: free_one_def upd_desc_def)

lemma free_desc_Ret:
  assumes "no_proc_lock s" "i < NUM" "\<not> vfree (vd s) i"
  shows "\<exists>ps. free_desc i s = Ret () (s\<lparr>vd := free_one i (vd s), procs := ps\<rparr>)"
proof -
  have "wakeup (Some ChanDiskFree) (upd_vd (free_one i) s)
      = Ret () (upd_vd (free_one i) s\<lparr>procs := woken (Some ChanDiskFree) (myproc (upd_vd (free_one i) s)) (procs s)\<rparr>)"
    using assms(1) by (subst wakeup_Ret) (simp_all add: upd_vd_def no_proc_lock_def)
  then show ?thesis using assms(2,3) by (simp add: free_desc_def free_one_def upd_vd_def) blast
qed

lemma free_chain_Ret:
  assumes "no_proc_lock s" "distinct [i0, i1, i2]" "\<And>i. i \<in> {i0, i1, i2} \<Longrightarrow> i < NUM \<and> \<not> vfree (vd s) i"
    and "vq_flags (vdesc (vd s) i0) AND VRING_DESC_F_NEXT \<noteq> 0" "unat (vq_next (vdesc (vd s) i0)) = i1"
    and "vq_flags (vdesc (vd s) i1) AND VRING_DESC_F_NEXT \<noteq> 0" "unat (vq_next (vdesc (vd s) i1)) = i2"
    and "vq_flags (vdesc (vd s) i2) AND VRING_DESC_F_NEXT = 0"
  shows "\<exists>ps. free_chain i0 s = Ret () (s\<lparr>vd := free_one i2 (free_one i1 (free_one i0 (vd s))), procs := ps\<rparr>)"
proof -
  let ?d = "vd s"
  obtain ps0 where f0: "free_desc i0 s = Ret () (s\<lparr>vd := free_one i0 ?d, procs := ps0\<rparr>)" (is "_ = Ret () ?s0")
    using free_desc_Ret [of s i0] assms(1,3) by auto
  obtain ps1 where f1: "free_desc i1 ?s0 = Ret () (?s0\<lparr>vd := free_one i1 (free_one i0 ?d), procs := ps1\<rparr>)" (is "_ = Ret () ?s1")
    using free_desc_Ret [of ?s0 i1] assms(1,2,3) by (auto simp: no_proc_lock_def)
  obtain ps2 where f2: "free_desc i2 ?s1 = Ret () (?s1\<lparr>vd := free_one i2 (free_one i1 (free_one i0 ?d)), procs := ps2\<rparr>)"
    using free_desc_Ret [of ?s1 i2] assms(1,2,3) by (auto simp: no_proc_lock_def)
  show ?thesis
    using assms(2,4-8) f0 f1 f2 by (auto simp: free_chain_def NUM_def eval_nat_numeral Let_def)
qed

text \<open>
  Allocation: three descriptors that were free, or none and every descriptor as it was, up to the
  contents of free ones.
\<close>

definition same_used :: "vdisk_t \<Rightarrow> vdisk_t \<Rightarrow> bool" where
  "same_used d e \<longleftrightarrow> (\<forall>i. \<not> vfree d i \<longrightarrow> vdesc e i = vdesc d i) \<and> avail_ring e = avail_ring d \<and> avail_idx e = avail_idx d \<and>
     used_ring e = used_ring d \<and> used_idx e = used_idx d \<and> used_dev_idx e = used_dev_idx d \<and> info_b e = info_b d \<and>
     info_status e = info_status d"

lemma same_used_vinv:
  assumes "vinv d bd fl dev tk" "same_used d e" "vfree e = vfree d"
  shows "vinv e bd fl dev tk"
proof -
  have "chain_ok e r" if "r \<in> set fl" for r
    by (rule chains_cong [of fl d e r]) (use assms that in \<open>auto simp: vinv_def same_used_def simp del: chain_ok.simps\<close>)
  then show ?thesis using assms by (auto simp: vinv_def same_used_def pend_avail_def pend_used_def)
qed

lemma free_all_Ret:
  assumes "no_proc_lock s" "distinct ids" "\<And>i. i \<in> set ids \<Longrightarrow> i < NUM \<and> \<not> vfree (vd s) i"
  shows "\<exists>ps. for_loop (\<lambda>j s. res_bind (free_desc j s) (\<lambda>_ s. Ret (None :: unit option) s)) ids s
     = Ret None (s\<lparr>vd := fold free_one ids (vd s), procs := ps\<rparr>)"
  using assms
proof (induction ids arbitrary: s)
  case Nil
  show ?case by (intro exI [of _ "procs s"]) simp
next
  case (Cons i ids)
  obtain ps where f: "free_desc i s = Ret () (s\<lparr>vd := free_one i (vd s), procs := ps\<rparr>)" (is "_ = Ret () ?t")
    using free_desc_Ret [of s i] Cons.prems by auto
  have "\<exists>qs. for_loop (\<lambda>j s. res_bind (free_desc j s) (\<lambda>_ s. Ret (None :: unit option) s)) ids ?t
      = Ret None (?t\<lparr>vd := fold free_one ids (vd ?t), procs := qs\<rparr>)"
    using Cons.prems by (intro Cons.IH) (auto simp: no_proc_lock_def)
  then show ?case using f by auto
qed

lemma fold_free_one:
  "vfree (fold free_one ids d) i \<longleftrightarrow> i \<in> set ids \<or> vfree d i"
  "(\<And>i. i \<in> set ids \<Longrightarrow> vfree c i) \<Longrightarrow> same_used c d \<Longrightarrow> same_used c (fold free_one ids d)"
proof (induction ids arbitrary: d)
  case (Cons j ids)
  { case 1 show ?case using Cons by auto }
  { case 2 show ?case using 2 Cons(2) [of "free_one j d"] by (auto simp: same_used_def) }
qed simp_all

lemma same_used_refl [simp]: "same_used d (d\<lparr>vfree := f\<rparr>)" "same_used d (d\<lparr>mmio := m\<rparr>)"
  by (simp_all add: same_used_def)

lemma alloc3_loop_result:
  assumes "no_proc_lock s" "distinct ids" "\<And>i. i \<in> set ids \<Longrightarrow> i < NUM \<and> vfree d i"
    and "vd s = d\<lparr>vfree := \<lambda>i. vfree d i \<and> i \<notin> set ids\<rparr>"
  shows "(\<exists>ids'. alloc3_loop n ids s = Ret (Some ids') (s\<lparr>vd := d\<lparr>vfree := \<lambda>i. vfree d i \<and> i \<notin> set ids'\<rparr>\<rparr>) \<and> distinct ids' \<and>
      length ids' = length ids + n \<and> (\<forall>i \<in> set ids'. i < NUM \<and> vfree d i)) \<or>
    (\<exists>e ps. alloc3_loop n ids s = Ret None (s\<lparr>vd := e, procs := ps\<rparr>) \<and> same_used d e \<and> vfree e = vfree d)"
  using assms
proof (induction n arbitrary: ids s)
  case 0
  then show ?case by (intro disjI1 exI [of _ ids]) simp
next
  case (Suc n)
  show ?case
  proof (cases "List.find (vfree (vd s)) [0..<NUM]")
    case None
    obtain ps where ps: "for_loop (\<lambda>j s. res_bind (free_desc j s) (\<lambda>_ s. Ret (None :: unit option) s)) ids s
        = Ret None (s\<lparr>vd := fold free_one ids (vd s), procs := ps\<rparr>)"
      using free_all_Ret [of s ids] Suc.prems by auto
    moreover have "same_used d (fold free_one ids (vd s))" using Suc.prems(3,4) by (intro fold_free_one(2)) auto
    moreover have "vfree (fold free_one ids (vd s)) = vfree d" using Suc.prems(3,4) by (auto simp: fun_eq_iff fold_free_one(1))
    ultimately show ?thesis using None by (intro disjI2) (auto simp: alloc_desc_def)
  next
    case (Some i)
    then have i: "i < NUM" "vfree d i" "i \<notin> set ids" using Suc.prems(4) by (auto simp: find_Some_iff)
    let ?s = "upd_vd (\<lambda>d. d\<lparr>vfree := (vfree d)(i := False)\<rparr>) s"
    have v: "vd ?s = d\<lparr>vfree := \<lambda>j. vfree d j \<and> j \<notin> set (ids @ [i])\<rparr>" using Suc.prems(4) by (auto simp: upd_vd_def fun_eq_iff)
    have "(\<exists>ids'. alloc3_loop n (ids @ [i]) ?s = Ret (Some ids') (?s\<lparr>vd := d\<lparr>vfree := \<lambda>i. vfree d i \<and> i \<notin> set ids'\<rparr>\<rparr>) \<and> distinct ids' \<and>
      length ids' = length (ids @ [i]) + n \<and> (\<forall>i \<in> set ids'. i < NUM \<and> vfree d i)) \<or>
     (\<exists>e ps. alloc3_loop n (ids @ [i]) ?s = Ret None (?s\<lparr>vd := e, procs := ps\<rparr>) \<and> same_used d e \<and> vfree e = vfree d)"
      using Suc.prems i v by (intro Suc.IH) (auto simp: no_proc_lock_def upd_vd_def)
    moreover have "alloc3_loop (Suc n) ids s = alloc3_loop n (ids @ [i]) ?s" using Some by (simp add: alloc_desc_def)
    ultimately show ?thesis by (simp add: upd_vd_def)
  qed
qed

lemma alloc3_desc_result:
  assumes "no_proc_lock s"
  shows "(\<exists>ids. alloc3_desc s = Ret (Some ids) (s\<lparr>vd := (vd s)\<lparr>vfree := \<lambda>i. vfree (vd s) i \<and> i \<notin> set ids\<rparr>\<rparr>) \<and> distinct ids \<and>
      (\<forall>i \<in> set ids. i < NUM \<and> vfree (vd s) i)) \<or>
    (\<exists>e ps. alloc3_desc s = Ret None (s\<lparr>vd := e, procs := ps\<rparr>) \<and> same_used (vd s) e \<and> vfree e = vfree (vd s))"
proof -
  have "vd s = (vd s)\<lparr>vfree := \<lambda>i. vfree (vd s) i \<and> i \<notin> set []\<rparr>" by simp
  note r = alloc3_loop_result [OF assms _ _ this, of 3]
  have "distinct ([] :: nat list)" "\<And>i. i \<in> set [] \<Longrightarrow> i < NUM \<and> vfree (vd s) i" by simp_all
  from r [OF this] show ?thesis unfolding alloc3_desc_def by blast
qed

lemma alloc3_desc_Some:
  assumes "no_proc_lock s" "alloc3_desc s = Ret (Some [i0, i1, i2]) u"
  shows "distinct [i0, i1, i2]" "\<And>i. i \<in> {i0, i1, i2} \<Longrightarrow> i < NUM \<and> vfree (vd s) i"
    "u = s\<lparr>vd := (vd s)\<lparr>vfree := \<lambda>i. vfree (vd s) i \<and> i \<notin> {i0, i1, i2}\<rparr>\<rparr>"
proof -
  have "distinct [i0, i1, i2] \<and> (\<forall>i \<in> set [i0, i1, i2]. i < NUM \<and> vfree (vd s) i) \<and>
      u = s\<lparr>vd := (vd s)\<lparr>vfree := \<lambda>i. vfree (vd s) i \<and> i \<notin> set [i0, i1, i2]\<rparr>\<rparr>"
    using alloc3_desc_result [OF assms(1)] unfolding assms(2) res.inject option.inject by blast
  then show "distinct [i0, i1, i2]" "\<And>i. i \<in> {i0, i1, i2} \<Longrightarrow> i < NUM \<and> vfree (vd s) i"
    "u = s\<lparr>vd := (vd s)\<lparr>vfree := \<lambda>i. vfree (vd s) i \<and> i \<notin> {i0, i1, i2}\<rparr>\<rparr>" by auto
qed

lemma alloc3_desc_None:
  assumes "no_proc_lock s" "alloc3_desc s = Ret None u"
  obtains e ps where "u = s\<lparr>vd := e, procs := ps\<rparr>" "same_used (vd s) e" "vfree e = vfree (vd s)"
  using alloc3_desc_result [OF assms(1)] that unfolding assms(2) res.inject by blast

section \<open>The system\<close>

abbreviation bdisk :: "'z bstate_scheme \<Rightarrow> nat \<Rightarrow> bool" where
  "bdisk s \<equiv> \<lambda>b. b_disk (bufs s b)"

lemma sleep_Swtch_vd:
  assumes "myproc s = Some p" "held s = [VdiskLock]" "sleep ch VdiskLock s = Swtch t"
  shows "vd t = vd s" "bdisk t = bdisk s"
  using sleep_Swtch [OF assms(1,2), of ch] assms(3) by auto

lemma upd_vd_simps [simp]:
  "vd (upd_vd f s) = f (vd s)" "bufs (upd_vd f s) = bufs s" "held (upd_vd f s) = held s" "myproc (upd_vd f s) = myproc s"
  "vd (upd_buf b g s) = vd s" "held (upd_buf b g s) = held s" "myproc (upd_buf b g s) = myproc s"
  "bufs (upd_buf b g s) = (bufs s)(b := g (bufs s b))"
  by (simp_all add: upd_vd_def upd_buf_def myproc_def cpuid_def)

lemma virtio_request_fields:
  fixes u :: "'z vdstate_scheme" and b i0 i1 i2 :: nat and w :: bool
  defines "t \<equiv> virtio_request b w i0 i1 i2 u"
  shows "vdesc (vd t) = (vdesc (vd u))(i0 := \<lparr>vq_addr = OpAddr i0, vq_len = 16, vq_flags = VRING_DESC_F_NEXT, vq_next = of_nat i1\<rparr>,
      i1 := \<lparr>vq_addr = DataAddr b, vq_len = of_nat BSIZE, vq_flags = (if w then 0 else VRING_DESC_F_WRITE) OR VRING_DESC_F_NEXT, vq_next = of_nat i2\<rparr>,
      i2 := \<lparr>vq_addr = StatusAddr i0, vq_len = 1, vq_flags = VRING_DESC_F_WRITE, vq_next = 0\<rparr>)"
    "info_b (vd t) = (info_b (vd u))(i0 := Some b)" "info_status (vd t) = (info_status (vd u))(i0 := 0xff)" "vfree (vd t) = vfree (vd u)"
    "avail_ring (vd t) = queue_push (avail_ring (vd u)) (avail_idx (vd u)) (of_nat i0)" "avail_idx (vd t) = avail_idx (vd u) + 1"
    "used_ring (vd t) = used_ring (vd u)" "used_idx (vd t) = used_idx (vd u)" "used_dev_idx (vd t) = used_dev_idx (vd u)"
    "bdisk t = (bdisk u)(b := True)" "held t = held u" "myproc t = myproc u"
  unfolding t_def virtio_request_def Let_def mmio_write_def upd_desc_def queue_push_def by (simp_all add: fun_eq_iff)

lemma virtio_request_vinv:
  fixes w :: bool
  assumes I: "vinv (vd s) (bdisk s) fl dev tk" and new: "distinct [i0, i1, i2]" "\<And>i. i \<in> {i0, i1, i2} \<Longrightarrow> i < NUM \<and> vfree (vd s) i"
    "b \<notin> fst ` set fl" and u: "u = s\<lparr>vd := (vd s)\<lparr>vfree := \<lambda>i. vfree (vd s) i \<and> i \<notin> {i0, i1, i2}\<rparr>\<rparr>"
  defines "t \<equiv> virtio_request b w i0 i1 i2 u"
  shows "vinv (vd t) (bdisk t) ((b, i0, i1, i2) # fl) dev tk" "b_disk (bufs t b)" "held t = held s" "myproc t = myproc s"
proof -
  note f = virtio_request_fields [of b w i0 i1 i2 u, folded t_def]
  have "i1 < 8" "i2 < 8" using new(2) [of i1] new(2) [of i2] by (simp_all add: NUM_def)
  then have n: "unat (of_nat i1 :: ushort) = i1" "unat (of_nat i2 :: ushort) = i2" by (simp_all add: unat_of_nat)
  have c: "chain_ok (vd t) (b, i0, i1, i2)"
    using new(1) n by (simp add: f(1,2)) (simp add: VRING_DESC_F_NEXT_def VRING_DESC_F_WRITE_def)
  have "bdisk u = bdisk s" by (simp add: u)
  then have bd: "bdisk t = (bdisk s)(b := True)" by (simp only: f(10))
  show "vinv (vd t) (bdisk t) ((b, i0, i1, i2) # fl) dev tk"
    unfolding bd by (rule vinv_submit [OF I new c]) (simp_all add: f(1-9) u)
  show "b_disk (bufs t b)" using fun_cong [OF bd, of b] by simp
  show "held t = held s" "myproc t = myproc s" by (simp_all add: f(11,12)) (simp_all add: u myproc_def cpuid_def)
qed

lemma rw_loop_vinv:
  assumes I: "vinv (vd s) (bdisk s) fl dev tk" and s: "held s = [VdiskLock]" "myproc s = Some p" "b \<notin> fst ` set fl"
    and t: "virtio_disk_rw_loop b w s = Swtch t"
  shows "alloc3_desc s = Ret (Some [i0, i1, i2]) u \<Longrightarrow> vinv (vd t) (bdisk t) ((b, i0, i1, i2) # fl) dev tk"
    "alloc3_desc s = Ret None u \<Longrightarrow> vinv (vd t) (bdisk t) fl dev tk"
proof -
  have np: "no_proc_lock s" using s by (simp add: no_proc_lock_def)
  {
    assume a: "alloc3_desc s = Ret (Some [i0, i1, i2]) u"
    note r = virtio_request_vinv [OF I alloc3_desc_Some(1,2) [OF np a] s(3) alloc3_desc_Some(3) [OF np a], of w]
    have "sleep (Some (ChanBuf b)) VdiskLock (virtio_request b w i0 i1 i2 u) = Swtch t"
      using t a r(2) by (simp add: virtio_disk_rw_loop_def virtio_wait_def)
    then have "vd t = vd (virtio_request b w i0 i1 i2 u)" "bdisk t = bdisk (virtio_request b w i0 i1 i2 u)"
      using sleep_Swtch_vd [where p = p] r(3,4) s(1,2) by auto
    then show "vinv (vd t) (bdisk t) ((b, i0, i1, i2) # fl) dev tk" using r(1) by simp
  next
    assume a: "alloc3_desc s = Ret None u"
    then obtain e ps where u: "u = s\<lparr>vd := e, procs := ps\<rparr>" "same_used (vd s) e" "vfree e = vfree (vd s)" using alloc3_desc_None [OF np] by blast
    have "sleep (Some ChanDiskFree) VdiskLock u = Swtch t" using t a by (simp add: virtio_disk_rw_loop_def)
    moreover have "myproc u = Some p" "held u = [VdiskLock]" using s u(1) by (simp_all add: myproc_def cpuid_def)
    ultimately have "vd t = vd u" "bdisk t = bdisk u" using sleep_Swtch_vd [where p = p] by auto
    then show "vinv (vd t) (bdisk t) fl dev tk" using same_used_vinv [OF I u(2,3)] u(1) by simp
  }
qed

lemma intr_loop_vinv:
  assumes "vinv (vd s) (bdisk s) fl dev tk" "no_proc_lock s" "k = unat (used_dev_idx (vd s) - used_idx (vd s))"
  shows "\<exists>t. virtio_intr_loop k s = Ret () t \<and> vinv (vd t) (bdisk t) fl dev tk \<and> held t = held s"
  using assms
proof (induction k arbitrary: s)
  case (Suc k)
  then have ne: "used_idx (vd s) \<noteq> used_dev_idx (vd s)" by auto
  let ?h = "unat (used_ring (vd s) (unat (used_idx (vd s)) mod NUM))"
  obtain b where b: "?h < NUM" "info_status (vd s) ?h = 0" "info_b (vd s) ?h = Some b"
      "vinv ((vd s)\<lparr>used_idx := used_idx (vd s) + 1\<rparr>) ((bdisk s)(b := False)) fl dev tk"
    by (rule vinv_intr [OF Suc.prems(1) ne])
  let ?s = "upd_buf b (\<lambda>q. q\<lparr>b_disk := False\<rparr>) s"
  let ?t = "upd_vd (\<lambda>d. d\<lparr>used_idx := used_idx d + 1\<rparr>) (?s\<lparr>procs := woken (Some (ChanBuf b)) (myproc ?s) (procs ?s)\<rparr>)"
  have "wakeup (Some (ChanBuf b)) ?s = Ret () (?s\<lparr>procs := woken (Some (ChanBuf b)) (myproc ?s) (procs ?s)\<rparr>)"
    using Suc.prems(2) by (intro wakeup_Ret) (simp add: no_proc_lock_def upd_buf_def)
  then have step: "virtio_intr_loop (Suc k) s = virtio_intr_loop k ?t" using b by (simp add: Let_def)
  have "k = unat (used_dev_idx (vd s) - (used_idx (vd s) + 1))" using Suc.prems(3) unat_pred_diff [OF ne [symmetric]] by simp
  moreover have "bdisk ?t = (bdisk s)(b := False)" by (simp add: upd_vd_def upd_buf_def fun_eq_iff)
  ultimately have "\<exists>v. virtio_intr_loop k ?t = Ret () v \<and> vinv (vd v) (bdisk v) fl dev tk \<and> held v = held ?t"
    using b(4) Suc.prems(2) by (intro Suc.IH) (simp_all add: upd_vd_def upd_buf_def no_proc_lock_def)
  then show ?case using step by (simp add: upd_vd_def upd_buf_def)
qed simp

lemma intr_vinv:
  assumes "vinv (vd s) (bdisk s) fl dev tk" "no_proc_lock s" "VdiskLock \<notin> set (held s)"
  shows "\<exists>t. virtio_disk_intr R s = Ret () t \<and> vinv (vd t) (bdisk t) fl dev tk"
proof -
  let ?s = "mmio_write 0x064 (R 0x060 AND 3) (s\<lparr>held := VdiskLock # held s\<rparr>)"
  have v: "vd ?s = (vd s)\<lparr>mmio := (0x064, R 0x060 AND 3) # mmio (vd s)\<rparr>" "bdisk ?s = bdisk s" "held ?s = VdiskLock # held s"
    by (simp_all add: mmio_write_def)
  have "vinv (vd ?s) (bdisk ?s) fl dev tk" unfolding v by (rule same_used_vinv [OF assms(1)]) simp_all
  then have "\<exists>t. virtio_intr_loop (unat (used_dev_idx (vd ?s) - used_idx (vd ?s))) ?s = Ret () t \<and> vinv (vd t) (bdisk t) fl dev tk \<and> held t = held ?s"
    using assms(2) by (intro intr_loop_vinv) (simp_all add: no_proc_lock_def v(3))
  then obtain t where t: "virtio_intr_loop (unat (used_dev_idx (vd s) - used_idx (vd s))) ?s = Ret () t" "vinv (vd t) (bdisk t) fl dev tk"
      "held t = VdiskLock # held s"
    by (auto simp: v)
  then have "virtio_disk_intr R s = Ret () (t\<lparr>held := held s\<rparr>)" using assms(3) by (simp add: virtio_disk_intr_def lock_simps)
  then show ?thesis using t(2) by simp
qed

lemma wait_vinv:
  assumes I: "vinv (vd s) (bdisk s) (fl1 @ (b, i0, i1, i2) # fl2) dev tk" and s: "held s = [ProcLock p]" "myproc s = Some p"
  shows "if b_disk (bufs s b)
     then \<exists>t. virtio_wait_resume p b i0 s = Swtch t \<and> vinv (vd t) (bdisk t) (fl1 @ (b, i0, i1, i2) # fl2) dev tk
     else \<exists>t. virtio_wait_resume p b i0 s = Ret () t \<and> vinv (vd t) (bdisk t) (fl1 @ fl2) dev tk"
proof -
  define u where "u = s\<lparr>held := [VdiskLock], ien := kintena (procs s p), procs := (procs s)(p := (procs s p)\<lparr>pchan := None\<rparr>)\<rparr>"
  have r: "virtio_wait_resume p b i0 s = virtio_wait b i0 u"
    using sleep_resume_Ret [OF s(1), of VdiskLock] by (simp add: virtio_wait_resume_def u_def)
  have u: "vd u = vd s" "bufs u = bufs s" "held u = [VdiskLock]" "myproc u = Some p" using s(2) by (simp_all add: u_def myproc_def cpuid_def)
  show ?thesis
  proof (cases "b_disk (bufs s b)")
    case True
    then have "virtio_wait b i0 u = sleep (Some (ChanBuf b)) VdiskLock u" by (simp add: virtio_wait_def u)
    moreover obtain t where "sleep (Some (ChanBuf b)) VdiskLock u = Swtch t" using sleep_Swtch [OF u(4,3)] by blast
    moreover from this have "vd t = vd s" "bdisk t = bdisk s" using sleep_Swtch_vd [OF u(4,3)] u by auto
    ultimately show ?thesis using True I r by auto
  next
    case False
    let ?v = "upd_vd (\<lambda>d. d\<lparr>info_b := (info_b d)(i0 := None)\<rparr>) u"
    have np: "no_proc_lock ?v" by (simp add: no_proc_lock_def u)
    have c: "chain_ok (vd s) (b, i0, i1, i2)" and d: "distinct [i0, i1, i2]" and m: "\<And>i. i \<in> {i0, i1, i2} \<Longrightarrow> i < NUM \<and> \<not> vfree (vd s) i"
      using I by (auto simp: vinv_def)
    obtain ps where f: "free_chain i0 ?v = Ret () (?v\<lparr>vd := free_one i2 (free_one i1 (free_one i0 (vd ?v))), procs := ps\<rparr>)" (is "_ = Ret () ?w")
      using free_chain_Ret [OF np d] c m u(1) by auto
    have w: "virtio_wait b i0 u = Ret () (?w\<lparr>held := []\<rparr>)" using False f by (simp add: virtio_wait_def u lock_simps)
    have "vinv (vd ?w) (bdisk ?w) (fl1 @ fl2) dev tk"
    proof -
      have "bdisk ?w = bdisk s" by (simp add: u)
      moreover have "vinv (vd ?w) (bdisk s) (fl1 @ fl2) dev tk"
        by (rule vinv_finish [OF I False]) (auto simp: u)
      ultimately show ?thesis by (simp only:)
    qed
    then show ?thesis using False w r by auto
  qed
qed

text \<open>
  The kernel, the requests in flight, and the device. Between the steps of the driver any other code
  may run, which leaves the queue and the flags \<^verbatim>\<open>b->disk\<close> alone; a buffer under a request is locked, so
  no other request is made for it.
\<close>

record disksys =
  kst :: vdstate
  inflight :: "request list"
  dev_idx :: ushort
  taken :: "nat list"

inductive disk_step :: "disksys \<Rightarrow> disksys \<Rightarrow> bool" where
  submit: "held s = [] \<Longrightarrow> myproc s = Some p \<Longrightarrow> b \<notin> fst ` set fl \<Longrightarrow> virtio_disk_rw b w s = Swtch t \<Longrightarrow>
     alloc3_desc (s\<lparr>held := [VdiskLock]\<rparr>) = Ret (Some [i0, i1, i2]) u \<Longrightarrow>
     disk_step \<lparr>kst = s, inflight = fl, dev_idx = dev, taken = tk\<rparr> \<lparr>kst = t, inflight = (b, i0, i1, i2) # fl, dev_idx = dev, taken = tk\<rparr>"
| no_desc: "held s = [] \<Longrightarrow> myproc s = Some p \<Longrightarrow> b \<notin> fst ` set fl \<Longrightarrow> virtio_disk_rw b w s = Swtch t \<Longrightarrow>
     alloc3_desc (s\<lparr>held := [VdiskLock]\<rparr>) = Ret None u \<Longrightarrow>
     disk_step \<lparr>kst = s, inflight = fl, dev_idx = dev, taken = tk\<rparr> \<lparr>kst = t, inflight = fl, dev_idx = dev, taken = tk\<rparr>"
| submit_again: "held s = [ProcLock p] \<Longrightarrow> myproc s = Some p \<Longrightarrow> b \<notin> fst ` set fl \<Longrightarrow> virtio_disk_rw_resume p b w s = Swtch t \<Longrightarrow>
     sleep_resume p VdiskLock s = Ret () v \<Longrightarrow> alloc3_desc v = Ret (Some [i0, i1, i2]) u \<Longrightarrow>
     disk_step \<lparr>kst = s, inflight = fl, dev_idx = dev, taken = tk\<rparr> \<lparr>kst = t, inflight = (b, i0, i1, i2) # fl, dev_idx = dev, taken = tk\<rparr>"
| no_desc_again: "held s = [ProcLock p] \<Longrightarrow> myproc s = Some p \<Longrightarrow> b \<notin> fst ` set fl \<Longrightarrow> virtio_disk_rw_resume p b w s = Swtch t \<Longrightarrow>
     sleep_resume p VdiskLock s = Ret () v \<Longrightarrow> alloc3_desc v = Ret None u \<Longrightarrow>
     disk_step \<lparr>kst = s, inflight = fl, dev_idx = dev, taken = tk\<rparr> \<lparr>kst = t, inflight = fl, dev_idx = dev, taken = tk\<rparr>"
| finish: "held s = [ProcLock p] \<Longrightarrow> myproc s = Some p \<Longrightarrow> virtio_wait_resume p b i0 s = Ret () t \<Longrightarrow>
     disk_step \<lparr>kst = s, inflight = fl1 @ (b, i0, i1, i2) # fl2, dev_idx = dev, taken = tk\<rparr> \<lparr>kst = t, inflight = fl1 @ fl2, dev_idx = dev, taken = tk\<rparr>"
| wait_again: "held s = [ProcLock p] \<Longrightarrow> myproc s = Some p \<Longrightarrow> (b, i0, i1, i2) \<in> set fl \<Longrightarrow> virtio_wait_resume p b i0 s = Swtch t \<Longrightarrow>
     disk_step \<lparr>kst = s, inflight = fl, dev_idx = dev, taken = tk\<rparr> \<lparr>kst = t, inflight = fl, dev_idx = dev, taken = tk\<rparr>"
| intr: "no_proc_lock s \<Longrightarrow> VdiskLock \<notin> set (held s) \<Longrightarrow> virtio_disk_intr R s = Ret () t \<Longrightarrow>
     disk_step \<lparr>kst = s, inflight = fl, dev_idx = dev, taken = tk\<rparr> \<lparr>kst = t, inflight = fl, dev_idx = dev, taken = tk\<rparr>"
| device_take: "dev \<noteq> avail_idx (vd s) \<Longrightarrow>
     disk_step \<lparr>kst = s, inflight = fl, dev_idx = dev, taken = tk\<rparr>
       \<lparr>kst = s, inflight = fl, dev_idx = dev + 1, taken = unat (avail_ring (vd s) (unat dev mod NUM)) # tk\<rparr>"
| device_done: "disk_step \<lparr>kst = s, inflight = fl, dev_idx = dev, taken = tk1 @ h # tk2\<rparr>
       \<lparr>kst = upd_vd (\<lambda>d. d\<lparr>info_status := (info_status d)(h := 0), used_ring := queue_push (used_ring d) (used_dev_idx d) (of_nat h),
          used_dev_idx := used_dev_idx d + 1\<rparr>) s, inflight = fl, dev_idx = dev, taken = tk1 @ tk2\<rparr>"
| other: "vd t = vd s \<Longrightarrow> bdisk t = bdisk s \<Longrightarrow>
     disk_step \<lparr>kst = s, inflight = fl, dev_idx = dev, taken = tk\<rparr> \<lparr>kst = t, inflight = fl, dev_idx = dev, taken = tk\<rparr>"

text \<open>The driver and the device after \<^verbatim>\<open>virtio_disk_init\<close>.\<close>

inductive disk_reach :: "disksys \<Rightarrow> bool" where
  boot: "used_idx (vd s) = 0 \<Longrightarrow> disk_reach \<lparr>kst = virtio_disk_ready dp ap up st s, inflight = [], dev_idx = 0, taken = []\<rparr>"
| step: "disk_reach S \<Longrightarrow> disk_step S T \<Longrightarrow> disk_reach T"

definition sys_inv :: "disksys \<Rightarrow> bool" where
  "sys_inv S \<longleftrightarrow> vinv (vd (kst S)) (bdisk (kst S)) (inflight S) (dev_idx S) (taken S)"

lemma disk_step_inv: "disk_step S T \<Longrightarrow> sys_inv S \<Longrightarrow> sys_inv T"
proof (induction rule: disk_step.induct)
  case (submit s p b fl w t i0 i1 i2 u dev tk)
  let ?s = "s\<lparr>held := [VdiskLock]\<rparr>"
  have "virtio_disk_rw_loop b w ?s = Swtch t" using submit by (simp add: virtio_disk_rw_def lock_simps)
  then show ?case using rw_loop_vinv(1) [of ?s fl dev tk p b w t i0 i1 i2 u] submit by (simp add: sys_inv_def myproc_def cpuid_def)
next
  case (no_desc s p b fl w t u dev tk)
  let ?s = "s\<lparr>held := [VdiskLock]\<rparr>"
  have "virtio_disk_rw_loop b w ?s = Swtch t" using no_desc by (simp add: virtio_disk_rw_def lock_simps)
  then show ?case using rw_loop_vinv(2) [of ?s fl dev tk p b w t u] no_desc by (simp add: sys_inv_def myproc_def cpuid_def)
next
  case (submit_again s p b fl w t v i0 i1 i2 u dev tk)
  then have "virtio_disk_rw_loop b w v = Swtch t" "vd v = vd s" "bufs v = bufs s" "held v = [VdiskLock]" "myproc v = Some p"
    by (auto simp: virtio_disk_rw_resume_def sleep_resume_Ret myproc_def cpuid_def)
  then show ?case using rw_loop_vinv(1) [of v fl dev tk p b w t i0 i1 i2 u] submit_again by (simp add: sys_inv_def)
next
  case (no_desc_again s p b fl w t v u dev tk)
  then have "virtio_disk_rw_loop b w v = Swtch t" "vd v = vd s" "bufs v = bufs s" "held v = [VdiskLock]" "myproc v = Some p"
    by (auto simp: virtio_disk_rw_resume_def sleep_resume_Ret myproc_def cpuid_def)
  then show ?case using rw_loop_vinv(2) [of v fl dev tk p b w t u] no_desc_again by (simp add: sys_inv_def)
next
  case (finish s p b i0 t fl1 i1 i2 fl2 dev tk)
  then show ?case using wait_vinv [of s fl1 b i0 i1 i2 fl2 dev tk p] by (auto simp: sys_inv_def split: if_splits)
next
  case (wait_again s p b i0 i1 i2 fl t dev tk)
  then obtain fl1 fl2 where "fl = fl1 @ (b, i0, i1, i2) # fl2" by (auto simp: in_set_conv_decomp)
  then show ?case using wait_again wait_vinv [of s fl1 b i0 i1 i2 fl2 dev tk p] by (auto simp: sys_inv_def split: if_splits)
next
  case (intr s R t fl dev tk)
  then show ?case using intr_vinv [of s fl dev tk R] by (auto simp: sys_inv_def)
next
  case (device_take dev s fl tk)
  then show ?case by (simp add: sys_inv_def vinv_take)
next
  case (device_done s fl dev tk1 h tk2)
  then show ?case by (simp add: sys_inv_def vinv_complete)
qed (simp add: sys_inv_def)

lemma disk_reach_inv: "disk_reach S \<Longrightarrow> sys_inv S"
proof (induction rule: disk_reach.induct)
  case (boot s dp ap up st)
  then show ?case
    by (simp add: sys_inv_def vinv_def virtio_disk_ready_def Let_def mmio_write_def pend_avail_def pend_used_def)
qed (rule disk_step_inv)

text \<open>
  C7. The disk driver and the device never corrupt a request: in every state reachable by processes
  submitting and waiting, the device completing requests in any order, interrupts, and other code
  running in between, the descriptors of the requests in flight are pairwise different and are exactly
  those that are not free, so each of the eight is free or belongs to one request; each request still
  has its chain of three descriptors and its buffer in the tables; the interrupt handler returns, so it neither panics nor follows a null or stray buffer
  pointer; and a process that wakes up with its request done frees its three descriptors and returns.
\<close>

theorem disk_requests_safe:
  assumes "disk_reach S"
  shows "distinct (descs (inflight S)) \<and> {i. i < NUM \<and> \<not> vfree (vd (kst S)) i} = set (descs (inflight S)) \<and>
     (\<forall>r \<in> set (inflight S). chain_ok (vd (kst S)) r) \<and>
     card {i. i < NUM \<and> vfree (vd (kst S)) i} + 3 * length (inflight S) = NUM \<and>
     (no_proc_lock (kst S) \<and> VdiskLock \<notin> set (held (kst S)) \<longrightarrow> (\<exists>t. virtio_disk_intr R (kst S) = Ret () t)) \<and>
     (\<forall>b i0 i1 i2 p. (b, i0, i1, i2) \<in> set (inflight S) \<and> \<not> b_disk (bufs (kst S) b) \<and> held (kst S) = [ProcLock p] \<and> myproc (kst S) = Some p \<longrightarrow>
        (\<exists>t. virtio_wait_resume p b i0 (kst S) = Ret () t))"
proof -
  have I: "vinv (vd (kst S)) (bdisk (kst S)) (inflight S) (dev_idx S) (taken S)" using disk_reach_inv [OF assms] by (simp add: sys_inv_def)
  have "\<exists>t. virtio_wait_resume p b i0 (kst S) = Ret () t"
    if i: "(b, i0, i1, i2) \<in> set (inflight S)" "\<not> b_disk (bufs (kst S) b)" "held (kst S) = [ProcLock p]" "myproc (kst S) = Some p" for b i0 i1 i2 p
  proof -
    obtain fl1 fl2 where fl: "inflight S = fl1 @ (b, i0, i1, i2) # fl2" using split_list [OF i(1)] by blast
    show ?thesis using wait_vinv [OF I [unfolded fl] i(3,4)] i(2) by auto
  qed
  moreover have "\<exists>t. virtio_disk_intr R (kst S) = Ret () t" if "no_proc_lock (kst S)" "VdiskLock \<notin> set (held (kst S))"
    using intr_vinv [OF I that] by blast
  moreover have "distinct (descs (inflight S)) \<and> {i. i < NUM \<and> \<not> vfree (vd (kst S)) i} = set (descs (inflight S)) \<and>
     (\<forall>r \<in> set (inflight S). chain_ok (vd (kst S)) r)"
    using I by (auto simp: vinv_def simp del: chain_ok.simps)
  ultimately show ?thesis using vinv_count [OF I] by blast
qed

text \<open>A booted system in which process 0 has submitted a read of buffer 3.\<close>

definition booted_disk :: vdstate where
  "booted_disk = virtio_disk_ready 1 2 3 11 (flstate.extend blank_flstate \<lparr>vd = blank_vdisk\<rparr>)"

lemma booted_disk_simps:
  "held booted_disk = []" "myproc booted_disk = Some 0" "vfree (vd booted_disk) = (\<lambda>i. i < NUM)"
proof -
  let ?s = "flstate.extend blank_flstate \<lparr>vd = blank_vdisk\<rparr>"
  have "held ?s = []" "vd ?s = blank_vdisk" "myproc ?s = Some 0"
    using blank_flstate_simps by (simp_all add: flstate.defs myproc_def cpuid_def)
  then show "held booted_disk = []" "myproc booted_disk = Some 0" "vfree (vd booted_disk) = (\<lambda>i. i < NUM)"
    by (simp_all add: booted_disk_def virtio_disk_ready_def Let_def mmio_write_def blank_vdisk_def fun_eq_iff)
qed

lemma booted_submit:
  "\<exists>t. virtio_disk_rw 3 False booted_disk = Swtch t"
  "alloc3_desc (booted_disk\<lparr>held := [VdiskLock]\<rparr>) = Ret (Some [0, 1, 2])
     (booted_disk\<lparr>held := [VdiskLock], vd := (vd booted_disk)\<lparr>vfree := ((\<lambda>i. i < NUM)(0 := False))(1 := False, 2 := False)\<rparr>\<rparr>)" (is "_ = Ret _ ?u")
proof -
  show a: "alloc3_desc (booted_disk\<lparr>held := [VdiskLock]\<rparr>) = Ret (Some [0, 1, 2]) ?u"
    by (simp add: alloc3_desc_def eval_nat_numeral alloc_desc_def upd_vd_def booted_disk_simps NUM_def upt_rec)
  let ?r = "virtio_request 3 False 0 1 2 ?u"
  have "held ?r = [VdiskLock]" "myproc ?r = Some 0"
    using booted_disk_simps(2) by (simp_all add: virtio_request_fields(11,12)) (simp add: myproc_def cpuid_def)
  moreover have "b_disk (bufs ?r 3)" using fun_cong [OF virtio_request_fields(10), of 3 False 0 1 2 ?u 3] by simp
  ultimately have "\<exists>t. virtio_wait 3 0 ?r = Swtch t" using sleep_Swtch [of ?r 0 VdiskLock] by (simp add: virtio_wait_def)
  then show "\<exists>t. virtio_disk_rw 3 False booted_disk = Swtch t"
    using a by (simp add: virtio_disk_rw_def virtio_disk_rw_loop_def lock_simps booted_disk_simps)
qed

theorem disk_requests_safe_witness:
  "\<exists>S. disk_reach S \<and> inflight S = [(3, 0, 1, 2)] \<and> {i. i < NUM \<and> \<not> vfree (vd (kst S)) i} = {0, 1, 2} \<and>
     card {i. i < NUM \<and> vfree (vd (kst S)) i} = 5 \<and>
     (\<exists>t. virtio_disk_intr (\<lambda>_. 1) (kst S) = Ret () t)"
proof -
  obtain t where t: "virtio_disk_rw 3 False booted_disk = Swtch t" using booted_submit(1) by blast
  let ?S = "\<lparr>kst = t, inflight = [(3, 0, 1, 2)], dev_idx = 0, taken = []\<rparr>"
  let ?T = "\<lparr>kst = t\<lparr>held := []\<rparr>, inflight = [(3, 0, 1, 2)], dev_idx = 0, taken = []\<rparr>"
  have "disk_reach \<lparr>kst = booted_disk, inflight = [], dev_idx = 0, taken = []\<rparr>"
    unfolding booted_disk_def by (rule disk_reach.boot) (simp add: flstate.defs blank_vdisk_def)
  then have "disk_reach ?S"
    by (rule disk_reach.step) (use booted_disk_simps booted_submit(2) t in \<open>auto intro: disk_step.submit\<close>)
  then have "disk_reach ?T" by (rule disk_reach.step) (simp add: disk_step.other)
  then show ?thesis
    using disk_requests_safe [of ?T "\<lambda>_. 1"] by (intro exI [of _ ?T]) (simp add: NUM_def no_proc_lock_def)
qed

section \<open>What the block cache relies on\<close>

text \<open>
  The device is not part of the sources. Of the VirtIO standard the driver relies on this: a request
  of a header, one block of data and a status byte moves the block between the buffer and the disk,
  in the direction the header names, and stores 0 as its status. Sectors have half a block.
\<close>

definition moves_block :: "bool \<Rightarrow> nat \<Rightarrow> nat \<Rightarrow> uint \<Rightarrow> 'z vdstate_scheme \<Rightarrow> 'z vdstate_scheme \<Rightarrow> bool" where
  "moves_block write b j blk s t \<longleftrightarrow>
     disk t = (if write then (disk s)(blk := b_data (bufs s b)) else disk s) \<and>
     bufs t = (if write then bufs s else (bufs s)(b := (bufs s b)\<lparr>b_data := disk s blk\<rparr>)) \<and>
     info_status (vd t) j = 0"

definition virtio_blk_device :: "(nat \<Rightarrow> 'z vdstate_scheme \<Rightarrow> 'z vdstate_scheme) \<Rightarrow> bool" where
  "virtio_blk_device dev \<longleftrightarrow> (\<forall>s h k b j blk.
     let d0 = vdesc (vd s) h; d1 = vdesc (vd s) (unat (vq_next d0)); d2 = vdesc (vd s) (unat (vq_next d1)) in
     vq_addr d0 = OpAddr k \<and> vq_len d0 = 16 \<and> vq_flags d0 AND VRING_DESC_F_NEXT \<noteq> 0 \<and>
     vq_addr d1 = DataAddr b \<and> vq_len d1 = of_nat BSIZE \<and> vq_flags d1 AND VRING_DESC_F_NEXT \<noteq> 0 \<and>
     vq_addr d2 = StatusAddr j \<and> vq_len d2 = 1 \<and> vq_flags d2 = VRING_DESC_F_WRITE \<and>
     unat (rq_sector (vops (vd s) k)) = 2 * unat blk \<longrightarrow>
       (rq_type (vops (vd s) k) = VIRTIO_BLK_T_OUT \<and> vq_flags d1 AND VRING_DESC_F_WRITE = 0 \<longrightarrow> moves_block True b j blk s (dev h s)) \<and>
       (rq_type (vops (vd s) k) = VIRTIO_BLK_T_IN \<and> vq_flags d1 AND VRING_DESC_F_WRITE \<noteq> 0 \<longrightarrow> moves_block False b j blk s (dev h s)))"

lemma virtio_request_chain:
  fixes s :: "'z vdstate_scheme" and b i0 i1 i2 :: nat and w :: bool
  assumes "distinct [i0, i1, i2]"
  defines "d \<equiv> vd (virtio_request b w i0 i1 i2 s)"
  shows "vdesc d i0 = \<lparr>vq_addr = OpAddr i0, vq_len = 16, vq_flags = VRING_DESC_F_NEXT, vq_next = of_nat i1\<rparr>"
    "vdesc d i1 = \<lparr>vq_addr = DataAddr b, vq_len = of_nat BSIZE,
       vq_flags = (if w then 0 else VRING_DESC_F_WRITE) OR VRING_DESC_F_NEXT, vq_next = of_nat i2\<rparr>"
    "vdesc d i2 = \<lparr>vq_addr = StatusAddr i0, vq_len = 1, vq_flags = VRING_DESC_F_WRITE, vq_next = 0\<rparr>"
    "vops d i0 = \<lparr>rq_type = (if w then VIRTIO_BLK_T_OUT else VIRTIO_BLK_T_IN), rq_reserved = 0,
       rq_sector = ucast (b_blockno (bufs s b) * of_nat (BSIZE div 512))\<rparr>"
  using assms by (auto simp: virtio_request_def Let_def upd_vd_def upd_desc_def mmio_write_def upd_buf_def)

text \<open>
  A device that serves the request of \<^verbatim>\<open>virtio_disk_rw\<close> has the effect that the block cache uses; the
  flag \<^verbatim>\<open>b->disk\<close> stays set until the interrupt. Block numbers from \<open>2\<^sup>31\<close> on would wrap in the sector number.
\<close>

lemma device_serves_disk_rw:
  fixes s :: "'z vdstate_scheme" and b i0 i1 i2 :: nat and w :: bool
  assumes dev: "virtio_blk_device dev" and i: "distinct [i0, i1, i2]" "i1 < NUM" "i2 < NUM"
    and blk: "unat (b_blockno (bufs s b)) < 2 ^ 31"
  defines "t \<equiv> dev i0 (virtio_request b w i0 i1 i2 s)"
  shows "disk t = disk (disk_rw b w s)" "bufs t = bufs (upd_buf b (\<lambda>q. q\<lparr>b_disk := True\<rparr>) (disk_rw b w s))"
    "info_status (vd t) i0 = 0"
proof -
  let ?r = "virtio_request b w i0 i1 i2 s"
  note c = virtio_request_chain [OF i(1), of b w s]
  have n: "unat (of_nat i1 :: ushort) = i1" "unat (of_nat i2 :: ushort) = i2" using i by (simp_all add: NUM_def unat_of_nat)
  have "unat (rq_sector (vops (vd ?r) i0)) = 2 * unat (b_blockno (bufs s b))"
    using blk by (simp add: c BSIZE_def unat_word_ariths unsigned_ucast_eq take_bit_eq_mod)
  then have "moves_block w b i0 (b_blockno (bufs s b)) ?r t"
    using dev [unfolded virtio_blk_device_def, rule_format, of ?r i0 i0 b i0 "b_blockno (bufs s b)"] c n
    by (cases w) (simp_all add: t_def VRING_DESC_F_NEXT_def VRING_DESC_F_WRITE_def VIRTIO_BLK_T_IN_def VIRTIO_BLK_T_OUT_def)
  moreover have "disk ?r = disk s" "bufs ?r = (bufs s)(b := (bufs s b)\<lparr>b_disk := True\<rparr>)"
    by (simp_all add: virtio_request_def Let_def upd_vd_def mmio_write_def upd_buf_def)
  ultimately show "disk t = disk (disk_rw b w s)"
    "bufs t = bufs (upd_buf b (\<lambda>q. q\<lparr>b_disk := True\<rparr>) (disk_rw b w s))" "info_status (vd t) i0 = 0"
    by (auto simp: moves_block_def disk_rw_def upd_buf_def)
qed

end
