(* ===== verification/Reap.thy ===== *)
theory Reap
  imports Lifecycle
begin

text \<open>What \<^verbatim>\<open>wait\<close> of \<^verbatim>\<open>kernel/proc.c\<close> does in each situation, with the entry of a reaped child.\<close>

section \<open>Freeing an entry\<close>

text \<open>
  What \<^verbatim>\<open>wait\<close> relies on, for the memories \<open>ok\<close> it can meet: \<open>n\<close> bytes of the caller's memory at an
  address it gave can be written, or the address is 0; and once the trapframe page of a child is
  freed, so can be its page table.
\<close>

definition writable :: "vm_ops \<Rightarrow> (kmem \<Rightarrow> bool) \<Rightarrow> uint64 \<Rightarrow> uint64 \<Rightarrow> nat \<Rightarrow> bool" where
  "writable vm ok pt a n \<longleftrightarrow> a = 0 \<or>
     (\<forall>bs m. ok m \<and> length bs = n \<longrightarrow> (\<exists>m'. vm_copyout vm pt a bs m = Ret 0 m' \<and> ok m' \<and> kend m' = kend m))"

definition disposable :: "vm_ops \<Rightarrow> (kmem \<Rightarrow> bool) \<Rightarrow> proc \<Rightarrow> bool" where
  "disposable vm ok q \<longleftrightarrow> pagetable q = 0 \<or>
     (\<forall>m. ok m \<longrightarrow> (\<exists>m1 m2 m3.
        vm_uvmunmap vm (pagetable q) TRAMPOLINE 1 False (if trapframe q = 0 then m else freed (trapframe q) m) = Ret () m1 \<and>
        vm_uvmunmap vm (pagetable q) TRAPFRAME 1 False m1 = Ret () m2 \<and> vm_uvmfree vm (pagetable q) (sz q) m2 = Ret () m3))"

definition cleared :: "proc \<Rightarrow> proc" where
  "cleared q = q\<lparr>trapframe := 0, pagetable := 0, sz := 0, pid := 0, parent := None, pname := (pname q)[0 := 0],
     pchan := None, pkilled := 0, xstate := 0, pstate := UNUSED\<rparr>"

lemma freeproc_Ret:
  assumes "disposable vm ok (procs s q)" "ok (phys s)" "KmemLock \<notin> set (held s)"
    and "trapframe (procs s q) = 0 \<or> is_page (kend (phys s)) (trapframe (procs s q))"
  shows "\<exists>m. freeproc vm q s = Ret () (s\<lparr>phys := m, procs := (procs s)(q := cleared (procs s q))\<rparr>)"
proof -
  let ?m = "if trapframe (procs s q) = 0 then phys s else freed (trapframe (procs s q)) (phys s)"
  have m: "(if trapframe (procs s q) \<noteq> 0 then kfree (trapframe (procs s q)) s else Ret () s) = Ret () (s\<lparr>phys := ?m\<rparr>)"
    using assms(3,4) kfree_Ret [of s "trapframe (procs s q)"] by auto
  let ?s = "upd_proc q (\<lambda>q. q\<lparr>trapframe := 0\<rparr>) (s\<lparr>phys := ?m\<rparr>)"
  have s: "phys ?s = ?m" "pagetable (procs ?s q) = pagetable (procs s q)" "sz (procs ?s q) = sz (procs s q)"
    by (simp_all add: upd_proc_def)
  have "\<exists>n. (if pagetable (procs ?s q) \<noteq> 0 then proc_freepagetable vm (pagetable (procs ?s q)) (sz (procs ?s q)) ?s else Ret () ?s)
      = Ret () (?s\<lparr>phys := n\<rparr>)"
  proof (cases "pagetable (procs s q) = 0")
    case False
    then obtain m1 m2 m3 where "vm_uvmunmap vm (pagetable (procs s q)) TRAMPOLINE 1 False ?m = Ret () m1"
      "vm_uvmunmap vm (pagetable (procs s q)) TRAPFRAME 1 False m1 = Ret () m2"
      "vm_uvmfree vm (pagetable (procs s q)) (sz (procs s q)) m2 = Ret () m3"
      using assms(1,2) unfolding disposable_def by blast
    then show ?thesis using False s by (simp add: proc_freepagetable_def vm_run_def) blast
  qed (auto simp: s intro: exI [of _ ?m])
  then obtain n where n: "(if pagetable (procs ?s q) \<noteq> 0 then proc_freepagetable vm (pagetable (procs ?s q)) (sz (procs ?s q)) ?s else Ret () ?s)
      = Ret () (?s\<lparr>phys := n\<rparr>)" by blast
  show ?thesis unfolding freeproc_def m Let_def res_bind.simps n by (auto simp: upd_proc_def cleared_def)
qed

section \<open>The scan\<close>

definition kids :: "nat \<Rightarrow> (nat \<Rightarrow> proc) \<Rightarrow> nat list \<Rightarrow> nat list" where
  "kids p ps pps = filter (\<lambda>q. parent (ps q) = Some p) pps"

definition zombie_kid :: "nat \<Rightarrow> (nat \<Rightarrow> proc) \<Rightarrow> nat list \<Rightarrow> nat option" where
  "zombie_kid p ps pps = List.find (\<lambda>q. pstate (ps q) = ZOMBIE) (kids p ps pps)"

lemma kids_simps [simp]:
  "kids p ps [] = []" "kids p ps (q # pps) = (if parent (ps q) = Some p then q # kids p ps pps else kids p ps pps)"
  "zombie_kid p ps [] = None"
  "zombie_kid p ps (q # pps) = (if parent (ps q) = Some p \<and> pstate (ps q) = ZOMBIE then Some q else zombie_kid p ps pps)"
  by (simp_all add: kids_def zombie_kid_def)

lemma copy_opt_Ret:
  assumes "writable vm ok pt a (length bs)" "ok (phys s)"
  shows "\<exists>m. (if a \<noteq> 0 then vm_run (vm_copyout vm pt a bs) s else Ret 0 s) = Ret 0 (s\<lparr>phys := m\<rparr>) \<and> ok m \<and> kend m = kend (phys s)"
proof (cases "a = 0")
  case False
  then obtain m where "vm_copyout vm pt a bs (phys s) = Ret 0 m" "ok m" "kend m = kend (phys s)"
    using assms unfolding writable_def by blast
  then show ?thesis using False by (auto simp: vm_run_def)
qed (use assms(2) in \<open>auto intro: exI [of _ "phys s"]\<close>)

text \<open>What is assumed of the children of \<open>p\<close>: their page tables can be freed and their messages copied.\<close>

definition reapable :: "vm_ops \<Rightarrow> (kmem \<Rightarrow> bool) \<Rightarrow> nat \<Rightarrow> uint64 \<Rightarrow> uint64 \<Rightarrow> 'z pcb_scheme \<Rightarrow> bool" where
  "reapable vm ok p addr addr2 s \<longleftrightarrow> ok (phys s) \<and> writable vm ok (pagetable (procs s p)) addr 4 \<and>
     (\<forall>q < NPROC. parent (procs s q) = Some p \<longrightarrow>
        writable vm ok (pagetable (procs s p)) addr2 (length (exit_msg (procs s q))) \<and> disposable vm ok (procs s q) \<and>
        (trapframe (procs s q) = 0 \<or> is_page (kend (phys s)) (trapframe (procs s q))))"

lemma reapable_cong:
  "reapable vm ok p addr addr2 s \<Longrightarrow> ok m \<Longrightarrow> kend m = kend (phys s) \<Longrightarrow> procs t = procs s \<Longrightarrow> phys t = m \<Longrightarrow>
    reapable vm ok p addr addr2 t"
  by (simp add: reapable_def)

lemma wait_scan_outcome:
  assumes "held s = [WaitLock]" "reapable vm ok p addr addr2 s" "set pps \<subseteq> {..<NPROC}"
  shows "case zombie_kid p (procs s) pps of
       Some q \<Rightarrow> \<exists>m. wait_scan vm p addr addr2 pps hk s = Ret (Some (pid (procs s q)), True)
                 (s\<lparr>phys := m, held := [], procs := (procs s)(q := cleared (procs s q))\<rparr>)
     | None \<Rightarrow> \<exists>m. wait_scan vm p addr addr2 pps hk s = Ret (None, hk \<or> kids p (procs s) pps \<noteq> []) (s\<lparr>phys := m, held := [WaitLock]\<rparr>)"
  using assms
proof (induction pps arbitrary: hk s)
  case Nil
  then have "s\<lparr>phys := phys s, held := [WaitLock]\<rparr> = s" by simp
  then show ?case by (auto intro: exI [of _ "phys s"])
next
  case (Cons q pps)
  show ?case
  proof (cases "parent (procs s q) = Some p")
    case False
    then show ?thesis using Cons.IH [OF Cons.prems(1,2), of hk] Cons.prems(3) by (cases "zombie_kid p (procs s) pps") simp_all
  next
    case True
    let ?s = "s\<lparr>held := [ProcLock q, WaitLock]\<rparr>"
    have R: "ok (phys s)" "writable vm ok (pagetable (procs s p)) addr 4"
      "writable vm ok (pagetable (procs s p)) addr2 (length (exit_msg (procs s q)))" "disposable vm ok (procs s q)"
      "trapframe (procs s q) = 0 \<or> is_page (kend (phys s)) (trapframe (procs s q))"
      using Cons.prems(2,3) True by (auto simp: reapable_def)
    obtain m where m: "(if addr2 \<noteq> 0 then vm_run (vm_copyout vm (pagetable (procs s p)) addr2 (exit_msg (procs s q))) ?s else Ret 0 ?s)
        = Ret 0 (?s\<lparr>phys := m\<rparr>)" "kend m = kend (phys s)" "ok m"
      using copy_opt_Ret [OF R(3), of ?s] R(1) by auto
    show ?thesis
    proof (cases "pstate (procs s q) = ZOMBIE")
      case z: True
      let ?t = "?s\<lparr>phys := m\<rparr>"
      obtain n where n: "(if addr \<noteq> 0 then vm_run (vm_copyout vm (pagetable (procs s p)) addr (le_bytes 4 (xstate (procs s q)))) ?t else Ret 0 ?t)
          = Ret 0 (?t\<lparr>phys := n\<rparr>)" "kend n = kend (phys s)" "ok n"
        using copy_opt_Ret [of vm ok "pagetable (procs s p)" addr "le_bytes 4 (xstate (procs s q))" ?t] R(2) m(2,3) by auto
      let ?u = "?t\<lparr>phys := n\<rparr>"
      obtain k where k: "freeproc vm q ?u = Ret () (?u\<lparr>phys := k, procs := (procs s)(q := cleared (procs s q))\<rparr>)"
        using freeproc_Ret [of vm ok ?u q] R(4,5) n(2,3) by auto
      have "wait_scan vm p addr addr2 (q # pps) hk s = Ret (Some (pid (procs s q)), True)
          (s\<lparr>phys := k, held := [], procs := (procs s)(q := cleared (procs s q))\<rparr>)"
        using True z k Cons.prems(1) by (simp add: lock_simps m(1) n(1) del: res_bind_if cong: if_cong)
      then show ?thesis using True z by auto
    next
      case z: False
      let ?t = "s\<lparr>phys := m, held := [WaitLock]\<rparr>"
      have "wait_scan vm p addr addr2 (q # pps) hk s = wait_scan vm p addr addr2 pps True ?t"
        using True z Cons.prems(1) by (simp add: lock_simps m(1) del: res_bind_if cong: if_cong)
      moreover have "reapable vm ok p addr addr2 ?t" by (rule reapable_cong [OF Cons.prems(2) m(3,2)]) simp_all
      ultimately show ?thesis using Cons.IH [of ?t True] Cons.prems(3) True z by (cases "zombie_kid p (procs s) pps") simp_all
    qed
  qed
qed

text \<open>
  C16. \<^verbatim>\<open>wait\<close> does what its specification says in every situation in which the copies to the two
  addresses the caller gave succeed: if a child is a zombie, it returns the process id of the first one
  in the table, empties that entry and changes no other; if the caller has no children, or was killed,
  it returns -1 and changes no entry; otherwise the caller sleeps, with \<^verbatim>\<open>wait_lock\<close> released.
\<close>

theorem wait_outcome:
  assumes "held s = []" "myproc s = Some p" "reapable vm ok p addr addr2 s"
  shows "case zombie_kid p (procs s) [0..<NPROC] of
       Some q \<Rightarrow> \<exists>t. wait vm addr addr2 s = Ret (pid (procs s q)) t \<and> procs t = (procs s)(q := cleared (procs s q)) \<and> held t = []
     | None \<Rightarrow>
         if kids p (procs s) [0..<NPROC] = [] \<or> pkilled (procs s p) \<noteq> 0
         then \<exists>t. wait vm addr addr2 s = Ret minus_one t \<and> procs t = procs s \<and> held t = []
         else \<exists>t. wait vm addr addr2 s = Swtch t \<and> held t = [ProcLock p] \<and>
              procs t = (procs s)(p := (procs s p)\<lparr>pchan := Some (ChanProc p), pstate := SLEEPING, kintena := ien s\<rparr>)"
proof -
  let ?s = "s\<lparr>held := [WaitLock]\<rparr>"
  have w: "wait vm addr addr2 s = wait_loop vm p addr addr2 ?s" using assms(1,2) by (simp add: wait_def with_proc_def lock_simps)
  have R: "reapable vm ok p addr addr2 ?s" using assms(3) by (simp add: reapable_def)
  have n: "set [0..<NPROC] \<subseteq> {..<NPROC}" by auto
  have o: "case zombie_kid p (procs s) [0..<NPROC] of
       Some q \<Rightarrow> \<exists>m. wait_scan vm p addr addr2 [0..<NPROC] False ?s = Ret (Some (pid (procs s q)), True)
                 (?s\<lparr>phys := m, held := [], procs := (procs s)(q := cleared (procs s q))\<rparr>)
     | None \<Rightarrow> \<exists>m. wait_scan vm p addr addr2 [0..<NPROC] False ?s = Ret (None, False \<or> kids p (procs s) [0..<NPROC] \<noteq> []) (?s\<lparr>phys := m, held := [WaitLock]\<rparr>)"
    using wait_scan_outcome [OF _ R n, of False] by (cases "zombie_kid p (procs s) [0..<NPROC]") simp_all
  show ?thesis
  proof (cases "zombie_kid p (procs s) [0..<NPROC]")
    case (Some q)
    then show ?thesis using o by (auto simp: w wait_loop_def)
  next
    case None
    then obtain m where m: "wait_scan vm p addr addr2 [0..<NPROC] False ?s = Ret (None, kids p (procs s) [0..<NPROC] \<noteq> []) (?s\<lparr>phys := m, held := [WaitLock]\<rparr>)"
      using o by auto
    have k: "killed p (?s\<lparr>phys := m, held := [WaitLock]\<rparr>) = Ret (pkilled (procs s p)) (?s\<lparr>phys := m, held := [WaitLock]\<rparr>)" by (simp add: killed_Ret)
    have "sleep (Some (ChanProc p)) WaitLock (?s\<lparr>phys := m, held := [WaitLock]\<rparr>) = Swtch (?s\<lparr>phys := m, held := [ProcLock p],
        procs := (procs s)(p := (procs s p)\<lparr>pchan := Some (ChanProc p), pstate := SLEEPING, kintena := ien s\<rparr>)\<rparr>)"
      using assms(2) by (subst sleep_Swtch [of _ p]) (simp_all add: myproc_def cpuid_def)
    then show ?thesis using None m k by (auto simp: w wait_loop_def lock_simps)
  qed
qed

text \<open>Entry 0 runs; entry 2 is its zombie child with process id 7.\<close>

definition zombie_state :: flstate where
  "zombie_state = upd_proc 2 (\<lambda>q. q\<lparr>parent := Some 0, pstate := ZOMBIE, pid := 7\<rparr>) blank_flstate"

lemma zombie_state_simps:
  "held zombie_state = []" "myproc zombie_state = Some 0"
  "procs zombie_state = (procs blank_flstate)(2 := blank_proc\<lparr>parent := Some 0, pstate := ZOMBIE, pid := 7\<rparr>)"
  using blank_flstate_simps by (simp_all add: zombie_state_def upd_proc_def myproc_def cpuid_def)

theorem wait_outcome_witness:
  "\<exists>t. wait small_vm 64 128 zombie_state = Ret 7 t \<and> pstate (procs t 2) = UNUSED \<and> pid (procs t 2) = 0 \<and> held t = []"
proof -
  have "zombie_kid 0 (procs zombie_state) [0..<NPROC] = Some 2"
    by (simp add: zombie_state_simps blank_flstate_simps blank_proc_def NPROC_def upt_rec)
  moreover have "reapable small_vm (\<lambda>_. True) 0 64 128 zombie_state"
    by (simp add: reapable_def zombie_state_simps blank_flstate_simps blank_proc_def writable_def disposable_def small_vm_def)
  ultimately obtain t where "wait small_vm 64 128 zombie_state = Ret (pid (procs zombie_state 2)) t" "held t = []"
      "procs t = (procs zombie_state)(2 := cleared (procs zombie_state 2))"
    using wait_outcome [of zombie_state 0 small_vm "\<lambda>_. True" 64 128] zombie_state_simps by auto
  then show ?thesis by (simp add: zombie_state_simps cleared_def)
qed

section \<open>The exit message\<close>

text \<open>
  C31. \<^verbatim>\<open>wait\<close> copies the exit message before it looks at the state of a child: when the address for the
  message is not writable, it returns -1 at the first child in the table whatever that child's state, so
  it reaps nothing even if a later child is a zombie.
\<close>

theorem wait_message_error:
  assumes "held s = []" "myproc s = Some p" "addr2 \<noteq> 0"
    and "kids p (procs s) [0..<NPROC] = q # qs"
    and "\<forall>bs m. vm_copyout vm (pagetable (procs s p)) addr2 bs m = Ret minus_one m"
  shows "wait vm addr addr2 s = Ret minus_one s"
proof -
  let ?s = "s\<lparr>held := [WaitLock]\<rparr>"
  have scan: "wait_scan vm p addr addr2 pps hk ?s = Ret (Some minus_one, hk) s" if "kids p (procs s) pps = q # qs" for pps hk
    using that
  proof (induction pps)
    case (Cons r pps)
    have "\<not> 0 \<le> sint (minus_one :: cint)" by simp
    then show ?case using Cons assms(1,3,5) by (cases "parent (procs s r) = Some p") (simp_all add: lock_simps vm_run_def)
  qed simp
  show ?thesis using assms(1,2) scan [OF assms(4)] by (simp add: wait_def wait_loop_def with_proc_def lock_simps)
qed

theorem wait_message_error_witness:
  "wait (flat_vm\<lparr>vm_copyout := \<lambda>pt a bs m. Ret minus_one m\<rparr>) 0 128 (upd_proc 1 (\<lambda>q. q\<lparr>parent := Some 0, pstate := SLEEPING\<rparr>) zombie_state)
     = Ret minus_one (upd_proc 1 (\<lambda>q. q\<lparr>parent := Some 0, pstate := SLEEPING\<rparr>) zombie_state)" (is "wait ?vm 0 128 ?s = _")
proof -
  have "held ?s = []" "myproc ?s = Some 0" using zombie_state_simps by (simp_all add: upd_proc_def myproc_def cpuid_def)
  moreover have "kids 0 (procs ?s) [0..<NPROC] = [1, 2]"
    by (simp add: upd_proc_def zombie_state_simps blank_flstate_simps blank_proc_def NPROC_def upt_rec)
  ultimately show ?thesis by (intro wait_message_error [where p = 0 and q = 1 and qs = "[2]"]) simp_all
qed

end
