(* ===== verification/Fs_Blocks.thy ===== *)
theory Fs_Blocks
  imports File Log_Crash
begin

text \<open>
  The block and inode routines of \<^verbatim>\<open>kernel/fs.c\<close> inside a transaction: their effect on the contents of
  the blocks, over the cache and the log.
\<close>

section \<open>Inside a transaction\<close>

text \<open>
  \<open>in_txn s p V start k\<close>: process \<open>p\<close> is between \<^verbatim>\<open>begin_op\<close> and \<^verbatim>\<open>end_op\<close> and holds no buffer, the
  blocks hold \<open>V\<close>, and the log has room for \<open>k\<close> more of them.
\<close>

definition in_txn :: "'z lgstate_scheme \<Rightarrow> nat \<Rightarrow> (uint \<Rightarrow> block) \<Rightarrow> uint \<Rightarrow> nat \<Rightarrow> bool" where
  "in_txn s p V start k \<longleftrightarrow> lg_size (lg s) \<le> int LOGSIZE \<and>
     (\<exists>bs. bcache s p V (ipins False bs 0) {} \<and> in_log s start bs \<and> length bs < NBUF \<and> (0 < k \<longrightarrow> log_open s (length bs + k - 1)))"

lemma in_txn_len: "in_txn s p V start k \<Longrightarrow> length (V bn) = BSIZE"
  using bcache_view_length unfolding in_txn_def by blast

lemma in_txn_mono: "in_txn s p V start k \<Longrightarrow> j \<le> k \<Longrightarrow> in_txn s p V start j"
  unfolding in_txn_def by (fastforce elim: log_open_mono)

lemma lframe_fs:
  fixes s t :: "'z fsstate_scheme"
  assumes "lframe s t"
  shows "sb t = sb s" "inodes t = inodes s"
proof -
  have "t\<lparr>lg := lg s\<rparr> = s\<lparr>procs := procs t, sleeplocks := sleeplocks t, bufs := bufs t, disk := disk t, dhist := dhist t\<rparr>"
    using assms unfolding lframe_def bframe_def by simp
  then have "sb (t\<lparr>lg := lg s\<rparr>) = sb s" "inodes (t\<lparr>lg := lg s\<rparr>) = inodes s" by simp_all
  then show "sb t = sb s" "inodes t = inodes s" by simp_all
qed

lemma upd_ino_txn [simp]:
  "bcache (upd_ino i f s) p V P L = bcache s p V P L" "at_buf (upd_ino i f s) b bn = at_buf s b bn"
  "in_log (upd_ino i f s) start bs = in_log s start bs" "log_open (upd_ino i f s) n = log_open s n"
  "lg (upd_ino i f s) = lg s" "bufs (upd_ino i f s) = bufs s" "disk (upd_ino i f s) = disk s" "sb (upd_ino i f s) = sb s"
  "inodes (upd_ino i f s) = (inodes s)(i := f (inodes s i))"
  by (simp_all add: upd_ino_def bcache_def view_def [abs_def] bidle_def mine_def bunlocked_def no_proc_lock_def
      myproc_def cpuid_def in_log_def log_open_def at_buf_def)

lemma in_txn_ino [simp]: "in_txn (upd_ino i f s) p V start k = in_txn s p V start k"
  by (simp add: in_txn_def)

lemma txn_block:
  fixes s :: "'z fsstate_scheme"
  assumes "in_txn s p V start k"
  obtains i t where "bread ROOTDEV bn s = Ret i t" "b_data (bufs t i) = V bn" "lframe s t"
    and "\<And>t'. t' = t \<or> (\<exists>j f. t' = upd_ino j f t) \<Longrightarrow> \<exists>u. brelse i t' = Ret () u \<and> in_txn u p V start k \<and> lframe t' u"
    and "\<And>d. 0 < k \<Longrightarrow> length d = BSIZE \<Longrightarrow>
      \<exists>v w. log_write i (set_data i d t) = Ret () v \<and> brelse i v = Ret () w \<and> in_txn w p (V(bn := d)) start (k - 1) \<and> lframe s w"
proof -
  obtain bs where b: "lg_size (lg s) \<le> int LOGSIZE" "bcache s p V (ipins False bs 0) {}" "in_log s start bs" "length bs < NBUF"
      "0 < k \<Longrightarrow> log_open s (length bs + k - 1)" using assms unfolding in_txn_def by blast
  let ?P = "ipins False bs 0"
  have room: "card {b. 0 < ?P b} < NBUF" by (rule ipins_card) (simp add: b(4))
  from bc.rd_law [OF b(2), of bn] room obtain i t where t: "bread ROOTDEV bn s = Ret i t"
    "bcache t p V (?P(bn := ?P bn + 1)) {bn}" "at_buf t i bn" "b_data (bufs t i) = V bn" "disk t = disk s" "bframe s t" by auto
  have rel: "\<exists>u. brelse i t' = Ret () u \<and> in_txn u p V start k \<and> lframe t' u" if t': "t' = t \<or> (\<exists>j f. t' = upd_ino j f t)" for t'
  proof -
    have c: "bcache t' p V (?P(bn := ?P bn + 1)) {bn}" "at_buf t' i bn" "disk t' = disk t" "lg t' = lg t" "\<And>n. log_open t' n = log_open t n"
      using t' t(2,3) by auto
    have cl: "(?P(bn := ?P bn + 1)) bn = 1 \<Longrightarrow> V bn = disk t' bn" using bc.clean_law [OF b(2), of bn] t(5) c(3) by simp
    have L: "bn \<in> {bn}" by simp
    from bc.rel_law [OF c(1,2) L cl] obtain u where u: "brelse i t' = Ret () u"
      "bcache u p V ((?P(bn := ?P bn + 1))(bn := (?P(bn := ?P bn + 1)) bn - 1)) ({bn} - {bn})" "bframe t' u" by blast
    have "(?P(bn := ?P bn + 1))(bn := (?P(bn := ?P bn + 1)) bn - 1) = ?P" "{bn} - {bn} = {}" by auto
    then have cu: "bcache u p V ?P {}" using u(2) by simp
    have lgu: "lg u = lg s" using bframe_lg [OF u(3)] bframe_lg [OF t(6)] c(4) by simp
    have "log_open u n = log_open s n" for n
      using c(5) [of n] lgu bframe_lg [OF t(6)] bframe_held [OF u(3)] bframe_held [OF t(6)] c(4) by (auto simp: log_open_def)
    then have "in_txn u p V start k" using b cu in_log_cong [OF lgu] lgu unfolding in_txn_def by auto
    then show ?thesis using u(1) lframe_intros(1) [OF u(3)] by blast
  qed
  have wr: "\<exists>v w. log_write i (set_data i d t) = Ret () v \<and> brelse i v = Ret () w \<and> in_txn w p (V(bn := d)) start (k - 1) \<and> lframe s w"
    if k: "0 < k" and d: "length d = BSIZE" for d
  proof -
    have op: "log_open s (length bs)" using b(5) [OF k] k by (auto intro: log_open_mono)
    from logged_write_spec [OF b(2,3) op d, of bn] obtain w where w: "logged_write bn d s = Ret () w"
      "bcache w p (V(bn := d)) (ipins False (log_add bn bs) 0) {}" "in_log w start (log_add bn bs)" "lframe s w"
      "\<And>n. log_open w n = log_open s n" "lg_size (lg w) = lg_size (lg s)" by blast
    obtain v where v: "log_write i (set_data i d t) = Ret () v" "brelse i v = Ret () w"
      using w(1) t(1) by (auto simp: logged_write_def res_bind_eq_Ret_iff)
    have len: "length (log_add bn bs) \<le> Suc (length bs)" by (rule log_add_props)
    have "length bs < 29" using op b(1) by (simp add: log_open_def LOGSIZE_def MAXOPBLOCKS_def)
    then have "length (log_add bn bs) < NBUF" using len by (simp add: NBUF_def MAXOPBLOCKS_def)
    moreover have "log_open w (length (log_add bn bs) + (k - 1) - 1)" if "0 < k - 1"
      using b(5) [OF k] len that unfolding w(5) by (auto elim: log_open_mono)
    ultimately have "in_txn w p (V(bn := d)) start (k - 1)" using w(2,3,6) b(1) unfolding in_txn_def by auto
    then show ?thesis using v w(4) by blast
  qed
  show thesis by (rule that [OF t(1,4) lframe_intros(1) [OF t(6)] rel wr])
qed

section \<open>On-disk inodes\<close>

lemma length_addrs: "length (concat (map (le_bytes 4) (as :: uint list))) = 4 * length as"
  by (induction as) simp_all

lemma get32_addrs:
  assumes "i < length as"
  shows "take 4 (drop (4 * i) (concat (map (le_bytes 4) (as :: uint list)))) = le_bytes 4 (as ! i)"
  using assms
proof (induction as arbitrary: i)
  case (Cons a as)
  then show ?case by (cases i) simp_all
qed simp

lemma get32_put_addrs:
  assumes "off + 4 * length as \<le> length d" "i < length as"
  shows "get32 (put_bytes d off (concat (map (le_bytes 4) (as :: uint list)))) (off + 4 * i) = as ! i"
proof -
  let ?bs = "concat (map (le_bytes 4) as)"
  have "drop (off + 4 * i) (put_bytes d off ?bs) = drop (4 * i) ?bs @ drop (off + length ?bs) d"
    using assms by (simp add: put_bytes_def length_addrs)
  then have "take 4 (drop (off + 4 * i) (put_bytes d off ?bs)) = take 4 (drop (4 * i) ?bs)"
    using assms by (simp add: length_addrs)
  then show ?thesis using get32_addrs [OF assms(2)] by (simp add: get32_def le_word_le_bytes)
qed

lemma get_put_dinode:
  assumes "off + 64 \<le> length d" "length (d_addrs n) = NDIRECT + 1"
  shows "get_dinode (put_dinode d off n) off = n" "length (put_dinode d off n) = length d"
    and "off' + 64 \<le> off \<or> off + 64 \<le> off' \<Longrightarrow> get_dinode (put_dinode d off n) off' = get_dinode d off'"
proof -
  define d4 where "d4 = put32 (put16 (put16 (put16 (put16 d off (d_type n)) (off + 2) (d_major n)) (off + 4) (d_minor n)) (off + 6) (d_nlink n))
    (off + 8) (d_size n)"
  have l4: "length d4 = length d" using assms(1) by (simp add: d4_def enc_simps)
  have la: "length (d_addrs n) = 13" using assms(2) by (simp add: NDIRECT_def)
  have p: "put_dinode d off n = put_bytes d4 (off + 12) (concat (map (le_bytes 4) (d_addrs n)))" by (simp add: put_dinode_def d4_def Let_def)
  show "length (put_dinode d off n) = length d" using assms(1) l4 la by (simp add: p length_put_bytes length_addrs)
  have h: "get16 (put_dinode d off n) off = d_type n" "get16 (put_dinode d off n) (off + 2) = d_major n"
    "get16 (put_dinode d off n) (off + 4) = d_minor n" "get16 (put_dinode d off n) (off + 6) = d_nlink n"
    "get32 (put_dinode d off n) (off + 8) = d_size n"
    using assms(1) l4 la
    by (simp_all add: p get16_put_bytes_other get32_put_bytes_other length_addrs) (simp_all add: d4_def get_put_other enc_simps)
  have "map (\<lambda>i. get32 (put_dinode d off n) (off + 12 + 4 * i)) [0..<13] = d_addrs n"
    using assms(1) l4 la get32_put_addrs [of "off + 12" "d_addrs n" d4] by (intro nth_equalityI) (simp_all add: p)
  then show "get_dinode (put_dinode d off n) off = n" using h by (simp add: get_dinode_def NDIRECT_def)
  assume o: "off' + 64 \<le> off \<or> off + 64 \<le> off'"
  have g16: "get16 (put_dinode d off n) (off' + j) = get16 d (off' + j)" if "j + 2 \<le> 64" for j
    using assms(1) l4 la o that by (auto simp: p get16_put_bytes_other length_addrs) (auto simp: d4_def get_put_other enc_simps)
  have g32: "get32 (put_dinode d off n) (off' + j) = get32 d (off' + j)" if "j + 4 \<le> 64" for j
    using assms(1) l4 la o that by (auto simp: p get32_put_bytes_other length_addrs) (auto simp: d4_def get_put_other enc_simps)
  show "get_dinode (put_dinode d off n) off' = get_dinode d off'"
    using g16 [of 0] g16 [of 2] g16 [of 4] g16 [of 6] g32 [of 8] by (simp add: get_dinode_def add.assoc NDIRECT_def g32)
qed

lemma dinode_off_le: "dinode_off i + 64 \<le> BSIZE"
proof -
  have "unat i mod 16 \<le> 15" by simp
  then show ?thesis unfolding dinode_off_def IPB_def BSIZE_def by simp
qed

lemma dinode_off_apart:
  assumes "IBLOCK i b = IBLOCK n b" "i \<noteq> n"
  shows "dinode_off i + 64 \<le> dinode_off n \<or> dinode_off n + 64 \<le> dinode_off i"
proof -
  have "unat (i div 16) = unat (n div 16)" using assms(1) by (simp add: IBLOCK_def IPB_def BSIZE_def)
  then have "unat i div 16 = unat n div 16" by (simp add: unat_div_distrib)
  moreover have "unat i \<noteq> unat n" using assms(2) by (simp add: word_unat_eq_iff)
  ultimately have "unat i mod 16 \<noteq> unat n mod 16" by (metis div_mult_mod_eq)
  then have "unat i mod 16 < unat n mod 16 \<or> unat n mod 16 < unat i mod 16" by linarith
  then have "unat i mod 16 * 64 + 64 \<le> unat n mod 16 * 64 \<or> unat n mod 16 * 64 + 64 \<le> unat i mod 16 * 64" by linarith
  then show ?thesis unfolding dinode_off_def IPB_def BSIZE_def by simp
qed

section \<open>Free bits\<close>

text \<open>\<open>block_free V b c\<close>: the bitmap in \<open>V\<close> has block \<open>c\<close> free.\<close>

definition block_free :: "(uint \<Rightarrow> block) \<Rightarrow> superblock \<Rightarrow> nat \<Rightarrow> bool" where
  "block_free V b c \<longleftrightarrow> bit_free (V (BBLOCK (of_nat c) b)) (c mod BPB)"

lemma bit_free_iff: "bit_free d bi \<longleftrightarrow> \<not> bit (d ! (bi div 8)) (bi mod 8)"
  unfolding bit_free_def bit_mask_def bit_iff_and_push_bit_not_eq_0 by simp

lemma bit_free_set:
  assumes "bi div 8 < length d"
  shows "bit_free (d[bi div 8 := (d ! (bi div 8)) OR bit_mask bi]) c \<longleftrightarrow> bit_free d c \<and> c \<noteq> bi"
proof (cases "c div 8 = bi div 8")
  case True
  then have "c = bi \<longleftrightarrow> c mod 8 = bi mod 8" by (metis div_mult_mod_eq)
  then show ?thesis using assms True by (auto simp: bit_free_iff bit_mask_def bit_simps)
qed (auto simp: bit_free_iff)

lemma bit_free_clear:
  assumes "bi div 8 < length d"
  shows "bit_free (d[bi div 8 := (d ! (bi div 8)) AND NOT (bit_mask bi)]) c \<longleftrightarrow> bit_free d c \<or> c = bi"
proof (cases "c div 8 = bi div 8")
  case True
  then have "c = bi \<longleftrightarrow> c mod 8 = bi mod 8" by (metis div_mult_mod_eq)
  then show ?thesis using assms True by (auto simp: bit_free_iff bit_mask_def bit_simps)
qed (auto simp: bit_free_iff)

lemma unat32: "c < 2 ^ 32 \<Longrightarrow> unat (of_nat c :: uint) = c"
  by (simp add: unsigned_of_nat take_bit_nat_eq_self)

lemma BBLOCK_nat: "c < 2 ^ 32 \<Longrightarrow> BBLOCK (of_nat c) b = of_nat (c div BPB) + sb_bmapstart b"
  by (simp add: BBLOCK_def BPB_def BSIZE_def word_arith_nat_div unat32)

lemma BBLOCK_eq_iff:
  assumes "c < 2 ^ 32" "c' < 2 ^ 32"
  shows "BBLOCK (of_nat c) b = BBLOCK (of_nat c') b \<longleftrightarrow> c div BPB = c' div BPB"
proof -
  have "c div BPB < 2 ^ 32" "c' div BPB < 2 ^ 32" using assms by (auto intro: le_less_trans [OF div_le_dividend])
  then have "(of_nat (c div BPB) :: uint) = of_nat (c' div BPB) \<longleftrightarrow> c div BPB = c' div BPB"
    by (metis unat32)
  then show ?thesis using assms by (simp add: BBLOCK_nat)
qed

section \<open>Effects\<close>

lemma bzero_spec:
  fixes s :: "'z fsstate_scheme"
  assumes "in_txn s p V start (Suc k)"
  obtains t where "bzero ROOTDEV b s = Ret () t" "in_txn t p (V(b := replicate BSIZE 0)) start k" "lframe s t"
proof -
  obtain i t where t: "bread ROOTDEV b s = Ret i t"
    "\<And>d. 0 < Suc k \<Longrightarrow> length d = BSIZE \<Longrightarrow>
      \<exists>v w. log_write i (set_data i d t) = Ret () v \<and> brelse i v = Ret () w \<and> in_txn w p (V(b := d)) start (Suc k - 1) \<and> lframe s w"
    by (rule txn_block [OF assms, of b]) blast
  obtain v w where "log_write i (set_data i (replicate BSIZE 0) t) = Ret () v" "brelse i v = Ret () w"
    "in_txn w p (V(b := replicate BSIZE 0)) start k" "lframe s w" using t(2) [of "replicate BSIZE 0"] by auto
  then show thesis using that t(1) by (simp add: bzero_def)
qed

lemma bfree_spec:
  fixes s :: "'z fsstate_scheme"
  assumes tx: "in_txn s p V start (Suc k)" and a: "\<not> block_free V (sb s) c" and c: "c < 2 ^ 32"
  defines "B \<equiv> BBLOCK (of_nat c) (sb s)"
  obtains t where "bfree ROOTDEV (of_nat c) s = Ret () t" "lframe s t"
    "in_txn t p (V(B := (V B)[c mod BPB div 8 := (V B) ! (c mod BPB div 8) AND NOT (bit_mask (c mod BPB))])) start k"
proof -
  let ?d = "(V B)[c mod BPB div 8 := (V B) ! (c mod BPB div 8) AND NOT (bit_mask (c mod BPB))]"
  obtain i t where t: "bread ROOTDEV B s = Ret i t" "b_data (bufs t i) = V B" "lframe s t"
    "\<And>d. 0 < Suc k \<Longrightarrow> length d = BSIZE \<Longrightarrow>
      \<exists>v w. log_write i (set_data i d t) = Ret () v \<and> brelse i v = Ret () w \<and> in_txn w p (V(B := d)) start (Suc k - 1) \<and> lframe s w"
    by (rule txn_block [OF tx, of B]) blast
  obtain v w where w: "log_write i (set_data i ?d t) = Ret () v" "brelse i v = Ret () w"
    "in_txn w p (V(B := ?d)) start k" "lframe s w" using t(4) [of ?d] in_txn_len [OF tx] by auto
  have "bfree ROOTDEV (of_nat c) s = Ret () w"
    using t(1,2) w(1,2) a c by (simp add: bfree_def B_def [symmetric] unat32 block_free_def Let_def)
  then show thesis using that w(3,4) by blast
qed

lemma iupdate_spec:
  fixes s :: "'z fsstate_scheme"
  assumes tx: "in_txn s p V start (Suc k)" and dev: "i_dev (inodes s ip) = ROOTDEV" and ad: "length (i_addrs (inodes s ip)) = NDIRECT + 1"
  defines "B \<equiv> IBLOCK (i_inum (inodes s ip)) (sb s)"
  defines "d \<equiv> put_dinode (V B) (dinode_off (i_inum (inodes s ip))) (ino_dinode (inodes s ip))"
  obtains t where "iupdate ip s = Ret () t" "lframe s t" "in_txn t p (V(B := d)) start k"
proof -
  obtain i t where t: "bread ROOTDEV B s = Ret i t" "b_data (bufs t i) = V B" "lframe s t"
    "\<And>d. 0 < Suc k \<Longrightarrow> length d = BSIZE \<Longrightarrow>
      \<exists>v w. log_write i (set_data i d t) = Ret () v \<and> brelse i v = Ret () w \<and> in_txn w p (V(B := d)) start (Suc k - 1) \<and> lframe s w"
    by (rule txn_block [OF tx, of B]) blast
  have "length d = BSIZE" using in_txn_len [OF tx, of B] dinode_off_le [of "i_inum (inodes s ip)"] ad
    unfolding d_def by (subst get_put_dinode(2)) (simp_all add: ino_dinode_def)
  then obtain v w where w: "log_write i (set_data i d t) = Ret () v" "brelse i v = Ret () w"
    "in_txn w p (V(B := d)) start k" "lframe s w" using t(4) [of d] by auto
  have "iupdate ip s = Ret () w"
    using t(1,2) w(1,2) dev by (simp add: iupdate_def B_def [symmetric] lframe_fs [OF t(3)] Let_def d_def)
  then show thesis using that w(3,4) by blast
qed

lemma ilock_load_spec:
  fixes s :: "'z fsstate_scheme"
  assumes tx: "in_txn s p V start k" and dev: "i_dev (inodes s ip) = ROOTDEV" and nv: "\<not> i_valid (inodes s ip)"
  defines "d \<equiv> get_dinode (V (IBLOCK (i_inum (inodes s ip)) (sb s))) (dinode_off (i_inum (inodes s ip)))"
  assumes ty: "d_type d \<noteq> 0"
  obtains t where "ilock_load ip s = Ret () t" "in_txn t p V start k" "sb t = sb s"
    "inodes t = (inodes s)(ip := (inodes s ip)\<lparr>i_type := d_type d, i_major := d_major d, i_minor := d_minor d,
       i_nlink := d_nlink d, i_size := d_size d, i_addrs := d_addrs d, i_valid := True\<rparr>)"
proof -
  let ?B = "IBLOCK (i_inum (inodes s ip)) (sb s)"
  let ?f = "\<lambda>n. n\<lparr>i_type := d_type d, i_major := d_major d, i_minor := d_minor d, i_nlink := d_nlink d, i_size := d_size d, i_addrs := d_addrs d\<rparr>"
  obtain i t where t: "bread ROOTDEV ?B s = Ret i t" "b_data (bufs t i) = V ?B" "lframe s t"
    "\<And>t'. t' = t \<or> (\<exists>j f. t' = upd_ino j f t) \<Longrightarrow> \<exists>u. brelse i t' = Ret () u \<and> in_txn u p V start k \<and> lframe t' u"
    by (rule txn_block [OF tx, of ?B]) blast
  obtain u where u: "brelse i (upd_ino ip ?f t) = Ret () u" "in_txn u p V start k" "lframe (upd_ino ip ?f t) u"
    using t(4) [of "upd_ino ip ?f t"] by blast
  have iu: "inodes u = (inodes s)(ip := ?f (inodes s ip))" "sb u = sb s" using lframe_fs [OF u(3)] lframe_fs [OF t(3)] by simp_all
  have "ilock_load ip s = Ret () (upd_ino ip (\<lambda>n. n\<lparr>i_valid := True\<rparr>) u)"
    using t(1,2) u(1) dev nv ty iu by (simp add: ilock_load_def Let_def lframe_fs [OF t(3)] d_def)
  then show thesis by (rule that) (use u(2) iu in simp_all)
qed

section \<open>First fit\<close>

lemma find_append: "List.find P (xs @ ys) = (case List.find P xs of None \<Rightarrow> List.find P ys | Some x \<Rightarrow> Some x)"
  by (induction xs) simp_all

lemma find_shift: "List.find P [a..<a + n] = map_option (\<lambda>i. a + i) (List.find (\<lambda>i. P (a + i)) [0..<n])"
proof -
  have "[a..<a + n] = map (\<lambda>i. a + i) [0..<n]" by (simp add: map_add_upt add.commute)
  moreover have "List.find P (map f xs) = map_option f (List.find (\<lambda>i. P (f i)) xs)" for f and xs :: "nat list"
    by (induction xs) simp_all
  ultimately show ?thesis by simp
qed

lemma find_cong_list: "(\<And>x. x \<in> set xs \<Longrightarrow> P x = Q x) \<Longrightarrow> List.find P xs = List.find Q xs"
  by (induction xs) simp_all

definition bit_set :: "(uint \<Rightarrow> block) \<Rightarrow> superblock \<Rightarrow> nat \<Rightarrow> (uint \<Rightarrow> block)" where
  "bit_set V b c = (let B = BBLOCK (of_nat c) b; bi = c mod BPB in V(B := (V B)[bi div 8 := (V B) ! (bi div 8) OR bit_mask bi]))"

lemma block_free_bit_set:
  assumes "\<And>n. length (V n) = BSIZE" and "c < 2 ^ 32" and "c' < 2 ^ 32"
  shows "block_free (bit_set V b c) b c' \<longleftrightarrow> block_free V b c' \<and> c' \<noteq> c"
proof -
  have l: "c mod BPB div 8 < length (V (BBLOCK (of_nat c) b))"
    unfolding assms(1) by (rule div_less_iff_less_mult [THEN iffD2]) (simp_all add: BPB_def BSIZE_def)
  note same = BBLOCK_eq_iff [OF assms(3,2), of b]
  show ?thesis
  proof (cases "c' div BPB = c div BPB")
    case True
    then have "c' = c \<longleftrightarrow> c' mod BPB = c mod BPB" by (metis div_mult_mod_eq)
    then show ?thesis using True same bit_free_set [OF l] by (simp add: block_free_def bit_set_def Let_def)
  next
    case False
    then have "c' \<noteq> c" by blast
    then show ?thesis using False same by (simp add: block_free_def bit_set_def Let_def)
  qed
qed

lemma block_free_clear:
  fixes b :: superblock
  assumes "\<And>n. length (V n) = BSIZE" and "c < 2 ^ 32" and "c' < 2 ^ 32"
  defines "B \<equiv> BBLOCK (of_nat c) b"
  shows "block_free (V(B := (V B)[c mod BPB div 8 := (V B) ! (c mod BPB div 8) AND NOT (bit_mask (c mod BPB))])) b c' \<longleftrightarrow>
    block_free V b c' \<or> c' = c"
proof -
  have l: "c mod BPB div 8 < length (V (BBLOCK (of_nat c) b))"
    unfolding assms(1) by (rule div_less_iff_less_mult [THEN iffD2]) (simp_all add: BPB_def BSIZE_def)
  note same = BBLOCK_eq_iff [OF assms(3,2), of b]
  show ?thesis
  proof (cases "c' div BPB = c div BPB")
    case True
    then have "c' = c \<longleftrightarrow> c' mod BPB = c mod BPB" by (metis div_mult_mod_eq)
    then show ?thesis using True same bit_free_clear [OF l] by (simp add: block_free_def B_def)
  next
    case False
    then have "c' \<noteq> c" by blast
    then show ?thesis using False same by (simp add: block_free_def B_def)
  qed
qed

lemma balloc_body_spec:
  fixes s :: "'z fsstate_scheme"
  assumes tx: "in_txn s p V start (Suc (Suc k))" and j: "j * BPB < unat (sb_size (sb s))"
  defines "r \<equiv> List.find (block_free V (sb s)) [j * BPB..<min (Suc j * BPB) (unat (sb_size (sb s)))]"
  shows "\<exists>t. balloc_body ROOTDEV j s = Ret (map_option of_nat r) t \<and> lframe s t \<and>
    (case r of None \<Rightarrow> in_txn t p V start (Suc (Suc k))
     | Some c \<Rightarrow> in_txn t p ((bit_set V (sb s) c)(of_nat c := replicate BSIZE 0)) start k)"
proof -
  let ?N = "unat (sb_size (sb s))" and ?B = "BBLOCK (of_nat (j * BPB)) (sb s)"
  let ?m = "min BPB (unat (sb_size (sb s) - of_nat (j * BPB)))"
  have N: "?N < 2 ^ 32" using unsigned_less [of "sb_size (sb s)", where ?'a = nat] by simp
  have um: "unat (sb_size (sb s) - of_nat (j * BPB)) = ?N - j * BPB"
    using j N by (subst unat_sub) (simp_all add: word_le_nat_alt unat32 del: of_nat_mult)
  then have m: "min (Suc j * BPB) ?N = j * BPB + ?m" using j by simp
  have B: "BBLOCK (of_nat (j * BPB + i)) (sb s) = ?B" "(j * BPB + i) mod BPB = i" if "i < ?m" for i
  proof -
    have i: "i < BPB" "j * BPB + i < 2 ^ 32" using that um N by auto
    then show "BBLOCK (of_nat (j * BPB + i)) (sb s) = ?B" by (subst BBLOCK_eq_iff) simp_all
    show "(j * BPB + i) mod BPB = i" using i(1) by simp
  qed
  have r: "r = map_option (\<lambda>i. j * BPB + i) (List.find (bit_free (V ?B)) [0..<?m])"
    unfolding r_def m find_shift
    by (rule arg_cong [of _ _ "map_option _"], rule find_cong_list) (simp add: block_free_def B del: of_nat_mult of_nat_add)
  obtain i t where t: "bread ROOTDEV ?B s = Ret i t" "b_data (bufs t i) = V ?B" "lframe s t"
    "\<And>t'. t' = t \<or> (\<exists>j f. t' = upd_ino j f t) \<Longrightarrow> \<exists>u. brelse i t' = Ret () u \<and> in_txn u p V start (Suc (Suc k)) \<and> lframe t' u"
    "\<And>d. 0 < Suc (Suc k) \<Longrightarrow> length d = BSIZE \<Longrightarrow>
      \<exists>v w. log_write i (set_data i d t) = Ret () v \<and> brelse i v = Ret () w \<and> in_txn w p (V(?B := d)) start (Suc (Suc k) - 1) \<and> lframe s w"
    by (rule txn_block [OF tx, of ?B]) blast
  show ?thesis
  proof (cases "List.find (bit_free (V ?B)) [0..<?m]")
    case None
    obtain u where "brelse i t = Ret () u" "in_txn u p V start (Suc (Suc k))" "lframe t u" using t(4) [of t] by blast
    then show ?thesis using t(1-3) None r lframe_trans [OF t(3)] by (auto simp: balloc_body_def Let_def lframe_fs [OF t(3)])
  next
    case (Some bi)
    let ?d = "(V ?B)[bi div 8 := (V ?B) ! (bi div 8) OR bit_mask bi]"
    have bi: "bi < ?m" using Some by (auto simp: find_Some_iff)
    obtain v w where w: "log_write i (set_data i ?d t) = Ret () v" "brelse i v = Ret () w" "in_txn w p (V(?B := ?d)) start (Suc k)" "lframe s w"
      using t(5) [of ?d] in_txn_len [OF tx] by auto
    obtain x where x: "bzero ROOTDEV (of_nat (j * BPB) + of_nat bi) w = Ret () x"
      "in_txn x p ((V(?B := ?d))(of_nat (j * BPB) + of_nat bi := replicate BSIZE 0)) start k" "lframe w x" by (rule bzero_spec [OF w(3)])
    have "bit_set V (sb s) (j * BPB + bi) = V(?B := ?d)" using B [OF bi] by (simp add: bit_set_def Let_def)
    then show ?thesis
      using t(1,2) w(1,2) x(1,2) Some r lframe_trans [OF w(4) x(3)] by (auto simp: balloc_body_def Let_def lframe_fs [OF t(3)])
  qed
qed

lemma balloc_loop_spec:
  fixes s :: "'z fsstate_scheme"
  assumes "in_txn s p V start (Suc (Suc k))" and "n * BPB < unat (sb_size (sb s)) + BPB"
  defines "r \<equiv> List.find (block_free V (sb s)) [0..<min (n * BPB) (unat (sb_size (sb s)))]"
  shows "\<exists>t. for_loop (balloc_body ROOTDEV) [0..<n] s = Ret (map_option of_nat r) t \<and> lframe s t \<and>
    (case r of None \<Rightarrow> in_txn t p V start (Suc (Suc k))
     | Some c \<Rightarrow> in_txn t p ((bit_set V (sb s) c)(of_nat c := replicate BSIZE 0)) start k)"
  using assms(2) unfolding r_def
proof (induction n)
  case 0
  then show ?case using assms(1) bframe_refl [THEN lframe_intros(1)] by simp
next
  case (Suc n)
  let ?N = "unat (sb_size (sb s))"
  let ?r = "List.find (block_free V (sb s)) [0..<min (n * BPB) ?N]"
  have lt: "n * BPB < ?N" using Suc.prems by simp
  have split: "[0..<min (Suc n * BPB) ?N] = [0..<min (n * BPB) ?N] @ [n * BPB..<min (Suc n * BPB) ?N]"
    using lt upt_add_eq_append [of 0 "n * BPB" "min (Suc n * BPB) ?N - n * BPB"] by simp
  obtain t where t: "for_loop (balloc_body ROOTDEV) [0..<n] s = Ret (map_option of_nat ?r) t" "lframe s t"
    "case ?r of None \<Rightarrow> in_txn t p V start (Suc (Suc k))
     | Some c \<Rightarrow> in_txn t p ((bit_set V (sb s) c)(of_nat c := replicate BSIZE 0)) start k" using Suc.IH lt by auto
  show ?case
  proof (cases ?r)
    case (Some c)
    then show ?thesis using t unfolding split find_append by (simp add: for_loop_append)
  next
    case None
    with t have tx: "in_txn t p V start (Suc (Suc k))" "n * BPB < unat (sb_size (sb t))" using lt by (simp_all add: lframe_fs [OF t(2)])
    from balloc_body_spec [OF this] obtain u where u: "lframe t u"
      "balloc_body ROOTDEV n t = Ret (map_option of_nat (List.find (block_free V (sb s)) [n * BPB..<min (Suc n * BPB) ?N])) u"
      "case List.find (block_free V (sb s)) [n * BPB..<min (Suc n * BPB) ?N] of None \<Rightarrow> in_txn u p V start (Suc (Suc k))
       | Some c \<Rightarrow> in_txn u p ((bit_set V (sb s) c)(of_nat c := replicate BSIZE 0)) start k"
      unfolding lframe_fs [OF t(2)] by blast
    have "for_loop (balloc_body ROOTDEV) [0..<Suc n] s = Ret (map_option of_nat (List.find (block_free V (sb s)) [n * BPB..<min (Suc n * BPB) ?N])) u"
      using t(1) u(2) None by (simp add: for_loop_append split: option.split)
    then show ?thesis using u(3) lframe_trans [OF t(2) u(1)] None unfolding split find_append by simp
  qed
qed

lemma balloc_spec:
  fixes s :: "'z fsstate_scheme"
  assumes tx: "in_txn s p V start (Suc (Suc k))"
  defines "r \<equiv> List.find (block_free V (sb s)) [0..<unat (sb_size (sb s))]"
  obtains t where "lframe s t"
    "balloc ROOTDEV s = (case r of Some c \<Rightarrow> Ret (of_nat c) t
       | None \<Rightarrow> res_bind (printf (Some (bytes ''balloc: out of blocks'' @ [10])) [] t) (\<lambda>_ s. Ret 0 s))"
    "case r of None \<Rightarrow> in_txn t p V start (Suc (Suc k))
     | Some c \<Rightarrow> in_txn t p ((bit_set V (sb s) c)(of_nat c := replicate BSIZE 0)) start k"
proof -
  let ?N = "unat (sb_size (sb s))" and ?n = "(unat (sb_size (sb s)) + BPB - 1) div BPB"
  have B: "0 < BPB" by (simp add: BPB_def BSIZE_def)
  have e: "?n * BPB + (?N + BPB - 1) mod BPB = ?N + BPB - 1" "(?N + BPB - 1) mod BPB < BPB" using B by simp_all
  have "?n * BPB < ?N + BPB" "?N \<le> ?n * BPB" using e B by linarith+
  with balloc_loop_spec [OF tx, of ?n] obtain t where t: "for_loop (balloc_body ROOTDEV) [0..<?n] s = Ret (map_option of_nat r) t" "lframe s t"
    "case r of None \<Rightarrow> in_txn t p V start (Suc (Suc k))
     | Some c \<Rightarrow> in_txn t p ((bit_set V (sb s) c)(of_nat c := replicate BSIZE 0)) start k" by (auto simp: r_def min_absorb2)
  show thesis by (rule that [OF t(2) _ t(3)]) (use t(1) in \<open>simp add: balloc_def split: option.split\<close>)
qed

section \<open>Claims\<close>

text \<open>
  C14. The block allocator is first fit over the free bitmap, and freeing undoes it. Within a
  transaction, if some block of the disk is free then \<^verbatim>\<open>balloc\<close> returns the first free one, zeroed,
  marks it in use and changes no other free bit and no other block; \<^verbatim>\<open>bfree\<close> of that block then makes
  the bitmap what it was.
\<close>

theorem balloc_first_fit:
  fixes s :: "'z fsstate_scheme"
  assumes "in_txn s p V start (k + 3)" and "List.find (block_free V (sb s)) [0..<unat (sb_size (sb s))] = Some b"
    and "\<forall>c < unat (sb_size (sb s)). BBLOCK (of_nat c) (sb s) \<noteq> of_nat b"
  shows "\<exists>t u V' V''. balloc ROOTDEV s = Ret (of_nat b) t \<and> in_txn t p V' start (k + 1) \<and> V' (of_nat b) = replicate BSIZE 0 \<and>
    (\<forall>c < unat (sb_size (sb s)). block_free V' (sb s) c \<longleftrightarrow> block_free V (sb s) c \<and> c \<noteq> b) \<and>
    (\<forall>n. n \<noteq> of_nat b \<and> n \<noteq> BBLOCK (of_nat b) (sb s) \<longrightarrow> V' n = V n) \<and> inodes t = inodes s \<and>
    bfree ROOTDEV (of_nat b) t = Ret () u \<and> in_txn u p V'' start k \<and>
    (\<forall>c < unat (sb_size (sb s)). block_free V'' (sb s) c \<longleftrightarrow> block_free V (sb s) c)"
proof -
  let ?N = "unat (sb_size (sb s))"
  have tx: "in_txn s p V start (Suc (Suc (k + 1)))" using assms(1) by (simp add: eval_nat_numeral)
  have N: "?N < 2 ^ 32" using unsigned_less [of "sb_size (sb s)", where ?'a = nat] by simp
  have b: "b < ?N" "block_free V (sb s) b" using assms(2) by (auto simp: find_Some_iff)
  have b32: "b < 2 ^ 32" using b(1) N by simp
  define V' where "V' = (bit_set V (sb s) b)(of_nat b := replicate BSIZE 0)"
  obtain t where t: "lframe s t" "balloc ROOTDEV s = Ret (of_nat b) t" "in_txn t p V' start (k + 1)"
    by (rule balloc_spec [OF tx]) (simp add: assms(2) V'_def)
  have f: "block_free V' (sb s) c \<longleftrightarrow> block_free V (sb s) c \<and> c \<noteq> b" if "c < ?N" for c
  proof -
    have "block_free V' (sb s) c = block_free (bit_set V (sb s) b) (sb s) c" using assms(3) that by (simp add: block_free_def V'_def)
    then show ?thesis using block_free_bit_set [of V b c "sb s"] in_txn_len [OF tx] that N b32 by simp
  qed
  define B where "B = BBLOCK (of_nat b) (sb s)"
  define V'' where "V'' = V'(B := (V' B)[b mod BPB div 8 := (V' B) ! (b mod BPB div 8) AND NOT (bit_mask (b mod BPB))])"
  have nf: "\<not> block_free V' (sb t) b" using f [OF b(1)] by (simp add: lframe_fs [OF t(1)])
  have tk: "in_txn t p V' start (Suc k)" using t(3) by simp
  obtain u where u: "bfree ROOTDEV (of_nat b) t = Ret () u" "in_txn u p V'' start k"
    by (rule bfree_spec [OF tk nf b32]) (simp add: lframe_fs [OF t(1)] V''_def B_def)
  have g: "block_free V'' (sb s) c \<longleftrightarrow> block_free V (sb s) c" if c: "c < ?N" for c
    using block_free_clear [of V' b c "sb s"] in_txn_len [OF tk] b b32 f [OF c] c N by (auto simp: V''_def B_def)
  have "\<forall>n. n \<noteq> of_nat b \<and> n \<noteq> BBLOCK (of_nat b) (sb s) \<longrightarrow> V' n = V n" by (simp add: V'_def bit_set_def Let_def)
  then show ?thesis using t(2,3) u f g lframe_fs(2) [OF t(1)] by (intro exI [of _ t] exI [of _ u] exI [of _ V'] exI [of _ V'']) (simp add: V'_def)
qed

text \<open>
  C15. Inode round trip. Within a transaction, \<^verbatim>\<open>iupdate\<close> writes the in-memory inode to its place on
  disk: another table entry for the same inode number, not yet valid, that the loading part of \<^verbatim>\<open>ilock\<close>
  then fills, under the entry's lock, gets exactly the type, device numbers, link count, size and block
  addresses that were written. No other inode on disk changes.
\<close>

theorem iupdate_ilock_roundtrip:
  fixes s :: "'z fsstate_scheme"
  assumes "in_txn s p V start (k + 1)" and "i_dev (inodes s ip) = ROOTDEV" and "length (i_addrs (inodes s ip)) = NDIRECT + 1"
    and "i_type (inodes s ip) \<noteq> 0" and "jp \<noteq> ip" and "i_dev (inodes s jp) = ROOTDEV" and "i_inum (inodes s jp) = i_inum (inodes s ip)"
    and "\<not> i_valid (inodes s jp)"
  shows "\<exists>t u V'. iupdate ip s = Ret () t \<and> in_txn t p V' start k \<and> ilock_load jp t = Ret () u \<and> i_valid (inodes u jp) \<and>
    ino_dinode (inodes u jp) = ino_dinode (inodes s ip) \<and>
    (\<forall>i. i \<noteq> i_inum (inodes s ip) \<longrightarrow>
       get_dinode (V' (IBLOCK i (sb s))) (dinode_off i) = get_dinode (V (IBLOCK i (sb s))) (dinode_off i))"
proof -
  let ?n = "i_inum (inodes s ip)" and ?d = "ino_dinode (inodes s ip)"
  let ?B = "IBLOCK ?n (sb s)"
  define V' where "V' = V(?B := put_dinode (V ?B) (dinode_off ?n) ?d)"
  have l: "dinode_off ?n + 64 \<le> length (V ?B)" "length (d_addrs ?d) = NDIRECT + 1"
    using in_txn_len [OF assms(1)] dinode_off_le assms(3) by (simp_all add: ino_dinode_def)
  have tx: "in_txn s p V start (Suc k)" using assms(1) by simp
  obtain t where t: "iupdate ip s = Ret () t" "lframe s t" "in_txn t p V' start k"
    by (rule iupdate_spec [OF tx assms(2,3)]) (simp add: V'_def)
  have rd: "get_dinode (V' ?B) (dinode_off ?n) = ?d" using get_put_dinode(1) [OF l] by (simp add: V'_def)
  obtain u where u: "ilock_load jp t = Ret () u"
    "inodes u = (inodes t)(jp := (inodes t jp)\<lparr>i_type := d_type ?d, i_major := d_major ?d, i_minor := d_minor ?d,
       i_nlink := d_nlink ?d, i_size := d_size ?d, i_addrs := d_addrs ?d, i_valid := True\<rparr>)"
    by (rule ilock_load_spec [OF t(3), of jp]) (use assms(4,6-8) rd in \<open>simp_all add: lframe_fs [OF t(2)] ino_dinode_def\<close>)
  have "get_dinode (V' (IBLOCK i (sb s))) (dinode_off i) = get_dinode (V (IBLOCK i (sb s))) (dinode_off i)" if "i \<noteq> ?n" for i
  proof (cases "IBLOCK i (sb s) = ?B")
    case True
    then show ?thesis using get_put_dinode(3) [OF l dinode_off_apart] that by (simp add: V'_def)
  qed (simp add: V'_def)
  then show ?thesis using t(1,3) u by (intro exI [of _ t] exI [of _ u] exI [of _ V']) (simp add: ino_dinode_def)
qed

section \<open>Witnesses\<close>

text \<open>An empty disk of 1000 blocks inside a transaction; inode 1 is in entries 0 and 1 of the inode table.\<close>

definition txn_start :: fsstate where
  "txn_start = blank_fsstate
     \<lparr>lg := \<lparr>lg_start = 2, lg_size = 30, lg_outstanding = 1, lg_committing = False, lg_dev = ROOTDEV, lh_n = 0, lh_block = replicate LOGSIZE 0\<rparr>,
      inodes := \<lambda>i. \<lparr>i_dev = ROOTDEV, i_inum = 1, i_ref = 1, i_valid = (i = 0), i_type = 2, i_major = 0, i_minor = 0, i_nlink = 1,
        i_size = 0, i_addrs = replicate 13 0\<rparr>\<rparr>"

lemmas blank_state_defs = fsstate.defs blank_fsstate_def cnstate.defs blank_cnstate_def prstate.defs ustate.defs
  blank_ustate_def lgstate.defs bstate.defs blank_bstate_def myproc_def cpuid_def

lemma txn_start_simps:
  "bufs txn_start = (\<lambda>_. blank_buf)" "disk txn_start = (\<lambda>_. replicate BSIZE 7)" "held txn_start = []" "myproc txn_start = Some 0"
  "sb txn_start = \<lparr>sb_magic = FSMAGIC, sb_size = 1000, sb_nblocks = 954, sb_ninodes = 200, sb_nlog = 30, sb_logstart = 2, sb_inodestart = 32,
     sb_bmapstart = 45\<rparr>"
  by (simp_all add: txn_start_def blank_state_defs)

lemma binit_fs:
  fixes s :: "'z fsstate_scheme"
  shows "sb (binit s) = sb s" "inodes (binit s) = inodes s"
proof -
  have "sb (binit_step i t) = sb t \<and> inodes (binit_step i t) = inodes t" for i and t :: "'z fsstate_scheme"
    by (simp add: binit_step_def Let_def upd_buf_def initsleeplock_def upd_slock_def)
  then have "sb (fold binit_step is t) = sb t \<and> inodes (fold binit_step is t) = inodes t" for "is" and t :: "'z fsstate_scheme"
    by (induction "is" arbitrary: t) simp_all
  then show "sb (binit s) = sb s" "inodes (binit s) = inodes s" by (simp_all add: binit_def Let_def upd_buf_def)
qed

lemma txn_start_in_txn: "in_txn (binit txn_start) 0 (\<lambda>_. replicate BSIZE 7) 2 (k + 3)" if "k < 20"
proof -
  have "bcache (binit txn_start) 0 (disk txn_start) (\<lambda>_. 0) {}"
    by (rule binit_bcache) (simp add: cache_zeroed_def txn_start_simps bunlocked_def no_proc_lock_def)
  moreover have "ipins False [] 0 = (\<lambda>_. 0)" by (simp add: ipins_def fun_eq_iff)
  moreover have "in_log (binit txn_start) 2 []" "log_open (binit txn_start) (k + 2)" "lg_size (lg (binit txn_start)) \<le> int LOGSIZE"
    using that by (simp_all add: in_log_def log_open_def binit_fs binit_rest txn_start_simps) (simp_all add: txn_start_def LOGSIZE_def MAXOPBLOCKS_def)
  ultimately show ?thesis unfolding in_txn_def by (auto intro!: exI [of _ "[]"] simp: txn_start_simps NBUF_def MAXOPBLOCKS_def)
qed

theorem balloc_first_fit_witness:
  "\<exists>t u. balloc ROOTDEV (binit txn_start) = Ret 3 t \<and> bfree ROOTDEV 3 t = Ret () u"
proof -
  let ?V = "\<lambda>_ :: uint. replicate BSIZE (7 :: uchar)" and ?s = "binit txn_start"
  have m: "(7 :: uchar) = mask 3" by (simp add: mask_eq_exp_minus_1)
  have "block_free ?V b c \<longleftrightarrow> 3 \<le> c" if "c < 8" for b c
    using that by (simp add: block_free_def bit_free_iff BPB_def BSIZE_def m bit_simps not_less)
  then have 1: "List.find (block_free ?V (sb ?s)) [0..<unat (sb_size (sb ?s))] = Some 3"
    by (auto simp: find_Some_iff binit_fs txn_start_simps intro!: exI [of _ 3])
  have 2: "\<forall>c < unat (sb_size (sb ?s)). BBLOCK (of_nat c) (sb ?s) \<noteq> of_nat 3"
    by (simp add: BBLOCK_nat binit_fs txn_start_simps BPB_def BSIZE_def)
  have 0: "(0 :: nat) < 20" by simp
  from balloc_first_fit [OF txn_start_in_txn [OF 0] 1 2] show ?thesis by auto
qed

theorem iupdate_ilock_roundtrip_witness:
  "\<exists>t u. iupdate 0 (binit txn_start) = Ret () t \<and> ilock_load 1 t = Ret () u \<and> i_size (inodes u 1) = 0 \<and> i_type (inodes u 1) = 2"
proof -
  have 2: "(2 :: nat) < 20" by simp
  have i: "inodes (binit txn_start) = (\<lambda>i. \<lparr>i_dev = ROOTDEV, i_inum = 1, i_ref = 1, i_valid = (i = 0), i_type = 2, i_major = 0,
     i_minor = 0, i_nlink = 1, i_size = 0, i_addrs = replicate 13 0\<rparr>)" by (simp add: binit_fs) (simp add: txn_start_def)
  have tx: "in_txn (binit txn_start) 0 (\<lambda>_. replicate BSIZE 7) 2 (4 + 1)" using txn_start_in_txn [OF 2] by simp
  from iupdate_ilock_roundtrip [OF tx, of 0 1] show ?thesis by (fastforce simp: i ino_dinode_def NDIRECT_def)
qed

end
