(* ===== verification/Ulib.thy ===== *)
theory Ulib
  imports Printf
begin

text \<open>
  The user library: \<^verbatim>\<open>user/ulib.c\<close> and \<^verbatim>\<open>user/printf.c\<close>. Blocks of memory and strings are as for
  \<^verbatim>\<open>kernel/string.c\<close>: byte memory for the block operations, and for the string operations the list
  of bytes from the pointer to the end of its array, where an access past the end is \<open>None\<close>.
\<close>

section \<open>Strings\<close>

fun strcpy :: "uchar list \<Rightarrow> uchar list \<Rightarrow> uchar list option" where
  "strcpy (_ # s) (c # t) = map_option ((#) c) (if c \<noteq> 0 then strcpy s t else Some s)"
| "strcpy _ _ = None"

fun strcmp :: "uchar list \<Rightarrow> uchar list \<Rightarrow> int option" where
  "strcmp (a # p) (b # q) = (if a \<noteq> 0 \<and> a = b then strcmp p q else Some (uint a - uint b))"
| "strcmp _ _ = None"

fun ustrlen :: "uchar list \<Rightarrow> nat option" where
  "ustrlen [] = None"
| "ustrlen (c # s) = (if c \<noteq> 0 then map_option Suc (ustrlen s) else Some 0)"

text \<open>The index of the character, or \<open>None\<close> for the null pointer. The terminating zero is never found.\<close>

fun strchr :: "uchar list \<Rightarrow> uchar \<Rightarrow> nat option option" where
  "strchr [] c = None"
| "strchr (x # s) c =
     (if x = 0 then Some None else if x = c then Some (Some 0) else map_option (map_option Suc) (strchr s c))"

text \<open>The arithmetic of \<^verbatim>\<open>int\<close> wraps around.\<close>

fun atoi_loop :: "cint \<Rightarrow> uchar list \<Rightarrow> cint option" where
  "atoi_loop n [] = None"
| "atoi_loop n (c # s) = (if 48 \<le> c \<and> c \<le> 57 then atoi_loop (n * 10 + ucast c - 48) s else Some n)"

definition atoi :: "uchar list \<Rightarrow> cint option" where
  "atoi s = atoi_loop 0 s"

text \<open>
  \<^verbatim>\<open>gets\<close>: \<open>rd k\<close> is the result of the \<open>k\<close>-th \<^verbatim>\<open>read(0, &c, 1)\<close>, the byte read or \<open>None\<close> at the end of
  the file or on an error. The last argument of the loop is what is left of \<open>max - 1\<close>.
\<close>

fun gets_loop :: "(nat \<Rightarrow> uchar option) \<Rightarrow> nat \<Rightarrow> nat \<Rightarrow> uchar list \<Rightarrow> nat \<Rightarrow> (nat \<times> uchar list \<times> nat) option" where
  "gets_loop rd k i buf 0 = Some (i, buf, k)"
| "gets_loop rd k i buf (Suc r) =
     (case rd k of
        None \<Rightarrow> Some (i, buf, Suc k)
      | Some c \<Rightarrow>
          if i < length buf then
            (if c = 10 \<or> c = 13 then Some (Suc i, buf[i := c], Suc k) else gets_loop rd (Suc k) (Suc i) (buf[i := c]) r)
          else None)"

definition gets :: "(nat \<Rightarrow> uchar option) \<Rightarrow> nat \<Rightarrow> uchar list \<Rightarrow> nat \<Rightarrow> (uchar list \<times> nat) option" where
  "gets rd k buf mx =
     (case gets_loop rd k 0 buf (mx - 1) of
        None \<Rightarrow> None
      | Some (i, buf, k) \<Rightarrow> if i < length buf then Some (buf[i := 0], k) else None)"

section \<open>Blocks of memory\<close>

definition umemset :: "memory \<Rightarrow> uint64 \<Rightarrow> uchar \<Rightarrow> nat \<Rightarrow> memory" where
  "umemset m dst c n = fold (\<lambda>i m. m(dst + of_nat i := c)) [0..<n] m"

definition umemmove :: "memory \<Rightarrow> uint64 \<Rightarrow> uint64 \<Rightarrow> nat \<Rightarrow> memory" where
  "umemmove m dst src n =
     (if src > dst then copy_up m dst src n else copy_down m (dst + of_nat n) (src + of_nat n) n)"

fun umemcmp :: "memory \<Rightarrow> uint64 \<Rightarrow> uint64 \<Rightarrow> nat \<Rightarrow> int" where
  "umemcmp m p1 p2 0 = 0"
| "umemcmp m p1 p2 (Suc n) = (if m p1 \<noteq> m p2 then uint (m p1) - uint (m p2) else umemcmp m (p1 + 1) (p2 + 1) n)"

section \<open>Formatted output\<close>

text \<open>
  \<^verbatim>\<open>user/printf.c\<close> writes one byte at a time and ignores the results; the functions give the bytes
  in order. \<open>None\<close> is an access outside an array or a missing argument.
\<close>

definition udigits :: "uchar list" where
  "udigits = bytes ''0123456789ABCDEF''"

fun uprintint_loop :: "nat \<Rightarrow> uint \<Rightarrow> uint \<Rightarrow> uchar list option" where
  "uprintint_loop 0 x base = None"
| "uprintint_loop (Suc n) x base =
     (let d = udigits ! unat (x mod base) in
      if x div base = 0 then Some [d] else map_option ((#) d) (uprintint_loop n (x div base) base))"

definition uprintint :: "cint \<Rightarrow> uint \<Rightarrow> bool \<Rightarrow> uchar list option" where
  "uprintint xx base sg =
     (let neg = (sg \<and> sint xx < 0); x = (if neg then - xx else xx) in
      case uprintint_loop 16 x base of
        None \<Rightarrow> None
      | Some buf \<Rightarrow> if neg then (if length buf < 16 then Some (rev (buf @ [of_char CHR ''-''])) else None) else Some (rev buf))"

definition uprintptr :: "uint64 \<Rightarrow> uchar list" where
  "uprintptr x = bytes ''0x'' @ map (\<lambda>i. udigits ! unat (drop_bit 60 (push_bit (4 * i) x))) [0..<16]"

text \<open>The directive after a \<^verbatim>\<open>%\<close>: its output and the arguments left.\<close>

definition directive :: "uchar \<Rightarrow> farg list \<Rightarrow> (uchar list \<times> farg list) option" where
  "directive c ap =
     (if c = of_char CHR ''d'' then
        (case ap of IntArg x # ap \<Rightarrow> map_option (\<lambda>out. (out, ap)) (uprintint x 10 True) | _ \<Rightarrow> None)
      else if c = of_char CHR ''l'' then
        (case ap of PtrArg x # ap \<Rightarrow> map_option (\<lambda>out. (out, ap)) (uprintint (ucast x) 10 False) | _ \<Rightarrow> None)
      else if c = of_char CHR ''x'' then
        (case ap of IntArg x # ap \<Rightarrow> map_option (\<lambda>out. (out, ap)) (uprintint x 16 False) | _ \<Rightarrow> None)
      else if c = of_char CHR ''p'' then
        (case ap of PtrArg x # ap \<Rightarrow> Some (uprintptr x, ap) | _ \<Rightarrow> None)
      else if c = of_char CHR ''s'' then
        (case ap of StrArg x # ap \<Rightarrow> Some (case x of None \<Rightarrow> bytes ''(null)'' | Some s \<Rightarrow> s, ap) | _ \<Rightarrow> None)
      else if c = of_char CHR ''c'' then
        (case ap of IntArg x # ap \<Rightarrow> Some ([ucast x], ap) | _ \<Rightarrow> None)
      else if c = of_char CHR ''%'' then Some ([c], ap)
      else Some ([of_char CHR ''%'', c], ap))"

text \<open>The loop of \<^verbatim>\<open>vprintf\<close>; the first argument tells whether \<^verbatim>\<open>state\<close> is \<^verbatim>\<open>'%'\<close>.\<close>

fun vprintf :: "bool \<Rightarrow> uchar list \<Rightarrow> farg list \<Rightarrow> uchar list option" where
  "vprintf st [] ap = Some []"
| "vprintf st (c # fmt) ap =
     (if \<not> st then
        (if c = of_char CHR ''%'' then vprintf True fmt ap else map_option ((#) c) (vprintf False fmt ap))
      else
        (case directive c ap of
           None \<Rightarrow> None
         | Some (out, ap) \<Rightarrow> map_option ((@) out) (vprintf False fmt ap)))"

definition fprintf :: "uchar list \<Rightarrow> farg list \<Rightarrow> uchar list option" where
  "fprintf fmt ap = vprintf False fmt ap"

section \<open>Properties\<close>

lemma umemmove_copies:
  assumes "unat dst + n \<le> 2 ^ 64" and "unat src + n \<le> 2 ^ 64"
  shows "umemmove m dst src n x = (if in_range dst n x then m (x - dst + src) else m x)"
  using assms copy_up_apply [of dst n src m x] copy_down_apply [of dst n src m x] by (auto simp: umemmove_def word_less_nat_alt)

lemma umemcmp_memcmp: "umemcmp m a b n = memcmp m a b n"
  by (induction n arbitrary: a b) simp_all

lemma ustrlen_cstr: "0 \<in> set s \<Longrightarrow> ustrlen s = Some (length (cstr s))"
  by (induction s) auto

lemma strcpy_copies:
  assumes "0 \<in> set t" and "length (cstr t) < length s"
  shows "strcpy s t = Some (cstr t @ 0 # drop (Suc (length (cstr t))) s)"
  using assms
proof (induction s t rule: strcpy.induct)
  case (1 x s c t)
  then show ?case by (cases "c = 0") auto
qed auto

lemma strcmp_zero_iff:
  assumes "0 \<in> set s" and "0 \<in> set t"
  shows "\<exists>r. strcmp s t = Some r \<and> (r = 0 \<longleftrightarrow> cstr s = cstr t)"
  using assms
proof (induction s t rule: strcmp.induct)
  case (1 a p b q)
  have "uint a = uint b \<longleftrightarrow> a = b" by (simp add: word_uint_eq_iff)
  then show ?case using 1 by (cases "a = 0"; cases "b = 0") auto
qed auto

lemma strchr_finds:
  assumes "0 \<in> set s"
  shows "strchr s c = Some (if c \<in> set (cstr s) then Some (length (takeWhile (\<lambda>x. x \<noteq> c) (cstr s))) else None)"
  using assms by (induction s) (auto simp: cstr_def)

text \<open>The bytes of the next line: up to and including its end, and at most \<open>n\<close> of them.\<close>

fun input_line :: "(nat \<Rightarrow> uchar option) \<Rightarrow> nat \<Rightarrow> nat \<Rightarrow> uchar list" where
  "input_line rd k 0 = []"
| "input_line rd k (Suc n) =
     (case rd k of None \<Rightarrow> [] | Some c \<Rightarrow> c # (if c = 10 \<or> c = 13 then [] else input_line rd (Suc k) n))"

lemma length_input_line: "length (input_line rd k n) \<le> n"
  by (induction n arbitrary: k) (auto split: option.split)

lemma gets_loop_line:
  assumes "length pre + n \<le> length (pre @ buf)"
  shows "\<exists>k'. gets_loop rd k (length pre) (pre @ buf) n =
    Some (length pre + length (input_line rd k n), pre @ input_line rd k n @ drop (length (input_line rd k n)) buf, k')"
  using assms
proof (induction n arbitrary: k pre buf)
  case 0
  then show ?case by simp
next
  case (Suc n)
  obtain x xs where buf: "buf = x # xs" using Suc.prems by (cases buf) auto
  show ?case
  proof (cases "rd k")
    case None
    then show ?thesis by simp
  next
    case (Some c)
    have u: "(pre @ buf)[length pre := c] = (pre @ [c]) @ xs" by (simp add: buf)
    have IH: "\<exists>k'. gets_loop rd (Suc k) (Suc (length pre)) ((pre @ [c]) @ xs) n =
      Some (Suc (length pre) + length (input_line rd (Suc k) n), (pre @ [c]) @ input_line rd (Suc k) n @ drop (length (input_line rd (Suc k) n)) xs, k')"
      using Suc.IH [of "pre @ [c]" xs "Suc k"] Suc.prems buf by simp
    show ?thesis using Some IH buf unfolding gets_loop.simps u by auto
  qed
qed

text \<open>
  \<^verbatim>\<open>gets\<close> stays inside its buffer, also when the line is longer than the buffer, and the buffer then
  starts with the line read, its end included, as a terminated string of less than \<^verbatim>\<open>max\<close> bytes; the
  bytes of the buffer after that are as before.
\<close>

lemma gets_line:
  assumes "0 < mx" and "mx \<le> length buf"
  shows "\<exists>k'. gets rd k buf mx = Some (input_line rd k (mx - 1) @ 0 # drop (Suc (length (input_line rd k (mx - 1)))) buf, k') \<and>
    length (input_line rd k (mx - 1)) < mx"
proof -
  let ?l = "input_line rd k (mx - 1)"
  have l: "length ?l < mx" using length_input_line [of rd k "mx - 1"] assms(1) by simp
  obtain k' where "gets_loop rd k 0 buf (mx - 1) = Some (length ?l, ?l @ drop (length ?l) buf, k')"
    using gets_loop_line [of "[]" "mx - 1" buf rd k] assms(2) by fastforce
  moreover have "(?l @ drop (length ?l) buf)[length ?l := 0] = ?l @ 0 # drop (Suc (length ?l)) buf"
    using l assms(2) by (simp add: list_update_append Cons_nth_drop_Suc [symmetric])
  ultimately show ?thesis using l assms(2) by (auto simp: gets_def)
qed

lemma gets_line_witness:
  "\<exists>k'. gets (\<lambda>k. if k = 2 then Some 10 else Some 104) 0 (replicate 8 1) 8 = Some ([104, 104, 10, 0, 1, 1, 1, 1], k')"
proof -
  let ?rd = "\<lambda>k :: nat. if k = 2 then Some 10 else Some (104 :: uchar)"
  have r: "input_line ?rd k (Suc n) = (if k = 2 then [10] else 104 # input_line ?rd (Suc k) n)" for k n by simp
  have "input_line ?rd 0 (Suc (Suc (Suc 4))) = [104, 104, 10]" by (simp only: r) simp
  then have "input_line ?rd 0 (8 - 1) = [104, 104, 10]" by (simp add: numeral_eq_Suc)
  moreover have "drop (Suc (length [104, 104, 10 :: uchar])) (replicate 8 (1 :: uchar)) = [1, 1, 1, 1]" by (simp add: numeral_eq_Suc)
  ultimately show ?thesis using gets_line [of 8 "replicate 8 1" ?rd 0] by simp
qed

section \<open>Numbers\<close>

lemma udigits_dec: "d < 10 \<Longrightarrow> udigits ! d = digits ! d"
proof -
  assume "d < 10"
  then have "d \<in> {0, 1, 2, 3, 4, 5, 6, 7, 8, 9}" by auto
  then show ?thesis by (auto simp: digits_def udigits_def bytes_def)
qed

lemma uprintint_loop_dec: "uprintint_loop n x 10 = printint_loop n x 10"
proof (induction n arbitrary: x)
  case (Suc n)
  have "unat (x mod 10) < 10" by (simp add: unat_mod)
  then show ?case using Suc by (simp add: Let_def udigits_dec)
qed simp

lemma atoi_loop_digits:
  "list_all is_digit ds \<Longrightarrow> atoi_loop (of_nat n) (ds @ 0 # rest) = Some (of_nat (fold (\<lambda>c v. 10 * v + (unat c - 48)) ds n))"
proof (induction ds arbitrary: n)
  case (Cons d ds)
  then have d: "48 \<le> unat d" "unat d \<le> 57" by (simp_all add: is_digit_def)
  then have "48 \<le> d" "d \<le> 57" by (simp_all add: word_le_nat_alt)
  moreover have "of_nat n * 10 + ucast d - 48 = (of_nat (10 * n + (unat d - 48)) :: cint)"
    using d(1) by (simp add: of_nat_diff algebra_simps)
  ultimately have "atoi_loop (of_nat n) ((d # ds) @ 0 # rest) = atoi_loop (of_nat (10 * n + (unat d - 48))) (ds @ 0 # rest)"
    unfolding append_Cons atoi_loop.simps by (simp only: if_True simp_thms)
  also have "\<dots> = Some (of_nat (fold (\<lambda>c v. 10 * v + (unat c - 48)) ds (10 * n + (unat d - 48))))"
    using Cons.prems by (intro Cons.IH) simp
  finally show ?case by simp
qed simp

text \<open>
  C40. The user library reads back the numbers it prints: \<^verbatim>\<open>atoi\<close> of the string that \<^verbatim>\<open>printf("%d", x)\<close>
  prints is \<^verbatim>\<open>x\<close>, for every \<^verbatim>\<open>x\<close> that is not negative; for a negative one it is 0, since \<^verbatim>\<open>atoi\<close> knows no
  sign. No digit is stored outside the 16 bytes of \<^verbatim>\<open>buf\<close>.
\<close>

theorem atoi_printf:
  "\<exists>out. fprintf (bytes ''%d'') [IntArg x] = Some out \<and> atoi (out @ 0 # rest) = Some (if sint x < 0 then 0 else x)"
proof -
  let ?y = "if sint x < 0 then - x else x"
  have "unat ?y < 10 ^ 10" using unsigned_less [of ?y, where ?'a = nat] by (simp del: if_split)
  from printint_loop_dec [OF this, of 6] obtain ds where ds: "uprintint_loop 16 ?y 10 = Some ds" "dec_nat (rev ds) = unat ?y"
    "length ds \<le> 10" "list_all is_digit ds" by (auto simp: uprintint_loop_dec)
  have f: "fprintf (bytes ''%d'') [IntArg x] = uprintint x 10 True"
    by (simp add: fprintf_def bytes_def directive_def option.map_comp comp_def option.map_ident split: option.split)
  show ?thesis
  proof (cases "sint x < 0")
    case True
    then show ?thesis using ds f by (simp add: uprintint_def Let_def atoi_def)
  next
    case False
    have "atoi (rev ds @ 0 # rest) = Some (of_nat (dec_nat (rev ds)))"
      using atoi_loop_digits [of "rev ds" 0] ds(4) by (simp add: atoi_def dec_nat_def)
    then show ?thesis using False ds f by (simp add: uprintint_def Let_def)
  qed
qed

end
