(* ===== verification/Grep.thy ===== *)
theory Grep
  imports Ulib Bytes
begin

text \<open>
  \<^verbatim>\<open>user/grep.c\<close>: the matcher, against the language of the pattern, and the loop that cuts the input
  into lines, for every way the reads may split it.
\<close>

section \<open>Matcher\<close>

text \<open>Strings are the bytes from the pointer to the end of the array; an access past the end is \<open>None\<close>.\<close>

function matchhere :: "uchar list \<Rightarrow> uchar list \<Rightarrow> bool option"
  and matchstar :: "uchar \<Rightarrow> uchar list \<Rightarrow> uchar list \<Rightarrow> bool option" where
  "matchhere [] text = None"
| "matchhere (r0 # re) text =
     (if r0 = 0 then Some True
      else case re of
        [] \<Rightarrow> None
      | r1 # re2 \<Rightarrow>
          if r1 = of_char CHR ''*'' then matchstar r0 re2 text
          else case text of
            [] \<Rightarrow> None
          | t0 # ts \<Rightarrow>
              if r0 = of_char CHR ''$'' \<and> r1 = 0 then Some (t0 = 0)
              else if t0 \<noteq> 0 \<and> (r0 = of_char CHR ''.'' \<or> r0 = t0) then matchhere re ts
              else Some False)"
| "matchstar c re text =
     (case matchhere re text of
        None \<Rightarrow> None
      | Some r \<Rightarrow>
          if r then Some True
          else case text of
            [] \<Rightarrow> None
          | t0 # ts \<Rightarrow> if t0 \<noteq> 0 \<and> (t0 = c \<or> c = of_char CHR ''.'') then matchstar c re ts else Some False)"
  by pat_completeness auto

termination
  by (relation "measures [\<lambda>x. case x of Inl (re, _) \<Rightarrow> length re | Inr (_, re, _) \<Rightarrow> length re,
       \<lambda>x. case x of Inl (_, text) \<Rightarrow> length text | Inr (_, _, text) \<Rightarrow> length text,
       \<lambda>x. case x of Inl _ \<Rightarrow> 0 | Inr _ \<Rightarrow> 1]") simp_all

declare matchhere.simps(2) [simp del] matchstar.simps [simp del]

fun match_loop :: "uchar list \<Rightarrow> uchar list \<Rightarrow> bool option" where
  "match_loop re [] = (if matchhere re [] = Some True then Some True else None)"
| "match_loop re (t # ts) =
     (case matchhere re (t # ts) of
        None \<Rightarrow> None
      | Some r \<Rightarrow> if r then Some True else if t \<noteq> 0 then match_loop re ts else Some False)"

definition match :: "uchar list \<Rightarrow> uchar list \<Rightarrow> bool option" where
  "match re text =
     (case re of
        [] \<Rightarrow> None
      | r0 # re1 \<Rightarrow> if r0 = of_char CHR ''^'' then matchhere re1 text else match_loop re text)"

section \<open>Lines\<close>

lemma strchr_lt: "strchr s c = Some (Some i) \<Longrightarrow> i < length s"
  by (induction s arbitrary: i) (auto split: if_splits)

text \<open>
  The loop over the lines in the buffer: \<open>p\<close> is the start of the line. It returns the start of the
  incomplete line, the buffer, and the bytes written.
\<close>

function grep_lines :: "uchar list \<Rightarrow> uchar list \<Rightarrow> nat \<Rightarrow> uchar list \<Rightarrow> (nat \<times> uchar list \<times> uchar list) option" where
  "grep_lines pattern buf p out =
     (case strchr (drop p buf) 10 of
        None \<Rightarrow> None
      | Some None \<Rightarrow> Some (p, buf, out)
      | Some (Some i) \<Rightarrow>
          let q = p + i; buf = buf[q := 0] in
          (case match pattern (drop p buf) of
             None \<Rightarrow> None
           | Some r \<Rightarrow>
               if r then let buf = buf[q := 10] in grep_lines pattern buf (q + 1) (out @ take (q + 1 - p) (drop p buf))
               else grep_lines pattern buf (q + 1) out))"
  by pat_completeness auto

termination
proof (relation "measure (\<lambda>(_, buf, p, _). length buf - p)", goal_cases)
  case (2 pattern buf p out a i q buf' r x)
  then show ?case using strchr_lt [of "drop p buf" 10 i] by auto
next
  case (3 pattern buf p out a i q buf' r)
  then show ?case using strchr_lt [of "drop p buf" 10 i] by auto
qed simp

declare grep_lines.simps [simp del]

text \<open>
  \<open>rs k\<close> is the most the \<open>k\<close>-th \<^verbatim>\<open>read\<close> returns; it returns fewer bytes when fewer were asked for
  or the input is shorter, and 0 at its end.
\<close>

definition GREP_BUF :: nat where "GREP_BUF = 1024"

function grep :: "uchar list \<Rightarrow> (nat \<Rightarrow> nat) \<Rightarrow> nat \<Rightarrow> uchar list \<Rightarrow> nat \<Rightarrow> uchar list \<Rightarrow> uchar list \<Rightarrow> uchar list option" where
  "grep pattern rs k buf m input out =
     (let n = min (rs k) (min (GREP_BUF - m - 1) (length input)) in
      if n = 0 then Some out
      else let buf = put_bytes buf m (take n input); m = m + n; buf = buf[m := 0] in
        (case grep_lines pattern buf 0 out of
           None \<Rightarrow> None
         | Some (p, buf, out) \<Rightarrow>
             let m = m - p in grep pattern rs (k + 1) (take m (drop p buf) @ drop m buf) m (drop n input) out))"
  by pat_completeness auto

termination
proof (relation "measure (\<lambda>(_, _, _, _, _, input, _). length input)", goal_cases)
  case (2 pattern rs k buf m input out n)
  have "n \<le> length input" unfolding 2(1) by simp
  with 2(2) show ?case by simp
qed simp

declare grep.simps [simp del]

section \<open>The language of a pattern\<close>

datatype item = One uchar | Star uchar | Eol

fun items :: "uchar list \<Rightarrow> item list" where
  "items [] = []"
| "items [c] = (if c = of_char CHR ''$'' then [Eol] else [One c])"
| "items (c # d # re) = (if d = of_char CHR ''*'' then Star c # items re else One c # items (d # re))"

definition fits :: "uchar \<Rightarrow> uchar \<Rightarrow> bool" where
  "fits c x \<longleftrightarrow> c = of_char CHR ''.'' \<or> c = x"

fun lang :: "item list \<Rightarrow> uchar list set" where
  "lang [] = {[]}"
| "lang (One c # iss) = {x # u |x u. fits c x \<and> u \<in> lang iss}"
| "lang (Star c # iss) = {u @ v |u v. list_all (fits c) u \<and> v \<in> lang iss}"
| "lang (Eol # iss) = lang iss"

text \<open>The text has a prefix in the language, the whole text if the pattern ends in \<^verbatim>\<open>$\<close>.\<close>

definition begins :: "item list \<Rightarrow> uchar list \<Rightarrow> bool" where
  "begins iss text \<longleftrightarrow> (\<exists>u post. text = u @ post \<and> u \<in> lang iss \<and> (Eol \<in> set iss \<longrightarrow> post = []))"

definition anchored :: "uchar list \<Rightarrow> bool" where
  "anchored re \<longleftrightarrow> re \<noteq> [] \<and> hd re = of_char CHR ''^''"

definition matches :: "uchar list \<Rightarrow> uchar list \<Rightarrow> bool" where
  "matches re text \<longleftrightarrow>
     (if anchored re then begins (items (tl re)) text else \<exists>pre suf. text = pre @ suf \<and> begins (items re) suf)"

lemma beginsI: "u \<in> lang iss \<Longrightarrow> (Eol \<in> set iss \<longrightarrow> post = []) \<Longrightarrow> begins iss (u @ post)"
  unfolding begins_def by blast

lemma beginsE:
  assumes "begins iss text"
  obtains u post where "text = u @ post" "u \<in> lang iss" "Eol \<in> set iss \<longrightarrow> post = []"
  using assms unfolding begins_def by blast

lemma begins_base: "begins [] text" "begins [Eol] text \<longleftrightarrow> text = []" "\<not> begins (One c # iss) []"
  by (auto simp: begins_def)

lemma begins_One: "begins (One c # iss) (x # text) \<longleftrightarrow> fits c x \<and> begins iss text"
proof
  assume "begins (One c # iss) (x # text)"
  then show "fits c x \<and> begins iss text" by (rule beginsE) (auto intro: beginsI [of _ iss "[]", simplified] beginsI)
next
  assume a: "fits c x \<and> begins iss text"
  then have "begins iss text" ..
  then obtain u post where u: "text = u @ post" "u \<in> lang iss" "Eol \<in> set iss \<longrightarrow> post = []" by (rule beginsE)
  then have "begins (One c # iss) ((x # u) @ post)" using a by (intro beginsI) auto
  then show "begins (One c # iss) (x # text)" using u(1) by simp
qed

lemmas begins_simps = begins_base begins_One

lemma begins_Star_Nil: "begins (Star c # iss) [] \<longleftrightarrow> begins iss []"
  by (auto simp: begins_def)

lemma begins_Star_Cons:
  "begins (Star c # iss) (x # text) \<longleftrightarrow> begins iss (x # text) \<or> fits c x \<and> begins (Star c # iss) text"
proof
  assume "begins (Star c # iss) (x # text)"
  then obtain w post where w: "x # text = w @ post" "w \<in> lang (Star c # iss)" "Eol \<in> set (Star c # iss) \<longrightarrow> post = []" by (rule beginsE)
  then obtain u v where uv: "w = u @ v" "list_all (fits c) u" "v \<in> lang iss" by auto
  show "begins iss (x # text) \<or> fits c x \<and> begins (Star c # iss) text"
  proof (cases u)
    case Nil
    then have "begins iss (v @ post)" using uv w(3) by (intro beginsI) auto
    then show ?thesis using w(1) uv(1) Nil by simp
  next
    case (Cons y u')
    then have "begins (Star c # iss) ((u' @ v) @ post)" using uv w(3) by (intro beginsI) auto
    then show ?thesis using w(1) uv Cons by simp
  qed
next
  assume "begins iss (x # text) \<or> fits c x \<and> begins (Star c # iss) text"
  then show "begins (Star c # iss) (x # text)"
  proof
    assume "begins iss (x # text)"
    then obtain u post where u: "x # text = u @ post" "u \<in> lang iss" "Eol \<in> set iss \<longrightarrow> post = []" by (rule beginsE)
    have "[] @ u \<in> lang (Star c # iss)" unfolding lang.simps using u(2) by (intro CollectI exI [of _ "[]"] exI [of _ u]) simp
    then have "begins (Star c # iss) (([] @ u) @ post)" using u(3) by (intro beginsI) auto
    then show ?thesis using u(1) by simp
  next
    assume a: "fits c x \<and> begins (Star c # iss) text"
    then have "begins (Star c # iss) text" ..
    then obtain w post where w: "text = w @ post" "w \<in> lang (Star c # iss)" "Eol \<in> set (Star c # iss) \<longrightarrow> post = []" by (rule beginsE)
    then obtain u v where uv: "w = u @ v" "list_all (fits c) u" "v \<in> lang iss" by auto
    have "(x # u) @ v \<in> lang (Star c # iss)" unfolding lang.simps using uv(2,3) a by (intro CollectI exI [of _ "x # u"] exI [of _ v]) simp
    then have "begins (Star c # iss) (((x # u) @ v) @ post)" using w(3) by (intro beginsI) auto
    then show ?thesis using w(1) uv(1) by simp
  qed
qed

lemma matchstar_begins:
  assumes "\<And>ts. 0 \<notin> set ts \<Longrightarrow> matchhere re (ts @ 0 # y) = Some (begins iss ts)" and "0 \<notin> set text" and "c \<noteq> 0"
  shows "matchstar c re (text @ 0 # y) = Some (begins (Star c # iss) text)"
  using assms(2)
proof (induction "text")
  case Nil
  show ?case using assms(1) [of "[]"] by (simp add: matchstar.simps begins_Star_Nil)
next
  case (Cons t "text")
  then show ?case using assms(1) [of "t # text"]
    by (auto simp: matchstar.simps begins_Star_Cons fits_def)
qed

lemma matchhere_begins:
  assumes "0 \<notin> set re" and "0 \<notin> set text"
  shows "matchhere (re @ 0 # x) (text @ 0 # y) = Some (begins (items re) text)"
  using assms
proof (induction re arbitrary: "text" rule: items.induct)
  case 1
  then show ?case by (simp add: matchhere.simps begins_simps)
next
  case (2 c)
  then show ?case by (cases "text") (auto simp: matchhere.simps begins_simps fits_def)
next
  case (3 c d re)
  show ?case
  proof (cases "d = of_char CHR ''*''")
    case True
    have "matchstar c (re @ 0 # x) (text @ 0 # y) = Some (begins (Star c # items re) text)"
      using 3 True by (intro matchstar_begins) auto
    then show ?thesis using 3 True by (simp add: matchhere.simps)
  next
    case False
    then show ?thesis using 3 by (cases "text") (auto simp: matchhere.simps begins_simps fits_def)
  qed
qed

lemma match_loop_begins:
  assumes "0 \<notin> set re" and "0 \<notin> set text"
  shows "match_loop (re @ 0 # x) (text @ 0 # y) = Some (\<exists>pre suf. text = pre @ suf \<and> begins (items re) suf)"
  using assms(2)
proof (induction "text")
  case Nil
  then show ?case using matchhere_begins [OF assms(1), of "[]" x y] by simp
next
  case (Cons t "text")
  have "(\<exists>pre suf. t # text = pre @ suf \<and> begins (items re) suf) \<longleftrightarrow>
      begins (items re) (t # text) \<or> (\<exists>pre suf. text = pre @ suf \<and> begins (items re) suf)"
    by (auto simp: Cons_eq_append_conv)
  then show ?case using Cons matchhere_begins [OF assms(1) Cons.prems, of x y] by simp
qed

lemma match_matches:
  assumes "0 \<notin> set re" and "0 \<notin> set text"
  shows "match (re @ 0 # x) (text @ 0 # y) = Some (matches re text)"
proof (cases re)
  case Nil
  then show ?thesis using match_loop_begins [OF assms, of x y] by (simp add: match_def matches_def anchored_def)
next
  case (Cons c rs)
  then show ?thesis using assms match_loop_begins [OF assms, of x y] matchhere_begins [of rs "text" x y]
    by (auto simp: match_def matches_def anchored_def)
qed

text \<open>
  C13. The recursive matcher of \<^verbatim>\<open>grep\<close> decides the language of the pattern. A pattern is a sequence of
  characters, \<^verbatim>\<open>.\<close> for any character, and either followed by \<^verbatim>\<open>*\<close> for any number of them; \<^verbatim>\<open>match\<close> returns,
  for every terminated pattern and text, and answers 1 exactly if some part of the text is in that
  language, a part at its start if the pattern begins with \<^verbatim>\<open>^\<close> and at its end if it ends with \<^verbatim>\<open>$\<close>.
\<close>

theorem match_language:
  assumes "0 \<notin> set re" and "0 \<notin> set text"
  shows "match (re @ 0 # x) (text @ 0 # y) = Some (matches re text)"
  using assms by (rule match_matches)

theorem match_language_witness:
  "match (bytes ''^a.*c$'' @ [0]) (bytes ''abbc'' @ [0]) = Some (matches (bytes ''^a.*c$'') (bytes ''abbc''))"
  by (rule match_language) (simp_all add: bytes_def)

section \<open>Cutting the input into lines\<close>

text \<open>\<open>cut_lines cur cs\<close>: the complete lines of \<open>cur @ cs\<close>; \<open>rest cur cs\<close>: the incomplete last one.\<close>

fun cut_lines :: "uchar list \<Rightarrow> uchar list \<Rightarrow> uchar list list" where
  "cut_lines cur [] = []"
| "cut_lines cur (c # cs) = (if c = 10 then cur # cut_lines [] cs else cut_lines (cur @ [c]) cs)"

fun rest :: "uchar list \<Rightarrow> uchar list \<Rightarrow> uchar list" where
  "rest cur [] = cur"
| "rest cur (c # cs) = (if c = 10 then rest [] cs else rest (cur @ [c]) cs)"

text \<open>No line, the incomplete one included, is longer than \<open>n\<close>.\<close>

fun short :: "nat \<Rightarrow> uchar list \<Rightarrow> uchar list \<Rightarrow> bool" where
  "short n cur [] = (length cur \<le> n)"
| "short n cur (c # cs) = (length cur \<le> n \<and> (if c = 10 then short n [] cs else short n (cur @ [c]) cs))"

text \<open>The complete lines before the first one longer than \<open>n\<close>.\<close>

fun lines_upto :: "nat \<Rightarrow> uchar list \<Rightarrow> uchar list \<Rightarrow> uchar list list" where
  "lines_upto n cur [] = []"
| "lines_upto n cur (c # cs) =
     (if n < length cur then [] else if c = 10 then cur # lines_upto n [] cs else lines_upto n (cur @ [c]) cs)"

definition matching :: "uchar list \<Rightarrow> uchar list list \<Rightarrow> uchar list" where
  "matching re ls = concat (map (\<lambda>l. l @ [10]) (filter (matches re) ls))"

lemma matching_append: "matching re (ls @ ms) = matching re ls @ matching re ms"
  by (simp add: matching_def)

lemma cut_rest_append:
  "cut_lines cur (a @ b) = cut_lines cur a @ cut_lines (rest cur a) b" "rest cur (a @ b) = rest (rest cur a) b"
  by (induction a arbitrary: cur) simp_all

lemma cut_rest_plain: "10 \<notin> set a \<Longrightarrow> cut_lines cur a = [] \<and> rest cur a = cur @ a"
  by (induction a arbitrary: cur) auto

lemma short_lines: "short n cur cs \<Longrightarrow> lines_upto n cur cs = cut_lines cur cs"
  by (induction cs arbitrary: cur) (auto split: if_splits)

lemma lines_upto_long: "n < length cur \<Longrightarrow> lines_upto n cur cs = []"
  by (cases cs) simp_all

lemma lines_upto_append:
  "length cur + length a \<le> Suc n \<Longrightarrow> lines_upto n cur (a @ b) = cut_lines cur a @ lines_upto n (rest cur a) b"
  by (induction a arbitrary: cur) simp_all

lemma rest_no_newline: "10 \<notin> set cur \<Longrightarrow> 10 \<notin> set (rest cur cs)"
  by (induction cs arbitrary: cur) auto

lemma rest_subset: "set (rest cur cs) \<subseteq> set cur \<union> set cs"
  by (induction cs arbitrary: cur) (auto split: if_splits, fastforce+)

lemma grep_lines_spec:
  assumes "0 \<notin> set re" and "0 \<notin> set ds"
  shows "\<exists>ys. length ys + length (rest [] ds) = length xs + length ds \<and>
    grep_lines (re @ 0 # w) (xs @ ds @ 0 # zs) (length xs) out
      = Some (length ys, ys @ rest [] ds @ 0 # zs, out @ matching re (cut_lines [] ds))"
  using assms(2)
proof (induction "length ds" arbitrary: ds xs out rule: less_induct)
  case less
  have c: "cstr (ds @ 0 # zs) = ds" using less.prems by (simp add: cstr_def takeWhile_append)
  have sc: "strchr (drop (length xs) (xs @ ds @ 0 # zs)) 10 =
      Some (if 10 \<in> set ds then Some (length (takeWhile (\<lambda>x. x \<noteq> 10) ds)) else None)"
    using strchr_finds [of "ds @ 0 # zs" 10] c by simp
  show ?case
  proof (cases "10 \<in> set ds")
    case False
    then show ?thesis using sc by (intro exI [of _ xs]) (simp add: grep_lines.simps cut_rest_plain matching_def)
  next
    case True
    from split_list_first [OF True] obtain l ds' where ds: "ds = l @ 10 # ds'" and l10: "10 \<notin> set l" by blast
    have tw: "takeWhile (\<lambda>x. x \<noteq> 10) ds = l" using l10 by (simp add: ds takeWhile_append)
    have l: "10 \<notin> set l" "0 \<notin> set l" "0 \<notin> set ds'" using less.prems ds l10 by auto
    have b: "(xs @ ds @ 0 # zs)[length xs + length l := v] = (xs @ l @ [v]) @ ds' @ 0 # zs" for v
      by (simp add: ds list_update_append)
    have m: "match (re @ 0 # w) (drop (length xs) ((xs @ l @ [0]) @ ds' @ 0 # zs)) = Some (matches re l)"
      using match_matches [OF assms(1) l(2), of w "ds' @ 0 # zs"] by simp
    have b': "((xs @ l @ [0]) @ ds' @ 0 # zs)[length xs + length l := 10] = (xs @ l @ [10]) @ ds' @ 0 # zs"
      by (simp add: list_update_append)
    have step: "grep_lines (re @ 0 # w) (xs @ ds @ 0 # zs) (length xs) out =
      grep_lines (re @ 0 # w) ((xs @ l @ [if matches re l then 10 else 0]) @ ds' @ 0 # zs) (length (xs @ l @ [if matches re l then 10 else 0]))
        (out @ matching re [l])"
      using True by (subst grep_lines.simps) (simp only: sc tw Let_def if_True option.case b m b' matching_def, simp)
    have "length ds' < length ds" by (simp add: ds)
    let ?xs = "xs @ l @ [if matches re l then 10 else 0]"
    obtain ys where ys: "length ys + length (rest [] ds') = length ?xs + length ds'"
      "grep_lines (re @ 0 # w) (?xs @ ds' @ 0 # zs) (length ?xs) (out @ matching re [l])
        = Some (length ys, ys @ rest [] ds' @ 0 # zs, (out @ matching re [l]) @ matching re (cut_lines [] ds'))"
      using less.hyps [OF \<open>length ds' < length ds\<close> l(3)] by blast
    have "length ys + length (rest [] ds') = length xs + length ds" using ys(1) by (simp add: ds)
    moreover note ys(2) [folded step]
    moreover have "cut_lines [] ds = [l] @ cut_lines [] ds'" "rest [] ds = rest [] ds'"
      using cut_rest_append [of "[]" l "10 # ds'"] cut_rest_plain [OF l(1), of "[]"] by (simp_all add: ds)
    ultimately show ?thesis using matching_append [of re "[l]" "cut_lines [] ds'"] by auto
  qed
qed

text \<open>The loop with the incomplete line \<open>pend\<close> at the start of the buffer.\<close>

lemma grep_from:
  assumes "0 \<notin> set re" and "\<forall>k. 0 < rs k"
    and "length (pend @ zs) = GREP_BUF" "0 \<notin> set pend" "10 \<notin> set pend" "0 \<notin> set input" "length pend \<le> 1023"
  shows "grep (re @ 0 # w) rs k (pend @ zs) (length pend) input out = Some (out @ matching re (lines_upto 1022 pend input))"
  using assms(3-)
proof (induction "length input" arbitrary: k pend zs input out rule: less_induct)
  case less
  define n where "n = min (rs k) (min (GREP_BUF - length pend - 1) (length input))"
  show ?case
  proof (cases "input = [] \<or> length pend = 1023")
    case True
    then show ?thesis using lines_upto_long [of 1022 pend input] by (auto simp: grep.simps matching_def GREP_BUF_def)
  next
    case False
    then have lp: "length pend \<le> 1022" using less.prems(5) by simp
    with False have nn: "0 < n" "n \<le> length input" "length pend + n \<le> 1023" using assms(2) lp by (auto simp: GREP_BUF_def n_def)
    define c where "c = take n input"
    have lc: "length c = n" using nn(2) by (simp add: c_def)
    have ic: "input = c @ drop n input" by (simp add: c_def)
    have lz: "length zs = 1024 - length pend" using less.prems(1) by (simp add: GREP_BUF_def)
    have bufm: "(put_bytes (pend @ zs) (length pend) c)[length pend + n := 0] = [] @ (pend @ c) @ 0 # drop (Suc n) zs"
    proof -
      have "put_bytes (pend @ zs) (length pend) c = (pend @ c) @ drop n zs" by (simp add: put_bytes_def lc)
      moreover have "drop n zs = zs ! n # drop (Suc n) zs" using nn(3) lz by (intro Cons_nth_drop_Suc [symmetric]) simp
      ultimately show ?thesis using lc by (simp add: list_update_append)
    qed
    have nz: "0 \<notin> set (pend @ c)" using less.prems(2,4) ic by (auto simp: c_def dest: in_set_takeD)
    have cr: "cut_lines [] (pend @ c) = cut_lines pend c" "rest [] (pend @ c) = rest pend c"
      using cut_rest_append [of "[]" pend c] cut_rest_plain [OF less.prems(3), of "[]"] by simp_all
    obtain ys where ys: "length ys + length (rest pend c) = length pend + length c"
      "grep_lines (re @ 0 # w) ([] @ (pend @ c) @ 0 # drop (Suc n) zs) 0 out
        = Some (length ys, ys @ rest pend c @ 0 # drop (Suc n) zs, out @ matching re (cut_lines pend c))"
      using grep_lines_spec [OF assms(1) nz, of "[]" w "drop (Suc n) zs" out] cr by auto
    let ?b = "ys @ rest pend c @ 0 # drop (Suc n) zs" and ?m = "length (rest pend c)"
    have m: "length pend + n - length ys = ?m" using ys(1) lc by simp
    have step: "grep (re @ 0 # w) rs k (pend @ zs) (length pend) input out =
        grep (re @ 0 # w) rs (k + 1) (rest pend c @ drop ?m ?b) ?m (drop n input) (out @ matching re (cut_lines pend c))"
      using nn(1) by (subst grep.simps) (simp only: Let_def n_def [symmetric] c_def [symmetric] option.case prod.case bufm ys(2) m, simp)
    have "grep (re @ 0 # w) rs (k + 1) (rest pend c @ drop ?m ?b) ?m (drop n input) (out @ matching re (cut_lines pend c))
        = Some ((out @ matching re (cut_lines pend c)) @ matching re (lines_upto 1022 (rest pend c) (drop n input)))"
    proof (rule less.hyps)
      show "length (drop n input) < length input" using nn by simp
      have "length ?b = 1024" using ys(1) lz lc nn(3) by simp
      then show "length (rest pend c @ drop ?m ?b) = GREP_BUF" using ys(1) lc nn(3) by (simp add: GREP_BUF_def)
      show "0 \<notin> set (rest pend c)" using rest_subset [of pend c] nz by auto
      show "10 \<notin> set (rest pend c)" by (rule rest_no_newline [OF less.prems(3)])
      show "0 \<notin> set (drop n input)" using less.prems(4) by (auto dest: in_set_dropD)
      show "length (rest pend c) \<le> 1023" using ys(1) lc nn(3) by simp
    qed
    moreover have "lines_upto 1022 pend input = cut_lines pend c @ lines_upto 1022 (rest pend c) (drop n input)"
      using lines_upto_append [of pend c 1022 "drop n input"] ic lc nn(3) by simp
    ultimately show ?thesis by (simp add: step matching_append)
  qed
qed

text \<open>
  C27. \<^verbatim>\<open>grep\<close> prints exactly the matching lines of its input, in order, however the reads split the
  input: for an input without NUL bytes, the output is the complete lines that match, each with its
  newline, up to the first line with more than 1022 characters. Such a line fills the buffer, and the
  program ends as if the input did. An incomplete last line is not printed.
\<close>

theorem grep_prints_matching:
  assumes "0 \<notin> set re" and "length buf = GREP_BUF" and "\<forall>k. 0 < rs k" and "0 \<notin> set input"
  shows "grep (re @ 0 # w) rs 0 buf 0 input [] = Some (matching re (lines_upto 1022 [] input)) \<and>
     (short 1022 [] input \<longrightarrow> lines_upto 1022 [] input = cut_lines [] input)"
  using grep_from [OF assms(1,3), of "[]" buf] assms(2,4) short_lines by simp

theorem grep_prints_matching_witness:
  "grep (bytes ''b'' @ [0]) (\<lambda>_. 3) 0 (replicate GREP_BUF 0) 0 [97, 98, 10, 97, 10] []
     = Some (matching (bytes ''b'') [[97, 98], [97]])"
  using grep_prints_matching [of "bytes ''b''" "replicate GREP_BUF 0" "\<lambda>_. 3" "[97, 98, 10, 97, 10]" "[]"] by (simp add: bytes_def)

end
