(* ===== verification/Umalloc.thy ===== *)
theory Umalloc
  imports Machine
begin

text \<open>
  \<^verbatim>\<open>user/umalloc.c\<close>, the memory allocator of user programs. The state is the headers of the blocks,
  by address, \<^verbatim>\<open>freep\<close>, and the end of the process's memory, which \<^verbatim>\<open>sbrk\<close> moves. Addresses are natural
  numbers: the user address space ends far below the width of a pointer. The sizes wrap around as the
  source's \<^verbatim>\<open>uint\<close>, and the argument of \<^verbatim>\<open>sbrk\<close> as its \<^verbatim>\<open>int\<close>.
\<close>

section \<open>Routines\<close>

record uheap =
  hptr :: "nat \<Rightarrow> nat"
  hsize :: "nat \<Rightarrow> nat"
  freep :: nat
  brk :: nat

definition HDR :: nat where "HDR = 16"

text \<open>The scan of \<^verbatim>\<open>free\<close> for the place of the block in the list.\<close>

partial_function (option) free_find :: "uheap \<Rightarrow> nat \<Rightarrow> nat \<Rightarrow> nat option" where
  "free_find h bp p =
     (if bp > p \<and> bp < hptr h p then Some p
      else if p \<ge> hptr h p \<and> (bp > p \<or> bp < hptr h p) then Some p
      else free_find h bp (hptr h p))"

text \<open>Joining the block with the one above it, and then with the one below.\<close>

definition join_up :: "nat \<Rightarrow> nat \<Rightarrow> uheap \<Rightarrow> uheap" where
  "join_up bp q h =
     (if bp + HDR * hsize h bp = q
      then h\<lparr>hsize := (hsize h)(bp := (hsize h bp + hsize h q) mod 2 ^ 32), hptr := (hptr h)(bp := hptr h q)\<rparr>
      else h\<lparr>hptr := (hptr h)(bp := q)\<rparr>)"

definition join_down :: "nat \<Rightarrow> nat \<Rightarrow> uheap \<Rightarrow> uheap" where
  "join_down bp p h =
     (if p + HDR * hsize h p = bp
      then h\<lparr>hsize := (hsize h)(p := (hsize h p + hsize h bp) mod 2 ^ 32), hptr := (hptr h)(p := hptr h bp)\<rparr>
      else h\<lparr>hptr := (hptr h)(p := bp)\<rparr>)"

definition free_at :: "nat \<Rightarrow> nat \<Rightarrow> uheap \<Rightarrow> uheap" where
  "free_at bp p h = (join_down bp p (join_up bp (hptr h p) h))\<lparr>freep := p\<rparr>"

definition free :: "nat \<Rightarrow> uheap \<Rightarrow> uheap option" where
  "free ap h = (let bp = ap - HDR in map_option (\<lambda>p. free_at bp p h) (free_find h bp (freep h)))"

text \<open>The conversion of the 64-bit product to the \<^verbatim>\<open>int\<close> that \<^verbatim>\<open>sbrk\<close> takes.\<close>

definition to_int :: "nat \<Rightarrow> int" where
  "to_int x = (let y = int (x mod 2 ^ 32) in if y < 2 ^ 31 then y else y - 2 ^ 32)"

text \<open>\<open>sb b n\<close>: the new end of memory after \<^verbatim>\<open>sbrk(n)\<close> at \<open>b\<close>, or \<open>None\<close> if the kernel refuses.\<close>

type_synonym sbrk = "nat \<Rightarrow> int \<Rightarrow> nat option"

definition morecore :: "sbrk \<Rightarrow> nat \<Rightarrow> uheap \<Rightarrow> (nat \<times> uheap) option" where
  "morecore sb nu h =
     (let nu = (if nu < 4096 then 4096 else nu) in
      case sb (brk h) (to_int (nu * HDR)) of
        None \<Rightarrow> Some (0, h)
      | Some b \<Rightarrow>
          let hp = brk h; h = h\<lparr>brk := b, hsize := (hsize h)(hp := nu)\<rparr>
          in map_option (\<lambda>h. (freep h, h)) (free (hp + HDR) h))"

text \<open>Taking \<open>nunits\<close> units from block \<open>p\<close>, whose predecessor is \<open>prevp\<close>.\<close>

definition take_block :: "nat \<Rightarrow> nat \<Rightarrow> nat \<Rightarrow> uheap \<Rightarrow> nat \<times> uheap" where
  "take_block nunits prevp p h =
     (if hsize h p = nunits then (p + HDR, h\<lparr>hptr := (hptr h)(prevp := hptr h p), freep := prevp\<rparr>)
      else
        let r = hsize h p - nunits; q = p + HDR * r
        in (q + HDR, h\<lparr>hsize := (hsize h)(p := r, q := nunits), freep := prevp\<rparr>))"

partial_function (option) malloc_loop :: "sbrk \<Rightarrow> nat \<Rightarrow> nat \<Rightarrow> nat \<Rightarrow> uheap \<Rightarrow> (nat \<times> uheap) option" where
  "malloc_loop sb nunits prevp p h =
     (if hsize h p \<ge> nunits then Some (take_block nunits prevp p h)
      else if p = freep h then
        (case morecore sb nunits h of
           None \<Rightarrow> None
         | Some r \<Rightarrow> if fst r = 0 then Some (0, snd r) else malloc_loop sb nunits (fst r) (hptr (snd r) (fst r)) (snd r))
      else malloc_loop sb nunits p (hptr h p) h)"

definition malloc_units :: "nat \<Rightarrow> nat" where
  "malloc_units nbytes = ((nbytes + HDR - 1) div HDR + 1) mod 2 ^ 32"

definition malloc :: "sbrk \<Rightarrow> nat \<Rightarrow> nat \<Rightarrow> uheap \<Rightarrow> (nat \<times> uheap) option" where
  "malloc sb base nbytes h =
     (let h = (if freep h = 0 then h\<lparr>hptr := (hptr h)(base := base), freep := base, hsize := (hsize h)(base := 0)\<rparr> else h)
      in malloc_loop sb (malloc_units nbytes) (freep h) (hptr h (freep h)) h)"

section \<open>The ring of free blocks\<close>

fun chain :: "(nat \<Rightarrow> nat) \<Rightarrow> nat list \<Rightarrow> nat \<Rightarrow> bool" where
  "chain f [] e = True"
| "chain f (x # xs) e = (f x = hd (xs @ [e]) \<and> chain f xs e)"

lemma chain_append: "chain f (xs @ ys) e \<longleftrightarrow> chain f xs (hd (ys @ [e])) \<and> chain f ys e"
  by (induction xs) (auto simp: hd_append)

lemma chain_upd: "x \<notin> set xs \<Longrightarrow> chain (f(x := y)) xs e = chain f xs e"
  by (induction xs) auto

lemma chain_cong: "\<forall>x \<in> set xs. f x = g x \<Longrightarrow> chain f xs e = chain g xs e"
  by (induction xs) auto

lemma chain_snoc: "chain f (xs @ [x]) e \<longleftrightarrow> chain f xs x \<and> f x = e"
  by (simp add: chain_append)

lemma free_find_up:
  assumes "chain (hptr h) (p # ps) base" and "sorted_wrt (<) (p # ps)" and "p < bp" and "base < bp" and "base \<le> p" and "bp \<notin> set ps"
  shows "free_find h bp p = Some (last (takeWhile (\<lambda>a. a < bp) (p # ps)))"
  using assms
proof (induction ps arbitrary: p)
  case Nil
  then show ?case by (subst free_find.simps) simp
next
  case (Cons q ps)
  show ?case
  proof (cases "bp < q")
    case True
    then show ?thesis using Cons.prems by (subst free_find.simps) simp
  next
    case False
    then have "q < bp" using Cons.prems by auto
    moreover have "free_find h bp p = free_find h bp q" using Cons.prems False by (subst free_find.simps) simp
    ultimately show ?thesis using Cons by simp
  qed
qed

lemma free_find_around:
  assumes "chain (hptr h) (p # ps) base" and "sorted_wrt (<) (p # ps)" and "bp < p" and "base < bp"
  shows "free_find h bp p = free_find h bp base"
  using assms
proof (induction ps arbitrary: p)
  case Nil
  then show ?case by (subst free_find.simps) simp
next
  case (Cons q ps)
  then have "free_find h bp p = free_find h bp q" by (subst free_find.simps) auto
  also have "\<dots> = free_find h bp base" using Cons by auto
  finally show ?case .
qed

lemma free_find_ring:
  assumes "chain (hptr h) (base # as) base" and "sorted_wrt (<) (base # as)" and "base < bp" and "bp \<notin> set as" and "p \<in> set (base # as)"
  shows "free_find h bp p = Some (last (takeWhile (\<lambda>a. a < bp) (base # as)))"
proof -
  have b: "free_find h bp base = Some (last (takeWhile (\<lambda>a. a < bp) (base # as)))"
    using assms(1-4) by (intro free_find_up) auto
  obtain us vs where uv: "base # as = us @ p # vs" using split_list [OF assms(5)] by blast
  have c: "chain (hptr h) (p # vs) base" "sorted_wrt (<) (p # vs)" "bp \<notin> set vs" "base \<le> p" "\<forall>u \<in> set us. u < p"
    using assms(1,2,4) uv by (auto simp: chain_append sorted_wrt_append Cons_eq_append_conv)
  show ?thesis
  proof (cases "bp < p")
    case True
    then show ?thesis using free_find_around [OF c(1,2) True assms(3)] b by simp
  next
    case False
    then have "p < bp" using assms(3-5) by (cases "p = bp") auto
    then have "\<forall>u \<in> set us. u < bp" using c(5) by auto
    then have "takeWhile (\<lambda>a. a < bp) (us @ p # vs) = us @ takeWhile (\<lambda>a. a < bp) (p # vs)" by (simp add: takeWhile_append)
    then show ?thesis using free_find_up [OF c(1,2) \<open>p < bp\<close> assms(3) c(4,3)] uv \<open>p < bp\<close> by simp
  qed
qed

section \<open>Freeing\<close>

text \<open>The bytes of a block, header included, and of all blocks of a list.\<close>

definition blk :: "uheap \<Rightarrow> nat \<Rightarrow> nat set" where
  "blk h a = {a..<a + HDR * hsize h a}"

definition cover :: "uheap \<Rightarrow> nat list \<Rightarrow> nat set" where
  "cover h as = (\<Union>a \<in> set as. blk h a)"

text \<open>
  The free list is a ring through \<^verbatim>\<open>base\<close> in the order of the addresses; its blocks do not overlap and no
  two of them touch.
\<close>

definition apart :: "uheap \<Rightarrow> nat \<Rightarrow> nat \<Rightarrow> bool" where
  "apart h a b \<longleftrightarrow> a + HDR * hsize h a < b"

definition ring :: "uheap \<Rightarrow> nat \<Rightarrow> nat list \<Rightarrow> bool" where
  "ring h base as \<longleftrightarrow> 0 < base \<and> freep h \<in> set (base # as) \<and> chain (hptr h) (base # as) base \<and> hsize h base = 0 \<and>
     sorted_wrt (apart h) (base # as) \<and> (\<forall>a \<in> set as. 0 < hsize h a)"

lemma HDR_pos [simp]: "0 < HDR"
  by (simp add: HDR_def)

lemma blk_start: "0 < hsize h a \<Longrightarrow> a \<in> blk h a"
  by (simp add: blk_def)

lemma blk_mono_disjoint: "blk h a \<inter> blk h b = {} \<Longrightarrow> 0 < hsize h b \<Longrightarrow> a < b \<Longrightarrow> a + HDR * hsize h a \<le> b"
  using blk_start [of h b] by (auto simp: blk_def not_le)

lemma apart_less: "apart h a b \<Longrightarrow> a < b"
  by (simp add: apart_def)

lemma sorted_apart_less: "sorted_wrt (apart h) xs \<Longrightarrow> sorted_wrt (<) xs"
  by (rule sorted_wrt_mono_rel [OF apart_less])

lemma cover_simps [simp]:
  "cover h [] = {}" "cover h (a # as) = blk h a \<union> cover h as" "cover h (as @ bs) = cover h as \<union> cover h bs"
  by (auto simp: cover_def)

lemma blk_cong: "hsize h' a = hsize h a \<Longrightarrow> blk h' a = blk h a"
  by (simp add: blk_def)

lemma cover_cong: "(\<And>a. a \<in> set as \<Longrightarrow> hsize h' a = hsize h a) \<Longrightarrow> cover h' as = cover h as"
  by (auto simp: cover_def blk_def)

lemma sorted_apart_cong:
  "\<forall>a \<in> set xs. hsize h' a = hsize h a \<Longrightarrow> sorted_wrt (apart h') xs = sorted_wrt (apart h) xs"
  by (induction xs) (auto simp: apart_def)

lemma blk_end: "0 < hsize h a \<Longrightarrow> blk h a \<subseteq> {..<m} \<Longrightarrow> a + HDR * hsize h a \<le> m"
proof -
  assume "0 < hsize h a" and s: "blk h a \<subseteq> {..<m}"
  then have "0 < HDR * hsize h a" by simp
  then have "a + HDR * hsize h a - 1 \<in> blk h a" unfolding blk_def by (simp only: atLeastLessThan_iff) linarith
  then show ?thesis using s \<open>0 < HDR * hsize h a\<close> by auto
qed

lemma units_bound: "0 < a \<Longrightarrow> a + HDR * n \<le> 2 ^ 36 \<Longrightarrow> n mod 2 ^ 32 = n"
  by (simp add: HDR_def)

lemma merge_blk: "b = a + HDR * m \<Longrightarrow> {a..<a + HDR * m} \<union> {b..<b + HDR * n} = {a..<a + HDR * (m + n)}"
  by (auto simp: algebra_simps)

lemma join_up_spec:
  assumes ch: "chain (hptr h) ys base" and srt: "sorted_wrt (apart h) ys" and pos: "\<forall>a \<in> set ys. 0 < hsize h a \<and> bp < a"
    and bp: "0 < bp" "base < bp" "0 < hsize h bp" and dis: "blk h bp \<inter> cover h ys = {}" and top: "blk h bp \<union> cover h ys \<subseteq> {..<2 ^ 36}"
  defines "h' \<equiv> join_up bp (hd (ys @ [base])) h"
  obtains zs where "chain (hptr h') (bp # zs) base" "sorted_wrt (apart h') (bp # zs)" "set zs \<subseteq> set ys"
    "cover h' (bp # zs) = blk h bp \<union> cover h ys" "hsize h bp \<le> hsize h' bp" "\<And>a. a \<noteq> bp \<Longrightarrow> hsize h' a = hsize h a"
    "\<And>a. a \<noteq> bp \<Longrightarrow> hptr h' a = hptr h a" "freep h' = freep h" "brk h' = brk h"
proof (cases "bp + HDR * hsize h bp = hd (ys @ [base])")
  case True
  then obtain q zs where ys: "ys = q # zs" using bp by (cases ys) auto
  have q: "bp + HDR * hsize h bp = q" "0 < hsize h q" "bp < q" "bp \<notin> set zs" using True ys pos by auto
  have "q + HDR * hsize h q \<le> 2 ^ 36" using q(2) top ys by (intro blk_end) auto
  then have sz: "(hsize h bp + hsize h q) mod 2 ^ 32 = hsize h bp + hsize h q"
    using q(1) bp(1) by (intro units_bound) (auto simp: algebra_simps)
  have h': "h' = h\<lparr>hsize := (hsize h)(bp := hsize h bp + hsize h q), hptr := (hptr h)(bp := hptr h q)\<rparr>"
    using True ys sz by (simp add: h'_def join_up_def)
  have zs: "\<And>a. a \<in> set zs \<Longrightarrow> hsize h' a = hsize h a" using q(4) by (auto simp: h')
  have b: "blk h' bp = blk h bp \<union> blk h q" using merge_blk [OF q(1) [symmetric], of "hsize h q"] by (simp add: blk_def h')
  show thesis
  proof (rule that [of zs])
    show "chain (hptr h') (bp # zs) base" using ch ys q(4) by (simp add: h' chain_upd)
    have "sorted_wrt (apart h') zs" using srt ys sorted_apart_cong [of zs h' h] zs by simp
    moreover have "\<forall>a \<in> set zs. apart h' bp a" using srt ys q(1) by (auto simp: h' apart_def algebra_simps)
    ultimately show "sorted_wrt (apart h') (bp # zs)" by simp
    show "cover h' (bp # zs) = blk h bp \<union> cover h ys" using b cover_cong [of zs h' h] zs ys by auto
  qed (auto simp: ys h')
next
  case False
  have h': "h' = h\<lparr>hptr := (hptr h)(bp := hd (ys @ [base]))\<rparr>" using False by (simp add: h'_def join_up_def)
  have nb: "bp \<notin> set ys" using pos by auto
  have "apart h bp a" if a: "a \<in> set ys" for a
  proof -
    obtain q zs where ys: "ys = q # zs" using a by (cases ys) auto
    have "blk h bp \<inter> blk h q = {}" using dis ys by auto
    then have "bp + HDR * hsize h bp < q" using blk_mono_disjoint [of h bp q] pos False ys by fastforce
    moreover have "q \<le> a" using a srt ys by (auto simp: apart_def)
    ultimately show ?thesis by (simp add: apart_def)
  qed
  then show thesis using ch srt nb
    by (intro that [of ys]) (auto simp: h' chain_upd apart_def [abs_def] cover_def blk_def)
qed

lemma join_down_spec:
  assumes ch: "chain (hptr h) (xs @ [p]) q" "chain (hptr h) (bp # zs) base" and hd: "hd (xs @ [p]) = base"
    and srt: "sorted_wrt (apart h) (xs @ [p])" "sorted_wrt (apart h) (bp # zs)" and le: "\<forall>a \<in> set (xs @ [p]). a + HDR * hsize h a \<le> bp"
    and pos: "hsize h base = 0" "0 < base" "base < bp" "\<forall>a \<in> set (tl (xs @ [p]) @ bp # zs). 0 < hsize h a"
    and top: "cover h (bp # zs) \<subseteq> {..<2 ^ 36}"
  defines "h' \<equiv> (join_down bp p h)\<lparr>freep := p\<rparr>"
  obtains as where "ring h' base as" "cover h' as = cover h (tl (xs @ [p]) @ bp # zs)" "\<exists>a \<in> set as. hsize h bp \<le> hsize h' a"
    "\<And>a. a \<noteq> p \<Longrightarrow> hsize h' a = hsize h a" "brk h' = brk h"
proof -
  have lt: "\<forall>a \<in> set xs. a < p" using sorted_apart_less [OF srt(1)] by (simp add: sorted_wrt_append)
  have d: "p \<notin> set xs" "\<forall>a \<in> set zs. bp < a" "bp \<notin> set zs" using lt srt(2) by (auto dest: apart_less)
  have pb: "p < bp"
  proof (cases xs)
    case Nil
    then show ?thesis using hd pos(3) by simp
  next
    case (Cons a)
    then have "0 < hsize h p" using pos(4) by simp
    then have "0 < HDR * hsize h p" by simp
    then show ?thesis using le by (auto simp del: nat_0_less_mult_iff)
  qed
  have pz: "p \<notin> set zs" "bp \<notin> set xs" using d(2) pb lt by auto
  obtain ws where ws: "xs @ [p] = base # ws" using hd by (cases "xs @ [p]") auto
  show thesis
  proof (cases "p + HDR * hsize h p = bp")
    case True
    then have x: "xs \<noteq> []" using hd pos(1,3) by auto
    then obtain xs' where xs: "xs = base # xs'" using ws by (cases xs) auto
    have ps: "0 < hsize h p" "0 < hsize h bp" using pos(4) xs by auto
    have "bp + HDR * hsize h bp \<le> 2 ^ 36" using top ps(2) by (intro blk_end) auto
    moreover have "0 < p" using lt xs pos(2) by auto
    ultimately have sz: "(hsize h p + hsize h bp) mod 2 ^ 32 = hsize h p + hsize h bp"
      using True by (intro units_bound) (auto simp: algebra_simps)
    have h': "h' = h\<lparr>hsize := (hsize h)(p := hsize h p + hsize h bp), hptr := (hptr h)(p := hptr h bp), freep := p\<rparr>"
      using True sz by (simp add: h'_def join_down_def)
    have eq: "\<forall>a. a \<noteq> p \<longrightarrow> hsize h' a = hsize h a" by (simp add: h')
    have b: "blk h' p = blk h p \<union> blk h bp" using merge_blk [OF True [symmetric], of "hsize h bp"] by (simp add: blk_def h')
    have ex: "\<forall>a \<in> set xs. hsize h' a = hsize h a" "\<forall>a \<in> set zs. hsize h' a = hsize h a" using eq d(1) pz(1) by metis+
    have cx: "cover h' xs' = cover h xs'" "cover h' zs = cover h zs" using ex xs by (auto intro!: cover_cong)
    have "chain (hptr h') (xs @ p # zs) base" using ch d(1) pz(1) by (simp add: h' chain_append chain_upd)
    moreover have "sorted_wrt (apart h') (xs @ p # zs)"
    proof -
      have "sorted_wrt (apart h') xs" "sorted_wrt (apart h') zs"
        using srt sorted_apart_cong [OF ex(1)] sorted_apart_cong [OF ex(2)] by (simp_all add: sorted_wrt_append)
      moreover have "\<forall>a \<in> set xs. apart h' a p \<and> (\<forall>z \<in> set zs. apart h' a z)"
        using srt(1) d(1,2) pb eq by (fastforce simp: sorted_wrt_append apart_def)
      moreover have "\<forall>z \<in> set zs. apart h' p z" using srt(2) True by (auto simp: h' apart_def algebra_simps)
      ultimately show ?thesis by (simp add: sorted_wrt_append)
    qed
    ultimately have "ring h' base (xs' @ p # zs)"
      using pos d(1) pz(1) xs ps by (auto simp: ring_def h')
    then show thesis using b cx xs ps eq by (intro that [of "xs' @ p # zs"]) (auto simp: h')
  next
    case False
    have h': "h' = h\<lparr>hptr := (hptr h)(p := bp), freep := p\<rparr>" using False by (simp add: h'_def join_down_def)
    have eq: "hsize h' = hsize h" by (simp add: h')
    then have ap: "apart h' = apart h" "blk h' = blk h" "cover h' = cover h" by (auto simp: apart_def fun_eq_iff blk_def cover_def)
    have "chain (hptr h') ((xs @ [p]) @ bp # zs) base" using ch d(1) pz pb by (simp add: h' chain_append chain_upd)
    moreover have "sorted_wrt (apart h') ((xs @ [p]) @ bp # zs)"
    proof -
      have pp: "apart h p bp" using False le by (simp add: apart_def)
      have xp: "\<forall>a \<in> set xs. apart h a bp" using srt(1) pb by (auto simp: sorted_wrt_append apart_def)
      have "\<forall>a \<in> set (xs @ [p]). \<forall>z \<in> set (bp # zs). apart h a z" using pp xp d(2) by (fastforce simp: apart_def)
      then show ?thesis using srt by (simp add: ap sorted_wrt_append)
    qed
    moreover have "p \<in> set (xs @ [p])" by simp
    then have "freep h' \<in> set (base # ws)" unfolding ws by (simp add: h')
    ultimately have "ring h' base (ws @ bp # zs)" using pos ws eq by (auto simp: ring_def)
    then show thesis using ws ap eq by (intro that [of "ws @ bp # zs"]) (auto simp: h')
  qed
qed

lemma free_spec:
  assumes r: "ring h base as" and bp: "base < bp" "0 < hsize h bp" and dis: "blk h bp \<inter> cover h as = {}"
    and top: "blk h bp \<union> cover h as \<subseteq> {..<2 ^ 36}"
  obtains h' as' where "free (bp + HDR) h = Some h'" "ring h' base as'" "cover h' as' = cover h as \<union> blk h bp"
    "\<exists>a \<in> set as'. hsize h bp \<le> hsize h' a" "\<And>a. a \<notin> set (bp # base # as) \<Longrightarrow> hsize h' a = hsize h a" "brk h' = brk h"
proof -
  have nb: "bp \<notin> set as" using dis blk_start [of h bp] bp(2) by (auto simp: cover_def)
  have r': "0 < base" "freep h \<in> set (base # as)" "chain (hptr h) (base # as) base" "hsize h base = 0"
    "sorted_wrt (apart h) (base # as)" "\<forall>a \<in> set as. 0 < hsize h a" using r by (auto simp: ring_def)
  define us where "us = takeWhile (\<lambda>a. a < bp) (base # as)"
  define ys where "ys = dropWhile (\<lambda>a. a < bp) (base # as)"
  have uy: "us @ ys = base # as" by (simp add: us_def ys_def)
  obtain xs p where us: "us = xs @ [p]" using bp(1) unfolding us_def by (cases "takeWhile (\<lambda>a. a < bp) (base # as)" rule: rev_cases) auto
  have find: "free_find h bp (freep h) = Some p"
    using free_find_ring [OF r'(3) sorted_apart_less [OF r'(5)] bp(1) nb r'(2)] us by (simp add: us_def)
  have ult: "\<forall>a \<in> set us. a < bp" by (auto simp: us_def dest: set_takeWhileD)
  have ygt: "\<forall>a \<in> set ys. bp < a"
  proof (cases ys)
    case (Cons y yt)
    have "\<not> y < bp" using Cons hd_dropWhile [of "\<lambda>a. a < bp" "base # as"] by (auto simp: ys_def)
    moreover have "y \<in> set (base # as)" unfolding uy [symmetric] by (simp add: Cons)
    ultimately have "bp < y" using nb bp(1) by (cases "y = bp") auto
    moreover have "sorted_wrt (<) (y # yt)" using sorted_apart_less [OF r'(5)] uy Cons by (metis sorted_wrt_append)
    ultimately show ?thesis using Cons by auto
  qed simp
  have hd: "hd (xs @ [p]) = base" and tl: "as = tl us @ ys" using uy us by (cases xs; auto)+
  have ch: "chain (hptr h) us (hd (ys @ [base]))" "chain (hptr h) ys base" using r'(3) unfolding uy [symmetric] by (simp_all add: chain_append)
  have srt: "sorted_wrt (apart h) us" "sorted_wrt (apart h) ys" using r'(5) unfolding uy [symmetric] by (simp_all add: sorted_wrt_append)
  have ypos: "\<forall>a \<in> set ys. 0 < hsize h a \<and> bp < a" using ygt r'(6) tl by auto
  have ydis: "blk h bp \<inter> cover h ys = {}" "blk h bp \<union> cover h ys \<subseteq> {..<2 ^ 36}" using dis top tl by auto
  have q: "hptr h p = hd (ys @ [base])" using ch(1) us by (simp add: chain_append)
  define h1 where "h1 = join_up bp (hd (ys @ [base])) h"
  have b0: "0 < bp" using bp(1) by simp
  obtain zs where zs: "chain (hptr h1) (bp # zs) base" "sorted_wrt (apart h1) (bp # zs)" "set zs \<subseteq> set ys"
    "cover h1 (bp # zs) = blk h bp \<union> cover h ys" "hsize h bp \<le> hsize h1 bp" "\<And>a. a \<noteq> bp \<Longrightarrow> hsize h1 a = hsize h a"
    "\<And>a. a \<noteq> bp \<Longrightarrow> hptr h1 a = hptr h a" "freep h1 = freep h" "brk h1 = brk h"
    by (rule join_up_spec [OF ch(2) srt(2) ypos b0 bp ydis, folded h1_def]) blast
  have ub: "bp \<notin> set us" using ult by auto
  have su: "\<forall>a \<in> set us. hsize h1 a = hsize h a \<and> hptr h1 a = hptr h a" using ub zs(6,7) by metis
  have c1: "chain (hptr h1) (xs @ [p]) (hd (ys @ [base]))" using ch(1) su us chain_cong [of "xs @ [p]" "hptr h1" "hptr h"] by simp
  have s1: "sorted_wrt (apart h1) (xs @ [p])" using srt(1) us sorted_apart_cong [of us h1 h] su by simp
  have l1: "\<forall>a \<in> set (xs @ [p]). a + HDR * hsize h1 a \<le> bp"
  proof
    fix a
    assume a: "a \<in> set (xs @ [p])"
    then have "a \<in> set (base # as)" using uy us by (metis UnI1 set_append)
    then have "a = base \<or> blk h a \<inter> blk h bp = {}" using dis by (auto simp: cover_def)
    then show "a + HDR * hsize h1 a \<le> bp" using blk_mono_disjoint [of h a bp] bp ult su a us r'(4) by fastforce
  qed
  have tu: "\<forall>a \<in> set (tl us). hsize h1 a = hsize h a" using su us by (metis list.set_sel(2) snoc_eq_iff_butlast)
  have p1: "hsize h1 base = 0" using r'(4) zs(6) [of base] bp(1) by simp
  have p2: "\<forall>a \<in> set (tl (xs @ [p]) @ bp # zs). 0 < hsize h1 a"
  proof -
    have "\<forall>a \<in> set (tl us). 0 < hsize h1 a" using tu r'(6) tl by simp
    moreover have "\<forall>a \<in> set zs. 0 < hsize h1 a" using zs(3,6) ypos by fastforce
    ultimately show ?thesis using zs(5) bp(2) us by auto
  qed
  have t1: "cover h1 (bp # zs) \<subseteq> {..<2 ^ 36}" using zs(4) ydis(2) by simp
  obtain as' where as': "ring ((join_down bp p h1)\<lparr>freep := p\<rparr>) base as'"
    "cover ((join_down bp p h1)\<lparr>freep := p\<rparr>) as' = cover h1 (tl (xs @ [p]) @ bp # zs)"
    "\<exists>a \<in> set as'. hsize h1 bp \<le> hsize ((join_down bp p h1)\<lparr>freep := p\<rparr>) a"
    "\<And>a. a \<noteq> p \<Longrightarrow> hsize ((join_down bp p h1)\<lparr>freep := p\<rparr>) a = hsize h1 a" "brk ((join_down bp p h1)\<lparr>freep := p\<rparr>) = brk h1"
    by (rule join_down_spec [OF c1 zs(1) hd s1 zs(2) l1 p1 r'(1) bp(1) p2 t1]) blast
  have "cover h1 (tl us) = cover h (tl us)" using tu by (intro cover_cong) blast
  then have cv: "cover h1 (tl (xs @ [p]) @ bp # zs) = cover h as \<union> blk h bp" using zs(4) tl us by auto
  have pin: "p \<in> set (base # as)" unfolding uy [symmetric] us by simp
  show thesis
  proof (rule that)
    show "free (bp + HDR) h = Some ((join_down bp p h1)\<lparr>freep := p\<rparr>)" by (simp add: free_def find free_at_def h1_def q)
    show "\<exists>a \<in> set as'. hsize h bp \<le> hsize ((join_down bp p h1)\<lparr>freep := p\<rparr>) a" using as'(3) zs(5) le_trans by blast
    show "hsize ((join_down bp p h1)\<lparr>freep := p\<rparr>) a = hsize h a" if "a \<notin> set (bp # base # as)" for a
      using that as'(4) [of a] zs(6) [of a] pin by auto
  qed (use as' cv zs in simp_all)
qed

section \<open>Allocating\<close>

lemma ringD:
  assumes "ring h base as"
  shows "0 < base" "freep h \<in> set (base # as)" "chain (hptr h) (base # as) base" "hsize h base = 0"
    "sorted_wrt (apart h) (base # as)" "\<forall>a \<in> set as. 0 < hsize h a" "distinct (base # as)"
proof -
  show "0 < base" "freep h \<in> set (base # as)" "chain (hptr h) (base # as) base" "hsize h base = 0" "\<forall>a \<in> set as. 0 < hsize h a"
    and s: "sorted_wrt (apart h) (base # as)" using assms by (simp_all add: ring_def)
  show "distinct (base # as)" using sorted_apart_less [OF s] strict_sorted_iff by blast
qed

lemma ring_rotate:
  assumes "ring h base as"
  obtains ts where "chain (hptr h) (freep h # ts) (freep h)" "freep h \<notin> set ts" "set (ts @ [freep h]) = set (base # as)"
proof -
  obtain us vs where uv: "base # as = us @ freep h # vs" using split_list [OF ringD(2) [OF assms]] by blast
  have c: "chain (hptr h) us (freep h)" "chain (hptr h) (freep h # vs) base" using ringD(3) [OF assms] uv by (auto simp: chain_append)
  have "hd (us @ [freep h]) = base" using uv by (cases us) auto
  then have "chain (hptr h) ((freep h # vs) @ us) (freep h)" using c unfolding chain_append by simp
  then have "chain (hptr h) (freep h # vs @ us) (freep h)" by simp
  moreover have "freep h \<notin> set (vs @ us)" using ringD(7) [OF assms] unfolding uv by auto
  moreover have "set ((vs @ us) @ [freep h]) = set (base # as)" unfolding uv by auto
  ultimately show thesis by (rule that)
qed

lemma malloc_loop_found:
  assumes "chain (hptr h) (prev # ts) (freep h)" and "freep h \<notin> set ts" and "\<exists>a \<in> set (ts @ [freep h]). nu \<le> hsize h a"
  shows "\<exists>q p. q \<in> set (prev # ts) \<and> hptr h q = p \<and> p \<in> set (ts @ [freep h]) \<and> nu \<le> hsize h p \<and>
    malloc_loop sb nu prev (hptr h prev) h = Some (take_block nu q p h)"
  using assms
proof (induction ts arbitrary: prev)
  case Nil
  then show ?case by (intro exI [of _ prev] exI [of _ "freep h"]) (subst malloc_loop.simps, simp)
next
  case (Cons t ts)
  show ?case
  proof (cases "nu \<le> hsize h t")
    case True
    then show ?thesis using Cons.prems by (intro exI [of _ prev] exI [of _ t]) (subst malloc_loop.simps, simp)
  next
    case False
    then have "malloc_loop sb nu prev (hptr h prev) h = malloc_loop sb nu t (hptr h t) h"
      using Cons.prems by (subst malloc_loop.simps) auto
    moreover have "\<exists>q p. q \<in> set (t # ts) \<and> hptr h q = p \<and> p \<in> set (ts @ [freep h]) \<and> nu \<le> hsize h p \<and>
        malloc_loop sb nu t (hptr h t) h = Some (take_block nu q p h)"
      using Cons False by (intro Cons.IH) auto
    ultimately show ?thesis by auto
  qed
qed

lemma malloc_loop_more:
  assumes "chain (hptr h) (prev # ts) (freep h)" and "freep h \<notin> set ts" and "\<forall>a \<in> set (ts @ [freep h]). hsize h a < nu"
  shows "malloc_loop sb nu prev (hptr h prev) h =
    (case morecore sb nu h of
       None \<Rightarrow> None
     | Some r \<Rightarrow> if fst r = 0 then Some (0, snd r) else malloc_loop sb nu (fst r) (hptr (snd r) (fst r)) (snd r))"
  using assms
proof (induction ts arbitrary: prev)
  case Nil
  then show ?case by (subst malloc_loop.simps) simp
next
  case (Cons t ts)
  then have "malloc_loop sb nu prev (hptr h prev) h = malloc_loop sb nu t (hptr h t) h" by (subst malloc_loop.simps) auto
  then show ?case using Cons by auto
qed

lemma chain_pred:
  assumes "chain f (us @ p # vs) e" and "distinct (us @ p # vs)" and "p \<noteq> e" and "q \<in> set (us @ p # vs)" and "f q = p"
  shows "us \<noteq> [] \<and> q = last us"
proof -
  have tail: "f q \<in> set ws \<union> {e}" if "chain f (q # ws) e" for ws using that by (cases ws) auto
  have "q \<in> set us"
  proof (rule ccontr)
    assume "q \<notin> set us"
    then obtain v1 v2 where "p # vs = v1 @ q # v2" using assms(4) split_list [of q "p # vs"] by auto
    moreover from this have "f q \<in> set v2 \<union> {e}" using assms(1) tail by (auto simp: chain_append)
    moreover have "set v2 \<subseteq> set vs" using calculation(1) by (cases v1) auto
    ultimately have "p \<in> set vs" using assms(3,5) by auto
    then show False using assms(2) by simp
  qed
  then obtain u1 u2 where u: "us = u1 @ q # u2" using split_list by metis
  then have "f q = hd (u2 @ p # vs @ [e])" using assms(1) by (simp add: chain_append)
  then have "u2 = []" using assms(2,5) u by (cases u2) auto
  then show ?thesis using u by simp
qed

lemma take_block_spec:
  assumes r: "ring h base as" and p: "p \<in> set (base # as)" "nu \<le> hsize h p" "0 < nu" and q: "q \<in> set (base # as)" "hptr h q = p"
  obtains a h' as' where "take_block nu q p h = (a + HDR, h')" "ring h' base as'" "hsize h' a = nu"
    "cover h' as' \<union> blk h' a = cover h as" "cover h' as' \<inter> blk h' a = {}" "\<And>x. x \<notin> cover h as \<Longrightarrow> hsize h' x = hsize h x" "brk h' = brk h"
proof -
  note D = ringD [OF r]
  have pb: "p \<noteq> base" using p(2,3) D(4) by auto
  then have "p \<in> set as" using p(1) by simp
  then obtain us vs where as: "as = us @ p # vs" using split_list by metis
  have q': "q = last (base # us)"
    using chain_pred [of "hptr h" "base # us" p vs base q] D(3,7) pb q as by auto
  have d: "p \<notin> set (base # us)" "p \<notin> set vs" "distinct (base # us)" "set (base # us) \<inter> set vs = {}" using D(7) as pb by auto
  have pc: "p \<in> cover h as" using \<open>p \<in> set as\<close> D(6) blk_start [of h p] by (auto simp: cover_def)
  have gap: "\<forall>a \<in> set us. a + HDR * hsize h a < p" "\<forall>a \<in> set vs. p + HDR * hsize h p < a" "\<forall>a \<in> set us. \<forall>b \<in> set vs. a + HDR * hsize h a < b"
    using D(5) as by (auto simp: sorted_wrt_append apart_def)
  show thesis
  proof (cases "hsize h p = nu")
    case True
    define h' where "h' = h\<lparr>hptr := (hptr h)(q := hptr h p), freep := q\<rparr>"
    have t: "take_block nu q p h = (p + HDR, h')" using True by (simp add: take_block_def h'_def)
    have eq: "hsize h' = hsize h" by (simp add: h'_def)
    have ap: "apart h' = apart h" "blk h' = blk h" "cover h' = cover h" using eq by (auto simp: apart_def fun_eq_iff blk_def cover_def)
    obtain xs where xs: "base # us = xs @ [q]" using q' by (metis append_butlast_last_id list.distinct(1))
    have qn: "q \<notin> set xs" "q \<notin> set vs" using d(3,4) unfolding xs by auto
    have "chain (hptr h) (xs @ [q] @ p # vs) base" using D(3) as xs by (metis append.assoc append_Cons)
    then have "chain (hptr h') (xs @ [q] @ vs) base" using qn by (simp add: h'_def chain_append chain_upd)
    then have "chain (hptr h') (base # us @ vs) base" using xs by (metis append.assoc append_Cons)
    moreover have "sorted_wrt (apart h') (base # us @ vs)" using D(5) as by (auto simp: ap sorted_wrt_append)
    moreover have "q \<in> set (base # us)" unfolding xs by simp
    then have "freep h' \<in> set (base # us @ vs)" by (auto simp: h'_def)
    ultimately have "ring h' base (us @ vs)" using D as eq by (simp add: ring_def)
    moreover have "cover h' (us @ vs) \<inter> blk h' p = {}"
      using gap by (fastforce simp: ap cover_def blk_def)
    moreover have "brk h' = brk h" by (simp add: h'_def)
    ultimately show thesis using t True eq by (intro that [of p h' "us @ vs"]) (auto simp: ap as)
  next
    case False
    define m where "m = hsize h p - nu"
    define a where "a = p + HDR * m"
    have m: "0 < m" "hsize h p = m + nu" using False p(2) by (auto simp: m_def)
    then have pa: "p < a" by (simp add: a_def)
    define h' where "h' = h\<lparr>hsize := (hsize h)(p := m, a := nu), freep := q\<rparr>"
    have t: "take_block nu q p h = (a + HDR, h')" using False by (simp add: take_block_def h'_def m_def a_def Let_def)
    have ae: "a + HDR * nu = p + HDR * hsize h p" using m(2) by (simp add: a_def algebra_simps)
    then have alt: "a < p + HDR * hsize h p" using p(3) unfolding HDR_def by linarith
    then have a_in: "a \<in> blk h p" using pa by (simp add: blk_def)
    have an: "a \<notin> set (base # as)"
    proof -
      have "\<forall>x \<in> set vs. a < x" using gap(2) alt by auto
      moreover have "\<forall>x \<in> set us. x < a" "base < a" using gap(1) pa D(5) as by (auto simp: apart_def)
      ultimately show ?thesis using as pa by auto
    qed
    have eq: "hsize h' x = hsize h x" if "x \<noteq> p" "x \<noteq> a" for x using that by (simp add: h'_def)
    have hp: "hsize h' p = m" "hsize h' a = nu" using pa by (auto simp: h'_def)
    have ex: "\<forall>x \<in> set us. hsize h' x = hsize h x" "\<forall>x \<in> set vs. hsize h' x = hsize h x" "hsize h' base = 0"
      using d(1,2) an as D(4) pb by (auto simp: h'_def)
    have "sorted_wrt (apart h') (base # as)"
    proof -
      have "sorted_wrt (apart h') us" "sorted_wrt (apart h') vs"
        using D(5) as sorted_apart_cong [OF ex(1)] sorted_apart_cong [OF ex(2)] by (auto simp: sorted_wrt_append)
      moreover have "\<forall>x \<in> set vs. apart h' p x" using gap(2) ae hp by (auto simp: apart_def a_def)
      moreover have "\<forall>x \<in> set us. apart h' x p" "\<forall>x \<in> set us. \<forall>y \<in> set vs. apart h' x y" using gap ex by (auto simp: apart_def)
      moreover have "\<forall>x \<in> set as. apart h' base x" using D(4,5) ex(3) by (auto simp: apart_def)
      ultimately show ?thesis using as by (auto simp: sorted_wrt_append)
    qed
    then have "ring h' base as" using D ex hp m as q by (auto simp: ring_def h'_def simp del: distinct.simps)
    moreover have bp: "blk h' p \<union> blk h' a = blk h p" "blk h' p \<inter> blk h' a = {}" using hp ae m by (auto simp: blk_def a_def)
    moreover have cu: "cover h' us = cover h us" "cover h' vs = cover h vs" using ex by (auto intro!: cover_cong)
    moreover have "(cover h us \<union> cover h vs) \<inter> blk h p = {}" using gap by (fastforce simp: cover_def blk_def)
    moreover have "brk h' = brk h" by (simp add: h'_def)
    moreover have "hsize h' x = hsize h x" if "x \<notin> cover h as" for x
      using that pc a_in as by (intro eq) auto
    ultimately show thesis using t hp by (intro that [of a h' as]) (auto simp: as)
  qed
qed

text \<open>
  What the kernel promises of \<^verbatim>\<open>sbrk\<close>: growing moves the end of memory by the amount asked for, and it
  refuses to go beyond what the machine can have, here 64 gigabytes.
\<close>

definition sbrk_grows :: "sbrk \<Rightarrow> bool" where
  "sbrk_grows sb \<longleftrightarrow> (\<forall>b n b'. 0 \<le> n \<and> sb b n = Some b' \<longrightarrow> b' = b + nat n \<and> b' \<le> 2 ^ 36)"

lemma malloc_found:
  assumes r: "ring h base as" and nu: "0 < nu" "\<exists>a \<in> set as. nu \<le> hsize h a"
  obtains a h' as' where "malloc_loop sb nu (freep h) (hptr h (freep h)) h = Some (a + HDR, h')" "ring h' base as'" "hsize h' a = nu"
    "cover h' as' \<union> blk h' a = cover h as" "cover h' as' \<inter> blk h' a = {}" "\<And>x. x \<notin> cover h as \<Longrightarrow> hsize h' x = hsize h x" "brk h' = brk h"
proof -
  obtain ts where ts: "chain (hptr h) (freep h # ts) (freep h)" "freep h \<notin> set ts" "set (ts @ [freep h]) = set (base # as)"
    by (rule ring_rotate [OF r])
  have "\<exists>a \<in> set (ts @ [freep h]). nu \<le> hsize h a" unfolding ts(3) using nu(2) by auto
  from malloc_loop_found [OF ts(1,2) this, of sb] obtain q p where qp: "q \<in> set (freep h # ts)" "hptr h q = p" "p \<in> set (ts @ [freep h])"
    "nu \<le> hsize h p" "malloc_loop sb nu (freep h) (hptr h (freep h)) h = Some (take_block nu q p h)" by blast
  have "q \<in> set (base # as)" "p \<in> set (base # as)" using qp(1,3) unfolding ts(3) [symmetric] by auto
  from take_block_spec [OF r this(2) qp(4) nu(1) this(1) qp(2)] show thesis using qp(5) that by metis
qed

lemma malloc_spec:
  assumes r: "ring h base as" and cv: "cover h as \<subseteq> {lo..<brk h}" and lo: "base + HDR \<le> lo" "lo \<le> brk h" "brk h \<le> 2 ^ 36"
    and sb: "sbrk_grows sb" and nu: "0 < nu" "nu * HDR < 2 ^ 31"
  obtains (full) "malloc_loop sb nu (freep h) (hptr h (freep h)) h = Some (0, h)"
  | (block) a h' as' where "malloc_loop sb nu (freep h) (hptr h (freep h)) h = Some (a + HDR, h')" "ring h' base as'" "hsize h' a = nu"
    "cover h' as' \<union> blk h' a = cover h as \<union> {brk h..<brk h'}" "cover h' as' \<inter> blk h' a = {}"
    "\<And>x. lo \<le> x \<Longrightarrow> x < brk h \<Longrightarrow> x \<notin> cover h as \<Longrightarrow> hsize h' x = hsize h x" "brk h \<le> brk h'" "brk h' \<le> 2 ^ 36"
proof (cases "\<exists>a \<in> set as. nu \<le> hsize h a")
  case True
  from malloc_found [OF r nu(1) True, of sb] show thesis
  proof cases
    case (1 a h' as')
    then show thesis using lo(3) by (intro block [of a h' as']) auto
  qed
next
  case False
  obtain ts where ts: "chain (hptr h) (freep h # ts) (freep h)" "freep h \<notin> set ts" "set (ts @ [freep h]) = set (base # as)"
    by (rule ring_rotate [OF r])
  have "\<forall>a \<in> set (ts @ [freep h]). hsize h a < nu" unfolding ts(3) using False nu(1) ringD(4) [OF r] by auto
  note more = malloc_loop_more [OF ts(1,2) this, of sb]
  define n where "n = (if nu < 4096 then 4096 else nu)"
  have n: "nu \<le> n" "0 < n" "to_int (n * HDR) = int (n * HDR)" using nu by (auto simp: n_def to_int_def HDR_def Let_def)
  show thesis
  proof (cases "sb (brk h) (to_int (n * HDR))")
    case None
    then show thesis using more by (intro full) (simp add: morecore_def n_def Let_def)
  next
    case (Some b)
    have b: "b = brk h + n * HDR" "b \<le> 2 ^ 36" using sb Some n(3) unfolding sbrk_grows_def by (metis nat_int of_nat_0_le_iff)+
    let ?h = "h\<lparr>brk := b, hsize := (hsize h)(brk h := n)\<rparr>"
    have nin: "brk h \<notin> set (base # as)"
    proof -
      have "a \<in> cover h as" if "a \<in> set as" for a using that ringD(6) [OF r] blk_start [of h a] by (auto simp: cover_def)
      then have "brk h \<notin> set as" using cv by fastforce
      then show ?thesis using lo by (auto simp: HDR_def)
    qed
    have eq: "\<forall>a \<in> set (base # as). hsize ?h a = hsize h a" using nin by auto
    have c: "cover ?h as = cover h as" using eq by (intro cover_cong) auto
    have r1: "ring ?h base as" using r eq sorted_apart_cong [OF eq] by (auto simp: ring_def)
    have bb: "blk ?h (brk h) = {brk h..<b}" using b(1) by (simp add: blk_def mult.commute)
    have p1: "base < brk h" "0 < hsize ?h (brk h)" using lo n(2) by (auto simp: HDR_def)
    have p2: "blk ?h (brk h) \<inter> cover ?h as = {}" "blk ?h (brk h) \<union> cover ?h as \<subseteq> {..<2 ^ 36}"
      using cv lo(3) b(2) unfolding bb c by auto
    obtain h1 as1 where h1: "free (brk h + HDR) ?h = Some h1" "ring h1 base as1" "cover h1 as1 = cover ?h as \<union> blk ?h (brk h)"
      "\<exists>a \<in> set as1. hsize ?h (brk h) \<le> hsize h1 a" "\<And>a. a \<notin> set (brk h # base # as) \<Longrightarrow> hsize h1 a = hsize ?h a" "brk h1 = brk ?h"
      by (rule free_spec [OF r1 p1 p2]) blast
    have f0: "freep h1 \<noteq> 0"
    proof -
      have "\<forall>a \<in> set (base # as1). 0 < a" using ringD(1,5) [OF h1(2)] by (auto simp: apart_def)
      then show ?thesis using ringD(2) [OF h1(2)] by auto
    qed
    have "morecore sb nu h = Some (freep h1, h1)" using Some h1(1) by (simp add: morecore_def n_def Let_def)
    then have m: "malloc_loop sb nu (freep h) (hptr h (freep h)) h = malloc_loop sb nu (freep h1) (hptr h1 (freep h1)) h1"
      using more f0 by simp
    have "\<exists>a \<in> set as1. nu \<le> hsize h1 a" using h1(4) n(1) le_trans by (auto, blast)
    from malloc_found [OF h1(2) nu(1) this, of sb] show thesis
    proof cases
      case (1 a h' as')
      have "hsize h' x = hsize h x" if x: "lo \<le> x" "x < brk h" "x \<notin> cover h as" for x
      proof -
        have "x \<notin> cover h1 as1" using x unfolding h1(3) bb c by auto
        then have "hsize h' x = hsize h1 x" by (rule 1(6))
        moreover have "x \<notin> set as" using x(3) ringD(6) [OF r] blk_start [of h x] by (auto simp: cover_def)
        then have "hsize h1 x = hsize h x" using h1(5) [of x] x lo(1) by (auto simp: HDR_def)
        ultimately show ?thesis by simp
      qed
      then show thesis using 1 m h1(6) b unfolding h1(3) bb c
        by (intro block [of a h' as']) auto
    qed
  qed
qed

end
