(* ===== verification/Heap_Safety.thy ===== *)
theory Heap_Safety
  imports Umalloc
begin

text \<open>
  The allocator of \<^verbatim>\<open>user/umalloc.c\<close> as a program uses it: the blocks it hands out never overlap.
\<close>

section \<open>Programs\<close>

text \<open>The blocks in use, by the addresses of their headers, overlap neither one another nor the free list.\<close>

definition live_ok :: "nat \<Rightarrow> uheap \<Rightarrow> nat list \<Rightarrow> nat set \<Rightarrow> bool" where
  "live_ok lo h as L \<longleftrightarrow>
     (\<forall>a \<in> L. 0 < hsize h a \<and> blk h a \<subseteq> {lo..<brk h} \<and> blk h a \<inter> cover h as = {}) \<and> (\<forall>a \<in> L. \<forall>b \<in> L. a \<noteq> b \<longrightarrow> blk h a \<inter> blk h b = {})"

definition heap_inv :: "nat \<Rightarrow> nat \<Rightarrow> uheap \<Rightarrow> nat set \<Rightarrow> bool" where
  "heap_inv base lo h L \<longleftrightarrow> lo \<le> brk h \<and> brk h \<le> 2 ^ 36 \<and>
     (freep h = 0 \<and> L = {} \<or> (\<exists>as. ring h base as \<and> cover h as \<subseteq> {lo..<brk h} \<and> live_ok lo h as L))"

text \<open>A program that only frees blocks it was given, once, and does not write to the headers.\<close>

inductive heap_reach :: "sbrk \<Rightarrow> nat \<Rightarrow> nat \<Rightarrow> uheap \<Rightarrow> nat set \<Rightarrow> bool" for sb base lo where
  start: "freep h = 0 \<Longrightarrow> brk h = lo \<Longrightarrow> heap_reach sb base lo h {}"
| alloc: "heap_reach sb base lo h L \<Longrightarrow> n + 32 \<le> 2 ^ 31 \<Longrightarrow> malloc sb base n h = Some (r, h') \<Longrightarrow> r \<noteq> 0 \<Longrightarrow>
    heap_reach sb base lo h' (insert (r - HDR) L)"
| refused: "heap_reach sb base lo h L \<Longrightarrow> n + 32 \<le> 2 ^ 31 \<Longrightarrow> malloc sb base n h = Some (0, h') \<Longrightarrow> heap_reach sb base lo h' L"
| release: "heap_reach sb base lo h L \<Longrightarrow> a \<in> L \<Longrightarrow> free (a + HDR) h = Some h' \<Longrightarrow> heap_reach sb base lo h' (L - {a})"

lemma malloc_units_bounds:
  assumes "n + 32 \<le> 2 ^ 31"
  shows "0 < malloc_units n" "malloc_units n * HDR < 2 ^ 31" "n + HDR \<le> HDR * malloc_units n"
proof -
  have "(n + 15) div 16 + 1 < 2 ^ 32" using assms by simp
  then have u: "malloc_units n = (n + 15) div 16 + 1" by (simp add: malloc_units_def HDR_def)
  show "0 < malloc_units n" "malloc_units n * HDR < 2 ^ 31" "n + HDR \<le> HDR * malloc_units n"
    using assms unfolding u HDR_def by (linarith | simp)+
qed

lemma free_inv:
  assumes "heap_inv base lo h L" and "base + HDR \<le> lo" and "a \<in> L"
  obtains h' where "free (a + HDR) h = Some h'" "heap_inv base lo h' (L - {a})" "\<And>b. b \<in> L - {a} \<Longrightarrow> hsize h' b = hsize h b"
proof -
  obtain as where as: "ring h base as" "cover h as \<subseteq> {lo..<brk h}" "live_ok lo h as L" and bk: "lo \<le> brk h" "brk h \<le> 2 ^ 36"
    using assms(1,3) unfolding heap_inv_def by blast
  have a: "0 < hsize h a" "blk h a \<subseteq> {lo..<brk h}" "blk h a \<inter> cover h as = {}" using as(3) assms(3) by (auto simp: live_ok_def)
  have ba: "base < a" using blk_start [OF a(1)] a(2) assms(2) by (auto simp: HDR_def)
  have t: "blk h a \<union> cover h as \<subseteq> {..<2 ^ 36}" using a(2) as(2) bk(2) by auto
  obtain h' as' where h': "free (a + HDR) h = Some h'" "ring h' base as'" "cover h' as' = cover h as \<union> blk h a"
    "\<And>x. x \<notin> set (a # base # as) \<Longrightarrow> hsize h' x = hsize h x" "brk h' = brk h" by (rule free_spec [OF as(1) ba a(1,3) t]) blast
  have sz: "hsize h' b = hsize h b" if b: "b \<in> L - {a}" for b
  proof -
    have "b \<in> blk h b" "blk h b \<subseteq> {lo..<brk h}" "blk h b \<inter> cover h as = {}" using as(3) b blk_start [of h b] by (auto simp: live_ok_def)
    moreover have "x \<in> cover h as" if "x \<in> set as" for x using that ringD(6) [OF as(1)] blk_start [of h x] by (auto simp: cover_def)
    ultimately have "b \<notin> set as" "base < b" using assms(2) by (auto simp: HDR_def)
    then show ?thesis using b by (intro h'(4)) auto
  qed
  have bl: "\<forall>b \<in> L - {a}. blk h' b = blk h b \<and> hsize h' b = hsize h b \<and> blk h b \<inter> blk h a = {}"
    using as(3) sz assms(3) blk_cong [OF sz] unfolding live_ok_def by blast
  have "live_ok lo h' as' (L - {a})"
  proof -
    have "0 < hsize h' b \<and> blk h' b \<subseteq> {lo..<brk h'} \<and> blk h' b \<inter> cover h' as' = {}" if b: "b \<in> L - {a}" for b
    proof -
      have "0 < hsize h b" "blk h b \<subseteq> {lo..<brk h}" "blk h b \<inter> cover h as = {}" using as(3) b unfolding live_ok_def by blast+
      then show ?thesis using bl b unfolding h'(3,5) by fastforce
    qed
    moreover have "blk h' b \<inter> blk h' c = {}" if "b \<in> L - {a}" "c \<in> L - {a}" "b \<noteq> c" for b c
      using as(3) that bl unfolding live_ok_def by (metis Diff_iff)
    ultimately show ?thesis unfolding live_ok_def by blast
  qed
  then have "heap_inv base lo h' (L - {a})" using h'(2,3,5) as(2) a(2) bk unfolding heap_inv_def by auto
  then show thesis using h'(1) sz by (intro that)
qed

lemma malloc_inv:
  assumes inv: "heap_inv base lo h L" and lo: "0 < base" "base + HDR \<le> lo" and sb: "sbrk_grows sb" and n: "n + 32 \<le> 2 ^ 31"
  obtains (full) h' where "malloc sb base n h = Some (0, h')" "heap_inv base lo h' L" "\<And>x. x \<in> L \<Longrightarrow> hsize h' x = hsize h x"
  | (block) a h' where "malloc sb base n h = Some (a + HDR, h')" "a \<notin> L" "heap_inv base lo h' (insert a L)" "n + HDR \<le> HDR * hsize h' a"
      "\<And>x. x \<in> L \<Longrightarrow> hsize h' x = hsize h x"
proof -
  define g where "g = (if freep h = 0 then h\<lparr>hptr := (hptr h)(base := base), freep := base, hsize := (hsize h)(base := 0)\<rparr> else h)"
  have bk: "lo \<le> brk g" "brk g \<le> 2 ^ 36" using inv by (auto simp: heap_inv_def g_def)
  obtain as where as: "ring g base as" "cover g as \<subseteq> {lo..<brk g}" "live_ok lo g as L" and gs: "\<forall>x \<in> L. hsize g x = hsize h x"
  proof (cases "freep h = 0")
    case True
    have "\<not> ring h base as" for as using True lo(1) sorted_apart_less [of h "base # as"] by (auto simp: ring_def)
    then have "L = {}" using inv by (simp add: heap_inv_def)
    then show thesis using True lo(1) by (intro that [of "[]"]) (auto simp: g_def ring_def live_ok_def)
  next
    case False
    then obtain as where "ring h base as" "cover h as \<subseteq> {lo..<brk h}" "live_ok lo h as L" using inv by (auto simp: heap_inv_def)
    moreover have "g = h" using False by (simp add: g_def)
    ultimately show thesis by (intro that) auto
  qed
  note u = malloc_units_bounds [OF n]
  have m: "malloc sb base n h = malloc_loop sb (malloc_units n) (freep g) (hptr g (freep g)) g" by (simp add: malloc_def g_def Let_def)
  show thesis
  proof (cases rule: malloc_spec [OF as(1,2) lo(2) bk sb u(1,2)])
    case 1
    then show thesis using m as bk gs by (intro full [of g]) (auto simp: heap_inv_def)
  next
    case (2 a h' as')
    have "0 < hsize h' a" using 2(3) u(1) by simp
    then have ai: "a \<in> cover g as \<union> {brk g..<brk h'}" using 2(4) blk_start [of h' a] by blast
    have L: "0 < hsize g x" "blk g x \<subseteq> {lo..<brk g}" "blk g x \<inter> cover g as = {}" "lo \<le> x" "x < brk g" "x \<notin> cover g as" if "x \<in> L" for x
    proof -
      show l: "0 < hsize g x" "blk g x \<subseteq> {lo..<brk g}" "blk g x \<inter> cover g as = {}" using as(3) that unfolding live_ok_def by blast+
      show "lo \<le> x" "x < brk g" "x \<notin> cover g as" using l blk_start [OF l(1)] by auto
    qed
    have sz: "hsize h' x = hsize g x" if "x \<in> L" for x using L(4-6) [OF that] by (rule 2(6))
    have bl: "blk h' x = blk g x" if "x \<in> L" for x using sz [OF that] by (rule blk_cong)
    have an: "a \<notin> L" using ai L(5) [of a] L(6) [of a] by auto
    have dis: "blk g x \<inter> (cover g as \<union> {brk g..<brk h'}) = {}" if "x \<in> L" for x using L(2,3) [OF that] by auto
    have "live_ok lo h' as' (insert a L)"
    proof -
      have "0 < hsize h' x \<and> blk h' x \<subseteq> {lo..<brk h'} \<and> blk h' x \<inter> cover h' as' = {}" if "x \<in> insert a L" for x
      proof (cases "x = a")
        case True
        then show ?thesis using 2(4,5,7) as(2) bk(1) \<open>0 < hsize h' a\<close> by fastforce
      next
        case False
        then have x: "x \<in> L" using that by simp
        then show ?thesis using L(1,2) [OF x] dis [OF x] 2(4,7) unfolding bl [OF x] sz [OF x] by fastforce
      qed
      note own = this
      have da: "blk h' x \<inter> blk h' a = {}" if "x \<in> L" for x using dis [OF that] 2(4) unfolding bl [OF that] by blast
      have dl: "blk h' x \<inter> blk h' y = {}" if "x \<in> L" "y \<in> L" "x \<noteq> y" for x y
        using as(3) that unfolding bl [OF that(1)] bl [OF that(2)] live_ok_def by blast
      have "blk h' x \<inter> blk h' y = {}" if "x \<in> insert a L" "y \<in> insert a L" "x \<noteq> y" for x y
        using that da [of x] da [of y] dl [of x y] by (cases "x = a"; cases "y = a") (simp_all add: Int_commute)
      then show ?thesis unfolding live_ok_def using own by simp
    qed
    moreover have "cover h' as' \<subseteq> {lo..<brk h'}" using 2(4,7) as(2) bk(1) by fastforce
    ultimately have "heap_inv base lo h' (insert a L)" using 2(2,7,8) bk unfolding heap_inv_def by auto
    then show thesis using m 2(1,3) an u(3) sz gs by (intro block [of a h']) auto
  qed
qed

lemma heap_reach_inv:
  assumes "heap_reach sb base lo h L" and "0 < base" and "base + HDR \<le> lo" and "lo \<le> 2 ^ 36" and "sbrk_grows sb"
  shows "heap_inv base lo h L"
  using assms(1)
proof induction
  case (start h)
  then show ?case using assms(4) by (simp add: heap_inv_def)
next
  case (alloc h L n r h')
  from malloc_inv [OF alloc.IH assms(2,3,5) alloc.hyps(2)] show ?case
    by cases (use alloc.hyps(3,4) in auto)
next
  case (refused h L n h')
  from malloc_inv [OF refused.IH assms(2,3,5) refused.hyps(2)] show ?case
    by cases (use refused.hyps(3) in \<open>auto simp: HDR_def\<close>)
next
  case (release h L a h')
  from free_inv [OF release.IH assms(3) release.hyps(2)] release.hyps(3) show ?case by (metis option.inject)
qed

section \<open>Claims\<close>

text \<open>
  C8. The user allocator is safe and returns. In every state that a program reaches by \<^verbatim>\<open>malloc\<close> and by
  \<^verbatim>\<open>free\<close> of blocks it was given, a request of less than two gigabytes returns, with 0 or with a pointer to
  that many bytes that lie in the heap and overlap no block in use, headers included; a block in use can
  be freed, which returns as well; and neither changes the size recorded for another block in use. The
  hypothesis is that \<^verbatim>\<open>sbrk\<close> grows the memory by the amount asked for or refuses.
\<close>

theorem malloc_safe:
  assumes "heap_reach sb base lo h L" and "0 < base" and "base + HDR \<le> lo" and "lo \<le> 2 ^ 36" and "sbrk_grows sb" and "n + 32 \<le> 2 ^ 31"
  shows "(\<exists>r h'. malloc sb base n h = Some (r, h') \<and>
      (r \<noteq> 0 \<longrightarrow> {r - HDR..<r + n} \<subseteq> {lo..<brk h'} \<and> (\<forall>a \<in> L. hsize h' a = hsize h a \<and> blk h' a \<inter> {r - HDR..<r + n} = {}))) \<and>
    (\<forall>a \<in> L. \<exists>h'. free (a + HDR) h = Some h' \<and> (\<forall>b \<in> L - {a}. hsize h' b = hsize h b)) \<and>
    (\<forall>a \<in> L. \<forall>b \<in> L. a \<noteq> b \<longrightarrow> blk h a \<inter> blk h b = {})"
proof (intro conjI ballI)
  note inv = heap_reach_inv [OF assms(1-5)]
  show "\<exists>r h'. malloc sb base n h = Some (r, h') \<and>
      (r \<noteq> 0 \<longrightarrow> {r - HDR..<r + n} \<subseteq> {lo..<brk h'} \<and> (\<forall>a \<in> L. hsize h' a = hsize h a \<and> blk h' a \<inter> {r - HDR..<r + n} = {}))"
  proof (cases rule: malloc_inv [OF inv assms(2,3,5,6)])
    case (1 h')
    then show ?thesis by simp
  next
    case (2 a h')
    obtain as where l: "live_ok lo h' as (insert a L)" using 2(3) assms(2) by (auto simp: heap_inv_def)
    have "{a + HDR - HDR..<a + HDR + n} \<subseteq> blk h' a" using 2(4) by (auto simp: blk_def)
    moreover have "blk h' a \<subseteq> {lo..<brk h'}" using l by (simp add: live_ok_def)
    moreover have "blk h' x \<inter> blk h' a = {}" if "x \<in> L" for x using l that 2(2) unfolding live_ok_def by (metis insert_iff)
    ultimately show ?thesis using 2(1,5) by (intro exI [of _ "a + HDR"] exI [of _ h']) fastforce
  qed
  show "\<exists>h'. free (a + HDR) h = Some h' \<and> (\<forall>b \<in> L - {a}. hsize h' b = hsize h b)" if "a \<in> L" for a
    using free_inv [OF inv assms(3) that] by metis
  show "a \<noteq> b \<longrightarrow> blk h a \<inter> blk h b = {}" if "a \<in> L" "b \<in> L" for a b
    using inv that unfolding heap_inv_def live_ok_def by blast
qed

definition sbrk_demo :: sbrk where
  "sbrk_demo b n = (if 0 \<le> n \<and> b + nat n \<le> 2 ^ 36 then Some (b + nat n) else None)"

definition fresh_heap :: uheap where
  "fresh_heap = \<lparr>hptr = \<lambda>_. 0, hsize = \<lambda>_. 0, freep = 0, brk = 8192\<rparr>"

theorem malloc_safe_witness:
  "\<exists>r h'. malloc sbrk_demo 4096 100 fresh_heap = Some (r, h') \<and> (r \<noteq> 0 \<longrightarrow> {r - HDR..<r + 100} \<subseteq> {8192..<brk h'})"
proof -
  have "heap_reach sbrk_demo 4096 8192 fresh_heap {}" by (rule start) (simp_all add: fresh_heap_def)
  moreover have "sbrk_grows sbrk_demo" by (simp add: sbrk_grows_def sbrk_demo_def)
  ultimately show ?thesis using malloc_safe [of sbrk_demo 4096 8192 fresh_heap "{}" 100] by (simp add: HDR_def)
qed

text \<open>
  C32. A huge request is answered with memory that does not exist. The product of the units and the size of a
  header is converted to the \<^verbatim>\<open>int\<close> that \<^verbatim>\<open>sbrk\<close> takes: the first \<^verbatim>\<open>malloc(0xffffffff)\<close> of a program asks the
  kernel for 16 bytes only, and returns the end of the memory as if 4 gigabytes began there.
\<close>

theorem malloc_wraps:
  assumes "freep h = 0" and "0 < base" and "base < brk h" and "sb (brk h) 16 = Some (brk h + 16)"
  shows "\<exists>h'. malloc sb base 0xffffffff h = Some (brk h', h')"
proof -
  define g where "g = h\<lparr>hptr := (hptr h)(base := base), freep := base, hsize := (hsize h)(base := 0)\<rparr>"
  define b where "b = brk h"
  define g1 where "g1 = g\<lparr>brk := b + 16, hsize := (hsize g)(b := 2 ^ 28 + 1)\<rparr>"
  define g2 where "g2 = g1\<lparr>hptr := (hptr g)(b := base, base := b), freep := base\<rparr>"
  have bb: "base < b" using assms(3) by (simp add: b_def)
  have u: "malloc_units 0xffffffff = 2 ^ 28 + 1" by (simp add: malloc_units_def HDR_def)
  have "free_find g1 b base = Some base" using bb by (subst free_find.simps) (simp add: g1_def g_def)
  then have "free (b + HDR) g1 = Some g2" using bb by (simp add: free_def free_at_def join_up_def join_down_def g1_def g_def g2_def Let_def HDR_def)
  then have mc: "morecore sb (2 ^ 28 + 1) g = Some (base, g2)"
    using assms(4) by (simp add: morecore_def Let_def to_int_def HDR_def b_def g1_def g_def g2_def)
  have "malloc_loop sb (2 ^ 28 + 1) base b g2 = Some (take_block (2 ^ 28 + 1) base b g2)"
    using bb by (subst malloc_loop.simps) (simp add: g2_def g1_def)
  also have "\<dots> = Some (b + 16, g2\<lparr>hptr := (hptr g2)(base := hptr g2 b), freep := base\<rparr>)"
    using bb by (simp add: take_block_def g2_def g1_def HDR_def)
  finally have l2: "malloc_loop sb (2 ^ 28 + 1) base b g2 = Some (b + 16, g2\<lparr>hptr := (hptr g2)(base := hptr g2 b), freep := base\<rparr>)" .
  have "malloc sb base 0xffffffff h = malloc_loop sb (2 ^ 28 + 1) base base g"
    using assms(1) by (simp add: malloc_def u g_def)
  also have "\<dots> = malloc_loop sb (2 ^ 28 + 1) base b g2"
    using mc assms(2) by (subst malloc_loop.simps) (simp add: g_def g2_def)
  finally show ?thesis using l2 by (simp add: g2_def g1_def)
qed

theorem malloc_wraps_witness:
  "\<exists>h'. malloc sbrk_demo 4096 0xffffffff fresh_heap = Some (brk h', h')"
  by (rule malloc_wraps) (simp_all add: fresh_heap_def sbrk_demo_def)

end
