(* ===== verification/Sh.thy ===== *)
theory Sh
  imports Ulib
begin

text \<open>
  The parser of the shell, \<^verbatim>\<open>user/sh.c\<close>. The line is the list of its bytes before the terminating
  zero, a pointer into it a position, and \<^verbatim>\<open>es\<close> its length. \<^verbatim>\<open>panic\<close> is the result \<open>PErr\<close>; the calls of
  \<^verbatim>\<open>malloc\<close> for the nodes are taken to succeed.
\<close>

unbundle bit_operations_syntax

section \<open>Commands\<close>

text \<open>
  The nodes over a type of strings. The parser makes them with the pairs of pointers \<^verbatim>\<open>argv\<close>, \<^verbatim>\<open>eargv\<close> and
  \<^verbatim>\<open>file\<close>, \<^verbatim>\<open>efile\<close>, which are positions; the argument arrays are the lists of their entries before the null
  pointer. Redirections also have a mode and a descriptor.
\<close>

datatype 's cmd =
    EXEC "'s list"
  | REDIR "'s cmd" 's nat nat
  | PIPE "'s cmd" "'s cmd"
  | LIST "'s cmd" "'s cmd"
  | BACK "'s cmd"

type_synonym span = "nat \<times> nat"

datatype 'a parsed = POk 'a | PErr string | PFuel

fun pbind :: "'a parsed \<Rightarrow> ('a \<Rightarrow> 'b parsed) \<Rightarrow> 'b parsed" where
  "pbind (POk a) f = f a"
| "pbind (PErr e) f = PErr e"
| "pbind PFuel f = PFuel"

definition MAXARGS :: nat where "MAXARGS = 10"

definition O_RDONLY :: nat where "O_RDONLY = 0"
definition O_WRONLY :: nat where "O_WRONLY = 1"
definition O_CREATE :: nat where "O_CREATE = 0x200"
definition O_TRUNC :: nat where "O_TRUNC = 0x400"

section \<open>Tokens\<close>

definition whitespace :: "uchar list" where
  "whitespace = [32, 9, 13, 10, 11]"

definition symbols :: "uchar list" where
  "symbols = bytes ''<|>&;()''"

text \<open>The byte at a position: the terminating zero at the end.\<close>

definition char_at :: "uchar list \<Rightarrow> nat \<Rightarrow> uchar" where
  "char_at b s = (if s < length b then b ! s else 0)"

function skip_ws :: "uchar list \<Rightarrow> nat \<Rightarrow> nat" where
  "skip_ws b s = (if s < length b \<and> b ! s \<in> set whitespace then skip_ws b (s + 1) else s)"
  by pat_completeness auto

termination
  by (relation "measure (\<lambda>(b, s). length b - s)") auto

function skip_word :: "uchar list \<Rightarrow> nat \<Rightarrow> nat" where
  "skip_word b s =
     (if s < length b \<and> b ! s \<notin> set whitespace \<and> b ! s \<notin> set symbols then skip_word b (s + 1) else s)"
  by pat_completeness auto

termination
  by (relation "measure (\<lambda>(b, s). length b - s)") auto

declare skip_ws.simps [simp del] skip_word.simps [simp del]

text \<open>\<^verbatim>\<open>gettoken\<close> returns the token's kind, its start and end, and the new position.\<close>

definition gettoken :: "uchar list \<Rightarrow> nat \<Rightarrow> uchar \<times> nat \<times> nat \<times> nat" where
  "gettoken b ps =
     (let s = skip_ws b ps; q = s; c = char_at b s;
          (ret, s) =
            (if c = 0 then (c, s)
             else if c \<in> set (bytes ''|();&<'') then (c, s + 1)
             else if c = of_char CHR ''>'' then
               (let s = s + 1 in if char_at b s = of_char CHR ''>'' then (of_char CHR ''+'', s + 1) else (c, s))
             else (of_char CHR ''a'', skip_word b s))
      in (ret, q, s, skip_ws b s))"

definition peek :: "uchar list \<Rightarrow> nat \<Rightarrow> uchar list \<Rightarrow> bool \<times> nat" where
  "peek b ps toks = (let s = skip_ws b ps; c = char_at b s in (c \<noteq> 0 \<and> c \<in> set toks, s))"

lemma skip_ws_le: "s \<le> skip_ws b s" "s \<le> length b \<Longrightarrow> skip_ws b s \<le> length b"
  by (induction b s rule: skip_ws.induct) (subst skip_ws.simps; force)+

lemma skip_word_le: "s \<le> skip_word b s" "s \<le> length b \<Longrightarrow> skip_word b s \<le> length b"
  by (induction b s rule: skip_word.induct) (subst skip_word.simps; force)+

lemma skip_ws_stop: "skip_ws b s < length b \<Longrightarrow> b ! skip_ws b s \<notin> set whitespace"
proof (induction b s rule: skip_ws.induct)
  case (1 b s)
  then show ?case by (subst (asm) (2) skip_ws.simps, subst skip_ws.simps) (auto split: if_splits simp: skip_ws.simps [of b s])
qed

text \<open>A token other than the end consumes at least one byte.\<close>

lemma gettoken_advances:
  assumes "gettoken b s = (tok, q, eq, s')"
  shows "s \<le> s'" "tok \<noteq> 0 \<Longrightarrow> s < length b \<and> s < s'"
proof -
  let ?s = "skip_ws b s"
  have 1: "s \<le> ?s" "\<And>x. x \<le> skip_ws b x" "\<And>x. x \<le> skip_word b x" by (rule skip_ws_le skip_word_le)+
  show "s \<le> s'" using assms 1(1) 1(2) [of ?s] 1(2) [of "?s + 1"] 1(2) [of "?s + 2"] 1(2) [of "skip_word b ?s"] 1(3) [of ?s]
    by (auto simp: gettoken_def Let_def split: if_splits)
  assume "tok \<noteq> 0"
  then have c: "char_at b ?s \<noteq> 0" using assms by (auto simp: gettoken_def Let_def)
  then have l: "?s < length b" by (auto simp: char_at_def split: if_splits)
  have "?s < skip_word b ?s" if "char_at b ?s \<notin> set (bytes ''|();&<'')" "char_at b ?s \<noteq> of_char CHR ''>''"
  proof -
    have "b ! ?s \<notin> set whitespace" by (rule skip_ws_stop [OF l])
    moreover have "b ! ?s \<notin> set symbols" using that l by (auto simp: char_at_def bytes_def symbols_def)
    ultimately have "skip_word b ?s = skip_word b (?s + 1)" using l by (subst skip_word.simps) simp
    then show ?thesis using 1(3) [of "?s + 1"] by simp
  qed
  then have "?s < s'"
    using assms c 1(2) [of "?s + 1"] 1(2) [of "?s + 2"] 1(2) [of "skip_word b ?s"]
    by (auto simp: gettoken_def Let_def split: if_splits)
  then show "s < length b \<and> s < s'" using l 1(1) by simp
qed

lemma peek_le: "peek b s toks = (r, s') \<Longrightarrow> s \<le> s'"
  using skip_ws_le(1) [of s b] by (auto simp: peek_def Let_def)

lemma peek_True: "peek b s toks = (True, s') \<Longrightarrow> fst (gettoken b s') \<noteq> 0"
proof -
  assume p: "peek b s toks = (True, s')"
  then have s': "s' = skip_ws b s" "char_at b s' \<noteq> 0" by (auto simp: peek_def Let_def)
  have "skip_ws b s' = s'" using skip_ws_stop [of b s] unfolding s'(1) by (subst skip_ws.simps) auto
  then show ?thesis using s'(2) by (auto simp: gettoken_def Let_def)
qed

section \<open>Parser\<close>

text \<open>
  The redirections of a command: file name, mode, and descriptor. \<^verbatim>\<open>parseexec\<close> keeps
  filling the \<^verbatim>\<open>execcmd\<close> node after redirection nodes were put on top of it, so the redirections are
  collected in order and wrapped around the finished node.
\<close>

type_synonym 's redir = "'s \<times> nat \<times> nat"

definition redir_of :: "uchar \<Rightarrow> span \<Rightarrow> span redir list" where
  "redir_of tok f =
     (if tok = of_char CHR ''<'' then [(f, O_RDONLY, 0)]
      else if tok = of_char CHR ''>'' then [(f, O_WRONLY OR O_CREATE OR O_TRUNC, 1)]
      else if tok = of_char CHR ''+'' then [(f, O_WRONLY OR O_CREATE, 1)]
      else [])"

definition redircmd :: "'s cmd \<Rightarrow> 's redir \<Rightarrow> 's cmd" where
  "redircmd c r = (case r of (f, m, fd) \<Rightarrow> REDIR c f m fd)"

definition redirs_on :: "'s redir list \<Rightarrow> 's cmd \<Rightarrow> 's cmd" where
  "redirs_on rs c = foldl redircmd c rs"

function parseredirs :: "uchar list \<Rightarrow> nat \<Rightarrow> span redir list \<Rightarrow> (span redir list \<times> nat) parsed" where
  "parseredirs b ps rs =
     (let (r, s) = peek b ps (bytes ''<>'') in
      if \<not> r then POk (rs, s)
      else let (tok, _, _, s) = gettoken b s; (w, q, eq, s) = gettoken b s in
        if w \<noteq> of_char CHR ''a'' then PErr ''missing file for redirection''
        else parseredirs b s (rs @ redir_of tok (q, eq)))"
  by pat_completeness auto

termination
proof (relation "measure (\<lambda>(b, s, _). length b - s)", goal_cases)
  case (2 b ps rs x r s y tok z1 z2 z3 z4 s2 v w u q u2 eq s3)
  have p: "peek b ps (bytes ''<>'') = (True, s)" using 2(1-3) by simp
  have g: "gettoken b s = (tok, z2, z4, s2)" using 2(4-7) by simp
  have h: "gettoken b s2 = (w, q, eq, s3)" using 2(8-11) by simp
  have "tok \<noteq> 0" using peek_True [OF p] g by simp
  then show ?case using peek_le [OF p] gettoken_advances [OF g] gettoken_advances(1) [OF h] by auto
qed simp

declare parseredirs.simps [simp del]

lemma parseredirs_le: "parseredirs b s rs = POk (rs', s') \<Longrightarrow> s \<le> s'"
proof (induction b s rs rule: parseredirs.induct)
  case (1 b ps rs)
  obtain r s where p: "peek b ps (bytes ''<>'') = (r, s)" by fastforce
  obtain tok q1 eq1 s2 where g: "gettoken b s = (tok, q1, eq1, s2)" using prod_cases4 by blast
  obtain w q eq s3 where h: "gettoken b s2 = (w, q, eq, s3)" using prod_cases4 by blast
  show ?case
  proof (cases "r \<and> w = of_char CHR ''a''")
    case True
    then have "parseredirs b s3 (rs @ redir_of tok (q, eq)) = POk (rs', s')"
      using 1(2) p g h by (subst (asm) parseredirs.simps) simp
    then have "s3 \<le> s'" using 1(1) p g h True by simp
    then show ?thesis using peek_le [OF p] gettoken_advances(1) [OF g] gettoken_advances(1) [OF h] by simp
  next
    case False
    then show ?thesis using 1(2) p g h peek_le [OF p] by (subst (asm) parseredirs.simps) (auto split: if_splits)
  qed
qed

text \<open>The loop of \<^verbatim>\<open>parseexec\<close>.\<close>

function parseargs :: "uchar list \<Rightarrow> nat \<Rightarrow> span list \<Rightarrow> span redir list \<Rightarrow> (span list \<times> span redir list \<times> nat) parsed" where
  "parseargs b ps args rs =
     (let (r, s) = peek b ps (bytes ''|)&;'') in
      if r then POk (args, rs, s)
      else let (tok, q, eq, s) = gettoken b s in
        if tok = 0 then POk (args, rs, s)
        else if tok \<noteq> of_char CHR ''a'' then PErr ''syntax''
        else let args = args @ [(q, eq)] in
          if MAXARGS \<le> length args then PErr ''too many args''
          else case parseredirs b s rs of
            POk (rs, s) \<Rightarrow> parseargs b s args rs
          | PErr e \<Rightarrow> PErr e
          | PFuel \<Rightarrow> PFuel)"
  by pat_completeness auto

termination
proof (relation "measure (\<lambda>(b, s, _). length b - s)", goal_cases)
  case (2 b ps args rs x r s y tok y1 q y2 eq s2 args' z rs2 s3)
  have p: "peek b ps (bytes ''|)&;'') = (r, s)" using 2(1,2) by simp
  have g: "gettoken b s = (tok, q, eq, s2)" using 2(4-7) by simp
  have "s2 \<le> s3" using 2 by (auto intro: parseredirs_le)
  then show ?case using 2(8) peek_le [OF p] gettoken_advances [OF g] by auto
qed simp

declare parseargs.simps [simp del]

text \<open>The loop of \<^verbatim>\<open>parseline\<close>.\<close>

function parseback :: "uchar list \<Rightarrow> nat \<Rightarrow> span cmd \<Rightarrow> span cmd \<times> nat" where
  "parseback b ps c =
     (let (r, s) = peek b ps (bytes ''&'') in
      if r then let (_, _, _, s) = gettoken b s in parseback b s (BACK c) else (c, s))"
  by pat_completeness auto

termination
proof (relation "measure (\<lambda>(b, s, _). length b - s)", goal_cases)
  case (2 b ps c x r s y tok y1 q y2 eq s2)
  have p: "peek b ps (bytes ''&'') = (True, s)" using 2(1-3) by simp
  have g: "gettoken b s = (tok, q, eq, s2)" using 2(4-7) by simp
  have "tok \<noteq> 0" using peek_True [OF p] g by simp
  then show ?case using peek_le [OF p] gettoken_advances [OF g] by auto
qed simp

declare parseback.simps [simp del]

text \<open>
  The recursive descent, with fuel. A call consumes at least one byte before the same function is
  called again, except for the three calls on the way down from \<^verbatim>\<open>parseline\<close> to \<^verbatim>\<open>parseblock\<close>.
\<close>

fun parseline :: "nat \<Rightarrow> uchar list \<Rightarrow> nat \<Rightarrow> (span cmd \<times> nat) parsed"
  and parsepipe :: "nat \<Rightarrow> uchar list \<Rightarrow> nat \<Rightarrow> (span cmd \<times> nat) parsed"
  and parseblock :: "nat \<Rightarrow> uchar list \<Rightarrow> nat \<Rightarrow> (span cmd \<times> nat) parsed"
  and parseexec :: "nat \<Rightarrow> uchar list \<Rightarrow> nat \<Rightarrow> (span cmd \<times> nat) parsed" where
  "parseline 0 b ps = PFuel"
| "parseline (Suc n) b ps =
     pbind (parsepipe n b ps) (\<lambda>(c, s).
     let (c, s) = parseback b s c; (r, s) = peek b s (bytes '';'') in
     if r then let (_, _, _, s) = gettoken b s in pbind (parseline n b s) (\<lambda>(d, s). POk (LIST c d, s))
     else POk (c, s))"
| "parsepipe 0 b ps = PFuel"
| "parsepipe (Suc n) b ps =
     pbind (parseexec n b ps) (\<lambda>(c, s).
     let (r, s) = peek b s (bytes ''|'') in
     if r then let (_, _, _, s) = gettoken b s in pbind (parsepipe n b s) (\<lambda>(d, s). POk (PIPE c d, s))
     else POk (c, s))"
| "parseblock 0 b ps = PFuel"
| "parseblock (Suc n) b ps =
     (let (r, s) = peek b ps (bytes ''('') in
      if \<not> r then PErr ''parseblock''
      else let (_, _, _, s) = gettoken b s in
        pbind (parseline n b s) (\<lambda>(c, s).
        let (r, s) = peek b s (bytes '')'') in
        if \<not> r then PErr ''syntax - missing )''
        else let (_, _, _, s) = gettoken b s in
          pbind (parseredirs b s []) (\<lambda>(rs, s). POk (redirs_on rs c, s))))"
| "parseexec 0 b ps = PFuel"
| "parseexec (Suc n) b ps =
     (let (r, s) = peek b ps (bytes ''('') in
      if r then parseblock n b s
      else pbind (parseredirs b s []) (\<lambda>(rs, s).
           pbind (parseargs b s [] rs) (\<lambda>(args, rs, s). POk (redirs_on rs (EXEC args), s))))"

fun nulterminate :: "span cmd \<Rightarrow> uchar list \<Rightarrow> uchar list" where
  "nulterminate (EXEC args) buf = foldl (\<lambda>buf (q, eq). buf[eq := 0]) buf args"
| "nulterminate (REDIR c (q, eq) m fd) buf = (nulterminate c buf)[eq := 0]"
| "nulterminate (PIPE l r) buf = nulterminate r (nulterminate l buf)"
| "nulterminate (LIST l r) buf = nulterminate r (nulterminate l buf)"
| "nulterminate (BACK c) buf = nulterminate c buf"

definition parse_fuel :: "uchar list \<Rightarrow> nat" where
  "parse_fuel b = 4 * length b + 4"

definition parsecmd :: "uchar list \<Rightarrow> (span cmd \<times> uchar list) parsed" where
  "parsecmd b =
     pbind (parseline (parse_fuel b) b 0) (\<lambda>(c, s).
     let (_, s) = peek b s [] in
     if s \<noteq> length b then PErr ''syntax'' else POk (c, nulterminate c (b @ [0])))"

end
