(* ===== verification/Sh_Parse.thy ===== *)
theory Sh_Parse
  imports Sh
begin

text \<open>
  The parser of the shell returns for every line, with a command whose strings are words of the line
  or with a message; and it reads back every command from its text.
\<close>

section \<open>Words\<close>

definition word_char :: "uchar \<Rightarrow> bool" where
  "word_char c \<longleftrightarrow> c \<notin> set whitespace \<and> c \<notin> set symbols"

text \<open>A maximal run of word characters.\<close>

definition is_word :: "uchar list \<Rightarrow> span \<Rightarrow> bool" where
  "is_word b p \<longleftrightarrow>
     (case p of (q, eq) \<Rightarrow>
        q < eq \<and> eq \<le> length b \<and> (\<forall>i \<in> {q..<eq}. word_char (b ! i)) \<and> (eq < length b \<longrightarrow> \<not> word_char (b ! eq)))"

definition redir_modes :: "(nat \<times> nat) list" where
  "redir_modes = [(O_RDONLY, 0), (O_WRONLY OR O_CREATE OR O_TRUNC, 1), (O_WRONLY OR O_CREATE, 1)]"

fun cmd_ok :: "uchar list \<Rightarrow> span cmd \<Rightarrow> bool" where
  "cmd_ok b (EXEC args) \<longleftrightarrow> length args < MAXARGS \<and> list_all (is_word b) args"
| "cmd_ok b (REDIR c f m fd) \<longleftrightarrow> cmd_ok b c \<and> is_word b f \<and> (m, fd) \<in> set redir_modes"
| "cmd_ok b (PIPE l r) \<longleftrightarrow> cmd_ok b l \<and> cmd_ok b r"
| "cmd_ok b (LIST l r) \<longleftrightarrow> cmd_ok b l \<and> cmd_ok b r"
| "cmd_ok b (BACK c) \<longleftrightarrow> cmd_ok b c"

fun strings_of :: "'s cmd \<Rightarrow> 's list" where
  "strings_of (EXEC args) = args"
| "strings_of (REDIR c f m fd) = strings_of c @ [f]"
| "strings_of (PIPE l r) = strings_of l @ strings_of r"
| "strings_of (LIST l r) = strings_of l @ strings_of r"
| "strings_of (BACK c) = strings_of c"

definition text_of :: "uchar list \<Rightarrow> span \<Rightarrow> uchar list" where
  "text_of b p = (case p of (q, eq) \<Rightarrow> take (eq - q) (drop q b))"

definition cstr_at :: "uchar list \<Rightarrow> nat \<Rightarrow> uchar list" where
  "cstr_at buf q = takeWhile (\<lambda>c. c \<noteq> 0) (drop q buf)"

definition parse_errors :: "string list" where
  "parse_errors = [''syntax'', ''too many args'', ''missing file for redirection'', ''syntax - missing )'']"

section \<open>Tokens of a line\<close>

lemma skip_word_run: "i \<in> {s..<skip_word b s} \<Longrightarrow> word_char (b ! i)"
proof (induction b s rule: skip_word.induct)
  case (1 b s)
  then show ?case by (subst (asm) (2) skip_word.simps) (cases "i = s"; auto simp: word_char_def split: if_splits)
qed

lemma skip_word_stop: "skip_word b s < length b \<Longrightarrow> \<not> word_char (b ! skip_word b s)"
proof (induction b s rule: skip_word.induct)
  case (1 b s)
  then show ?case
    by (subst (asm) (2) skip_word.simps, subst skip_word.simps) (auto simp: word_char_def split: if_splits)
qed

lemma skip_word_word:
  assumes "s < length b" "word_char (b ! s)"
  shows "is_word b (s, skip_word b s)"
proof -
  have "skip_word b s = skip_word b (s + 1)" using assms by (subst skip_word.simps) (simp add: word_char_def)
  then show ?thesis using assms skip_word_le [of "s + 1" b] skip_word_run [of _ s b] skip_word_stop [of b s]
    by (auto simp: is_word_def)
qed

lemma gettoken_bound: "\<lbrakk>gettoken b s = (tok, q, eq, s'); s \<le> length b\<rbrakk> \<Longrightarrow> s' \<le> length b"
  using skip_ws_le(2) [of s b] skip_ws_le(2) [of "skip_ws b s + 1" b] skip_ws_le(2) [of "skip_ws b s + 2" b]
    skip_ws_le(2) [of "skip_ws b s" b] skip_word_le(2) [of "skip_ws b s" b] skip_ws_le(2) [of "skip_word b (skip_ws b s)" b]
  by (auto simp: gettoken_def Let_def char_at_def split: if_splits)

lemma gettoken_word:
  assumes "gettoken b s = (of_char CHR ''a'', q, eq, s')"
  shows "is_word b (q, eq)"
proof -
  let ?s = "skip_ws b s"
  have c: "char_at b ?s \<noteq> 0" "char_at b ?s \<notin> set (bytes ''|();&<'')" "char_at b ?s \<noteq> of_char CHR ''>''"
    and q: "q = ?s" "eq = skip_word b ?s"
    using assms by (auto simp: gettoken_def Let_def bytes_def split: if_splits)
  have l: "?s < length b" using c(1) by (auto simp: char_at_def split: if_splits)
  have "b ! ?s \<notin> set symbols" using c(2,3) l by (auto simp: char_at_def bytes_def symbols_def)
  then have "word_char (b ! ?s)" using skip_ws_stop [OF l] by (simp add: word_char_def)
  then show ?thesis using skip_word_word [OF l] q by simp
qed

lemma peek_bound: "\<lbrakk>peek b s toks = (r, s'); s \<le> length b\<rbrakk> \<Longrightarrow> s' \<le> length b"
  using skip_ws_le(2) [of s b] by (auto simp: peek_def Let_def)

lemma skip_ws_idem: "skip_ws b (skip_ws b s) = skip_ws b s"
  using skip_ws_stop [of b s] by (subst skip_ws.simps) auto

lemma peek_again: "peek b s toks = (r, s') \<Longrightarrow> peek b s' toks = (r, s')"
  by (auto simp: peek_def Let_def skip_ws_idem)

lemma peek_token:
  assumes "peek b s toks = (True, s1)" "gettoken b s1 = (tok, q, eq, s2)"
  shows "tok \<noteq> 0" "s < s2" "s < length b"
  using peek_True [OF assms(1)] peek_le [OF assms(1)] gettoken_advances(2) [OF assms(2)] assms(2) by auto

section \<open>Every line is parsed\<close>

fun yields :: "('a \<Rightarrow> bool) \<Rightarrow> 'a parsed \<Rightarrow> bool" where
  "yields P (POk a) \<longleftrightarrow> P a"
| "yields P (PErr e) \<longleftrightarrow> e \<in> set parse_errors"
| "yields P PFuel \<longleftrightarrow> False"

lemma yields_bind: "\<lbrakk>yields P r; \<And>a. P a \<Longrightarrow> yields Q (f a)\<rbrakk> \<Longrightarrow> yields Q (pbind r f)"
  by (cases r) auto

definition redir_ok :: "uchar list \<Rightarrow> span redir \<Rightarrow> bool" where
  "redir_ok b r \<longleftrightarrow> (case r of (f, m, fd) \<Rightarrow> is_word b f \<and> (m, fd) \<in> set redir_modes)"

definition upto_end :: "uchar list \<Rightarrow> nat \<Rightarrow> nat \<Rightarrow> bool" where
  "upto_end b s s' \<longleftrightarrow> s \<le> s' \<and> s' \<le> length b"

definition parsed_ok :: "uchar list \<Rightarrow> nat \<Rightarrow> span cmd \<times> nat \<Rightarrow> bool" where
  "parsed_ok b s p \<longleftrightarrow> (case p of (c, s') \<Rightarrow> cmd_ok b c \<and> upto_end b s s')"

lemma redir_of_ok: "is_word b f \<Longrightarrow> list_all (redir_ok b) (redir_of tok f)"
  by (simp add: redir_of_def redir_ok_def redir_modes_def)

lemma redirs_on_ok: "\<lbrakk>cmd_ok b c; list_all (redir_ok b) rs\<rbrakk> \<Longrightarrow> cmd_ok b (redirs_on rs c)"
  unfolding redirs_on_def by (induction rs arbitrary: c) (auto simp: redircmd_def redir_ok_def)

lemma parseredirs_yields:
  assumes "s \<le> length b" "list_all (redir_ok b) rs"
  shows "yields (\<lambda>(rs, s'). list_all (redir_ok b) rs \<and> upto_end b s s') (parseredirs b s rs)"
  using assms
proof (induction b s rs rule: parseredirs.induct)
  case (1 b ps rs)
  obtain r s where p: "peek b ps (bytes ''<>'') = (r, s)" by fastforce
  obtain tok q1 eq1 s2 where g: "gettoken b s = (tok, q1, eq1, s2)" using prod_cases4 by blast
  obtain w q eq s3 where h: "gettoken b s2 = (w, q, eq, s3)" using prod_cases4 by blast
  have le: "ps \<le> s" "s \<le> s2" "s2 \<le> s3" using peek_le [OF p] gettoken_advances(1) [OF g] gettoken_advances(1) [OF h] by auto
  have b: "s \<le> length b" "s3 \<le> length b"
    using peek_bound [OF p 1(2)] gettoken_bound [OF g] gettoken_bound [OF h] by auto
  show ?case
  proof (cases "r \<and> w = of_char CHR ''a''")
    case True
    have "list_all (redir_ok b) (rs @ redir_of tok (q, eq))"
      using 1(3) redir_of_ok gettoken_word h True by simp
    then have "yields (\<lambda>(rs, s'). list_all (redir_ok b) rs \<and> upto_end b s3 s') (parseredirs b s3 (rs @ redir_of tok (q, eq)))"
      using 1(1) p g h True b by simp
    then have "yields (\<lambda>(rs, s'). list_all (redir_ok b) rs \<and> upto_end b ps s') (parseredirs b s3 (rs @ redir_of tok (q, eq)))"
      using le by (cases "parseredirs b s3 (rs @ redir_of tok (q, eq))") (auto simp: upto_end_def)
    moreover have "parseredirs b ps rs = parseredirs b s3 (rs @ redir_of tok (q, eq))"
      using p g h True by (subst parseredirs.simps) simp
    ultimately show ?thesis by simp
  next
    case False
    then show ?thesis using p g h le b 1(3)
      by (subst parseredirs.simps) (auto simp: upto_end_def parse_errors_def)
  qed
qed

lemma parseargs_yields:
  assumes "s \<le> length b" "list_all (redir_ok b) rs" "cmd_ok b (EXEC args)"
  shows "yields (\<lambda>(args, rs, s'). cmd_ok b (EXEC args) \<and> list_all (redir_ok b) rs \<and> upto_end b s s') (parseargs b s args rs)"
  using assms
proof (induction b s args rs rule: parseargs.induct)
  case (1 b ps args rs)
  obtain r s where p: "peek b ps (bytes ''|)&;'') = (r, s)" by fastforce
  obtain tok q eq s2 where g: "gettoken b s = (tok, q, eq, s2)" using prod_cases4 by blast
  have le: "ps \<le> s" "s \<le> s2" using peek_le [OF p] gettoken_advances(1) [OF g] by auto
  have b: "s \<le> length b" "s2 \<le> length b" using peek_bound [OF p 1(2)] gettoken_bound [OF g] by auto
  show ?case
  proof (cases "\<not> r \<and> tok = of_char CHR ''a'' \<and> Suc (length args) < MAXARGS")
    case True
    have a: "cmd_ok b (EXEC (args @ [(q, eq)]))" using 1(4) True gettoken_word g by simp
    have y: "yields (\<lambda>(rs, s'). list_all (redir_ok b) rs \<and> upto_end b s2 s') (parseredirs b s2 rs)"
      by (rule parseredirs_yields [OF b(2) 1(3)])
    have e: "parseargs b ps args rs = pbind (parseredirs b s2 rs) (\<lambda>(rs, s). parseargs b s (args @ [(q, eq)]) rs)"
      using p g True by (subst parseargs.simps) (auto split: parsed.splits)
    have "yields (\<lambda>(args, rs, s'). cmd_ok b (EXEC args) \<and> list_all (redir_ok b) rs \<and> upto_end b ps s')
        (parseargs b s3 (args @ [(q, eq)]) rs')"
      if "parseredirs b s2 rs = POk (rs', s3)" for rs' s3
    proof -
      have 2: "list_all (redir_ok b) rs'" "s2 \<le> s3" "s3 \<le> length b" using y that by (auto simp: upto_end_def)
      have "yields (\<lambda>(args, rs, s'). cmd_ok b (EXEC args) \<and> list_all (redir_ok b) rs \<and> upto_end b s3 s')
          (parseargs b s3 (args @ [(q, eq)]) rs')"
        using 1(1) [OF p [symmetric] refl] True g that 2 a by simp
      then show ?thesis using le 2(2)
        by (cases "parseargs b s3 (args @ [(q, eq)]) rs'") (auto simp: upto_end_def)
    qed
    then show ?thesis using y unfolding e by (cases "parseredirs b s2 rs") auto
  next
    case False
    then show ?thesis using p g le b 1(3,4)
      by (subst parseargs.simps) (auto simp: upto_end_def parse_errors_def)
  qed
qed

lemma parseback_ok:
  assumes "parseback b s c = (c', s')" "s \<le> length b" "cmd_ok b c"
  shows "cmd_ok b c' \<and> upto_end b s s'"
  using assms
proof (induction b s c rule: parseback.induct)
  case (1 b ps c)
  obtain r s where p: "peek b ps (bytes ''&'') = (r, s)" by fastforce
  obtain tok q eq s2 where g: "gettoken b s = (tok, q, eq, s2)" using prod_cases4 by blast
  have le: "ps \<le> s" "s \<le> s2" "s \<le> length b" "s2 \<le> length b"
    using peek_le [OF p] gettoken_advances(1) [OF g] peek_bound [OF p 1(3)] gettoken_bound [OF g] by auto
  show ?case
  proof (cases r)
    case True
    then have "parseback b s2 (BACK c) = (c', s')" using 1(2) p g by (subst (asm) parseback.simps) simp
    then have "cmd_ok b c' \<and> upto_end b s2 s'" using 1 p g True le by simp
    then show ?thesis using le by (auto simp: upto_end_def)
  next
    case False
    then show ?thesis using 1(2,4) p le by (subst (asm) parseback.simps) (auto simp: upto_end_def)
  qed
qed

lemma parsed_ok_mono: "\<lbrakk>yields (parsed_ok b s) r; s0 \<le> s\<rbrakk> \<Longrightarrow> yields (parsed_ok b s0) r"
  by (cases r) (auto simp: parsed_ok_def upto_end_def)

lemma yields_pair: "yields (parsed_ok b s) r \<Longrightarrow> s0 \<le> s \<Longrightarrow> cmd_ok b c \<Longrightarrow> (\<And>d. cmd_ok b d \<Longrightarrow> cmd_ok b (f c d)) \<Longrightarrow>
    yields (parsed_ok b s0) (pbind r (\<lambda>(d, s). POk (f c d, s)))"
  by (cases r) (auto simp: parsed_ok_def upto_end_def)

lemma parseline_yields:
  assumes pipe: "\<And>s. \<lbrakk>s \<le> length b; 4 * (length b - s) + 3 \<le> n\<rbrakk> \<Longrightarrow> yields (parsed_ok b s) (parsepipe n b s)"
    and line: "\<And>s. \<lbrakk>s \<le> length b; 4 * (length b - s) + 4 \<le> n\<rbrakk> \<Longrightarrow> yields (parsed_ok b s) (parseline n b s)"
    and s: "s \<le> length b" "4 * (length b - s) + 4 \<le> Suc n"
  shows "yields (parsed_ok b s) (parseline (Suc n) b s)"
proof -
  have y: "yields (parsed_ok b s) (parsepipe n b s)" by (rule pipe) (use s in auto)
  show ?thesis unfolding parseline.simps
  proof (rule yields_bind [OF y], clarify)
    fix c sa assume a: "parsed_ok b s (c, sa)"
    obtain c' sb where b: "parseback b sa c = (c', sb)" by fastforce
    obtain r sc where p: "peek b sb (bytes '';'') = (r, sc)" by fastforce
    obtain tok q eq sd where g: "gettoken b sc = (tok, q, eq, sd)" using prod_cases4 by blast
    have c: "cmd_ok b c'" "s \<le> sb" "sb \<le> length b"
      using parseback_ok [OF b] a by (auto simp: parsed_ok_def upto_end_def)
    have le: "s \<le> sc" "sc \<le> length b" using c peek_le [OF p] peek_bound [OF p] by auto
    show "yields (parsed_ok b s) (let (c, s) = parseback b sa c; (r, s) = peek b s (bytes '';'') in
        if r then let (_, _, _, s) = gettoken b s in pbind (parseline n b s) (\<lambda>(d, s). POk (LIST c d, s)) else POk (c, s))"
    proof (cases r)
      case True
      have sd: "sb < sd" "sd \<le> length b" using p peek_token(2) [OF _ g] True gettoken_bound [OF g le(2)] by auto
      have "yields (parsed_ok b sd) (parseline n b sd)" by (rule line) (use s sd c(2) in auto)
      then show ?thesis using b p g True c sd by (auto intro!: yields_pair [where f = LIST])
    qed (use b p c le in \<open>simp add: parsed_ok_def upto_end_def\<close>)
  qed
qed

lemma parsepipe_yields:
  assumes exec: "\<And>s. \<lbrakk>s \<le> length b; 4 * (length b - s) + 2 \<le> n\<rbrakk> \<Longrightarrow> yields (parsed_ok b s) (parseexec n b s)"
    and pipe: "\<And>s. \<lbrakk>s \<le> length b; 4 * (length b - s) + 3 \<le> n\<rbrakk> \<Longrightarrow> yields (parsed_ok b s) (parsepipe n b s)"
    and s: "s \<le> length b" "4 * (length b - s) + 3 \<le> Suc n"
  shows "yields (parsed_ok b s) (parsepipe (Suc n) b s)"
proof -
  have y: "yields (parsed_ok b s) (parseexec n b s)" by (rule exec) (use s in auto)
  show ?thesis unfolding parsepipe.simps
  proof (rule yields_bind [OF y], clarify)
    fix c sb assume a: "parsed_ok b s (c, sb)"
    obtain r sc where p: "peek b sb (bytes ''|'') = (r, sc)" by fastforce
    obtain tok q eq sd where g: "gettoken b sc = (tok, q, eq, sd)" using prod_cases4 by blast
    have c: "cmd_ok b c" "s \<le> sb" "sb \<le> length b" using a by (auto simp: parsed_ok_def upto_end_def)
    have le: "s \<le> sc" "sc \<le> length b" using c peek_le [OF p] peek_bound [OF p] by auto
    show "yields (parsed_ok b s) (let (r, s) = peek b sb (bytes ''|'') in
        if r then let (_, _, _, s) = gettoken b s in pbind (parsepipe n b s) (\<lambda>(d, s). POk (PIPE c d, s)) else POk (c, s))"
    proof (cases r)
      case True
      have sd: "sb < sd" "sd \<le> length b" using p peek_token(2) [OF _ g] True gettoken_bound [OF g le(2)] by auto
      have "yields (parsed_ok b sd) (parsepipe n b sd)" by (rule pipe) (use s sd c(2) in auto)
      then show ?thesis using p g True c sd by (auto intro!: yields_pair [where f = PIPE])
    qed (use p c le in \<open>simp add: parsed_ok_def upto_end_def\<close>)
  qed
qed

lemma parseexec_yields:
  assumes block: "\<And>s s1. \<lbrakk>s \<le> length b; 4 * (length b - s) + 1 \<le> n; peek b s (bytes ''('') = (True, s1)\<rbrakk> \<Longrightarrow> yields (parsed_ok b s) (parseblock n b s)"
    and s: "s \<le> length b" "4 * (length b - s) + 2 \<le> Suc n"
  shows "yields (parsed_ok b s) (parseexec (Suc n) b s)"
proof -
  obtain r s' where p: "peek b s (bytes ''('') = (r, s')" by fastforce
  have le: "s \<le> s'" "s' \<le> length b" using s peek_le [OF p] peek_bound [OF p] by auto
  show ?thesis
  proof (cases r)
    case True
    have "yields (parsed_ok b s') (parseblock n b s')"
      by (rule block) (use s le peek_again [OF p] True in auto)
    then show ?thesis using p True le(1) by (simp add: parsed_ok_mono)
  next
    case False
    have "cmd_ok b (EXEC [])" by (simp add: MAXARGS_def)
    then have "yields (parsed_ok b s) (pbind (parseredirs b s' []) (\<lambda>(rs, s).
         pbind (parseargs b s [] rs) (\<lambda>(args, rs, s). POk (redirs_on rs (EXEC args), s))))"
      using le redirs_on_ok
      by (intro yields_bind [OF parseredirs_yields]) (auto simp: upto_end_def parsed_ok_def simp del: cmd_ok.simps
          intro!: yields_bind [OF parseargs_yields])
    then show ?thesis using p False by simp
  qed
qed

lemma parseblock_yields:
  assumes line: "\<And>s. \<lbrakk>s \<le> length b; 4 * (length b - s) + 4 \<le> n\<rbrakk> \<Longrightarrow> yields (parsed_ok b s) (parseline n b s)"
    and s: "s \<le> length b" "4 * (length b - s) + 1 \<le> Suc n"
    and pk: "peek b s (bytes ''('') = (True, s1)"
  shows "yields (parsed_ok b s) (parseblock (Suc n) b s)"
proof -
  obtain tok q eq s2 where g: "gettoken b s1 = (tok, q, eq, s2)" using prod_cases4 by blast
  have le: "s < s2" "s2 \<le> length b" "s < length b"
    using peek_token [OF pk g] gettoken_bound [OF g] peek_bound [OF pk s(1)] by auto
  have y: "yields (parsed_ok b s2) (parseline n b s2)" by (rule line) (use s le in auto)
  have k: "yields (parsed_ok b s) (let (r, s) = peek b sa (bytes '')'') in
      if \<not> r then PErr ''syntax - missing )''
      else let (_, _, _, s) = gettoken b s in
        pbind (parseredirs b s []) (\<lambda>(rs, s). POk (redirs_on rs c, s)))" if "parsed_ok b s2 (c, sa)" for c sa
  proof -
    obtain r sb where p: "peek b sa (bytes '')'') = (r, sb)" by fastforce
    obtain tok q eq sc where h: "gettoken b sb = (tok, q, eq, sc)" using prod_cases4 by blast
    have c: "cmd_ok b c" "s2 \<le> sa" "sa \<le> length b" using that by (auto simp: parsed_ok_def upto_end_def)
    have "sc \<le> length b" "s \<le> sc"
      using c le peek_le [OF p] gettoken_advances(1) [OF h] peek_bound [OF p] gettoken_bound [OF h] by auto
    then have "yields (parsed_ok b s) (pbind (parseredirs b sc []) (\<lambda>(rs, s). POk (redirs_on rs c, s)))"
      using redirs_on_ok c(1) by (intro yields_bind [OF parseredirs_yields]) (auto simp: upto_end_def parsed_ok_def)
    then show ?thesis using p h by (simp add: parse_errors_def)
  qed
  show ?thesis using pk g y k by (auto intro!: yields_bind [OF y])
qed

lemma parse_yields:
  "\<lbrakk>s \<le> length b; 4 * (length b - s) + 4 \<le> n\<rbrakk> \<Longrightarrow> yields (parsed_ok b s) (parseline n b s)"
  "\<lbrakk>s \<le> length b; 4 * (length b - s) + 3 \<le> n\<rbrakk> \<Longrightarrow> yields (parsed_ok b s) (parsepipe n b s)"
  "\<lbrakk>s \<le> length b; 4 * (length b - s) + 2 \<le> n\<rbrakk> \<Longrightarrow> yields (parsed_ok b s) (parseexec n b s)"
  "\<lbrakk>s \<le> length b; 4 * (length b - s) + 1 \<le> n; peek b s (bytes ''('') = (True, s1)\<rbrakk> \<Longrightarrow> yields (parsed_ok b s) (parseblock n b s)"
proof (induction n arbitrary: s s1)
  case (Suc n)
  {
    case 1
    show ?case by (rule parseline_yields) (use 1 Suc.IH in blast)+
  next
    case 2
    show ?case by (rule parsepipe_yields) (use 2 Suc.IH in blast)+
  next
    case 3
    show ?case by (rule parseexec_yields) (use 3 Suc.IH in blast)+
  next
    case 4
    show ?case by (rule parseblock_yields) (use 4 Suc.IH in blast)+
  }
qed auto

lemma parsecmd_yields: "yields (\<lambda>(c, buf). cmd_ok b c \<and> buf = nulterminate c (b @ [0])) (parsecmd b)"
proof -
  have "yields (parsed_ok b 0) (parseline (parse_fuel b) b 0)" by (rule parse_yields) (simp_all add: parse_fuel_def)
  then show ?thesis unfolding parsecmd_def
    by (rule yields_bind) (auto simp: parsed_ok_def parse_errors_def split: prod.splits)
qed

section \<open>Strings\<close>

lemma nulterminate_fold: "nulterminate c buf = foldl (\<lambda>buf (q, eq). buf[eq := 0]) buf (strings_of c)"
  by (induction c buf rule: nulterminate.induct) simp_all

lemma zeros_length: "length (foldl (\<lambda>buf (q, eq). buf[eq := 0]) buf ps) = length buf"
  by (induction ps arbitrary: buf) auto

lemma zeros_nth:
  "i < length buf \<Longrightarrow> foldl (\<lambda>buf (q, eq). buf[eq := 0]) buf ps ! i = (if i \<in> set (map snd ps) then 0 else buf ! i)" for buf :: "uchar list"
  by (induction ps arbitrary: buf) (auto simp: nth_list_update simp del: set_map)

lemma cmd_ok_strings: "cmd_ok b c \<Longrightarrow> p \<in> set (strings_of c) \<Longrightarrow> is_word b p"
  by (induction c) (auto simp: list_all_iff)

text \<open>The zero written at the end of one word is not inside another one.\<close>

lemma word_end_outside: "\<lbrakk>is_word b p; is_word b (q, eq)\<rbrakk> \<Longrightarrow> snd p \<notin> {q..<eq}"
  by (auto simp: is_word_def)

lemma nulterminate_strings:
  assumes c: "cmd_ok b c" and p: "(q, eq) \<in> set (strings_of c)" and z: "0 \<notin> set b"
  shows "cstr_at (nulterminate c (b @ [0])) q = text_of b (q, eq)"
proof -
  let ?buf = "nulterminate c (b @ [0])"
  have w: "is_word b (q, eq)" by (rule cmd_ok_strings [OF c p])
  then have le: "q < eq" "eq \<le> length b" by (auto simp: is_word_def)
  have l: "length ?buf = length b + 1" by (simp add: nulterminate_fold zeros_length)
  have same: "?buf ! i = b ! i" if "i \<in> {q..<eq}" for i
    using that le word_end_outside [OF cmd_ok_strings [OF c] w]
    by (auto simp: nulterminate_fold zeros_nth nth_append)
  have nz: "b ! i \<noteq> 0" if "i < eq" for i using that le z nth_mem [of i b] by (metis order.strict_trans2)
  have "cstr_at ?buf q = take (eq - q) (drop q ?buf)" unfolding cstr_at_def
  proof (rule takeWhile_eq_take_P_nth)
    show "drop q ?buf ! i \<noteq> 0" if "i < eq - q" for i using that same [of "q + i"] nz [of "q + i"] l le by simp
    show "\<not> drop q ?buf ! (eq - q) \<noteq> 0"
      using p le l image_eqI [of eq snd "(q, eq)" "set (strings_of c)"] by (simp add: nulterminate_fold zeros_nth)
  qed
  also have "\<dots> = text_of b (q, eq)"
    using le l same by (auto simp: text_of_def intro!: nth_equalityI)
  finally show ?thesis .
qed

text \<open>
  C11. The parser returns for every line, and without reaching the bound on its recursion. It either
  rejects the line with one of four messages, and never with that of \<^verbatim>\<open>parseblock\<close>, or gives a command
  that is well formed: fewer than \<^verbatim>\<open>MAXARGS\<close> arguments, so the null pointer fits, every file and
  argument a maximal word of the line, every redirection one of the three modes with its descriptor.
  After \<^verbatim>\<open>nulterminate\<close>, which stays in the buffer, every pointer of the command is a C string equal to
  that word.
\<close>

theorem parsecmd_total:
  assumes "0 \<notin> set b"
  shows "case parsecmd b of
      POk (c, buf) \<Rightarrow> cmd_ok b c \<and> length buf = length b + 1 \<and>
        list_all (\<lambda>p. is_word b p \<and> cstr_at buf (fst p) = text_of b p) (strings_of c)
    | PErr e \<Rightarrow> e \<in> set parse_errors
    | PFuel \<Rightarrow> False"
  using parsecmd_yields [of b] cmd_ok_strings nulterminate_strings [OF _ _ assms]
  by (cases "parsecmd b") (auto simp: list_all_iff nulterminate_fold zeros_length)

theorem parsecmd_total_witness:
  "0 \<notin> set (bytes ''ls>f'') \<and>
   (case parsecmd (bytes ''ls>f'') of
      POk (c, buf) \<Rightarrow> c = REDIR (EXEC [(0, 2)]) (3, 4) 0x601 1 \<and> cstr_at buf 3 = bytes ''f''
    | _ \<Rightarrow> False)"
proof -
  have z: "0 \<notin> set (bytes ''ls>f'')" by code_simp
  have p: "\<exists>buf. parsecmd (bytes ''ls>f'') = POk (REDIR (EXEC [(0, 2)]) (3, 4) 0x601 1, buf)"
    by (rule exI [of _ "[108, 115, 0, 102, 0]"]) code_simp
  have "text_of (bytes ''ls>f'') (3, 4) = bytes ''f''" by code_simp
  then show ?thesis using parsecmd_total [OF z] p z by auto
qed

end
