(* ===== verification/Sh_Roundtrip.thy ===== *)
theory Sh_Roundtrip
  imports Sh_Parse
begin

text \<open>
  The grammar of the shell as a printer of commands, and the proof that the parser reads back what it
  prints.
\<close>

section \<open>Printer\<close>

text \<open>The tokens of a command in a place of the grammar: 0 a line, 1 before \<open>&\<close>, 2 a pipeline, 3 a part of one.\<close>

definition paren :: "bool \<Rightarrow> uchar list list \<Rightarrow> uchar list list" where
  "paren p ts = (if p then bytes ''('' # ts @ [bytes '')''] else ts)"

definition redir_tok :: "nat \<Rightarrow> uchar list" where
  "redir_tok m = (if m = O_RDONLY then bytes ''<'' else if m = O_WRONLY OR O_CREATE then bytes ''>>'' else bytes ''>'')"

fun pr :: "nat \<Rightarrow> uchar list cmd \<Rightarrow> uchar list list" where
  "pr p (EXEC ws) = ws"
| "pr p (REDIR c f m fd) = pr 3 c @ [redir_tok m, f]"
| "pr p (PIPE l r) = paren (2 < p) (pr 3 l @ bytes ''|'' # pr 2 r)"
| "pr p (BACK c) = paren (1 < p) (pr 1 c @ [bytes ''&''])"
| "pr p (LIST l r) = paren (0 < p) (pr 1 l @ bytes '';'' # pr 0 r)"

text \<open>Tokens, each with the whitespace character that ends it.\<close>

fun spaced :: "uchar list \<Rightarrow> uchar list list \<Rightarrow> uchar list" where
  "spaced (w # ws) (t # ts) = t @ w # spaced ws ts"
| "spaced ws ts = []"

definition print_cmd :: "uchar list \<Rightarrow> uchar list cmd \<Rightarrow> uchar list" where
  "print_cmd ws c = spaced ws (pr 0 c)"

definition separators :: "uchar list \<Rightarrow> uchar list cmd \<Rightarrow> bool" where
  "separators ws c \<longleftrightarrow> length ws = length (pr 0 c) \<and> set ws \<subseteq> set whitespace"

definition word_text :: "uchar list \<Rightarrow> bool" where
  "word_text w \<longleftrightarrow> w \<noteq> [] \<and> list_all (\<lambda>c. c \<noteq> 0 \<and> word_char c) w"

fun printable :: "uchar list cmd \<Rightarrow> bool" where
  "printable (EXEC ws) \<longleftrightarrow> length ws < MAXARGS \<and> list_all word_text ws"
| "printable (REDIR c f m fd) \<longleftrightarrow> printable c \<and> word_text f \<and> (m, fd) \<in> set redir_modes"
| "printable (PIPE l r) \<longleftrightarrow> printable l \<and> printable r"
| "printable (BACK c) \<longleftrightarrow> printable c"
| "printable (LIST l r) \<longleftrightarrow> printable l \<and> printable r"

section \<open>Tokens at a position\<close>

definition marks :: "uchar list set" where
  "marks = bytes ` {''|'', ''('', '')'', '';'', ''&'', ''<'', ''>'', ''>>''}"

definition tok_ok :: "uchar list \<Rightarrow> bool" where
  "tok_ok t \<longleftrightarrow> word_text t \<or> t \<in> marks"

definition at_toks :: "uchar list \<Rightarrow> nat \<Rightarrow> uchar list list \<Rightarrow> bool" where
  "at_toks b s ts \<longleftrightarrow> s \<le> length b \<and> list_all tok_ok ts \<and>
     (\<exists>ws. length ws = length ts \<and> set ws \<subseteq> set whitespace \<and> drop s b = spaced ws ts)"

definition kind :: "uchar list \<Rightarrow> uchar" where
  "kind t = (if t \<in> marks then if t = bytes ''>>'' then of_char CHR ''+'' else hd t else of_char CHR ''a'')"

lemma word_hd: "word_text w \<Longrightarrow> w \<noteq> [] \<and> hd w \<noteq> 0 \<and> word_char (hd w)"
  by (cases w) (auto simp: word_text_def)

lemma mark_hd: "t \<in> marks \<Longrightarrow> t \<noteq> [] \<and> hd t \<noteq> 0 \<and> hd t \<in> set symbols \<and> hd t \<notin> set whitespace"
  by (auto simp: marks_def bytes_def symbols_def whitespace_def)

lemma word_not_mark: "word_text t \<Longrightarrow> t \<notin> marks"
  using word_hd [of t] mark_hd [of t] by (auto simp: word_char_def)

lemma tok_hd: "tok_ok t \<Longrightarrow> t \<noteq> [] \<and> hd t \<noteq> 0 \<and> hd t \<notin> set whitespace"
  using word_hd [of t] mark_hd [of t] by (auto simp: tok_ok_def word_char_def)

lemma drop_at: "drop s b = x # xs \<Longrightarrow> s < length b \<and> b ! s = x \<and> drop (Suc s) b = xs"
  by (metis drop_eq_Nil2 list.discI linorder_not_le Cons_nth_drop_Suc list.inject)

lemma at_Nil: "at_toks b s [] \<longleftrightarrow> s = length b"
  by (auto simp: at_toks_def)

lemma at_Cons:
  "at_toks b s (t # ts) \<longleftrightarrow>
     tok_ok t \<and> (\<exists>w u. w \<in> set whitespace \<and> drop s b = t @ w # u) \<and> at_toks b (s + length t + 1) ts"
  (is "?l \<longleftrightarrow> ?r")
proof
  assume ?l
  then obtain ws where o: "s \<le> length b" "tok_ok t" "list_all tok_ok ts" and w: "length ws = Suc (length ts)"
      "set ws \<subseteq> set whitespace" "drop s b = spaced ws (t # ts)"
    by (auto simp: at_toks_def)
  obtain x xs where ws: "ws = x # xs" using w(1) by (cases ws) auto
  then have d: "drop s b = t @ x # spaced xs ts" using w(3) by simp
  have "drop (s + length t + 1) b = spaced xs ts" using arg_cong [OF d, of "drop (length t + 1)"] by (simp add: ac_simps)
  moreover have "s + length t + 1 \<le> length b" using o(1) arg_cong [OF d, of length] by simp
  moreover have "\<exists>w u. w \<in> set whitespace \<and> drop s b = t @ w # u" using d w(2) ws by auto
  ultimately show ?r using o w ws by (auto simp: at_toks_def)
next
  assume r: ?r
  then obtain w u where d: "w \<in> set whitespace" "drop s b = t @ w # u" by blast
  obtain ws where o: "list_all tok_ok ts" "s + length t + 1 \<le> length b" and ws: "length ws = length ts" "set ws \<subseteq> set whitespace"
      "drop (s + length t + 1) b = spaced ws ts"
    using r by (auto simp: at_toks_def)
  have "u = spaced ws ts" using ws(3) arg_cong [OF d(2), of "drop (length t + 1)"] by (simp add: ac_simps)
  then have "length (w # ws) = length (t # ts) \<and> set (w # ws) \<subseteq> set whitespace \<and> drop s b = spaced (w # ws) (t # ts)"
    using d ws by simp
  then show ?l unfolding at_toks_def using o r by (intro conjI exI [of _ "w # ws"]) auto
qed

lemma at_hd:
  assumes "at_toks b s (t # ts)"
  shows "s < length b" "b ! s = hd t"
proof -
  have "t \<noteq> []" using assms tok_hd by (simp add: at_Cons)
  then obtain c cs where t: "t = c # cs" by (cases t) auto
  then obtain w u where d: "drop s b = c # (cs @ w # u)" using assms by (auto simp: at_Cons)
  show "s < length b" "b ! s = hd t" using drop_at [OF d] t by auto
qed

lemma at_ok: "at_toks b s ts \<Longrightarrow> list_all tok_ok ts"
  by (simp add: at_toks_def)

lemma skip_ws_at: "at_toks b s ts \<Longrightarrow> skip_ws b s = s"
  using at_hd [of b s "hd ts" "tl ts"] tok_hd [of "hd ts"]
  by (cases ts) (subst skip_ws.simps; auto simp: at_Nil at_Cons)+

lemma char_at_toks: "at_toks b s ts \<Longrightarrow> char_at b s = (case ts of [] \<Rightarrow> 0 | t # _ \<Rightarrow> hd t)"
  using at_hd [of b s "hd ts" "tl ts"] by (cases ts) (auto simp: char_at_def at_Nil)

lemma peek_at: "at_toks b s ts \<Longrightarrow> peek b s cs = (ts \<noteq> [] \<and> hd (hd ts) \<in> set cs, s)"
  using tok_hd [of "hd ts"] at_ok [of b s ts] by (cases ts) (auto simp: peek_def Let_def skip_ws_at char_at_toks)

definition after :: "nat \<Rightarrow> uchar list \<Rightarrow> nat" where
  "after s t = s + length t + 1"

lemma at_rest:
  assumes "at_toks b s (t # ts)"
  shows "at_toks b (after s t) ts" "text_of b (s, s + length t) = t" "skip_ws b (s + length t) = after s t"
    "b ! (s + length t) \<in> set whitespace" "s + length t < length b"
proof -
  obtain w u where w: "w \<in> set whitespace" and d: "drop s b = t @ w # u" and at: "at_toks b (after s t) ts"
    using assms by (auto simp: at_Cons after_def)
  show "text_of b (s, s + length t) = t" using d by (simp add: text_of_def)
  have "drop (s + length t) b = w # u" using arg_cong [OF d, of "drop (length t)"] by (simp add: add.commute)
  from drop_at [OF this] have e: "s + length t < length b" "b ! (s + length t) = w" by auto
  show "at_toks b (after s t) ts" by (rule at)
  show "b ! (s + length t) \<in> set whitespace" "s + length t < length b" using e w by auto
  have "skip_ws b (s + length t) = skip_ws b (after s t)" using e w by (subst skip_ws.simps) (simp add: after_def)
  then show "skip_ws b (s + length t) = after s t" using skip_ws_at [OF at] by simp
qed

lemma is_word_unique: "\<lbrakk>is_word b (q, e); is_word b (q, e')\<rbrakk> \<Longrightarrow> e = e'"
  by (rule linorder_cases [of e e']) (auto simp: is_word_def)

lemma skip_word_at:
  assumes "at_toks b s (t # ts)" "word_text t"
  shows "skip_word b s = s + length t"
proof -
  have l: "s < length b" "b ! s = hd t" by (rule at_hd [OF assms(1)])+
  have t: "t = text_of b (s, s + length t)" using at_rest(2) [OF assms(1)] by simp
  have "b ! i = t ! (i - s)" if "i \<in> {s..<s + length t}" for i
  proof -
    have "i - s < length t" "s \<le> i" using that by auto
    then show ?thesis using at_rest(5) [OF assms(1)] by (subst t) (simp add: text_of_def)
  qed
  then have "is_word b (s, s + length t)"
    using assms(2) at_rest(4,5) [OF assms(1)] by (auto simp: is_word_def word_text_def list_all_length word_char_def whitespace_def)
  moreover have "is_word b (s, skip_word b s)" using skip_word_word [OF l(1)] word_hd [OF assms(2)] l(2) by simp
  ultimately show ?thesis using is_word_unique by blast
qed

lemma gettoken_at:
  assumes a: "at_toks b s (t # ts)"
  shows "gettoken b s = (kind t, s, s + length t, after s t)"
proof (cases "t \<in> marks")
  case True
  have "char_at b (s + 1) \<noteq> of_char CHR ''>''" if "t = bytes ''>''"
    using that at_rest(4,5) [OF a] by (auto simp: char_at_def bytes_def whitespace_def)
  moreover have "char_at b (s + 1) = of_char CHR ''>''" if g: "t = bytes ''>>''"
  proof -
    obtain w u where d: "drop s b = of_char CHR ''>'' # of_char CHR ''>'' # w # u"
      using a g by (auto simp: at_Cons bytes_def)
    then have e: "drop (Suc s) b = of_char CHR ''>'' # w # u" using drop_at [OF d] by simp
    show ?thesis using drop_at [OF e] by (simp add: char_at_def)
  qed
  ultimately show ?thesis using True at_rest(3) [OF a] skip_ws_at [OF a] char_at_toks [OF a] unfolding marks_def
    by (elim imageE insertE emptyE) (simp_all add: gettoken_def Let_def kind_def marks_def bytes_def)
next
  case False
  then have w: "word_text t" using a by (auto simp: at_Cons tok_ok_def)
  then have "hd t \<notin> set symbols" "hd t \<noteq> 0" using word_hd by (auto simp: word_char_def)
  then show ?thesis using False skip_word_at [OF a w] at_rest(3) [OF a] skip_ws_at [OF a] char_at_toks [OF a]
    by (auto simp: gettoken_def Let_def kind_def bytes_def symbols_def)
qed

lemma gettoken_end: "at_toks b s [] \<Longrightarrow> gettoken b s = (0, s, s, s)"
  by (simp add: gettoken_def Let_def skip_ws_at char_at_toks)

lemma kind_word: "word_text t \<Longrightarrow> kind t = of_char CHR ''a''"
  using word_not_mark by (simp add: kind_def)

section \<open>Loops\<close>

definition redir_toks :: "uchar list redir list \<Rightarrow> uchar list list" where
  "redir_toks rs = concat (map (\<lambda>(f, m, fd). [redir_tok m, f]) rs)"

definition redir_text :: "uchar list \<Rightarrow> span redir \<Rightarrow> uchar list redir" where
  "redir_text b r = (case r of (f, m, fd) \<Rightarrow> (text_of b f, m, fd))"

definition redir_printable :: "uchar list redir \<Rightarrow> bool" where
  "redir_printable r \<longleftrightarrow> (case r of (f, m, fd) \<Rightarrow> word_text f \<and> (m, fd) \<in> set redir_modes)"

text \<open>The tokens that may follow; the next one, if any, starts with one of the characters.\<close>

definition follows :: "string \<Rightarrow> uchar list list \<Rightarrow> bool" where
  "follows cs ts \<longleftrightarrow> (case ts of [] \<Rightarrow> True | t # _ \<Rightarrow> hd t \<in> set (bytes cs))"

lemma redir_of_at:
  assumes "(m, fd) \<in> set redir_modes"
  shows "redir_of (kind (redir_tok m)) f = [(f, m, fd)]" "hd (redir_tok m) \<in> set (bytes ''<>'')"
  using assms by (auto simp: redir_modes_def redir_of_def redir_tok_def kind_def marks_def bytes_def
      O_RDONLY_def O_WRONLY_def O_CREATE_def O_TRUNC_def)

lemma parseredirs_at:
  assumes "at_toks b s (redir_toks rs @ ts)" "list_all redir_printable rs" "ts = [] \<or> hd (hd ts) \<notin> set (bytes ''<>'')"
  shows "\<exists>rs' s'. parseredirs b s rs0 = POk (rs0 @ rs', s') \<and> map (redir_text b) rs' = rs \<and> at_toks b s' ts"
  using assms
proof (induction rs arbitrary: s rs0)
  case Nil
  then show ?case using peek_at [of b s ts "bytes ''<>''"] by (subst parseredirs.simps) (auto simp: redir_toks_def)
next
  case (Cons r rs)
  obtain f m fd where r: "r = (f, m, fd)" by (cases r)
  have w: "word_text f" "(m, fd) \<in> set redir_modes" using Cons.prems(2) r by (auto simp: redir_printable_def)
  have a: "at_toks b s (redir_tok m # f # redir_toks rs @ ts)" using Cons.prems(1) r by (simp add: redir_toks_def)
  let ?s = "after s (redir_tok m)"
  have b: "at_toks b ?s (f # redir_toks rs @ ts)" by (rule at_rest(1) [OF a])
  have c: "at_toks b (after ?s f) (redir_toks rs @ ts)" by (rule at_rest(1) [OF b])
  have "parseredirs b s rs0 = parseredirs b (after ?s f) (rs0 @ [((?s, ?s + length f), m, fd)])"
    using peek_at [OF a, of "bytes ''<>''"] gettoken_at [OF a] gettoken_at [OF b] kind_word [OF w(1)] redir_of_at [OF w(2)]
    by (subst parseredirs.simps) simp
  moreover have "redir_text b ((?s, ?s + length f), m, fd) = r" using at_rest(2) [OF b] r by (simp add: redir_text_def)
  ultimately show ?case using Cons.IH [OF c, of "rs0 @ [((?s, ?s + length f), m, fd)]"] Cons.prems(2,3) by auto
qed

lemma parseargs_at:
  assumes "at_toks b s (ws @ redir_toks rs @ ts)" "list_all redir_printable rs" "list_all word_text ws"
    "length args + length ws < MAXARGS" "ws = [] \<longrightarrow> rs = []" "follows ''|)&;'' ts"
  shows "\<exists>args' rs' s'. parseargs b s args rs0 = POk (args @ args', rs0 @ rs', s') \<and> map (text_of b) args' = ws \<and>
    map (redir_text b) rs' = rs \<and> at_toks b s' ts"
  using assms
proof (induction ws arbitrary: s args rs0 rs)
  case Nil
  then have a: "at_toks b s ts" by (simp add: redir_toks_def)
  then show ?case using Nil.prems(5,6) peek_at [OF a, of "bytes ''|)&;''"] gettoken_end [of b s]
    by (cases ts; subst parseargs.simps) (auto simp: follows_def at_Nil split: prod.splits)
next
  case (Cons w ws)
  have w: "word_text w" using Cons.prems(3) by simp
  have a: "at_toks b s (w # ws @ redir_toks rs @ ts)" using Cons.prems(1) by simp
  let ?p = "(s, s + length w)"
  have c: "at_toks b (after s w) (ws @ redir_toks rs @ ts)" by (rule at_rest(1) [OF a])
  have t: "text_of b ?p = w" by (rule at_rest(2) [OF a])
  have n: "hd w \<notin> set (bytes ''|)&;'')" using word_hd [OF w] by (auto simp: word_char_def symbols_def bytes_def)
  have e: "parseargs b s args rs0 = pbind (parseredirs b (after s w) rs0) (\<lambda>(rs, s). parseargs b s (args @ [?p]) rs)"
    using peek_at [OF a, of "bytes ''|)&;''"] gettoken_at [OF a] kind_word [OF w] n Cons.prems(4)
    by (subst parseargs.simps) (auto split: parsed.splits)
  obtain rs1 rs2 where rs: "rs = rs1 @ rs2" "ws = [] \<longrightarrow> rs2 = []" "ws \<noteq> [] \<longrightarrow> rs1 = []"
    by (cases "ws = []") (auto intro: that [of rs "[]"] that [of "[]" rs])
  have f: "ws @ redir_toks rs2 @ ts = [] \<or> hd (hd (ws @ redir_toks rs2 @ ts)) \<notin> set (bytes ''<>'')"
  proof (cases ws)
    case Nil
    then show ?thesis using rs Cons.prems(6) by (cases ts) (auto simp: redir_toks_def follows_def bytes_def)
  next
    case (Cons v vs)
    then show ?thesis using word_hd [of v] \<open>list_all word_text (w # ws)\<close> by (auto simp: word_char_def symbols_def bytes_def)
  qed
  have "at_toks b (after s w) (redir_toks rs1 @ ws @ redir_toks rs2 @ ts)"
    using c rs by (cases "ws = []") (auto simp: redir_toks_def)
  then obtain rs1' s1 where 1: "parseredirs b (after s w) rs0 = POk (rs0 @ rs1', s1)" "map (redir_text b) rs1' = rs1"
      "at_toks b s1 (ws @ redir_toks rs2 @ ts)"
    using parseredirs_at [of b "after s w" rs1 "ws @ redir_toks rs2 @ ts" rs0] f Cons.prems(2) rs(1) by auto
  obtain args' rs2' s' where 2: "parseargs b s1 (args @ [?p]) (rs0 @ rs1') = POk ((args @ [?p]) @ args', (rs0 @ rs1') @ rs2', s')"
      "map (text_of b) args' = ws" "map (redir_text b) rs2' = rs2" "at_toks b s' ts"
    using Cons.IH [of s1 rs2 "args @ [?p]" "rs0 @ rs1'"] 1(3) Cons.prems rs by auto
  show ?case using e 1 2 t rs(1) by auto
qed

lemma parseback_at:
  assumes "at_toks b s (replicate k (bytes ''&'') @ ts)" "ts = [] \<or> hd (hd ts) \<notin> set (bytes ''&'')"
  shows "\<exists>s'. parseback b s c = ((BACK ^^ k) c, s') \<and> at_toks b s' ts"
  using assms
proof (induction k arbitrary: s c)
  case 0
  then show ?case using peek_at [of b s ts "bytes ''&''"] by (subst parseback.simps) auto
next
  case (Suc k)
  have a: "at_toks b s (bytes ''&'' # replicate k (bytes ''&'') @ ts)" using Suc.prems(1) by simp
  have "parseback b s c = parseback b (after s (bytes ''&'')) (BACK c)"
    using peek_at [OF a, of "bytes ''&''"] gettoken_at [OF a] by (subst parseback.simps) (simp add: bytes_def)
  then show ?case using Suc.IH [OF at_rest(1) [OF a] Suc.prems(2), of "BACK c"] by (simp add: funpow_swap1)
qed

section \<open>Recursive descent\<close>

text \<open>A command as \<open>BACK\<close> nodes on a pipeline, and as redirections of a node that is none.\<close>

fun back_core :: "'s cmd \<Rightarrow> nat \<times> 's cmd" where
  "back_core (BACK c) = (case back_core c of (k, d) \<Rightarrow> (Suc k, d))"
| "back_core c = (0, c)"

fun redir_core :: "'s cmd \<Rightarrow> 's redir list \<times> 's cmd" where
  "redir_core (REDIR c f m fd) = (case redir_core c of (rs, d) \<Rightarrow> (rs @ [(f, m, fd)], d))"
| "redir_core c = ([], c)"

lemma back_core_eq: "(BACK ^^ fst (back_core t)) (snd (back_core t)) = t"
  by (induction t) (simp_all add: case_prod_beta)

lemma pr_back_core: "pr 1 t = pr 2 (snd (back_core t)) @ replicate (fst (back_core t)) (bytes ''&'')"
  by (induction t) (simp_all add: paren_def replicate_append_same case_prod_beta)

lemma printable_back_core: "printable t \<Longrightarrow> printable (snd (back_core t))"
  by (induction t) (simp_all add: case_prod_beta)

lemma redir_core_eq: "redirs_on (fst (redir_core t)) (snd (redir_core t)) = t"
  by (induction t) (simp_all add: case_prod_beta redirs_on_def redircmd_def)

lemma pr_redir_core: "pr 3 t = pr 3 (snd (redir_core t)) @ redir_toks (fst (redir_core t))"
  by (induction t) (simp_all add: case_prod_beta redir_toks_def)

lemma printable_redir_core:
  "printable t \<Longrightarrow> printable (snd (redir_core t)) \<and> list_all redir_printable (fst (redir_core t))"
  by (induction t) (auto simp: case_prod_beta redir_printable_def)

lemma redir_core_not: "snd (redir_core t) \<noteq> REDIR d f m fd"
  by (induction t) (simp_all add: case_prod_beta)

lemma map_redirs_on: "map_cmd (text_of b) (redirs_on rs c) = redirs_on (map (redir_text b) rs) (map_cmd (text_of b) c)"
  unfolding redirs_on_def by (induction rs arbitrary: c) (auto simp: redircmd_def redir_text_def)

lemma map_backs: "map_cmd g ((BACK ^^ k) c) = (BACK ^^ k) (map_cmd g c)"
  by (induction k) auto

definition reads :: "uchar list \<Rightarrow> (span cmd \<times> nat) parsed \<Rightarrow> uchar list cmd \<Rightarrow> uchar list list \<Rightarrow> bool" where
  "reads b r t ts \<longleftrightarrow> (\<exists>c s'. r = POk (c, s') \<and> map_cmd (text_of b) c = t \<and> at_toks b s' ts)"

lemma bind_fuel: "pbind r f \<noteq> PFuel \<Longrightarrow> r \<noteq> PFuel"
  by auto

lemma line_split:
  assumes "printable t" "follows '')'' ts"
  obtains l us where "pr 0 t @ ts = pr 1 l @ us" "printable l" "follows '');'' us"
    "(us = ts \<and> l = t) \<or> (\<exists>r. t = LIST l r \<and> printable r \<and> us = bytes '';'' # pr 0 r @ ts)"
proof (cases "\<exists>l r. t = LIST l r")
  case True
  then obtain l r where t: "t = LIST l r" by blast
  show ?thesis
    by (rule that [of l "bytes '';'' # pr 0 r @ ts"]) (use assms t in \<open>simp_all add: paren_def follows_def bytes_def\<close>)
next
  case False
  then have p: "pr 0 t = pr 1 t" by (cases t) (simp_all add: paren_def)
  have f: "follows '');'' ts" using assms(2) by (cases ts) (simp_all add: follows_def bytes_def disj_commute)
  show ?thesis by (rule that [of t ts]) (simp_all add: p f assms)
qed

lemma pipe_split:
  assumes "printable t" "follows '')&;'' ts"
  obtains l us where "pr 2 t @ ts = pr 3 l @ us" "printable l" "follows ''|)&;'' us"
    "(us = ts \<and> l = t) \<or> (\<exists>r. t = PIPE l r \<and> printable r \<and> us = bytes ''|'' # pr 2 r @ ts)"
proof (cases "\<exists>l r. t = PIPE l r")
  case True
  then obtain l r where t: "t = PIPE l r" by blast
  show ?thesis
    by (rule that [of l "bytes ''|'' # pr 2 r @ ts"]) (use assms t in \<open>simp_all add: paren_def follows_def bytes_def\<close>)
next
  case False
  then have p: "pr 2 t = pr 3 t" by (cases t) (simp_all add: paren_def)
  have f: "follows ''|)&;'' ts" using assms(2) by (cases ts) (simp_all add: follows_def bytes_def disj_commute)
  show ?thesis by (rule that [of t ts]) (simp_all add: p f assms)
qed

lemma parseline_at:
  assumes pipe: "\<And>s t ts. \<lbrakk>at_toks b s (pr 2 t @ ts); printable t; follows '')&;'' ts; parsepipe n b s \<noteq> PFuel\<rbrakk> \<Longrightarrow> reads b (parsepipe n b s) t ts"
    and line: "\<And>s t ts. \<lbrakk>at_toks b s (pr 0 t @ ts); printable t; follows '')'' ts; parseline n b s \<noteq> PFuel\<rbrakk> \<Longrightarrow> reads b (parseline n b s) t ts"
    and t: "at_toks b s (pr 0 t @ ts)" "printable t" "follows '')'' ts" "parseline (Suc n) b s \<noteq> PFuel"
  shows "reads b (parseline (Suc n) b s) t ts"
proof -
  obtain l us where l: "pr 0 t @ ts = pr 1 l @ us" "printable l" "follows '');'' us"
    and r: "(us = ts \<and> l = t) \<or> (\<exists>r. t = LIST l r \<and> printable r \<and> us = bytes '';'' # pr 0 r @ ts)"
    using line_split [OF t(2,3)] .
  obtain k c where "back_core l = (k, c)" by fastforce
  then have kc: "(BACK ^^ k) c = l" "pr 1 l = pr 2 c @ replicate k (bytes ''&'')" "printable l \<Longrightarrow> printable c"
    using back_core_eq [of l] pr_back_core [of l] printable_back_core [of l] by simp_all
  have a: "at_toks b s (pr 2 c @ replicate k (bytes ''&'') @ us)" using t(1) l(1) kc(2) by simp
  have "follows '')&;'' (replicate k (bytes ''&'') @ us)" using l(3) by (cases k) (auto simp: follows_def bytes_def split: list.splits)
  moreover have "parsepipe n b s \<noteq> PFuel" using t(4) unfolding parseline.simps by (rule bind_fuel)
  ultimately obtain c1 s1 where 1: "parsepipe n b s = POk (c1, s1)" "map_cmd (text_of b) c1 = c" "at_toks b s1 (replicate k (bytes ''&'') @ us)"
    using pipe [OF a] kc(3) l(2) unfolding reads_def by blast
  have "us = [] \<or> hd (hd us) \<notin> set (bytes ''&'')" using l(3) by (auto simp: follows_def bytes_def split: list.splits)
  then obtain s2 where 2: "parseback b s1 c1 = ((BACK ^^ k) c1, s2)" "at_toks b s2 us" using parseback_at [OF 1(3)] by blast
  have m: "map_cmd (text_of b) ((BACK ^^ k) c1) = l" using 1(2) kc(1) by (simp add: map_backs)
  show ?thesis
  proof (cases "us = ts \<and> l = t")
    case True
    then have "peek b s2 (bytes '';'') = (False, s2)"
      using peek_at [OF 2(2)] t(3) by (auto simp: follows_def bytes_def split: list.splits)
    then show ?thesis using True 1 2 m by (auto simp: reads_def)
  next
    case False
    then obtain r where r: "t = LIST l r" "printable r" "us = bytes '';'' # pr 0 r @ ts" using r by blast
    let ?s = "after s2 (bytes '';'')"
    have a2: "at_toks b s2 (bytes '';'' # pr 0 r @ ts)" using 2(2) r(3) by simp
    have e: "parseline (Suc n) b s = pbind (parseline n b ?s) (\<lambda>(d, s). POk (LIST ((BACK ^^ k) c1) d, s))"
      using 1 2 peek_at [OF a2, of "bytes '';''"] gettoken_at [OF a2] by (simp add: bytes_def)
    have "parseline n b ?s \<noteq> PFuel" using t(4) unfolding e by (rule bind_fuel)
    then have "reads b (parseline n b ?s) r ts" by (rule line [OF at_rest(1) [OF a2] r(2) t(3)])
    then show ?thesis unfolding e using m r(1) by (auto simp: reads_def)
  qed
qed

lemma parsepipe_at:
  assumes exec: "\<And>s t ts. \<lbrakk>at_toks b s (pr 3 t @ ts); printable t; follows ''|)&;'' ts; parseexec n b s \<noteq> PFuel\<rbrakk> \<Longrightarrow> reads b (parseexec n b s) t ts"
    and pipe: "\<And>s t ts. \<lbrakk>at_toks b s (pr 2 t @ ts); printable t; follows '')&;'' ts; parsepipe n b s \<noteq> PFuel\<rbrakk> \<Longrightarrow> reads b (parsepipe n b s) t ts"
    and t: "at_toks b s (pr 2 t @ ts)" "printable t" "follows '')&;'' ts" "parsepipe (Suc n) b s \<noteq> PFuel"
  shows "reads b (parsepipe (Suc n) b s) t ts"
proof -
  obtain l us where l: "pr 2 t @ ts = pr 3 l @ us" "printable l" "follows ''|)&;'' us"
    and r: "(us = ts \<and> l = t) \<or> (\<exists>r. t = PIPE l r \<and> printable r \<and> us = bytes ''|'' # pr 2 r @ ts)"
    using pipe_split [OF t(2,3)] .
  have a: "at_toks b s (pr 3 l @ us)" using t(1) l(1) by simp
  moreover have "parseexec n b s \<noteq> PFuel" using t(4) unfolding parsepipe.simps by (rule bind_fuel)
  ultimately obtain c1 s2 where 1: "parseexec n b s = POk (c1, s2)" "map_cmd (text_of b) c1 = l" "at_toks b s2 us"
    using exec [OF a] l(2,3) unfolding reads_def by blast
  show ?thesis
  proof (cases "us = ts \<and> l = t")
    case True
    then have "peek b s2 (bytes ''|'') = (False, s2)"
      using peek_at [OF 1(3)] t(3) by (auto simp: follows_def bytes_def split: list.splits)
    then show ?thesis using True 1 by (auto simp: reads_def)
  next
    case False
    then obtain r where r: "t = PIPE l r" "printable r" "us = bytes ''|'' # pr 2 r @ ts" using r by blast
    let ?s = "after s2 (bytes ''|'')"
    have a2: "at_toks b s2 (bytes ''|'' # pr 2 r @ ts)" using 1(3) r(3) by simp
    have e: "parsepipe (Suc n) b s = pbind (parsepipe n b ?s) (\<lambda>(d, s). POk (PIPE c1 d, s))"
      using 1 peek_at [OF a2, of "bytes ''|''"] gettoken_at [OF a2] by (simp add: bytes_def)
    have "parsepipe n b ?s \<noteq> PFuel" using t(4) unfolding e by (rule bind_fuel)
    then have "reads b (parsepipe n b ?s) r ts" by (rule pipe [OF at_rest(1) [OF a2] r(2) t(3)])
    then show ?thesis unfolding e using 1(2) r(1) by (auto simp: reads_def)
  qed
qed

lemma follows_not_redir: "follows ''|)&;'' ts \<Longrightarrow> ts = [] \<or> hd (hd ts) \<notin> set (bytes ''<>('')"
  by (cases ts) (auto simp: follows_def bytes_def)

lemma parseblock_at:
  assumes line: "\<And>s t ts. \<lbrakk>at_toks b s (pr 0 t @ ts); printable t; follows '')'' ts; parseline n b s \<noteq> PFuel\<rbrakk> \<Longrightarrow> reads b (parseline n b s) t ts"
    and t: "at_toks b s (bytes ''('' # pr 0 t @ bytes '')'' # redir_toks rs @ ts)" "printable t" "list_all redir_printable rs"
      "follows ''|)&;'' ts" "parseblock (Suc n) b s \<noteq> PFuel"
  shows "reads b (parseblock (Suc n) b s) (redirs_on rs t) ts"
proof -
  let ?s = "after s (bytes ''('')"
  define k where "k = (\<lambda>(c, s). let (r, s) = peek b s (bytes '')'') in
        if \<not> r then PErr ''syntax - missing )''
        else let (_, _, _, s) = gettoken b s in
          pbind (parseredirs b s []) (\<lambda>(rs, s). POk (redirs_on rs c, s)))"
  have e: "parseblock (Suc n) b s = pbind (parseline n b ?s) k"
    using peek_at [OF t(1), of "bytes ''(''"] gettoken_at [OF t(1)] by (simp add: bytes_def k_def)
  then have "parseline n b ?s \<noteq> PFuel" using t(5) by (metis bind_fuel)
  moreover have "follows '')'' (bytes '')'' # redir_toks rs @ ts)" by (simp add: follows_def bytes_def)
  ultimately obtain c s1 where 1: "parseline n b ?s = POk (c, s1)" "map_cmd (text_of b) c = t"
      "at_toks b s1 (bytes '')'' # redir_toks rs @ ts)"
    using line [OF at_rest(1) [OF t(1)] t(2)] unfolding reads_def by blast
  obtain rs' s' where 2: "parseredirs b (after s1 (bytes '')'')) [] = POk (rs', s')" "map (redir_text b) rs' = rs" "at_toks b s' ts"
    using parseredirs_at [OF at_rest(1) [OF 1(3)] t(3), of "[]"] follows_not_redir [OF t(4)] by (auto simp: bytes_def)
  have "parseblock (Suc n) b s = POk (redirs_on rs' c, s')" unfolding e
    using 1 2(1) peek_at [OF 1(3), of "bytes '')''"] gettoken_at [OF 1(3)] by (simp add: bytes_def k_def)
  then show ?thesis using 1(2) 2(2,3) by (simp add: reads_def map_redirs_on)
qed

lemma parseexec_words:
  assumes t: "at_toks b s (ws @ redir_toks rs @ ts)" "length ws < MAXARGS" "list_all word_text ws" "list_all redir_printable rs"
    "follows ''|)&;'' ts"
  shows "reads b (parseexec (Suc n) b s) (redirs_on rs (EXEC ws)) ts"
proof -
  obtain rs1 rs2 where rs: "rs = rs1 @ rs2" "ws \<noteq> [] \<longrightarrow> rs1 = []" "ws = [] \<longrightarrow> rs2 = []"
    by (cases "ws = []") (auto intro: that [of rs "[]"] that [of "[]" rs])
  have w: "ws = [] \<or> hd (hd ws) \<notin> set (bytes ''<>('')"
    using t(3) word_hd [of "hd ws"] by (cases ws) (auto simp: word_char_def symbols_def bytes_def)
  have f: "ws @ redir_toks rs2 @ ts = [] \<or> hd (hd (ws @ redir_toks rs2 @ ts)) \<notin> set (bytes ''<>'')"
    using w rs(3) follows_not_redir [OF t(5)] by (cases ws) (auto simp: redir_toks_def bytes_def)
  have h: "ws @ redir_toks rs @ ts = [] \<or> hd (hd (ws @ redir_toks rs @ ts)) \<notin> set (bytes ''('')"
    using w follows_not_redir [OF t(5)] t(4)
    by (cases ws; cases rs) (auto simp: redir_toks_def redir_tok_def bytes_def split: if_splits)
  have p: "peek b s (bytes ''('') = (False, s)" using peek_at [OF t(1)] h by auto
  have "at_toks b s (redir_toks rs1 @ ws @ redir_toks rs2 @ ts)"
    using t(1) rs by (cases "ws = []") (auto simp: redir_toks_def)
  then obtain rs1' s1 where 1: "parseredirs b s [] = POk (rs1', s1)" "map (redir_text b) rs1' = rs1"
      "at_toks b s1 (ws @ redir_toks rs2 @ ts)"
    using parseredirs_at [of b s rs1 "ws @ redir_toks rs2 @ ts" "[]"] f t(4) rs(1) by auto
  obtain args' rs2' s' where 2: "parseargs b s1 [] rs1' = POk (args', rs1' @ rs2', s')"
      "map (text_of b) args' = ws" "map (redir_text b) rs2' = rs2" "at_toks b s' ts"
    using parseargs_at [OF 1(3) _ t(3), of "[]" rs1'] t(2,4,5) rs(1,3) by auto
  have "parseexec (Suc n) b s = POk (redirs_on (rs1' @ rs2') (EXEC args'), s')" using p 1(1) 2(1) by simp
  then show ?thesis using 1(2) 2(2-4) rs(1) by (simp add: reads_def map_redirs_on)
qed

lemma parseexec_at:
  assumes block: "\<And>s t rs ts. \<lbrakk>at_toks b s (bytes ''('' # pr 0 t @ bytes '')'' # redir_toks rs @ ts); printable t;
        list_all redir_printable rs; follows ''|)&;'' ts; parseblock n b s \<noteq> PFuel\<rbrakk> \<Longrightarrow> reads b (parseblock n b s) (redirs_on rs t) ts"
    and t: "at_toks b s (pr 3 t @ ts)" "printable t" "follows ''|)&;'' ts" "parseexec (Suc n) b s \<noteq> PFuel"
  shows "reads b (parseexec (Suc n) b s) t ts"
proof -
  obtain rs c where "redir_core t = (rs, c)" by fastforce
  then have rc: "redirs_on rs c = t" "pr 3 t = pr 3 c @ redir_toks rs" "printable c" "list_all redir_printable rs"
      "\<And>d f m fd. c \<noteq> REDIR d f m fd"
    using redir_core_eq [of t] pr_redir_core [of t] printable_redir_core [OF t(2)] redir_core_not [of t] by simp_all
  show ?thesis
  proof (cases "\<exists>ws. c = EXEC ws")
    case True
    then obtain ws where c: "c = EXEC ws" by blast
    have "at_toks b s (ws @ redir_toks rs @ ts)" "length ws < MAXARGS" "list_all word_text ws"
      using t(1) rc c by auto
    from parseexec_words [OF this rc(4) t(3)] show ?thesis using rc(1) c by simp
  next
    case False
    then have "pr 3 c = bytes ''('' # pr 0 c @ [bytes '')'']" using rc(5) by (cases c) (auto simp: paren_def)
    then have a: "at_toks b s (bytes ''('' # pr 0 c @ bytes '')'' # redir_toks rs @ ts)" using t(1) rc(2) by simp
    have e: "parseexec (Suc n) b s = parseblock n b s" using peek_at [OF a, of "bytes ''(''"] by (simp add: bytes_def)
    have "reads b (parseblock n b s) (redirs_on rs c) ts" by (rule block [OF a rc(3,4) t(3)]) (use t(4) e in simp)
    then show ?thesis using e rc(1) by simp
  qed
qed

lemma parse_at:
  "\<lbrakk>at_toks b s (pr 0 t @ ts); printable t; follows '')'' ts; parseline n b s \<noteq> PFuel\<rbrakk> \<Longrightarrow> reads b (parseline n b s) t ts"
  "\<lbrakk>at_toks b s (pr 2 t @ ts); printable t; follows '')&;'' ts; parsepipe n b s \<noteq> PFuel\<rbrakk> \<Longrightarrow> reads b (parsepipe n b s) t ts"
  "\<lbrakk>at_toks b s (pr 3 t @ ts); printable t; follows ''|)&;'' ts; parseexec n b s \<noteq> PFuel\<rbrakk> \<Longrightarrow> reads b (parseexec n b s) t ts"
  "\<lbrakk>at_toks b s (bytes ''('' # pr 0 t @ bytes '')'' # redir_toks rs @ ts); printable t; list_all redir_printable rs;
     follows ''|)&;'' ts; parseblock n b s \<noteq> PFuel\<rbrakk> \<Longrightarrow> reads b (parseblock n b s) (redirs_on rs t) ts"
proof (induction n arbitrary: s t ts rs)
  case (Suc n)
  {
    case 1
    show ?case by (rule parseline_at) (use 1 Suc.IH in blast)+
  next
    case 2
    show ?case by (rule parsepipe_at) (use 2 Suc.IH in blast)+
  next
    case 3
    show ?case by (rule parseexec_at) (use 3 Suc.IH in blast)+
  next
    case 4
    show ?case by (rule parseblock_at) (use 4 Suc.IH in blast)+
  }
qed auto

section \<open>Round trip\<close>

lemma printable_toks: "printable t \<Longrightarrow> list_all tok_ok (pr p t)"
  by (induction t arbitrary: p) (auto simp: list_all_iff tok_ok_def paren_def marks_def redir_tok_def)

lemma tok_nonzero: "tok_ok t \<Longrightarrow> 0 \<notin> set t"
  by (auto simp: tok_ok_def word_text_def list_all_iff marks_def bytes_def)

lemma spaced_set: "set (spaced ws ts) \<subseteq> set ws \<union> \<Union> (set ` set ts)"
  by (induction ws ts rule: spaced.induct) auto

lemma print_nonzero:
  assumes "printable t" "separators ws t"
  shows "0 \<notin> set (print_cmd ws t)"
proof -
  have "0 \<notin> set whitespace" by (simp add: whitespace_def)
  then have "0 \<notin> set ws" using assms(2) by (auto simp: separators_def)
  moreover have "0 \<notin> set x" if "x \<in> set (pr 0 t)" for x
    using that printable_toks [OF assms(1), of 0] by (intro tok_nonzero) (simp add: list_all_iff)
  ultimately show ?thesis using spaced_set [of ws "pr 0 t"] unfolding print_cmd_def by blast
qed

lemma map_cmd_cong_strings: "(\<And>x. x \<in> set (strings_of c) \<Longrightarrow> g x = h x) \<Longrightarrow> map_cmd g c = map_cmd h c"
  by (induction c) auto

text \<open>Parsing is the inverse of printing.\<close>

lemma parse_print:
  assumes "printable t" "separators ws t"
  shows "\<exists>c buf. parsecmd (print_cmd ws t) = POk (c, buf) \<and> map_cmd (\<lambda>p. cstr_at buf (fst p)) c = t"
proof -
  let ?b = "print_cmd ws t"
  have a: "at_toks ?b 0 (pr 0 t @ [])" using printable_toks [OF assms(1)] assms(2)
    by (auto simp: at_toks_def print_cmd_def separators_def)
  have "yields (parsed_ok ?b 0) (parseline (parse_fuel ?b) ?b 0)" by (rule parse_yields) (simp_all add: parse_fuel_def)
  then have y: "parseline (parse_fuel ?b) ?b 0 \<noteq> PFuel" "\<And>c s. parseline (parse_fuel ?b) ?b 0 = POk (c, s) \<Longrightarrow> cmd_ok ?b c"
    by (auto simp: parsed_ok_def)
  have "follows '')'' []" by (simp add: follows_def)
  then obtain c s where 1: "parseline (parse_fuel ?b) ?b 0 = POk (c, s)" "map_cmd (text_of ?b) c = t" "at_toks ?b s []"
    using parse_at(1) [OF a assms(1)] y(1) unfolding reads_def by blast
  have "parsecmd ?b = POk (c, nulterminate c (?b @ [0]))"
    using 1 peek_at [OF 1(3), of "[]"] by (simp add: parsecmd_def at_Nil)
  moreover have "map_cmd (\<lambda>p. cstr_at (nulterminate c (?b @ [0])) (fst p)) c = map_cmd (text_of ?b) c"
    using nulterminate_strings [OF y(2) [OF 1(1)] _ print_nonzero [OF assms]] by (intro map_cmd_cong_strings) auto
  ultimately show ?thesis using 1(2) by (intro exI [of _ c] exI [of _ "nulterminate c (?b @ [0])"]) simp
qed

end
