(* ===== verification/Sh_Run.thy ===== *)
theory Sh_Run
  imports Sh "HOL-Library.Multiset"
begin

text \<open>
  \<^verbatim>\<open>runcmd\<close> of \<^verbatim>\<open>user/sh.c\<close> as the program of system calls it makes, and the processes that run it in any
  order, where \<^verbatim>\<open>fork\<close>, \<^verbatim>\<open>exec\<close>, \<^verbatim>\<open>open\<close> and \<^verbatim>\<open>pipe\<close> may fail. Every command is started with the descriptors the
  line asks for and no others, every failure is reported, and every run comes to its end.
\<close>

section \<open>Programs\<close>

text \<open>
  A descriptor is a constant or an element of the array \<^verbatim>\<open>p\<close> that \<^verbatim>\<open>pipe\<close> filled. \<open>SOpen\<close> goes on in one of
  two ways, \<open>SPipe\<close> too; \<open>SFork\<close> has the program of the child, of the parent, and for a failure. \<open>SExec\<close>
  goes on only if it fails. The messages of \<^verbatim>\<open>wait\<close> go to a named buffer. \<open>SRun n\<close> is a command that was
  started, with \<open>n\<close> steps of its own to go.
\<close>

datatype fdarg = Fd nat | P0 | P1

datatype prog =
    SExit int
  | SExec "uchar list list" prog
  | SRun nat
  | SClose fdarg prog
  | SDup fdarg prog
  | SOpen "uchar list" nat prog prog
  | SPipe prog prog
  | SFork prog prog prog
  | SWait string prog
  | SPrintf string prog
  | SFprintf nat "uchar list" prog

definition sh_panic :: "string \<Rightarrow> prog" where
  "sh_panic s = SFprintf 2 (bytes s @ [10]) (SExit 1)"

definition fork1 :: "prog \<Rightarrow> prog \<Rightarrow> prog" where
  "fork1 kid rest = SFork kid rest (sh_panic ''fork'')"

fun runcmd :: "uchar list cmd \<Rightarrow> prog" where
  "runcmd (EXEC argv) =
     (case argv of
        [] \<Rightarrow> SExit 1
      | a # _ \<Rightarrow> SExec argv (SFprintf 2 (bytes ''exec '' @ a @ bytes '' failed'' @ [10]) (SExit 0)))"
| "runcmd (REDIR c file m fd) =
     SClose (Fd fd) (SOpen file m (runcmd c) (SFprintf 2 (bytes ''open '' @ file @ bytes '' failed'' @ [10]) (SExit 1)))"
| "runcmd (LIST l r) = fork1 (runcmd l) (SWait ''msg'' (runcmd r))"
| "runcmd (PIPE l r) =
     SPipe
       (fork1
         (SClose (Fd 1) (SDup P1 (SClose P0 (SClose P1 (runcmd l)))))
         (fork1
           (SClose (Fd 0) (SDup P0 (SClose P0 (SClose P1 (runcmd r)))))
           (SClose P0 (SClose P1 (SWait ''msg1'' (SWait ''msg2'' (SPrintf ''msg2'' (SExit 0))))))))
       (sh_panic ''pipe'')"
| "runcmd (BACK c) = fork1 (runcmd c) (SExit 0)"

section \<open>Processes\<close>

text \<open>
  What the shell relies on: a new descriptor is the lowest free one, \<^verbatim>\<open>fork\<close> copies the table,
  \<^verbatim>\<open>exec\<close> keeps it, \<^verbatim>\<open>wait\<close> blocks until a child has exited and returns at once if there is none. Each of
  \<^verbatim>\<open>fork\<close>, \<^verbatim>\<open>exec\<close>, \<^verbatim>\<open>open\<close> and \<^verbatim>\<open>pipe\<close> may fail at any time; \<open>openable\<close> says which files can be opened at all. A
  process is named by its place in the tree of processes, a pipe by the process that made it. A
  command that was started takes any finite number of steps and then exits.
\<close>

datatype fobj = FFile "uchar list" nat | FPipeR "nat list" | FPipeW "nat list" | FOther nat

type_synonym fdtab = "nat \<Rightarrow> fobj option"

record shproc =
  path :: "nat list"
  nfork :: nat
  prog_of :: prog
  fdt :: fdtab
  pvar :: "nat \<times> nat"

type_synonym event = "nat list \<times> uchar list list \<times> fdtab"

definition low_fd :: "fdtab \<Rightarrow> nat option" where
  "low_fd T = find (\<lambda>i. T i = None) [0..<NOFILE]"

fun fd_val :: "nat \<times> nat \<Rightarrow> fdarg \<Rightarrow> nat" where
  "fd_val p (Fd n) = n"
| "fd_val p P0 = fst p"
| "fd_val p P1 = snd p"

definition dup_fd :: "fdtab \<Rightarrow> nat \<Rightarrow> fdtab" where
  "dup_fd T i = (case low_fd T of None \<Rightarrow> T | Some n \<Rightarrow> if T i = None then T else T(n := T i))"

definition open_fd :: "(uchar list \<Rightarrow> nat \<Rightarrow> bool) \<Rightarrow> fdtab \<Rightarrow> uchar list \<Rightarrow> nat \<Rightarrow> fdtab option" where
  "open_fd openable T f m =
     (case low_fd T of None \<Rightarrow> None | Some n \<Rightarrow> if openable f m then Some (T(n \<mapsto> FFile f m)) else None)"

definition pipe_fd :: "nat list \<Rightarrow> fdtab \<Rightarrow> (fdtab \<times> nat \<times> nat) option" where
  "pipe_fd q T =
     (case low_fd T of
        None \<Rightarrow> None
      | Some i \<Rightarrow>
          let T1 = T(i \<mapsto> FPipeR q) in
          (case low_fd T1 of None \<Rightarrow> None | Some j \<Rightarrow> Some (T1(j \<mapsto> FPipeW q), i, j)))"

text \<open>
  The outcome of a system call: it works, and a started command will take that many steps, or it
  fails. The failures are recorded.
\<close>

datatype choice = Works nat | Fails

datatype failure = ExecFailed "uchar list" | OpenFailed "uchar list" nat | PipeFailed | ForkFailed | NoChild

definition next_procs :: "(uchar list \<Rightarrow> nat \<Rightarrow> bool) \<Rightarrow> choice \<Rightarrow> shproc \<Rightarrow> shproc list" where
  "next_procs openable ch p =
     (case prog_of p of
        SExit n \<Rightarrow> []
      | SExec argv q \<Rightarrow> (case ch of Works n \<Rightarrow> [p\<lparr>prog_of := SRun n\<rparr>] | Fails \<Rightarrow> [p\<lparr>prog_of := q\<rparr>])
      | SRun n \<Rightarrow> [p\<lparr>prog_of := (case n of 0 \<Rightarrow> SExit 0 | Suc n \<Rightarrow> SRun n)\<rparr>]
      | SClose a q \<Rightarrow> [p\<lparr>prog_of := q, fdt := (fdt p)(fd_val (pvar p) a := None)\<rparr>]
      | SDup a q \<Rightarrow> [p\<lparr>prog_of := q, fdt := dup_fd (fdt p) (fd_val (pvar p) a)\<rparr>]
      | SOpen f m q q' \<Rightarrow>
          (case (if ch = Fails then None else open_fd openable (fdt p) f m) of
             None \<Rightarrow> [p\<lparr>prog_of := q'\<rparr>]
           | Some T \<Rightarrow> [p\<lparr>prog_of := q, fdt := T\<rparr>])
      | SPipe q q' \<Rightarrow>
          (case (if ch = Fails then None else pipe_fd (path p) (fdt p)) of
             None \<Rightarrow> [p\<lparr>prog_of := q'\<rparr>]
           | Some (T, v) \<Rightarrow> [p\<lparr>prog_of := q, fdt := T, pvar := v\<rparr>])
      | SFork c q q' \<Rightarrow>
          if ch = Fails then [p\<lparr>prog_of := q'\<rparr>]
          else [p\<lparr>path := path p @ [nfork p], nfork := 0, prog_of := c\<rparr>, p\<lparr>nfork := Suc (nfork p), prog_of := q\<rparr>]
      | SWait b q \<Rightarrow> [p]
      | SPrintf b q \<Rightarrow> [p\<lparr>prog_of := q\<rparr>]
      | SFprintf n b q \<Rightarrow> [p\<lparr>prog_of := q\<rparr>])"

definition failed :: "(uchar list \<Rightarrow> nat \<Rightarrow> bool) \<Rightarrow> choice \<Rightarrow> shproc \<Rightarrow> failure multiset" where
  "failed openable ch p =
     (case prog_of p of
        SExec argv q \<Rightarrow> if ch = Fails then {#ExecFailed (hd argv)#} else {#}
      | SOpen f m q q' \<Rightarrow> if ch = Fails \<or> open_fd openable (fdt p) f m = None then {#OpenFailed f m#} else {#}
      | SPipe q q' \<Rightarrow> if ch = Fails \<or> pipe_fd (path p) (fdt p) = None then {#PipeFailed#} else {#}
      | SFork c q q' \<Rightarrow> if ch = Fails then {#ForkFailed#} else {#}
      | _ \<Rightarrow> {#})"

definition started :: "choice \<Rightarrow> shproc \<Rightarrow> event multiset" where
  "started ch p = (case prog_of p of SExec argv q \<Rightarrow> if ch = Fails then {#} else {#(path p, argv, fdt p)#} | _ \<Rightarrow> {#})"

definition exited :: "shproc \<Rightarrow> nat list multiset" where
  "exited p = (case prog_of p of SExit n \<Rightarrow> {#path p#} | _ \<Rightarrow> {#})"

definition printed :: "shproc \<Rightarrow> (nat \<times> uchar list) multiset" where
  "printed p = (case prog_of p of SFprintf n b q \<Rightarrow> {#(n, b)#} | _ \<Rightarrow> {#})"

text \<open>
  The processes, the exited processes not waited for, the commands started, the system calls that
  failed, and the messages written with \<^verbatim>\<open>fprintf\<close>, with their descriptors.
\<close>

type_synonym shconf = "shproc list \<times> nat list multiset \<times> event multiset \<times> failure multiset \<times> (nat \<times> uchar list) multiset"

definition is_wait :: "prog \<Rightarrow> bool" where
  "is_wait q = (case q of SWait _ _ \<Rightarrow> True | _ \<Rightarrow> False)"

definition child_of :: "nat list \<Rightarrow> nat list \<Rightarrow> bool" where
  "child_of q r \<longleftrightarrow> r \<noteq> [] \<and> butlast r = q"

text \<open>The children of a process, running or exited.\<close>

definition kids_of :: "shproc list \<Rightarrow> nat list multiset \<Rightarrow> nat list \<Rightarrow> nat" where
  "kids_of ps Z q = size (filter_mset (child_of q) (mset (map path ps) + Z))"

inductive sh_step :: "(uchar list \<Rightarrow> nat \<Rightarrow> bool) \<Rightarrow> shconf \<Rightarrow> shconf \<Rightarrow> bool" for openable where
  run: "\<not> is_wait (prog_of p) \<Longrightarrow>
    sh_step openable (xs @ p # ys, Z, E, F, M)
      (xs @ next_procs openable ch p @ ys, Z + exited p, E + started ch p, F + failed openable ch p, M + printed p)"
| wait: "\<lbrakk>prog_of p = SWait b q; path p @ [j] \<in># Z\<rbrakk> \<Longrightarrow>
    sh_step openable (xs @ p # ys, Z, E, F, M) (xs @ p\<lparr>prog_of := q\<rparr> # ys, Z - {#path p @ [j]#}, E, F, M)"
| wait_none: "\<lbrakk>prog_of p = SWait b q; kids_of (xs @ p # ys) Z (path p) = 0\<rbrakk> \<Longrightarrow>
    sh_step openable (xs @ p # ys, Z, E, F, M) (xs @ p\<lparr>prog_of := q\<rparr> # ys, Z, E, add_mset NoChild F, M)"

section \<open>What a line asks for\<close>

definition std :: "fobj \<Rightarrow> fobj \<Rightarrow> fobj \<Rightarrow> fdtab" where
  "std i u e = (\<lambda>n. if n = 0 then Some i else if n = 1 then Some u else if n = 2 then Some e else None)"

text \<open>
  The commands of a line with the process that runs each: input and output are those of the shell, or
  a file, or an end of a pipe; a redirection to a file that cannot be opened starts nothing.
\<close>

fun stages :: "(uchar list \<Rightarrow> nat \<Rightarrow> bool) \<Rightarrow> uchar list cmd \<Rightarrow> nat list \<Rightarrow> nat \<Rightarrow> fobj \<Rightarrow> fobj \<Rightarrow> fobj \<Rightarrow> event multiset" where
  "stages openable (EXEC argv) q k i u e = (if argv = [] then {#} else {#(q, argv, std i u e)#})"
| "stages openable (REDIR c f m fd) q k i u e =
     (if \<not> openable f m then {#}
      else if fd = 0 then stages openable c q k (FFile f m) u e
      else stages openable c q k i (FFile f m) e)"
| "stages openable (PIPE l r) q k i u e =
     stages openable l (q @ [k]) 0 i (FPipeW q) e + stages openable r (q @ [Suc k]) 0 (FPipeR q) u e"
| "stages openable (LIST l r) q k i u e = stages openable l (q @ [k]) 0 i u e + stages openable r q (Suc k) i u e"
| "stages openable (BACK c) q k i u e = stages openable c (q @ [k]) 0 i u e"

fun redirs_std :: "'s cmd \<Rightarrow> bool" where
  "redirs_std (EXEC argv) \<longleftrightarrow> True"
| "redirs_std (REDIR c f m fd) \<longleftrightarrow> (fd = 0 \<or> fd = 1) \<and> redirs_std c"
| "redirs_std (PIPE l r) \<longleftrightarrow> redirs_std l \<and> redirs_std r"
| "redirs_std (LIST l r) \<longleftrightarrow> redirs_std l \<and> redirs_std r"
| "redirs_std (BACK c) \<longleftrightarrow> redirs_std c"

definition sh_start :: "uchar list cmd \<Rightarrow> fdtab \<Rightarrow> shconf" where
  "sh_start c T = ([\<lparr>path = [], nfork = 0, prog_of = runcmd c, fdt = T, pvar = (0, 0)\<rparr>], {#}, {#}, {#}, {#})"

text \<open>What the shell reports about a failure, and the failures that the line itself implies.\<close>

fun complaint :: "failure \<Rightarrow> uchar list" where
  "complaint (ExecFailed a) = bytes ''exec '' @ a @ bytes '' failed'' @ [10]"
| "complaint (OpenFailed f m) = bytes ''open '' @ f @ bytes '' failed'' @ [10]"
| "complaint PipeFailed = bytes ''pipe'' @ [10]"
| "complaint ForkFailed = bytes ''fork'' @ [10]"
| "complaint NoChild = []"

fun expected :: "(uchar list \<Rightarrow> nat \<Rightarrow> bool) \<Rightarrow> failure \<Rightarrow> bool" where
  "expected openable (OpenFailed f m) \<longleftrightarrow> \<not> openable f m"
| "expected openable _ \<longleftrightarrow> False"

section \<open>Conservation\<close>

text \<open>What a process and its children are going to start.\<close>

fun pend :: "(uchar list \<Rightarrow> nat \<Rightarrow> bool) \<Rightarrow> prog \<Rightarrow> nat list \<Rightarrow> nat \<Rightarrow> fdtab \<Rightarrow> nat \<times> nat \<Rightarrow> event multiset" where
  "pend op (SExit n) q k T v = {#}"
| "pend op (SExec argv r) q k T v = {#(q, argv, T)#}"
| "pend op (SRun n) q k T v = {#}"
| "pend op (SClose a r) q k T v = pend op r q k (T(fd_val v a := None)) v"
| "pend op (SDup a r) q k T v = pend op r q k (dup_fd T (fd_val v a)) v"
| "pend op (SOpen f m r r') q k T v =
     (case open_fd op T f m of None \<Rightarrow> pend op r' q k T v | Some T \<Rightarrow> pend op r q k T v)"
| "pend op (SPipe r r') q k T v =
     (case pipe_fd q T of None \<Rightarrow> pend op r' q k T v | Some (T, v) \<Rightarrow> pend op r q k T v)"
| "pend op (SFork c r r') q k T v = pend op c (q @ [k]) 0 T v + pend op r q (Suc k) T v"
| "pend op (SWait b r) q k T v = pend op r q k T v"
| "pend op (SPrintf b r) q k T v = pend op r q k T v"
| "pend op (SFprintf n b r) q k T v = pend op r q k T v"

definition pend_of :: "(uchar list \<Rightarrow> nat \<Rightarrow> bool) \<Rightarrow> shproc \<Rightarrow> event multiset" where
  "pend_of op p = pend op (prog_of p) (path p) (nfork p) (fdt p) (pvar p)"

text \<open>
  A program that only reports a failure and exits, and a program all of whose reactions to failures are
  such programs, and which reports nothing else.
\<close>

fun gives_up :: "failure \<Rightarrow> prog \<Rightarrow> bool" where
  "gives_up k (SFprintf n b (SExit x)) \<longleftrightarrow> n = 2 \<and> b = complaint k"
| "gives_up k _ \<longleftrightarrow> False"

fun good :: "prog \<Rightarrow> bool" where
  "good (SExit x) \<longleftrightarrow> True"
| "good (SExec argv r) \<longleftrightarrow> gives_up (ExecFailed (hd argv)) r"
| "good (SRun n) \<longleftrightarrow> True"
| "good (SClose a r) \<longleftrightarrow> good r"
| "good (SDup a r) \<longleftrightarrow> good r"
| "good (SOpen f m r r') \<longleftrightarrow> good r \<and> gives_up (OpenFailed f m) r'"
| "good (SPipe r r') \<longleftrightarrow> good r \<and> gives_up PipeFailed r'"
| "good (SFork c r r') \<longleftrightarrow> good c \<and> good r \<and> gives_up ForkFailed r'"
| "good (SWait b r) \<longleftrightarrow> good r"
| "good (SPrintf b r) \<longleftrightarrow> good r"
| "good (SFprintf n b r) \<longleftrightarrow> False"

lemma good_runcmd: "good (runcmd c)"
proof (induction c)
  case (EXEC argv)
  then show ?case by (cases argv) simp_all
qed (simp_all add: fork1_def sh_panic_def)

definition allowed :: "prog \<Rightarrow> bool" where
  "allowed q \<longleftrightarrow> good q \<or> (\<exists>k. gives_up k q)"

declare complaint.simps [simp del]

lemma allowed_simps [simp]: "allowed (SFprintf 2 (complaint k) (SExit x))" "allowed (SRun n)" "allowed (SExit x)"
  by (auto simp: allowed_def)

lemma good_allowed: "good q \<Longrightarrow> allowed q"
  by (simp add: allowed_def)

lemma gives_upE:
  assumes "gives_up k q" obtains x where "q = SFprintf 2 (complaint k) (SExit x)"
  using assms by (cases "(k, q)" rule: gives_up.cases) auto

lemma gives_up_pend: "gives_up k r \<Longrightarrow> pend op r q n T v = {#}"
  by (auto elim: gives_upE)

lemma good_printed: "good (prog_of p) \<Longrightarrow> printed p = {#}"
  by (cases "prog_of p") (simp_all add: printed_def)

definition report :: "failure \<Rightarrow> nat \<times> uchar list" where
  "report k = (2, complaint k)"

text \<open>
  One step of a process: what it and its successors are still going to start is lost only by an
  unexpected failure, and exactly the failures are going to be reported.
\<close>

lemma run_good:
  assumes "good (prog_of p)" "\<not> is_wait (prog_of p)"
  shows "(\<exists>L. (\<Sum>r\<leftarrow>next_procs op ch p. pend_of op r) + started ch p + L = pend_of op p \<and>
      ((\<forall>k \<in># failed op ch p. expected op k) \<longrightarrow> L = {#})) \<and>
    (\<forall>r \<in> set (next_procs op ch p). allowed (prog_of r)) \<and>
    (\<Sum>r\<leftarrow>next_procs op ch p. printed r) = image_mset report (failed op ch p)"
proof (cases "prog_of p")
  case (SExec argv q)
  then obtain x where q: "q = SFprintf 2 (complaint (ExecFailed (hd argv))) (SExit x)" using assms by (auto elim!: gives_upE)
  then show ?thesis using SExec
    by (cases ch) (simp_all add: next_procs_def started_def failed_def pend_of_def printed_def report_def)
next
  case (SOpen f m q q')
  then obtain x where q': "q' = SFprintf 2 (complaint (OpenFailed f m)) (SExit x)" using assms by (auto elim!: gives_upE)
  show ?thesis
  proof (cases "ch = Fails \<or> open_fd op (fdt p) f m = None")
    case True
    then have n: "next_procs op ch p = [p\<lparr>prog_of := q'\<rparr>]" "failed op ch p = {#OpenFailed f m#}" "started ch p = {#}"
      using SOpen by (auto simp: next_procs_def failed_def started_def)
    have "\<not> op f m \<Longrightarrow> pend_of op p = {#}" using SOpen q' by (simp add: pend_of_def open_fd_def split: option.splits)
    then show ?thesis using n q' by (auto simp: pend_of_def good_allowed printed_def report_def)
  next
    case False
    then show ?thesis using SOpen assms
      by (auto simp: next_procs_def failed_def started_def pend_of_def good_allowed good_printed)
  qed
next
  case (SPipe q q')
  then obtain x where q': "q' = SFprintf 2 (complaint PipeFailed) (SExit x)" using assms by (auto elim!: gives_upE)
  show ?thesis
  proof (cases "ch = Fails \<or> pipe_fd (path p) (fdt p) = None")
    case True
    then have "next_procs op ch p = [p\<lparr>prog_of := q'\<rparr>]" "failed op ch p = {#PipeFailed#}" "started ch p = {#}"
      using SPipe by (auto simp: next_procs_def failed_def started_def)
    then show ?thesis using q' by (auto simp: pend_of_def good_allowed printed_def report_def)
  next
    case False
    then show ?thesis using SPipe assms
      by (auto simp: next_procs_def failed_def started_def pend_of_def good_allowed good_printed)
  qed
next
  case (SFork c q q')
  then obtain x where q': "q' = SFprintf 2 (complaint ForkFailed) (SExit x)" using assms by (auto elim!: gives_upE)
  show ?thesis
  proof (cases "ch = Fails")
    case True
    then show ?thesis using SFork q'
      by (auto simp: next_procs_def failed_def started_def pend_of_def printed_def report_def)
  next
    case False
    then show ?thesis using SFork assms
      by (auto simp: next_procs_def failed_def started_def pend_of_def good_allowed good_printed)
  qed
next
  case (SRun n)
  then show ?thesis
    by (cases n) (auto simp: next_procs_def failed_def started_def pend_of_def good_allowed printed_def)
qed (use assms in \<open>auto simp: next_procs_def failed_def started_def pend_of_def good_allowed good_printed is_wait_def\<close>)

lemma run_allowed:
  assumes "allowed (prog_of p)" "\<not> is_wait (prog_of p)"
  shows "(\<exists>L. (\<Sum>r\<leftarrow>next_procs op ch p. pend_of op r) + started ch p + L = pend_of op p \<and>
      ((\<forall>k \<in># failed op ch p. expected op k) \<longrightarrow> L = {#})) \<and>
    (\<forall>r \<in> set (next_procs op ch p). allowed (prog_of r)) \<and>
    (\<Sum>r\<leftarrow>next_procs op ch p. printed r) = image_mset report (failed op ch p)"
proof (cases "good (prog_of p)")
  case True
  then show ?thesis using run_good assms(2) by blast
next
  case False
  then obtain k x where "prog_of p = SFprintf 2 (complaint k) (SExit x)" using assms(1) by (auto simp: allowed_def elim!: gives_upE)
  then show ?thesis by (simp add: next_procs_def failed_def started_def pend_of_def allowed_def printed_def)
qed

lemma low_fd_std:
  "low_fd (std i u e) = Some 3" "low_fd ((std i u e)(3 \<mapsto> x)) = Some 4"
  "low_fd ((std i u e)(0 := None)) = Some 0" "low_fd ((std i u e)(Suc 0 := None)) = Some 1"
  "low_fd ((std i u e)(3 \<mapsto> x, 4 \<mapsto> y, 0 := None)) = Some 0"
  "low_fd ((std i u e)(3 \<mapsto> x, 4 \<mapsto> y, Suc 0 := None)) = Some 1"
  by (simp_all add: low_fd_def std_def NOFILE_def upt_rec)

lemma std_upd:
  "(std i u e)(0 \<mapsto> x) = std x u e" "(std i u e)(Suc 0 \<mapsto> x) = std i x e"
  "(std i u e)(3 := None, 4 := None) = std i u e"
  by (rule ext; simp add: std_def)+

text \<open>The programs of a line start what the line asks for.\<close>

lemma pend_runcmd: "redirs_std c \<Longrightarrow> pend op (runcmd c) q k (std i u e) v = stages op c q k i u e"
proof (induction c arbitrary: q k i u e v)
  case (EXEC argv)
  then show ?case by (cases argv) simp_all
next
  case (REDIR c f m fd)
  then show ?case by (cases v) (auto simp: open_fd_def low_fd_std std_upd)
next
  case (PIPE l r)
  then show ?case
    by (simp add: pipe_fd_def dup_fd_def low_fd_std fork1_def std_upd)
qed (simp_all add: fork1_def)

section \<open>Progress\<close>

text \<open>A program that waits only for children it has, given the number of those not waited for.\<close>

fun balanced :: "nat \<Rightarrow> prog \<Rightarrow> bool" where
  "balanced n (SExit x) \<longleftrightarrow> True"
| "balanced n (SExec argv r) \<longleftrightarrow> balanced n r"
| "balanced n (SRun x) \<longleftrightarrow> True"
| "balanced n (SClose a r) \<longleftrightarrow> balanced n r"
| "balanced n (SDup a r) \<longleftrightarrow> balanced n r"
| "balanced n (SOpen f m r r') \<longleftrightarrow> balanced n r \<and> balanced n r'"
| "balanced n (SPipe r r') \<longleftrightarrow> balanced n r \<and> balanced n r'"
| "balanced n (SFork c r r') \<longleftrightarrow> balanced 0 c \<and> balanced (Suc n) r \<and> balanced n r'"
| "balanced n (SWait b r) \<longleftrightarrow> 0 < n \<and> balanced (n - 1) r"
| "balanced n (SPrintf b r) \<longleftrightarrow> balanced n r"
| "balanced n (SFprintf x b r) \<longleftrightarrow> balanced n r"

lemma balanced_mono: "\<lbrakk>balanced m q; m \<le> n\<rbrakk> \<Longrightarrow> balanced n q"
proof (induction q arbitrary: m n)
  case (SWait b q)
  then show ?case using SWait.IH [of "m - 1" "n - 1"] by (simp add: diff_le_mono)
qed (simp_all, (metis Suc_le_mono)+)

lemma balanced_runcmd: "balanced 0 (runcmd c)"
proof (induction c)
  case (LIST l r)
  then show ?case by (simp add: fork1_def sh_panic_def)
next
  case (EXEC argv)
  then show ?case by (cases argv) simp_all
qed (simp_all add: fork1_def sh_panic_def)

definition sh_inv :: "shproc list \<Rightarrow> nat list multiset \<Rightarrow> bool" where
  "sh_inv ps Z \<longleftrightarrow>
     distinct (map path ps) \<and>
     (\<forall>p \<in> set ps. balanced (kids_of ps Z (path p)) (prog_of p)) \<and>
     (\<forall>p \<in> set ps. \<forall>r \<in> set ps. \<forall>j w. path r = path p @ j # w \<longrightarrow> j < nfork p)"

lemma sh_inv_balanced: "\<lbrakk>sh_inv ps Z; p \<in> set ps\<rbrakk> \<Longrightarrow> balanced (kids_of ps Z (path p)) (prog_of p)"
  by (simp add: sh_inv_def)

lemma sh_inv_start: "sh_inv (fst (sh_start c T)) {#}"
  by (simp add: sh_inv_def sh_start_def balanced_mono [OF balanced_runcmd])

lemma sh_progress:
  assumes "sh_inv ps Z" "ps \<noteq> []"
  shows "\<exists>g. sh_step op (ps, Z, E, F, M) g"
proof -
  let ?L = "(\<lambda>p. length (path p)) ` set ps"
  have "Max ?L \<in> ?L" using assms(2) by (intro Max_in) auto
  then obtain p where p: "p \<in> set ps" and m: "Max ?L = length (path p)" by auto
  have mx: "length (path r) \<le> length (path p)" if "r \<in> set ps" for r
    using Max_ge [of ?L "length (path r)"] that unfolding m by simp
  obtain xs ys where ps: "ps = xs @ p # ys" using p by (meson split_list)
  show ?thesis
  proof (cases "is_wait (prog_of p)")
    case False
    then show ?thesis unfolding ps by (blast intro: sh_step.run)
  next
    case True
    then obtain b q where w: "prog_of p = SWait b q" by (auto simp: is_wait_def split: prog.splits)
    then have "0 < kids_of ps Z (path p)" using assms(1) p by (force simp: sh_inv_def)
    then obtain r where "r \<in># filter_mset (child_of (path p)) (mset (map path ps) + Z)"
      unfolding kids_of_def nonempty_has_size [symmetric] by (rule multiset_nonemptyE) blast
    then have r: "r \<in># mset (map path ps) + Z" "child_of (path p) r" by auto
    have "length r = Suc (length (path p))" using r(2) by (cases r rule: rev_cases) (auto simp: child_of_def)
    then have "r \<notin> path ` set ps" using mx by fastforce
    then have "r \<in># Z" using r(1) by auto
    moreover have "r = path p @ [last r]" using r(2) append_butlast_last_id [of r] by (simp add: child_of_def)
    ultimately have "path p @ [last r] \<in># Z" by simp
    then show ?thesis unfolding ps by (blast intro: sh_step.wait [OF w])
  qed
qed

lemma inv_same:
  assumes "sh_inv (xs @ p # ys) Z" "path p' = path p" "nfork p' = nfork p"
    "balanced (kids_of (xs @ p # ys) Z (path p)) (prog_of p')"
  shows "sh_inv (xs @ p' # ys) Z"
proof -
  have k: "kids_of (xs @ p' # ys) Z = kids_of (xs @ p # ys) Z" using assms(2) by (auto simp: kids_of_def)
  show ?thesis using assms unfolding sh_inv_def k by (auto simp: ball_Un)
qed

lemma inv_exit:
  assumes "sh_inv (xs @ p # ys) Z"
  shows "sh_inv (xs @ ys) (Z + {#path p#})"
proof -
  have k: "kids_of (xs @ ys) (Z + {#path p#}) = kids_of (xs @ p # ys) Z" by (auto simp: kids_of_def)
  show ?thesis using assms unfolding sh_inv_def k by (auto simp: ball_Un)
qed

lemma inv_wait:
  assumes i: "sh_inv (xs @ p # ys) Z" and w: "prog_of p = SWait b q" and j: "path p @ [j] \<in># Z"
  shows "sh_inv (xs @ p\<lparr>prog_of := q\<rparr> # ys) (Z - {#path p @ [j]#})"
proof -
  obtain Z' where Z: "Z = add_mset (path p @ [j]) Z'" using j by (metis insert_DiffM)
  have k: "kids_of (xs @ p # ys) Z r = kids_of (xs @ p\<lparr>prog_of := q\<rparr> # ys) Z' r + (if r = path p then 1 else 0)" for r
    by (simp add: kids_of_def Z child_of_def)
  have d: "path r \<noteq> path p" if "r \<in> set xs \<union> set ys" for r using i that by (auto simp: sh_inv_def image_iff)
  have "balanced (kids_of (xs @ p\<lparr>prog_of := q\<rparr> # ys) Z' (path p)) q"
    using i w k [of "path p"] by (auto simp: sh_inv_def)
  moreover have "balanced (kids_of (xs @ p\<lparr>prog_of := q\<rparr> # ys) Z' (path r)) (prog_of r)" if "r \<in> set xs \<union> set ys" for r
    using sh_inv_balanced [OF i, of r] that k [of "path r"] d [OF that] by auto
  ultimately show ?thesis using i by (auto simp: sh_inv_def Z)
qed

lemma sh_inv_other: "\<lbrakk>sh_inv (xs @ p # ys) Z; r \<in> set xs \<union> set ys\<rbrakk> \<Longrightarrow> path r \<noteq> path p"
  by (auto simp: sh_inv_def image_iff)

lemma sh_inv_below: "\<lbrakk>sh_inv ps Z; r \<in> set ps; s \<in> set ps; path s = path r @ j # w\<rbrakk> \<Longrightarrow> j < nfork r"
  unfolding sh_inv_def by blast

lemma sh_inv_fresh: "\<lbrakk>sh_inv (xs @ p # ys) Z; r \<in> set (xs @ p # ys)\<rbrakk> \<Longrightarrow> path r \<noteq> path p @ nfork p # w"
  using sh_inv_below [of "xs @ p # ys" Z p r "nfork p" w] by auto

lemma below_fork:
  assumes i: "sh_inv (xs @ p # ys) Z"
    and m: "r \<in> set (xs @ p\<lparr>path := path p @ [nfork p], nfork := 0, prog_of := c\<rparr> # p\<lparr>nfork := Suc (nfork p), prog_of := q\<rparr> # ys)" (is "_ \<in> set (_ @ ?c # ?p # _)")
      "s \<in> set (xs @ p\<lparr>path := path p @ [nfork p], nfork := 0, prog_of := c\<rparr> # p\<lparr>nfork := Suc (nfork p), prog_of := q\<rparr> # ys)"
      "path s = path r @ j # w"
  shows "j < nfork r"
proof (cases "s = ?c")
  case True
  then have e: "path p @ [nfork p] = path r @ j # w" using m(3) by simp
  have "length (path p) = length (path r) + length w" using arg_cong [OF e, of length] by simp
  moreover have "length (path ?c) = Suc (length (path p))" by simp
  ultimately have nc: "r \<noteq> ?c" by (metis Suc_n_not_le_n le_add1)
  show ?thesis
  proof (cases w rule: rev_cases)
    case Nil
    then have 1: "path p = path r" "j = nfork p" using e by auto
    have "r \<notin> set xs \<union> set ys" using sh_inv_other [OF i, of r] 1(1) by metis
    then have "r = ?p" using m(1) nc by simp
    then show ?thesis using 1(2) by simp
  next
    case (snoc w' x)
    then have "path p = path r @ j # w'" using e by auto
    then show ?thesis using m(1) nc sh_inv_below [OF i, of r p j w'] by auto
  qed
next
  case False
  then have "path s \<in> path ` set (xs @ p # ys)" using m(2) by auto
  then obtain s' where s: "s' \<in> set (xs @ p # ys)" "path s' = path r @ j # w" using m(3) by fastforce
  then have "r \<noteq> ?c" using sh_inv_fresh [OF i s(1), of "j # w"] by auto
  show ?thesis
  proof (cases "r = ?p")
    case True
    then have "path s' = path p @ j # w" using s(2) by simp
    then have "j < nfork p" by (rule sh_inv_below [OF i, rotated 2]) (use s(1) in simp_all)
    then show ?thesis using True by simp
  next
    case False
    then have "r \<in> set (xs @ p # ys)" using m(1) \<open>r \<noteq> ?c\<close> by simp
    then show ?thesis using s by (rule sh_inv_below [OF i])
  qed
qed

lemma inv_fork:
  assumes i: "sh_inv (xs @ p # ys) Z" and f: "prog_of p = SFork c q q'"
  shows "sh_inv (xs @ p\<lparr>path := path p @ [nfork p], nfork := 0, prog_of := c\<rparr> # p\<lparr>nfork := Suc (nfork p), prog_of := q\<rparr> # ys) Z"
    (is "sh_inv (xs @ ?c # ?p # ys) Z")
proof -
  have k: "kids_of (xs @ ?c # ?p # ys) Z r = kids_of (xs @ p # ys) Z r + (if r = path p then 1 else 0)" for r
    by (simp add: kids_of_def child_of_def)
  let ?ps = "xs @ p # ys"
  have "path p @ [nfork p] \<notin> path ` set ?ps" 
    using sh_inv_fresh [OF i, of _ "[]"] by (force simp: image_iff dest: sym)
  then have "distinct (map path (xs @ ?c # ?p # ys))" using i by (auto simp: sh_inv_def)
  moreover have "balanced (kids_of (xs @ ?c # ?p # ys) Z (path r)) (prog_of r)" if m: "r \<in> set (xs @ ?c # ?p # ys)" for r
  proof -
    have b: "balanced 0 c" "balanced (Suc (kids_of ?ps Z (path p))) q" using sh_inv_balanced [OF i, of p] f by auto
    consider "r = ?c" | "r = ?p" | "r \<in> set xs \<union> set ys" using m by auto
    then show ?thesis
    proof cases
      case 1
      then show ?thesis using balanced_mono [OF b(1)] by simp
    next
      case 2
      then show ?thesis using b(2) k [of "path p"] by simp
    next
      case 3
      then show ?thesis using sh_inv_balanced [OF i, of r] k [of "path r"] sh_inv_other [OF i 3] by auto
    qed
  qed
  moreover have "j < nfork r" if "r \<in> set (xs @ ?c # ?p # ys)" "s \<in> set (xs @ ?c # ?p # ys)" "path s = path r @ j # w" for r s j w
    using that by (rule below_fork [OF i])
  ultimately show ?thesis unfolding sh_inv_def by blast
qed

lemma next_cases:
  assumes "\<not> is_wait (prog_of p)"
  obtains (exit) n where "prog_of p = SExit n" "next_procs op ch p = []" "exited p = {#path p#}"
    | (fork) c q q' where "prog_of p = SFork c q q'" "exited p = {#}"
        "next_procs op ch p = [p\<lparr>path := path p @ [nfork p], nfork := 0, prog_of := c\<rparr>, p\<lparr>nfork := Suc (nfork p), prog_of := q\<rparr>]"
    | (same) p' where "next_procs op ch p = [p']" "exited p = {#}" "path p' = path p" "nfork p' = nfork p"
        "\<And>n. balanced n (prog_of p) \<Longrightarrow> balanced n (prog_of p')"
proof (cases "prog_of p")
  case (SOpen f m q q')
  then show ?thesis using same
    by (cases "if ch = Fails then None else open_fd op (fdt p) f m") (auto simp: next_procs_def exited_def)
next
  case (SPipe q q')
  then show ?thesis using same
    by (cases "if ch = Fails then None else pipe_fd (path p) (fdt p)") (auto simp: next_procs_def exited_def)
next
  case (SExec argv q)
  then show ?thesis using same by (cases ch) (auto simp: next_procs_def exited_def)
next
  case (SRun n)
  then show ?thesis using same by (cases n) (auto simp: next_procs_def exited_def)
next
  case (SFork c q q')
  then show ?thesis using same fork by (cases "ch = Fails") (auto simp: next_procs_def exited_def)
qed (use assms exit same in \<open>auto simp: next_procs_def exited_def is_wait_def\<close>)

lemma inv_run:
  assumes "sh_inv (xs @ p # ys) Z" "\<not> is_wait (prog_of p)"
  shows "sh_inv (xs @ next_procs op ch p @ ys) (Z + exited p)"
proof (rule next_cases [OF assms(2), of op ch])
  fix n assume "prog_of p = SExit n" "next_procs op ch p = []" "exited p = {#path p#}"
  then show ?thesis using inv_exit assms by auto
next
  fix c q q' assume "prog_of p = SFork c q q'" "exited p = {#}"
    "next_procs op ch p = [p\<lparr>path := path p @ [nfork p], nfork := 0, prog_of := c\<rparr>, p\<lparr>nfork := Suc (nfork p), prog_of := q\<rparr>]"
  then show ?thesis using inv_fork assms by auto
next
  fix p' assume "next_procs op ch p = [p']" "exited p = {#}" "path p' = path p" "nfork p' = nfork p"
    "\<And>n. balanced n (prog_of p) \<Longrightarrow> balanced n (prog_of p')"
  then show ?thesis using inv_same [of xs p ys Z p'] sh_inv_balanced [OF assms(1), of p] assms by auto
qed

text \<open>All that holds of a configuration of a line that asks for the commands \<open>S\<close>.\<close>

definition conf_inv :: "(uchar list \<Rightarrow> nat \<Rightarrow> bool) \<Rightarrow> event multiset \<Rightarrow> shconf \<Rightarrow> bool" where
  "conf_inv op S g = (case g of (ps, Z, E, F, M) \<Rightarrow>
     sh_inv ps Z \<and> (\<forall>p \<in> set ps. allowed (prog_of p)) \<and>
     (\<exists>L. E + (\<Sum>p\<leftarrow>ps. pend_of op p) + L = S \<and> ((\<forall>k \<in># F. expected op k) \<longrightarrow> L = {#})) \<and>
     M + (\<Sum>p\<leftarrow>ps. printed p) = image_mset report F \<and> NoChild \<notin># F)"

lemma failed_child: "NoChild \<notin># failed op ch p"
  by (auto simp: failed_def split: prog.splits)

lemma conf_inv_step: "sh_step op g g' \<Longrightarrow> conf_inv op S g \<Longrightarrow> conf_inv op S g'"
proof (induction rule: sh_step.induct)
  case (run p xs ys Z E F M ch)
  then have i: "sh_inv (xs @ p # ys) Z" "\<forall>r \<in> set (xs @ p # ys). allowed (prog_of r)" "NoChild \<notin># F"
    "M + (\<Sum>p\<leftarrow>xs @ p # ys. printed p) = image_mset report F" by (simp_all add: conf_inv_def)
  obtain L where L: "E + (\<Sum>p\<leftarrow>xs @ p # ys. pend_of op p) + L = S" "(\<forall>k \<in># F. expected op k) \<longrightarrow> L = {#}"
    using run(2) by (auto simp: conf_inv_def)
  have a: "allowed (prog_of p)" using i(2) by simp
  obtain K where K: "(\<Sum>r\<leftarrow>next_procs op ch p. pend_of op r) + started ch p + K = pend_of op p"
    "(\<forall>k \<in># failed op ch p. expected op k) \<longrightarrow> K = {#}"
    and n: "\<forall>r \<in> set (next_procs op ch p). allowed (prog_of r)"
    "(\<Sum>r\<leftarrow>next_procs op ch p. printed r) = image_mset report (failed op ch p)"
    using run_allowed [OF a run(1), of op ch] by blast
  have "(E + started ch p) + (\<Sum>p\<leftarrow>xs @ next_procs op ch p @ ys. pend_of op p) + (L + K) = S"
    using L(1) K(1) [symmetric] by (simp add: ac_simps)
  moreover have "(\<forall>k \<in># F + failed op ch p. expected op k) \<longrightarrow> L + K = {#}" using L(2) K(2) by auto
  moreover have "(M + printed p) + (\<Sum>p\<leftarrow>xs @ next_procs op ch p @ ys. printed p) = image_mset report (F + failed op ch p)"
    using i(4) [symmetric] n(2) by (simp add: ac_simps)
  ultimately show ?case using inv_run [OF i(1) run(1), of op ch] i(2,3) n(1) failed_child [of op ch p]
    by (auto simp: conf_inv_def)
next
  case (wait p b q j Z xs ys E F M)
  then have a: "allowed q" "printed p = {#}" "pend_of op (p\<lparr>prog_of := q\<rparr>) = pend_of op p"
    by (auto simp: conf_inv_def allowed_def printed_def pend_of_def)
  have "printed (p\<lparr>prog_of := q\<rparr>) = {#}" using wait by (intro good_printed) (auto simp: conf_inv_def allowed_def)
  then show ?case using wait a inv_wait [of xs p ys Z b q j] by (auto simp: conf_inv_def)
next
  case (wait_none p b q xs ys Z E F M)
  then have "balanced (kids_of (xs @ p # ys) Z (path p)) (prog_of p)" by (simp add: conf_inv_def sh_inv_def)
  then show ?case using wait_none by simp
qed

fun weight :: "prog \<Rightarrow> nat" where
  "weight (SExit x) = 1"
| "weight (SExec argv r) = Suc (Suc (weight r))"
| "weight (SRun n) = 2"
| "weight (SClose a r) = Suc (weight r)"
| "weight (SDup a r) = Suc (weight r)"
| "weight (SOpen f m r r') = Suc (weight r + weight r')"
| "weight (SPipe r r') = Suc (weight r + weight r')"
| "weight (SFork c r r') = Suc (weight c + weight r + weight r')"
| "weight (SWait b r) = Suc (weight r)"
| "weight (SPrintf b r) = Suc (weight r)"
| "weight (SFprintf x b r) = Suc (weight r)"

lemma weight_pos: "0 < weight q"
  by (cases q) simp_all

definition steps_left :: "shproc \<Rightarrow> nat" where
  "steps_left p = (case prog_of p of SRun n \<Rightarrow> n | _ \<Rightarrow> 0)"

lemma weight_next:
  assumes "\<not> is_wait (prog_of p)"
  shows "(\<Sum>r\<leftarrow>next_procs op ch p. weight (prog_of r)) < weight (prog_of p) \<or>
    (\<Sum>r\<leftarrow>next_procs op ch p. weight (prog_of r)) = weight (prog_of p) \<and> (\<Sum>r\<leftarrow>next_procs op ch p. steps_left r) < steps_left p"
proof (cases "prog_of p")
  case (SRun n)
  then show ?thesis by (cases n) (simp_all add: next_procs_def steps_left_def)
next
  case (SExec argv q)
  then show ?thesis using weight_pos [of q] by (cases ch) (simp_all add: next_procs_def)
qed (use assms in \<open>auto simp: next_procs_def is_wait_def weight_pos split: option.splits\<close>)

definition sh_order :: "(shconf \<times> shconf) set" where
  "sh_order = measures [\<lambda>g. \<Sum>p\<leftarrow>fst g. weight (prog_of p), \<lambda>g. \<Sum>p\<leftarrow>fst g. steps_left p]"

lemma step_order: "sh_step op g g' \<Longrightarrow> (g', g) \<in> sh_order"
proof (induction rule: sh_step.induct)
  case (run p xs ys Z E F M ch)
  then show ?case using weight_next [of p op ch] by (auto simp: sh_order_def)
qed (simp_all add: sh_order_def)

lemma sh_run_inv:
  assumes "(sh_step op)\<^sup>*\<^sup>* (sh_start c (std i u e)) g" "redirs_std c"
  shows "conf_inv op (stages op c [] 0 i u e) g"
  using assms(1)
proof (induction rule: rtranclp_induct)
  case base
  show ?case using sh_inv_start [of c] pend_runcmd [OF assms(2)] good_runcmd [of c]
    by (simp add: sh_start_def pend_of_def conf_inv_def allowed_def good_printed)
next
  case (step g g')
  then show ?case using conf_inv_step by blast
qed

text \<open>
  C10. For every command, every order in which the processes of the shell run, and every failure of
  \<^verbatim>\<open>fork\<close>, \<^verbatim>\<open>exec\<close>, \<^verbatim>\<open>open\<close> and \<^verbatim>\<open>pipe\<close>, if every command that is started ends after some number of steps: as long
  as a process is left, one of them can make a step, so none waits for ever, and none waits without a
  child; every run is finite. Only commands of the line are started, each at most once and with exactly
  three open descriptors, where input and output are the ends of the pipe of its pipeline, or the file of
  its innermost redirection, or those of the shell, so no end of a pipe stays open in a command that
  does not use it. At the end the messages on descriptor 2 report exactly the failures; if the only
  failures are those of files that cannot be opened, all commands of the line were started.
\<close>

theorem runcmd_completes:
  assumes "redirs_std c" "(sh_step op)\<^sup>*\<^sup>* (sh_start c (std i u e)) g"
  shows "case g of (ps, Z, E, F, M) \<Rightarrow>
      (ps \<noteq> [] \<longrightarrow> (\<exists>g'. sh_step op g g')) \<and> (\<nexists>f. f 0 = g \<and> (\<forall>n. sh_step op (f n) (f (Suc n)))) \<and>
      E \<subseteq># stages op c [] 0 i u e \<and> NoChild \<notin># F \<and>
      (ps = [] \<longrightarrow> M = image_mset (\<lambda>k. (2, complaint k)) F \<and> ((\<forall>k \<in># F. expected op k) \<longrightarrow> E = stages op c [] 0 i u e))"
proof -
  obtain ps Z E F M where g: "g = (ps, Z, E, F, M)" by (cases g)
  have I: "conf_inv op (stages op c [] 0 i u e) (ps, Z, E, F, M)" using sh_run_inv [OF assms(2,1)] by (simp add: g)
  then have p: "ps \<noteq> [] \<longrightarrow> (\<exists>g'. sh_step op g g')" using sh_progress by (auto simp: g conf_inv_def)
  have w: "\<nexists>f. f 0 = g \<and> (\<forall>n. sh_step op (f n) (f (Suc n)))"
  proof
    assume "\<exists>f. f 0 = g \<and> (\<forall>n. sh_step op (f n) (f (Suc n)))"
    then obtain f where "\<And>n. sh_step op (f n) (f (Suc n))" by blast
    then have "\<exists>f. \<forall>n. (f (Suc n), f n) \<in> sh_order" using step_order by blast
    moreover have "wf sh_order" by (simp add: sh_order_def)
    ultimately show False by (simp add: wf_iff_no_infinite_down_chain)
  qed
  obtain L where L: "E + (\<Sum>p\<leftarrow>ps. pend_of op p) + L = stages op c [] 0 i u e" "(\<forall>k \<in># F. expected op k) \<longrightarrow> L = {#}"
    using I by (auto simp: conf_inv_def)
  have "E \<subseteq># stages op c [] 0 i u e" unfolding L(1) [symmetric] by (simp add: add.assoc)
  moreover have "image_mset report F = image_mset (\<lambda>k. (2, complaint k)) F" by (simp add: report_def [abs_def])
  ultimately show ?thesis using I p w L by (auto simp: g conf_inv_def)
qed

text \<open>The line \<^verbatim>\<open>a | b > f\<close>.\<close>

definition line_ab :: "uchar list cmd" where
  "line_ab = PIPE (EXEC [bytes ''a'']) (REDIR (EXEC [bytes ''b'']) (bytes ''f'') 0x601 1)"

theorem runcmd_completes_witness:
  "redirs_std line_ab \<and>
   stages (\<lambda>_ _. True) line_ab [] 0 (FOther 0) (FOther 1) (FOther 2) =
     {#([0], [bytes ''a''], std (FOther 0) (FPipeW []) (FOther 2)),
       ([1], [bytes ''b''], std (FPipeR []) (FFile (bytes ''f'') 0x601) (FOther 2))#} \<and>
   (\<exists>g'. sh_step (\<lambda>_ _. True) (sh_start line_ab (std (FOther 0) (FOther 1) (FOther 2))) g') \<and>
   (\<exists>M. (sh_step (\<lambda>_ _. True))\<^sup>*\<^sup>* (sh_start line_ab (std (FOther 0) (FOther 1) (FOther 2)))
      ([], {#[]#}, {#}, {#PipeFailed#}, M) \<and> M = {#(2, bytes ''pipe'' @ [10])#})"
proof -
  let ?op = "\<lambda>_ _. True" and ?T = "std (FOther 0) (FOther 1) (FOther 2)"
  have r: "redirs_std line_ab" by (simp add: line_ab_def)
  have s: "fst (sh_start line_ab ?T) \<noteq> []" by (simp add: sh_start_def)
  have "\<exists>g'. sh_step ?op (sh_start line_ab ?T) g'"
    using runcmd_completes [OF r rtranclp.rtrancl_refl, of ?op "FOther 0" "FOther 1" "FOther 2"] s
    by (cases "sh_start line_ab ?T") simp
  moreover have "\<exists>M. (sh_step ?op)\<^sup>*\<^sup>* (sh_start line_ab ?T) ([], {#[]#}, {#}, {#PipeFailed#}, M)"
  proof -
    let ?p = "\<lambda>q. \<lparr>path = [], nfork = 0, prog_of = q, fdt = ?T, pvar = (0, 0)\<rparr>"
    have "sh_step ?op (sh_start line_ab ?T) ([?p (sh_panic ''pipe'')], {#}, {#}, {#PipeFailed#}, {#})"
      using run [of "?p (runcmd line_ab)" ?op "[]" "[]" "{#}" "{#}" "{#}" "{#}" Fails]
      by (simp add: sh_start_def line_ab_def is_wait_def next_procs_def exited_def started_def failed_def printed_def)
    moreover have "sh_step ?op ([?p (sh_panic ''pipe'')], {#}, {#}, {#PipeFailed#}, {#}) ([?p (SExit 1)], {#}, {#}, {#PipeFailed#}, {#(2, bytes ''pipe'' @ [10])#})"
      using run [of "?p (sh_panic ''pipe'')" ?op "[]" "[]" "{#}" "{#}" "{#PipeFailed#}" "{#}" Fails]
      by (simp add: sh_panic_def is_wait_def next_procs_def exited_def started_def failed_def printed_def)
    moreover have "sh_step ?op ([?p (SExit 1)], {#}, {#}, {#PipeFailed#}, {#(2, bytes ''pipe'' @ [10])#}) ([], {#[]#}, {#}, {#PipeFailed#}, {#(2, bytes ''pipe'' @ [10])#})"
      using run [of "?p (SExit 1)" ?op "[]" "[]" "{#}" "{#}" "{#PipeFailed#}" "{#(2, bytes ''pipe'' @ [10])#}" Fails]
      by (simp add: is_wait_def next_procs_def exited_def started_def failed_def printed_def)
    ultimately show ?thesis by (meson converse_rtranclp_into_rtranclp r_into_rtranclp)
  qed
  then obtain M where M: "(sh_step ?op)\<^sup>*\<^sup>* (sh_start line_ab ?T) ([], {#[]#}, {#}, {#PipeFailed#}, M)" by blast
  moreover have "M = {#(2, bytes ''pipe'' @ [10])#}" using runcmd_completes [OF r M] by (simp add: complaint.simps)
  ultimately show ?thesis using r by (auto simp: line_ab_def)
qed

end
