(* ===== verification/Sh_Main.thy ===== *)
theory Sh_Main
  imports Sh_Roundtrip Sh_Run
begin

text \<open>
  The loop of \<^verbatim>\<open>main\<close> in \<^verbatim>\<open>user/sh.c\<close>, one line at a time: reading the line, the built-in \<^verbatim>\<open>cd\<close>, and the
  program of the child that runs any other line. A typed command is the one that is run.
\<close>

section \<open>One line\<close>

text \<open>\<open>rd k\<close> is the \<open>k\<close>-th byte that \<^verbatim>\<open>read\<close> returns. The prompt is not part of the state.\<close>

definition getcmd :: "(nat \<Rightarrow> uchar option) \<Rightarrow> nat \<Rightarrow> nat \<Rightarrow> (int \<times> uchar list \<times> nat) option" where
  "getcmd rd k nbuf =
     (case gets rd k (replicate nbuf 0) nbuf of
        None \<Rightarrow> None
      | Some (buf, k) \<Rightarrow> Some (if buf ! 0 = 0 then -1 else 0, buf, k))"

text \<open>
  What the shell does with a line: it changes its directory, or forks a child with a program and
  waits for it. A line that is not accepted makes the child panic; the message on left over text before
  that is not modelled.
\<close>

datatype shact = Chdir "uchar list" | Child prog

definition child_prog :: "uchar list \<Rightarrow> prog option" where
  "child_prog buf =
     (case parsecmd (cstr_at buf 0) of
        POk (c, buf) \<Rightarrow> Some (runcmd (map_cmd (\<lambda>p. cstr_at buf (fst p)) c))
      | PErr e \<Rightarrow> Some (sh_panic e)
      | PFuel \<Rightarrow> None)"

definition main_line :: "uchar list \<Rightarrow> shact option" where
  "main_line buf =
     (if take 3 buf = bytes ''cd '' then
        (case ustrlen buf of None \<Rightarrow> None | Some n \<Rightarrow> Some (Chdir (cstr_at (buf[n - 1 := 0]) 3)))
      else map_option Child (child_prog buf))"

definition SH_BUF :: nat where "SH_BUF = 100"

text \<open>Never is the shell left without an action for a line it has read.\<close>

lemma child_prog_total: "\<exists>q. child_prog buf = Some q"
  using parsecmd_yields [of "cstr_at buf 0"] by (cases "parsecmd (cstr_at buf 0)") (auto simp: child_prog_def)

lemma cstr_at_zero: "0 \<notin> set l \<Longrightarrow> cstr_at (l @ 0 # r) 0 = l"
  by (auto simp: cstr_at_def takeWhile_append takeWhile_eq_Nil_iff)

text \<open>
  C9. A typed command is run as it was typed. For every command with at most nine arguments in
  each \<^verbatim>\<open>EXEC\<close> node, whose words are free of separators and whose redirections have the three modes, and
  every way to separate the tokens of its text by whitespace that fits in the buffer and is not a \<^verbatim>\<open>cd\<close>:
  once the text is the line read, the shell forks a child whose program is that of the command itself.
  So the precedence of \<open>|\<close>, \<open>&\<close> and \<open>;\<close>, parentheses, the nesting of redirections, and the cut of the line into
  terminated strings are right.
\<close>

theorem shell_runs_line:
  assumes t: "printable t" "separators ws t" "print_cmd ws t \<noteq> []"
    and l: "input_line rd k (SH_BUF - 1) = print_cmd ws t" "take 3 (print_cmd ws t @ [0]) \<noteq> bytes ''cd ''"
  shows "\<exists>buf k'. getcmd rd k SH_BUF = Some (0, buf, k') \<and> main_line buf = Some (Child (runcmd t))"
proof -
  let ?l = "print_cmd ws t"
  obtain k' where g: "gets rd k (replicate SH_BUF 0) SH_BUF = Some (?l @ 0 # drop (Suc (length ?l)) (replicate SH_BUF 0), k')"
    using gets_line [of SH_BUF "replicate SH_BUF 0" rd k] l(1) by (auto simp: SH_BUF_def)
  let ?buf = "?l @ 0 # drop (Suc (length ?l)) (replicate SH_BUF 0)"
  have z: "0 \<notin> set ?l" by (rule print_nonzero [OF t(1,2)])
  then have "?buf ! 0 \<noteq> 0" using t(3) by (cases ?l) auto
  then have "getcmd rd k SH_BUF = Some (0, ?buf, k')" using g by (simp add: getcmd_def)
  moreover obtain c b where "parsecmd ?l = POk (c, b)" "map_cmd (\<lambda>p. cstr_at b (fst p)) c = t"
    using parse_print [OF t(1,2)] by blast
  then have "child_prog ?buf = Some (runcmd t)" using cstr_at_zero [OF z] by (simp add: child_prog_def)
  moreover have "take 3 ?buf \<noteq> bytes ''cd ''"
  proof (cases "length ?l < 3")
    case True
    then have "0 \<in> set (take 3 ?buf)" by (simp add: take_Cons')
    moreover have "0 \<notin> set (bytes ''cd '')" by (simp add: bytes_def)
    ultimately show ?thesis by metis
  next
    case False
    then show ?thesis using l(2) by simp
  qed
  ultimately show ?thesis by (auto simp: main_line_def)
qed

theorem shell_runs_line_witness:
  "\<exists>buf k'. getcmd (\<lambda>k. Some (if k = 0 then 97 else 10)) 0 SH_BUF = Some (0, buf, k') \<and>
     main_line buf = Some (Child (runcmd (EXEC [bytes ''a''])))"
proof -
  let ?rd = "\<lambda>k :: nat. Some (if k = 0 then 97 else (10 :: uchar))"
  let ?t = "EXEC [bytes ''a'']"
  have p: "printable ?t"
    by (simp add: MAXARGS_def word_text_def word_char_def whitespace_def symbols_def bytes_def)
  have s: "separators [10] ?t" by (simp add: separators_def whitespace_def)
  have e: "print_cmd [10] ?t = [97, 10]" by (simp add: print_cmd_def bytes_def)
  have r: "input_line ?rd 0 (Suc n) = 97 # input_line ?rd (Suc 0) n" "input_line ?rd (Suc 0) (Suc n) = [10]" for n by simp_all
  have "input_line ?rd 0 (Suc (Suc 97)) = [97, 10]" by (simp only: r)
  then have i: "input_line ?rd 0 (SH_BUF - 1) = print_cmd [10] ?t" unfolding e by (simp add: SH_BUF_def)
  show ?thesis by (rule shell_runs_line [OF p s _ i], unfold e) (simp_all add: bytes_def)
qed

end
