(* ===== verification/Mkfs.thy ===== *)
theory Mkfs
  imports Fs_Blocks "HOL-Library.Monad_Syntax"
begin

text \<open>
  \<^verbatim>\<open>mkfs/mkfs.c\<close>, the program that builds the file system image on the host. The image is a function
  from sectors to their bytes; \<^verbatim>\<open>die\<close> and a failed assertion are \<open>None\<close>. The file of the image has
  \<^verbatim>\<open>FSSIZE\<close> sectors, since only sectors read before are written later, and a read beyond them fails; the
  other system calls of the host are taken to succeed. Counters are natural numbers, which is enough as
  every block allocated is read.
\<close>

section \<open>Layout\<close>

definition NINODES :: nat where "NINODES = 200"

definition nbitmap :: nat where "nbitmap = FSSIZE div (BSIZE * 8) + 1"
definition ninodeblocks :: nat where "ninodeblocks = NINODES div IPB + 1"
definition nlog :: nat where "nlog = LOGSIZE"
definition nmeta :: nat where "nmeta = 2 + nlog + ninodeblocks + nbitmap"
definition nblocks :: nat where "nblocks = FSSIZE - nmeta"

definition inodestart :: nat where "inodestart = 2 + nlog"
definition bmapstart :: nat where "bmapstart = 2 + nlog + ninodeblocks"

definition mkfs_sb :: superblock where
  "mkfs_sb = \<lparr>sb_magic = FSMAGIC, sb_size = of_nat FSSIZE, sb_nblocks = of_nat nblocks, sb_ninodes = of_nat NINODES,
     sb_nlog = of_nat nlog, sb_logstart = 2, sb_inodestart = of_nat inodestart, sb_bmapstart = of_nat bmapstart\<rparr>"

definition sb_bytes :: "superblock \<Rightarrow> uchar list" where
  "sb_bytes b = concat (map (le_bytes 4) [sb_magic b, sb_size b, sb_nblocks b, sb_ninodes b, sb_nlog b, sb_logstart b,
     sb_inodestart b, sb_bmapstart b])"

record mkstate =
  img :: "nat \<Rightarrow> block"
  freeinode :: nat
  freeblock :: nat

definition zeroes :: block where "zeroes = replicate BSIZE 0"

section \<open>Operations\<close>

definition wsect :: "nat \<Rightarrow> block \<Rightarrow> mkstate \<Rightarrow> mkstate" where
  "wsect sec buf st = st\<lparr>img := (img st)(sec := buf)\<rparr>"

definition rsect :: "nat \<Rightarrow> mkstate \<Rightarrow> block option" where
  "rsect sec st = (if sec < FSSIZE then Some (img st sec) else None)"

definition winode :: "nat \<Rightarrow> dinode \<Rightarrow> mkstate \<Rightarrow> mkstate option" where
  "winode inum ip st =
     (let bn = inum div IPB + inodestart in do {
        buf \<leftarrow> rsect bn st;
        Some (wsect bn (put_dinode buf (inum mod IPB * 64) ip) st)
      })"

definition rinode :: "nat \<Rightarrow> mkstate \<Rightarrow> dinode option" where
  "rinode inum st =
     (let bn = inum div IPB + inodestart in do {
        buf \<leftarrow> rsect bn st;
        Some (get_dinode buf (inum mod IPB * 64))
      })"

definition m_ialloc :: "ushort \<Rightarrow> mkstate \<Rightarrow> (nat \<times> mkstate) option" where
  "m_ialloc type st =
     (let inum = freeinode st; st = st\<lparr>freeinode := freeinode st + 1\<rparr>;
          din = \<lparr>d_type = type, d_major = 0, d_minor = 0, d_nlink = 1, d_size = 0, d_addrs = replicate (NDIRECT + 1) 0\<rparr>
      in do {
        st \<leftarrow> winode inum din st;
        Some (inum, st)
      })"

definition m_balloc :: "nat \<Rightarrow> mkstate \<Rightarrow> mkstate option" where
  "m_balloc used st =
     (if used < BSIZE * 8 then
        let buf = fold (\<lambda>i buf. buf[i div 8 := buf ! (i div 8) OR bit_mask i]) [0..<used] (replicate BSIZE 0)
        in Some (wsect bmapstart buf st)
      else None)"

text \<open>The block \<^verbatim>\<open>x\<close> of \<^verbatim>\<open>iappend\<close> for file block \<open>fbn\<close>, allocated if need be.\<close>

definition iappend_block :: "nat \<Rightarrow> dinode \<Rightarrow> mkstate \<Rightarrow> (nat \<times> dinode \<times> mkstate) option" where
  "iappend_block fbn din st =
     (if fbn < NDIRECT then
        let (din, st) =
          (if d_addrs din ! fbn = 0
           then (din\<lparr>d_addrs := (d_addrs din)[fbn := of_nat (freeblock st)]\<rparr>, st\<lparr>freeblock := freeblock st + 1\<rparr>)
           else (din, st))
        in Some (unat (d_addrs din ! fbn), din, st)
      else
        let (din, st) =
          (if d_addrs din ! NDIRECT = 0
           then (din\<lparr>d_addrs := (d_addrs din)[NDIRECT := of_nat (freeblock st)]\<rparr>, st\<lparr>freeblock := freeblock st + 1\<rparr>)
           else (din, st));
          ind = unat (d_addrs din ! NDIRECT); j = 4 * (fbn - NDIRECT)
        in do {
          indirect \<leftarrow> rsect ind st;
          let (indirect, st) =
            (if get32 indirect j = 0
             then let indirect = put32 indirect j (of_nat (freeblock st))
                  in (indirect, wsect ind indirect (st\<lparr>freeblock := freeblock st + 1\<rparr>))
             else (indirect, st));
          Some (unat (get32 indirect j), din, st)
        })"

text \<open>The loop over the pieces of \<open>p\<close>, each within one block.\<close>

function iappend_loop :: "uchar list \<Rightarrow> dinode \<Rightarrow> nat \<Rightarrow> mkstate \<Rightarrow> (dinode \<times> nat \<times> mkstate) option" where
  "iappend_loop p din off st =
     (if p = [] then Some (din, off, st)
      else let fbn = off div BSIZE; n1 = min (length p) ((fbn + 1) * BSIZE - off) in
        if \<not> fbn < MAXFILE then None
        else case iappend_block fbn din st of
          None \<Rightarrow> None
        | Some (x, din, st) \<Rightarrow>
            (case rsect x st of
               None \<Rightarrow> None
             | Some buf \<Rightarrow>
                 iappend_loop (drop n1 p) din (off + n1) (wsect x (put_bytes buf (off - fbn * BSIZE) (take n1 p)) st)))"
  by pat_completeness auto

termination
proof (relation "measure (\<lambda>(p, _). length p)", goal_cases)
  case (2 p din off st)
  have "off < (off div BSIZE + 1) * BSIZE" by (simp add: BSIZE_def)
  then show ?case using 2 by (auto simp: min_def)
qed simp

declare iappend_loop.simps [simp del]

definition iappend :: "nat \<Rightarrow> uchar list \<Rightarrow> mkstate \<Rightarrow> mkstate option" where
  "iappend inum p st = do {
     din \<leftarrow> rinode inum st;
     (din, off, st) \<leftarrow> iappend_loop p din (unat (d_size din)) st;
     winode inum (din\<lparr>d_size := of_nat off\<rparr>) st
   }"

text \<open>The directory entry with \<open>name\<close> copied by \<^verbatim>\<open>strncpy\<close> with bound \<^verbatim>\<open>DIRSIZ\<close>.\<close>

definition mk_dirent :: "nat \<Rightarrow> uchar list \<Rightarrow> uchar list" where
  "mk_dirent inum name = le_bytes 2 (of_nat inum :: ushort) @ take DIRSIZ (name @ replicate DIRSIZ 0)"

definition shortname :: "uchar list \<Rightarrow> uchar list" where
  "shortname arg = (if take 5 arg = bytes ''user/'' then drop 5 arg else arg)"

definition skip_underscore :: "uchar list \<Rightarrow> uchar list" where
  "skip_underscore s = (case s of c # r \<Rightarrow> if c = of_char CHR ''_'' then r else s | [] \<Rightarrow> s)"

fun append_chunks :: "nat \<Rightarrow> uchar list list \<Rightarrow> mkstate \<Rightarrow> mkstate option" where
  "append_chunks inum [] st = Some st"
| "append_chunks inum (c # cs) st = do {
     st \<leftarrow> iappend inum c st;
     append_chunks inum cs st
   }"

text \<open>One file of the command line: its name and the bytes each \<^verbatim>\<open>read\<close> returned.\<close>

definition add_file :: "nat \<Rightarrow> uchar list \<times> uchar list list \<Rightarrow> mkstate \<Rightarrow> mkstate option" where
  "add_file rootino f st =
     (let s = shortname (fst f) in
      if of_char CHR ''/'' \<in> set s then None
      else do {
        (inum, st) \<leftarrow> m_ialloc T_FILE st;
        st \<leftarrow> iappend rootino (mk_dirent inum (skip_underscore s)) st;
        append_chunks inum (snd f) st
      })"

fun add_files :: "nat \<Rightarrow> (uchar list \<times> uchar list list) list \<Rightarrow> mkstate \<Rightarrow> mkstate option" where
  "add_files rootino [] st = Some st"
| "add_files rootino (f # fs) st = do {
     st \<leftarrow> add_file rootino f st;
     add_files rootino fs st
   }"

definition mkfs_start :: mkstate where
  "mkfs_start = wsect 1 (put_bytes zeroes 0 (sb_bytes mkfs_sb)) \<lparr>img = (\<lambda>_. zeroes), freeinode = 1, freeblock = nmeta\<rparr>"

definition fix_root :: "nat \<Rightarrow> mkstate \<Rightarrow> mkstate option" where
  "fix_root rootino st = do {
     din \<leftarrow> rinode rootino st;
     let off = (unat (d_size din) div BSIZE + 1) * BSIZE;
     winode rootino (din\<lparr>d_size := of_nat off\<rparr>) st
   }"

definition mkfs_main :: "(uchar list \<times> uchar list list) list \<Rightarrow> mkstate option" where
  "mkfs_main args = do {
     (rootino, st) \<leftarrow> m_ialloc T_DIR mkfs_start;
     if rootino \<noteq> 1 then None
     else do {
       st \<leftarrow> iappend rootino (mk_dirent rootino (bytes ''.'')) st;
       st \<leftarrow> iappend rootino (mk_dirent rootino (bytes ''..'')) st;
       st \<leftarrow> add_files rootino args st;
       st \<leftarrow> fix_root rootino st;
       m_balloc (freeblock st) st
     }
   }"

end
