(* ===== verification/Mkfs_Image.thy ===== *)
theory Mkfs_Image
  imports Mkfs
begin

text \<open>
  The image \<^verbatim>\<open>mkfs\<close> builds holds the files it was given, in the format the kernel reads.
\<close>

section \<open>Blocks of a file\<close>

text \<open>A file as its address array and the number of its blocks; block numbers as the kernel's \<^verbatim>\<open>bmap\<close> finds them.\<close>

type_synonym node = "uint list \<times> nat"

definition ind :: "uint list \<Rightarrow> nat" where
  "ind a = unat (a ! NDIRECT)"

definition adr :: "(nat \<Rightarrow> block) \<Rightarrow> uint list \<Rightarrow> nat \<Rightarrow> nat" where
  "adr V a f = unat (if f < NDIRECT then a ! f else get32 (V (ind a)) (4 * (f - NDIRECT)))"

definition blks :: "(nat \<Rightarrow> block) \<Rightarrow> node \<Rightarrow> nat list" where
  "blks V N = (case N of (a, n) \<Rightarrow> (if NDIRECT < n then [ind a] else []) @ map (adr V a) [0..<n])"

definition dat :: "(nat \<Rightarrow> block) \<Rightarrow> node \<Rightarrow> uchar list" where
  "dat V N = (case N of (a, n) \<Rightarrow> concat (map (\<lambda>f. V (adr V a f)) [0..<n]))"

text \<open>The entries after the last block are zero.\<close>

definition cut_ok :: "(nat \<Rightarrow> block) \<Rightarrow> node \<Rightarrow> bool" where
  "cut_ok V N \<longleftrightarrow> (case N of (a, n) \<Rightarrow>
     length a = NDIRECT + 1 \<and> n \<le> MAXFILE \<and> (\<forall>f < NDIRECT. n \<le> f \<longrightarrow> a ! f = 0) \<and> (n \<le> NDIRECT \<longrightarrow> a ! NDIRECT = 0) \<and>
     (NDIRECT < n \<longrightarrow> (\<forall>f < MAXFILE. n \<le> f \<longrightarrow> get32 (V (ind a)) (4 * (f - NDIRECT)) = 0)))"

definition finv :: "(nat \<Rightarrow> block) \<Rightarrow> nat \<Rightarrow> node list \<Rightarrow> bool" where
  "finv V fb ns \<longleftrightarrow>
     (\<forall>b. length (V b) = BSIZE) \<and> (\<forall>b \<ge> fb. V b = zeroes) \<and> fb \<le> FSSIZE \<and> nmeta \<le> fb \<and>
     (\<forall>N \<in> set ns. cut_ok V N) \<and> distinct (concat (map (blks V) ns)) \<and>
     (\<forall>N \<in> set ns. set (blks V N) \<subseteq> {nmeta..<fb}) \<and> fb = nmeta + length (concat (map (blks V) ns))"

lemma finvD:
  assumes "finv V fb ns"
  shows "length (V b) = BSIZE" "fb \<le> b \<Longrightarrow> V b = zeroes" "fb \<le> FSSIZE" "nmeta \<le> fb" "N \<in> set ns \<Longrightarrow> cut_ok V N"
  using assms by (auto simp: finv_def)

lemma finv_range: "\<lbrakk>finv V fb ns; N \<in> set ns; x \<in> set (blks V N)\<rbrakk> \<Longrightarrow> nmeta \<le> x \<and> x < fb"
  unfolding finv_def by (meson atLeastLessThan_iff subsetD)

lemma finv_cong:
  assumes "finv V fb ns" "\<forall>M \<in> set ns. blks V' M = blks V M \<and> cut_ok V' M"
    "\<forall>b. length (V' b) = BSIZE" "\<forall>b \<ge> fb. V' b = zeroes"
  shows "finv V' fb ns"
proof -
  have m: "map (blks V') ns = map (blks V) ns" using assms(2) by simp
  have f: "fb \<le> FSSIZE" "nmeta \<le> fb" "distinct (concat (map (blks V) ns))" "\<forall>N \<in> set ns. set (blks V N) \<subseteq> {nmeta..<fb}"
    "fb = nmeta + length (concat (map (blks V) ns))" using assms(1) unfolding finv_def by blast+
  have "\<forall>N \<in> set ns. set (blks V' N) \<subseteq> {nmeta..<fb}" using f(4) assms(2) by simp
  then show ?thesis unfolding finv_def m using f assms(2-4) by blast
qed

lemma finv_distinct:
  "finv V fb (N # ns) \<Longrightarrow> distinct (blks V N) \<and> (\<forall>M \<in> set ns. set (blks V N) \<inter> set (blks V M) = {})"
  by (auto simp: finv_def)

lemma finv_move: "finv V fb (xs @ N # ys) \<longleftrightarrow> finv V fb (N # xs @ ys)"
  by (auto simp: finv_def)

text \<open>What a node is depends only on its blocks.\<close>

lemma adr_cong: "(NDIRECT \<le> f \<Longrightarrow> V' (ind a) = V (ind a)) \<Longrightarrow> adr V' a f = adr V a f"
  by (simp add: adr_def)

lemma node_cong:
  assumes "\<forall>b \<in> set (blks V N). V' b = V b"
  shows "blks V' N = blks V N" "dat V' N = dat V N" "cut_ok V' N = cut_ok V N"
proof -
  obtain a n where N: "N = (a, n)" by fastforce
  have i: "NDIRECT < n \<Longrightarrow> V' (ind a) = V (ind a)" using assms by (auto simp: N blks_def)
  have a: "adr V' a f = adr V a f" if "f < n" for f using that i by (intro adr_cong) auto
  then show "blks V' N = blks V N" by (simp add: N blks_def)
  have "V' (adr V a f) = V (adr V a f)" if "f < n" for f using that assms by (auto simp: N blks_def)
  then have "map (\<lambda>f. V' (adr V' a f)) [0..<n] = map (\<lambda>f. V (adr V a f)) [0..<n]" using a by simp
  then show "dat V' N = dat V N" by (simp only: N dat_def prod.case)
  show "cut_ok V' N = cut_ok V N" using i by (auto simp: N cut_ok_def)
qed

lemma dat_eqI: "(\<And>f. f < n \<Longrightarrow> V' (adr V' a' f) = V (adr V a f)) \<Longrightarrow> dat V' (a', n) = dat V (a, n)"
  unfolding dat_def prod.case by (intro arg_cong [of _ _ concat] map_cong) auto

text \<open>Only the data of one file changes when one of its data blocks is written.\<close>

lemma data_cong:
  assumes i: "finv V fb (N # ns)" and N: "N = (a, n)" and k: "k < n" and l: "length b = BSIZE"
  defines "V' \<equiv> V(adr V a k := b)"
  shows "finv V' fb (N # ns)" "\<And>M. M \<in> set ns \<Longrightarrow> dat V' M = dat V M" "\<And>f. f < n \<Longrightarrow> adr V' a f = adr V a f"
    "\<And>f. f < n \<Longrightarrow> f \<noteq> k \<Longrightarrow> V' (adr V a f) = V (adr V a f)"
proof -
  let ?x = "adr V a k"
  have x: "?x \<in> set (blks V N)" using k by (auto simp: N blks_def)
  then have xfb: "?x < fb" "nmeta \<le> ?x" using finv_range [OF i _ x] by simp_all
  have d: "distinct (blks V N)" "M \<in> set ns \<Longrightarrow> set (blks V N) \<inter> set (blks V M) = {}" for M
    using finv_distinct [OF i] by auto
  have M: "\<forall>b \<in> set (blks V M). V' b = V b" if "M \<in> set ns" for M using d(2) [OF that] x by (auto simp: V'_def)
  note c = node_cong [OF M]
  have ni: "NDIRECT < n \<Longrightarrow> ind a \<noteq> ?x" using d(1) k by (auto simp: N blks_def)
  show a: "adr V' a f = adr V a f" if "f < n" for f using that ni by (intro adr_cong) (auto simp: V'_def)
  have bN: "blks V' N = blks V N" using a by (simp add: N blks_def)
  have cN: "cut_ok V' N = cut_ok V N" using ni by (auto simp: N cut_ok_def V'_def)
  have z: "V' y = zeroes" if "fb \<le> y" for y using that xfb finvD(2) [OF i] by (auto simp: V'_def)
  show "finv V' fb (N # ns)"
  proof (rule finv_cong [OF i])
    show "\<forall>M \<in> set (N # ns). blks V' M = blks V M \<and> cut_ok V' M" using c(1,3) bN cN finvD(5) [OF i] by simp
    show "\<forall>b. length (V' b) = BSIZE" using l finvD(1) [OF i] by (simp add: V'_def)
  qed (use z in blast)
  show "dat V' M = dat V M" if "M \<in> set ns" for M by (rule c(2) [OF that])
  show "V' (adr V a f) = V (adr V a f)" if "f < n" "f \<noteq> k" for f
  proof -
    have "distinct (map (adr V a) [0..<n])" using d(1) by (simp add: N blks_def)
    then have "adr V a f \<noteq> adr V a k" using that k by (auto simp: distinct_conv_nth)
    then show ?thesis by (simp add: V'_def)
  qed
qed

section \<open>Allocating a block\<close>

lemma unat_fresh: "fb \<le> FSSIZE + 1 \<Longrightarrow> unat (of_nat fb :: uint) = fb"
  by (simp add: FSSIZE_def unat_of_nat take_bit_nat_eq_self)

lemma le_word_zeros: "le_word (replicate n 0) = 0"
  by (induction n) simp_all

lemma zeroes_get32: "j + 4 \<le> BSIZE \<Longrightarrow> get32 zeroes j = 0"
  by (simp add: get32_def zeroes_def le_word_zeros)

text \<open>
  How a file grows: its new block and the blocks of the index are fresh, the old blocks and other files
  are as before.
\<close>

definition grown :: "(nat \<Rightarrow> block) \<Rightarrow> nat \<Rightarrow> uint list \<Rightarrow> nat \<Rightarrow> node list \<Rightarrow> (nat \<Rightarrow> block) \<Rightarrow> nat \<Rightarrow> uint list \<Rightarrow> bool" where
  "grown V fb a n ns V' fb' a' \<longleftrightarrow>
     finv V' fb' ((a', Suc n) # ns) \<and> fb \<le> fb' \<and> V' (adr V' a' n) = zeroes \<and>
     dat V' (a', n) = dat V (a, n) \<and> (\<forall>M \<in> set ns. dat V' M = dat V M) \<and> (\<forall>b < nmeta. V' b = V b)"

lemma finv_add:
  assumes i: "finv V fb (N # ns)" and V': "\<forall>M \<in> set ns. \<forall>b \<in> set (blks V M). V' b = V b"
    and fb: "fb \<le> fb'" "fb' \<le> FSSIZE" and V0: "\<forall>b. length (V' b) = BSIZE" "\<forall>b \<ge> fb'. V' b = zeroes"
    and N': "cut_ok V' N'" "distinct (blks V' N')" "set (blks V' N') \<subseteq> set (blks V N) \<union> {fb..<fb'}"
      "fb' + length (blks V N) = fb + length (blks V' N')"
  shows "finv V' fb' (N' # ns)"
proof -
  have c: "blks V' M = blks V M" "cut_ok V' M" if "M \<in> set ns" for M
    using node_cong [of V M V'] V' that finvD(5) [OF i, of M] by auto
  have m: "map (blks V') ns = map (blks V) ns" using c(1) by simp
  have nm: "nmeta \<le> fb" by (rule finvD(4) [OF i])
  have r: "set (blks V M) \<subseteq> {nmeta..<fb}" if "M \<in> set (N # ns)" for M using i that unfolding finv_def by blast
  have "set (blks V' N') \<inter> set (blks V M) = {}" if "M \<in> set ns" for M
    using N'(3) r [of M] that finv_distinct [OF i] by fastforce
  then have "distinct (concat (blks V' N' # map (blks V) ns))" using N'(2) i unfolding finv_def by auto
  then have d: "distinct (concat (map (blks V') (N' # ns)))" by (simp only: list.map m)
  have "set (blks V' N') \<subseteq> {nmeta..<fb'}" using N'(3) r [of N] fb(1) nm by fastforce
  moreover have "set (blks V' M) \<subseteq> {nmeta..<fb'}" if "M \<in> set ns" for M using c(1) [OF that] r [of M] that fb(1) by fastforce
  moreover have "fb = nmeta + length (concat (map (blks V) (N # ns)))" using i unfolding finv_def by blast
  then have "fb' = nmeta + length (concat (map (blks V') (N' # ns)))" using N'(4) unfolding list.map m by simp
  ultimately show "finv V' fb' (N' # ns)" using d c(2) N'(1) fb V0 nm unfolding finv_def by (simp del: length_concat map_eq_conv)
qed

lemma grow_direct:
  assumes i: "finv V fb ((a, n) # ns)" and n: "n < NDIRECT" and fb: "fb < FSSIZE"
  defines "a' \<equiv> a[n := of_nat fb]"
  shows "grown V fb a n ns V (fb + 1) a'" "adr V a' n = fb"
proof -
  have c: "cut_ok V (a, n)" by (rule finvD(5) [OF i]) simp
  then have l: "length a = NDIRECT + 1" by (simp add: cut_ok_def)
  show x: "adr V a' n = fb" using n l fb by (simp add: adr_def a'_def unat_fresh)
  have o: "adr V a' f = adr V a f" if "f < n" for f using that n by (simp add: adr_def a'_def)
  have b: "blks V (a', Suc n) = blks V (a, n) @ [fb]" using n x o by (simp add: blks_def)
  have dn: "distinct (blks V (a, n))" using finv_distinct [OF i] by simp
  have r: "y < fb" if "y \<in> set (blks V (a, n))" for y using finv_range [OF i _ that] by simp
  have "cut_ok V (a', Suc n)" using c n by (auto simp: cut_ok_def a'_def MAXFILE_def)
  moreover have "distinct (blks V (a', Suc n))" using b dn r by auto
  moreover have "set (blks V (a', Suc n)) \<subseteq> set (blks V (a, n)) \<union> {fb..<fb + 1}" using b by auto
  moreover have "fb + 1 + length (blks V (a, n)) = fb + length (blks V (a', Suc n))" using b by simp
  ultimately have "finv V (fb + 1) ((a', Suc n) # ns)" using i fb finvD(1,2) [OF i] by (intro finv_add [OF i]) auto
  moreover have "dat V (a', n) = dat V (a, n)" using o by (intro dat_eqI) simp
  moreover have "V fb = zeroes" using finvD(2) [OF i] by simp
  ultimately show "grown V fb a n ns V (fb + 1) a'" using x by (simp add: grown_def)
qed

lemma grow_indirect:
  assumes i: "finv V fb ((a, n) # ns)" and n: "NDIRECT < n" "n < MAXFILE" and fb: "fb < FSSIZE"
  defines "V' \<equiv> V(ind a := put32 (V (ind a)) (4 * (n - NDIRECT)) (of_nat fb))"
  shows "grown V fb a n ns V' (fb + 1) a" "adr V' a n = fb"
proof -
  have c: "cut_ok V (a, n)" by (rule finvD(5) [OF i]) simp
  have j: "4 * (f - NDIRECT) + 4 \<le> length (V y)" if "f < MAXFILE" for f y
    using that finvD(1) [OF i, of y] by (simp add: MAXFILE_def NDIRECT_def NINDIRECT_def BSIZE_def)
  have ib: "ind a \<in> set (blks V (a, n))" using n by (simp add: blks_def)
  have ir: "ind a < fb" "nmeta \<le> ind a" using finv_range [OF i _ ib] by simp_all
  have g: "get32 (V' (ind a)) (4 * (f - NDIRECT)) = (if f = n then of_nat fb else get32 (V (ind a)) (4 * (f - NDIRECT)))"
    if "f < MAXFILE" "NDIRECT \<le> f" for f
  proof (cases "f = n")
    case False
    then have "4 * (f - NDIRECT) + 4 \<le> 4 * (n - NDIRECT) \<or> 4 * (n - NDIRECT) + 4 \<le> 4 * (f - NDIRECT)"
      using that n by linarith
    then show ?thesis using j [OF n(2)] False by (simp add: V'_def get_put_other)
  qed (use j [OF n(2)] in \<open>simp add: V'_def enc_simps\<close>)
  show x: "adr V' a n = fb" using n fb g [of n] by (simp add: adr_def unat_fresh)
  have o: "adr V' a f = adr V a f" if "f < n" for f using that n g [of f] by (auto simp: adr_def)
  have b: "blks V' (a, Suc n) = blks V (a, n) @ [fb]" using n x o by (simp add: blks_def)
  have dn: "distinct (blks V (a, n))" using finv_distinct [OF i] by simp
  have r: "y < fb" if "y \<in> set (blks V (a, n))" for y using finv_range [OF i _ that] by simp
  have "cut_ok V' (a, Suc n)" using c n g by (auto simp: cut_ok_def)
  moreover have "distinct (blks V' (a, Suc n))" using b dn r by auto
  moreover have "set (blks V' (a, Suc n)) \<subseteq> set (blks V (a, n)) \<union> {fb..<fb + 1}" using b by auto
  moreover have "fb + 1 + length (blks V (a, n)) = fb + length (blks V' (a, Suc n))" using b by simp
  moreover have "\<forall>M \<in> set ns. \<forall>y \<in> set (blks V M). V' y = V y" using finv_distinct [OF i] ib by (auto simp: V'_def)
  moreover have "\<forall>y. length (V' y) = BSIZE" using finvD(1) [OF i] j [OF n(2)] by (auto simp: V'_def enc_simps)
  moreover have "\<forall>y \<ge> fb + 1. V' y = zeroes" using finvD(2) [OF i] ir by (auto simp: V'_def)
  ultimately have f: "finv V' (fb + 1) ((a, Suc n) # ns)" "\<forall>M \<in> set ns. dat V' M = dat V M"
    using fb finv_add [OF i, of V' "fb + 1" "(a, Suc n)"] node_cong(2) by (simp, blast)
  have "ind a \<notin> adr V a ` {0..<n}" using dn n by (simp add: blks_def)
  then have "V' (adr V a k) = V (adr V a k)" if "k < n" for k using that by (force simp: V'_def)
  then have "dat V' (a, n) = dat V (a, n)" using o by (intro dat_eqI) simp
  moreover have "V' fb = zeroes" using finvD(2) [OF i] ir by (simp add: V'_def)
  ultimately show "grown V fb a n ns V' (fb + 1) a" using x f ir by (auto simp: grown_def V'_def)
qed

lemma grow_index:
  assumes i: "finv V fb ((a, NDIRECT) # ns)" and fb: "fb + 1 < FSSIZE"
  defines "a' \<equiv> a[NDIRECT := of_nat fb]" and "V' \<equiv> V(fb := put32 zeroes 0 (of_nat (fb + 1)))"
  shows "grown V fb a NDIRECT ns V' (fb + 2) a'" "adr V' a' NDIRECT = fb + 1" "ind a' = fb"
proof -
  have c: "cut_ok V (a, NDIRECT)" by (rule finvD(5) [OF i]) simp
  then have l: "length a = NDIRECT + 1" by (simp add: cut_ok_def)
  show ia: "ind a' = fb" using l fb by (simp add: ind_def a'_def unat_fresh)
  have z: "length zeroes = BSIZE" by (simp add: zeroes_def)
  have g: "get32 (V' fb) (4 * (f - NDIRECT)) = (if f = NDIRECT then of_nat (fb + 1) else 0)" if "f < MAXFILE" "NDIRECT \<le> f" for f
  proof (cases "f = NDIRECT")
    case False
    have "4 * (f - NDIRECT) + 4 \<le> BSIZE" using that by (simp add: MAXFILE_def NDIRECT_def NINDIRECT_def BSIZE_def)
    then show ?thesis using that False z by (simp add: V'_def get_put_other zeroes_get32)
  qed (use z in \<open>simp add: V'_def enc_simps BSIZE_def\<close>)
  show x: "adr V' a' NDIRECT = fb + 1" using fb g [of NDIRECT] unat_fresh [of "fb + 1"]
    by (simp add: adr_def ia MAXFILE_def NINDIRECT_def BSIZE_def)
  have o: "adr V' a' f = adr V a f" if "f < NDIRECT" for f using that by (simp add: adr_def a'_def)
  have b: "blks V' (a', Suc NDIRECT) = fb # blks V (a, NDIRECT) @ [fb + 1]" using x o ia by (simp add: blks_def)
  have dn: "distinct (blks V (a, NDIRECT))" using finv_distinct [OF i] by simp
  have r: "y < fb" if "y \<in> set (blks V M)" "M \<in> set ((a, NDIRECT) # ns)" for y M using finv_range [OF i that(2,1)] by simp
  have "cut_ok V' (a', Suc NDIRECT)" using c l ia g by (auto simp: cut_ok_def a'_def MAXFILE_def NINDIRECT_def BSIZE_def)
  moreover have "distinct (blks V' (a', Suc NDIRECT))" using b dn r [of _ "(a, NDIRECT)"] by fastforce
  moreover have "set (blks V' (a', Suc NDIRECT)) \<subseteq> set (blks V (a, NDIRECT)) \<union> {fb..<fb + 2}" using b by auto
  moreover have "fb + 2 + length (blks V (a, NDIRECT)) = fb + length (blks V' (a', Suc NDIRECT))" using b by simp
  moreover have "\<forall>M \<in> set ns. \<forall>y \<in> set (blks V M). V' y = V y" using r by (fastforce simp: V'_def)
  moreover have "\<forall>y. length (V' y) = BSIZE" using finvD(1) [OF i] z by (simp add: V'_def enc_simps BSIZE_def)
  moreover have "\<forall>y \<ge> fb + 2. V' y = zeroes" using finvD(2) [OF i] by (auto simp: V'_def)
  ultimately have f: "finv V' (fb + 2) ((a', Suc NDIRECT) # ns)" "\<forall>M \<in> set ns. dat V' M = dat V M"
    using fb finv_add [OF i, of V' "fb + 2" "(a', Suc NDIRECT)"] node_cong(2) by (simp, blast)
  have "adr V a f < fb" if "f < NDIRECT" for f using that r [of "adr V a f" "(a, NDIRECT)"] by (simp add: blks_def)
  then have "dat V' (a', NDIRECT) = dat V (a, NDIRECT)" using o by (intro dat_eqI) (auto simp: V'_def)
  moreover have "V' (fb + 1) = zeroes" using finvD(2) [OF i] by (simp add: V'_def)
  ultimately show "grown V fb a NDIRECT ns V' (fb + 2) a'" using x f finvD(4) [OF i] by (auto simp: grown_def V'_def)
qed

section \<open>Appending\<close>

text \<open>\<^verbatim>\<open>iappend\<close>'s choice of a block, when the read of the block succeeds.\<close>

lemma adr_nonzero: "\<lbrakk>finv V fb ((a, n) # ns); f < n\<rbrakk> \<Longrightarrow> adr V a f \<noteq> 0"
  using finv_range [of V fb "(a, n) # ns" "(a, n)" "adr V a f"] by (auto simp: blks_def nmeta_def)

lemma ind_nonzero: "\<lbrakk>finv V fb ((a, n) # ns); NDIRECT < n\<rbrakk> \<Longrightarrow> a ! NDIRECT \<noteq> 0"
  using finv_range [of V fb "(a, n) # ns" "(a, n)" "ind a"] by (auto simp: blks_def nmeta_def ind_def)

lemma iappend_block_old:
  assumes i: "finv (img st) fb ((d_addrs din, n) # ns)" and f: "fbn < n"
    and b: "iappend_block fbn din st = Some (x, din', st')"
  shows "x = adr (img st) (d_addrs din) fbn" "din' = din" "st' = st"
proof -
  have z: "adr (img st) (d_addrs din) fbn \<noteq> 0" by (rule adr_nonzero [OF i f])
  have "x = adr (img st) (d_addrs din) fbn \<and> din' = din \<and> st' = st"
  proof (cases "fbn < NDIRECT")
    case True
    then show ?thesis using z b by (auto simp: iappend_block_def adr_def split: if_splits)
  next
    case False
    then have "d_addrs din ! NDIRECT \<noteq> 0" using ind_nonzero [OF i] f by simp
    then show ?thesis using z b False
      by (auto simp: iappend_block_def adr_def ind_def rsect_def Let_def split: if_splits)
  qed
  then show "x = adr (img st) (d_addrs din) fbn" "din' = din" "st' = st" by auto
qed

lemma iappend_block_new:
  assumes i: "finv (img st) (freeblock st) ((d_addrs din, n) # ns)" and n: "n < MAXFILE"
    and b: "iappend_block n din st = Some (x, din', st')" and x: "x < FSSIZE"
  shows "grown (img st) (freeblock st) (d_addrs din) n ns (img st') (freeblock st') (d_addrs din')"
    "x = adr (img st') (d_addrs din') n" "din' = din\<lparr>d_addrs := d_addrs din'\<rparr>" "freeinode st' = freeinode st"
proof -
  let ?V = "img st" and ?fb = "freeblock st" and ?a = "d_addrs din"
  have c: "cut_ok ?V (?a, n)" by (rule finvD(5) [OF i]) simp
  have l: "length ?a = NDIRECT + 1" using c by (simp add: cut_ok_def)
  have fb: "?fb \<le> FSSIZE" by (rule finvD(3) [OF i])
  consider "n < NDIRECT" | "n = NDIRECT" | "NDIRECT < n" by linarith
  then have "grown ?V ?fb ?a n ns (img st') (freeblock st') (d_addrs din') \<and> x = adr (img st') (d_addrs din') n \<and>
    din' = din\<lparr>d_addrs := d_addrs din'\<rparr> \<and> freeinode st' = freeinode st"
  proof cases
    case 1
    then have "?a ! n = 0" using c by (simp add: cut_ok_def)
    then have e: "x = unat (of_nat ?fb :: uint)" "din' = din\<lparr>d_addrs := ?a[n := of_nat ?fb]\<rparr>" "st' = st\<lparr>freeblock := ?fb + 1\<rparr>"
      using b 1 l by (auto simp: iappend_block_def)
    have "?fb < FSSIZE" using x fb e(1) by (simp add: unat_fresh)
    then show ?thesis using grow_direct [OF i 1] e by (simp add: unat_fresh)
  next
    case 2
    then have z: "?a ! NDIRECT = 0" using c by (simp add: cut_ok_def)
    have u: "unat (of_nat ?fb :: uint) = ?fb" using fb by (simp add: unat_fresh)
    have lt: "?fb < FSSIZE" using b 2 l z u by (simp add: iappend_block_def rsect_def Let_def split: if_splits)
    have "img st ?fb = zeroes" using finvD(2) [OF i] by simp
    moreover have "length zeroes = BSIZE" by (simp add: zeroes_def)
    ultimately have e: "x = unat (of_nat (?fb + 1) :: uint)" "din' = din\<lparr>d_addrs := ?a[NDIRECT := of_nat ?fb]\<rparr>"
        "st' = st\<lparr>freeblock := ?fb + 2, img := ?V(?fb := put32 zeroes 0 (of_nat (?fb + 1)))\<rparr>"
      using b 2 l z u lt zeroes_get32 [of 0]
      by (auto simp: iappend_block_def rsect_def wsect_def Let_def enc_simps BSIZE_def)
    have x': "x = ?fb + 1" unfolding e(1) using fb by (intro unat_fresh) simp
    then have "?fb + 1 < FSSIZE" using x by simp
    then show ?thesis using grow_index [of ?V ?fb ?a ns] i 2 e(2,3) x' by simp
  next
    case 3
    have nz: "?a ! NDIRECT \<noteq> 0" by (rule ind_nonzero [OF i 3])
    have z: "get32 (?V (ind ?a)) (4 * (n - NDIRECT)) = 0" using c n 3 by (simp add: cut_ok_def)
    have j: "4 * (n - NDIRECT) + 4 \<le> length (?V y)" for y
      using n finvD(1) [OF i, of y] by (simp add: MAXFILE_def NDIRECT_def NINDIRECT_def BSIZE_def)
    have e: "x = unat (of_nat ?fb :: uint)" "din' = din"
        "st' = st\<lparr>freeblock := ?fb + 1, img := ?V(ind ?a := put32 (?V (ind ?a)) (4 * (n - NDIRECT)) (of_nat ?fb))\<rparr>"
      using b 3 nz z j by (auto simp: iappend_block_def rsect_def wsect_def ind_def Let_def enc_simps split: if_splits)
    have "?fb < FSSIZE" using x fb e(1) by (simp add: unat_fresh)
    then show ?thesis using grow_indirect [OF i 3 n] e by (simp add: unat_fresh)
  qed
  then show "grown ?V ?fb ?a n ns (img st') (freeblock st') (d_addrs din')"
    "x = adr (img st') (d_addrs din') n" "din' = din\<lparr>d_addrs := d_addrs din'\<rparr>" "freeinode st' = freeinode st" by auto
qed

definition nblk :: "nat \<Rightarrow> nat" where
  "nblk off = (off + BSIZE - 1) div BSIZE"

lemma off_bounds: "off div BSIZE * BSIZE \<le> off" "off < off div BSIZE * BSIZE + BSIZE"
  using div_mult_mod_eq [of off BSIZE] mod_less_divisor [of BSIZE off] by (auto simp: BSIZE_def)

lemma nblk_eq: "\<lbrakk>f * BSIZE < off; off \<le> f * BSIZE + BSIZE\<rbrakk> \<Longrightarrow> nblk off = Suc f"
  unfolding nblk_def by (intro div_nat_eqI) (simp_all add: BSIZE_def)

lemma nblk_piece:
  assumes "0 < k" "off + k \<le> (off div BSIZE + 1) * BSIZE"
  shows "nblk (off + k) = Suc (off div BSIZE)"
  by (rule nblk_eq) (use assms le_less_trans [OF off_bounds(1), of off "off + k"] in simp_all)

lemma nblk_mult: "nblk (f * BSIZE) = f"
  unfolding nblk_def by (intro div_nat_eqI) (simp_all add: BSIZE_def)

lemma nblk_div: "nblk off = (if off mod BSIZE = 0 then off div BSIZE else Suc (off div BSIZE))"
proof (cases "off mod BSIZE = 0")
  case True
  then show ?thesis using nblk_mult [of "off div BSIZE"] by auto
next
  case False
  have "off div BSIZE * BSIZE < off" using False div_mult_mod_eq [of off BSIZE] by linarith
  then show ?thesis using False nblk_eq off_bounds(2) [of off] by simp
qed

lemma dat_Suc: "dat V (a, Suc n) = dat V (a, n) @ V (adr V a n)"
  by (simp add: dat_def)

lemma length_dat: "finv V fb ns \<Longrightarrow> length (dat V (a, n)) = n * BSIZE"
  using finvD(1) by (induction n) (auto simp: dat_Suc dat_def [of _ "(_, 0)"])

text \<open>One piece: the block is chosen, then written.\<close>

lemma choose_block:
  assumes i: "finv (img st) (freeblock st) ((d_addrs din, nblk off) # ns)" and f: "off div BSIZE < MAXFILE"
    and b: "iappend_block (off div BSIZE) din st = Some (x, din', st')" "x < FSSIZE"
  shows "finv (img st') (freeblock st') ((d_addrs din', Suc (off div BSIZE)) # ns)" "x = adr (img st') (d_addrs din') (off div BSIZE)"
    "take off (dat (img st') (d_addrs din', Suc (off div BSIZE))) = take off (dat (img st) (d_addrs din, nblk off))"
    "\<forall>M \<in> set ns. dat (img st') M = dat (img st) M" "\<forall>c < nmeta. img st' c = img st c"
    "din' = din\<lparr>d_addrs := d_addrs din'\<rparr>" "freeinode st' = freeinode st"
    "set (drop off (dat (img st) (d_addrs din, nblk off))) \<subseteq> {0} \<longrightarrow> set (drop off (dat (img st') (d_addrs din', Suc (off div BSIZE)))) \<subseteq> {0}"
proof -
  let ?f = "off div BSIZE"
  have "finv (img st') (freeblock st') ((d_addrs din', Suc ?f) # ns) \<and> x = adr (img st') (d_addrs din') ?f \<and>
    take off (dat (img st') (d_addrs din', Suc ?f)) = take off (dat (img st) (d_addrs din, nblk off)) \<and>
    (\<forall>M \<in> set ns. dat (img st') M = dat (img st) M) \<and> (\<forall>c < nmeta. img st' c = img st c) \<and>
    din' = din\<lparr>d_addrs := d_addrs din'\<rparr> \<and> freeinode st' = freeinode st \<and>
    (set (drop off (dat (img st) (d_addrs din, nblk off))) \<subseteq> {0} \<longrightarrow> set (drop off (dat (img st') (d_addrs din', Suc ?f))) \<subseteq> {0})"
  proof (cases "off mod BSIZE = 0")
    case True
    then have n: "nblk off = ?f" by (simp add: nblk_div)
    then have "off = length (dat (img st) (d_addrs din, nblk off))" using True length_dat [OF i] by auto
    then show ?thesis using iappend_block_new [of st din ?f ns x din' st'] i n f b by (auto simp: grown_def dat_Suc zeroes_def)
  next
    case False
    then have n: "nblk off = Suc ?f" by (simp add: nblk_div)
    then show ?thesis using iappend_block_old [OF i _ b(1)] i by auto
  qed
  then show "finv (img st') (freeblock st') ((d_addrs din', Suc (off div BSIZE)) # ns)" "x = adr (img st') (d_addrs din') (off div BSIZE)"
    "take off (dat (img st') (d_addrs din', Suc (off div BSIZE))) = take off (dat (img st) (d_addrs din, nblk off))"
    "\<forall>M \<in> set ns. dat (img st') M = dat (img st) M" "\<forall>c < nmeta. img st' c = img st c"
    "din' = din\<lparr>d_addrs := d_addrs din'\<rparr>" "freeinode st' = freeinode st"
    "set (drop off (dat (img st) (d_addrs din, nblk off))) \<subseteq> {0} \<longrightarrow> set (drop off (dat (img st') (d_addrs din', Suc (off div BSIZE)))) \<subseteq> {0}"
    by blast+
qed

lemma write_piece:
  assumes i: "finv V fb ((a, Suc (off div BSIZE)) # ns)" and q: "off + length q \<le> (off div BSIZE + 1) * BSIZE"
  defines "x \<equiv> adr V a (off div BSIZE)"
  defines "V' \<equiv> V(x := put_bytes (V x) (off - off div BSIZE * BSIZE) q)"
  shows "finv V' fb ((a, Suc (off div BSIZE)) # ns)" "\<forall>M \<in> set ns. dat V' M = dat V M" "\<forall>c < nmeta. V' c = V c"
    "take (off + length q) (dat V' (a, Suc (off div BSIZE))) = take off (dat V (a, Suc (off div BSIZE))) @ q"
    "set (drop (off + length q) (dat V' (a, Suc (off div BSIZE)))) \<subseteq> set (drop off (dat V (a, Suc (off div BSIZE))))"
proof -
  let ?f = "off div BSIZE" and ?o = "off - off div BSIZE * BSIZE"
  have o: "?f * BSIZE + ?o = off" by (simp add: BSIZE_def)
  then have lo: "?o + length q \<le> BSIZE" using q by simp
  then have l: "length (put_bytes (V x) ?o q) = BSIZE" using finvD(1) [OF i, of x] by (simp add: length_put_bytes)
  note d = data_cong [OF i refl lessI l, folded x_def, folded V'_def]
  show "finv V' fb ((a, Suc ?f) # ns)" by (rule d(1))
  show "\<forall>M \<in> set ns. dat V' M = dat V M" using d(2) by blast
  have "x \<in> set (blks V (a, Suc ?f))" by (simp add: blks_def x_def)
  then have "nmeta \<le> x" using finv_range [OF i, of "(a, Suc ?f)" x] by simp
  then show "\<forall>c < nmeta. V' c = V c" by (simp add: V'_def)
  have s: "dat V' (a, ?f) = dat V (a, ?f)" using d(3,4) by (intro dat_eqI) simp
  have e: "dat V' (a, Suc ?f) = dat V (a, ?f) @ put_bytes (V x) ?o q" "length (dat V (a, ?f)) = ?f * BSIZE" "length (V x) = BSIZE"
    using s d(3) [of ?f] length_dat [OF i] finvD(1) [OF i] by (simp_all add: dat_Suc V'_def x_def)
  have D: "dat V (a, Suc ?f) = dat V (a, ?f) @ V x" by (simp add: dat_Suc x_def)
  have "drop (off + length q) (dat V' (a, Suc ?f)) = drop (off + length q) (dat V (a, Suc ?f))"
    unfolding e(1) D using o lo e(2,3) le_trans [OF off_bounds(1) le_add1, of off "length q"] by (simp add: put_bytes_def)
  then show "set (drop (off + length q) (dat V' (a, Suc ?f))) \<subseteq> set (drop off (dat V (a, Suc ?f)))"
    using set_drop_subset_set_drop [of off "off + length q"] by simp
  show "take (off + length q) (dat V' (a, Suc ?f)) = take off (dat V (a, Suc ?f)) @ q"
    unfolding e(1) D using o lo e(2,3) le_trans [OF off_bounds(1) le_add1, of off "length q"] by (simp add: put_bytes_def)
qed

text \<open>The loop appends all bytes and touches only this file.\<close>

definition appended :: "mkstate \<Rightarrow> dinode \<Rightarrow> nat \<Rightarrow> node list \<Rightarrow> uchar list \<Rightarrow> mkstate \<Rightarrow> dinode \<Rightarrow> nat \<Rightarrow> bool" where
  "appended st din off ns p st' din' off' \<longleftrightarrow>
     finv (img st') (freeblock st') ((d_addrs din', nblk off') # ns) \<and> off' = off + length p \<and>
     take off' (dat (img st') (d_addrs din', nblk off')) = take off (dat (img st) (d_addrs din, nblk off)) @ p \<and>
     (\<forall>M \<in> set ns. dat (img st') M = dat (img st) M) \<and> (\<forall>c < nmeta. img st' c = img st c) \<and>
     din' = din\<lparr>d_addrs := d_addrs din'\<rparr> \<and> freeinode st' = freeinode st \<and>
     (set (drop off (dat (img st) (d_addrs din, nblk off))) \<subseteq> {0} \<longrightarrow> set (drop off' (dat (img st') (d_addrs din', nblk off'))) \<subseteq> {0})"

lemma appended_trans:
  assumes a: "appended st din off ns p st1 din1 off1" and b: "appended st1 din1 off1 ns q st2 din2 off2"
  shows "appended st din off ns (p @ q) st2 din2 off2"
proof -
  have "\<exists>A. din1 = din\<lparr>d_addrs := A\<rparr>" "\<exists>B. din2 = din1\<lparr>d_addrs := B\<rparr>" using a b unfolding appended_def by blast+
  then have d: "din2 = din\<lparr>d_addrs := d_addrs din2\<rparr>" by auto
  have o: "off2 = off + length (p @ q)" using a b by (simp add: appended_def)
  have "take off1 (dat (img st1) (d_addrs din1, nblk off1)) = take off (dat (img st) (d_addrs din, nblk off)) @ p"
    "take off2 (dat (img st2) (d_addrs din2, nblk off2)) = take off1 (dat (img st1) (d_addrs din1, nblk off1)) @ q"
    using a b unfolding appended_def by blast+
  then have "take off2 (dat (img st2) (d_addrs din2, nblk off2)) = take off (dat (img st) (d_addrs din, nblk off)) @ p @ q"
    by (simp only: append_assoc)
  moreover have "finv (img st2) (freeblock st2) ((d_addrs din2, nblk off2) # ns)"
    "\<forall>M \<in> set ns. dat (img st2) M = dat (img st) M" "\<forall>c < nmeta. img st2 c = img st c" "freeinode st2 = freeinode st"
    using a b unfolding appended_def by auto
  moreover have "set (drop off (dat (img st) (d_addrs din, nblk off))) \<subseteq> {0} \<longrightarrow> set (drop off2 (dat (img st2) (d_addrs din2, nblk off2))) \<subseteq> {0}"
    using a b unfolding appended_def by blast
  ultimately show ?thesis using o d unfolding appended_def by blast
qed

lemma iappend_loop_spec:
  assumes "finv (img st) (freeblock st) ((d_addrs din, nblk off) # ns)" "iappend_loop p din off st = Some (din', off', st')"
  shows "appended st din off ns p st' din' off'"
  using assms
proof (induction p din off st rule: iappend_loop.induct)
  case (1 p din off st)
  let ?f = "off div BSIZE"
  define n1 where "n1 = min (length p) ((?f + 1) * BSIZE - off)"
  show ?case
  proof (cases "p = []")
    case True
    then show ?thesis using 1(2,3) by (subst (asm) iappend_loop.simps) (simp add: appended_def)
  next
    case False
    then obtain x din1 st1 buf where f: "?f < MAXFILE" and b: "iappend_block ?f din st = Some (x, din1, st1)" "rsect x st1 = Some buf"
      and r: "iappend_loop (drop n1 p) din1 (off + n1) (wsect x (put_bytes buf (off - ?f * BSIZE) (take n1 p)) st1) = Some (din', off', st')"
      using 1(3) by (subst (asm) iappend_loop.simps) (auto simp: Let_def n1_def split: if_splits option.splits)
    have x: "x < FSSIZE" "buf = img st1 x" using b(2) by (auto simp: rsect_def split: if_splits)
    note c = choose_block [OF 1(2) f b(1) x(1)]
    have n1: "0 < n1" "n1 \<le> length p" "off + n1 \<le> (?f + 1) * BSIZE"
      using False off_bounds(2) [of off] by (auto simp: n1_def min_def)
    let ?st = "wsect x (put_bytes buf (off - ?f * BSIZE) (take n1 p)) st1"
    have w: "img ?st = (img st1)(x := put_bytes (img st1 x) (off - ?f * BSIZE) (take n1 p))"
      "freeblock ?st = freeblock st1" "freeinode ?st = freeinode st1" by (simp_all add: wsect_def x)
    have q: "off + length (take n1 p) \<le> (?f + 1) * BSIZE" using n1 by simp
    note v = write_piece [OF c(1) q, folded c(2), folded w(1)]
    have nb: "nblk (off + n1) = Suc ?f" by (rule nblk_piece [OF n1(1,3)])
    have "appended st din off ns (take n1 p) ?st din1 (off + n1)"
      unfolding appended_def nb w(2,3) using v c n1(2) by (simp, blast)
    moreover have "appended ?st din1 (off + n1) ns (drop n1 p) st' din' off'"
      by (rule 1(1) [OF False refl n1_def _ b(1) refl refl b(2)]) (use f v(1) nb w(2) r in simp_all)
    ultimately show ?thesis using appended_trans by fastforce
  qed
qed

section \<open>Inodes\<close>

definition NIN :: nat where
  "NIN = ninodeblocks * IPB"

definition inode_at :: "mkstate \<Rightarrow> nat \<Rightarrow> dinode" where
  "inode_at st i = get_dinode (img st (i div IPB + inodestart)) (i mod IPB * 64)"

definition node_at :: "mkstate \<Rightarrow> nat \<Rightarrow> node" where
  "node_at st i = (d_addrs (inode_at st i), nblk (unat (d_size (inode_at st i))))"

definition file_of :: "mkstate \<Rightarrow> nat \<Rightarrow> uchar list" where
  "file_of st i = take (unat (d_size (inode_at st i))) (dat (img st) (node_at st i))"

text \<open>After the end of a file its last block is zero.\<close>

definition tail_zero :: "mkstate \<Rightarrow> nat \<Rightarrow> bool" where
  "tail_zero st i \<longleftrightarrow> set (drop (unat (d_size (inode_at st i))) (dat (img st) (node_at st i))) \<subseteq> {0}"

definition mk_inv :: "mkstate \<Rightarrow> bool" where
  "mk_inv st \<longleftrightarrow> finv (img st) (freeblock st) (map (node_at st) [1..<freeinode st]) \<and> 1 \<le> freeinode st \<and> freeinode st \<le> NIN \<and>
     (\<forall>i \<in> {1..<freeinode st}. tail_zero st i)"

lemmas layout_defs = NIN_def ninodeblocks_def nbitmap_def nlog_def nmeta_def inodestart_def bmapstart_def NINODES_def
  IPB_def BSIZE_def FSSIZE_def LOGSIZE_def MAXOPBLOCKS_def

lemma inode_block: "i < NIN \<Longrightarrow> 1 < i div IPB + inodestart \<and> i div IPB + inodestart < bmapstart"
  using div_le_mono [of i 207 16] by (simp add: layout_defs)

lemma meta_block: "bmapstart < nmeta" "nmeta < FSSIZE"
  by (simp_all add: layout_defs)

lemma rinode_Some: "i < NIN \<Longrightarrow> rinode i st = Some (inode_at st i)"
  using inode_block [of i] meta_block by (simp add: rinode_def rsect_def inode_at_def Let_def)

lemma inode_off: "i mod IPB * 64 + 64 \<le> BSIZE"
  using mod_less_divisor [of 16 i] by (simp add: IPB_def BSIZE_def)

lemma inode_apart:
  assumes "i div IPB = j div IPB" "i \<noteq> j"
  shows "i mod IPB * 64 + 64 \<le> j mod IPB * 64 \<or> j mod IPB * 64 + 64 \<le> i mod IPB * 64"
proof -
  have "i mod IPB \<noteq> j mod IPB" using assms by (metis div_mult_mod_eq)
  then show ?thesis by linarith
qed

lemma winode_Some:
  assumes i: "i < NIN" and l: "\<forall>b. length (img st b) = BSIZE" "length (d_addrs d) = NDIRECT + 1"
    and w: "winode i d st = Some st'"
  shows "inode_at st' i = d" "\<And>j. j \<noteq> i \<Longrightarrow> inode_at st' j = inode_at st j"
    "\<forall>b. length (img st' b) = BSIZE" "\<And>b. b \<le> 1 \<or> bmapstart \<le> b \<Longrightarrow> img st' b = img st b"
    "freeblock st' = freeblock st" "freeinode st' = freeinode st"
proof -
  let ?b = "i div IPB + inodestart" and ?o = "i mod IPB * 64"
  have r: "1 < ?b" "?b < bmapstart" using inode_block [OF i] by auto
  then have st': "st' = st\<lparr>img := (img st)(?b := put_dinode (img st ?b) ?o d)\<rparr>"
    using w meta_block by (simp add: winode_def rsect_def wsect_def Let_def)
  have off: "?o + 64 \<le> length (img st ?b)" using inode_off l(1) by simp
  note g = get_put_dinode [OF off l(2)]
  show "inode_at st' i = d" using g(1) by (simp add: st' inode_at_def)
  show "\<forall>b. length (img st' b) = BSIZE" using g(2) l(1) by (simp add: st')
  show "\<And>b. b \<le> 1 \<or> bmapstart \<le> b \<Longrightarrow> img st' b = img st b" using r by (auto simp: st')
  show "freeblock st' = freeblock st" "freeinode st' = freeinode st" by (simp_all add: st')
  fix j assume "j \<noteq> i"
  then show "inode_at st' j = inode_at st j"
    using g(3) inode_apart [of j i] by (cases "j div IPB = i div IPB") (simp_all add: st' inode_at_def)
qed

text \<open>Blocks of files are beyond the inodes.\<close>

lemma finv_low:
  assumes i: "finv V fb ns" and V': "\<forall>b \<ge> nmeta. V' b = V b" "\<forall>b. length (V' b) = BSIZE"
  shows "finv V' fb ns" "\<forall>N \<in> set ns. dat V' N = dat V N"
proof -
  have "\<forall>b \<in> set (blks V N). V' b = V b" if "N \<in> set ns" for N using finv_range [OF i that] V'(1) by blast
  then have c: "blks V' N = blks V N" "dat V' N = dat V N" "cut_ok V' N" if "N \<in> set ns" for N
    using node_cong [of V N V'] that finvD(5) [OF i that] by auto
  show "finv V' fb ns" by (rule finv_cong [OF i]) (use c V' finvD(2,4) [OF i] in auto)
  show "\<forall>N \<in> set ns. dat V' N = dat V N" using c by blast
qed

lemma finv_empty: "finv V fb ns \<Longrightarrow> finv V fb (ns @ [(replicate (NDIRECT + 1) 0, 0)])"
proof -
  have "cut_ok V (replicate (NDIRECT + 1) 0, 0)" by (auto simp: cut_ok_def simp del: replicate_Suc)
  moreover have "blks V (replicate (NDIRECT + 1) 0, 0) = []" by (simp add: blks_def)
  ultimately show "finv V fb ns \<Longrightarrow> ?thesis" by (auto simp: finv_def simp del: replicate_Suc)
qed

definition kept :: "mkstate \<Rightarrow> mkstate \<Rightarrow> nat set \<Rightarrow> bool" where
  "kept st st' I \<longleftrightarrow> (\<forall>j \<in> I. inode_at st' j = inode_at st j \<and> file_of st' j = file_of st j) \<and> (\<forall>b \<le> 1. img st' b = img st b)"

lemma ialloc_spec:
  assumes m: "mk_inv st" and n: "freeinode st < NIN" and a: "m_ialloc ty st = Some (i, st')"
  shows "i = freeinode st" "freeinode st' = Suc i" "mk_inv st'" "kept st st' {1..<i}" "file_of st' i = []"
    "d_type (inode_at st' i) = ty" "d_nlink (inode_at st' i) = 1" "d_size (inode_at st' i) = 0"
proof -
  define din where "din = \<lparr>d_type = ty, d_major = 0, d_minor = 0, d_nlink = 1, d_size = 0, d_addrs = replicate (NDIRECT + 1) 0\<rparr>"
  let ?st = "st\<lparr>freeinode := freeinode st + 1\<rparr>"
  show i: "i = freeinode st" using a by (auto simp: m_ialloc_def Let_def split: bind_splits)
  have w: "winode i din ?st = Some st'" using a i by (auto simp: m_ialloc_def din_def Let_def split: bind_splits)
  have f: "finv (img st) (freeblock st) (map (node_at st) [1..<i])" "1 \<le> i" using m i by (auto simp: mk_inv_def)
  have l: "\<forall>b. length (img ?st b) = BSIZE" "length (d_addrs din) = NDIRECT + 1" using finvD(1) [OF f(1)] by (simp_all add: din_def)
  have iN: "i < NIN" using n i by simp
  note w = winode_Some [OF iN l w]
  have s: "inode_at st' j = inode_at st j" if "j \<noteq> i" for j using w(2) [OF that] by (simp add: inode_at_def)
  have lo: "finv (img st') (freeblock st) (map (node_at st) [1..<i])" "\<forall>N \<in> set (map (node_at st) [1..<i]). dat (img st') N = dat (img st) N"
    using finv_low [OF f(1), of "img st'"] w(3,4) meta_block(1) by auto
  have e: "map (node_at st') [1..<i] = map (node_at st) [1..<i]" using s by (simp add: node_at_def)
  have new: "node_at st' i = (replicate (NDIRECT + 1) 0, 0)" using w(1) by (simp add: node_at_def din_def nblk_def BSIZE_def)
  have "finv (img st') (freeblock st) (map (node_at st) [1..<i] @ [node_at st' i])"
    unfolding new by (rule finv_empty [OF lo(1)])
  moreover have "map (node_at st') [1..<Suc i] = map (node_at st) [1..<i] @ [node_at st' i]" using f(2) e by (simp del: map_eq_conv)
  ultimately have "finv (img st') (freeblock st) (map (node_at st') [1..<Suc i])" by simp
  moreover show "freeinode st' = Suc i" using w(6) i by simp
  moreover have "tail_zero st' j" if "j \<in> {1..<Suc i}" for j
  proof (cases "j = i")
    case True
    then show ?thesis using new by (simp add: tail_zero_def dat_def)
  next
    case False
    then have "tail_zero st j" using m that i by (simp add: mk_inv_def)
    then show ?thesis using s [OF False] lo(2) that False by (auto simp: tail_zero_def node_at_def)
  qed
  ultimately show "mk_inv st'" using w(5) f(2) iN by (simp add: mk_inv_def del: upt_Suc)
  show "file_of st' i = []" "d_type (inode_at st' i) = ty" "d_nlink (inode_at st' i) = 1" "d_size (inode_at st' i) = 0"
    using w(1) by (simp_all add: file_of_def din_def)
  show "kept st st' {1..<i}" using s lo(2) w(4) by (auto simp: kept_def file_of_def node_at_def)
qed

lemma off_le_nblk: "off \<le> nblk off * BSIZE"
  using off_bounds [of off] by (simp add: nblk_div) (metis div_mult_mod_eq add.right_neutral le_refl less_imp_le add.commute)

lemma upt_around: "\<lbrakk>1 \<le> i; i < n\<rbrakk> \<Longrightarrow> [1..<n] = [1..<i] @ i # [Suc i..<n]" for i n :: nat
  by (metis upt_conv_Cons less_imp_le_nat upt_add_eq_append le_add_diff_inverse)

lemma mk_inv_at:
  "\<lbrakk>mk_inv st; 1 \<le> i; i < freeinode st\<rbrakk> \<Longrightarrow>
    finv (img st) (freeblock st) (node_at st i # map (node_at st) ([1..<i] @ [Suc i..<freeinode st]))"
  using upt_around [of i "freeinode st"] finv_move [of "img st" "freeblock st" "map (node_at st) [1..<i]"] by (simp add: mk_inv_def)

lemma iappend_spec:
  assumes m: "mk_inv st" and i: "1 \<le> i" "i < freeinode st" and a: "iappend i p st = Some st'"
  shows "mk_inv st'" "freeinode st' = freeinode st" "kept st st' ({1..<freeinode st} - {i})"
    "file_of st' i = file_of st i @ p" "d_type (inode_at st' i) = d_type (inode_at st i)"
    "d_nlink (inode_at st' i) = d_nlink (inode_at st i)"
    "unat (d_size (inode_at st' i)) = unat (d_size (inode_at st i)) + length p"
proof -
  let ?d = "inode_at st i" and ?I = "[1..<i] @ [Suc i..<freeinode st]"
  have iN: "i < NIN" using m i by (simp add: mk_inv_def)
  have I: "[1..<freeinode st] = [1..<i] @ i # [Suc i..<freeinode st]" by (rule upt_around [OF i])
  obtain din off st1 where l: "iappend_loop p ?d (unat (d_size ?d)) st = Some (din, off, st1)"
    and w: "winode i (din\<lparr>d_size := of_nat off\<rparr>) st1 = Some st'"
    using a rinode_Some [OF iN] by (auto simp: iappend_def split: bind_splits)
  have f: "finv (img st) (freeblock st) (node_at st i # map (node_at st) ?I)" by (rule mk_inv_at [OF m i])
  have ap: "appended st ?d (unat (d_size ?d)) (map (node_at st) ?I) p st1 din off"
    by (rule iappend_loop_spec [OF _ l]) (use f in \<open>simp add: node_at_def\<close>)
  then have f1: "finv (img st1) (freeblock st1) ((d_addrs din, nblk off) # map (node_at st) ?I)"
    and off: "off = unat (d_size ?d) + length p" and ct: "take off (dat (img st1) (d_addrs din, nblk off)) = file_of st i @ p"
    and ot: "\<forall>M \<in> set (map (node_at st) ?I). dat (img st1) M = dat (img st) M"
    and lo: "\<forall>c < nmeta. img st1 c = img st c" and din: "din = ?d\<lparr>d_addrs := d_addrs din\<rparr>" and fi: "freeinode st1 = freeinode st"
    and tz: "tail_zero st i \<longrightarrow> set (drop off (dat (img st1) (d_addrs din, nblk off))) \<subseteq> {0}"
    unfolding tail_zero_def appended_def file_of_def node_at_def by blast+
  have c: "cut_ok (img st1) (d_addrs din, nblk off)" by (rule finvD(5) [OF f1]) simp
  have "nblk off \<le> MAXFILE" using c by (simp add: cut_ok_def)
  then have "off \<le> MAXFILE * BSIZE" by (rule le_trans [OF off_le_nblk mult_le_mono1])
  then have u: "unat (of_nat off :: uint) = off"
    by (simp add: MAXFILE_def NDIRECT_def NINDIRECT_def BSIZE_def unat_of_nat take_bit_nat_eq_self)
  have len: "length (d_addrs (din\<lparr>d_size := of_nat off\<rparr>)) = NDIRECT + 1" using c by (simp add: cut_ok_def)
  have "\<forall>b. length (img st1 b) = BSIZE" using finvD(1) [OF f1] by blast
  note w = winode_Some [OF iN this len w]
  have st1: "inode_at st1 j = inode_at st j" if "j < NIN" for j
    using lo inode_block [OF that] meta_block(1) by (simp add: inode_at_def)
  have other: "inode_at st' j = inode_at st j" if "j \<noteq> i" "j < NIN" for j using w(2) [OF that(1)] st1 [OF that(2)] by simp
  have self: "node_at st' i = (d_addrs din, nblk off)" using w(1) u by (simp add: node_at_def)
  have lt: "j < NIN" if "j < freeinode st" for j using m that by (simp add: mk_inv_def)
  have fl: "finv (img st') (freeblock st1) ((d_addrs din, nblk off) # map (node_at st) ?I)"
    "\<forall>N \<in> set ((d_addrs din, nblk off) # map (node_at st) ?I). dat (img st') N = dat (img st1) N"
    using finv_low [OF f1, of "img st'"] w(3,4) meta_block(1) by auto
  have I': "map (node_at st') [1..<freeinode st] = map (node_at st) [1..<i] @ (d_addrs din, nblk off) # map (node_at st) [Suc i..<freeinode st]"
    using other lt i unfolding I self [symmetric] by (simp add: node_at_def)
  show fi': "freeinode st' = freeinode st" using w(6) fi by simp
  have "finv (img st') (freeblock st') (map (node_at st') [1..<freeinode st])"
    using fl(1) unfolding I' w(5) finv_move by simp
  note inv = this
  show "file_of st' i = file_of st i @ p" using w(1) u self fl(2) ct by (simp add: file_of_def)
  have k: "dat (img st') (node_at st j) = dat (img st) (node_at st j)" if "j \<in> {1..<freeinode st} - {i}" for j
  proof -
    have "j \<in> set ?I" using that by auto
    then have "node_at st j \<in> set (map (node_at st) ?I)" unfolding set_map by (rule imageI)
    then show ?thesis using fl(2) ot by simp
  qed
  have "tail_zero st' j" if "j \<in> {1..<freeinode st}" for j
  proof (cases "j = i")
    case True
    have "tail_zero st i" using m i by (simp add: mk_inv_def)
    then show ?thesis using True tz w(1) u self fl(2) by (simp add: tail_zero_def)
  next
    case False
    have "tail_zero st j" using m that by (simp add: mk_inv_def)
    then show ?thesis using other [OF False] lt k [of j] that False by (simp add: tail_zero_def node_at_def)
  qed
  then show "mk_inv st'" using m fi' inv by (simp add: mk_inv_def)
  have "img st' b = img st b" if "b \<le> 1" for b using w(4) [of b] lo that meta_block by (simp add: nmeta_def)
  then show "kept st st' ({1..<freeinode st} - {i})" using other lt k by (auto simp: kept_def file_of_def node_at_def)
  have "d_type din = d_type ?d" "d_nlink din = d_nlink ?d" by (subst din, simp)+
  then show "d_type (inode_at st' i) = d_type (inode_at st i)" "d_nlink (inode_at st' i) = d_nlink (inode_at st i)"
    "unat (d_size (inode_at st' i)) = unat (d_size (inode_at st i)) + length p" using w(1) u off by simp_all
qed

section \<open>The image\<close>

lemma kept_trans: "\<lbrakk>kept st st1 I; kept st1 st2 J; K \<subseteq> I \<inter> J\<rbrakk> \<Longrightarrow> kept st st2 K"
  unfolding kept_def subset_iff by simp

text \<open>All reads of a file are appended.\<close>

lemma append_chunks_spec:
  assumes "mk_inv st" "1 \<le> i" "i < freeinode st" "append_chunks i cs st = Some st'"
  shows "mk_inv st' \<and> freeinode st' = freeinode st \<and> kept st st' ({1..<freeinode st} - {i}) \<and>
    file_of st' i = file_of st i @ concat cs \<and> d_type (inode_at st' i) = d_type (inode_at st i) \<and>
    d_nlink (inode_at st' i) = d_nlink (inode_at st i) \<and>
    unat (d_size (inode_at st' i)) = unat (d_size (inode_at st i)) + length (concat cs)"
  using assms
proof (induction cs arbitrary: st)
  case Nil
  then show ?case by (simp add: kept_def)
next
  case (Cons c cs)
  obtain st1 where s: "iappend i c st = Some st1" "append_chunks i cs st1 = Some st'"
    using Cons.prems(4) by (auto split: bind_splits)
  note a = iappend_spec [OF Cons.prems(1-3) s(1)]
  have "kept st st' ({1..<freeinode st} - {i})" if "kept st1 st' ({1..<freeinode st1} - {i})"
    using kept_trans [OF a(3) that] a(2) by simp
  then show ?case using Cons.IH [OF a(1) Cons.prems(2) _ s(2)] a Cons.prems(3) by simp
qed

definition stored :: "mkstate \<Rightarrow> nat \<Rightarrow> ushort \<Rightarrow> uchar list \<Rightarrow> bool" where
  "stored st i ty bs \<longleftrightarrow>
     d_type (inode_at st i) = ty \<and> d_nlink (inode_at st i) = 1 \<and> unat (d_size (inode_at st i)) = length bs \<and> file_of st i = bs"

lemma stored_kept: "\<lbrakk>stored st i ty bs; kept st st' I; i \<in> I\<rbrakk> \<Longrightarrow> stored st' i ty bs"
  by (simp add: stored_def kept_def)

lemma iappend_stored:
  assumes "mk_inv st" "1 \<le> i" "i < freeinode st" "iappend i p st = Some st'" "stored st i ty bs"
  shows "stored st' i ty (bs @ p)"
  using iappend_spec [OF assms(1-4)] assms(5) by (simp add: stored_def)

definition entry_of :: "nat \<Rightarrow> uchar list \<times> uchar list list \<Rightarrow> uchar list" where
  "entry_of i f = mk_dirent i (skip_underscore (shortname (fst f)))"

lemma add_file_spec:
  assumes m: "mk_inv st" and i: "1 < freeinode st" "freeinode st < NIN" and a: "add_file 1 f st = Some st'"
    and r: "stored st 1 T_DIR es"
  shows "mk_inv st'" "freeinode st' = Suc (freeinode st)" "kept st st' {2..<freeinode st}"
    "stored st' (freeinode st) T_FILE (concat (snd f))" "stored st' 1 T_DIR (es @ entry_of (freeinode st) f)"
proof -
  let ?i = "freeinode st"
  obtain n st1 st2 where s: "m_ialloc T_FILE st = Some (n, st1)" "iappend 1 (entry_of n f) st1 = Some st2"
      "append_chunks n (snd f) st2 = Some st'"
    using a by (auto simp: add_file_def entry_of_def Let_def split: bind_splits if_splits)
  note b = ialloc_spec [OF m i(2) s(1)]
  have n: "n = ?i" by (rule b(1))
  have f1: "freeinode st1 = Suc ?i" using b(2) n by simp
  have r1: "stored st1 1 T_DIR es" by (rule stored_kept [OF r b(4)]) (use i n in simp)
  have "1 < freeinode st1" using f1 i by simp
  note c = iappend_spec [OF b(3) order_refl this s(2)]
  have r2: "stored st2 1 T_DIR (es @ entry_of n f)" by (rule iappend_stored [OF b(3) order_refl _ s(2) r1]) (use f1 i in simp)
  have k2: "stored st2 n T_FILE []"
    by (rule stored_kept [OF _ c(3)]) (use b(5-8) f1 n i in \<open>simp_all add: stored_def\<close>)
  have "n < freeinode st2" "1 \<le> n" using c(2) f1 n i by simp_all
  note d = append_chunks_spec [OF c(1) this(2,1) s(3)]
  show "mk_inv st'" "freeinode st' = Suc ?i" using d c(2) f1 by simp_all
  show "stored st' ?i T_FILE (concat (snd f))" using d k2 n by (simp add: stored_def)
  have "stored st' 1 T_DIR (es @ entry_of n f)" by (rule stored_kept [OF r2]) (use d c(2) f1 n i in auto)
  then show "stored st' 1 T_DIR (es @ entry_of ?i f)" using n by simp
  have "kept st st2 {2..<?i}" by (rule kept_trans [OF b(4) c(3)]) (use f1 n in auto)
  moreover have "kept st2 st' ({1..<freeinode st2} - {n})" using d by simp
  ultimately show "kept st st' {2..<?i}" by (rule kept_trans) (use c(2) f1 n in auto)
qed

fun entries :: "nat \<Rightarrow> (uchar list \<times> uchar list list) list \<Rightarrow> uchar list" where
  "entries i [] = []"
| "entries i (f # fs) = entry_of i f @ entries (Suc i) fs"

lemma add_files_spec:
  assumes "mk_inv st" "1 < freeinode st" "freeinode st + length fs \<le> NIN" "add_files 1 fs st = Some st'" "stored st 1 T_DIR es"
  shows "mk_inv st' \<and> freeinode st' = freeinode st + length fs \<and> kept st st' {2..<freeinode st} \<and>
    (\<forall>k < length fs. stored st' (freeinode st + k) T_FILE (concat (snd (fs ! k)))) \<and>
    stored st' 1 T_DIR (es @ entries (freeinode st) fs)"
  using assms
proof (induction fs arbitrary: st es)
  case Nil
  then show ?case by (simp add: kept_def)
next
  case (Cons f fs)
  obtain st1 where s: "add_file 1 f st = Some st1" "add_files 1 fs st1 = Some st'"
    using Cons.prems(4) by (auto split: bind_splits)
  have "freeinode st < NIN" using Cons.prems(3) by simp
  note a = add_file_spec [OF Cons.prems(1,2) this s(1) Cons.prems(5)]
  have IH: "mk_inv st' \<and> freeinode st' = freeinode st1 + length fs \<and> kept st1 st' {2..<freeinode st1} \<and>
    (\<forall>k < length fs. stored st' (freeinode st1 + k) T_FILE (concat (snd (fs ! k)))) \<and>
    stored st' 1 T_DIR ((es @ entry_of (freeinode st) f) @ entries (freeinode st1) fs)"
    by (rule Cons.IH [OF a(1) _ _ s(2) a(5)]) (use a(2) Cons.prems in simp_all)
  have "kept st st' {2..<freeinode st}" by (rule kept_trans [OF a(3)]) (use IH a(2) in auto)
  moreover have "stored st' (freeinode st + k) T_FILE (concat (snd ((f # fs) ! k)))" if "k < length (f # fs)" for k
  proof (cases k)
    case 0
    have "stored st' (freeinode st) T_FILE (concat (snd f))" by (rule stored_kept [OF a(4)]) (use IH a(2) Cons.prems in auto)
    then show ?thesis using 0 by simp
  next
    case (Suc j)
    then show ?thesis using that IH a(2) by simp
  qed
  ultimately show ?case using IH a(2) by simp
qed

lemma length_entry: "length (entry_of i f) = 16"
  by (simp add: entry_of_def mk_dirent_def DIRSIZ_def)

lemma length_entries: "length (entries i fs) = 16 * length fs"
  by (induction fs arbitrary: i) (simp_all add: length_entry)

text \<open>The bitmap, as the kernel reads it.\<close>

lemma bitmap_free:
  assumes "used \<le> BSIZE * 8" "c < BSIZE * 8"
  defines "bm \<equiv> fold (\<lambda>i buf. buf[i div 8 := buf ! (i div 8) OR bit_mask i]) [0..<used] (replicate BSIZE 0)"
  shows "length bm = BSIZE" "bit_free bm c \<longleftrightarrow> used \<le> c"
proof -
  have "length bm = BSIZE \<and> (bit_free bm c \<longleftrightarrow> used \<le> c)" unfolding bm_def using assms(1)
  proof (induction used)
    case 0
    then show ?case using assms(2) by (simp add: bit_free_def)
  next
    case (Suc n)
    then show ?case by (auto simp: bit_free_set)
  qed
  then show "length bm = BSIZE" "bit_free bm c \<longleftrightarrow> used \<le> c" by auto
qed

lemma superblock_read: "superblock_of (put_bytes zeroes 0 (sb_bytes mkfs_sb)) = mkfs_sb"
proof -
  let ?as = "[sb_magic mkfs_sb, sb_size mkfs_sb, sb_nblocks mkfs_sb, sb_ninodes mkfs_sb, sb_nlog mkfs_sb, sb_logstart mkfs_sb,
    sb_inodestart mkfs_sb, sb_bmapstart mkfs_sb]"
  have g: "get32 (put_bytes zeroes 0 (sb_bytes mkfs_sb)) (4 * k) = ?as ! k" if "k < 8" for k
    using get32_put_addrs [of 0 ?as zeroes k] that by (simp add: sb_bytes_def zeroes_def BSIZE_def)
  show ?thesis unfolding superblock_of_def
    using g [of 0] g [of 1] g [of 2] g [of 3] g [of 4] g [of 5] g [of 6] g [of 7] by simp
qed

lemma mkfs_start_inv: "mk_inv mkfs_start"
proof -
  have "length (sb_bytes mkfs_sb) \<le> BSIZE" by (simp add: sb_bytes_def BSIZE_def)
  then have "length (img mkfs_start b) = BSIZE" for b
    by (simp add: mkfs_start_def wsect_def zeroes_def put_bytes_def)
  moreover have "img mkfs_start b = zeroes" if "nmeta \<le> b" for b using that by (simp add: mkfs_start_def wsect_def nmeta_def)
  ultimately show ?thesis using meta_block by (auto simp: mk_inv_def finv_def mkfs_start_def wsect_def layout_defs)
qed

text \<open>The last two steps touch neither the files nor the other inodes.\<close>

lemma finish_spec:
  assumes m: "mk_inv st" and i: "1 < freeinode st" and f: "fix_root 1 st = Some st1" and b: "m_balloc (freeblock st1) st1 = Some st'"
    and s: "unat (d_size (inode_at st 1)) = len" "len mod BSIZE \<noteq> 0" "len \<le> MAXFILE * BSIZE"
  shows "finv (img st') (freeblock st') (map (node_at st') [1..<freeinode st])" "kept st st' {2..<freeinode st}"
    "freeblock st' = freeblock st" "d_type (inode_at st' 1) = d_type (inode_at st 1)"
    "unat (d_size (inode_at st' 1)) = nblk len * BSIZE" "file_of st' 1 = dat (img st) (node_at st 1)"
    "\<And>c. c < BSIZE * 8 \<Longrightarrow> bit_free (img st' bmapstart) c \<longleftrightarrow> freeblock st \<le> c"
proof -
  let ?d = "inode_at st 1" and ?sz = "(len div BSIZE + 1) * BSIZE" and ?ns = "map (node_at st) [1..<freeinode st]"
  have fv: "finv (img st) (freeblock st) ?ns" using m by (simp add: mk_inv_def)
  have N: "1 < NIN" "\<And>j. j < freeinode st \<Longrightarrow> j < NIN" using m i by (simp_all add: mk_inv_def)
  have w: "winode 1 (?d\<lparr>d_size := of_nat ?sz\<rparr>) st = Some st1"
    using f rinode_Some [OF N(1)] s(1) by (simp add: fix_root_def Let_def)
  have nb: "nblk len = len div BSIZE + 1" using s(2) by (simp add: nblk_div)
  have "len div BSIZE \<le> MAXFILE" using div_le_mono [OF s(3), of BSIZE] by (simp add: BSIZE_def)
  then have "?sz < 2 ^ 32" by (simp add: MAXFILE_def NDIRECT_def NINDIRECT_def BSIZE_def)
  then have u: "unat (of_nat ?sz :: uint) = ?sz" by (simp only: unat_of_nat take_bit_nat_eq_self_iff len_bit0 len_num1) (simp add: take_bit_nat_eq_self)
  have "length (d_addrs (?d\<lparr>d_size := of_nat ?sz\<rparr>)) = NDIRECT + 1" by (simp add: inode_at_def get_dinode_def)
  note w = winode_Some [OF N(1) _ this w]
  have l: "\<forall>b. length (img st b) = BSIZE" using finvD(1) [OF fv] by blast
  define bm where "bm = fold (\<lambda>i buf. buf[i div 8 := buf ! (i div 8) OR bit_mask i]) [0..<freeblock st1] (replicate BSIZE 0)"
  have b': "freeblock st1 < BSIZE * 8" "st' = wsect bmapstart bm st1"
    using b by (auto simp: m_balloc_def bm_def Let_def split: if_splits)
  have bm: "length bm = BSIZE" "c < BSIZE * 8 \<Longrightarrow> bit_free bm c \<longleftrightarrow> freeblock st1 \<le> c" for c
    using bitmap_free [of "freeblock st1" c] bitmap_free(1) [of "freeblock st1" 0] b'(1) by (auto simp: bm_def BSIZE_def)
  have im: "img st' c = (if c = bmapstart then bm else img st1 c)" for c using b'(2) by (simp add: wsect_def)
  have in1: "inode_at st' j = inode_at st1 j" if "j < NIN" for j using inode_block [OF that] im by (simp add: inode_at_def)
  have i1: "inode_at st' 1 = ?d\<lparr>d_size := of_nat ?sz\<rparr>" using in1 [OF N(1)] w(1) l by simp
  have ij: "inode_at st' j = inode_at st j" if "j \<noteq> 1" "j < freeinode st" for j using in1 [OF N(2) [OF that(2)]] w(2) [OF l that(1)] by simp
  have nd: "node_at st' j = node_at st j" if "j < freeinode st" for j
    using that ij [of j] i1 u s(1) nb nblk_mult [of "len div BSIZE + 1"] by (cases "j = 1") (simp_all add: node_at_def)
  then have ns: "map (node_at st') [1..<freeinode st] = ?ns" by simp
  have lo: "finv (img st') (freeblock st) ?ns" "\<forall>N \<in> set ?ns. dat (img st') N = dat (img st) N"
    using finv_low [OF fv, of "img st'"] im w(3,4) [OF l] bm(1) meta_block(1) by auto
  show fb: "freeblock st' = freeblock st" using b'(2) w(5) [OF l] by (simp add: wsect_def)
  show "finv (img st') (freeblock st') (map (node_at st') [1..<freeinode st])" unfolding fb ns by (rule lo(1))
  have "img st' c = img st c" if "c \<le> 1" for c using im [of c] w(4) [OF l, of c] that by (simp add: bmapstart_def)
  then show "kept st st' {2..<freeinode st}" using ij nd lo(2) by (auto simp: kept_def file_of_def)
  show "d_type (inode_at st' 1) = d_type ?d" "unat (d_size (inode_at st' 1)) = nblk len * BSIZE" using i1 u nb by simp_all
  have "dat (img st') (node_at st' 1) = dat (img st) (node_at st 1)" using nd [OF i] lo(2) i by simp
  moreover have "length (dat (img st') (node_at st' 1)) = nblk len * BSIZE"
    using length_dat [OF lo(1)] nd [OF i] s(1) by (simp add: node_at_def)
  ultimately show "file_of st' 1 = dat (img st) (node_at st 1)" using i1 u nb by (simp add: file_of_def)
  show "bit_free (img st' bmapstart) c \<longleftrightarrow> freeblock st \<le> c" if "c < BSIZE * 8" for c using bm(2) [OF that] im w(5) [OF l] by simp
qed

section \<open>Success\<close>

text \<open>The number of blocks a file of a given size needs, with its index block.\<close>

definition need :: "nat \<Rightarrow> nat" where
  "need len = nblk len + (if NDIRECT < nblk len then 1 else 0)"

lemma length_blks: "length (blks V (a, n)) = n + (if NDIRECT < n then 1 else 0)"
  by (simp add: blks_def)

lemma nblk_mono: "x \<le> y \<Longrightarrow> nblk x \<le> nblk y"
  unfolding nblk_def by (intro div_le_mono) simp

lemma need_mono: "x \<le> y \<Longrightarrow> need x \<le> need y"
  using nblk_mono [of x y] by (auto simp: need_def)

lemma finv_count: "finv V fb ((a, nblk off) # ns) \<Longrightarrow> fb = nmeta + need off + (\<Sum>M\<leftarrow>ns. snd M + (if NDIRECT < snd M then 1 else 0))"
proof -
  have "length (concat (map (blks V) ns)) = (\<Sum>M\<leftarrow>ns. snd M + (if NDIRECT < snd M then 1 else 0))"
    by (induction ns) (auto simp: length_blks)
  then show "finv V fb ((a, nblk off) # ns) \<Longrightarrow> ?thesis" by (simp add: finv_def need_def length_blks)
qed

lemma iappend_block_total:
  assumes i: "finv (img st) (freeblock st) ((d_addrs din, n) # ns)"
    and f: "fbn < MAXFILE" "fbn < n \<or> fbn = n \<and> freeblock st + (if n = NDIRECT then 2 else 1) \<le> FSSIZE"
  shows "\<exists>x din' st'. iappend_block fbn din st = Some (x, din', st') \<and> x < FSSIZE"
proof -
  let ?V = "img st" and ?fb = "freeblock st" and ?a = "d_addrs din"
  have r: "x < FSSIZE" if "x \<in> set (blks ?V (?a, n))" for x using finv_range [OF i _ that] finvD(3) [OF i] by simp
  have c: "cut_ok ?V (?a, n)" by (rule finvD(5) [OF i]) simp
  have l: "length ?a = NDIRECT + 1" using c by (simp add: cut_ok_def)
  have u: "unat (of_nat ?fb :: uint) = ?fb" using finvD(3) [OF i] by (simp add: unat_fresh)
  show ?thesis
  proof (cases "fbn < n")
    case True
    have z: "adr ?V ?a fbn \<noteq> 0" by (rule adr_nonzero [OF i True])
    have x: "adr ?V ?a fbn < FSSIZE" using True by (intro r) (simp add: blks_def)
    have d: "\<not> fbn < NDIRECT \<Longrightarrow> ?a ! NDIRECT \<noteq> 0 \<and> ind ?a < FSSIZE"
      using ind_nonzero [OF i] True r [of "ind ?a"] by (simp add: blks_def)
    then show ?thesis using z x by (cases "fbn < NDIRECT") (auto simp: iappend_block_def adr_def ind_def rsect_def Let_def)
  next
    case False
    then have n: "fbn = n" "?fb + (if n = NDIRECT then 2 else 1) \<le> FSSIZE" using f by auto
    consider "n < NDIRECT" | "n = NDIRECT" | "NDIRECT < n" by linarith
    then show ?thesis
    proof cases
      case 1
      then have "?a ! n = 0" using c by (simp add: cut_ok_def)
      then show ?thesis using 1 n l u by (simp add: iappend_block_def)
    next
      case 2
      then have "?a ! NDIRECT = 0" using c by (simp add: cut_ok_def)
      moreover have "get32 (?V ?fb) 0 = 0" using finvD(2) [OF i] zeroes_get32 [of 0] by (simp add: BSIZE_def)
      moreover have "4 \<le> length (?V ?fb)" using finvD(1) [OF i, of ?fb] by (simp add: BSIZE_def)
      moreover have "unat (of_nat (?fb + 1) :: uint) = ?fb + 1" by (rule unat_fresh) (use n 2 in simp)
      ultimately show ?thesis using 2 n l u by (simp add: iappend_block_def rsect_def Let_def enc_simps)
    next
      case 3
      then have "?a ! NDIRECT \<noteq> 0" "ind ?a < FSSIZE" using ind_nonzero [OF i] r [of "ind ?a"] by (simp_all add: blks_def)
      moreover have "get32 (?V (ind ?a)) (4 * (n - NDIRECT)) = 0" using c f(1) n 3 by (simp add: cut_ok_def)
      moreover have "4 * (n - NDIRECT) + 4 \<le> length (?V (ind ?a))"
        using f(1) n finvD(1) [OF i, of "ind ?a"] by (simp add: MAXFILE_def NDIRECT_def NINDIRECT_def BSIZE_def)
      ultimately show ?thesis using 3 n u by (simp add: iappend_block_def rsect_def ind_def Let_def enc_simps)
    qed
  qed
qed

lemma need_next: "off mod BSIZE = 0 \<Longrightarrow> nblk k = Suc (off div BSIZE) \<Longrightarrow> need k = need off + (if off div BSIZE = NDIRECT then 2 else 1)"
  by (auto simp: need_def nblk_div [of off])

lemma iappend_loop_total:
  assumes "finv (img st) (freeblock st) ((d_addrs din, nblk off) # ns)" "off + length p \<le> MAXFILE * BSIZE"
    "freeblock st + need (off + length p) \<le> FSSIZE + need off"
  shows "\<exists>r. iappend_loop p din off st = Some r"
  using assms
proof (induction p din off st rule: iappend_loop.induct)
  case (1 p din off st)
  let ?f = "off div BSIZE"
  define n1 where "n1 = min (length p) ((?f + 1) * BSIZE - off)"
  show ?case
  proof (cases "p = []")
    case True
    then show ?thesis by (subst iappend_loop.simps) simp
  next
    case False
    have n1: "0 < n1" "n1 \<le> length p" "off + n1 \<le> (?f + 1) * BSIZE"
      using False off_bounds(2) [of off] by (auto simp: n1_def min_def)
    have nb: "nblk (off + n1) = Suc ?f" by (rule nblk_piece [OF n1(1,3)])
    have mono: "need (off + n1) \<le> need (off + length p)" by (rule need_mono) (use n1 in simp)
    have "off < MAXFILE * BSIZE" using 1(3) False by (cases p) simp_all
    then have f: "?f < MAXFILE" by (simp add: less_mult_imp_div_less)
    have "?f < nblk off \<or> ?f = nblk off \<and> freeblock st + (if nblk off = NDIRECT then 2 else 1) \<le> FSSIZE"
      using need_next [of off "off + n1"] nb mono 1(4) by (cases "off mod BSIZE = 0") (auto simp: nblk_div [of off] split: if_splits)
    then obtain x din1 st1 where b: "iappend_block ?f din st = Some (x, din1, st1)" "x < FSSIZE"
      using iappend_block_total [OF 1(2) f] by blast
    note c = choose_block [OF 1(2) f b]
    let ?st = "wsect x (put_bytes (img st1 x) (off - ?f * BSIZE) (take n1 p)) st1"
    have w: "img ?st = (img st1)(x := put_bytes (img st1 x) (off - ?f * BSIZE) (take n1 p))" "freeblock ?st = freeblock st1"
      by (simp_all add: wsect_def)
    have q: "off + length (take n1 p) \<le> (?f + 1) * BSIZE" using n1 by simp
    have v: "finv (img ?st) (freeblock ?st) ((d_addrs din1, nblk (off + n1)) # ns)"
      using write_piece(1) [OF c(1) q, folded c(2), folded w(1)] nb w(2) by simp
    have "freeblock ?st + need off = freeblock st + need (off + n1)"
      using finv_count [OF v] finv_count [OF 1(2)] by simp
    then have "\<exists>r. iappend_loop (drop n1 p) din1 (off + n1) ?st = Some r"
      using 1(1) [OF False refl n1_def _ b(1) refl refl, of "img st1 x"] f b(2) v 1(3,4) n1(2) by (simp add: rsect_def)
    then show ?thesis using False f b by (subst iappend_loop.simps) (simp add: Let_def n1_def rsect_def)
  qed
qed

definition size_of :: "mkstate \<Rightarrow> nat \<Rightarrow> nat" where
  "size_of st i = unat (d_size (inode_at st i))"

lemma mk_count: "mk_inv st \<Longrightarrow> freeblock st = nmeta + (\<Sum>j\<leftarrow>[1..<freeinode st]. need (size_of st j))"
proof -
  have "length (concat (map (blks V) (map (node_at st) js))) = (\<Sum>j\<leftarrow>js. need (size_of st j))" for V js
    by (induction js) (auto simp: node_at_def length_blks need_def size_of_def)
  then show "mk_inv st \<Longrightarrow> ?thesis" by (simp add: mk_inv_def finv_def)
qed

lemma iappend_total:
  assumes m: "mk_inv st" and i: "1 \<le> i" "i < freeinode st"
    and b: "size_of st i + length p \<le> MAXFILE * BSIZE" "freeblock st + need (size_of st i + length p) \<le> FSSIZE + need (size_of st i)"
  shows "\<exists>st'. iappend i p st = Some st' \<and> freeblock st' + need (size_of st i) = freeblock st + need (size_of st i + length p)"
proof -
  have N: "i < NIN" using m i by (simp add: mk_inv_def)
  have I: "[1..<freeinode st] = [1..<i] @ i # [Suc i..<freeinode st]" by (rule upt_around [OF i])
  have f: "finv (img st) (freeblock st) ((d_addrs (inode_at st i), nblk (size_of st i)) # map (node_at st) ([1..<i] @ [Suc i..<freeinode st]))"
    using mk_inv_at [OF m i] by (simp add: node_at_def size_of_def)
  obtain din off st1 where l: "iappend_loop p (inode_at st i) (size_of st i) st = Some (din, off, st1)"
    using iappend_loop_total [OF f b] by auto
  obtain st' where s: "iappend i p st = Some st'" 
    using l rinode_Some [OF N] inode_block [OF N] meta_block
    by (auto simp: iappend_def size_of_def winode_def rsect_def Let_def)
  note a = iappend_spec [OF m i s]
  have o: "size_of st' j = size_of st j" if "j \<in> {1..<freeinode st} - {i}" for j using a(3) that by (simp add: kept_def size_of_def)
  have eq: "(\<Sum>j\<leftarrow>js. need (size_of st' j)) = (\<Sum>j\<leftarrow>js. need (size_of st j))" if "set js \<subseteq> {1..<freeinode st} - {i}" for js
    by (intro arg_cong [of _ _ sum_list] map_cong refl) (metis o subsetD that)
  have "set [1..<i] \<subseteq> {1..<freeinode st} - {i}" "set [Suc i..<freeinode st] \<subseteq> {1..<freeinode st} - {i}" using i by auto
  from this [THEN eq] have "freeblock st' + need (size_of st i) = freeblock st + need (size_of st' i)"
    using i mk_count [OF m] mk_count [OF a(1)] unfolding a(2) I by simp
  then show ?thesis using s a(7) by (simp add: size_of_def)
qed

lemma append_chunks_total:
  assumes "mk_inv st" "1 \<le> i" "i < freeinode st" "size_of st i + length (concat cs) \<le> MAXFILE * BSIZE"
    "freeblock st + need (size_of st i + length (concat cs)) \<le> FSSIZE + need (size_of st i)"
  shows "\<exists>st'. append_chunks i cs st = Some st' \<and> freeblock st' + need (size_of st i) = freeblock st + need (size_of st i + length (concat cs))"
  using assms
proof (induction cs arbitrary: st)
  case (Cons c cs)
  have mono: "need (size_of st i + length c) \<le> need (size_of st i + length (concat (c # cs)))" by (rule need_mono) simp
  obtain st1 where s: "iappend i c st = Some st1" "freeblock st1 + need (size_of st i) = freeblock st + need (size_of st i + length c)"
    using iappend_total [OF Cons.prems(1-3), of c] Cons.prems(4,5) mono by auto
  note a = iappend_spec [OF Cons.prems(1-3) s(1)]
  have z: "size_of st1 i = size_of st i + length c" using a(7) by (simp add: size_of_def)
  obtain st' where "append_chunks i cs st1 = Some st'" "freeblock st' + need (size_of st1 i) = freeblock st1 + need (size_of st1 i + length (concat cs))"
    using Cons.IH [OF a(1) Cons.prems(2)] Cons.prems(3-5) a(2) s(2) z by (auto simp: add.assoc)
  then show ?case using s z by (auto simp: add.assoc)
qed simp

definition no_slash :: "uchar list \<Rightarrow> bool" where
  "no_slash arg \<longleftrightarrow> of_char CHR ''/'' \<notin> set (shortname arg)"

lemma add_file_total:
  assumes m: "mk_inv st" and i: "1 < freeinode st" "freeinode st < NIN" and r: "stored st 1 T_DIR es" and n: "no_slash (fst f)"
    and s: "length es + 16 \<le> MAXFILE * BSIZE" "length (concat (snd f)) \<le> MAXFILE * BSIZE"
    and b: "freeblock st + need (length es + 16) + need (length (concat (snd f))) \<le> FSSIZE + need (length es)"
  shows "\<exists>st'. add_file 1 f st = Some st' \<and>
    freeblock st' + need (length es) = freeblock st + need (length es + 16) + need (length (concat (snd f)))"
proof -
  obtain k st1 where s1: "m_ialloc T_FILE st = Some (k, st1)"
    using inode_block [OF i(2)] meta_block by (auto simp: m_ialloc_def winode_def rsect_def Let_def)
  note a = ialloc_spec [OF m i(2) s1]
  have f1: "freeblock st1 = freeblock st"
    using s1 by (auto simp: m_ialloc_def winode_def rsect_def wsect_def Let_def split: if_splits)
  have n1: "1 < freeinode st1" "k = freeinode st" "freeinode st1 = Suc k" using a(1,2) i by auto
  have r1: "stored st1 1 T_DIR es" by (rule stored_kept [OF r a(4)]) (use i a(1) in simp)
  then have z1: "size_of st1 1 = length es" by (simp add: stored_def size_of_def)
  obtain st2 where s2: "iappend 1 (entry_of k f) st1 = Some st2" "freeblock st2 + need (length es) = freeblock st + need (length es + 16)"
    using iappend_total [OF a(3) order_refl n1(1), of "entry_of k f"] z1 s(1) b f1 by (auto simp: length_entry)
  note c = iappend_spec [OF a(3) order_refl n1(1) s2(1)]
  have "inode_at st2 k = inode_at st1 k" using c(3) n1 i by (simp add: kept_def)
  then have z2: "size_of st2 k = 0" using a(8) by (simp add: size_of_def)
  have "need 0 = 0" by (simp add: need_def nblk_def BSIZE_def)
  then obtain st' where "append_chunks k (snd f) st2 = Some st'" "freeblock st' = freeblock st2 + need (length (concat (snd f)))"
    using append_chunks_total [OF c(1), of k "snd f"] z2 n1 c(2) i s b s2(2) by auto
  then show ?thesis using s1 s2 n by (auto simp: add_file_def entry_of_def no_slash_def Let_def)
qed

lemma add_files_total:
  assumes "mk_inv st" "1 < freeinode st" "freeinode st + length fs \<le> NIN" "stored st 1 T_DIR es"
    "\<forall>f \<in> set fs. no_slash (fst f) \<and> length (concat (snd f)) \<le> MAXFILE * BSIZE" "length es + 16 * length fs \<le> MAXFILE * BSIZE"
    "freeblock st + need (length es + 16 * length fs) + (\<Sum>f\<leftarrow>fs. need (length (concat (snd f)))) \<le> FSSIZE + need (length es)"
  shows "\<exists>st'. add_files 1 fs st = Some st'"
  using assms
proof (induction fs arbitrary: st es)
  case (Cons f fs)
  have mono: "need (length es + 16) \<le> need (length es + 16 * length (f # fs))" by (rule need_mono) simp
  have N: "freeinode st < NIN" using Cons.prems(3) by simp
  obtain st1 where s: "add_file 1 f st = Some st1"
      "freeblock st1 + need (length es) = freeblock st + need (length es + 16) + need (length (concat (snd f)))"
    using add_file_total [OF Cons.prems(1,2) N Cons.prems(4), of f] Cons.prems(5-7) mono by auto
  note a = add_file_spec [OF Cons.prems(1,2) N s(1) Cons.prems(4)]
  have "\<exists>st'. add_files 1 fs st1 = Some st'"
    by (rule Cons.IH [OF a(1) _ _ a(5)]) (use Cons.prems(2,3,5-7) a(2) s(2) in \<open>simp_all add: length_entry add.assoc\<close>)
  then show ?case using s(1) by simp
qed simp

section \<open>Result\<close>

definition dots :: "uchar list" where
  "dots = mk_dirent 1 (bytes ''.'') @ mk_dirent 1 (bytes ''..'')"

text \<open>The files fit: in their inodes, in the directory's, and in the image.\<close>

definition fits :: "(uchar list \<times> uchar list list) list \<Rightarrow> bool" where
  "fits args \<longleftrightarrow>
     (\<forall>f \<in> set args. no_slash (fst f) \<and> length (concat (snd f)) \<le> MAXFILE * BSIZE) \<and>
     16 * (length args + 2) \<le> MAXFILE * BSIZE \<and>
     nmeta + need (16 * (length args + 2)) + (\<Sum>f\<leftarrow>args. need (length (concat (snd f)))) \<le> FSSIZE"

lemma length_dots: "length dots = 32" "length (mk_dirent i nm) = 16"
  by (simp_all add: dots_def mk_dirent_def DIRSIZ_def)

text \<open>The state before the files are added.\<close>

definition root_state :: "mkstate \<Rightarrow> bool" where
  "root_state st \<longleftrightarrow>
     (\<forall>args. mkfs_main args = Option.bind (add_files 1 args st) (\<lambda>st. Option.bind (fix_root 1 st) (\<lambda>st. m_balloc (freeblock st) st))) \<and>
     mk_inv st \<and> freeinode st = 2 \<and> stored st 1 T_DIR dots \<and> img st 1 = put_bytes zeroes 0 (sb_bytes mkfs_sb) \<and> freeblock st = nmeta + need 32"

lemma root_spec: "\<exists>st. root_state st"
proof -
  have i0: "freeinode mkfs_start < NIN" by (simp add: mkfs_start_def wsect_def layout_defs)
  obtain k st0 where s0: "m_ialloc T_DIR mkfs_start = Some (k, st0)"
    using inode_block [OF i0] meta_block by (auto simp: m_ialloc_def winode_def rsect_def Let_def)
  note a = ialloc_spec [OF mkfs_start_inv i0 s0]
  have k: "k = 1" "freeinode st0 = 2" using a(1,2) by (simp_all add: mkfs_start_def wsect_def)
  have z0: "stored st0 1 T_DIR []" using a(5-8) k by (simp add: stored_def)
  have n: "need 0 = 0" "need 16 = 1" "need 32 = 1" by (simp_all add: need_def nblk_def BSIZE_def NDIRECT_def)
  have b0: "freeblock st0 = nmeta" using mk_count [OF a(3)] k z0 n by (simp add: stored_def size_of_def numeral_2_eq_2)
  have l0: "1 < freeinode st0" using k by simp
  obtain st1 where s1: "iappend 1 (mk_dirent 1 (bytes ''.'')) st0 = Some st1"
    using iappend_total [OF a(3) order_refl l0, of "mk_dirent 1 (bytes ''.'')"] z0 b0 n meta_block
    by (auto simp: stored_def size_of_def length_dots MAXFILE_def NDIRECT_def BSIZE_def)
  note c = iappend_spec [OF a(3) order_refl l0 s1]
  have z1: "stored st1 1 T_DIR (mk_dirent 1 (bytes ''.''))" using iappend_stored [OF a(3) order_refl l0 s1 z0] by simp
  have l1: "1 < freeinode st1" using c(2) k by simp
  have b1: "freeblock st1 = nmeta + 1" using mk_count [OF c(1)] c(2) k z1 n by (simp add: stored_def size_of_def numeral_2_eq_2 length_dots)
  obtain st2 where s2: "iappend 1 (mk_dirent 1 (bytes ''..'')) st1 = Some st2"
    using iappend_total [OF c(1) order_refl l1, of "mk_dirent 1 (bytes ''..'')"] z1 b1 n meta_block
    by (auto simp: stored_def size_of_def length_dots MAXFILE_def NDIRECT_def BSIZE_def)
  note d = iappend_spec [OF c(1) order_refl l1 s2]
  have z2: "stored st2 1 T_DIR dots" using iappend_stored [OF c(1) order_refl l1 s2 z1] by (simp add: dots_def)
  have "img st2 1 = img mkfs_start 1" using a(4) c(3) d(3) by (simp add: kept_def)
  then have i2: "img st2 1 = put_bytes zeroes 0 (sb_bytes mkfs_sb)" by (simp add: mkfs_start_def wsect_def)
  have b2: "freeblock st2 = nmeta + need 32" using mk_count [OF d(1)] d(2) c(2) k z2 n by (simp add: stored_def size_of_def numeral_2_eq_2 length_dots)
  have "root_state st2" using s0 s1 s2 k d(1,2) c(2) z2 i2 b2 by (simp add: root_state_def mkfs_main_def)
  then show ?thesis ..
qed

lemma bitmap_block: "c < FSSIZE \<Longrightarrow> unat (BBLOCK (of_nat c) mkfs_sb) = bmapstart"
proof -
  assume c: "c < FSSIZE"
  then have "unat (of_nat c :: uint) = c" by (simp add: unat_fresh)
  then have "unat ((of_nat c :: uint) div 8192) = 0" using c by (simp add: unat_div_distrib FSSIZE_def)
  then have "(of_nat c :: uint) div 8192 = 0" by (simp add: unat_eq_0)
  then show ?thesis by (simp add: BBLOCK_def mkfs_sb_def BPB_def layout_defs)
qed

text \<open>What the kernel finds in the image.\<close>

definition holds_files :: "(uchar list \<times> uchar list list) list \<Rightarrow> mkstate \<Rightarrow> bool" where
  "holds_files args st \<longleftrightarrow>
     (\<forall>k < length args. stored st (k + 2) T_FILE (concat (snd (args ! k)))) \<and> d_type (inode_at st 1) = T_DIR \<and>
     file_of st 1 = dots @ entries 2 args @ replicate (unat (d_size (inode_at st 1)) - 16 * (length args + 2)) 0"

definition blocks_apart :: "(uchar list \<times> uchar list list) list \<Rightarrow> mkstate \<Rightarrow> bool" where
  "blocks_apart args st \<longleftrightarrow>
     (let bs = concat (map (\<lambda>i. blks (img st) (node_at st i)) [1..<length args + 2])
      in distinct bs \<and> set bs \<subseteq> {nmeta..<freeblock st} \<and> freeblock st \<le> FSSIZE)"

definition bitmap_ok :: "mkstate \<Rightarrow> bool" where
  "bitmap_ok st \<longleftrightarrow> (\<forall>b < FSSIZE. block_free (\<lambda>b. img st (unat b)) mkfs_sb b \<longleftrightarrow> freeblock st \<le> b)"

lemma finv_blocks:
  assumes i: "finv V fb (map g js)"
  shows "distinct (concat (map (\<lambda>i. blks V (g i)) js)) \<and> set (concat (map (\<lambda>i. blks V (g i)) js)) \<subseteq> {nmeta..<fb} \<and> fb \<le> FSSIZE"
proof -
  have m: "map (blks V) (map g js) = map (\<lambda>i. blks V (g i)) js" by simp
  have "distinct (concat (map (\<lambda>i. blks V (g i)) js))" "fb \<le> FSSIZE" using i unfolding finv_def m by blast+
  moreover have "set (blks V (g j)) \<subseteq> {nmeta..<fb}" if "j \<in> set js" for j using finv_range [OF i, of "g j"] that by auto
  ultimately show ?thesis by auto
qed

lemma mkfs_partial:
  assumes n: "length args + 2 \<le> NIN" "(length args + 2) mod 64 \<noteq> 0" and s: "mkfs_main args = Some st"
  shows "superblock_of (img st 1) = mkfs_sb" "holds_files args st" "blocks_apart args st" "bitmap_ok st"
proof -
  obtain st2 where "root_state st2" using root_spec ..
  then have r: "mkfs_main args = Option.bind (add_files 1 args st2) (\<lambda>st. Option.bind (fix_root 1 st) (\<lambda>st. m_balloc (freeblock st) st))"
    "mk_inv st2" "freeinode st2 = 2" "stored st2 1 T_DIR dots" "img st2 1 = put_bytes zeroes 0 (sb_bytes mkfs_sb)" "freeblock st2 = nmeta + need 32"
    by (simp_all add: root_state_def)
  obtain st3 st4 where f: "add_files 1 args st2 = Some st3" "fix_root 1 st3 = Some st4" "m_balloc (freeblock st4) st4 = Some st"
    using s unfolding r(1) by (auto split: bind_splits)
  let ?len = "16 * (length args + 2)"
  have a: "mk_inv st3" "freeinode st3 = 2 + length args" "kept st2 st3 {2..<2}" "stored st3 1 T_DIR (dots @ entries 2 args)"
    "\<And>k. k < length args \<Longrightarrow> stored st3 (2 + k) T_FILE (concat (snd (args ! k)))"
    using add_files_spec [OF r(2) _ _ f(1) r(4)] r(3) n(1) by auto
  have z: "unat (d_size (inode_at st3 1)) = ?len" using a(4) by (simp add: stored_def length_dots length_entries)
  have "?len mod (16 * 64) = 16 * ((length args + 2) mod 64)" by (rule mult_mod_right [symmetric])
  then have m: "?len mod BSIZE \<noteq> 0" using n(2) by (simp add: BSIZE_def)
  have M: "?len \<le> MAXFILE * BSIZE" using n(1) by (simp add: layout_defs MAXFILE_def NDIRECT_def NINDIRECT_def)
  have i: "1 < freeinode st3" using a(2) by simp
  note d = finish_spec [OF a(1) i f(2,3) z m M]
  have "img st 1 = put_bytes zeroes 0 (sb_bytes mkfs_sb)" using d(2) a(3) r(5) by (simp add: kept_def)
  then show "superblock_of (img st 1) = mkfs_sb" by (simp add: superblock_read)
  have "stored st (k + 2) T_FILE (concat (snd (args ! k)))" if "k < length args" for k
    by (rule stored_kept [OF _ d(2)]) (use a(5) [OF that] a(2) that in \<open>simp_all add: add.commute\<close>)
  moreover have "file_of st 1 = dots @ entries 2 args @ replicate (nblk ?len * BSIZE - ?len) 0"
  proof -
    let ?D = "dat (img st3) (node_at st3 1)"
    have "file_of st3 1 = dots @ entries 2 args" using a(4) by (simp add: stored_def)
    then have t: "take ?len ?D = dots @ entries 2 args" unfolding file_of_def z .
    have "tail_zero st3 1" using a(1) i by (simp add: mk_inv_def)
    then have "set (drop ?len ?D) \<subseteq> {0}" using z by (simp add: tail_zero_def)
    moreover have "finv (img st3) (freeblock st3) (map (node_at st3) [1..<freeinode st3])" using a(1) unfolding mk_inv_def by blast
    then have "length ?D = nblk ?len * BSIZE" unfolding node_at_def z by (rule length_dat)
    ultimately have "drop ?len ?D = replicate (nblk ?len * BSIZE - ?len) 0" by (intro replicate_eqI) auto
    then show ?thesis using d(6) t append_take_drop_id [of ?len ?D] by simp
  qed
  ultimately show "holds_files args st" using d(4,5) a(4) by (simp add: holds_files_def stored_def)
  have "finv (img st) (freeblock st) (map (node_at st) [1..<length args + 2])" using d(1) a(2) by (simp add: add.commute)
  then show "blocks_apart args st" unfolding blocks_apart_def Let_def by (rule finv_blocks)
  have "block_free (\<lambda>b. img st (unat b)) mkfs_sb c \<longleftrightarrow> freeblock st \<le> c" if "c < FSSIZE" for c
  proof -
    have "c < BSIZE * 8" "c mod BPB = c" using that by (simp_all add: BPB_def BSIZE_def FSSIZE_def)
    then show ?thesis using d(3,7) bitmap_block [OF that] by (simp add: block_free_def)
  qed
  then show "bitmap_ok st" by (simp add: bitmap_ok_def)
qed

lemma mkfs_total:
  assumes n: "length args + 2 \<le> NIN" and f: "fits args"
  shows "\<exists>st. mkfs_main args = Some st"
proof -
  obtain st2 where "root_state st2" using root_spec ..
  then have r: "mkfs_main args = Option.bind (add_files 1 args st2) (\<lambda>st. Option.bind (fix_root 1 st) (\<lambda>st. m_balloc (freeblock st) st))"
    "mk_inv st2" "freeinode st2 = 2" "stored st2 1 T_DIR dots" "img st2 1 = put_bytes zeroes 0 (sb_bytes mkfs_sb)" "freeblock st2 = nmeta + need 32"
    by (simp_all add: root_state_def)
  have "\<exists>st'. add_files 1 args st2 = Some st'"
    by (rule add_files_total [OF r(2) _ _ r(4)]) (use r(3,6) n f in \<open>simp_all add: fits_def length_dots add.commute\<close>)
  then obtain st3 where s: "add_files 1 args st2 = Some st3" by blast
  have a: "mk_inv st3" "freeinode st3 = 2 + length args" using add_files_spec [OF r(2) _ _ s r(4)] r(3) n by auto
  have N: "1 < NIN" by (simp add: layout_defs)
  obtain st4 where s4: "fix_root 1 st3 = Some st4" "freeblock st4 = freeblock st3"
    using rinode_Some [OF N] inode_block [OF N] meta_block by (auto simp: fix_root_def winode_def rsect_def wsect_def Let_def)
  have "freeblock st3 \<le> FSSIZE" using a(1) by (simp add: mk_inv_def finv_def)
  then show ?thesis using s s4 unfolding r(1) by (simp add: m_balloc_def FSSIZE_def BSIZE_def)
qed

text \<open>
  C12. \<^verbatim>\<open>mkfs\<close> succeeds whenever the files fit, and the image it builds is the file system the kernel
  expects. The superblock is read back as written; every file is an inode whose blocks, found as \<^verbatim>\<open>bmap\<close>
  finds them, direct and indirect, hold exactly the bytes read from the host, in whatever portions; the root
  directory is \<open>.\<close>, \<open>..\<close> and one entry for each file, padded with zero entries; no block belongs to two files,
  or to a file and its index; and the kernel's test of the bitmap finds exactly the blocks not allocated to be
  free. Two hypotheses name what the code does not check: the inodes fit in their blocks, and the directory
  does not end at a block boundary.
\<close>

theorem mkfs_image:
  assumes "length args + 2 \<le> NIN" "(length args + 2) mod 64 \<noteq> 0"
  shows "(fits args \<longrightarrow> (\<exists>st. mkfs_main args = Some st)) \<and>
    (\<forall>st. mkfs_main args = Some st \<longrightarrow>
       superblock_of (img st 1) = mkfs_sb \<and> holds_files args st \<and> blocks_apart args st \<and> bitmap_ok st)"
  using mkfs_total [OF assms(1)] mkfs_partial [OF assms] by blast

theorem mkfs_image_witness:
  "\<exists>st. mkfs_main [(bytes ''user/_sh'', [bytes ''ab'', bytes ''c''])] = Some st \<and>
     stored st 2 T_FILE (bytes ''abc'') \<and>
     file_of st 1 = dots @ mk_dirent 2 (bytes ''sh'') @ replicate (unat (d_size (inode_at st 1)) - 48) 0"
proof -
  let ?f = "(bytes ''user/_sh'', [bytes ''ab'', bytes ''c''])"
  have n: "length [?f] + 2 \<le> NIN" "(length [?f] + 2) mod 64 \<noteq> 0" by (simp_all add: layout_defs)
  have s: "shortname (fst ?f) = bytes ''_sh''" by (simp add: shortname_def bytes_def)
  have "no_slash (fst ?f)" unfolding no_slash_def s by (simp add: bytes_def)
  then have "fits [?f]"
    by (simp add: fits_def need_def nblk_def bytes_def layout_defs MAXFILE_def NDIRECT_def NINDIRECT_def)
  then obtain st where st: "mkfs_main [?f] = Some st" "holds_files [?f] st" using mkfs_image [OF n] by blast
  have "entries 2 [?f] = mk_dirent 2 (bytes ''sh'')" unfolding entries.simps entry_of_def s by (simp add: skip_underscore_def bytes_def)
  then have "stored st 2 T_FILE (bytes ''abc'') \<and>
     file_of st 1 = dots @ mk_dirent 2 (bytes ''sh'') @ replicate (unat (d_size (inode_at st 1)) - 48) 0"
    using st(2) by (simp add: holds_files_def bytes_def numeral_2_eq_2)
  then show ?thesis using st(1) by blast
qed

end
