(* ===== verification/Spec2Isabelle.thy ===== *)
theory Spec2Isabelle
  imports Cpus Log_Crash Boot Asm Descriptors Paths Stack_Image Pipe_Queue Disk_Queue Reap Fs_Blocks Grep Heap_Safety Sh_Main Mkfs_Image
begin

text \<open>
  A verification development of an operating system of the xv6 family for RISC-V, with a priority and a
  CFS scheduler beside the round-robin one, and of its user library and tools. The sources are under
  \<^verbatim>\<open>src/\<close>: the kernel in \<^verbatim>\<open>src/kernel\<close>, the user programs in \<^verbatim>\<open>src/user\<close>, the builder of the disk image in \<^verbatim>\<open>src/mkfs\<close>.

  The program. Several harts run the kernel. Processes enter it through traps (\<^verbatim>\<open>trampoline.S\<close>, \<^verbatim>\<open>trap.c\<close>),
  the dispatcher (\<^verbatim>\<open>syscall.c\<close>) calls the system calls (\<^verbatim>\<open>sysproc.c\<close>, \<^verbatim>\<open>sysfile.c\<close>), which work on the process
  table (\<^verbatim>\<open>proc.c\<close>), open files (\<^verbatim>\<open>file.c\<close>), pipes (\<^verbatim>\<open>pipe.c\<close>) and the file system (\<^verbatim>\<open>fs.c\<close>). The file system
  reads and writes blocks through the buffer cache (\<^verbatim>\<open>bio.c\<close>) and groups writes into transactions by a log
  (\<^verbatim>\<open>log.c\<close>); the disk driver (\<^verbatim>\<open>virtio_disk.c\<close>) moves the blocks. Spin-locks (\<^verbatim>\<open>spinlock.c\<close>), sleep-locks
  (\<^verbatim>\<open>sleeplock.c\<close>), the page allocator (\<^verbatim>\<open>kalloc.c\<close>), the console (\<^verbatim>\<open>console.c\<close>, \<^verbatim>\<open>uart.c\<close>, \<^verbatim>\<open>printf.c\<close>) and
  \<^verbatim>\<open>exec.c\<close> complete the kernel; \<^verbatim>\<open>start.c\<close> and \<^verbatim>\<open>main.c\<close> boot it.

  How it is modelled.
  \<^item> Integers are words of the width of the C type, with these exceptions, which are unbounded integers: the
    counters of the schedulers (the accumulator, the run, sleep and ready times and the virtual run time,
    64-bit in C, where overflow takes more than 2^32 clock ticks) and the reference counts of buffers. Pointers into tables are indices, the null pointer is
    \<open>None\<close>; arrays are lists or functions, and an access outside an array is the result \<open>Fault\<close>.
  \<^item> The state is a chain of records, each extending the one below with the data of one component: the
    machine (\<^verbatim>\<open>Machine\<close>), physical memory (\<^verbatim>\<open>Kalloc\<close>), the process table (\<^verbatim>\<open>Proc\<close>), sleep-locks, buffers and
    disk (\<^verbatim>\<open>Bio\<close>), log, serial port, console, inodes (\<^verbatim>\<open>Fs\<close>), pipes, files, disk queues (\<^verbatim>\<open>Virtio\<close>), trap
    registers (\<^verbatim>\<open>Trap\<close>), and the boot flag (\<^verbatim>\<open>Boot\<close>). A routine takes the state and returns a result:
    \<open>Ret\<close> a value and a state, \<open>Panic\<close> the message of \<^verbatim>\<open>panic\<close>, \<open>Swtch\<close> the state in which it gives the CPU
    up by \<^verbatim>\<open>swtch\<close>, \<open>Hang\<close> if it never comes back, or \<open>Fault\<close>. What a routine does after it is switched
    back in is a definition of its own with the suffix \<open>_resume\<close>.
  \<^item> Loops over a table are \<^verbatim>\<open>for_loop\<close> or structural recursion. Other loops have a bound as an argument, and
    running out of it is \<open>Hang\<close>; the theorems show that a result is returned, so the bounds are enough: the
    rounds over paths and file ranges (theory \<open>Paths\<close>), the scans of the buffer list (\<^verbatim>\<open>NBUF\<close> steps), the free
    list (\<^verbatim>\<open>freerange\<close>). Loops of the user allocator are partial functions, shown to return.
  \<^item> \<^verbatim>\<open>vm.c\<close> is not among the sources. Its routines are the fields of the record \<^verbatim>\<open>vm_ops\<close> (theory \<open>Vm\<close>),
    an argument of every definition that calls them; properties that need something of them say so in a
    hypothesis, and \<^verbatim>\<open>flat_vm\<close> and \<^verbatim>\<open>small_vm\<close> are instances for the witnesses.
  \<^item> Devices: values the hardware returns for reads are inputs in the state, values written are outputs.

  The theories, from the bottom.
  \<^item> \<open>Prelude\<close>, \<open>Bytes\<close>, \<open>Dll\<close>, \<open>Ring\<close>: the library, with the result type, loops, byte encodings, doubly
    linked lists and ring buffers with wrapping counters.
  \<^item> \<open>Machine\<close>, \<open>Spinlock\<close>: constants of \<^verbatim>\<open>param.h\<close>, \<^verbatim>\<open>memlayout.h\<close>, \<^verbatim>\<open>riscv.h\<close>, and \<^verbatim>\<open>spinlock.c\<close>; mutual
    exclusion under every interleaving of the harts.
  \<^item> \<open>CString\<close>: \<^verbatim>\<open>string.c\<close>; copying with overlap, and bounds of the string routines.
  \<^item> \<open>Kalloc\<close>: \<^verbatim>\<open>kalloc.c\<close>; a page handed out is not in use.
  \<^item> \<open>Proc\<close>, \<open>Scheduler\<close>, \<open>Lifecycle\<close>, \<open>Reap\<close>: \<^verbatim>\<open>proc.c\<close>; which process each scheduler runs, and what \<^verbatim>\<open>wait\<close> returns.
  \<^item> \<open>Sleeplock\<close>, \<open>Bio\<close>, \<open>Block_Cache\<close>: \<^verbatim>\<open>sleeplock.c\<close>, \<^verbatim>\<open>bio.c\<close>; the least-recently-used list, coherence of the
    cache, and the contract \<open>block_cache\<close> that the log and the file system rely on, a locale interpreted on the
    routines of \<^verbatim>\<open>bio.c\<close>.
  \<^item> \<open>Log\<close>, \<open>Log_Disk\<close>, \<open>Log_Crash\<close>: \<^verbatim>\<open>log.c\<close>; transactions are atomic with respect to crashes at any block write,
    also of the recovery, and what the reservation of \<^verbatim>\<open>begin_op\<close> does not cover.
  \<^item> \<open>Vm\<close>: the interface of \<^verbatim>\<open>vm.c\<close> and the copying routines.
  \<^item> \<open>Uart\<close>, \<open>Printf\<close>, \<open>Console\<close>: \<^verbatim>\<open>uart.c\<close>, \<^verbatim>\<open>printf.c\<close>, \<^verbatim>\<open>console.c\<close>; output order, decimal numbers, line editing
    as a refinement of editing on lists.
  \<^item> \<open>Fs\<close>, \<open>Fs_Blocks\<close>, \<open>Paths\<close>: \<^verbatim>\<open>fs.c\<close>; first-fit allocation of blocks, round trip of inodes through the disk,
    the components of paths, and termination of the loops.
  \<^item> \<open>Pipe\<close>, \<open>Pipe_Queue\<close>, \<open>File\<close>, \<open>Exec\<close>, \<open>Stack_Image\<close>: \<^verbatim>\<open>pipe.c\<close>, \<^verbatim>\<open>file.c\<close>, \<^verbatim>\<open>exec.c\<close>; pipes as bounded queues,
    and the bounds of the stack image.
  \<^item> \<open>Sysproc\<close>, \<open>Sysfile\<close>, \<open>Trap\<close>: \<^verbatim>\<open>syscall.c\<close>, \<^verbatim>\<open>sysproc.c\<close>, \<^verbatim>\<open>sysfile.c\<close>, \<^verbatim>\<open>trap.c\<close>, \<^verbatim>\<open>plic.c\<close>.
  \<^item> \<open>Frames\<close>, \<open>Descriptors\<close>: what each layer leaves alone, and that the reference counts of open files are
    right after every system call.
  \<^item> \<open>Sched_Frame\<close>, \<open>Cpus\<close>: all CPUs with the schedulers and the processes they run. Every routine a process
    can enter, from \<^verbatim>\<open>usertrap\<close> and \<^verbatim>\<open>kerneltrap\<close> through all system calls, either returns with the same
    processes RUNNING and the same locks held, or gives the CPU up in \<^verbatim>\<open>sched\<close> with only its own process no
    longer RUNNING; so no process runs on two CPUs. A step is a whole routine up to the point where it
    gives up the CPU; the rest of a call that slept is any sequence of the routines of \<^verbatim>\<open>proc.c\<close> it can call,
    with any other assignments between them. Also the growth of the stack by policy changes.
  \<^item> \<open>Virtio\<close>, \<open>Disk_Queue\<close>: \<^verbatim>\<open>virtio_disk.c\<close>; driver and device as one transition system, and the effect of a
    request on buffer and disk that the block cache uses, from the behaviour of the device as a hypothesis.
  \<^item> \<open>Asm\<close>, \<open>Boot\<close>: \<^verbatim>\<open>trampoline.S\<close>, \<^verbatim>\<open>swtch.S\<close>, \<^verbatim>\<open>kernelvec.S\<close>, \<^verbatim>\<open>start.c\<close>, \<^verbatim>\<open>main.c\<close>; saved registers are restored.
  \<^item> \<open>Ulib\<close>, \<open>Umalloc\<close>, \<open>Heap_Safety\<close>: \<^verbatim>\<open>ulib.c\<close>, \<^verbatim>\<open>printf.c\<close> and \<^verbatim>\<open>umalloc.c\<close> of the user library; \<^verbatim>\<open>gets\<close>, numbers,
    and that blocks handed out by \<^verbatim>\<open>malloc\<close> never overlap.
  \<^item> \<open>Grep\<close>: \<^verbatim>\<open>grep.c\<close>; the matcher decides the language of the pattern, and the lines printed.
  \<^item> \<open>Sh\<close>, \<open>Sh_Parse\<close>, \<open>Sh_Roundtrip\<close>, \<open>Sh_Run\<close>, \<open>Sh_Main\<close>: \<^verbatim>\<open>sh.c\<close>; the recursive descent has fuel, four units for
    each byte of the line, and never runs out of it; the parser reads back the text of every command; the
    processes that run a line, as a transition system over their system calls, any of which may fail, come
    to an end in every order, report every failure, and start each command with the right descriptors.
  \<^item> \<open>Mkfs\<close>, \<open>Mkfs_Image\<close>: \<^verbatim>\<open>mkfs.c\<close>; the image has every file with its bytes, in the format of \<^verbatim>\<open>fs.c\<close>, and \<^verbatim>\<open>mkfs\<close> succeeds
    when the files fit.

  Not modelled.
  \<^item> \<^verbatim>\<open>vm.c\<close>: the source is absent (see above). \<^verbatim>\<open>entry.S\<close> sets the stack pointer and jumps. \<^verbatim>\<open>ramdisk.c\<close> is not part
    of the build. Most accessors in \<^verbatim>\<open>riscv.h\<close> are single instructions.
  \<^item> Timing, memory ordering weaker than interleaving, and page faults inside the kernel.
  \<^item> The test programs \<^verbatim>\<open>usertests.c\<close> and \<^verbatim>\<open>grind.c\<close> and the small programs, which only call the system.
\<close>

end
